(* ===== verification/Prelude.thy ===== *)
theory Prelude
  imports Main "HOL-Library.Word"
begin

text \<open>
  Shared ground of the development: the result type every fallible Rust function returns
  (\<open>src/src/error.rs\<close>), Rust's seg indexing and checked integer arithmetic, and
  the generic lemmas on lists and slices the components use.

  Integers. An unsigned Rust integer is a \<open>nat\<close>, its width written out where a value is
  cast, shifted or added; bit patterns that are only ever masked and shifted (checksums,
  hashes, inode bitmaps) are words. An operation that Rust's overflow checks would stop is
  \<open>Panic\<close>, as is an index out of range or a failed assertion; so a theorem that a function
  does not panic also says that a build without the checks computes the same value.
\<close>

unbundle bit_operations_syntax

section \<open>Results\<close>

type_synonym byte = "8 word"

text \<open>The error variants; the message texts are not modelled.\<close>

datatype error =
    Io | NotXfs | Corrupt | DirtyLog nat nat | Unsupported | NotFound | NotADirectory
  | IsADirectory | NotASymlink | SymlinkLoop | InvalidPath | Exists | NotEmpty | NoSpace

datatype 'a res = Ok 'a | Err error | Panic

text \<open>The question mark operator: go on with the value, or return the error.\<close>

primrec and_then :: "'a res \<Rightarrow> ('a \<Rightarrow> 'b res) \<Rightarrow> 'b res" where
  "and_then (Ok a) f = f a"
| "and_then (Err e) f = Err e"
| "and_then Panic f = Panic"

definition map_ok :: "('a \<Rightarrow> 'b) \<Rightarrow> 'a res \<Rightarrow> 'b res" where
  "map_ok f x = and_then x (\<lambda>a. Ok (f a))"

text \<open>\<open>Option::ok_or\<close>.\<close>

primrec ok_or :: "error \<Rightarrow> 'a option \<Rightarrow> 'a res" where
  "ok_or e None = Err e"
| "ok_or e (Some a) = Ok a"

text \<open>Collecting fallible results, and a \<open>for\<close> loop with a fallible body.\<close>

primrec map_res :: "('a \<Rightarrow> 'b res) \<Rightarrow> 'a list \<Rightarrow> 'b list res" where
  "map_res f [] = Ok []"
| "map_res f (x # xs) = and_then (f x) (\<lambda>y. and_then (map_res f xs) (\<lambda>ys. Ok (y # ys)))"

primrec fold_res :: "('a \<Rightarrow> 's \<Rightarrow> 's res) \<Rightarrow> 'a list \<Rightarrow> 's \<Rightarrow> 's res" where
  "fold_res f [] s = Ok s"
| "fold_res f (x # xs) s = and_then (f x s) (fold_res f xs)"

section \<open>Checked integer arithmetic\<close>

definition add_w :: "nat \<Rightarrow> nat \<Rightarrow> nat \<Rightarrow> nat res" where
  "add_w w a b = (if a + b < 2 ^ w then Ok (a + b) else Panic)"

definition sub_w :: "nat \<Rightarrow> nat \<Rightarrow> nat res" where
  "sub_w a b = (if b \<le> a then Ok (a - b) else Panic)"

definition mul_w :: "nat \<Rightarrow> nat \<Rightarrow> nat \<Rightarrow> nat res" where
  "mul_w w a b = (if a * b < 2 ^ w then Ok (a * b) else Panic)"

text \<open>\<open>a << s\<close> at width \<open>w\<close>: bits shifted out are lost, a shift by the width or more panics.\<close>

definition shl_w :: "nat \<Rightarrow> nat \<Rightarrow> nat \<Rightarrow> nat res" where
  "shl_w w a s = (if s < w then Ok ((a * 2 ^ s) mod 2 ^ w) else Panic)"

definition shr_w :: "nat \<Rightarrow> nat \<Rightarrow> nat \<Rightarrow> nat res" where
  "shr_w w a s = (if s < w then Ok (a div 2 ^ s) else Panic)"

definition div_ceil :: "nat \<Rightarrow> nat \<Rightarrow> nat" where
  "div_ceil a b = (if a mod b = 0 then a div b else a div b + 1)"

definition is_power_of_two :: "nat \<Rightarrow> bool" where
  "is_power_of_two n = list_ex (\<lambda>k. n = 2 ^ k) [0..<64]"

text \<open>\<open>x & !y\<close> on 64 bits.\<close>

definition and_not :: "nat \<Rightarrow> nat \<Rightarrow> nat" where
  "and_not x y = x AND (2 ^ 64 - 1 - y)"

section \<open>Slices\<close>

definition seg :: "'a list \<Rightarrow> nat \<Rightarrow> nat \<Rightarrow> 'a list" where
  "seg xs i n = take n (drop i xs)"

definition patch :: "'a list \<Rightarrow> nat \<Rightarrow> 'a list \<Rightarrow> 'a list" where
  "patch xs i ys = take i xs @ ys @ drop (i + length ys) xs"

text \<open>\<open>&b[i..i + n]\<close>, \<open>b[i]\<close>, \<open>&b[i..]\<close> and \<open>b[i..i + n].copy_from_slice\<close>.\<close>

definition get :: "'a list \<Rightarrow> nat \<Rightarrow> nat \<Rightarrow> 'a list res" where
  "get b i n = (if i + n \<le> length b then Ok (seg b i n) else Panic)"

definition index :: "'a list \<Rightarrow> nat \<Rightarrow> 'a res" where
  "index b i = (if i < length b then Ok (b ! i) else Panic)"

definition get_from :: "'a list \<Rightarrow> nat \<Rightarrow> 'a list res" where
  "get_from b i = (if i \<le> length b then Ok (drop i b) else Panic)"

definition copy_in :: "'a list \<Rightarrow> nat \<Rightarrow> 'a list \<Rightarrow> 'a list res" where
  "copy_in b i ys = (if i + length ys \<le> length b then Ok (patch b i ys) else Panic)"

text \<open>A run of such writes into one buffer, in order.\<close>

definition puts :: "(nat \<times> 'a list) list \<Rightarrow> 'a list \<Rightarrow> 'a list res" where
  "puts ws b = fold_res (\<lambda>(i, ys) b. copy_in b i ys) ws b"

section \<open>Automation\<close>

named_theorems res_simps \<open>evaluation of results\<close>
named_theorems slice_simps \<open>lengths and contents of slices\<close>

lemma and_then_assoc [res_simps]:
  "and_then (and_then x f) g = and_then x (\<lambda>a. and_then (f a) g)"
  by (cases x) simp_all

lemma and_then_eq_Ok [res_simps]:
  "and_then x f = Ok b \<longleftrightarrow> (\<exists>a. x = Ok a \<and> f a = Ok b)"
  by (cases x) simp_all

lemma and_then_eq_Panic [res_simps]:
  "and_then x f = Panic \<longleftrightarrow> x = Panic \<or> (\<exists>a. x = Ok a \<and> f a = Panic)"
  by (cases x) simp_all

lemma and_then_Ok_right [simp]: "and_then x Ok = x"
  by (cases x) simp_all

lemma and_then_OkE:
  assumes "and_then x f = Ok b"
  obtains a where "x = Ok a" and "f a = Ok b"
  using assms by (cases x) simp_all

lemma map_ok_simps [simp]:
  "map_ok f (Ok a) = Ok (f a)" "map_ok f (Err e) = Err e" "map_ok f Panic = Panic"
  by (simp_all add: map_ok_def)

lemma map_ok_eq_Ok [res_simps]: "map_ok f x = Ok b \<longleftrightarrow> (\<exists>a. x = Ok a \<and> b = f a)"
  by (cases x) auto

lemma ok_or_eq_Ok [res_simps]: "ok_or e x = Ok a \<longleftrightarrow> x = Some a"
  by (cases x) auto

lemma ok_or_not_Panic [simp]: "ok_or e x \<noteq> Panic"
  by (cases x) auto

lemma if_Panic_iff [res_simps]: "(if c then x else y) = Panic \<longleftrightarrow> (if c then x = Panic else y = Panic)"
  by simp

lemma map_res_Ok:
  "(\<And>x. x \<in> set xs \<Longrightarrow> f x = Ok (g x)) \<Longrightarrow> map_res f xs = Ok (map g xs)"
  by (induction xs) auto

lemma map_res_append:
  "map_res f (xs @ ys) = and_then (map_res f xs) (\<lambda>as. and_then (map_res f ys) (\<lambda>bs. Ok (as @ bs)))"
  by (induction xs) (simp_all add: and_then_assoc)

lemma map_res_length: "map_res f xs = Ok ys \<Longrightarrow> length ys = length xs"
  by (induction xs arbitrary: ys) (auto simp: and_then_eq_Ok)

lemma map_res_not_Panic:
  "(\<And>x. x \<in> set xs \<Longrightarrow> f x \<noteq> Panic) \<Longrightarrow> map_res f xs \<noteq> Panic"
  by (induction xs) (auto simp: and_then_eq_Panic)

lemma map_res_all2:
  "(\<And>x. x \<in> set xs \<Longrightarrow> \<exists>y. f x = Ok y \<and> P x y) \<Longrightarrow> \<exists>ys. map_res f xs = Ok ys \<and> list_all2 P xs ys"
proof (induction xs)
  case (Cons x xs)
  obtain y ys where "f x = Ok y" "P x y" "map_res f xs = Ok ys" "list_all2 P xs ys"
    using Cons.IH Cons.prems [of x] Cons.prems by (metis list.set_intros)
  then show ?case by simp
qed simp

lemma and_then_cong [fundef_cong]:
  "x = y \<Longrightarrow> (\<And>a. y = Ok a \<Longrightarrow> f a = g a) \<Longrightarrow> and_then x f = and_then y g"
  by (cases y) simp_all

lemma fold_res_append: "fold_res f (xs @ ys) s = and_then (fold_res f xs s) (fold_res f ys)"
  by (induction xs arbitrary: s) (simp_all add: and_then_assoc fun_eq_iff cong: res.case_cong,
    metis (no_types, lifting) ext)

lemma fold_res_invariant:
  assumes "fold_res f xs s = Ok t" and "P s"
    and "\<And>x s t. x \<in> set xs \<Longrightarrow> P s \<Longrightarrow> f x s = Ok t \<Longrightarrow> P t"
  shows "P t"
  using assms by (induction xs arbitrary: s) (auto simp: and_then_eq_Ok)

section \<open>Arithmetic\<close>

lemma div_ceil_mult: "0 < b \<Longrightarrow> div_ceil (a * b) b = a"
  by (simp add: div_ceil_def)

lemma div_ceil_0 [simp]: "div_ceil 0 b = 0"
  by (simp add: div_ceil_def)

lemma div_ceil_bounds:
  assumes "0 < b"
  shows "a \<le> div_ceil a b * b" and "div_ceil a b * b < a + b"
proof -
  have a: "a = a div b * b + a mod b" by simp
  have m: "a mod b < b" using assms by simp
  have d: "div_ceil a b * b = a div b * b + (if a mod b = 0 then 0 else b)"
    by (simp add: div_ceil_def)
  show "a \<le> div_ceil a b * b"
    unfolding d using a m by (metis add.right_neutral less_imp_le nat_add_left_cancel_le order_refl)
  show "div_ceil a b * b < a + b"
  proof (cases "a mod b = 0")
    case False
    have "a div b * b < a" using False a by linarith
    then show ?thesis unfolding d using False by simp
  next
    case True
    then have "div_ceil a b * b = a" using a d by simp
    then show ?thesis using assms by simp
  qed
qed

lemma div_ceil_le:
  assumes "0 < b" and "a \<le> c * b"
  shows "div_ceil a b \<le> c"
proof (rule ccontr)
  assume "\<not> div_ceil a b \<le> c"
  then have "Suc c * b \<le> div_ceil a b * b" by (intro mult_le_mono1) simp
  with div_ceil_bounds(2) [OF assms(1), of a] assms(2) show False by simp
qed

lemma div_ceil_pos: "0 < a \<Longrightarrow> 0 < b \<Longrightarrow> 0 < div_ceil a b"
  using div_ceil_bounds(1) [of b a] by (cases "div_ceil a b") auto

lemma is_power_of_twoE:
  assumes "is_power_of_two n"
  obtains k where "k < 64" and "n = 2 ^ k"
  using assms by (auto simp: is_power_of_two_def list_ex_iff)

lemma is_power_of_twoI: "k < 64 \<Longrightarrow> is_power_of_two (2 ^ k)"
  by (auto simp: is_power_of_two_def list_ex_iff)

lemma and_not_mask:
  assumes "k \<le> 64" and "x < 2 ^ 64"
  shows "and_not x (2 ^ k - 1) = x div 2 ^ k * 2 ^ k"
proof -
  have "(2 ^ 64 :: nat) = 2 ^ k * 2 ^ (64 - k)" using assms(1) by (simp flip: power_add)
  then have m: "2 ^ 64 - 1 - (2 ^ k - 1) = push_bit k (mask (64 - k) :: nat)"
    by (simp add: push_bit_eq_mult mask_eq_exp_minus_1 algebra_simps)
  have "\<not> bit x n" if "64 \<le> n" for n
    using that assms(2) by (metis bit_take_bit_iff linorder_not_le take_bit_nat_eq_self_iff)
  then have "n < 64" if "bit x n" for n using that by (meson not_le)
  then have "x AND push_bit k (mask (64 - k)) = push_bit k (drop_bit k x)"
    by (intro bit_eqI) (auto simp: bit_and_iff bit_push_bit_iff bit_mask_iff bit_drop_bit_eq less_diff_conv)
  then show ?thesis unfolding and_not_def m by (simp add: push_bit_eq_mult drop_bit_eq_div mult.commute)
qed

lemma and_not_7: "n < 2 ^ 64 \<Longrightarrow> and_not n 7 = n div 8 * 8"
  using and_not_mask [of 3 n] by simp

section \<open>Slices: lemmas\<close>

lemma length_seg [simp, slice_simps]: "i + n \<le> length xs \<Longrightarrow> length (seg xs i n) = n"
  by (simp add: seg_def)

lemma length_seg_le: "length (seg xs i n) \<le> n"
  by (simp add: seg_def)

lemma seg_0 [simp]: "seg xs i 0 = []"
  by (simp add: seg_def)

lemma seg_all: "seg xs 0 (length xs) = xs"
  by (simp add: seg_def)

lemma seg_nth: "j < n \<Longrightarrow> i + n \<le> length xs \<Longrightarrow> seg xs i n ! j = xs ! (i + j)"
  by (simp add: seg_def)

lemma seg_seg: "j + m \<le> n \<Longrightarrow> seg (seg xs i n) j m = seg xs (i + j) m"
  by (simp add: seg_def drop_take add.commute min_def)

lemma seg_append_left: "i + n \<le> length xs \<Longrightarrow> seg (xs @ ys) i n = seg xs i n"
  by (simp add: seg_def)

lemma seg_append_right: "length xs \<le> i \<Longrightarrow> seg (xs @ ys) i n = seg ys (i - length xs) n"
  by (simp add: seg_def)

lemma seg_replicate: "i + n \<le> m \<Longrightarrow> seg (replicate m x) i n = replicate n x"
  by (simp add: seg_def)

lemma seg_add: "seg xs i (m + n) = seg xs i m @ seg xs (i + m) n"
  by (simp add: seg_def take_add add.commute)

lemma seg_Suc: "i < length xs \<Longrightarrow> seg xs i (Suc n) = xs ! i # seg xs (Suc i) n"
  by (simp add: seg_def Cons_nth_drop_Suc [symmetric])

lemma set_seg_subset: "set (seg xs i n) \<subseteq> set xs"
  by (auto simp: seg_def dest: in_set_takeD in_set_dropD)

lemma length_patch [simp, slice_simps]: "i + length ys \<le> length xs \<Longrightarrow> length (patch xs i ys) = length xs"
  by (simp add: patch_def)

lemma seg_patch_same [simp, slice_simps]:
  "i + length ys \<le> length xs \<Longrightarrow> n = length ys \<Longrightarrow> seg (patch xs i ys) i n = ys"
  by (simp add: seg_def patch_def)

lemma patch_patch:
  "i + length ys \<le> length xs \<Longrightarrow> length zs \<le> length ys \<Longrightarrow>
   patch (patch xs i ys) i zs = patch xs i (zs @ drop (length zs) ys)"
  by (simp add: patch_def)

lemma nth_patch:
  "i + length ys \<le> length xs \<Longrightarrow> k < length xs \<Longrightarrow>
   patch xs i ys ! k = (if i \<le> k \<and> k < i + length ys then ys ! (k - i) else xs ! k)"
  by (auto simp: patch_def nth_append)

lemma seg_patch_other:
  assumes "i + length ys \<le> length xs" and "j + n \<le> i \<or> i + length ys \<le> j" and "j + n \<le> length xs"
  shows "seg (patch xs i ys) j n = seg xs j n"
proof (rule nth_equalityI)
  show "length (seg (patch xs i ys) j n) = length (seg xs j n)"
    using assms by simp
next
  fix k assume k: "k < length (seg (patch xs i ys) j n)"
  with assms have "k < n" by simp
  with assms show "seg (patch xs i ys) j n ! k = seg xs j n ! k"
    by (auto simp: seg_nth nth_patch)
qed

lemma patch_seg_id: "i + n \<le> length xs \<Longrightarrow> patch xs i (seg xs i n) = xs"
  by (simp add: patch_def seg_def) (metis append_take_drop_id drop_drop add.commute)

lemma get_eq_Ok [res_simps]: "get b i n = Ok x \<longleftrightarrow> i + n \<le> length b \<and> x = seg b i n"
  by (auto simp: get_def)

lemma get_in [simp]: "i + n \<le> length b \<Longrightarrow> get b i n = Ok (seg b i n)"
  by (simp add: get_def)

lemma index_in [simp]: "i < length b \<Longrightarrow> index b i = Ok (b ! i)"
  by (simp add: index_def)

lemma index_eq_Ok [res_simps]: "index b i = Ok x \<longleftrightarrow> i < length b \<and> x = b ! i"
  by (auto simp: index_def)

lemma get_from_in [simp]: "i \<le> length b \<Longrightarrow> get_from b i = Ok (drop i b)"
  by (simp add: get_from_def)

lemma copy_in_in [simp]: "i + length ys \<le> length b \<Longrightarrow> copy_in b i ys = Ok (patch b i ys)"
  by (simp add: copy_in_def)

lemma copy_in_eq_Ok [res_simps]:
  "copy_in b i ys = Ok c \<longleftrightarrow> i + length ys \<le> length b \<and> c = patch b i ys"
  by (auto simp: copy_in_def)

lemma puts_simps [simp]:
  "puts [] b = Ok b" "puts ((i, ys) # ws) b = and_then (copy_in b i ys) (puts ws)"
  by (simp_all add: puts_def fun_eq_iff) (metis puts_def)

text \<open>The same without the buffer, for runs of setters.\<close>

lemma puts_fun:
  "puts [] = Ok" "puts ((i, ys) # ws) = (\<lambda>b. and_then (copy_in b i ys) (puts ws))"
  by (simp_all add: fun_eq_iff)

lemma puts_append: "puts (ws @ vs) b = and_then (puts ws b) (puts vs)"
  by (simp add: puts_def fold_res_append fun_eq_iff) (metis puts_def)

lemma puts_length: "puts ws b = Ok c \<Longrightarrow> length c = length b"
proof (induction ws arbitrary: b)
  case (Cons w ws)
  then show ?case by (cases w) (auto simp: res_simps)
qed simp

text \<open>
  What a run of writes leaves at a position: the last write that covers it, or what was
  there before; \<open>None\<close> when the last write that touches it covers it only in part.
\<close>

primrec field :: "(nat \<times> 'a list) list \<Rightarrow> nat \<Rightarrow> nat \<Rightarrow> 'a list option \<Rightarrow> 'a list option" where
  "field [] i n acc = acc"
| "field (w # ws) i n acc = field ws i n
     (if fst w + length (snd w) \<le> i \<or> i + n \<le> fst w then acc
      else if fst w \<le> i \<and> i + n \<le> fst w + length (snd w) then Some (seg (snd w) (i - fst w) n)
      else None)"

lemma field_append: "field (ws @ vs) i n acc = field vs i n (field ws i n acc)"
  by (induction ws arbitrary: acc) simp_all

lemma field_None: "field ws i n None = Some ys \<Longrightarrow> field ws i n acc = Some ys"
  by (induction ws arbitrary: acc) (auto split: if_splits)

lemma seg_patch_inside:
  assumes "i + length ys \<le> length xs" and "i \<le> j" and "j + n \<le> i + length ys"
  shows "seg (patch xs i ys) j n = seg ys (j - i) n"
proof -
  have "seg (patch xs i ys) j n = seg (seg (patch xs i ys) i (length ys)) (j - i) n"
    using assms by (subst seg_seg) auto
  then show ?thesis using assms by simp
qed

lemma puts_field:
  assumes "puts ws b = Ok c" and "i + n \<le> length b" and "field ws i n (Some (seg b i n)) = Some ys"
  shows "seg c i n = ys"
  using assms
proof (induction ws arbitrary: b)
  case (Cons w ws)
  obtain j zs where w: "w = (j, zs)" by (cases w)
  from Cons.prems(1) have j: "j + length zs \<le> length b" and rest: "puts ws (patch b j zs) = Ok c"
    by (auto simp: w res_simps)
  have "field ws i n (Some (seg (patch b j zs) i n)) = Some ys"
    using Cons.prems j by (auto simp: w seg_patch_other seg_patch_inside split: if_splits dest: field_None)
  with Cons.IH [OF rest] Cons.prems(2) j show ?case by simp
qed simp

lemma puts_total: "list_all (\<lambda>w. fst w + length (snd w) \<le> length b) ws \<Longrightarrow> \<exists>c. puts ws b = Ok c"
proof (induction ws arbitrary: b)
  case (Cons w ws)
  then show ?case by (cases w) simp
qed simp

lemma puts_eq_OkI: "(puts ws b \<noteq> Panic) \<Longrightarrow> \<exists>c. puts ws b = Ok c"
proof (induction ws arbitrary: b)
  case (Cons w ws)
  then show ?case by (cases w) (auto simp: copy_in_def split: if_splits)
qed simp

lemma seg_whole [simp]: "n = length xs \<Longrightarrow> seg xs 0 n = xs"
  by (simp add: seg_def)

lemma nth_seg_1: "i < length xs \<Longrightarrow> seg xs i (Suc 0) = [xs ! i]"
  by (simp add: seg_Suc)

lemma seg_1_nth: "seg xs i (Suc 0) = [y] \<Longrightarrow> xs ! i = y"
  by (cases "i < length xs", simp add: nth_seg_1, simp add: seg_def)

end
