(* ===== verification/OrdMap.thy ===== *)
theory OrdMap
  imports Prelude
begin

text \<open>
  \<open>BTreeMap\<close> of the Rust standard library, as the code uses it: an association list with
  strictly increasing keys. The operations the code calls are insertion, removal, iteration
  in order (the list itself), and the nearest entry below or above a key
  (\<open>range(..k).next_back()\<close>, \<open>range(..=k).next_back()\<close>, \<open>range(k..).next()\<close>). What a
  client relies on is the locale \<open>ordered_map\<close>. Methods that change \<open>self\<close> are functions
  from the state to a result and the state they leave behind, errors included.
\<close>

section \<open>Methods on a mutable state\<close>

type_synonym ('s, 'a) proc = "'s \<Rightarrow> 'a res \<times> 's"

definition ret :: "'a \<Rightarrow> ('s, 'a) proc" where
  "ret a s = (Ok a, s)"

definition raise :: "error \<Rightarrow> ('s, 'a) proc" where
  "raise e s = (Err e, s)"

definition panic :: "('s, 'a) proc" where
  "panic s = (Panic, s)"

text \<open>The question mark operator; the state stays as the failing call left it.\<close>

definition seq :: "('s, 'a) proc \<Rightarrow> ('a \<Rightarrow> ('s, 'b) proc) \<Rightarrow> ('s, 'b) proc" where
  "seq m f s = (case m s of (Ok a, t) \<Rightarrow> f a t | (Err e, t) \<Rightarrow> (Err e, t) | (Panic, t) \<Rightarrow> (Panic, t))"

definition lift :: "'a res \<Rightarrow> ('s, 'a) proc" where
  "lift x s = (x, s)"

definition modify :: "('s \<Rightarrow> 's) \<Rightarrow> ('s, unit) proc" where
  "modify f s = (Ok (), f s)"

primrec for_each :: "('a \<Rightarrow> ('s, unit) proc) \<Rightarrow> 'a list \<Rightarrow> ('s, unit) proc" where
  "for_each f [] = ret ()"
| "for_each f (x # xs) = seq (f x) (\<lambda>_. for_each f xs)"

lemma seq_ret [simp]: "seq (ret a) f s = f a s"
  by (simp add: seq_def ret_def)

lemma seq_lift [simp]: "seq (lift (Ok a)) f s = f a s" "seq (lift Panic) f s = (Panic, s)" "seq (lift (Err e)) f s = (Err e, s)"
  by (simp_all add: seq_def lift_def)

lemma seq_modify [simp]: "seq (modify g) f s = f () (g s)"
  by (simp add: seq_def modify_def)

lemma seq_stop [simp]: "seq (raise e) f s = (Err e, s)" "seq panic f s = (Panic, s)"
  by (simp_all add: seq_def raise_def panic_def)

lemma seq_eq:
  "m s = (Ok a, t) \<Longrightarrow> seq m f s = f a t" "m s = (Err e, t) \<Longrightarrow> seq m f s = (Err e, t)"
  "m s = (Panic, t) \<Longrightarrow> seq m f s = (Panic, t)"
  by (simp_all add: seq_def)

lemma seq_OkE:
  assumes "seq m f s = (Ok b, t)"
  obtains a u where "m s = (Ok a, u)" and "f a u = (Ok b, t)"
  using assms by (auto simp: seq_def split: prod.splits res.splits)

section \<open>The map\<close>

type_synonym ('k, 'v) btree_map = "('k \<times> 'v) list"

fun om_insert :: "'k::linorder \<Rightarrow> 'v \<Rightarrow> ('k, 'v) btree_map \<Rightarrow> ('k, 'v) btree_map" where
  "om_insert k v [] = [(k, v)]"
| "om_insert k v ((k', v') # m) =
     (if k < k' then (k, v) # (k', v') # m
      else if k = k' then (k, v) # m
      else (k', v') # om_insert k v m)"

definition om_remove :: "'k \<Rightarrow> ('k, 'v) btree_map \<Rightarrow> ('k, 'v) btree_map" where
  "om_remove k m = filter (\<lambda>p. fst p \<noteq> k) m"

definition om_get :: "('k, 'v) btree_map \<Rightarrow> 'k \<Rightarrow> 'v option" where
  "om_get m k = map_of m k"

definition next_back :: "'a list \<Rightarrow> 'a option" where
  "next_back xs = (if xs = [] then None else Some (last xs))"

definition om_below :: "'k::linorder \<Rightarrow> ('k, 'v) btree_map \<Rightarrow> ('k \<times> 'v) option" where
  "om_below k m = next_back (filter (\<lambda>p. fst p < k) m)"

definition om_upto :: "'k::linorder \<Rightarrow> ('k, 'v) btree_map \<Rightarrow> ('k \<times> 'v) option" where
  "om_upto k m = next_back (filter (\<lambda>p. fst p \<le> k) m)"

definition om_from :: "'k::linorder \<Rightarrow> ('k, 'v) btree_map \<Rightarrow> ('k \<times> 'v) option" where
  "om_from k m = List.find (\<lambda>p. k \<le> fst p) m"

definition om_ok :: "('k::linorder, 'v) btree_map \<Rightarrow> bool" where
  "om_ok m \<longleftrightarrow> sorted_wrt (<) (map fst m)"

text \<open>
  The contract, over the set of entries: insertion replaces the entry of the key, removal
  takes it out, and the nearest entries are nearest.
\<close>

locale ordered_map =
  fixes entries :: "'m \<Rightarrow> ('k::linorder \<times> 'v) set"
    and ok :: "'m \<Rightarrow> bool"
    and insert_at :: "'k \<Rightarrow> 'v \<Rightarrow> 'm \<Rightarrow> 'm"
    and remove_at :: "'k \<Rightarrow> 'm \<Rightarrow> 'm"
    and below :: "'k \<Rightarrow> 'm \<Rightarrow> ('k \<times> 'v) option"
    and upto :: "'k \<Rightarrow> 'm \<Rightarrow> ('k \<times> 'v) option"
    and above :: "'k \<Rightarrow> 'm \<Rightarrow> ('k \<times> 'v) option"
  assumes finite_entries: "finite (entries m)"
    and unique: "ok m \<Longrightarrow> (k, v) \<in> entries m \<Longrightarrow> (k, v') \<in> entries m \<Longrightarrow> v = v'"
    and insert_ok: "ok m \<Longrightarrow> ok (insert_at k v m)"
    and insert_entries: "ok m \<Longrightarrow> entries (insert_at k v m) = insert (k, v) {p \<in> entries m. fst p \<noteq> k}"
    and remove_ok: "ok m \<Longrightarrow> ok (remove_at k m)"
    and remove_entries: "entries (remove_at k m) = {p \<in> entries m. fst p \<noteq> k}"
    and below_Some: "ok m \<Longrightarrow> below k m = Some p \<longleftrightarrow>
          p \<in> entries m \<and> fst p < k \<and> (\<forall>q \<in> entries m. fst q < k \<longrightarrow> fst q \<le> fst p)"
    and upto_Some: "ok m \<Longrightarrow> upto k m = Some p \<longleftrightarrow>
          p \<in> entries m \<and> fst p \<le> k \<and> (\<forall>q \<in> entries m. fst q \<le> k \<longrightarrow> fst q \<le> fst p)"
    and above_Some: "ok m \<Longrightarrow> above k m = Some p \<longleftrightarrow>
          p \<in> entries m \<and> k \<le> fst p \<and> (\<forall>q \<in> entries m. k \<le> fst q \<longrightarrow> fst p \<le> fst q)"
begin

lemma insert_new: "ok m \<Longrightarrow> k \<notin> fst ` entries m \<Longrightarrow> entries (insert_at k v m) = insert (k, v) (entries m)"
  by (auto simp: insert_entries)

lemma remove_entry: "ok m \<Longrightarrow> (k, v) \<in> entries m \<Longrightarrow> entries (remove_at k m) = entries m - {(k, v)}"
  by (auto simp: remove_entries dest: unique)

lemma none_between: "ok m \<Longrightarrow> below k m = Some p \<Longrightarrow> q \<in> entries m \<Longrightarrow> fst q \<le> fst p \<or> k \<le> fst q"
  by (auto simp: below_Some)

text \<open>The nearest entry exists whenever any entry is on that side.\<close>

lemma upto_None: "ok m \<Longrightarrow> upto k m = None \<longleftrightarrow> (\<forall>q \<in> entries m. k < fst q)"
proof
  assume m: "ok m" and "upto k m = None"
  then have no: "\<not> (p \<in> entries m \<and> fst p \<le> k \<and> (\<forall>q \<in> entries m. fst q \<le> k \<longrightarrow> fst q \<le> fst p))" for p
    using upto_Some [OF m, of k p] by simp
  show "\<forall>q \<in> entries m. k < fst q"
  proof (rule ccontr)
    assume "\<not> (\<forall>q \<in> entries m. k < fst q)"
    then have ne: "{q \<in> entries m. fst q \<le> k} \<noteq> {}" and fin: "finite {q \<in> entries m. fst q \<le> k}"
      using finite_entries by (auto simp: not_less)
    define M where "M = Max (fst ` {q \<in> entries m. fst q \<le> k})"
    have "M \<in> fst ` {q \<in> entries m. fst q \<le> k}" unfolding M_def using fin ne by (intro Max_in) auto
    moreover have "fst q \<le> M" if "q \<in> entries m" "fst q \<le> k" for q
      unfolding M_def using fin that by (intro Max_ge) auto
    ultimately show False using no by fastforce
  qed
next
  assume m: "ok m" and "\<forall>q \<in> entries m. k < fst q"
  then show "upto k m = None"
    using upto_Some [OF m, of k "the (upto k m)"] by (cases "upto k m") (auto simp: not_less dest: bspec)
qed

end

lemma om_ok_Cons: "om_ok ((k, v) # m) \<longleftrightarrow> om_ok m \<and> (\<forall>p \<in> set m. k < fst p)"
  by (auto simp: om_ok_def)

lemma om_ok_distinct: "om_ok m \<Longrightarrow> distinct (map fst m)"
  by (simp add: om_ok_def strict_sorted_iff)

lemma om_insert_set: "om_ok m \<Longrightarrow> set (om_insert k v m) = insert (k, v) {p \<in> set m. fst p \<noteq> k}"
  by (induction k v m rule: om_insert.induct) (auto simp: om_ok_Cons)

lemma om_insert_ok: "om_ok m \<Longrightarrow> om_ok (om_insert k v m)"
proof (induction k v m rule: om_insert.induct)
  case (2 k v k' v' m)
  then show ?case by (auto simp: om_ok_Cons om_insert_set not_less)
qed (simp add: om_ok_def)

lemma om_ok_filter: "om_ok m \<Longrightarrow> om_ok (filter P m)"
  by (induction m) (auto simp: om_ok_Cons om_ok_def)

lemma last_max: "om_ok m \<Longrightarrow> m \<noteq> [] \<Longrightarrow> p \<in> set m \<Longrightarrow> fst p \<le> fst (last m)"
  by (induction m) (auto simp: om_ok_def less_imp_le)

lemma next_back_Some:
  assumes "om_ok m"
  shows "next_back (filter (\<lambda>p. Q (fst p)) m) = Some p \<longleftrightarrow>
    p \<in> set m \<and> Q (fst p) \<and> (\<forall>q \<in> set m. Q (fst q) \<longrightarrow> fst q \<le> fst p)"
proof -
  let ?f = "filter (\<lambda>p. Q (fst p)) m"
  have f: "om_ok ?f" by (rule om_ok_filter [OF assms])
  have uniq: "p = q" if "p \<in> set m" "q \<in> set m" "fst p = fst q" for p q
    using that om_ok_distinct [OF assms] by (metis eq_key_imp_eq_value prod.collapse)
  show ?thesis
  proof (cases "?f = []")
    case True
    then show ?thesis by (auto simp: next_back_def filter_empty_conv)
  next
    case False
    then have l: "last ?f \<in> set m" "Q (fst (last ?f))" using last_in_set [OF False] by auto
    have max: "fst q \<le> fst (last ?f)" if "q \<in> set m" "Q (fst q)" for q
      using last_max [OF f False] that by simp
    have "last ?f = p" if "p \<in> set m" "Q (fst p)" "\<forall>q \<in> set m. Q (fst q) \<longrightarrow> fst q \<le> fst p"
      using max [OF that(1,2)] that l by (intro uniq) (auto intro: antisym)
    then show ?thesis using False l max by (auto simp: next_back_def)
  qed
qed

lemma om_from_Some:
  assumes "om_ok m"
  shows "om_from k m = Some p \<longleftrightarrow> p \<in> set m \<and> k \<le> fst p \<and> (\<forall>q \<in> set m. k \<le> fst q \<longrightarrow> fst p \<le> fst q)"
  using assms
proof (induction m)
  case (Cons a m)
  obtain k' v' where a: "a = (k', v')" by (cases a)
  show ?case
  proof (cases "k \<le> k'")
    case True
    then show ?thesis using Cons.prems by (force simp: om_from_def a om_ok_Cons)
  next
    case False
    then show ?thesis using Cons by (auto simp: om_from_def a om_ok_Cons)
  qed
qed (simp add: om_from_def)

lemma om_below_None: "om_below k m = None \<longleftrightarrow> (\<forall>p \<in> set m. k \<le> fst p)"
  by (auto simp: om_below_def next_back_def filter_empty_conv not_less)

interpretation om: ordered_map set om_ok om_insert om_remove om_below om_upto om_from
proof unfold_locales
  fix m :: "('k::linorder \<times> 'v) list" and k v v' p
  show "finite (set m)" by simp
  show "set (om_remove k m) = {p \<in> set m. fst p \<noteq> k}" by (auto simp: om_remove_def)
  assume m: "om_ok m"
  show "(k, v) \<in> set m \<Longrightarrow> (k, v') \<in> set m \<Longrightarrow> v = v'"
    using om_ok_distinct [OF m] eq_key_imp_eq_value by fast
  show "om_ok (om_insert k v m)" "om_ok (om_remove k m)"
    using m by (simp_all add: om_insert_ok om_remove_def om_ok_filter)
  show "set (om_insert k v m) = insert (k, v) {p \<in> set m. fst p \<noteq> k}" by (rule om_insert_set [OF m])
  show "om_below k m = Some p \<longleftrightarrow> p \<in> set m \<and> fst p < k \<and> (\<forall>q \<in> set m. fst q < k \<longrightarrow> fst q \<le> fst p)"
    using next_back_Some [OF m, of "\<lambda>x. x < k"] by (simp add: om_below_def)
  show "om_upto k m = Some p \<longleftrightarrow> p \<in> set m \<and> fst p \<le> k \<and> (\<forall>q \<in> set m. fst q \<le> k \<longrightarrow> fst q \<le> fst p)"
    using next_back_Some [OF m, of "\<lambda>x. x \<le> k"] by (simp add: om_upto_def)
  show "om_from k m = Some p \<longleftrightarrow> p \<in> set m \<and> k \<le> fst p \<and> (\<forall>q \<in> set m. k \<le> fst q \<longrightarrow> fst p \<le> fst q)"
    by (rule om_from_Some [OF m])
qed

end
