(* ===== verification/Bytes.thy ===== *)
theory Bytes
  imports Prelude
begin

text \<open>
  Big-endian field access (\<open>src/src/bytes.rs\<close>). \<open>be16\<close>, \<open>be32\<close> and \<open>be64\<close> panic out of
  range, as slice indexing does; \<open>put16\<close>, \<open>put32\<close> and \<open>put64\<close> return the changed
  buffer. Inside longer runs of writes a field is given as the pair of its offset and its
  bytes (\<open>u16\<close>, \<open>u32\<close>, \<open>u64\<close> below), one pair per source line. The laws of such an
  encoding are the locale \<open>record_codec\<close>, interpreted here for the three widths.
\<close>

section \<open>Integers as bytes\<close>

text \<open>\<open>from_be_bytes\<close> and \<open>to_be_bytes\<close>, at any width; \<open>to_le_bytes\<close> is the reverse.\<close>

definition from_be_bytes :: "byte list \<Rightarrow> nat" where
  "from_be_bytes bs = foldl (\<lambda>v b. v * 256 + unat b) 0 bs"

primrec to_be_bytes :: "nat \<Rightarrow> nat \<Rightarrow> byte list" where
  "to_be_bytes 0 v = []"
| "to_be_bytes (Suc n) v = to_be_bytes n (v div 256) @ [word_of_nat v]"

definition from_le_bytes :: "byte list \<Rightarrow> nat" where
  "from_le_bytes bs = from_be_bytes (rev bs)"

definition to_le_bytes :: "nat \<Rightarrow> nat \<Rightarrow> byte list" where
  "to_le_bytes n v = rev (to_be_bytes n v)"

section \<open>Reading and writing fields\<close>

definition be16 :: "byte list \<Rightarrow> nat \<Rightarrow> nat res" where
  "be16 b i = map_ok from_be_bytes (get b i 2)"

definition be32 :: "byte list \<Rightarrow> nat \<Rightarrow> nat res" where
  "be32 b i = map_ok from_be_bytes (get b i 4)"

definition be64 :: "byte list \<Rightarrow> nat \<Rightarrow> nat res" where
  "be64 b i = map_ok from_be_bytes (get b i 8)"

definition put16 :: "byte list \<Rightarrow> nat \<Rightarrow> nat \<Rightarrow> byte list res" where
  "put16 b i v = copy_in b i (to_be_bytes 2 v)"

definition put32 :: "byte list \<Rightarrow> nat \<Rightarrow> nat \<Rightarrow> byte list res" where
  "put32 b i v = copy_in b i (to_be_bytes 4 v)"

definition put64 :: "byte list \<Rightarrow> nat \<Rightarrow> nat \<Rightarrow> byte list res" where
  "put64 b i v = copy_in b i (to_be_bytes 8 v)"

abbreviation u8_bytes :: "nat \<Rightarrow> byte list" where
  "u8_bytes v \<equiv> [word_of_nat v]"

abbreviation u16_bytes :: "nat \<Rightarrow> byte list" where
  "u16_bytes v \<equiv> to_be_bytes 2 v"

abbreviation u32_bytes :: "nat \<Rightarrow> byte list" where
  "u32_bytes v \<equiv> to_be_bytes 4 v"

abbreviation u64_bytes :: "nat \<Rightarrow> byte list" where
  "u64_bytes v \<equiv> to_be_bytes 8 v"

text \<open>The fields as total functions, where the range is known.\<close>

abbreviation rd16 :: "byte list \<Rightarrow> nat \<Rightarrow> nat" where
  "rd16 b i \<equiv> from_be_bytes (seg b i 2)"

abbreviation rd32 :: "byte list \<Rightarrow> nat \<Rightarrow> nat" where
  "rd32 b i \<equiv> from_be_bytes (seg b i 4)"

abbreviation rd64 :: "byte list \<Rightarrow> nat \<Rightarrow> nat" where
  "rd64 b i \<equiv> from_be_bytes (seg b i 8)"

section \<open>Lemmas\<close>

named_theorems bytes_simps \<open>reading back what was written\<close>

lemma from_be_bytes_Nil [simp]: "from_be_bytes [] = 0"
  by (simp add: from_be_bytes_def)

lemma from_be_bytes_snoc: "from_be_bytes (bs @ [b]) = from_be_bytes bs * 256 + unat b"
  by (simp add: from_be_bytes_def)

lemma unat_byte_less [simp]: "unat (b :: byte) < 256"
  using unsigned_less [of b] by simp

lemma from_be_bytes_less: "from_be_bytes bs < 256 ^ length bs"
proof (induction bs rule: rev_induct)
  case (snoc b bs)
  have "from_be_bytes bs * 256 + unat b < (from_be_bytes bs + 1) * 256" by simp
  also have "\<dots> \<le> 256 ^ length bs * 256"
    using snoc by (intro mult_le_mono1) simp
  finally show ?case by (simp add: from_be_bytes_snoc mult.commute)
qed simp

lemma length_to_be_bytes [simp]: "length (to_be_bytes n v) = n"
  by (induction n arbitrary: v) simp_all

lemma from_to_be_bytes: "from_be_bytes (to_be_bytes n v) = v mod 256 ^ n"
proof (induction n arbitrary: v)
  case (Suc n)
  have "unat (word_of_nat v :: byte) = v mod 256" by (simp add: unat_of_nat)
  then show ?case
    by (simp add: from_be_bytes_snoc Suc mult.commute mod_mult2_eq)
qed simp

lemma from_to_be_bytes_id: "v < 256 ^ n \<Longrightarrow> from_be_bytes (to_be_bytes n v) = v"
  by (simp add: from_to_be_bytes)

lemma to_from_be_bytes: "n = length bs \<Longrightarrow> to_be_bytes n (from_be_bytes bs) = bs"
proof (induction bs arbitrary: n rule: rev_induct)
  case (snoc b bs)
  have "word_of_nat (from_be_bytes bs * 256 + unat b) = b"
    by (rule word_unat_eq_iff [THEN iffD2]) (simp only: unat_of_nat, simp)
  with snoc show ?case by (simp add: from_be_bytes_snoc)
qed simp

lemma from_to_le_bytes: "from_le_bytes (to_le_bytes n v) = v mod 256 ^ n"
  by (simp add: from_le_bytes_def to_le_bytes_def from_to_be_bytes)

lemma length_to_le_bytes [simp]: "length (to_le_bytes n v) = n"
  by (simp add: to_le_bytes_def)

lemma from_be_bytes_zeros [simp]: "from_be_bytes (replicate n 0) = 0"
  by (induction n) (simp_all add: from_be_bytes_def)

lemma be_widths [bytes_simps]:
  "v < 65536 \<Longrightarrow> from_be_bytes (u16_bytes v) = v"
  "v < 4294967296 \<Longrightarrow> from_be_bytes (u32_bytes v) = v"
  "v < 18446744073709551616 \<Longrightarrow> from_be_bytes (u64_bytes v) = v"
  by (simp_all add: from_to_be_bytes)

lemma be16_in [simp]: "i + 2 \<le> length b \<Longrightarrow> be16 b i = Ok (rd16 b i)"
  by (simp add: be16_def)

lemma be32_in [simp]: "i + 4 \<le> length b \<Longrightarrow> be32 b i = Ok (rd32 b i)"
  by (simp add: be32_def)

lemma be64_in [simp]: "i + 8 \<le> length b \<Longrightarrow> be64 b i = Ok (rd64 b i)"
  by (simp add: be64_def)

lemma be_eq_Ok [res_simps]:
  "be16 b i = Ok v \<longleftrightarrow> i + 2 \<le> length b \<and> v = rd16 b i"
  "be32 b i = Ok v \<longleftrightarrow> i + 4 \<le> length b \<and> v = rd32 b i"
  "be64 b i = Ok v \<longleftrightarrow> i + 8 \<le> length b \<and> v = rd64 b i"
  by (auto simp: be16_def be32_def be64_def get_def)

lemma be_Panic [res_simps]:
  "be16 b i = Panic \<longleftrightarrow> length b < i + 2"
  "be32 b i = Panic \<longleftrightarrow> length b < i + 4"
  "be64 b i = Panic \<longleftrightarrow> length b < i + 8"
  by (auto simp: be16_def be32_def be64_def get_def)

lemma rd_less:
  "rd16 b i < 65536" "rd32 b i < 4294967296" "rd64 b i < 18446744073709551616"
proof -
  have *: "from_be_bytes (seg b i n) < 256 ^ n" for n
    using from_be_bytes_less [of "seg b i n"] length_seg_le [of b i n]
    by (meson less_le_trans power_increasing one_le_numeral)
  show "rd16 b i < 65536" "rd32 b i < 4294967296" "rd64 b i < 18446744073709551616"
    using * [of 2] * [of 4] * [of 8] by simp_all
qed

section \<open>Codecs\<close>

text \<open>
  What a reader relies on when a writer lays fixed-width records out one after another:
  every encoding has the width, and decoding at its position gives the record back.
\<close>

locale record_codec =
  fixes enc :: "'a \<Rightarrow> byte list"
    and dec :: "byte list \<Rightarrow> 'a res"
    and width :: nat
    and ok :: "'a \<Rightarrow> bool"
  assumes enc_width: "length (enc x) = width"
    and dec_enc: "ok x \<Longrightarrow> dec (enc x @ rest) = Ok x"
begin

lemma length_enc_all: "length (concat (map enc xs)) = length xs * width"
  by (induction xs) (simp_all add: enc_width)

lemma drop_enc_all:
  "i \<le> length xs \<Longrightarrow> drop (i * width) (concat (map enc xs)) = concat (map enc (drop i xs))"
proof (induction xs arbitrary: i)
  case (Cons x xs)
  then show ?case by (cases i) (simp_all add: enc_width)
qed simp

text \<open>The records at positions \<open>0, width, 2 * width, ...\<close> are the ones written.\<close>

lemma dec_enc_all:
  assumes "\<forall>x \<in> set xs. ok x"
  shows "map_res (\<lambda>i. dec (drop (i * width) (concat (map enc xs) @ rest))) [0..<length xs] = Ok xs"
proof -
  have "dec (drop (i * width) (concat (map enc xs) @ rest)) = Ok (xs ! i)" if i: "i < length xs" for i
  proof -
    have "drop (i * width) (concat (map enc xs) @ rest) = concat (map enc (drop i xs)) @ rest"
      using i by (simp add: drop_enc_all length_enc_all)
    also have "concat (map enc (drop i xs)) = enc (xs ! i) @ concat (map enc (drop (Suc i) xs))"
      using i by (simp add: Cons_nth_drop_Suc [symmetric])
    finally show ?thesis using i assms dec_enc by simp
  qed
  then have "map_res (\<lambda>i. dec (drop (i * width) (concat (map enc xs) @ rest))) [0..<length xs]
      = Ok (map ((!) xs) [0..<length xs])"
    by (intro map_res_Ok) simp
  then show ?thesis by (simp add: map_nth)
qed

end

interpretation u16_codec: record_codec u16_bytes "\<lambda>b. be16 b 0" 2 "\<lambda>v. v < 65536"
  by unfold_locales (simp_all add: be_widths seg_append_left seg_def)

interpretation u32_codec: record_codec u32_bytes "\<lambda>b. be32 b 0" 4 "\<lambda>v. v < 4294967296"
  by unfold_locales (simp_all add: be_widths seg_append_left seg_def)

interpretation u64_codec: record_codec u64_bytes "\<lambda>b. be64 b 0" 8 "\<lambda>v. v < 18446744073709551616"
  by unfold_locales (simp_all add: be_widths seg_append_left seg_def)

end
