(* ===== verification/Crc.thy ===== *)
theory Crc
  imports Bytes
begin

text \<open>
  CRC32C (\<open>src/src/crc.rs\<close>): the table-driven checksum, \<open>verify\<close> and \<open>stamp\<close>. The
  table is proved equal to the bit-at-a-time division it abbreviates (\<open>crc_byte_ref\<close>),
  which is polynomial division by the Castagnoli polynomial and makes each step a bijection on
  the register; so the checksum is CRC32C, a stamped buffer verifies, and no change of one byte goes unnoticed. What writers and readers of checksummed structures
  rely on is the locale \<open>checksum\<close>.
\<close>

unbundle bit_operations_syntax

section \<open>The code\<close>

text \<open>The inner loop of \<open>table\<close>.\<close>

definition crc_bit :: "32 word \<Rightarrow> 32 word" where
  "crc_bit c = (if c AND 1 \<noteq> 0 then 0x82f63b78 XOR drop_bit 1 c else drop_bit 1 c)"

definition table :: "32 word list" where
  "table = map (\<lambda>i. (crc_bit ^^ 8) (word_of_nat i)) [0..<256]"

definition crc_byte :: "32 word \<Rightarrow> byte \<Rightarrow> 32 word" where
  "crc_byte c b = table ! unat ((c XOR ucast b) AND 0xff) XOR drop_bit 8 c"

definition crc32c :: "byte list \<Rightarrow> 32 word" where
  "crc32c data = NOT (foldl crc_byte (NOT 0) data)"

definition verify :: "byte list \<Rightarrow> nat \<Rightarrow> bool" where
  "verify buf off =
     (if length buf < off + 4 then False
      else let stored = word_of_nat (from_le_bytes (seg buf off 4)) :: 32 word;
               c = foldl (\<lambda>c (i, b). crc_byte c (if off \<le> i \<and> i < off + 4 then 0 else b))
                     (NOT 0) (enumerate 0 buf)
           in NOT c = stored)"

definition stamp :: "byte list \<Rightarrow> nat \<Rightarrow> byte list res" where
  "stamp buf off =
     and_then (copy_in buf off (replicate 4 0)) (\<lambda>z.
     copy_in z off (to_le_bytes 4 (unat (crc32c z))))"

section \<open>The table against the bitwise division\<close>

abbreviation poly :: "32 word" where
  "poly \<equiv> 0x82f63b78"

lemma crc_bit_alt: "crc_bit c = (if bit c 0 then poly XOR drop_bit 1 c else drop_bit 1 c)"
  by (simp add: crc_bit_def and_one_eq bit_0 odd_iff_mod_2_eq_one)

lemma bit_crc_bit: "bit (crc_bit c) n \<longleftrightarrow> (bit c 0 \<and> bit poly n) \<noteq> bit c (Suc n)"
  by (auto simp: crc_bit_alt bit_xor_iff bit_drop_bit_eq)

lemma crc_bit_xor: "crc_bit (x XOR y) = crc_bit x XOR crc_bit y"
  by (rule bit_word_eqI) (auto simp: bit_crc_bit bit_xor_iff)

lemma crc_bits_xor: "(crc_bit ^^ n) (x XOR y) = (crc_bit ^^ n) x XOR (crc_bit ^^ n) y"
  by (induction n arbitrary: x y) (simp_all add: crc_bit_xor)

lemma crc_bits_shift:
  "(\<And>k. k < n \<Longrightarrow> \<not> bit x k) \<Longrightarrow> (crc_bit ^^ n) x = drop_bit n x"
proof (induction n)
  case (Suc n)
  then have "(crc_bit ^^ n) x = drop_bit n x" by simp
  moreover have "\<not> bit (drop_bit n x) 0" using Suc.prems by (simp add: bit_drop_bit_eq)
  ultimately show ?case by (simp add: crc_bit_alt [of "drop_bit n x"])
qed simp

lemma crc_bit_inj: "crc_bit x = crc_bit y \<Longrightarrow> x = y"
proof (rule bit_word_eqI)
  fix n assume eq: "crc_bit x = crc_bit y" and n: "n < LENGTH(32)"
  have top: "\<not> bit z (Suc 31)" for z :: "32 word" using bit_imp_le_length [of z 32] by auto
  have "bit poly 31" by simp
  then have "bit x 0 = bit y 0"
    using eq top [of x] top [of y] by (metis bit_crc_bit)
  then show "bit x n = bit y n"
    using eq by (cases n) (metis bit_crc_bit)+
qed

lemma crc_bits_inj: "(crc_bit ^^ n) x = (crc_bit ^^ n) y \<Longrightarrow> x = y"
  by (induction n) (auto dest: crc_bit_inj)

text \<open>One table step is eight bit steps of the division.\<close>

lemma crc_byte_ref: "crc_byte c b = (crc_bit ^^ 8) (c XOR ucast b)"
proof -
  define M :: "32 word" where "M = 0xff"
  let ?x = "c XOR ucast b :: 32 word"
  have "M = mask 8" by (simp add: M_def mask_eq_exp_minus_1)
  then have mask: "bit M k \<longleftrightarrow> k < 8" if "k < 32" for k
    using that bit_mask_iff [where 'a = "32 word", of 8 k] by simp
  have x: "?x = (?x AND M) XOR (?x AND NOT M)"
    by (rule bit_word_eqI) (auto simp: bit_simps)
  have less: "unat (?x AND M) < 256"
    using word_and_le1 [of ?x M] by (simp add: word_le_nat_alt M_def)
  have hi: "(crc_bit ^^ 8) (?x AND NOT M) = drop_bit 8 (?x AND NOT M)"
    by (rule crc_bits_shift) (use mask in \<open>fastforce simp: bit_simps\<close>)
  have "drop_bit 8 (?x AND NOT M) = drop_bit 8 c"
  proof (rule bit_word_eqI)
    fix n assume "n < LENGTH(32)"
    have "\<not> bit b (8 + n)" using bit_imp_le_length [of b "8 + n"] by auto
    then show "bit (drop_bit 8 (?x AND NOT M)) n = bit (drop_bit 8 c) n"
      using bit_imp_le_length [of c "8 + n"] by (auto simp: bit_simps mask)
  qed
  with hi less have "(crc_bit ^^ 8) ?x = table ! unat (?x AND M) XOR drop_bit 8 c"
    by (subst x) (simp add: crc_bits_xor table_def del: funpow.simps)
  then show ?thesis by (simp add: crc_byte_def M_def)
qed

lemma xor_cancel_left: "(c :: 'a::len word) XOR a = c XOR b \<Longrightarrow> a = b"
  by (drule arg_cong [of _ _ "(XOR) c"]) (simp add: xor.assoc [symmetric])

lemma crc_byte_inj1: "crc_byte c b = crc_byte d b \<Longrightarrow> c = d"
  unfolding crc_byte_ref
  by (drule crc_bits_inj) (rule xor_cancel_left [of "ucast b"], simp add: xor.commute)

lemma ucast_byte_inj: "(ucast (a :: byte) :: 32 word) = ucast b \<Longrightarrow> a = b"
proof (rule bit_word_eqI)
  fix n assume eq: "(ucast a :: 32 word) = ucast b" and n: "n < LENGTH(8)"
  then have "bit (ucast a :: 32 word) n = bit (ucast b :: 32 word) n" by simp
  with n show "bit a n = bit b n" by (simp add: bit_ucast_iff)
qed

lemma crc_byte_inj2: "crc_byte c a = crc_byte c b \<Longrightarrow> a = b"
  unfolding crc_byte_ref
  by (rule ucast_byte_inj, rule xor_cancel_left [of c], rule crc_bits_inj [of 8])

lemma crc_bytes_inj: "foldl crc_byte c bs = foldl crc_byte d bs \<Longrightarrow> c = d"
  by (induction bs arbitrary: c d) (auto dest: crc_byte_inj1)

declare crc_byte_ref [code]

lemma unat_u32_less: "unat (w :: 32 word) < 4294967296"
  using unsigned_less [of w] by simp

lemma crc_eval:
  "(f ^^ 8) x = f (f (f (f (f (f (f (f x)))))))" "replicate 4 y = [y, y, y, y]"
  by (simp_all add: eval_nat_numeral)

lemma crc32c_eval:
  "crc32c data = 0xffffffff XOR foldl (\<lambda>c b. (crc_bit ^^ 8) (c XOR ucast b)) 0xffffffff data"
proof -
  have "(0xffffffff :: 32 word) = NOT 0" by simp
  then show ?thesis by (simp only: crc32c_def crc_byte_ref [abs_def]) simp
qed

section \<open>The polynomial\<close>

text \<open>
  CRC32C as it is defined, with no reference to the code: the bits of the message, lowest first in
  each byte, are the coefficients of a polynomial; it is multiplied by \<open>x ^ 32\<close>, its first 32
  coefficients are inverted, and it is divided by the Castagnoli polynomial
  \<open>0x11edc6f41\<close>, over the field of two elements. The checksum is the inverted remainder, the
  coefficient of \<open>x ^ 31\<close> being its lowest bit.
\<close>

definition castagnoli :: "bool list" where
  "castagnoli = map (\<lambda>k. k \<in> {28, 27, 26, 25, 23, 22, 20, 19, 18, 14, 13, 11, 10, 9, 8, 6, 0 :: nat}) (rev [0..<32])"

definition bits_of :: "byte list \<Rightarrow> bool list" where
  "bits_of data = concat (map (\<lambda>b. map (bit b) [0..<8]) data)"

text \<open>Long division: the divisor, whose leading coefficient is one, is subtracted where it goes in.\<close>

definition subtract :: "bool list \<Rightarrow> bool list \<Rightarrow> bool list" where
  "subtract p bs = map2 (\<noteq>) p (take (length p) bs) @ drop (length p) bs"

lemma length_subtract [simp]: "length p \<le> length bs \<Longrightarrow> length (subtract p bs) = length bs"
  by (simp add: subtract_def)

lemma length_castagnoli [simp]: "length castagnoli = 32"
  by (simp add: castagnoli_def)

function remainder :: "bool list \<Rightarrow> bool list" where
  "remainder bs =
     (if length bs \<le> 32 then bs
      else remainder (if hd bs then subtract castagnoli (tl bs) else tl bs))"
  by pat_completeness auto
termination by (relation "measure length") auto

declare remainder.simps [simp del]

definition crc_by_division :: "byte list \<Rightarrow> bool list" where
  "crc_by_division data = map Not (remainder (subtract (replicate 32 True) (bits_of data @ replicate 32 False)))"

text \<open>The register after the bits read so far is the remainder of what they stand for.\<close>

definition shift_in :: "bool list \<Rightarrow> bool \<Rightarrow> bool list" where
  "shift_in r b = (if hd r \<noteq> b then subtract castagnoli (tl r @ [False]) else tl r @ [False])"

lemma length_shift_in [simp]: "length r = 32 \<Longrightarrow> length (shift_in r b) = 32"
  by (simp add: shift_in_def)

lemma subtract_nth: "i < length bs \<Longrightarrow> subtract p bs ! i = (if i < length p then p ! i \<noteq> bs ! i else bs ! i)"
  by (auto simp: subtract_def nth_append min_def)

lemma remainder_shift_in:
  assumes "length r = 32"
  shows "remainder (subtract r (m @ replicate 32 False)) = foldl shift_in r m"
  using assms
proof (induction m arbitrary: r)
  case Nil
  have "subtract r (replicate 32 False) = r"
    using Nil by (intro nth_equalityI) (simp_all add: subtract_nth)
  then show ?case using Nil by (simp add: remainder.simps [of r])
next
  case (Cons b m)
  let ?m = "m @ replicate 32 False" and ?s = "subtract r ((b # m) @ replicate 32 False)"
  obtain x r' where r: "r = x # r'" using Cons.prems by (cases r) auto
  have hd: "hd ?s = (hd r \<noteq> b)" by (simp add: subtract_def r)
  have tl: "tl ?s = subtract (tl r @ [False]) ?m"
  proof (rule nth_equalityI)
    fix i assume "i < length (tl ?s)"
    then have i: "Suc i < length ((b # m) @ replicate 32 False)" using Cons.prems by simp
    have "tl ?s ! i = ?s ! Suc i" using i Cons.prems by (simp add: nth_tl)
    also have "\<dots> = (if Suc i < 32 then r' ! i \<noteq> ?m ! i else ?m ! i)" using i Cons.prems by (simp add: subtract_nth r)
    also have "\<dots> = subtract (tl r @ [False]) ?m ! i"
      using i Cons.prems by (cases "i = 31") (simp_all add: subtract_nth r nth_append)
    finally show "tl ?s ! i = subtract (tl r @ [False]) ?m ! i" .
  qed (use Cons.prems in simp)
  have "(if hd ?s then subtract castagnoli (tl ?s) else tl ?s) = subtract (shift_in r b) ?m"
    using Cons.prems unfolding tl hd
    by (intro nth_equalityI) (auto simp: shift_in_def subtract_nth)
  then have "remainder ?s = remainder (subtract (shift_in r b) ?m)"
    using Cons.prems by (subst remainder.simps) simp
  then show ?case using Cons.IH [of "shift_in r b"] Cons.prems by simp
qed

text \<open>The register of the code, lowest bit first.\<close>

definition reg_of :: "32 word \<Rightarrow> bool list" where
  "reg_of c = map (bit c) [0..<32]"

lemma poly_castagnoli: "reg_of poly = castagnoli"
  by (simp add: reg_of_def castagnoli_def upt_rec)

lemma reg_of_crc_bit: "reg_of (crc_bit (c XOR of_bool b)) = shift_in (reg_of c) b"
proof (rule nth_equalityI)
  fix i assume "i < length (reg_of (crc_bit (c XOR of_bool b)))"
  then have i: "i < 32" by (simp add: reg_of_def)
  have p: "castagnoli ! i = bit poly i" using i poly_castagnoli by (metis reg_of_def nth_map_upt add_0 diff_zero)
  have hd: "hd (reg_of c) = bit c 0" by (simp add: reg_of_def hd_map)
  have nth: "(tl (reg_of c) @ [False]) ! i = bit c (Suc i)"
    using i bit_imp_le_length [of c 32] by (cases "i = 31") (auto simp: reg_of_def nth_append nth_tl)
  have one: "bit (of_bool b :: 32 word) k \<longleftrightarrow> b \<and> k = 0" for k by (auto simp: bit_of_bool_iff)
  have l: "length (reg_of c) = 32" by (simp add: reg_of_def)
  have "reg_of (crc_bit (c XOR of_bool b)) ! i \<longleftrightarrow> ((bit c 0 \<noteq> b) \<and> bit poly i) \<noteq> bit c (Suc i)"
    using i by (simp add: reg_of_def bit_crc_bit bit_xor_iff one del: nth_upt) auto
  also have "\<dots> = shift_in (reg_of c) b ! i"
    using i l p nth hd by (auto simp: shift_in_def subtract_nth)
  finally show "reg_of (crc_bit (c XOR of_bool b)) ! i = shift_in (reg_of c) b ! i" .
qed (simp add: reg_of_def)

lemma crc_bits_split:
  "(crc_bit ^^ n) (c XOR x) = foldl (\<lambda>c i. crc_bit (c XOR of_bool (bit x i))) c [0..<n] XOR drop_bit n x"
proof (induction n)
  case (Suc n)
  define f where "f = foldl (\<lambda>c i. crc_bit (c XOR of_bool (bit x i))) c [0..<n]"
  have "crc_bit (f XOR drop_bit n x) = crc_bit (f XOR of_bool (bit x n)) XOR drop_bit (Suc n) x"
    by (rule bit_word_eqI) (auto simp: bit_crc_bit bit_xor_iff bit_drop_bit_eq bit_of_bool_iff)
  then show ?case using Suc by (simp add: f_def)
qed simp

lemma crc_byte_bits: "crc_byte c b = foldl (\<lambda>c i. crc_bit (c XOR of_bool (bit b i))) c [0..<8]"
proof -
  have "drop_bit 8 (ucast b :: 32 word) = 0"
    by (rule bit_word_eqI) (use bit_imp_le_length in \<open>fastforce simp: bit_drop_bit_eq bit_ucast_iff\<close>)
  moreover have "bit (ucast b :: 32 word) i = bit b i" if "i < 8" for i using that by (simp add: bit_ucast_iff)
  ultimately show ?thesis unfolding crc_byte_ref crc_bits_split by (auto intro!: foldl_cong)
qed

lemma reg_of_bytes: "reg_of (foldl crc_byte c data) = foldl shift_in (reg_of c) (bits_of data)"
proof (induction data arbitrary: c)
  case (Cons b data)
  have "reg_of (foldl (\<lambda>c i. crc_bit (c XOR of_bool (bit b i))) c xs) = foldl shift_in (reg_of c) (map (bit b) xs)" for c xs
    by (induction xs arbitrary: c) (simp_all add: reg_of_crc_bit)
  then have "reg_of (crc_byte c b) = foldl shift_in (reg_of c) (map (bit b) [0..<8])" by (simp only: crc_byte_bits)
  then show ?case using Cons by (simp add: bits_of_def)
qed (simp add: bits_of_def)

section \<open>Verifying and stamping\<close>

text \<open>\<open>verify\<close> compares with the checksum of the buffer with the field zeroed.\<close>

definition zero_field :: "byte list \<Rightarrow> nat \<Rightarrow> byte list" where
  "zero_field buf off = patch buf off (replicate 4 0)"

lemma length_zero_field [simp]: "off + 4 \<le> length buf \<Longrightarrow> length (zero_field buf off) = length buf"
  by (simp add: zero_field_def)

lemma nth_zero_field:
  "off + 4 \<le> length buf \<Longrightarrow> k < length buf \<Longrightarrow>
   zero_field buf off ! k = (if off \<le> k \<and> k < off + 4 then 0 else buf ! k)"
  by (auto simp: zero_field_def nth_patch)

lemma zero_field_eq_map:
  assumes "off + 4 \<le> length buf"
  shows "zero_field buf off = map (\<lambda>(i, b). if off \<le> i \<and> i < off + 4 then 0 else b) (enumerate 0 buf)"
  using assms by (intro nth_equalityI) (simp_all add: nth_zero_field nth_enumerate_eq)

lemma verify_iff:
  "verify buf off \<longleftrightarrow>
     off + 4 \<le> length buf \<and> crc32c (zero_field buf off) = word_of_nat (from_le_bytes (seg buf off 4))"
proof (cases "off + 4 \<le> length buf")
  case True
  have "foldl (\<lambda>c (i, b). crc_byte c (if off \<le> i \<and> i < off + 4 then 0 else b)) s (enumerate n buf)
      = foldl crc_byte s (map (\<lambda>(i, b). if off \<le> i \<and> i < off + 4 then 0 else b) (enumerate n buf))" for s n
    by (simp add: foldl_map split_def)
  with True show ?thesis by (simp add: verify_def crc32c_def zero_field_eq_map)
qed (simp add: verify_def)

lemma stamp_eq:
  "off + 4 \<le> length buf \<Longrightarrow>
   stamp buf off = Ok (patch (zero_field buf off) off (to_le_bytes 4 (unat (crc32c (zero_field buf off)))))"
  by (simp add: stamp_def zero_field_def)

lemma stamp_eq_Ok:
  "stamp buf off = Ok c \<longleftrightarrow> off + 4 \<le> length buf \<and>
     c = patch (zero_field buf off) off (to_le_bytes 4 (unat (crc32c (zero_field buf off))))"
  by (cases "off + 4 \<le> length buf") (auto simp: stamp_eq, simp add: stamp_def copy_in_def)

lemma zero_field_patch_field:
  assumes "off + 4 \<le> length buf" and "length ys = 4"
  shows "zero_field (patch buf off ys) off = zero_field buf off"
  using assms by (intro nth_equalityI) (simp_all add: nth_zero_field nth_patch)

text \<open>The interface: what stamping promises a later reader.\<close>

locale checksum =
  fixes seal :: "byte list \<Rightarrow> nat \<Rightarrow> byte list res"
    and check :: "byte list \<Rightarrow> nat \<Rightarrow> bool"
  assumes seal_total: "off + 4 \<le> length b \<Longrightarrow> \<exists>c. seal b off = Ok c"
    and seal_check: "seal b off = Ok c \<Longrightarrow> check c off"
    and seal_length: "seal b off = Ok c \<Longrightarrow> length c = length b"
    and seal_frame: "seal b off = Ok c \<Longrightarrow> k < length b \<Longrightarrow> k < off \<or> off + 4 \<le> k \<Longrightarrow> c ! k = b ! k"
begin

lemma seal_seg:
  assumes "seal b off = Ok c" and "j + n \<le> length b" and "j + n \<le> off \<or> off + 4 \<le> j"
  shows "seg c j n = seg b j n"
proof (rule nth_equalityI)
  have len: "length c = length b" by (rule seal_length [OF assms(1)])
  with assms show "length (seg c j n) = length (seg b j n)" by simp
  fix k assume "k < length (seg c j n)"
  with assms len have "k < n" and "c ! (j + k) = b ! (j + k)"
    by (auto intro: seal_frame)
  with assms len show "seg c j n ! k = seg b j n ! k"
    by (simp add: seg_nth)
qed

lemma seal_field:
  assumes "puts ws b = Ok c" and "seal c off = Ok d" and "i + n \<le> length b"
    and "i + n \<le> off \<or> off + 4 \<le> i" and "field ws i n (Some (seg b i n)) = Some ys"
  shows "seg d i n = ys"
  using puts_field [OF assms(1,3,5)] seal_seg [OF assms(2)] puts_length [OF assms(1)] assms(3,4)
  by simp

lemma seal_nth:
  "seal b off = Ok c \<Longrightarrow> k < length b \<Longrightarrow> k < off \<or> off + 4 \<le> k \<Longrightarrow> index c k = index b k"
  by (simp add: seal_frame seal_length)

end

interpretation crc: checksum stamp verify
proof unfold_locales
  fix b off c
  show "off + 4 \<le> length b \<Longrightarrow> \<exists>c. stamp b off = Ok c" by (simp add: stamp_eq)
  assume "stamp b off = Ok c"
  then have off: "off + 4 \<le> length b"
    and c: "c = patch (zero_field b off) off (to_le_bytes 4 (unat (crc32c (zero_field b off))))"
    by (simp_all add: stamp_eq_Ok)
  show len: "length c = length b" using off c by simp
  have "zero_field c off = zero_field (zero_field b off) off"
    using off c by (simp add: zero_field_patch_field)
  also have "\<dots> = zero_field b off"
    using off by (simp add: zero_field_def [of b] zero_field_patch_field)
  finally have z: "zero_field c off = zero_field b off" .
  have "from_le_bytes (seg c off 4) = unat (crc32c (zero_field b off)) mod 256 ^ 4"
    using off c by (simp add: from_to_le_bytes)
  also have "\<dots> = unat (crc32c (zero_field b off))"
    using unat_u32_less by simp
  finally show "verify c off" using off z len by (simp add: verify_iff)
  show "k < length b \<Longrightarrow> k < off \<or> off + 4 \<le> k \<Longrightarrow> c ! k = b ! k" for k
    using off c by (auto simp: nth_patch nth_zero_field)
qed

section \<open>Properties\<close>

text \<open>
  C21. The table-driven checksum is CRC32C: on every input its bits, lowest first, are those of the
  polynomial division by the Castagnoli polynomial, and the check value of the
  standard, the checksum of the digits from 1 to 9, is \<open>0xe3069283\<close>.
\<close>

theorem crc32c_division:
  "map (bit (crc32c data)) [0..<32] = crc_by_division data \<and>
   crc32c [0x31, 0x32, 0x33, 0x34, 0x35, 0x36, 0x37, 0x38, 0x39] = 0xe3069283"
proof
  have "reg_of (NOT 0) = replicate 32 True" by (rule nth_equalityI) (simp_all add: reg_of_def bit_not_iff)
  then have "remainder (subtract (replicate 32 True) (bits_of data @ replicate 32 False)) = reg_of (foldl crc_byte (NOT 0) data)"
    using remainder_shift_in [of "replicate 32 True" "bits_of data"] reg_of_bytes [of "NOT 0" data] by simp
  moreover have "map (bit (NOT w)) [0..<32] = map Not (reg_of w)" for w :: "32 word"
    by (simp add: reg_of_def bit_not_iff)
  ultimately show "map (bit (crc32c data)) [0..<32] = crc_by_division data"
    by (simp only: crc32c_def crc_by_division_def)
  show "crc32c [0x31, 0x32, 0x33, 0x34, 0x35, 0x36, 0x37, 0x38, 0x39] = 0xe3069283"
    by (simp add: crc32c_def crc_byte_ref crc_eval crc_bit_def)
qed

text \<open>
  Stamping is the inverse of verifying: on any buffer with room for the field, \<open>stamp\<close>
  succeeds, keeps the length and every byte outside the field, and the result verifies.
\<close>

lemma stamp_then_verify:
  assumes "off + 4 \<le> length buf"
  shows "\<exists>c. stamp buf off = Ok c \<and> verify c off \<and> length c = length buf \<and>
    (\<forall>k. k < length buf \<and> (k < off \<or> off + 4 \<le> k) \<longrightarrow> c ! k = buf ! k)"
  using crc.seal_total [OF assms] crc.seal_check crc.seal_length crc.seal_frame by blast

lemma stamp_then_verify_witness:
  "2 + 4 \<le> length [7, 7, 7, 7, 7, 7, 7 :: byte] \<and>
   (\<exists>c. stamp [7, 7, 7, 7, 7, 7, 7] 2 = Ok c \<and> verify c 2)"
  using stamp_then_verify [of 2 "[7, 7, 7, 7, 7, 7, 7]"] by auto

text \<open>
  C22. A verified buffer in which exactly one byte outside the checksum field is changed no
  longer verifies.
\<close>

theorem verify_detects_byte_change:
  assumes "verify buf off" and "k < length buf" and "k < off \<or> off + 4 \<le> k" and "x \<noteq> buf ! k"
  shows "\<not> verify (buf[k := x]) off"
proof
  assume v: "verify (buf[k := x]) off"
  have off: "off + 4 \<le> length buf" using assms(1) by (simp add: verify_iff)
  let ?z = "zero_field buf off"
  have len: "k < length ?z" using assms(2) off by simp
  have "seg (buf[k := x]) off 4 = seg buf off 4"
    using assms(2,3) off by (intro nth_equalityI) (auto simp: seg_nth)
  moreover have z: "zero_field (buf[k := x]) off = ?z[k := x]"
    using assms(2,3) off by (intro nth_equalityI) (auto simp: nth_zero_field nth_list_update)
  ultimately have "crc32c (?z[k := x]) = crc32c ?z"
    using v assms(1) by (simp add: verify_iff)
  then have eq: "foldl crc_byte (NOT 0) (?z[k := x]) = foldl crc_byte (NOT 0) ?z"
    by (simp add: crc32c_def)
  have zk: "?z ! k = buf ! k" using assms off by (auto simp: nth_zero_field)
  define c where "c = foldl crc_byte (NOT 0) (take k ?z)"
  have "foldl crc_byte (NOT 0) ?z = foldl crc_byte (crc_byte c (buf ! k)) (drop (Suc k) ?z)"
    unfolding c_def using zk by (subst (1) id_take_nth_drop [OF len]) simp
  moreover have "foldl crc_byte (NOT 0) (?z[k := x]) = foldl crc_byte (crc_byte c x) (drop (Suc k) ?z)"
    unfolding c_def using len by (simp add: upd_conv_take_nth_drop)
  ultimately have "crc_byte c x = crc_byte c (buf ! k)"
    using eq by (metis crc_bytes_inj)
  then show False using assms(4) crc_byte_inj2 by blast
qed

theorem verify_detects_byte_change_witness:
  "\<exists>c. stamp [0, 0, 0, 0, 0x37] 0 = Ok c \<and> verify c 0 \<and> \<not> verify (c[4 := 0x36]) 0"
proof -
  let ?b = "[0, 0, 0, 0, 0x37] :: byte list"
  obtain c where c: "stamp ?b 0 = Ok c" using crc.seal_total [of 0 ?b] by auto
  then have "verify c 0" "length c = 5" "c ! 4 = 0x37"
    using crc.seal_check [OF c] crc.seal_length [OF c] crc.seal_frame [OF c, of 4] by auto
  then show ?thesis using c verify_detects_byte_change [of c 0 4 "0x36"] by auto
qed

end
