(* ===== verification/Strings.thy ===== *)
theory Strings
  imports Bytes
begin

text \<open>
  Strings as their bytes: ASCII literals, splitting at a separator, and
  \<open>String::from_utf8_lossy\<close> of the Rust standard library, which the names shown to a caller
  go through. Its lemmas show that the conversion keeps ASCII text and that converting twice
  changes nothing more.
\<close>

definition ascii :: "string \<Rightarrow> byte list" where
  "ascii s = map of_char s"

text \<open>\<open>slice::split\<close> at one byte.\<close>

fun split_on :: "'a \<Rightarrow> 'a list \<Rightarrow> 'a list list" where
  "split_on c [] = [[]]"
| "split_on c (x # xs) =
     (if x = c then [] # split_on c xs
      else case split_on c xs of [] \<Rightarrow> [[x]] | y # ys \<Rightarrow> (x # y) # ys)"

section \<open>UTF-8\<close>

text \<open>
  The decoder of the standard library: a leading byte fixes the width and the range of the
  second byte; bytes past the end read as zero. \<open>utf8_step\<close> gives how many bytes the next
  chunk takes and whether they are a character.
\<close>

definition byte_or_0 :: "byte list \<Rightarrow> nat \<Rightarrow> nat" where
  "byte_or_0 bs i = (if i < length bs then unat (bs ! i) else 0)"

definition is_cont :: "nat \<Rightarrow> bool" where
  "is_cont b \<longleftrightarrow> 0x80 \<le> b \<and> b \<le> 0xbf"

definition second_ok :: "nat \<Rightarrow> nat \<Rightarrow> bool" where
  "second_ok a b \<longleftrightarrow>
     (if a = 0xe0 then 0xa0 \<le> b \<and> b \<le> 0xbf
      else if a = 0xed then 0x80 \<le> b \<and> b \<le> 0x9f
      else if a = 0xf0 then 0x90 \<le> b \<and> b \<le> 0xbf
      else if a = 0xf4 then 0x80 \<le> b \<and> b \<le> 0x8f
      else is_cont b)"

definition utf8_width :: "nat \<Rightarrow> nat" where
  "utf8_width a =
     (if a < 0x80 then 1 else if 0xc2 \<le> a \<and> a \<le> 0xdf then 2 else if 0xe0 \<le> a \<and> a \<le> 0xef then 3
      else if 0xf0 \<le> a \<and> a \<le> 0xf4 then 4 else 0)"

definition utf8_step :: "byte list \<Rightarrow> nat \<times> bool" where
  "utf8_step bs =
     (let a = byte_or_0 bs 0; w = utf8_width a in
      if w = 0 then (1, False)
      else if w = 1 then (1, True)
      else if \<not> second_ok a (byte_or_0 bs 1) then (1, False)
      else if w = 2 then (2, True)
      else if \<not> is_cont (byte_or_0 bs 2) then (2, False)
      else if w = 3 then (3, True)
      else if \<not> is_cont (byte_or_0 bs 3) then (3, False)
      else (4, True))"

lemma utf8_step_pos: "0 < fst (utf8_step bs)"
  by (simp add: utf8_step_def Let_def)

function utf8_lossy :: "byte list \<Rightarrow> byte list" where
  "utf8_lossy bs =
     (if bs = [] then []
      else case utf8_step bs of (n, valid) \<Rightarrow> (if valid then take n bs else [0xef, 0xbf, 0xbd]) @ utf8_lossy (drop n bs))"
  by pat_completeness auto
termination
proof (relation "measure length", goal_cases)
  case (2 bs n valid)
  then show ?case using utf8_step_pos [of bs] by (metis diff_less fst_conv in_measure length_drop length_greater_0_conv)
qed simp

declare utf8_lossy.simps [simp del]

section \<open>Lemmas\<close>

text \<open>A string that is valid character by character.\<close>

inductive utf8 :: "byte list \<Rightarrow> bool" where
  Nil: "utf8 []"
| char: "utf8_step (c @ bs) = (length c, True) \<Longrightarrow> c \<noteq> [] \<Longrightarrow> utf8 bs \<Longrightarrow> utf8 (c @ bs)"

lemma byte_or_0_append: "i < length c \<Longrightarrow> byte_or_0 (c @ bs) i = unat (c ! i)"
  by (simp add: byte_or_0_def nth_append)

lemma utf8_lossy_valid: "utf8 bs \<Longrightarrow> utf8_lossy bs = bs"
proof (induction rule: utf8.induct)
  case (char c bs)
  then show ?case by (subst utf8_lossy.simps) simp
qed (subst utf8_lossy.simps, simp)

text \<open>A character is recognised whatever follows it.\<close>

lemma utf8_step_true:
  assumes "utf8_step bs = (n, True)" and "bs \<noteq> []"
  shows "n \<le> length bs" and "utf8_step (take n bs @ rest) = (n, True)"
proof -
  have z: "\<not> second_ok a 0" "\<not> is_cont 0" for a by (auto simp: second_ok_def is_cont_def)
  show n: "n \<le> length bs"
  proof -
    obtain x xs where "bs = x # xs" using assms(2) by (cases bs) simp_all
    then show ?thesis using assms(1) z by (auto simp: utf8_step_def Let_def byte_or_0_def Suc_le_eq split: if_splits)
  qed
  have "byte_or_0 (take n bs @ rest) i = byte_or_0 bs i" if "i < n" for i
    using n that by (simp add: byte_or_0_def nth_append)
  then show "utf8_step (take n bs @ rest) = (n, True)"
    using assms by (auto simp: utf8_step_def Let_def split: if_splits)
qed

lemma replacement_char: "utf8_step ([0xef, 0xbf, 0xbd] @ bs) = (3, True)"
  by (simp add: utf8_step_def byte_or_0_def utf8_width_def second_ok_def is_cont_def Let_def)

lemma utf8_lossy_is_utf8: "utf8 (utf8_lossy bs)"
proof (induction bs rule: utf8_lossy.induct)
  case (1 bs)
  show ?case
  proof (cases "bs = []")
    case False
    obtain n valid where s: "utf8_step bs = (n, valid)" by (cases "utf8_step bs")
    then have IH: "utf8 (utf8_lossy (drop n bs))" using 1 False by simp
    show ?thesis
    proof (cases valid)
      case True
      note t = utf8_step_true(1) [of bs n] utf8_step_true(2) [of bs n "utf8_lossy (drop n bs)"]
      have "0 < n" using utf8_step_pos [of bs] s by simp
      then have "utf8 (take n bs @ utf8_lossy (drop n bs))"
        using t s True False IH by (intro utf8.char) (auto simp: min_absorb2)
      then show ?thesis using False s True by (subst utf8_lossy.simps) simp
    next
      case invalid: False
      have "utf8 ([0xef, 0xbf, 0xbd] @ utf8_lossy (drop n bs))"
        using IH replacement_char by (intro utf8.char) auto
      then show ?thesis using False s invalid by (subst utf8_lossy.simps) simp
    qed
  qed (subst utf8_lossy.simps, simp add: utf8.Nil)
qed

lemma utf8_lossy_idem: "utf8_lossy (utf8_lossy bs) = utf8_lossy bs"
  by (rule utf8_lossy_valid [OF utf8_lossy_is_utf8])

lemma utf8_ascii: "\<forall>b \<in> set bs. unat b < 0x80 \<Longrightarrow> utf8 bs"
proof (induction bs)
  case (Cons b bs)
  then have "utf8_step ([b] @ bs) = (1, True)" by (simp add: utf8_step_def byte_or_0_def utf8_width_def)
  then show ?case using Cons utf8.char [of "[b]" bs] by simp
qed (rule utf8.Nil)

text \<open>Splitting and joining.\<close>

lemma split_on_not_Nil [simp]: "split_on c xs \<noteq> []"
  by (cases xs) (auto split: list.splits)

lemma split_on_no_sep: "ys \<in> set (split_on c xs) \<Longrightarrow> c \<notin> set ys"
proof (induction xs arbitrary: ys)
  case (Cons x xs)
  then show ?case by (auto split: if_splits list.splits)
qed simp

lemma split_on_none: "c \<notin> set xs \<Longrightarrow> split_on c xs = [xs]"
  by (induction xs) auto

lemma split_on_append: "split_on c (xs @ c # ys) = split_on c xs @ split_on c ys"
  by (induction xs) (auto split: list.splits)

end
