(* ===== verification/Superblock.thy ===== *)
theory Superblock
  imports Crc Strings
begin

text \<open>
  The superblock (\<open>src/src/sb.rs\<close>): parsing and checking the geometry, the feature
  predicates, what the writer refuses, and the address arithmetic between blocks, inodes,
  allocation groups and bytes. \<open>wf_sb\<close> is what \<open>parse_sb\<close> guarantees of every superblock
  it returns; the address lemmas rest on it.

  Shifts by \<open>sb_block_log\<close>, \<open>sb_inopb_log\<close> and \<open>sb_agblk_log\<close> are in range by \<open>wf_sb\<close>
  and are written without a check; shifts by \<open>sb_dirblk_log\<close> are checked.
\<close>

unbundle bit_operations_syntax

section \<open>Constants\<close>

abbreviation (input) "MAGIC_SB \<equiv> 0x58465342 :: nat"
abbreviation (input) "VERSION_LOGV2 \<equiv> 0x0400 :: nat"
abbreviation (input) "VERSION_DIRV2 \<equiv> 0x2000 :: nat"
abbreviation (input) "VERSION_BORGBIT \<equiv> 0x4000 :: nat"
abbreviation (input) "VERSION_MOREBITS \<equiv> 0x8000 :: nat"
abbreviation (input) "FEATURES2_FTYPE \<equiv> 0x200 :: nat"
abbreviation (input) "FEATURES2_CRC \<equiv> 0x100 :: nat"

abbreviation (input) "INCOMPAT_FTYPE \<equiv> 0x1 :: nat"
abbreviation (input) "INCOMPAT_SPINODES \<equiv> 0x2 :: nat"
abbreviation (input) "INCOMPAT_META_UUID \<equiv> 0x4 :: nat"
abbreviation (input) "INCOMPAT_BIGTIME \<equiv> 0x8 :: nat"
abbreviation (input) "INCOMPAT_NEEDSREPAIR \<equiv> 0x10 :: nat"
abbreviation (input) "INCOMPAT_NREXT64 \<equiv> 0x20 :: nat"
abbreviation (input) "INCOMPAT_EXCHRANGE \<equiv> 0x40 :: nat"
abbreviation (input) "INCOMPAT_PARENT \<equiv> 0x80 :: nat"
abbreviation (input) "INCOMPAT_METADIR \<equiv> 0x100 :: nat"
abbreviation (input) "INCOMPAT_ZONED \<equiv> 0x200 :: nat"

definition incompat_known :: nat where
  "incompat_known = INCOMPAT_FTYPE OR INCOMPAT_SPINODES OR INCOMPAT_META_UUID OR INCOMPAT_BIGTIME
     OR INCOMPAT_NREXT64 OR INCOMPAT_EXCHRANGE OR INCOMPAT_PARENT OR INCOMPAT_METADIR OR INCOMPAT_ZONED"

abbreviation (input) "RO_COMPAT_FINOBT \<equiv> 0x1 :: nat"
abbreviation (input) "RO_COMPAT_RMAPBT \<equiv> 0x2 :: nat"
abbreviation (input) "RO_COMPAT_REFLINK \<equiv> 0x4 :: nat"
abbreviation (input) "RO_COMPAT_INOBTCOUNT \<equiv> 0x8 :: nat"

definition ro_compat_known :: nat where
  "ro_compat_known = RO_COMPAT_FINOBT OR RO_COMPAT_RMAPBT OR RO_COMPAT_REFLINK OR RO_COMPAT_INOBTCOUNT"

text \<open>The complement of a 32-bit mask.\<close>

abbreviation not32 :: "nat \<Rightarrow> nat" where
  "not32 m \<equiv> 0xffffffff - m"

section \<open>The structure\<close>

record superblock =
  sb_block_size :: nat
  sb_data_blocks :: nat
  sb_uuid :: "byte list"
  sb_root_ino :: nat
  sb_ag_blocks :: nat
  sb_ag_count :: nat
  sb_version :: nat
  sb_sector_size :: nat
  sb_inode_size :: nat
  sb_inodes_per_block :: nat
  sb_label :: "byte list"
  sb_block_log :: nat
  sb_inopb_log :: nat
  sb_agblk_log :: nat
  sb_icount :: nat
  sb_ifree :: nat
  sb_free_blocks :: nat
  sb_dirblk_log :: nat
  sb_features2 :: nat
  sb_features_compat :: nat
  sb_features_ro_compat :: nat
  sb_features_incompat :: nat
  sb_versionnum :: nat
  sb_log_start :: nat
  sb_log_blocks :: nat
  sb_meta_uuid :: "byte list"
  sb_inode_align :: nat
  sb_spino_align :: nat
  sb_imax_pct :: nat
  sb_features_log_incompat :: nat

section \<open>Parsing\<close>

text \<open>The fields as stored; the label loses its trailing zeros and what is not UTF-8 in it.\<close>

definition sb_fields :: "byte list \<Rightarrow> superblock res" where
  "sb_fields buf =
     and_then (be16 buf 100) (\<lambda>versionnum. let version = versionnum AND 0xf in
     and_then (get buf 108 12) (\<lambda>label.
     and_then (be32 buf 4) (\<lambda>block_size.
     and_then (be64 buf 8) (\<lambda>data_blocks.
     and_then (get buf 32 16) (\<lambda>uuid.
     and_then (be64 buf 56) (\<lambda>root_ino.
     and_then (be32 buf 84) (\<lambda>ag_blocks.
     and_then (be32 buf 88) (\<lambda>ag_count.
     and_then (be16 buf 102) (\<lambda>sector_size.
     and_then (be16 buf 104) (\<lambda>inode_size.
     and_then (be16 buf 106) (\<lambda>inodes_per_block.
     and_then (index buf 120) (\<lambda>block_log.
     and_then (index buf 123) (\<lambda>inopb_log.
     and_then (index buf 124) (\<lambda>agblk_log.
     and_then (be64 buf 128) (\<lambda>icount.
     and_then (be64 buf 136) (\<lambda>ifree.
     and_then (be64 buf 144) (\<lambda>free_blocks.
     and_then (index buf 192) (\<lambda>dirblk_log.
     and_then (if versionnum AND VERSION_MOREBITS \<noteq> 0 then be32 buf 200 else Ok 0) (\<lambda>features2.
     and_then (if version = 5 then be32 buf 208 else Ok 0) (\<lambda>features_compat.
     and_then (if version = 5 then be32 buf 212 else Ok 0) (\<lambda>features_ro_compat.
     and_then (if version = 5 then be32 buf 216 else Ok 0) (\<lambda>features_incompat.
     and_then (be64 buf 48) (\<lambda>log_start.
     and_then (be32 buf 96) (\<lambda>log_blocks.
     and_then (be32 buf 180) (\<lambda>inode_align.
     and_then (if version = 5 then be32 buf 228 else Ok 0) (\<lambda>spino_align.
     and_then (index buf 127) (\<lambda>imax_pct.
     and_then (if version = 5 then be32 buf 220 else Ok 0) (\<lambda>features_log_incompat.
     and_then (if features_incompat AND INCOMPAT_META_UUID \<noteq> 0 then get buf 248 16 else Ok uuid) (\<lambda>meta_uuid.
     Ok \<lparr>sb_block_size = block_size, sb_data_blocks = data_blocks, sb_uuid = uuid,
         sb_root_ino = root_ino, sb_ag_blocks = ag_blocks, sb_ag_count = ag_count,
         sb_version = version, sb_sector_size = sector_size, sb_inode_size = inode_size,
         sb_inodes_per_block = inodes_per_block,
         sb_label = utf8_lossy (rev (dropWhile (\<lambda>b. b = 0) (rev label))),
         sb_block_log = unat block_log, sb_inopb_log = unat inopb_log, sb_agblk_log = unat agblk_log,
         sb_icount = icount, sb_ifree = ifree, sb_free_blocks = free_blocks,
         sb_dirblk_log = unat dirblk_log, sb_features2 = features2,
         sb_features_compat = features_compat, sb_features_ro_compat = features_ro_compat,
         sb_features_incompat = features_incompat, sb_versionnum = versionnum,
         sb_log_start = log_start, sb_log_blocks = log_blocks, sb_meta_uuid = meta_uuid,
         sb_inode_align = inode_align, sb_spino_align = spino_align, sb_imax_pct = unat imax_pct,
         sb_features_log_incompat = features_log_incompat\<rparr>)))))))))))))))))))))))))))))"

text \<open>The checks that depend on the format version.\<close>

definition check_version :: "byte list \<Rightarrow> superblock \<Rightarrow> unit res" where
  "check_version buf sb =
     (if sb_version sb = 4 then
        if sb_versionnum sb AND VERSION_DIRV2 = 0 then Err Unsupported
        else if sb_features2 sb AND FEATURES2_CRC \<noteq> 0 then Err Corrupt
        else Ok ()
      else if sb_version sb = 5 then
        let sect = sb_sector_size sb in
        if length buf < sect then Err Corrupt
        else and_then (get buf 0 sect) (\<lambda>sector.
          if \<not> verify sector 224 then Err Corrupt
          else if sb_features_incompat sb AND not32 incompat_known \<noteq> 0 then Err Unsupported
          else if sb_features_incompat sb AND INCOMPAT_NEEDSREPAIR \<noteq> 0 then Err Unsupported
          else Ok ())
      else Err Unsupported)"

text \<open>The geometry, left to right as \<open>||\<close> evaluates it.\<close>

definition check_geometry :: "superblock \<Rightarrow> unit res" where
  "check_geometry sb =
     (let bs = sb_block_size sb in
      if \<not> (512 \<le> bs \<and> bs \<le> 65536) then Err Corrupt
      else if \<not> is_power_of_two bs then Err Corrupt
      else and_then (shl_w 32 1 (sb_block_log sb)) (\<lambda>x.
      if x \<noteq> bs then Err Corrupt
      else if \<not> is_power_of_two (sb_inode_size sb) then Err Corrupt
      else if \<not> (256 \<le> sb_inode_size sb \<and> sb_inode_size sb \<le> 2048) then Err Corrupt
      else and_then (mul_w 32 (sb_inodes_per_block sb) (sb_inode_size sb)) (\<lambda>y.
      if y \<noteq> bs then Err Corrupt
      else and_then (shl_w 32 1 (sb_inopb_log sb)) (\<lambda>z.
      if z \<noteq> sb_inodes_per_block sb then Err Corrupt
      else if sb_ag_count sb = 0 then Err Corrupt
      else if sb_ag_blocks sb = 0 then Err Corrupt
      else and_then (shl_w 64 1 (sb_agblk_log sb)) (\<lambda>a.
      if sb_ag_blocks sb > a then Err Corrupt
      else if sb_agblk_log sb > 31 then Err Corrupt
      else and_then (shl_w 64 bs (sb_dirblk_log sb)) (\<lambda>d.
      if d > 65536 then Err Corrupt
      else Ok ()))))))"

definition parse_sb :: "byte list \<Rightarrow> superblock res" where
  "parse_sb buf =
     (if length buf < 512 then Err NotXfs
      else and_then (be32 buf 0) (\<lambda>magic.
        if magic \<noteq> MAGIC_SB then Err NotXfs
        else and_then (sb_fields buf) (\<lambda>sb.
             and_then (check_version buf sb) (\<lambda>_.
             and_then (check_geometry sb) (\<lambda>_. Ok sb)))))"

section \<open>Features\<close>

definition is_v5 :: "superblock \<Rightarrow> bool" where
  "is_v5 sb = (sb_version sb = 5)"

definition has_ftype :: "superblock \<Rightarrow> bool" where
  "has_ftype sb =
     (if is_v5 sb then sb_features_incompat sb AND INCOMPAT_FTYPE \<noteq> 0
      else sb_features2 sb AND FEATURES2_FTYPE \<noteq> 0)"

definition has_logv2 :: "superblock \<Rightarrow> bool" where
  "has_logv2 sb = (is_v5 sb \<or> sb_versionnum sb AND VERSION_LOGV2 \<noteq> 0)"

definition has_external_log :: "superblock \<Rightarrow> bool" where
  "has_external_log sb = (sb_log_start sb = 0)"

definition has_parent :: "superblock \<Rightarrow> bool" where
  "has_parent sb = (sb_features_incompat sb AND INCOMPAT_PARENT \<noteq> 0)"

definition has_nrext64 :: "superblock \<Rightarrow> bool" where
  "has_nrext64 sb = (sb_features_incompat sb AND INCOMPAT_NREXT64 \<noteq> 0)"

definition has_bigtime :: "superblock \<Rightarrow> bool" where
  "has_bigtime sb = (sb_features_incompat sb AND INCOMPAT_BIGTIME \<noteq> 0)"

definition has_sparse_inodes :: "superblock \<Rightarrow> bool" where
  "has_sparse_inodes sb = (sb_features_incompat sb AND INCOMPAT_SPINODES \<noteq> 0)"

definition has_finobt :: "superblock \<Rightarrow> bool" where
  "has_finobt sb = (sb_features_ro_compat sb AND RO_COMPAT_FINOBT \<noteq> 0)"

definition has_rmapbt :: "superblock \<Rightarrow> bool" where
  "has_rmapbt sb = (sb_features_ro_compat sb AND RO_COMPAT_RMAPBT \<noteq> 0)"

definition has_inobtcount :: "superblock \<Rightarrow> bool" where
  "has_inobtcount sb = (sb_features_ro_compat sb AND RO_COMPAT_INOBTCOUNT \<noteq> 0)"

definition check_writable :: "superblock \<Rightarrow> unit res" where
  "check_writable sb =
     (let handled = INCOMPAT_FTYPE OR INCOMPAT_SPINODES OR INCOMPAT_META_UUID OR INCOMPAT_BIGTIME
                    OR INCOMPAT_NREXT64 OR INCOMPAT_EXCHRANGE in
      if \<not> is_v5 sb then Err Unsupported
      else if sb_versionnum sb AND VERSION_BORGBIT \<noteq> 0 then Err Unsupported
      else if sb_features_ro_compat sb AND not32 ro_compat_known \<noteq> 0 then Err Unsupported
      else if sb_features_incompat sb AND not32 handled \<noteq> 0 then Err Unsupported
      else if sb_features_incompat sb AND INCOMPAT_FTYPE = 0 then Err Unsupported
      else if sb_features_log_incompat sb \<noteq> 0 then Err Unsupported
      else if sb_inodes_per_block sb > 64 then Err Unsupported
      else Ok ())"

section \<open>Addresses\<close>

definition sect :: "superblock \<Rightarrow> nat" where
  "sect sb = sb_sector_size sb"

definition agb_to_fsb :: "superblock \<Rightarrow> nat \<Rightarrow> nat \<Rightarrow> nat" where
  "agb_to_fsb sb agno agbno = push_bit (sb_agblk_log sb) agno OR agbno"

text \<open>The casts to \<open>u32\<close> keep the low 32 bits.\<close>

definition fsb_to_agb :: "superblock \<Rightarrow> nat \<Rightarrow> nat \<times> nat" where
  "fsb_to_agb sb fsbno =
     (take_bit 32 (drop_bit (sb_agblk_log sb) fsbno),
      take_bit 32 (fsbno AND (2 ^ sb_agblk_log sb - 1)))"

definition agb_to_byte :: "superblock \<Rightarrow> nat \<Rightarrow> nat \<Rightarrow> nat" where
  "agb_to_byte sb agno agbno =
     take_bit 64 (push_bit (sb_block_log sb) (agno * sb_ag_blocks sb + agbno))"

definition ag_len :: "superblock \<Rightarrow> nat \<Rightarrow> nat res" where
  "ag_len sb agno =
     and_then (sub_w (sb_data_blocks sb) (agno * sb_ag_blocks sb)) (\<lambda>n. Ok (min n (sb_ag_blocks sb)))"

definition agino_log :: "superblock \<Rightarrow> nat" where
  "agino_log sb = sb_agblk_log sb + sb_inopb_log sb"

definition agino_to_ino :: "superblock \<Rightarrow> nat \<Rightarrow> nat \<Rightarrow> nat" where
  "agino_to_ino sb agno agino = take_bit 64 (push_bit (agino_log sb) agno) OR agino"

definition ino_to_agino :: "superblock \<Rightarrow> nat \<Rightarrow> nat \<times> nat" where
  "ino_to_agino sb ino =
     (take_bit 32 (drop_bit (agino_log sb) ino), take_bit 32 (ino AND (2 ^ agino_log sb - 1)))"

definition dir_block_size :: "superblock \<Rightarrow> nat res" where
  "dir_block_size sb = shl_w 32 (sb_block_size sb) (sb_dirblk_log sb)"

definition fsb_to_byte :: "superblock \<Rightarrow> nat \<Rightarrow> nat res" where
  "fsb_to_byte sb fsbno =
     (let agno = drop_bit (sb_agblk_log sb) fsbno;
          agbno = fsbno AND (2 ^ sb_agblk_log sb - 1) in
      if agno \<ge> sb_ag_count sb \<or> agbno \<ge> sb_ag_blocks sb then Err Corrupt
      else Ok (take_bit 64 (push_bit (sb_block_log sb) (agno * sb_ag_blocks sb + agbno))))"

definition ino_to_byte :: "superblock \<Rightarrow> nat \<Rightarrow> nat res" where
  "ino_to_byte sb ino =
     (let agno = drop_bit (agino_log sb) ino;
          agino = ino AND (2 ^ agino_log sb - 1);
          agbno = drop_bit (sb_inopb_log sb) agino;
          idx = agino AND (2 ^ sb_inopb_log sb - 1) in
      if ino = 0 \<or> agno \<ge> sb_ag_count sb \<or> agbno \<ge> sb_ag_blocks sb then Err Corrupt
      else add_w 64 (take_bit 64 (push_bit (sb_block_log sb) (agno * sb_ag_blocks sb + agbno)))
             (idx * sb_inode_size sb))"

section \<open>Well-formed superblocks\<close>

definition wf_sb :: "superblock \<Rightarrow> bool" where
  "wf_sb sb \<longleftrightarrow>
     9 \<le> sb_block_log sb \<and> sb_block_log sb \<le> 16 \<and> sb_block_size sb = 2 ^ sb_block_log sb \<and>
     is_power_of_two (sb_inode_size sb) \<and> 256 \<le> sb_inode_size sb \<and> sb_inode_size sb \<le> 2048 \<and>
     sb_inodes_per_block sb * sb_inode_size sb = sb_block_size sb \<and>
     sb_inodes_per_block sb = 2 ^ sb_inopb_log sb \<and> sb_inopb_log sb \<le> 8 \<and>
     0 < sb_ag_count sb \<and> sb_ag_count sb < 2 ^ 32 \<and>
     0 < sb_ag_blocks sb \<and> sb_ag_blocks sb \<le> 2 ^ sb_agblk_log sb \<and> sb_agblk_log sb \<le> 31 \<and>
     sb_data_blocks sb < 2 ^ 64 \<and> sb_sector_size sb < 2 ^ 16 \<and>
     length (sb_uuid sb) = 16 \<and> length (sb_meta_uuid sb) = 16 \<and>
     (sb_version sb = 4 \<or> sb_version sb = 5)"

text \<open>The whole filesystem has byte addresses below \<open>2 ^ 64\<close>.\<close>

definition sb_fits :: "superblock \<Rightarrow> bool" where
  "sb_fits sb \<longleftrightarrow> sb_ag_count sb * sb_ag_blocks sb * sb_block_size sb \<le> 2 ^ 64"

text \<open>Where each field comes from, once the sector is long enough.\<close>

lemma sb_fields_sel:
  assumes "512 \<le> length buf" and "sb_fields buf = Ok sb"
  shows "sb_block_size sb = rd32 buf 4" "sb_data_blocks sb = rd64 buf 8" "sb_uuid sb = seg buf 32 16"
    "sb_root_ino sb = rd64 buf 56" "sb_ag_blocks sb = rd32 buf 84" "sb_ag_count sb = rd32 buf 88"
    "sb_version sb = rd16 buf 100 AND 0xf" "sb_sector_size sb = rd16 buf 102"
    "sb_inode_size sb = rd16 buf 104" "sb_inodes_per_block sb = rd16 buf 106"
    "sb_block_log sb = unat (buf ! 120)" "sb_inopb_log sb = unat (buf ! 123)"
    "sb_agblk_log sb = unat (buf ! 124)" "sb_dirblk_log sb = unat (buf ! 192)"
    "sb_versionnum sb = rd16 buf 100" "sb_log_start sb = rd64 buf 48" "sb_log_blocks sb = rd32 buf 96"
    "sb_features2 sb = (if rd16 buf 100 AND VERSION_MOREBITS \<noteq> 0 then rd32 buf 200 else 0)"
    "length (sb_meta_uuid sb) = 16"
proof -
  have "\<exists>compat ro_compat incompat spino log_incompat meta. length meta = 16 \<and>
    sb = \<lparr>sb_block_size = rd32 buf 4, sb_data_blocks = rd64 buf 8, sb_uuid = seg buf 32 16,
      sb_root_ino = rd64 buf 56, sb_ag_blocks = rd32 buf 84, sb_ag_count = rd32 buf 88,
      sb_version = rd16 buf 100 AND 0xf, sb_sector_size = rd16 buf 102, sb_inode_size = rd16 buf 104,
      sb_inodes_per_block = rd16 buf 106,
      sb_label = utf8_lossy (rev (dropWhile (\<lambda>b. b = 0) (rev (seg buf 108 12)))),
      sb_block_log = unat (buf ! 120), sb_inopb_log = unat (buf ! 123), sb_agblk_log = unat (buf ! 124),
      sb_icount = rd64 buf 128, sb_ifree = rd64 buf 136, sb_free_blocks = rd64 buf 144,
      sb_dirblk_log = unat (buf ! 192),
      sb_features2 = (if rd16 buf 100 AND VERSION_MOREBITS \<noteq> 0 then rd32 buf 200 else 0),
      sb_features_compat = compat, sb_features_ro_compat = ro_compat,
      sb_features_incompat = incompat, sb_versionnum = rd16 buf 100,
      sb_log_start = rd64 buf 48, sb_log_blocks = rd32 buf 96, sb_meta_uuid = meta,
      sb_inode_align = rd32 buf 180, sb_spino_align = spino, sb_imax_pct = unat (buf ! 127),
      sb_features_log_incompat = log_incompat\<rparr>"
    using assms by (simp add: sb_fields_def Let_def split del: if_split) (auto split: if_splits)
  then show "sb_block_size sb = rd32 buf 4" "sb_data_blocks sb = rd64 buf 8" "sb_uuid sb = seg buf 32 16"
    "sb_root_ino sb = rd64 buf 56" "sb_ag_blocks sb = rd32 buf 84" "sb_ag_count sb = rd32 buf 88"
    "sb_version sb = rd16 buf 100 AND 0xf" "sb_sector_size sb = rd16 buf 102"
    "sb_inode_size sb = rd16 buf 104" "sb_inodes_per_block sb = rd16 buf 106"
    "sb_block_log sb = unat (buf ! 120)" "sb_inopb_log sb = unat (buf ! 123)"
    "sb_agblk_log sb = unat (buf ! 124)" "sb_dirblk_log sb = unat (buf ! 192)"
    "sb_versionnum sb = rd16 buf 100" "sb_log_start sb = rd64 buf 48" "sb_log_blocks sb = rd32 buf 96"
    "sb_features2 sb = (if rd16 buf 100 AND VERSION_MOREBITS \<noteq> 0 then rd32 buf 200 else 0)"
    "length (sb_meta_uuid sb) = 16"
    by (elim exE conjE, simp)+
qed

lemma sb_fields_Ok:
  assumes "512 \<le> length buf" and "sb_fields buf = Ok sb"
  shows "sb_ag_count sb < 2 ^ 32" "sb_data_blocks sb < 2 ^ 64" "sb_sector_size sb < 2 ^ 16"
    "length (sb_uuid sb) = 16" "length (sb_meta_uuid sb) = 16"
  using assms(1) rd_less by (simp_all add: sb_fields_sel [OF assms])

lemma sb_fields_total:
  assumes "512 \<le> length buf"
  shows "\<exists>sb. sb_fields buf = Ok sb"
  using assms by (simp add: sb_fields_def Let_def)

lemma pow2_le_log: "(2 :: nat) ^ a \<le> b \<Longrightarrow> b \<le> 2 ^ c \<Longrightarrow> a \<le> c"
  by (meson le_trans one_less_numeral_iff power_le_imp_le_exp semiring_norm(76))

lemma check_geometry_Ok:
  assumes "check_geometry sb = Ok ()"
  shows "9 \<le> sb_block_log sb" "sb_block_log sb \<le> 16" "sb_block_size sb = 2 ^ sb_block_log sb"
    "is_power_of_two (sb_inode_size sb)" "256 \<le> sb_inode_size sb" "sb_inode_size sb \<le> 2048"
    "sb_inodes_per_block sb * sb_inode_size sb = sb_block_size sb"
    "sb_inodes_per_block sb = 2 ^ sb_inopb_log sb" "sb_inopb_log sb \<le> 8"
    "0 < sb_ag_count sb" "0 < sb_ag_blocks sb" "sb_ag_blocks sb \<le> 2 ^ sb_agblk_log sb" "sb_agblk_log sb \<le> 31"
proof -
  let ?bs = "sb_block_size sb"
  have g: "512 \<le> ?bs" "?bs \<le> 65536" "sb_block_log sb < 32" "2 ^ sb_block_log sb mod 2 ^ 32 = ?bs"
    "is_power_of_two (sb_inode_size sb)" "256 \<le> sb_inode_size sb" "sb_inode_size sb \<le> 2048"
    "sb_inodes_per_block sb * sb_inode_size sb = ?bs"
    "sb_inopb_log sb < 32" "2 ^ sb_inopb_log sb mod 2 ^ 32 = sb_inodes_per_block sb"
    "0 < sb_ag_count sb" "0 < sb_ag_blocks sb" "sb_agblk_log sb \<le> 31"
    "sb_ag_blocks sb \<le> 2 ^ sb_agblk_log sb mod 2 ^ 64"
    using assms by (auto simp: check_geometry_def Let_def res_simps shl_w_def mul_w_def split: if_splits)
  have small: "(2 :: nat) ^ k mod 2 ^ 32 = 2 ^ k" if "k < 32" for k
    using power_strict_increasing [OF that, of "2 :: nat"] by simp
  have "(2 :: nat) ^ sb_agblk_log sb mod 2 ^ 64 \<le> 2 ^ sb_agblk_log sb" by simp
  with g(14) show "sb_ag_blocks sb \<le> 2 ^ sb_agblk_log sb" by linarith
  show bs: "?bs = 2 ^ sb_block_log sb" using g small by metis
  show "9 \<le> sb_block_log sb" using g(1) bs pow2_le_log [of 9 ?bs "sb_block_log sb"] by simp
  show "sb_block_log sb \<le> 16" using g(2) bs pow2_le_log [of "sb_block_log sb" ?bs 16] by simp
  show ipb: "sb_inodes_per_block sb = 2 ^ sb_inopb_log sb" using g small by metis
  have "sb_inodes_per_block sb * 256 \<le> 65536"
    using g(2,6,8) by (metis le_trans mult_le_mono2)
  then have "2 ^ sb_inopb_log sb \<le> (256 :: nat)" using ipb by simp
  then show "sb_inopb_log sb \<le> 8" using pow2_le_log [of "sb_inopb_log sb" 256 8] by simp
qed (use assms in \<open>auto simp: check_geometry_def Let_def res_simps shl_w_def mul_w_def split: if_splits\<close>)

lemma parse_sb_parts:
  assumes "parse_sb buf = Ok sb"
  shows "512 \<le> length buf" "rd32 buf 0 = MAGIC_SB" "sb_fields buf = Ok sb"
    "check_version buf sb = Ok ()" "check_geometry sb = Ok ()"
  using assms by (auto simp: parse_sb_def res_simps split: if_splits)

lemma check_version_Ok:
  assumes "check_version buf sb = Ok ()"
  shows "sb_version sb = 4 \<or> sb_version sb = 5"
    "sb_version sb = 5 \<Longrightarrow> verify (seg buf 0 (sb_sector_size sb)) 224"
  using assms by (auto simp: check_version_def res_simps Let_def split: if_splits)

lemma parse_sb_wf: "parse_sb buf = Ok sb \<Longrightarrow> wf_sb sb"
  unfolding wf_sb_def
  by (frule parse_sb_parts(1), frule parse_sb_parts(3), frule parse_sb_parts(4), drule parse_sb_parts(5))
    (intro conjI check_geometry_Ok sb_fields_Ok check_version_Ok; assumption)

text \<open>The facts of \<open>wf_sb\<close> the components use.\<close>

lemma wf_sbD:
  assumes "wf_sb sb"
  shows "sb_block_size sb = 2 ^ sb_block_log sb" "9 \<le> sb_block_log sb" "sb_block_log sb \<le> 16"
    "512 \<le> sb_block_size sb" "sb_block_size sb \<le> 65536" "0 < sb_block_size sb"
    "256 \<le> sb_inode_size sb" "sb_inode_size sb \<le> 2048"
    "sb_inodes_per_block sb * sb_inode_size sb = sb_block_size sb"
    "sb_inodes_per_block sb = 2 ^ sb_inopb_log sb" "sb_inopb_log sb \<le> 8"
    "0 < sb_ag_count sb" "sb_ag_count sb < 2 ^ 32"
    "0 < sb_ag_blocks sb" "sb_ag_blocks sb \<le> 2 ^ sb_agblk_log sb" "sb_agblk_log sb \<le> 31"
    "length (sb_uuid sb) = 16" "length (sb_meta_uuid sb) = 16"
proof -
  show l: "9 \<le> sb_block_log sb" "sb_block_log sb \<le> 16" "sb_block_size sb = 2 ^ sb_block_log sb"
    using assms by (simp_all add: wf_sb_def)
  have "512 \<le> (2 :: nat) ^ sb_block_log sb" "(2 :: nat) ^ sb_block_log sb \<le> 65536"
    using power_increasing [OF l(1), of "2 :: nat"] power_increasing [OF l(2), of "2 :: nat"]
    by (simp_all del: power_increasing_iff)
  then show "512 \<le> sb_block_size sb" "sb_block_size sb \<le> 65536" "0 < sb_block_size sb"
    using l(3) by simp_all
qed (use assms in \<open>unfold wf_sb_def, blast\<close>)+

section \<open>Address arithmetic\<close>

lemma and_mask_nat: "(n :: nat) AND (2 ^ k - 1) = n mod 2 ^ k"
  by (metis mask_eq_exp_minus_1 take_bit_eq_mask take_bit_eq_mod)

lemma bit_less_nat: "bit (b :: nat) n \<Longrightarrow> b < 2 ^ k \<Longrightarrow> n < k"
  by (metis bit_take_bit_iff take_bit_nat_eq_self)

lemma shift_or_nat:
  assumes "(b :: nat) < 2 ^ k"
  shows "push_bit k a OR b = a * 2 ^ k + b"
proof -
  have "push_bit k a AND b = 0"
    by (rule bit_eqI) (auto simp: bit_simps dest: bit_less_nat [OF _ assms])
  then have "push_bit k a + b = push_bit k a OR b"
    by (rule disjunctive_add_eq_or)
  then show ?thesis by (simp add: push_bit_eq_mult)
qed

lemmas addr_simps = and_mask_nat take_bit_eq_mod push_bit_eq_mult drop_bit_eq_div

lemma shift_mask_nat: "(b :: nat) < 2 ^ k \<Longrightarrow> (a * 2 ^ k + b) div 2 ^ k = a \<and> (a * 2 ^ k + b) mod 2 ^ k = b"
  by simp

lemma fsb_to_byte_eq:
  "fsb_to_byte sb fsb =
     (let agno = fsb div 2 ^ sb_agblk_log sb; agbno = fsb mod 2 ^ sb_agblk_log sb in
      if agno < sb_ag_count sb \<and> agbno < sb_ag_blocks sb
      then Ok ((agno * sb_ag_blocks sb + agbno) * 2 ^ sb_block_log sb mod 2 ^ 64)
      else Err Corrupt)"
  by (auto simp: fsb_to_byte_def addr_simps Let_def simp flip: One_nat_def)

text \<open>Block \<open>agbno\<close> of AG \<open>agno\<close> counted from the start of the device.\<close>

lemma linear_block_less:
  assumes "agno < ag_count" and "agbno < ag_blocks"
  shows "agno * ag_blocks + agbno < ag_count * (ag_blocks :: nat)"
proof -
  have "agno * ag_blocks + agbno < Suc agno * ag_blocks" using assms by simp
  also have "\<dots> \<le> ag_count * ag_blocks" using assms by (intro mult_le_mono1) simp
  finally show ?thesis .
qed

lemma linear_block_inj:
  assumes "a * n + b = c * n + (d :: nat)" and "b < n" and "d < n"
  shows "a = c \<and> b = d"
proof -
  have "a = (a * n + b) div n" using assms(2) by simp
  also have "\<dots> = (c * n + d) div n" by (simp only: assms(1))
  also have "\<dots> = c" using assms(3) by simp
  finally show ?thesis using assms(1) by simp
qed

lemma byte_no_wrap:
  assumes "wf_sb sb" and "sb_fits sb" and "agno < sb_ag_count sb" and "agbno < sb_ag_blocks sb"
  shows "(agno * sb_ag_blocks sb + agbno + 1) * sb_block_size sb \<le> 2 ^ 64"
    "(agno * sb_ag_blocks sb + agbno) * 2 ^ sb_block_log sb mod 2 ^ 64
       = (agno * sb_ag_blocks sb + agbno) * sb_block_size sb"
proof -
  have "(agno * sb_ag_blocks sb + agbno + 1) * sb_block_size sb
      \<le> sb_ag_count sb * sb_ag_blocks sb * sb_block_size sb"
    using linear_block_less [OF assms(3,4)] by (intro mult_le_mono1) simp
  with assms(2) show le: "(agno * sb_ag_blocks sb + agbno + 1) * sb_block_size sb \<le> 2 ^ 64"
    by (simp add: sb_fits_def)
  have "0 < sb_block_size sb" using wf_sbD(6) [OF assms(1)] .
  with le have "(agno * sb_ag_blocks sb + agbno) * sb_block_size sb < 2 ^ 64"
    by (simp add: algebra_simps)
  then show "(agno * sb_ag_blocks sb + agbno) * 2 ^ sb_block_log sb mod 2 ^ 64
       = (agno * sb_ag_blocks sb + agbno) * sb_block_size sb"
    by (simp add: wf_sbD(1) [OF assms(1)])
qed

lemma agb_to_fsb_parts:
  assumes "wf_sb sb" and "agbno < sb_ag_blocks sb"
  shows "agb_to_fsb sb agno agbno = agno * 2 ^ sb_agblk_log sb + agbno"
    "agb_to_fsb sb agno agbno div 2 ^ sb_agblk_log sb = agno"
    "agb_to_fsb sb agno agbno mod 2 ^ sb_agblk_log sb = agbno"
proof -
  have lt: "agbno < 2 ^ sb_agblk_log sb" using assms wf_sbD(15) [OF assms(1)] by simp
  then show eq: "agb_to_fsb sb agno agbno = agno * 2 ^ sb_agblk_log sb + agbno"
    by (simp add: agb_to_fsb_def shift_or_nat)
  show "agb_to_fsb sb agno agbno div 2 ^ sb_agblk_log sb = agno"
    "agb_to_fsb sb agno agbno mod 2 ^ sb_agblk_log sb = agbno"
    using lt by (simp_all add: eq)
qed

lemma agblk_less_32:
  assumes "wf_sb sb" and "agbno < sb_ag_blocks sb"
  shows "agbno < 4294967296"
proof -
  have "(2 :: nat) ^ sb_agblk_log sb \<le> 2 ^ 31"
    using wf_sbD(16) [OF assms(1)] by (intro power_increasing) simp_all
  with assms wf_sbD(15) [OF assms(1)] show ?thesis by (simp del: power_increasing_iff)
qed

section \<open>Properties\<close>

text \<open>
  C26. Parsing accepts only a consistent geometry: whatever the bytes, a superblock returned
  by \<open>parse_sb\<close> has a power-of-two block size from 512 to 65536 that agrees with its
  logarithm, whole inodes of 256 to 2048 bytes in a block, at least one allocation group
  of at least one block with block numbers that fit the AG's bits, and is version 4 or 5;
  a version 5 sector also carries a valid checksum.
\<close>

theorem parse_sb_sound:
  assumes "parse_sb buf = Ok sb"
  shows "wf_sb sb \<and> (sb_version sb = 5 \<longrightarrow> verify (seg buf 0 (sb_sector_size sb)) 224)"
  using parse_sb_wf [OF assms] check_version_Ok(2) [OF parse_sb_parts(4) [OF assms]] by blast

lemma agb_to_byte_eq:
  assumes "wf_sb sb" and "sb_fits sb" and "agno < sb_ag_count sb" and "agbno < sb_ag_blocks sb"
  shows "agb_to_byte sb agno agbno = (agno * sb_ag_blocks sb + agbno) * sb_block_size sb"
    and "agb_to_byte sb agno agbno + sb_block_size sb \<le> sb_ag_count sb * sb_ag_blocks sb * sb_block_size sb"
proof -
  show byte: "agb_to_byte sb agno agbno = (agno * sb_ag_blocks sb + agbno) * sb_block_size sb"
    using byte_no_wrap(2) [OF assms] by (simp add: agb_to_byte_def addr_simps)
  have "agb_to_byte sb agno agbno + sb_block_size sb = (agno * sb_ag_blocks sb + agbno + 1) * sb_block_size sb"
    using byte by (simp add: algebra_simps)
  also have "\<dots> \<le> sb_ag_count sb * sb_ag_blocks sb * sb_block_size sb"
    using linear_block_less [OF assms(3,4)] by (intro mult_le_mono1) simp
  finally show "agb_to_byte sb agno agbno + sb_block_size sb \<le> sb_ag_count sb * sb_ag_blocks sb * sb_block_size sb" .
qed

lemma fsb_to_byte_accepted:
  assumes "wf_sb sb" and "sb_fits sb" and "fsb_to_byte sb fsb = Ok at"
  obtains agno agbno where "agno < sb_ag_count sb" and "agbno < sb_ag_blocks sb" and "fsb = agb_to_fsb sb agno agbno"
    and "at = (agno * sb_ag_blocks sb + agbno) * sb_block_size sb"
proof
  let ?g = "fsb div 2 ^ sb_agblk_log sb" and ?b = "fsb mod 2 ^ sb_agblk_log sb"
  show g: "?g < sb_ag_count sb" and b: "?b < sb_ag_blocks sb"
    using assms(3) by (simp_all add: fsb_to_byte_eq Let_def split: if_splits)
  show "fsb = agb_to_fsb sb ?g ?b" unfolding agb_to_fsb_parts(1) [OF assms(1) b] by (rule div_mult_mod_eq [symmetric])
  show "at = (?g * sb_ag_blocks sb + ?b) * sb_block_size sb"
    using assms(3) g b byte_no_wrap(2) [OF assms(1,2) g b] by (simp add: fsb_to_byte_eq Let_def)
qed

lemma linear_cells:
  assumes "(m :: nat) \<noteq> n"
  shows "m * s + s \<le> n * s \<or> n * s + s \<le> m * s"
proof -
  consider "Suc m \<le> n" | "Suc n \<le> m" using assms by linarith
  then show ?thesis
  proof cases
    case 1
    then show ?thesis using mult_le_mono1 [OF 1, of s] by simp
  next
    case 2
    then show ?thesis using mult_le_mono1 [OF 2, of s] by simp
  qed
qed

text \<open>
  C27. Block addresses are a bijection between the blocks of the allocation groups and the
  filesystem block numbers \<open>fsb_to_byte\<close> accepts. Encoding a block of a group and decoding it gives
  it back, with the linear position times the block size as its byte offset, inside the filesystem; a
  number is accepted only when it is the encoding of such a block, any other is refused as
  corrupt; and the blocks of two numbers that are accepted do not overlap.
\<close>

theorem block_addresses:
  assumes "wf_sb sb" and "sb_fits sb"
  shows "(\<forall>agno < sb_ag_count sb. \<forall>agbno < sb_ag_blocks sb.
      fsb_to_agb sb (agb_to_fsb sb agno agbno) = (agno, agbno) \<and>
      fsb_to_byte sb (agb_to_fsb sb agno agbno) = Ok (agb_to_byte sb agno agbno) \<and>
      agb_to_byte sb agno agbno = (agno * sb_ag_blocks sb + agbno) * sb_block_size sb \<and>
      agb_to_byte sb agno agbno + sb_block_size sb \<le> sb_ag_count sb * sb_ag_blocks sb * sb_block_size sb) \<and>
    (\<forall>fsb. fsb_to_byte sb fsb \<noteq> Err Corrupt \<longleftrightarrow>
      (\<exists>agno < sb_ag_count sb. \<exists>agbno < sb_ag_blocks sb. fsb = agb_to_fsb sb agno agbno)) \<and>
    (\<forall>fsb fsb' at at'. fsb_to_byte sb fsb = Ok at \<longrightarrow> fsb_to_byte sb fsb' = Ok at' \<longrightarrow> fsb \<noteq> fsb' \<longrightarrow>
      at + sb_block_size sb \<le> at' \<or> at' + sb_block_size sb \<le> at)"
proof -
  let ?n = "sb_ag_blocks sb"
  have enc: "fsb_to_agb sb (agb_to_fsb sb agno agbno) = (agno, agbno) \<and>
      fsb_to_byte sb (agb_to_fsb sb agno agbno) = Ok (agb_to_byte sb agno agbno)"
    if "agno < sb_ag_count sb" "agbno < ?n" for agno agbno
  proof -
    note p = agb_to_fsb_parts [OF assms(1) that(2)] and byte = agb_to_byte_eq(1) [OF assms that]
    have "agno < 4294967296" "agbno < 4294967296"
      using that(1) wf_sbD(13) [OF assms(1)] agblk_less_32 [OF assms(1) that(2)] by simp_all
    then show ?thesis
      using that byte byte_no_wrap(2) [OF assms that]
      by (simp add: fsb_to_agb_def fsb_to_byte_eq addr_simps p(2,3) flip: One_nat_def)
  qed
  have acc: "fsb_to_byte sb fsb \<noteq> Err Corrupt \<longleftrightarrow> (\<exists>agno < sb_ag_count sb. \<exists>agbno < ?n. fsb = agb_to_fsb sb agno agbno)" for fsb
  proof
    assume "fsb_to_byte sb fsb \<noteq> Err Corrupt"
    then obtain at where "fsb_to_byte sb fsb = Ok at" by (auto simp: fsb_to_byte_eq Let_def split: if_splits)
    then show "\<exists>agno < sb_ag_count sb. \<exists>agbno < ?n. fsb = agb_to_fsb sb agno agbno"
      by (rule fsb_to_byte_accepted [OF assms]) blast
  qed (use enc in auto)
  have apart: "at + sb_block_size sb \<le> at' \<or> at' + sb_block_size sb \<le> at"
    if ok: "fsb_to_byte sb fsb = Ok at" "fsb_to_byte sb fsb' = Ok at'" "fsb \<noteq> fsb'" for fsb fsb' at at'
  proof -
    obtain g b where 1: "b < ?n" "fsb = agb_to_fsb sb g b" "at = (g * ?n + b) * sb_block_size sb"
      using fsb_to_byte_accepted [OF assms ok(1)] by metis
    obtain g' b' where 2: "b' < ?n" "fsb' = agb_to_fsb sb g' b'" "at' = (g' * ?n + b') * sb_block_size sb"
      using fsb_to_byte_accepted [OF assms ok(2)] by metis
    have "g * ?n + b \<noteq> g' * ?n + b'" using linear_block_inj [OF _ 1(1) 2(1)] ok(3) 1(2) 2(2) by blast
    then show ?thesis unfolding 1(3) 2(3) by (rule linear_cells)
  qed
  show ?thesis using enc agb_to_byte_eq [OF assms] acc apart by blast
qed

text \<open>The numbers that name an inode: one inside a block of an allocation group.\<close>

definition inode_at :: "superblock \<Rightarrow> nat \<Rightarrow> nat \<Rightarrow> bool" where
  "inode_at sb agno agino \<longleftrightarrow>
     agno < sb_ag_count sb \<and> agino div 2 ^ sb_inopb_log sb < sb_ag_blocks sb \<and> agino < 2 ^ 32 \<and>
     (agno, agino) \<noteq> (0, 0) \<and> agino_log sb \<le> 32"

lemma agino_to_ino_parts:
  assumes "wf_sb sb" and "inode_at sb agno agino"
  shows "agino_to_ino sb agno agino = agno * 2 ^ agino_log sb + agino"
    "agino_to_ino sb agno agino div 2 ^ agino_log sb = agno"
    "agino_to_ino sb agno agino mod 2 ^ agino_log sb = agino"
proof -
  have "agino div 2 ^ sb_inopb_log sb < 2 ^ sb_agblk_log sb"
    using assms(2) wf_sbD(15) [OF assms(1)] by (simp add: inode_at_def)
  then have lt: "agino < 2 ^ agino_log sb"
    by (simp add: agino_log_def power_add div_less_iff_less_mult)
  have "agno * 2 ^ agino_log sb < 2 ^ 32 * 2 ^ agino_log sb"
    using assms(2) wf_sbD(13) [OF assms(1)] by (intro mult_strict_right_mono) (simp_all add: inode_at_def)
  also have "\<dots> \<le> 2 ^ 32 * 2 ^ 32"
    using assms(2) by (intro mult_le_mono2 power_increasing) (simp_all add: inode_at_def)
  finally have "take_bit 64 (push_bit (agino_log sb) agno) = push_bit (agino_log sb) agno"
    by (simp add: push_bit_eq_mult take_bit_eq_mod)
  with lt show eq: "agino_to_ino sb agno agino = agno * 2 ^ agino_log sb + agino"
    by (simp add: agino_to_ino_def shift_or_nat)
  show "agino_to_ino sb agno agino div 2 ^ agino_log sb = agno"
    "agino_to_ino sb agno agino mod 2 ^ agino_log sb = agino"
    using lt by (simp_all add: eq)
qed

lemma ino_to_byte_at:
  assumes "wf_sb sb" and "sb_fits sb" and "inode_at sb agno agino"
  shows "ino_to_byte sb (agino_to_ino sb agno agino) =
    Ok ((agno * sb_ag_blocks sb + agino div 2 ^ sb_inopb_log sb) * sb_block_size sb
        + agino mod 2 ^ sb_inopb_log sb * sb_inode_size sb)"
    and "agino mod 2 ^ sb_inopb_log sb * sb_inode_size sb + sb_inode_size sb \<le> sb_block_size sb"
proof -
  let ?agbno = "agino div 2 ^ sb_inopb_log sb" and ?idx = "agino mod 2 ^ sb_inopb_log sb"
  note p = agino_to_ino_parts [OF assms(1,3)]
  have at: "agno < sb_ag_count sb" "?agbno < sb_ag_blocks sb" "(agno, agino) \<noteq> (0, 0)"
    using assms(3) by (simp_all add: inode_at_def)
  have "Suc ?idx * sb_inode_size sb \<le> 2 ^ sb_inopb_log sb * sb_inode_size sb"
    by (intro mult_le_mono1) (simp add: Suc_leI)
  also have "\<dots> = sb_block_size sb"
    using wf_sbD(9,10) [OF assms(1)] by simp
  finally show idx: "?idx * sb_inode_size sb + sb_inode_size sb \<le> sb_block_size sb" by simp
  have nz: "agino_to_ino sb agno agino \<noteq> 0" using at(3) by (auto simp: p(1))
  have "0 < sb_inode_size sb" using wf_sbD(7) [OF assms(1)] by simp
  with idx byte_no_wrap(1) [OF assms(1,2) at(1,2)]
  have "(agno * sb_ag_blocks sb + ?agbno) * sb_block_size sb + ?idx * sb_inode_size sb < 2 ^ 64"
    by (simp add: algebra_simps)
  then show "ino_to_byte sb (agino_to_ino sb agno agino) =
    Ok ((agno * sb_ag_blocks sb + ?agbno) * sb_block_size sb + ?idx * sb_inode_size sb)"
    using at nz byte_no_wrap(2) [OF assms(1,2) at(1,2)]
    by (simp add: ino_to_byte_def addr_simps p(2,3) Let_def add_w_def not_le flip: One_nat_def)
qed

lemma cells_disjoint:
  assumes "i * w + w \<le> n" and "i' * w + w \<le> (n :: nat)" and "(b, i) \<noteq> (b', i')"
  shows "b * n + i * w + w \<le> b' * n + i' * w \<or> b' * n + i' * w + w \<le> b * n + i * w"
proof -
  have *: "b * n + i * w + w \<le> b' * n + i' * w"
    if "b < b' \<or> b = b' \<and> i < i'" and "i * w + w \<le> n" for b i b' i' :: nat
  proof (cases "b < b'")
    case True
    then have "Suc b * n \<le> b' * n" by (intro mult_le_mono1) simp
    with that(2) show ?thesis by simp
  next
    case False
    with that have "b = b'" "i < i'" by auto
    then have "b = b'" "Suc i * w \<le> i' * w" by (simp, intro mult_le_mono1, simp)
    then show ?thesis by simp
  qed
  from assms(3) have "b < b' \<or> b = b' \<and> i < i' \<or> (b' < b \<or> b' = b \<and> i' < i)" by auto
  then show ?thesis using * [of b b' i i'] * [of b' b i' i] assms(1,2) by blast
qed

text \<open>Where the bytes of inodes are.\<close>

lemma inode_slots:
  assumes "wf_sb sb" and "sb_fits sb" and "inode_at sb agno agino" and "inode_at sb agno' agino'"
  shows "ino_to_agino sb (agino_to_ino sb agno agino) = (agno, agino) \<and>
    (\<exists>at. ino_to_byte sb (agino_to_ino sb agno agino) = Ok at \<and>
       at div sb_block_size sb = agno * sb_ag_blocks sb + agino div 2 ^ sb_inopb_log sb \<and>
       at mod sb_block_size sb = agino mod 2 ^ sb_inopb_log sb * sb_inode_size sb \<and>
       at mod sb_block_size sb + sb_inode_size sb \<le> sb_block_size sb \<and>
       (\<forall>at'. ino_to_byte sb (agino_to_ino sb agno' agino') = Ok at' \<and> (agno, agino) \<noteq> (agno', agino')
          \<longrightarrow> at + sb_inode_size sb \<le> at' \<or> at' + sb_inode_size sb \<le> at))"
proof -
  let ?n = "sb_block_size sb" and ?w = "sb_inode_size sb"
  let ?b = "\<lambda>g i. g * sb_ag_blocks sb + i div 2 ^ sb_inopb_log sb" and ?i = "\<lambda>i. i mod 2 ^ sb_inopb_log sb"
  note p = agino_to_ino_parts [OF assms(1,3)]
  note at = ino_to_byte_at [OF assms(1-3)] and at' = ino_to_byte_at [OF assms(1,2,4)]
  have "agno < 4294967296" "agino < 4294967296"
    using assms(3) wf_sbD(13) [OF assms(1)] by (simp_all add: inode_at_def)
  then have dec: "ino_to_agino sb (agino_to_ino sb agno agino) = (agno, agino)"
    by (simp add: ino_to_agino_def addr_simps p(2,3) flip: One_nat_def)
  have "0 < ?w" using wf_sbD(7) [OF assms(1)] by simp
  with at(2) have lt: "?i agino * ?w < ?n" by linarith
  have "(?b agno agino, ?i agino) \<noteq> (?b agno' agino', ?i agino')" if "(agno, agino) \<noteq> (agno', agino')"
  proof
    assume "(?b agno agino, ?i agino) = (?b agno' agino', ?i agino')"
    then have b: "?b agno agino = ?b agno' agino'" and i: "?i agino = ?i agino'" by simp_all
    have "agno = agno' \<and> agino div 2 ^ sb_inopb_log sb = agino' div 2 ^ sb_inopb_log sb"
      by (rule linear_block_inj [OF b]) (use assms(3,4) in \<open>simp_all add: inode_at_def\<close>)
    with i that show False by (metis div_mult_mod_eq)
  qed
  then have "?b agno agino * ?n + ?i agino * ?w + ?w \<le> at' \<or> at' + ?w \<le> ?b agno agino * ?n + ?i agino * ?w"
    if "ino_to_byte sb (agino_to_ino sb agno' agino') = Ok at'" "(agno, agino) \<noteq> (agno', agino')" for at'
    using that cells_disjoint [OF at(2) at'(2)] at'(1) by auto
  then show ?thesis using dec at lt by auto
qed

text \<open>
  Inode addresses: for an inode \<open>agino\<close> of AG \<open>agno\<close>, decoding the encoded number gives
  the pair back, and its bytes lie whole inside one block of that AG, at the index the
  number gives; two different inodes never share a byte.
\<close>

lemma inode_address:
  assumes "wf_sb sb" and "sb_fits sb" and "inode_at sb agno agino" and "inode_at sb agno' agino'"
  shows "ino_to_agino sb (agino_to_ino sb agno agino) = (agno, agino) \<and>
    (\<exists>at. ino_to_byte sb (agino_to_ino sb agno agino) = Ok at \<and>
       at div sb_block_size sb = agno * sb_ag_blocks sb + agino div 2 ^ sb_inopb_log sb \<and>
       at mod sb_block_size sb = agino mod 2 ^ sb_inopb_log sb * sb_inode_size sb \<and>
       at mod sb_block_size sb + sb_inode_size sb \<le> sb_block_size sb \<and>
       (\<forall>at'. ino_to_byte sb (agino_to_ino sb agno' agino') = Ok at' \<and> (agno, agino) \<noteq> (agno', agino')
          \<longrightarrow> at + sb_inode_size sb \<le> at' \<or> at' + sb_inode_size sb \<le> at))"
  by (rule inode_slots [OF assms])

text \<open>A filesystem of four allocation groups, as the witnesses use it.\<close>

definition demo_sb :: superblock where
  "demo_sb = \<lparr>sb_block_size = 4096, sb_data_blocks = 65536, sb_uuid = replicate 16 1,
     sb_root_ino = 128, sb_ag_blocks = 16384, sb_ag_count = 4, sb_version = 5,
     sb_sector_size = 512, sb_inode_size = 512, sb_inodes_per_block = 8, sb_label = [],
     sb_block_log = 12, sb_inopb_log = 3, sb_agblk_log = 14, sb_icount = 64, sb_ifree = 61,
     sb_free_blocks = 60000, sb_dirblk_log = 0, sb_features2 = 0, sb_features_compat = 0,
     sb_features_ro_compat = 0xf, sb_features_incompat = 0x2b, sb_versionnum = 0xb4a5,
     sb_log_start = 49158, sb_log_blocks = 1000, sb_meta_uuid = replicate 16 1,
     sb_inode_align = 4, sb_spino_align = 1, sb_imax_pct = 25, sb_features_log_incompat = 0\<rparr>"

lemma demo_sb_simps [simp]:
  "sb_block_size demo_sb = 4096" "sb_data_blocks demo_sb = 65536" "sb_uuid demo_sb = replicate 16 1"
  "sb_ag_blocks demo_sb = 16384" "sb_ag_count demo_sb = 4" "sb_version demo_sb = 5"
  "sb_sector_size demo_sb = 512" "sb_inode_size demo_sb = 512" "sb_inodes_per_block demo_sb = 8"
  "sb_block_log demo_sb = 12" "sb_inopb_log demo_sb = 3" "sb_agblk_log demo_sb = 14"
  "sb_dirblk_log demo_sb = 0" "sb_features_ro_compat demo_sb = 0xf"
  "sb_features_incompat demo_sb = 0x2b" "sb_meta_uuid demo_sb = replicate 16 1"
  "sb_versionnum demo_sb = 0xb4a5" "sb_features_log_incompat demo_sb = 0" "sb_inode_align demo_sb = 4"
  by (simp_all add: demo_sb_def)

lemma demo_sb_wf: "wf_sb demo_sb" "sb_fits demo_sb"
proof -
  have "is_power_of_two 512" using is_power_of_twoI [of 9] by simp
  then show "wf_sb demo_sb" "sb_fits demo_sb"
    by (simp_all add: wf_sb_def sb_fits_def)
qed

theorem block_addresses_witness:
  "fsb_to_byte demo_sb (agb_to_fsb demo_sb 2 5) = Ok (agb_to_byte demo_sb 2 5) \<and>
   fsb_to_byte demo_sb (agb_to_fsb demo_sb 4 0) = Err Corrupt"
proof -
  have "\<not> (\<exists>agno < 4. \<exists>agbno < 16384. agb_to_fsb demo_sb 4 0 = agb_to_fsb demo_sb agno agbno)"
    using agb_to_fsb_parts(2) [OF demo_sb_wf(1)] by (metis demo_sb_simps(4) less_irrefl zero_less_numeral)
  moreover note block_addresses [OF demo_sb_wf]
  ultimately have "fsb_to_byte demo_sb (agb_to_fsb demo_sb 4 0) = Err Corrupt" by (metis demo_sb_simps(4,5))
  then show ?thesis using block_addresses [OF demo_sb_wf] by simp
qed

lemma inode_address_witness:
  "ino_to_agino demo_sb (agino_to_ino demo_sb 1 130) = (1, 130)"
  using inode_address [OF demo_sb_wf, of 1 130 0 128] by (simp add: inode_at_def agino_log_def)

text \<open>A version 4 superblock sector with a given directory block shift and log start, all else in order.\<close>

definition v4_fields :: "nat \<Rightarrow> nat \<Rightarrow> (nat \<times> byte list) list" where
  "v4_fields dirblk_log log_start =
     [(0, u32_bytes MAGIC_SB), (4, u32_bytes 4096), (8, u64_bytes 16), (48, u64_bytes log_start), (84, u32_bytes 16),
      (88, u32_bytes 1), (100, u16_bytes 0x2004), (102, u16_bytes 512), (104, u16_bytes 256),
      (106, u16_bytes 16), (120, u8_bytes 12), (123, u8_bytes 4), (124, u8_bytes 4),
      (192, u8_bytes dirblk_log)]"

definition v4_sector :: "nat \<Rightarrow> nat \<Rightarrow> byte list" where
  "v4_sector dirblk_log log_start = fold (\<lambda>(i, ys) b. patch b i ys) (v4_fields dirblk_log log_start) (replicate 512 0)"

lemma v4_sector_puts: "puts (v4_fields k l) (replicate 512 0) = Ok (v4_sector k l)"
  by (simp add: v4_sector_def v4_fields_def)

lemma v4_sector_length: "length (v4_sector k l) = 512"
  using puts_length [OF v4_sector_puts] by simp

lemma parse_v4_sector:
  assumes "k < 64" and "4096 * 2 ^ k mod 2 ^ 64 \<le> (65536 :: nat)" and "l < 2 ^ 64"
  shows "\<exists>sb. parse_sb (v4_sector k l) = Ok sb \<and> sb_block_size sb = 4096 \<and> sb_dirblk_log sb = k \<and>
    sb_data_blocks sb = 16 \<and> sb_log_start sb = l \<and> sb_log_blocks sb = 0 \<and> rd16 (v4_sector k l) 102 = 512"
proof -
  have read: "seg (v4_sector k l) i n = ys"
    if "i + n \<le> 512" and "field (v4_fields k l) i n (Some (seg (replicate 512 0) i n)) = Some ys" for i n ys
    using puts_field [OF v4_sector_puts] that by simp
  have "seg (v4_sector k l) 0 4 = u32_bytes MAGIC_SB" "seg (v4_sector k l) 4 4 = u32_bytes 4096"
    "seg (v4_sector k l) 84 4 = u32_bytes 16" "seg (v4_sector k l) 88 4 = u32_bytes 1"
    "seg (v4_sector k l) 100 2 = u16_bytes 0x2004" "seg (v4_sector k l) 104 2 = u16_bytes 256"
    "seg (v4_sector k l) 106 2 = u16_bytes 16" "seg (v4_sector k l) 8 8 = u64_bytes 16" "seg (v4_sector k l) 48 8 = u64_bytes l"
    "seg (v4_sector k l) 96 4 = replicate 4 0" "seg (v4_sector k l) 102 2 = u16_bytes 512"
    by (rule read, simp, simp add: v4_fields_def seg_replicate)+
  then have rd: "rd64 (v4_sector k l) 8 = 16" "rd64 (v4_sector k l) 48 = l" "rd32 (v4_sector k l) 96 = 0" "rd16 (v4_sector k l) 102 = 512"
    "rd32 (v4_sector k l) 0 = MAGIC_SB" "rd32 (v4_sector k l) 4 = 4096" "rd32 (v4_sector k l) 84 = 16"
    "rd32 (v4_sector k l) 88 = 1" "rd16 (v4_sector k l) 100 = 0x2004" "rd16 (v4_sector k l) 104 = 256"
    "rd16 (v4_sector k l) 106 = 16"
    using assms(3) by (simp_all add: be_widths)
  have "seg (v4_sector k l) 120 1 = [12]" "seg (v4_sector k l) 123 1 = [4]" "seg (v4_sector k l) 124 1 = [4]"
    "seg (v4_sector k l) 192 1 = [word_of_nat k]"
    by (rule read, simp, simp add: v4_fields_def)+
  then have rd8: "v4_sector k l ! 120 = 12" "v4_sector k l ! 123 = 4" "v4_sector k l ! 124 = 4"
    "v4_sector k l ! 192 = word_of_nat k"
    by (simp_all add: seg_1_nth)
  have k: "unat (word_of_nat k :: byte) = k" using assms(1) by (simp add: unat_of_nat)
  have len: "512 \<le> length (v4_sector k l)" by (simp add: v4_sector_length)
  then obtain sb where sb: "sb_fields (v4_sector k l) = Ok sb"
    using sb_fields_total by blast
  note sel = sb_fields_sel [OF len sb]
  have f: "sb_block_size sb = 4096" "sb_ag_blocks sb = 16" "sb_ag_count sb = 1" "sb_version sb = 4"
    "sb_versionnum sb = 0x2004" "sb_features2 sb = 0" "sb_inode_size sb = 256" "sb_inodes_per_block sb = 16"
    "sb_block_log sb = 12" "sb_inopb_log sb = 4" "sb_agblk_log sb = 4" "sb_dirblk_log sb = k"
    "sb_data_blocks sb = 16" "sb_log_start sb = l" "sb_log_blocks sb = 0"
    by (simp_all only: sel rd rd8 k, simp_all)
  have "check_version (v4_sector k l) sb = Ok ()" by (simp add: check_version_def f)
  moreover have "is_power_of_two 4096" "is_power_of_two 256"
    using is_power_of_twoI [of 12] is_power_of_twoI [of 8] by simp_all
  then have "check_geometry sb = Ok ()"
    using assms by (simp add: check_geometry_def f shl_w_def mul_w_def)
  ultimately show ?thesis using sb f by (simp add: parse_sb_def v4_sector_length rd)
qed

theorem parse_sb_sound_witness:
  "\<exists>sb. parse_sb (v4_sector 0 0) = Ok sb \<and> wf_sb sb"
  using parse_v4_sector [of 0 0] parse_sb_sound by auto

text \<open>
  The check of the directory block size can be passed by overflow: shifting the block
  size left by the directory block logarithm loses the bits it tests, so a superblock of
  4096-byte blocks with a shift of 52 is accepted, and computing its directory block size
  afterwards panics (in a build without overflow checks the shift is reduced modulo 32).
\<close>

lemma dirblk_log_overflow_accepted:
  "\<exists>sb. parse_sb (v4_sector 52 0) = Ok sb \<and> sb_dirblk_log sb = 52 \<and> dir_block_size sb = Panic"
proof -
  obtain sb where "parse_sb (v4_sector 52 0) = Ok sb" "sb_dirblk_log sb = 52"
    using parse_v4_sector [of 52 0] by auto
  then show ?thesis by (intro exI [of _ sb]) (simp add: dir_block_size_def shl_w_def)
qed

end
