(* ===== verification/Inode.thy ===== *)
theory Inode
  imports Superblock
begin

text \<open>
  On-disk inodes (\<open>src/src/inode.rs\<close>) and the raw inode the writer edits (\<open>Raw\<close>,
  \<open>ts_raw\<close> and \<open>format_code\<close> of \<open>src/src/write.rs\<close>). \<open>parse_inode\<close> is the parser;
  the raw setters return the changed buffer. The lemmas show that parsing never panics on a
  well-formed superblock, that the two forks are the inode's literal area, and that what
  the setters write is what the parser reads back once the checksum is stamped.
\<close>

unbundle bit_operations_syntax

section \<open>Constants\<close>

abbreviation (input) "INODE_MAGIC \<equiv> 0x494e :: nat"
abbreviation (input) "IFMT \<equiv> 0xf000 :: nat"
abbreviation (input) "IFSOCK \<equiv> 0xc000 :: nat"
abbreviation (input) "IFLNK \<equiv> 0xa000 :: nat"
abbreviation (input) "IFREG \<equiv> 0x8000 :: nat"
abbreviation (input) "IFBLK \<equiv> 0x6000 :: nat"
abbreviation (input) "IFDIR \<equiv> 0x4000 :: nat"
abbreviation (input) "IFCHR \<equiv> 0x2000 :: nat"
abbreviation (input) "IFIFO \<equiv> 0x1000 :: nat"
abbreviation (input) "DIFLAG_REALTIME \<equiv> 0x1 :: nat"
abbreviation (input) "DIFLAG2_REFLINK \<equiv> 0x2 :: nat"
abbreviation (input) "DIFLAG2_BIGTIME \<equiv> 0x8 :: nat"
abbreviation (input) "DIFLAG2_NREXT64 \<equiv> 0x10 :: nat"
abbreviation (input) "BIGTIME_EPOCH_OFFSET \<equiv> 2147483648 :: int"
abbreviation (input) "CORE \<equiv> 176 :: nat"
abbreviation (input) "INODE_CRC \<equiv> 100 :: nat"

section \<open>Formats and times\<close>

datatype fmt = Dev | Local | Extents | Btree

definition from_u8 :: "byte \<Rightarrow> fmt res" where
  "from_u8 v = (if v = 0 then Ok Dev else if v = 1 then Ok Local
                else if v = 2 then Ok Extents else if v = 3 then Ok Btree else Err Corrupt)"

definition format_code :: "fmt \<Rightarrow> byte" where
  "format_code f = (case f of Dev \<Rightarrow> 0 | Local \<Rightarrow> 1 | Extents \<Rightarrow> 2 | Btree \<Rightarrow> 3)"

record timestamp =
  ts_secs :: int
  ts_nsecs :: nat

text \<open>The closure \<open>ts\<close> of the parser, on the raw field.\<close>

definition ts_of_raw :: "bool \<Rightarrow> nat \<Rightarrow> timestamp" where
  "ts_of_raw bigtime raw =
     (if bigtime then
        \<lparr>ts_secs = int (raw div 1000000000) - BIGTIME_EPOCH_OFFSET, ts_nsecs = raw mod 1000000000\<rparr>
      else
        \<lparr>ts_secs = (let v = take_bit 32 (drop_bit 32 raw) in
                    if v < 2 ^ 31 then int v else int v - 2 ^ 32),
         ts_nsecs = take_bit 32 raw\<rparr>)"

definition ts_raw :: "timestamp \<Rightarrow> bool \<Rightarrow> nat res" where
  "ts_raw t bigtime =
     (if bigtime then
        if 2 ^ 63 \<le> ts_secs t + 2 ^ 31 then Panic
        else and_then (mul_w 64 (nat (max (ts_secs t + 2 ^ 31) 0)) 1000000000) (\<lambda>n.
             add_w 64 n (ts_nsecs t))
      else
        let secs = nat (min (max (ts_secs t) (- (2 ^ 31))) (2 ^ 31 - 1) mod 2 ^ 32) in
        Ok (push_bit 32 secs OR ts_nsecs t))"

section \<open>Parsing\<close>

record inode =
  i_ino :: nat
  i_mode :: nat
  i_version :: nat
  i_format :: fmt
  i_uid :: nat
  i_gid :: nat
  i_nlink :: nat
  i_projid :: nat
  i_atime :: timestamp
  i_mtime :: timestamp
  i_ctime :: timestamp
  i_crtime :: "timestamp option"
  i_size :: nat
  i_nblocks :: nat
  i_nextents :: nat
  i_anextents :: nat
  i_aformat :: "fmt option"
  i_flags :: nat
  i_flags2 :: nat
  i_generation :: nat
  i_data_fork :: "byte list"
  i_attr_fork :: "byte list"

text \<open>The magic, the version with the core's length, the checksum and the number.\<close>

definition inode_checks :: "superblock \<Rightarrow> nat \<Rightarrow> byte list \<Rightarrow> (nat \<times> nat) res" where
  "inode_checks sb ino buf =
     and_then (be16 buf 0) (\<lambda>magic.
     if magic \<noteq> INODE_MAGIC then Err Corrupt
     else and_then (index buf 4) (\<lambda>version.
     if (version = 1 \<or> version = 2) \<and> \<not> is_v5 sb then Ok (unat version, 100)
     else if version = 3 \<and> is_v5 sb then
       if \<not> verify buf 100 then Err Corrupt
       else and_then (be64 buf 152) (\<lambda>n. if n \<noteq> ino then Err Corrupt else Ok (3, 176))
     else Err Corrupt))"

text \<open>The formats and bytes of the two forks.\<close>

definition inode_forks :: "nat \<Rightarrow> byte list \<Rightarrow> (fmt \<times> byte list \<times> byte list \<times> fmt option) res" where
  "inode_forks core buf =
     and_then (and_then (index buf 5) from_u8) (\<lambda>format.
     and_then (index buf 82) (\<lambda>off. let forkoff = unat off * 8 in
     and_then (sub_w (length buf) core) (\<lambda>literal.
     if forkoff = 0 then and_then (get_from buf core) (\<lambda>data. Ok (format, data, [], None))
     else if literal \<le> forkoff then Err Corrupt
     else and_then (get buf core forkoff) (\<lambda>data.
          and_then (get_from buf (core + forkoff)) (\<lambda>attr.
          and_then (and_then (index buf 83) from_u8) (\<lambda>aformat.
          Ok (format, data, attr, Some aformat)))))))"

definition parse_inode :: "superblock \<Rightarrow> nat \<Rightarrow> byte list \<Rightarrow> inode res" where
  "parse_inode sb ino buf0 =
     (let isize = sb_inode_size sb in
      if length buf0 < isize then Err Corrupt
      else and_then (get buf0 0 isize) (\<lambda>buf.
      and_then (inode_checks sb ino buf) (\<lambda>(version, core).
      and_then (if version = 3 then be64 buf 120 else Ok 0) (\<lambda>flags2.
      let bigtime = flags2 AND DIFLAG2_BIGTIME \<noteq> 0;
          ts = (\<lambda>off. map_ok (ts_of_raw bigtime) (be64 buf off)) in
      and_then (if flags2 AND DIFLAG2_NREXT64 \<noteq> 0 then be64 buf 24 else be32 buf 76) (\<lambda>nextents.
      and_then (if flags2 AND DIFLAG2_NREXT64 \<noteq> 0 then be32 buf 76 else be16 buf 80) (\<lambda>anextents.
      and_then (inode_forks core buf) (\<lambda>(format, data_fork, attr_fork, aformat).
      and_then (be16 buf 2) (\<lambda>mode.
      and_then (be32 buf 8) (\<lambda>uid.
      and_then (be32 buf 12) (\<lambda>gid.
      and_then (if version = 1 then be16 buf 6 else be32 buf 16) (\<lambda>nlink.
      and_then (if version = 1 then Ok 0
                else and_then (be16 buf 22) (\<lambda>hi. and_then (be16 buf 20) (\<lambda>lo.
                     Ok (push_bit 16 hi OR lo)))) (\<lambda>projid.
      and_then (ts 32) (\<lambda>atime.
      and_then (ts 40) (\<lambda>mtime.
      and_then (ts 48) (\<lambda>ctime.
      and_then (if version = 3 then map_ok Some (ts 144) else Ok None) (\<lambda>crtime.
      and_then (be64 buf 56) (\<lambda>sz.
      and_then (be64 buf 64) (\<lambda>nblocks.
      and_then (be16 buf 90) (\<lambda>flags.
      and_then (be32 buf 92) (\<lambda>generation.
      Ok \<lparr>i_ino = ino, i_mode = mode, i_version = version, i_format = format, i_uid = uid, i_gid = gid,
          i_nlink = nlink, i_projid = projid, i_atime = atime, i_mtime = mtime, i_ctime = ctime,
          i_crtime = crtime, i_size = sz, i_nblocks = nblocks, i_nextents = nextents,
          i_anextents = anextents, i_aformat = aformat, i_flags = flags, i_flags2 = flags2,
          i_generation = generation, i_data_fork = data_fork, i_attr_fork = attr_fork\<rparr>))))))))))))))))))))"

definition file_type :: "inode \<Rightarrow> nat" where
  "file_type ip = i_mode ip AND IFMT"

definition is_dir :: "inode \<Rightarrow> bool" where
  "is_dir ip = (file_type ip = IFDIR)"

definition is_realtime :: "inode \<Rightarrow> bool" where
  "is_realtime ip = (i_flags ip AND DIFLAG_REALTIME \<noteq> 0)"

definition device :: "inode \<Rightarrow> (nat \<times> nat) res" where
  "device ip =
     (if i_format ip \<noteq> Dev \<or> length (i_data_fork ip) < 4 then Ok (0, 0)
      else and_then (be32 (i_data_fork ip) 0) (\<lambda>dev. Ok (drop_bit 18 dev, dev AND 0x3ffff)))"

section \<open>The raw inode of the writer\<close>

definition raw_flags2 :: "byte list \<Rightarrow> nat res" where
  "raw_flags2 r = be64 r 120"

definition raw_bigtime :: "byte list \<Rightarrow> bool res" where
  "raw_bigtime r = map_ok (\<lambda>f. f AND DIFLAG2_BIGTIME \<noteq> 0) (raw_flags2 r)"

definition data_fork_size :: "byte list \<Rightarrow> nat res" where
  "data_fork_size r =
     and_then (index r 82) (\<lambda>off.
     if unat off * 8 = 0 then sub_w (length r) CORE else Ok (unat off * 8))"

definition set_data_fork :: "fmt \<Rightarrow> byte list \<Rightarrow> byte list \<Rightarrow> byte list res" where
  "set_data_fork format fork r =
     and_then (data_fork_size r) (\<lambda>n.
     if \<not> length fork \<le> n then Panic
     else puts [(5, [format_code format]), (CORE, replicate n 0), (CORE, fork)] r)"

definition set_nextents :: "nat \<Rightarrow> byte list \<Rightarrow> byte list res" where
  "set_nextents n r =
     and_then (raw_flags2 r) (\<lambda>f.
     if f AND DIFLAG2_NREXT64 \<noteq> 0 then put64 r 24 n else put32 r 76 n)"

definition set_size :: "nat \<Rightarrow> byte list \<Rightarrow> byte list res" where
  "set_size n r = put64 r 56 n"

definition raw_nblocks :: "byte list \<Rightarrow> nat res" where
  "raw_nblocks r = be64 r 64"

definition set_nblocks :: "nat \<Rightarrow> byte list \<Rightarrow> byte list res" where
  "set_nblocks n r = put64 r 64 n"

definition raw_nlink :: "byte list \<Rightarrow> nat res" where
  "raw_nlink r = be32 r 16"

definition set_nlink :: "nat \<Rightarrow> byte list \<Rightarrow> byte list res" where
  "set_nlink n r = put32 r 16 n"

definition raw_mode :: "byte list \<Rightarrow> nat res" where
  "raw_mode r = be16 r 2"

definition set_mode :: "nat \<Rightarrow> byte list \<Rightarrow> byte list res" where
  "set_mode m r = put16 r 2 m"

definition set_owner :: "nat \<Rightarrow> nat \<Rightarrow> byte list \<Rightarrow> byte list res" where
  "set_owner uid gid r = and_then (put32 r 8 uid) (\<lambda>r. put32 r 12 gid)"

definition touch :: "timestamp \<Rightarrow> bool \<Rightarrow> byte list \<Rightarrow> byte list res" where
  "touch now content r =
     and_then (raw_bigtime r) (\<lambda>bigtime.
     and_then (ts_raw now bigtime) (\<lambda>t.
     and_then (if content then put64 r 40 t else Ok r) (\<lambda>r.
     and_then (put64 r 48 t) (\<lambda>r.
     and_then (be64 r 104) (\<lambda>cc. put64 r 104 ((cc + 1) mod 2 ^ 64))))))"

text \<open>
  A new in-use inode's bytes. The time and the generation, which the writer takes from its
  clock and its generator, are arguments.
\<close>

definition new_raw ::
  "superblock \<Rightarrow> timestamp \<Rightarrow> nat \<Rightarrow> nat \<Rightarrow> nat \<Rightarrow> nat \<Rightarrow> nat \<Rightarrow> nat \<Rightarrow> byte list res" where
  "new_raw sb now gen ino mode uid gid nlink =
     (let flags2 = (if has_bigtime sb then DIFLAG2_BIGTIME else 0) OR
                   (if has_nrext64 sb then DIFLAG2_NREXT64 else 0) in
      and_then (ts_raw now (has_bigtime sb)) (\<lambda>t.
      puts [(0, u16_bytes INODE_MAGIC), (2, u16_bytes mode), (4, [3]), (5, [format_code Extents]),
            (8, u32_bytes uid), (12, u32_bytes gid), (16, u32_bytes nlink), (120, u64_bytes flags2),
            (32, u64_bytes t), (40, u64_bytes t), (48, u64_bytes t), (144, u64_bytes t),
            (83, [format_code Extents]), (92, u32_bytes gen), (96, u32_bytes 0xffffffff),
            (104, u64_bytes 1), (152, u64_bytes ino), (160, sb_meta_uuid sb)]
        (replicate (sb_inode_size sb) 0)))"

section \<open>Times and formats: lemmas\<close>

lemma from_u8_format_code [simp]: "from_u8 (format_code f) = Ok f"
  by (cases f) (simp_all add: from_u8_def format_code_def)

lemma from_u8_not_Panic [simp]: "from_u8 v \<noteq> Panic"
  by (simp add: from_u8_def)

text \<open>The times an inode can hold, with and without big timestamps.\<close>

definition ts_fits :: "bool \<Rightarrow> timestamp \<Rightarrow> bool" where
  "ts_fits bigtime t \<longleftrightarrow> ts_nsecs t < 1000000000 \<and> - (2 ^ 31) \<le> ts_secs t \<and>
     ts_secs t < (if bigtime then 16299260425 else 2 ^ 31)"

lemma ts_raw_small:
  assumes "ts_fits False t"
  shows "\<exists>raw. ts_raw t False = Ok raw \<and> raw < 2 ^ 64 \<and> ts_of_raw False raw = t"
proof -
  define v where "v = nat (ts_secs t mod 2 ^ 32)"
  have n: "ts_nsecs t < 2 ^ 32" and lo: "- (2 ^ 31) \<le> ts_secs t" and hi: "ts_secs t < 2 ^ 31"
    using assms by (simp_all add: ts_fits_def)
  have v: "v < 2 ^ 32" by (simp add: v_def nat_less_iff)
  have raw: "push_bit 32 v OR ts_nsecs t = v * 2 ^ 32 + ts_nsecs t"
    using n shift_or_nat [of "ts_nsecs t" 32 v] by simp
  have "ts_raw t False = Ok (v * 2 ^ 32 + ts_nsecs t)"
    unfolding raw [symmetric] using lo hi by (simp add: ts_raw_def v_def min_def max_def)
  moreover have "v * 2 ^ 32 + ts_nsecs t < 2 ^ 64" using v n by simp
  moreover have "(if v < 2 ^ 31 then int v else int v - 2 ^ 32) = ts_secs t"
  proof (cases "0 \<le> ts_secs t")
    case True
    then have "int v = ts_secs t" using hi by (simp add: v_def)
    then show ?thesis using hi by simp
  next
    case False
    then have "(ts_secs t + 2 ^ 32) mod 2 ^ 32 = ts_secs t + 2 ^ 32"
      using lo by (intro mod_pos_pos_trivial) simp_all
    then have "int v = ts_secs t + 2 ^ 32" by (simp add: v_def)
    then show ?thesis using lo False by simp
  qed
  then have "ts_of_raw False (v * 2 ^ 32 + ts_nsecs t) = t"
    using n v by (simp add: ts_of_raw_def drop_bit_eq_div take_bit_eq_mod)
  ultimately show ?thesis by blast
qed

lemma ts_raw_big:
  assumes "ts_fits True t"
  shows "\<exists>raw. ts_raw t True = Ok raw \<and> raw < 2 ^ 64 \<and> ts_of_raw True raw = t"
proof -
  define v where "v = nat (ts_secs t + 2 ^ 31)"
  have n: "ts_nsecs t < 1000000000" and v: "int v = ts_secs t + 2 ^ 31" "v < 18446744073"
    using assms by (simp_all add: ts_fits_def v_def nat_less_iff)
  have "ts_raw t True = and_then (mul_w 64 v 1000000000) (\<lambda>m. add_w 64 m (ts_nsecs t))"
    using assms by (simp add: ts_raw_def ts_fits_def v_def max_def)
  also have "\<dots> = Ok (v * 1000000000 + ts_nsecs t)"
    using v(2) n by (simp add: mul_w_def add_w_def)
  finally have "ts_raw t True = Ok (v * 1000000000 + ts_nsecs t)" .
  moreover have "v * 1000000000 + ts_nsecs t < 2 ^ 64" using v(2) n by simp
  moreover have "ts_of_raw True (v * 1000000000 + ts_nsecs t) = t"
    using n v(1) by (simp add: ts_of_raw_def)
  ultimately show ?thesis by blast
qed

section \<open>Parsing: lemmas\<close>

lemma inode_checks_not_Panic: "256 \<le> length buf \<Longrightarrow> inode_checks sb ino buf \<noteq> Panic"
  by (simp add: inode_checks_def)

lemma inode_checks_core:
  assumes "inode_checks sb ino buf = Ok (version, core)"
  shows "core \<le> 176" and "version = 3 \<longleftrightarrow> is_v5 sb" and "core = (if is_v5 sb then 176 else 100)"
  using assms by (auto simp: inode_checks_def res_simps split: if_splits)

lemma inode_forks_not_Panic: "256 \<le> length buf \<Longrightarrow> core \<le> 176 \<Longrightarrow> inode_forks core buf \<noteq> Panic"
  by (auto simp: inode_forks_def res_simps Let_def sub_w_def)

lemma inode_forks_parts:
  assumes "inode_forks core buf = Ok (format, data, attr, aformat)" and "core \<le> length buf"
  shows "data @ attr = drop core buf" and "aformat = None \<longleftrightarrow> attr = []"
    and "aformat = None \<longleftrightarrow> unat (buf ! 82) = 0"
    and "length data = (if unat (buf ! 82) = 0 then length buf - core else unat (buf ! 82) * 8)"
proof -
  have "drop core buf = seg buf core n @ drop (core + n) buf" for n
    by (simp add: seg_def add.commute [of core]) (metis append_take_drop_id drop_drop)
  with assms show "data @ attr = drop core buf" and "aformat = None \<longleftrightarrow> attr = []"
    and "aformat = None \<longleftrightarrow> unat (buf ! 82) = 0"
    and "length data = (if unat (buf ! 82) = 0 then length buf - core else unat (buf ! 82) * 8)"
    by (auto simp: inode_forks_def res_simps Let_def sub_w_def get_from_def split: if_splits)
qed

text \<open>A version 5 inode that parses, field by field.\<close>

definition v3_view :: "nat \<Rightarrow> byte list \<Rightarrow> fmt \<times> byte list \<times> byte list \<times> fmt option \<Rightarrow> inode" where
  "v3_view ino buf = (\<lambda>(format, data_fork, attr_fork, aformat).
     let flags2 = rd64 buf 120; ts = (\<lambda>off. ts_of_raw (flags2 AND DIFLAG2_BIGTIME \<noteq> 0) (rd64 buf off)) in
     \<lparr>i_ino = ino, i_mode = rd16 buf 2, i_version = 3, i_format = format, i_uid = rd32 buf 8,
      i_gid = rd32 buf 12, i_nlink = rd32 buf 16, i_projid = push_bit 16 (rd16 buf 22) OR rd16 buf 20,
      i_atime = ts 32, i_mtime = ts 40, i_ctime = ts 48, i_crtime = Some (ts 144),
      i_size = rd64 buf 56, i_nblocks = rd64 buf 64,
      i_nextents = (if flags2 AND DIFLAG2_NREXT64 \<noteq> 0 then rd64 buf 24 else rd32 buf 76),
      i_anextents = (if flags2 AND DIFLAG2_NREXT64 \<noteq> 0 then rd32 buf 76 else rd16 buf 80),
      i_aformat = aformat, i_flags = rd16 buf 90, i_flags2 = flags2, i_generation = rd32 buf 92,
      i_data_fork = data_fork, i_attr_fork = attr_fork\<rparr>)"

lemma parse_inode_v3:
  assumes "256 \<le> length buf" and "length buf = sb_inode_size sb" and "is_v5 sb"
  shows "parse_inode sb ino buf =
    (if rd16 buf 0 = INODE_MAGIC \<and> buf ! 4 = 3 \<and> verify buf 100 \<and> rd64 buf 152 = ino
     then map_ok (v3_view ino buf) (inode_forks 176 buf) else Err Corrupt)"
proof -
  have "inode_checks sb ino buf =
    (if rd16 buf 0 = INODE_MAGIC \<and> buf ! 4 = 3 \<and> verify buf 100 \<and> rd64 buf 152 = ino
     then Ok (3, 176) else Err Corrupt)"
    using assms by (simp add: inode_checks_def)
  then show ?thesis
    using assms by (simp add: parse_inode_def Let_def map_ok_def v3_view_def split_beta' if_distrib cong: if_cong)
qed

lemma set_data_fork_puts:
  assumes "data_fork_size r = Ok n" and "length fork \<le> n" and "176 + n \<le> length r"
  shows "set_data_fork f fork r =
    puts [(5, [format_code f]), (176, fork @ replicate (n - length fork) 0)] r"
  using assms by (simp add: set_data_fork_def patch_patch)

lemma inode_forks_v3:
  assumes "256 \<le> length buf"
  shows "inode_forks 176 buf =
    and_then (from_u8 (buf ! 5)) (\<lambda>format. let n = unat (buf ! 82) * 8 in
    if n = 0 then Ok (format, seg buf 176 (length buf - 176), [], None)
    else if length buf - 176 \<le> n then Err Corrupt
    else map_ok (\<lambda>aformat. (format, seg buf 176 n, seg buf (176 + n) (length buf - (176 + n)), Some aformat))
           (from_u8 (buf ! 83)))"
  using assms by (cases "from_u8 (buf ! 5)") (simp_all add: inode_forks_def Let_def sub_w_def seg_def map_ok_def)

lemma data_fork_size_v3:
  assumes "256 \<le> length buf" and "inode_forks 176 buf = Ok (format, data, attr, aformat)"
  shows "data_fork_size buf = Ok (length data)" and "176 + length data \<le> length buf"
proof -
  note parts = inode_forks_parts [OF assms(2)]
  show "data_fork_size buf = Ok (length data)"
    using assms(1) parts(4) by (simp add: data_fork_size_def sub_w_def)
  have "data @ attr = drop 176 buf" using parts(1) assms(1) by simp
  then have "length data + length attr = length buf - 176" by (metis length_append length_drop)
  then show "176 + length data \<le> length buf" using assms(1) by linarith
qed

text \<open>The run of edits the writer makes to an inode, as one list of writes.\<close>

definition edits :: "bool \<Rightarrow> fmt \<Rightarrow> byte list \<Rightarrow> nat \<Rightarrow> nat \<Rightarrow> nat \<Rightarrow> nat \<Rightarrow> nat \<Rightarrow> (nat \<times> byte list) list" where
  "edits nrext64 f fork n sz nb nl m =
     [(5, [format_code f]), (176, fork),
      if nrext64 then (24, u64_bytes n) else (76, u32_bytes n),
      (56, u64_bytes sz), (64, u64_bytes nb), (16, u32_bytes nl), (2, u16_bytes m)]"

lemma raw_edits:
  assumes "256 \<le> length r" and "data_fork_size r = Ok k" and "176 + k \<le> length r" and "length fork \<le> k"
    and ws_def: "ws = edits (rd64 r 120 AND DIFLAG2_NREXT64 \<noteq> 0) f (fork @ replicate (k - length fork) 0) n sz nb nl m"
  shows "and_then (set_data_fork f fork r) (\<lambda>r. and_then (set_nextents n r) (\<lambda>r.
     and_then (set_size sz r) (\<lambda>r. and_then (set_nblocks nb r) (\<lambda>r.
     and_then (set_nlink nl r) (set_mode m))))) = puts ws r"
proof -
  let ?ws = "[(5, [format_code f]), (176, fork @ replicate (k - length fork) 0)]"
  obtain r1 where r1: "puts ?ws r = Ok r1"
    using puts_total [of r ?ws] assms by (auto simp: edits_def)
  have "seg r1 120 8 = seg r 120 8"
    by (rule puts_field [OF r1]) (use assms(1) in simp_all)
  moreover have "length r1 = length r" by (rule puts_length [OF r1])
  ultimately have flags: "raw_flags2 r1 = Ok (rd64 r 120)"
    using assms(1) by (simp add: raw_flags2_def)
  have "puts ws r = puts (?ws @ drop 2 ws) r"
    by (simp add: ws_def edits_def)
  also have "\<dots> = puts (drop 2 ws) r1"
    using r1 by (simp only: puts_append and_then.simps)
  finally show ?thesis
    using r1 flags set_data_fork_puts [OF assms(2,4,3)]
    by (simp add: ws_def edits_def set_nextents_def set_size_def set_nblocks_def set_nlink_def
        set_mode_def [abs_def] put16_def put32_def put64_def puts_fun del: puts_simps)
qed

lemma edits_total:
  "256 \<le> length r \<Longrightarrow> 176 + length fork \<le> length r \<Longrightarrow> \<exists>c. puts (edits b f fork n sz nb nl m) r = Ok c"
  by (rule puts_total) (simp add: edits_def)

text \<open>What each field reads after the edits and the stamp.\<close>

lemma edits_read:
  assumes "puts (edits b f fork n sz nb nl m) r = Ok c" and "stamp c 100 = Ok d"
    and "256 \<le> length r" and "176 + length fork \<le> length r"
  shows "seg d 0 2 = seg r 0 2" "seg d 2 2 = u16_bytes m" "seg d 4 1 = seg r 4 1" "seg d 5 1 = [format_code f]"
    "seg d 8 4 = seg r 8 4" "seg d 12 4 = seg r 12 4" "seg d 16 4 = u32_bytes nl" "seg d 20 2 = seg r 20 2"
    "seg d 22 2 = seg r 22 2" "seg d 32 8 = seg r 32 8" "seg d 40 8 = seg r 40 8" "seg d 48 8 = seg r 48 8"
    "seg d 56 8 = u64_bytes sz" "seg d 64 8 = u64_bytes nb" "seg d 80 2 = seg r 80 2" "seg d 82 1 = seg r 82 1"
    "seg d 83 1 = seg r 83 1" "seg d 90 2 = seg r 90 2" "seg d 92 4 = seg r 92 4" "seg d 120 8 = seg r 120 8"
    "seg d 144 8 = seg r 144 8" "seg d 152 8 = seg r 152 8"
    "b \<Longrightarrow> seg d 24 8 = u64_bytes n" "b \<Longrightarrow> seg d 76 4 = seg r 76 4" "\<not> b \<Longrightarrow> seg d 76 4 = u32_bytes n"
    "seg d 176 (length fork) = fork"
    "\<And>k. 176 + length fork + k \<le> length r \<Longrightarrow> seg d (176 + length fork) k = seg r (176 + length fork) k"
  by (rule crc.seal_field [OF assms(1,2)]; use assms(3,4) in \<open>simp add: edits_def\<close>)+

lemma v3_nth:
  assumes "puts (edits b f fork n sz nb nl m) r = Ok c" and "stamp c 100 = Ok d"
    and "256 \<le> length r" and "176 + length fork \<le> length r"
  shows "d ! 4 = r ! 4" "d ! 5 = format_code f" "d ! 82 = r ! 82" "d ! 83 = r ! 83" "length d = length r"
proof -
  note e = edits_read [OF assms]
  show len: "length d = length r"
    using puts_length [OF assms(1)] crc.seal_length [OF assms(2)] by simp
  show "d ! 4 = r ! 4" "d ! 5 = format_code f" "d ! 82 = r ! 82" "d ! 83 = r ! 83"
    using e(3,4,16,17) assms(3) by (simp_all add: nth_seg_1 len)
qed

section \<open>Properties\<close>

text \<open>
  C24. Parsing an inode never panics on a well-formed superblock, whatever the bytes. What it
  accepts are bytes with the inode magic and the version of the filesystem, and on version 5 with
  a good checksum and with the number asked for stored in them; the mode, owner,
  size and block count are the fields stored, and the two forks together are exactly the bytes
  after the core, the data fork as long as the fork offset says and the attribute fork
  being there just when that offset is not zero.
\<close>

theorem parse_inode_sound:
  assumes "wf_sb sb" and "b = take (sb_inode_size sb) buf"
  shows "parse_inode sb ino buf \<noteq> Panic \<and>
    (\<forall>ip. parse_inode sb ino buf = Ok ip \<longrightarrow>
       length b = sb_inode_size sb \<and> rd16 b 0 = 0x494e \<and>
       i_ino ip = ino \<and> (is_v5 sb \<longrightarrow> rd64 b 152 = ino \<and> verify b 100) \<and>
       i_version ip = unat (b ! 4) \<and> (i_version ip = 3 \<longleftrightarrow> is_v5 sb) \<and>
       i_mode ip = rd16 b 2 \<and> i_uid ip = rd32 b 8 \<and> i_gid ip = rd32 b 12 \<and> i_size ip = rd64 b 56 \<and> i_nblocks ip = rd64 b 64 \<and>
       i_data_fork ip @ i_attr_fork ip = drop (if is_v5 sb then 176 else 100) b \<and>
       (i_attr_fork ip = [] \<longleftrightarrow> b ! 82 = 0) \<and> (b ! 82 \<noteq> 0 \<longrightarrow> length (i_data_fork ip) = unat (b ! 82) * 8) \<and>
       (i_aformat ip = None \<longleftrightarrow> i_attr_fork ip = []))"
proof (cases "length buf < sb_inode_size sb")
  case True
  then show ?thesis by (simp add: parse_inode_def)
next
  case False
  have len: "256 \<le> length b" "length b = sb_inode_size sb"
    using False wf_sbD(7) [OF assms(1)] by (simp_all add: assms(2))
  have get: "get buf 0 (sb_inode_size sb) = Ok b" using False by (simp add: seg_def assms(2))
  note core = inode_checks_core [of sb ino b]
  have forks: "inode_forks core b \<noteq> Panic" if "inode_checks sb ino b = Ok (version, core)" for version core
    by (rule inode_forks_not_Panic [OF len(1) core(1) [OF that]])
  have 1: "parse_inode sb ino buf \<noteq> Panic"
    using False get len(1) inode_checks_not_Panic [OF len(1)] forks
    by (auto simp: parse_inode_def Let_def res_simps)
  have 2: "rd16 b 0 = 0x494e \<and> i_ino ip = ino \<and> (is_v5 sb \<longrightarrow> rd64 b 152 = ino \<and> verify b 100) \<and>
       i_version ip = unat (b ! 4) \<and> (i_version ip = 3 \<longleftrightarrow> is_v5 sb) \<and>
       i_mode ip = rd16 b 2 \<and> i_uid ip = rd32 b 8 \<and> i_gid ip = rd32 b 12 \<and> i_size ip = rd64 b 56 \<and> i_nblocks ip = rd64 b 64 \<and>
       i_data_fork ip @ i_attr_fork ip = drop (if is_v5 sb then 176 else 100) b \<and>
       (i_attr_fork ip = [] \<longleftrightarrow> b ! 82 = 0) \<and> (b ! 82 \<noteq> 0 \<longrightarrow> length (i_data_fork ip) = unat (b ! 82) * 8) \<and>
       (i_aformat ip = None \<longleftrightarrow> i_attr_fork ip = [])" if ok: "parse_inode sb ino buf = Ok ip" for ip
  proof -
    obtain version c format d a af where c: "inode_checks sb ino b = Ok (version, c)"
      and f: "inode_forks c b = Ok (format, d, a, af)"
      and ip: "i_ino ip = ino" "i_version ip = version" "i_data_fork ip = d" "i_attr_fork ip = a" "i_aformat ip = af"
        "i_mode ip = rd16 b 2" "i_uid ip = rd32 b 8" "i_gid ip = rd32 b 12" "i_size ip = rd64 b 56" "i_nblocks ip = rd64 b 64"
      using ok get False len(1) by (auto simp: parse_inode_def Let_def res_simps)
    have "c \<le> length b" using core(1) [OF c] len(1) by simp
    note p = inode_forks_parts [OF f this]
    have "rd16 b 0 = 0x494e" "is_v5 sb \<longrightarrow> rd64 b 152 = ino \<and> verify b 100" "version = unat (b ! 4)"
      using c by (auto simp: inode_checks_def res_simps split: if_splits)
    moreover have "a = [] \<longleftrightarrow> b ! 82 = 0" "b ! 82 \<noteq> 0 \<longrightarrow> length d = unat (b ! 82) * 8"
      using f by (auto simp: inode_forks_def res_simps Let_def sub_w_def get_from_def unat_eq_0 split: if_splits)
    ultimately show ?thesis using p(1,2) core(2,3) [OF c] ip by simp
  qed
  show ?thesis using 1 2 len(2) by blast
qed

text \<open>
  A time the format can hold survives being written and read back, with both encodings;
  past the end of the big-timestamp range the writer's conversion overflows instead of
  clamping.
\<close>

lemma timestamp_roundtrip:
  "(ts_fits bigtime t \<longrightarrow> (\<exists>raw. ts_raw t bigtime = Ok raw \<and> raw < 2 ^ 64 \<and> ts_of_raw bigtime raw = t)) \<and>
   (16299260426 \<le> ts_secs t \<longrightarrow> ts_raw t True = Panic)"
proof
  show "ts_fits bigtime t \<longrightarrow> (\<exists>raw. ts_raw t bigtime = Ok raw \<and> raw < 2 ^ 64 \<and> ts_of_raw bigtime raw = t)"
    using ts_raw_small [of t] ts_raw_big [of t] by (cases bigtime) simp_all
  have "mul_w 64 (nat (max (ts_secs t + 2 ^ 31) 0)) 1000000000 = Panic" if "16299260426 \<le> ts_secs t"
  proof -
    have "18446744074 \<le> nat (max (ts_secs t + 2 ^ 31) 0)" using that by (simp add: max_def nat_le_eq_zle le_nat_iff)
    then show ?thesis by (simp add: mul_w_def)
  qed
  then show "16299260426 \<le> ts_secs t \<longrightarrow> ts_raw t True = Panic" by (simp add: ts_raw_def)
qed

lemma timestamp_roundtrip_witness:
  "\<exists>raw. ts_raw \<lparr>ts_secs = - 5, ts_nsecs = 7\<rparr> True = Ok raw \<and> ts_of_raw True raw = \<lparr>ts_secs = - 5, ts_nsecs = 7\<rparr>"
  using timestamp_roundtrip [of True "\<lparr>ts_secs = - 5, ts_nsecs = 7\<rparr>"] by (auto simp: ts_fits_def)

text \<open>The flags a new inode has, and what it reads as.\<close>

definition new_flags2 :: "superblock \<Rightarrow> nat" where
  "new_flags2 sb = (if has_bigtime sb then 8 else 0) OR (if has_nrext64 sb then 16 else 0)"

definition new_inode :: "superblock \<Rightarrow> timestamp \<Rightarrow> nat \<Rightarrow> nat \<Rightarrow> nat \<Rightarrow> nat \<Rightarrow> nat \<Rightarrow> nat \<Rightarrow> inode" where
  "new_inode sb now gen ino mode uid gid nlink =
     \<lparr>i_ino = ino, i_mode = mode, i_version = 3, i_format = Extents, i_uid = uid, i_gid = gid,
      i_nlink = nlink, i_projid = 0, i_atime = now, i_mtime = now, i_ctime = now, i_crtime = Some now,
      i_size = 0, i_nblocks = 0, i_nextents = 0, i_anextents = 0, i_aformat = None, i_flags = 0,
      i_flags2 = new_flags2 sb, i_generation = gen,
      i_data_fork = replicate (sb_inode_size sb - 176) 0, i_attr_fork = []\<rparr>"

lemma new_flags2_bits:
  "new_flags2 sb < 32" "(0 < new_flags2 sb AND 8) = has_bigtime sb" "(0 < new_flags2 sb AND 16) = has_nrext64 sb"
  by (simp_all add: new_flags2_def)

lemma new_raw_reads:
  assumes "wf_sb sb" and "is_v5 sb" and "ts_fits (has_bigtime sb) now"
    and "gen < 2 ^ 32" and "ino < 2 ^ 64" and "mode < 2 ^ 16" and "uid < 2 ^ 32" and "gid < 2 ^ 32" and "nlink < 2 ^ 32"
  shows "\<exists>r d. new_raw sb now gen ino mode uid gid nlink = Ok r \<and> stamp r INODE_CRC = Ok d \<and>
    length d = sb_inode_size sb \<and> parse_inode sb ino d = Ok (new_inode sb now gen ino mode uid gid nlink)"
proof -
  let ?n = "sb_inode_size sb"
  have n: "256 \<le> ?n" by (rule wf_sbD(7) [OF assms(1)])
  obtain t where t: "ts_raw now (has_bigtime sb) = Ok t" "t < 2 ^ 64" "ts_of_raw (has_bigtime sb) t = now"
    using ts_raw_small [of now] ts_raw_big [of now] assms(3) by (cases "has_bigtime sb") auto
  define ws :: "(nat \<times> byte list) list" where "ws = [(0, u16_bytes INODE_MAGIC), (2, u16_bytes mode), (4, [3]), (5, [format_code Extents]),
            (8, u32_bytes uid), (12, u32_bytes gid), (16, u32_bytes nlink), (120, u64_bytes (new_flags2 sb)),
            (32, u64_bytes t), (40, u64_bytes t), (48, u64_bytes t), (144, u64_bytes t),
            (83, [format_code Extents]), (92, u32_bytes gen), (96, u32_bytes 0xffffffff),
            (104, u64_bytes 1), (152, u64_bytes ino), (160, sb_meta_uuid sb)]"
  have "\<exists>r. puts ws (replicate ?n 0) = Ok r"
    by (rule puts_total) (use n wf_sbD(18) [OF assms(1)] in \<open>simp add: ws_def\<close>)
  then obtain r where r: "puts ws (replicate ?n 0) = Ok r" ..
  obtain d where d: "stamp r 100 = Ok d" using crc.seal_total [of 100 r] puts_length [OF r] n by auto
  have len: "length d = ?n" using puts_length [OF r] crc.seal_length [OF d] by simp
  have "seg d 0 2 = u16_bytes INODE_MAGIC" "seg d 2 2 = u16_bytes mode" "seg d 4 1 = [3]" "seg d 5 1 = [format_code Extents]"
    "seg d 8 4 = u32_bytes uid" "seg d 12 4 = u32_bytes gid" "seg d 16 4 = u32_bytes nlink"
    "seg d 20 2 = replicate 2 0" "seg d 22 2 = replicate 2 0" "seg d 24 8 = replicate 8 0"
    "seg d 32 8 = u64_bytes t" "seg d 40 8 = u64_bytes t" "seg d 48 8 = u64_bytes t" "seg d 56 8 = replicate 8 0"
    "seg d 64 8 = replicate 8 0" "seg d 76 4 = replicate 4 0" "seg d 80 2 = replicate 2 0" "seg d 82 1 = replicate 1 0"
    "seg d 90 2 = replicate 2 0" "seg d 92 4 = u32_bytes gen" "seg d 120 8 = u64_bytes (new_flags2 sb)"
    "seg d 144 8 = u64_bytes t" "seg d 152 8 = u64_bytes ino" "seg d 176 (?n - 176) = replicate (?n - 176) 0"
    by (rule crc.seal_field [OF r d]; use n wf_sbD(18) [OF assms(1)] in \<open>simp add: ws_def seg_replicate\<close>)+
  note rd = this [THEN arg_cong, of from_be_bytes] and f = this(24)
    and b = this(3,4,18) [simplified, THEN seg_1_nth]
  have "parse_inode sb ino d = map_ok (v3_view ino d) (inode_forks 176 d)"
    using crc.seal_check [OF d] len n assms(2,5)
    by (simp add: parse_inode_v3 b rd be_widths del: from_be_bytes_zeros)
  also have "inode_forks 176 d = Ok (Extents, replicate (?n - 176) 0, [], None)"
    using len n b f by (simp add: inode_forks_v3)
  finally have "parse_inode sb ino d = Ok (new_inode sb now gen ino mode uid gid nlink)"
    using assms(4-9) t(2,3) new_flags2_bits [of sb]
    by (simp add: v3_view_def new_inode_def Let_def rd be_widths)
  moreover have "new_raw sb now gen ino mode uid gid nlink = Ok r"
    using t(1) r by (simp add: new_raw_def ws_def new_flags2_def)
  ultimately show ?thesis using d len by blast
qed

text \<open>
  C25. The inode the writer makes for a new name, once stamped, parses as a version 3 inode
  with the mode, owner, links, generation and time it was given, no size, no blocks, no
  extents, and all of the literal area as its empty data fork.
\<close>

theorem new_raw_parses:
  assumes "wf_sb sb" and "is_v5 sb" and "ts_fits (has_bigtime sb) now"
    and "gen < 2 ^ 32" and "ino < 2 ^ 64" and "mode < 2 ^ 16" and "uid < 2 ^ 32" and "gid < 2 ^ 32" and "nlink < 2 ^ 32"
  shows "\<exists>r d. new_raw sb now gen ino mode uid gid nlink = Ok r \<and> stamp r INODE_CRC = Ok d \<and>
    length d = sb_inode_size sb \<and> parse_inode sb ino d = Ok (new_inode sb now gen ino mode uid gid nlink)"
  by (rule new_raw_reads [OF assms])

theorem parse_inode_sound_witness:
  "\<exists>buf ip. parse_inode demo_sb 131 buf = Ok ip \<and> rd64 (take 512 buf) 152 = 131 \<and> verify (take 512 buf) 100 \<and> i_mode ip = 0x81a4 \<and>
     length (i_data_fork ip @ i_attr_fork ip) = 336"
proof -
  have fits: "is_v5 demo_sb" "ts_fits (has_bigtime demo_sb) \<lparr>ts_secs = 0, ts_nsecs = 0\<rparr>"
    by (simp_all add: is_v5_def ts_fits_def has_bigtime_def)
  obtain d where d: "length d = 512"
    "parse_inode demo_sb 131 d = Ok (new_inode demo_sb \<lparr>ts_secs = 0, ts_nsecs = 0\<rparr> 7 131 0x81a4 0 0 1)"
    using new_raw_reads [OF demo_sb_wf(1) fits, of 7 131 "0x81a4" 0 0 1] by auto
  have "rd64 (take 512 d) 152 = 131 \<and> verify (take 512 d) 100"
    using parse_inode_sound [OF demo_sb_wf(1) refl, of 131 d] d(2) fits(1) by simp
  then show ?thesis using d by (intro exI [of _ d] exI) (auto simp: new_inode_def)
qed

theorem new_raw_parses_witness:
  "\<exists>r d. new_raw demo_sb \<lparr>ts_secs = 0, ts_nsecs = 0\<rparr> 7 131 0x81a4 0 0 1 = Ok r \<and> stamp r INODE_CRC = Ok d \<and>
     parse_inode demo_sb 131 d = Ok (new_inode demo_sb \<lparr>ts_secs = 0, ts_nsecs = 0\<rparr> 7 131 0x81a4 0 0 1)"
  using new_raw_parses [OF demo_sb_wf(1), of "\<lparr>ts_secs = 0, ts_nsecs = 0\<rparr>" 7 131 "0x81a4" 0 0 1]
  by (auto simp: is_v5_def ts_fits_def has_bigtime_def)

text \<open>
  Editing a raw inode is read back: from any version 3 inode that parses, setting the
  data fork (at most as long as the fork area), the extent count, size, blocks, links and
  mode and stamping the checksum succeeds, and parsing the result gives the old inode with
  just those fields changed, the new fork zero-filled to the fork's length.
\<close>

lemma raw_edit_roundtrip:
  assumes "wf_sb sb" and "is_v5 sb" and "length r = sb_inode_size sb" and "parse_inode sb ino r = Ok ip"
    and "length fork \<le> length (i_data_fork ip)"
    and "n < (if i_flags2 ip AND DIFLAG2_NREXT64 \<noteq> 0 then 2 ^ 64 else 2 ^ 32)"
    and "sz < 2 ^ 64" and "nb < 2 ^ 64" and "nl < 2 ^ 32" and "m < 2 ^ 16"
  shows "\<exists>d. and_then (and_then (set_data_fork f fork r) (\<lambda>r. and_then (set_nextents n r) (\<lambda>r.
       and_then (set_size sz r) (\<lambda>r. and_then (set_nblocks nb r) (\<lambda>r.
       and_then (set_nlink nl r) (set_mode m)))))) (\<lambda>r. stamp r INODE_CRC) = Ok d \<and>
    parse_inode sb ino d = Ok (ip\<lparr>i_format := f, i_nextents := n, i_size := sz, i_nblocks := nb,
       i_nlink := nl, i_mode := m,
       i_data_fork := fork @ replicate (length (i_data_fork ip) - length fork) 0\<rparr>)"
proof -
  have n: "256 \<le> length r" using assms(3) wf_sbD(7) [OF assms(1)] by simp
  note P = parse_inode_v3 [OF n assms(3,2)]
  from assms(4) obtain format data attr af where chk: "rd16 r 0 = INODE_MAGIC" "r ! 4 = 3" "rd64 r 152 = ino"
    and forks: "inode_forks 176 r = Ok (format, data, attr, af)" and ip: "ip = v3_view ino r (format, data, attr, af)"
    by (auto simp: P res_simps split: if_splits)
  have data: "i_data_fork ip = data" and fl: "i_flags2 ip = rd64 r 120" by (simp_all add: ip v3_view_def Let_def)
  note size = data_fork_size_v3 [OF n forks]
  define fk where "fk = fork @ replicate (length data - length fork) 0"
  have fk: "length fk = length data" using assms(5) data by (simp add: fk_def)
  define nr where "nr \<longleftrightarrow> rd64 r 120 AND DIFLAG2_NREXT64 \<noteq> 0"
  have in_len: "176 + length fk \<le> length r" using fk size(2) by simp
  obtain c where c: "puts (edits nr f fk n sz nb nl m) r = Ok c"
    using edits_total [OF n in_len] by blast
  obtain d where d: "stamp c 100 = Ok d"
    using crc.seal_total [of 100 c] puts_length [OF c] n by auto
  note e = edits_read [OF c d n in_len] and b = v3_nth [OF c d n in_len]
  have n': "256 \<le> length d" "length d = sb_inode_size sb" using n assms(3) b(5) by simp_all
  have f5: "length fk = length data" "seg d 176 (length data) = fk"
    "\<And>k. 176 + length data + k \<le> length r \<Longrightarrow> seg d (176 + length data) k = seg r (176 + length data) k"
    using e(26,27) fk by simp_all
  have "inode_forks 176 d = Ok (f, fk, attr, af)"
    using forks b f5 n n' size(2) by (auto simp: inode_forks_v3 Let_def res_simps split: if_splits)
  moreover have "v3_view ino d (f, fk, attr, af) = ip\<lparr>i_format := f, i_nextents := n, i_size := sz,
      i_nblocks := nb, i_nlink := nl, i_mode := m, i_data_fork := fk\<rparr>"
    using assms(6-10) unfolding ip v3_view_def Let_def fl
    by (cases nr) (simp_all add: e be_widths nr_def)
  moreover have "rd16 d 0 = INODE_MAGIC" "d ! 4 = 3" "rd64 d 152 = ino" "verify d 100"
    using chk b(1) crc.seal_check [OF d] by (simp_all only: e(1,22))
  ultimately have "parse_inode sb ino d = Ok (ip\<lparr>i_format := f, i_nextents := n, i_size := sz,
      i_nblocks := nb, i_nlink := nl, i_mode := m, i_data_fork := fk\<rparr>)"
    by (simp add: parse_inode_v3 [OF n' assms(2)])
  then show ?thesis
    using c d assms(5) by (simp add: raw_edits [OF n size(1,2) _ refl] data fk_def nr_def)
qed

lemma raw_edit_roundtrip_witness:
  "\<exists>r d. length r = 512 \<and>
     and_then (and_then (set_data_fork Local [1, 2, 3] r) (\<lambda>r. and_then (set_nextents 0 r) (\<lambda>r.
       and_then (set_size 3 r) (\<lambda>r. and_then (set_nblocks 0 r) (\<lambda>r.
       and_then (set_nlink 2 r) (set_mode 16877)))))) (\<lambda>r. stamp r INODE_CRC) = Ok d \<and>
     (\<exists>ip. parse_inode demo_sb 131 d = Ok ip \<and> i_data_fork ip = [1, 2, 3] @ replicate 333 0)"
proof -
  let ?t = "\<lparr>ts_secs = 0, ts_nsecs = 0\<rparr>"
  obtain r0 r where "stamp r0 100 = Ok r" "length r = 512"
    and p: "parse_inode demo_sb 131 r = Ok (new_inode demo_sb ?t 7 131 16877 0 0 2)"
    using new_raw_reads [OF demo_sb_wf(1), of ?t 7 131 16877 0 0 2] by (auto simp: is_v5_def ts_fits_def has_bigtime_def)
  then show ?thesis
    using raw_edit_roundtrip [OF demo_sb_wf(1) _ _ p, of "[1, 2, 3]" 0 3 0 2 16877 Local]
    by (fastforce simp: is_v5_def new_inode_def new_flags2_def has_bigtime_def has_nrext64_def)
qed

end
