(* ===== verification/Bmap.thy ===== *)
theory Bmap
  imports Inode "HOL-Library.Multiset"
begin

text \<open>
  Block maps (\<open>src/src/bmap.rs\<close>): the packed extent records of an inode fork, the root and
  the blocks of a bmap B+tree as a reader sees them, and the sorted list of extents a file
  is read through. The packed record is a \<open>record_codec\<close> of width 16; \<open>finish\<close> and \<open>find\<close>
  are proved to give the logical-to-physical map that the extents describe.
\<close>

unbundle bit_operations_syntax

section \<open>Extents\<close>

record extent =
  x_offset :: nat
  x_block :: nat
  x_count :: nat
  x_unwritten :: bool

definition decode :: "byte list \<Rightarrow> extent res" where
  "decode rec =
     and_then (be64 rec 0) (\<lambda>l0.
     and_then (be64 rec 8) (\<lambda>l1.
     Ok \<lparr>x_offset = drop_bit 9 (l0 AND (2 ^ 63 - 1)),
         x_block = push_bit 43 (l0 AND 0x1ff) OR drop_bit 21 l1,
         x_count = l1 AND (2 ^ 21 - 1),
         x_unwritten = (drop_bit 63 l0 \<noteq> 0)\<rparr>))"

definition encode :: "extent \<Rightarrow> byte list" where
  "encode e =
     (let l0 = push_bit 63 (of_bool (x_unwritten e)) OR push_bit 9 (x_offset e AND (2 ^ 54 - 1))
               OR drop_bit 43 (x_block e);
          l1 = push_bit 21 (x_block e AND (2 ^ 43 - 1)) OR (x_count e AND (2 ^ 21 - 1)) in
      to_be_bytes 8 l0 @ to_be_bytes 8 l1)"

text \<open>The sum fits: a decoded offset has 54 bits and a count 21.\<close>

definition x_end :: "extent \<Rightarrow> nat" where
  "x_end e = x_offset e + x_count e"

section \<open>Forks and blocks\<close>

abbreviation (input) "BMAP_MAGIC_V4 \<equiv> 0x424d4150 :: nat"
abbreviation (input) "BMA3_MAGIC \<equiv> 0x424d4133 :: nat"

definition inline_extents :: "byte list \<Rightarrow> nat \<Rightarrow> extent list res" where
  "inline_extents fork n =
     (if n * 16 > length fork then Err Corrupt
      else map_res (\<lambda>i. and_then (get_from fork (i * 16)) decode) [0..<n])"

definition btree_root :: "byte list \<Rightarrow> (nat \<times> nat list) res" where
  "btree_root fork =
     (if length fork < 4 then Err Corrupt
      else and_then (be16 fork 0) (\<lambda>level.
           and_then (be16 fork 2) (\<lambda>numrecs.
           let maxrecs = (length fork - 4) div 16 in
           if level = 0 \<or> numrecs = 0 \<or> numrecs > maxrecs then Err Corrupt
           else let ptrs = 4 + maxrecs * 8 in
                and_then (map_res (\<lambda>i. be64 fork (ptrs + i * 8)) [0..<numrecs]) (\<lambda>ps. Ok (level, ps)))))"

definition long_block_header :: "superblock \<Rightarrow> nat" where
  "long_block_header sb = (if is_v5 sb then 72 else 24)"

definition check_btree_block :: "superblock \<Rightarrow> byte list \<Rightarrow> nat \<Rightarrow> nat \<Rightarrow> (nat \<times> nat) res" where
  "check_btree_block sb buf fsb owner =
     and_then (be32 buf 0) (\<lambda>magic.
     and_then
       (if is_v5 sb then
          if magic \<noteq> BMA3_MAGIC then Err Corrupt
          else if \<not> verify buf 64 then Err Corrupt
          else and_then (be64 buf 56) (\<lambda>own. if own \<noteq> owner then Err Corrupt else Ok ())
        else if magic \<noteq> BMAP_MAGIC_V4 then Err Corrupt
        else Ok ()) (\<lambda>_.
     and_then (be16 buf 4) (\<lambda>level.
     and_then (be16 buf 6) (\<lambda>numrecs.
     and_then (sub_w (length buf) (long_block_header sb)) (\<lambda>room.
     if numrecs > room div 16 then Err Corrupt else Ok (level, numrecs))))))"

definition node_ptrs :: "superblock \<Rightarrow> byte list \<Rightarrow> nat \<Rightarrow> nat list res" where
  "node_ptrs sb buf numrecs =
     and_then (sub_w (length buf) (long_block_header sb)) (\<lambda>room.
     let ptrs = long_block_header sb + room div 16 * 8 in
     map_res (\<lambda>i. be64 buf (ptrs + i * 8)) [0..<numrecs])"

definition leaf_extents :: "superblock \<Rightarrow> byte list \<Rightarrow> nat \<Rightarrow> extent list res" where
  "leaf_extents sb buf numrecs =
     map_res (\<lambda>i. and_then (get_from buf (long_block_header sb + i * 16)) decode) [0..<numrecs]"

section \<open>The sorted map\<close>

definition finish :: "extent list \<Rightarrow> extent list res" where
  "finish extents =
     (let xs = sort_key x_offset (filter (\<lambda>e. x_count e > 0) extents) in
      if list_ex (\<lambda>(a, b). x_end a > x_offset b) (zip xs (tl xs)) then Err Corrupt else Ok xs)"

text \<open>
  \<open>slice::partition_point\<close>: bisection between \<open>lo\<close> and \<open>hi\<close> for the first element that
  fails the predicate.
\<close>

function bisect :: "('a \<Rightarrow> bool) \<Rightarrow> 'a list \<Rightarrow> nat \<Rightarrow> nat \<Rightarrow> nat" where
  "bisect p xs lo hi =
     (if lo < hi then
        let mid = (lo + hi) div 2 in
        if p (xs ! mid) then bisect p xs (mid + 1) hi else bisect p xs lo mid
      else lo)"
  by pat_completeness auto
termination by (relation "measure (\<lambda>(p, xs, lo, hi). hi - lo)") auto

declare bisect.simps [simp del]

definition partition_point :: "('a \<Rightarrow> bool) \<Rightarrow> 'a list \<Rightarrow> nat" where
  "partition_point p xs = bisect p xs 0 (length xs)"

definition find :: "extent list \<Rightarrow> nat \<Rightarrow> extent option" where
  "find extents lblk =
     (let i = partition_point (\<lambda>e. x_end e \<le> lblk) extents in
      if i < length extents \<and> x_offset (extents ! i) \<le> lblk then Some (extents ! i) else None)"

section \<open>The packed record\<close>

definition x_ok :: "extent \<Rightarrow> bool" where
  "x_ok e \<longleftrightarrow> x_offset e < 2 ^ 54 \<and> x_block e < 2 ^ 52 \<and> x_count e < 2 ^ 21"

lemma encode_words:
  assumes "x_ok e"
  defines "hi \<equiv> of_bool (x_unwritten e) * 2 ^ 63 + x_offset e * 2 ^ 9 + x_block e div 2 ^ 43"
    and "lo \<equiv> x_block e mod 2 ^ 43 * 2 ^ 21 + x_count e"
  shows "encode e = u64_bytes hi @ u64_bytes lo"
    and "hi < 2 ^ 64" and "lo < 2 ^ 64"
proof -
  have b: "x_block e div 2 ^ 43 < 2 ^ 9" using assms(1) by (simp add: x_ok_def div_less_iff_less_mult)
  have off: "x_offset e * 2 ^ 9 + x_block e div 2 ^ 43 < 2 ^ 63"
    using assms(1) b by (simp add: x_ok_def)
  have "push_bit 9 (x_offset e) OR x_block e div 2 ^ 43 = x_offset e * 2 ^ 9 + x_block e div 2 ^ 43"
    by (rule shift_or_nat [OF b])
  moreover have "push_bit 63 (of_bool (x_unwritten e)) OR (x_offset e * 2 ^ 9 + x_block e div 2 ^ 43) = hi"
    using shift_or_nat [OF off, of "of_bool (x_unwritten e)"] by (simp add: hi_def)
  moreover have "push_bit 21 (x_block e mod 2 ^ 43) OR x_count e = lo"
    using shift_or_nat [of "x_count e" 21] assms(1) by (simp add: x_ok_def lo_def)
  moreover have "x_offset e AND (2 ^ 54 - 1) = x_offset e" "x_count e AND (2 ^ 21 - 1) = x_count e"
    "x_block e AND (2 ^ 43 - 1) = x_block e mod 2 ^ 43"
    using assms(1) by (simp_all only: and_mask_nat x_ok_def mod_less)
  ultimately show "encode e = u64_bytes hi @ u64_bytes lo"
    by (simp only: encode_def Let_def drop_bit_eq_div or.assoc)
  show "hi < 2 ^ 64" using off by (simp add: hi_def)
  have "lo < Suc (x_block e mod 2 ^ 43) * 2 ^ 21" using assms(1) by (simp add: lo_def x_ok_def)
  also have "\<dots> \<le> 2 ^ 43 * 2 ^ 21" by (intro mult_le_mono1 Suc_leI) simp
  finally show "lo < 2 ^ 64" by simp
qed

lemma length_encode [simp]: "length (encode e) = 16"
  by (simp add: encode_def Let_def)

lemma decode_words:
  assumes "rd64 rec 0 = h" and "rd64 rec 8 = l" and "16 \<le> length rec"
  shows "decode rec = Ok \<lparr>x_offset = h mod 2 ^ 63 div 2 ^ 9, x_block = h mod 2 ^ 9 * 2 ^ 43 + l div 2 ^ 21,
    x_count = l mod 2 ^ 21, x_unwritten = (h div 2 ^ 63 \<noteq> 0)\<rparr>"
proof -
  have "l < 2 ^ 64" using rd_less(3) [of rec 8] assms(2) by simp
  then have "l div 2 ^ 21 < 2 ^ 43" by (simp add: div_less_iff_less_mult)
  from shift_or_nat [OF this, of "h mod 2 ^ 9"]
  have "push_bit 43 (h AND 0x1ff) OR drop_bit 21 l = h mod 2 ^ 9 * 2 ^ 43 + l div 2 ^ 21"
    using and_mask_nat [of h 9] by (simp add: drop_bit_eq_div)
  moreover have "h AND (2 ^ 63 - 1) = h mod 2 ^ 63" "l AND (2 ^ 21 - 1) = l mod 2 ^ 21"
    by (simp_all only: and_mask_nat)
  ultimately show ?thesis
    using assms by (simp add: decode_def drop_bit_eq_div)
qed

lemma decode_encode:
  assumes "x_ok e"
  shows "decode (encode e @ rest) = Ok e"
proof -
  note w = encode_words [OF assms]
  let ?h = "of_bool (x_unwritten e) * 2 ^ 63 + x_offset e * 2 ^ 9 + x_block e div 2 ^ 43 :: nat"
  let ?l = "x_block e mod 2 ^ 43 * 2 ^ 21 + x_count e"
  have rd: "rd64 (encode e @ rest) 0 = ?h" "rd64 (encode e @ rest) 8 = ?l"
    using w by (simp_all add: seg_def be_widths)
  have b: "x_block e div 2 ^ 43 < 2 ^ 9" using assms by (simp add: x_ok_def div_less_iff_less_mult)
  have off: "x_offset e * 2 ^ 9 + x_block e div 2 ^ 43 < 2 ^ 63"
    using assms b by (simp add: x_ok_def)
  have "?h mod 2 ^ 63 = x_offset e * 2 ^ 9 + x_block e div 2 ^ 43"
    using off by (simp add: add.assoc)
  moreover have "(x_offset e * 2 ^ 9 + x_block e div 2 ^ 43) div 2 ^ 9 = x_offset e"
    using b by (simp add: div_mult_self3)
  moreover have "?h = (of_bool (x_unwritten e) * 2 ^ 54 + x_offset e) * 2 ^ 9 + x_block e div 2 ^ 43"
    by (simp add: algebra_simps)
  then have "?h mod 2 ^ 9 = x_block e div 2 ^ 43"
    using b by (simp only: mod_mult_self3 mod_less)
  moreover have "?h div 2 ^ 63 = of_bool (x_unwritten e)" using off by (simp add: add.assoc)
  moreover have "?l div 2 ^ 21 = x_block e mod 2 ^ 43" "?l mod 2 ^ 21 = x_count e"
    using assms by (simp_all add: x_ok_def)
  moreover have "x_block e div 2 ^ 43 * 2 ^ 43 + x_block e mod 2 ^ 43 = x_block e" by (rule div_mult_mod_eq)
  ultimately show ?thesis
    by (simp only: decode_words [OF rd] length_append length_encode) simp
qed

interpretation extent_codec: record_codec encode decode 16 x_ok
  by unfold_locales (simp_all add: decode_encode)

lemma decode_ok:
  assumes "decode rec = Ok e"
  shows "x_ok e" and "x_end e < 2 ^ 64"
proof -
  have len: "16 \<le> length rec" using assms by (auto simp: decode_def res_simps)
  let ?h = "rd64 rec 0" and ?l = "rd64 rec 8"
  have "?h mod 2 ^ 63 div 2 ^ 9 < 2 ^ 54" by (simp add: div_less_iff_less_mult)
  moreover have "?l div 2 ^ 21 < 2 ^ 43" using rd_less(3) [of rec 8] by (simp add: div_less_iff_less_mult)
  then have "?h mod 2 ^ 9 * 2 ^ 43 + ?l div 2 ^ 21 < Suc (?h mod 2 ^ 9) * 2 ^ 43" by simp
  moreover have "Suc (?h mod 2 ^ 9) * 2 ^ 43 \<le> 2 ^ 9 * 2 ^ 43" by (intro mult_le_mono1 Suc_leI) simp
  moreover have "?l mod 2 ^ 21 < 2 ^ 21" by simp
  ultimately show ok: "x_ok e"
    using assms decode_words [OF refl refl len] by (auto simp: x_ok_def)
  then show "x_end e < 2 ^ 64" by (simp add: x_ok_def x_end_def)
qed

lemma encode_decode:
  assumes "decode rec = Ok e"
  shows "encode e = take 16 rec"
proof -
  have len: "16 \<le> length rec" using assms by (auto simp: decode_def res_simps)
  let ?h = "rd64 rec 0" and ?l = "rd64 rec 8"
  have h: "?h < 2 ^ 64" using rd_less(3) [of rec 0] by simp
  have l: "?l div 2 ^ 21 < 2 ^ 43" using rd_less(3) [of rec 8] by (simp add: div_less_iff_less_mult)
  have e: "x_offset e = ?h mod 2 ^ 63 div 2 ^ 9" "x_block e = ?h mod 2 ^ 9 * 2 ^ 43 + ?l div 2 ^ 21"
    "x_count e = ?l mod 2 ^ 21" "x_unwritten e = (?h div 2 ^ 63 \<noteq> 0)"
    using assms decode_words [OF refl refl len] by auto
  have "?h div 2 ^ 63 < 2" using h by (simp add: div_less_iff_less_mult)
  then have top: "of_bool (x_unwritten e) = ?h div 2 ^ 63" by (auto simp: e)
  have "?h mod 2 ^ 63 mod 2 ^ 9 = ?h mod 2 ^ 9" by (rule mod_mod_cancel) (simp add: le_imp_power_dvd)
  then have low: "?h mod 2 ^ 63 div 2 ^ 9 * 2 ^ 9 + ?h mod 2 ^ 9 = ?h mod 2 ^ 63" by (metis div_mult_mod_eq)
  have blk: "x_block e div 2 ^ 43 = ?h mod 2 ^ 9" "x_block e mod 2 ^ 43 = ?l div 2 ^ 21"
    using l by (simp_all add: e)
  have "of_bool (x_unwritten e) * 2 ^ 63 + x_offset e * 2 ^ 9 + x_block e div 2 ^ 43 = ?h"
    using low by (simp only: top e(1) blk add.assoc) (rule div_mult_mod_eq)
  moreover have "x_block e mod 2 ^ 43 * 2 ^ 21 + x_count e = ?l"
    by (simp only: blk e(3)) (rule div_mult_mod_eq)
  ultimately have "encode e = u64_bytes ?h @ u64_bytes ?l"
    using encode_words(1) [OF decode_ok(1) [OF assms]] by simp
  also have "\<dots> = seg rec 0 8 @ seg rec 8 8" using len by (simp add: to_from_be_bytes)
  also have "\<dots> = take 16 rec" using seg_add [of rec 0 8 8] by (simp add: seg_def)
  finally show ?thesis .
qed

section \<open>The sorted map: lemmas\<close>

lemma bisect_spec:
  assumes "\<And>i j. i \<le> j \<Longrightarrow> j < length xs \<Longrightarrow> p (xs ! j) \<Longrightarrow> p (xs ! i)" and "lo \<le> hi" and "hi \<le> length xs"
    and "\<And>i. i < lo \<Longrightarrow> p (xs ! i)" and "hi < length xs \<Longrightarrow> \<not> p (xs ! hi)"
  shows "bisect p xs lo hi \<le> length xs \<and> (\<forall>i < bisect p xs lo hi. p (xs ! i)) \<and>
    (bisect p xs lo hi < length xs \<longrightarrow> \<not> p (xs ! bisect p xs lo hi))"
  using assms
proof (induction p xs lo hi rule: bisect.induct)
  case (1 p xs lo hi)
  show ?case
  proof (cases "lo < hi")
    case True
    let ?m = "(lo + hi) div 2"
    have m: "lo \<le> ?m" "?m < hi" using True by auto
    show ?thesis
    proof (cases "p (xs ! ?m)")
      case p: True
      have "p (xs ! i)" if "i < ?m + 1" for i
        using that m 1(3,5) p by (metis Suc_eq_plus1 le_simps(2) less_le_trans)
      then show ?thesis
        using "1.IH"(1) [OF True refl p 1(3) _ 1(5) _ 1(7)] p True m
        by (simp add: bisect.simps [of p xs lo hi])
    next
      case p: False
      then show ?thesis
        using "1.IH"(2) [OF True refl p 1(3) m(1) _ 1(6)] True m 1(5)
        by (simp add: bisect.simps [of p xs lo hi])
    qed
  next
    case False
    then have "bisect p xs lo hi = lo" by (simp add: bisect.simps [of p xs lo hi])
    moreover have "lo = hi" using False "1.prems"(2) by simp
    ultimately show ?thesis using "1.prems"(3-5) by auto
  qed
qed

lemma partition_point_spec:
  assumes "\<And>i j. i \<le> j \<Longrightarrow> j < length xs \<Longrightarrow> p (xs ! j) \<Longrightarrow> p (xs ! i)"
  shows "partition_point p xs = length (takeWhile p xs)"
proof -
  have *: "partition_point p xs \<le> length xs" "\<forall>i < partition_point p xs. p (xs ! i)"
    "partition_point p xs < length xs \<longrightarrow> \<not> p (xs ! partition_point p xs)"
    using bisect_spec [of xs p 0 "length xs"] assms by (auto simp: partition_point_def)
  then have "takeWhile p xs = take (partition_point p xs) xs"
    by (intro takeWhile_eq_take_P_nth) auto
  then show ?thesis using *(1) by simp
qed

text \<open>The blocks an extent maps, and what it means that a list of extents is in order.\<close>

definition x_blocks :: "extent \<Rightarrow> nat list" where
  "x_blocks e = [x_offset e..<x_end e]"

definition before :: "extent \<Rightarrow> extent \<Rightarrow> bool" where
  "before a b \<longleftrightarrow> x_end a \<le> x_offset b"

lemma x_offset_le_end: "x_offset e \<le> x_end e"
  by (simp add: x_end_def)

lemma transp_before: "transp before"
  by (rule transpI) (use x_offset_le_end in \<open>fastforce simp: before_def intro: le_trans\<close>)

lemma list_ex_adjacent:
  "\<not> list_ex P (zip xs (tl xs)) \<longleftrightarrow> (\<forall>i. Suc i < length xs \<longrightarrow> \<not> P (xs ! i, xs ! Suc i))"
  by (auto simp: list_ex_length nth_tl less_diff_conv)

lemma finish_eq:
  "finish extents = (let xs = sort_key x_offset (filter (\<lambda>e. x_count e > 0) extents) in
     if sorted_wrt before xs then Ok xs else Err Corrupt)"
proof -
  have "\<not> list_ex (\<lambda>(a, b). x_offset b < x_end a) (zip xs (tl xs)) \<longleftrightarrow> sorted_wrt before xs" for xs
    by (simp add: list_ex_adjacent sorted_wrt_iff_nth_Suc_transp [OF transp_before] before_def not_less)
  then show ?thesis by (auto simp: finish_def Let_def)
qed

lemma sorted_before_distinct:
  assumes "sorted_wrt before xs"
  shows "distinct (concat (map x_blocks xs))"
  using assms
proof (induction xs)
  case (Cons e xs)
  have "x_end e \<le> b" if "x \<in> set xs" "b \<in> set (x_blocks x)" for x b
    using that Cons.prems by (auto simp: before_def x_blocks_def dest!: bspec intro: le_trans)
  then have "set (x_blocks e) \<inter> (\<Union>x \<in> set xs. set (x_blocks x)) = {}"
    by (fastforce simp: x_blocks_def [of e])
  moreover have "distinct (x_blocks e)" by (simp add: x_blocks_def)
  ultimately show ?case using Cons by simp
qed simp

lemma distinct_sorted_before:
  assumes "distinct (concat (map x_blocks xs))" and "sorted (map x_offset xs)" and "\<forall>e \<in> set xs. 0 < x_count e"
  shows "sorted_wrt before xs"
  using assms
proof (induction xs)
  case (Cons e xs)
  have "before e x" if x: "x \<in> set xs" for x
  proof (rule ccontr)
    assume "\<not> before e x"
    moreover have "x_offset e \<le> x_offset x" "0 < x_count x" using Cons.prems x by auto
    ultimately have "x_offset x \<in> set (x_blocks e)" "x_offset x \<in> set (x_blocks x)"
      by (auto simp: before_def x_blocks_def x_end_def)
    then show False using Cons.prems(1) x by auto
  qed
  then show ?case using Cons by simp
qed simp

lemma concat_blocks_filter: "concat (map x_blocks (filter (\<lambda>e. x_count e > 0) xs)) = concat (map x_blocks xs)"
  by (induction xs) (auto simp: x_blocks_def x_end_def)

lemma find_sorted:
  assumes "sorted_wrt before xs"
  shows "find xs lblk = Some e \<longleftrightarrow> e \<in> set xs \<and> x_offset e \<le> lblk \<and> lblk < x_end e"
proof -
  let ?p = "\<lambda>e. x_end e \<le> lblk"
  have before: "x_end (xs ! i) \<le> x_offset (xs ! j)" if "i < j" "j < length xs" for i j
    using sorted_wrt_nth_less [OF assms that] by (simp add: before_def)
  have mono: "?p (xs ! i)" if "i \<le> j" "j < length xs" "?p (xs ! j)" for i j
    using that before [of i j] x_offset_le_end [of "xs ! j"] by (cases "i = j") auto
  let ?k = "length (takeWhile ?p xs)"
  have k: "partition_point ?p xs = ?k" by (rule partition_point_spec) (rule mono)
  have less: "?p (xs ! i)" if "i < ?k" for i
    using that by (metis nth_mem set_takeWhileD takeWhile_nth)
  have at: "lblk < x_end (xs ! ?k)" if "?k < length xs"
    using nth_length_takeWhile [OF that] by simp
  show ?thesis
  proof
    assume "find xs lblk = Some e"
    then show "e \<in> set xs \<and> x_offset e \<le> lblk \<and> lblk < x_end e"
      using at by (auto simp: find_def k Let_def split: if_splits)
  next
    assume e: "e \<in> set xs \<and> x_offset e \<le> lblk \<and> lblk < x_end e"
    then obtain i where i: "i < length xs" "xs ! i = e" by (auto simp: in_set_conv_nth)
    have "\<not> i < ?k" using less [of i] e i(2) by auto
    moreover have "\<not> ?k < i" using before [of ?k i] at i e by auto
    ultimately have "i = ?k" by simp
    then show "find xs lblk = Some e" using i e by (simp add: find_def k Let_def)
  qed
qed

section \<open>Properties\<close>

text \<open>
  The packed extent record loses nothing: every extent within the format's field
  widths decodes from its encoding as itself, and every 16 bytes are the encoding of what
  they decode to.
\<close>

lemma extent_record_roundtrip:
  "(x_ok e \<longrightarrow> decode (encode e @ rest) = Ok e) \<and>
   (16 \<le> length rec \<longrightarrow> (\<exists>e. decode rec = Ok e \<and> x_ok e \<and> encode e = take 16 rec))"
proof
  show "x_ok e \<longrightarrow> decode (encode e @ rest) = Ok e" by (simp add: decode_encode)
  show "16 \<le> length rec \<longrightarrow> (\<exists>e. decode rec = Ok e \<and> x_ok e \<and> encode e = take 16 rec)"
    using decode_words [OF refl refl, of rec] decode_ok(1) [of rec] encode_decode [of rec] by blast
qed

lemma extent_record_roundtrip_witness:
  "decode (encode \<lparr>x_offset = 5, x_block = 0x123456789, x_count = 7, x_unwritten = True\<rparr> @ [])
     = Ok \<lparr>x_offset = 5, x_block = 0x123456789, x_count = 7, x_unwritten = True\<rparr>"
  using extent_record_roundtrip [of "\<lparr>x_offset = 5, x_block = 0x123456789, x_count = 7, x_unwritten = True\<rparr>" "[]"]
  by (simp add: x_ok_def)

text \<open>
  C29. A fork's extents as the reader keeps them: sorting fails exactly when two of them map
  the same logical block; otherwise the result holds the non-empty extents, in order, and
  looking a block up by bisection finds the extent that maps it, and nothing when none does.
\<close>

theorem finish_find:
  "(finish extents = Err Corrupt \<longleftrightarrow> \<not> distinct (concat (map x_blocks extents))) \<and>
   (distinct (concat (map x_blocks extents)) \<longrightarrow>
     (\<exists>ys. finish extents = Ok ys \<and> mset ys = mset (filter (\<lambda>e. x_count e > 0) extents) \<and>
        sorted_wrt before ys \<and>
        (\<forall>lblk e. find ys lblk = Some e \<longleftrightarrow> e \<in> set extents \<and> x_offset e \<le> lblk \<and> lblk < x_end e)))"
proof -
  let ?xs = "filter (\<lambda>e. x_count e > 0) extents"
  let ?ys = "sort_key x_offset ?xs"
  have "mset (concat (map x_blocks ?ys)) = mset (concat (map x_blocks ?xs))"
    by (simp add: mset_concat comp_def flip: sum_mset_sum_list)
  then have d: "distinct (concat (map x_blocks ?ys)) \<longleftrightarrow> distinct (concat (map x_blocks extents))"
    using mset_eq_imp_distinct_iff concat_blocks_filter by metis
  have iff: "sorted_wrt before ?ys \<longleftrightarrow> distinct (concat (map x_blocks extents))"
    unfolding d [symmetric]
    by (rule iffI [OF sorted_before_distinct distinct_sorted_before]) simp_all
  have fin: "finish extents = (if sorted_wrt before ?ys then Ok ?ys else Err Corrupt)"
    by (simp add: finish_eq Let_def)
  show ?thesis
  proof (cases "sorted_wrt before ?ys")
    case True
    have "find ?ys lblk = Some e \<longleftrightarrow> e \<in> set extents \<and> x_offset e \<le> lblk \<and> lblk < x_end e" for lblk e
      using find_sorted [OF True] by (auto simp: x_end_def)
    moreover have "mset ?ys = mset ?xs" by simp
    moreover have "finish extents = Ok ?ys" "distinct (concat (map x_blocks extents))"
      using True iff fin by simp_all
    ultimately show ?thesis using True by (intro conjI impI iffI exI [of _ ?ys]) simp_all
  next
    case False
    then show ?thesis using iff fin by simp
  qed
qed

theorem finish_find_witness:
  "\<exists>ys. finish [\<lparr>x_offset = 4, x_block = 104, x_count = 3, x_unwritten = False\<rparr>,
                 \<lparr>x_offset = 0, x_block = 100, x_count = 2, x_unwritten = False\<rparr>] = Ok ys \<and>
     find ys 6 = Some \<lparr>x_offset = 4, x_block = 104, x_count = 3, x_unwritten = False\<rparr>"
  using finish_find [of "[\<lparr>x_offset = 4, x_block = 104, x_count = 3, x_unwritten = False\<rparr>,
                 \<lparr>x_offset = 0, x_block = 100, x_count = 2, x_unwritten = False\<rparr>]"]
  by (auto simp: x_blocks_def x_end_def)

end
