(* ===== verification/Btree.thy ===== *)
theory Btree
  imports Bmap
begin

text \<open>
  Building B+trees whole from sorted records (\<open>src/src/btree.rs\<close>): how many blocks each
  level takes, how the records are spread over them, the blocks of an allocation group's
  trees (\<open>build_ag\<close>) and of an inode fork's extent tree (\<open>build_bmap\<close>), and the root kept
  in the inode (\<open>bmap_root_fork\<close>).

  The \<open>while\<close> loops that size the levels need not end for every argument (a node that holds
  one entry never shrinks a level); \<open>level_loop\<close> is \<open>None\<close> where the code does not return,
  and is proved to return for every node capacity of two or more. The subtractions of a
  header from a block or fork size are of a size the parser has checked to be larger.
\<close>

unbundle bit_operations_syntax

section \<open>Sizes\<close>

abbreviation (input) "SHORT_HDR \<equiv> 56 :: nat"
abbreviation (input) "LONG_HDR \<equiv> 72 :: nat"
abbreviation (input) "NULL_AGBLOCK \<equiv> 0xffffffff :: nat"
abbreviation (input) "NULL_FSBLOCK \<equiv> 0xffffffffffffffff :: nat"

definition spread :: "nat \<Rightarrow> nat \<Rightarrow> nat list" where
  "spread n k = map (\<lambda>i. n div k + (if i < n mod k then 1 else 0)) [0..<k]"

text \<open>The loop both sizings run: levels of \<open>cap\<close> entries, until at most \<open>stop\<close> blocks are left.\<close>

partial_function (option) level_loop :: "nat \<Rightarrow> nat \<Rightarrow> nat \<Rightarrow> nat list option" where
  "level_loop stop cap below =
     (if below > stop then
        if cap = 0 then None
        else Option.bind (level_loop stop cap (div_ceil below cap)) (\<lambda>sizes. Some (below # sizes))
      else Some [below])"

declare level_loop.simps [code]

definition level_sizes :: "nat \<Rightarrow> nat \<Rightarrow> nat \<Rightarrow> nat list option" where
  "level_sizes n leaf_max node_max =
     (if leaf_max = 0 then None else level_loop 1 node_max (max (div_ceil n leaf_max) 1))"

definition blocks_for :: "nat \<Rightarrow> nat \<Rightarrow> nat \<Rightarrow> nat option" where
  "blocks_for n leaf_max node_max = map_option sum_list (level_sizes n leaf_max node_max)"

text \<open>A call that does not return, in a function that does.\<close>

definition returns :: "'a option \<Rightarrow> 'a res" where
  "returns x = (case x of Some a \<Rightarrow> Ok a | None \<Rightarrow> Panic)"

section \<open>Allocation group trees\<close>

record btrec =
  r_data :: "byte list"
  r_low :: "byte list"
  r_high :: "byte list"

text \<open>The order of keys is only asked whether the first is the greater.\<close>

record ag_spec =
  sp_magic :: nat
  sp_rec_len :: nat
  sp_key_len :: nat
  sp_overlapping :: bool
  sp_greater :: "byte list \<Rightarrow> byte list \<Rightarrow> bool"

definition slots :: "ag_spec \<Rightarrow> nat" where
  "slots spec = (if sp_overlapping spec then 2 else 1)"

definition leaf_max :: "ag_spec \<Rightarrow> nat \<Rightarrow> nat" where
  "leaf_max spec block_size = (block_size - SHORT_HDR) div sp_rec_len spec"

definition node_max :: "ag_spec \<Rightarrow> nat \<Rightarrow> nat" where
  "node_max spec block_size = (block_size - SHORT_HDR) div (sp_key_len spec * slots spec + 4)"

definition tree_blocks :: "ag_spec \<Rightarrow> nat \<Rightarrow> nat \<Rightarrow> nat option" where
  "tree_blocks spec n block_size = blocks_for n (leaf_max spec block_size) (node_max spec block_size)"

fun keys_of :: "ag_spec \<Rightarrow> (byte list \<times> byte list) list \<Rightarrow> byte list \<times> byte list" where
  "keys_of spec [] = (replicate (sp_key_len spec) 0, replicate (sp_key_len spec) 0)"
| "keys_of spec ((low, high) # it) =
     (low, fold (\<lambda>(_, h) best. if sp_greater spec h best then h else best) it high)"

text \<open>The parts of a list with the given lengths: \<open>items[at..at + take]\<close> as \<open>at\<close> advances.\<close>

primrec parts :: "nat list \<Rightarrow> 'a list \<Rightarrow> 'a list list" where
  "parts [] xs = []"
| "parts (n # ns) xs = take n xs # parts ns (drop n xs)"

definition ag_header :: "superblock \<Rightarrow> nat \<Rightarrow> ag_spec \<Rightarrow> nat \<Rightarrow> nat list \<Rightarrow> nat \<Rightarrow> nat \<Rightarrow> (nat \<times> byte list) list" where
  "ag_header sb agno spec level addrs i n =
     [(0, u32_bytes (sp_magic spec)), (4, u16_bytes level), (6, u16_bytes n),
      (8, u32_bytes (if i = 0 then NULL_AGBLOCK else addrs ! (i - 1))),
      (12, u32_bytes (if i + 1 < length addrs then addrs ! (i + 1) else NULL_AGBLOCK)),
      (16, u64_bytes (drop_bit 9 (agb_to_byte sb agno (addrs ! i)))),
      (32, sb_meta_uuid sb), (48, u32_bytes agno)]"

text \<open>A leaf's records and a node's keys and pointers; a slice of the wrong length panics.\<close>

definition leaf_payload :: "ag_spec \<Rightarrow> btrec list \<Rightarrow> (nat \<times> byte list) list res" where
  "leaf_payload spec part =
     (if list_all (\<lambda>r. length (r_data r) = sp_rec_len spec) part
      then Ok (map (\<lambda>(j, r). (SHORT_HDR + j * sp_rec_len spec, r_data r)) (enumerate 0 part))
      else Panic)"

type_synonym child = "byte list \<times> byte list \<times> nat"

definition node_entry :: "ag_spec \<Rightarrow> nat \<Rightarrow> nat \<times> child \<Rightarrow> (nat \<times> byte list) list" where
  "node_entry spec nmax = (\<lambda>(j, lo, hi, ptr).
     let slot = sp_key_len spec * slots spec; ptrs = SHORT_HDR + nmax * slot; k = SHORT_HDR + j * slot in
     [(k, lo)] @ (if sp_overlapping spec then [(k + sp_key_len spec, hi)] else [])
     @ [(ptrs + j * 4, u32_bytes ptr)])"

definition node_payload :: "ag_spec \<Rightarrow> nat \<Rightarrow> child list \<Rightarrow> (nat \<times> byte list) list res" where
  "node_payload spec nmax part =
     (if list_all (\<lambda>(lo, hi, _). length lo = sp_key_len spec \<and>
                     (sp_overlapping spec \<longrightarrow> length hi = sp_key_len spec)) part
      then Ok (concat (map (node_entry spec nmax) (enumerate 0 part)))
      else Panic)"

text \<open>
  One level: a block for each part, at the address of its index. The result has each
  block's keys, its address and its contents.
\<close>

definition ag_level ::
  "superblock \<Rightarrow> nat \<Rightarrow> ag_spec \<Rightarrow> nat \<Rightarrow> ('a list \<Rightarrow> (nat \<times> byte list) list res) \<Rightarrow>
   ('a \<Rightarrow> byte list \<times> byte list) \<Rightarrow> nat list \<Rightarrow> 'a list \<Rightarrow> (child \<times> byte list) list res" where
  "ag_level sb agno spec level payload keys addrs items =
     map_res (\<lambda>(i, part).
       and_then (payload part) (\<lambda>ws.
       and_then (puts (ag_header sb agno spec level addrs i (length part) @ ws)
                   (replicate (sb_block_size sb) 0)) (\<lambda>buf.
       and_then (stamp buf 52) (\<lambda>buf.
       let (low, high) = keys_of spec (map keys part) in
       Ok ((low, high, addrs ! i), buf)))))
     (enumerate 0 (parts (spread (length items) (length addrs)) items))"

text \<open>The levels above the leaves.\<close>

primrec ag_nodes ::
  "superblock \<Rightarrow> nat \<Rightarrow> ag_spec \<Rightarrow> nat \<Rightarrow> nat list \<Rightarrow> nat list \<Rightarrow> child list \<Rightarrow>
   ((nat \<times> byte list) list \<times> child list) res" where
  "ag_nodes sb agno spec level [] addrs below = Ok ([], below)"
| "ag_nodes sb agno spec level (n # sizes) addrs below =
     and_then (ag_level sb agno spec level (node_payload spec (node_max spec (sb_block_size sb)))
                 (\<lambda>(lo, hi, _). (lo, hi)) (take n addrs) below) (\<lambda>built.
     and_then (ag_nodes sb agno spec (level + 1) sizes (drop n addrs) (map fst built)) (\<lambda>(blocks, top).
     Ok (map (\<lambda>((_, _, a), buf). (a, buf)) built @ blocks, top)))"

record 'b built =
  bt_blocks :: "('b \<times> byte list) list"
  bt_root :: 'b
  bt_levels :: nat
  bt_root_entries :: "(nat \<times> nat) list"

definition build_ag :: "superblock \<Rightarrow> nat \<Rightarrow> ag_spec \<Rightarrow> btrec list \<Rightarrow> nat list \<Rightarrow> nat built res" where
  "build_ag sb agno spec recs agbnos =
     (let bs = sb_block_size sb in
      and_then (returns (level_sizes (length recs) (leaf_max spec bs) (node_max spec bs))) (\<lambda>sizes.
      if sum_list sizes \<noteq> length agbnos then Panic
      else
        and_then (ag_level sb agno spec 0 (leaf_payload spec) (\<lambda>r. (r_low r, r_high r))
                    (take (hd sizes) agbnos) recs) (\<lambda>leaves.
        and_then (ag_nodes sb agno spec 1 (tl sizes) (drop (hd sizes) agbnos) (map fst leaves)) (\<lambda>(blocks, top).
        and_then (index top 0) (\<lambda>(_, _, root).
        Ok \<lparr>bt_blocks = map (\<lambda>((_, _, a), buf). (a, buf)) leaves @ blocks, bt_root = root,
            bt_levels = length sizes, bt_root_entries = []\<rparr>)))))"

section \<open>Extent trees\<close>

definition bmap_block_max :: "nat \<Rightarrow> nat" where
  "bmap_block_max block_size = (block_size - LONG_HDR) div 16"

definition bmap_root_max :: "nat \<Rightarrow> nat" where
  "bmap_root_max fork_size = (fork_size - 4) div 16"

definition bmap_level_sizes :: "nat \<Rightarrow> nat \<Rightarrow> nat \<Rightarrow> nat list option" where
  "bmap_level_sizes n block_size root_max =
     (let cap = bmap_block_max block_size in
      if cap = 0 then None else level_loop root_max cap (max (div_ceil n cap) 1))"

definition bmap_blocks :: "nat \<Rightarrow> nat \<Rightarrow> nat \<Rightarrow> nat option" where
  "bmap_blocks n block_size root_max = map_option sum_list (bmap_level_sizes n block_size root_max)"

definition bmap_header :: "superblock \<Rightarrow> nat \<Rightarrow> nat \<Rightarrow> nat list \<Rightarrow> nat \<Rightarrow> nat \<Rightarrow> (nat \<times> byte list) list res" where
  "bmap_header sb ino level addrs i n =
     and_then (fsb_to_byte sb (addrs ! i)) (\<lambda>at.
     Ok [(0, u32_bytes BMA3_MAGIC), (4, u16_bytes level), (6, u16_bytes n),
         (8, u64_bytes (if i = 0 then NULL_FSBLOCK else addrs ! (i - 1))),
         (16, u64_bytes (if i + 1 < length addrs then addrs ! (i + 1) else NULL_FSBLOCK)),
         (24, u64_bytes (drop_bit 9 at)), (40, sb_meta_uuid sb), (56, u64_bytes ino)])"

definition bmap_leaf_payload :: "(nat \<times> byte list) list \<Rightarrow> (nat \<times> byte list) list" where
  "bmap_leaf_payload part = map (\<lambda>(j, _, rec). (LONG_HDR + j * 16, rec)) (enumerate 0 part)"

definition bmap_node_payload :: "nat \<Rightarrow> (nat \<times> nat) list \<Rightarrow> (nat \<times> byte list) list" where
  "bmap_node_payload cap part =
     concat (map (\<lambda>(j, key, ptr). [(LONG_HDR + j * 8, u64_bytes key), (LONG_HDR + cap * 8 + j * 8, u64_bytes ptr)])
       (enumerate 0 part))"

text \<open>An empty part has no first key: \<open>offsets[at]\<close> and \<open>part[0]\<close> panic.\<close>

definition bmap_level ::
  "superblock \<Rightarrow> nat \<Rightarrow> nat \<Rightarrow> ((nat \<times> 'a) list \<Rightarrow> (nat \<times> byte list) list) \<Rightarrow> nat list \<Rightarrow> (nat \<times> 'a) list \<Rightarrow>
   ((nat \<times> nat) \<times> byte list) list res" where
  "bmap_level sb ino level payload addrs items =
     map_res (\<lambda>(i, part).
       and_then (bmap_header sb ino level addrs i (length part)) (\<lambda>hdr.
       and_then (puts (hdr @ payload part) (replicate (sb_block_size sb) 0)) (\<lambda>buf.
       and_then (index part 0) (\<lambda>first.
       and_then (stamp buf 64) (\<lambda>buf.
       Ok ((fst first, addrs ! i), buf)))))
     ) (enumerate 0 (parts (spread (length items) (length addrs)) items))"

primrec bmap_nodes ::
  "superblock \<Rightarrow> nat \<Rightarrow> nat \<Rightarrow> nat list \<Rightarrow> nat list \<Rightarrow> (nat \<times> nat) list \<Rightarrow>
   ((nat \<times> byte list) list \<times> (nat \<times> nat) list) res" where
  "bmap_nodes sb ino level [] addrs below = Ok ([], below)"
| "bmap_nodes sb ino level (n # sizes) addrs below =
     and_then (bmap_level sb ino level (bmap_node_payload (bmap_block_max (sb_block_size sb))) (take n addrs) below) (\<lambda>built.
     and_then (bmap_nodes sb ino (level + 1) sizes (drop n addrs) (map fst built)) (\<lambda>(blocks, top).
     Ok (map (\<lambda>((_, a), buf). (a, buf)) built @ blocks, top)))"

text \<open>
  The records come as pairs of their start offset and their 16 bytes, the arguments
  \<open>offsets\<close> and \<open>recs\<close> zipped.
\<close>

definition build_bmap ::
  "superblock \<Rightarrow> nat \<Rightarrow> (nat \<times> byte list) list \<Rightarrow> nat list \<Rightarrow> nat \<Rightarrow> nat built res" where
  "build_bmap sb ino recs fsbs root_max =
     and_then (returns (bmap_level_sizes (length recs) (sb_block_size sb) root_max)) (\<lambda>sizes.
     if sum_list sizes \<noteq> length fsbs then Panic
     else
       and_then (bmap_level sb ino 0 bmap_leaf_payload (take (hd sizes) fsbs) recs) (\<lambda>leaves.
       and_then (bmap_nodes sb ino 1 (tl sizes) (drop (hd sizes) fsbs) (map fst leaves)) (\<lambda>(blocks, top).
       Ok \<lparr>bt_blocks = map (\<lambda>((_, a), buf). (a, buf)) leaves @ blocks, bt_root = 0,
           bt_levels = length sizes + 1, bt_root_entries = top\<rparr>)))"

definition bmap_root_fork :: "nat \<Rightarrow> nat \<Rightarrow> (nat \<times> nat) list \<Rightarrow> byte list res" where
  "bmap_root_fork fork_size level entries =
     (let cap = bmap_root_max fork_size in
      puts ([(0, u16_bytes level), (2, u16_bytes (length entries))] @
            concat (map (\<lambda>(j, key, ptr). [(4 + j * 8, u64_bytes key), (4 + cap * 8 + j * 8, u64_bytes ptr)])
              (enumerate 0 entries)))
        (replicate fork_size 0))"

section \<open>Sizes: lemmas\<close>

lemma length_spread [simp]: "length (spread n k) = k"
  by (simp add: spread_def)

lemma sum_list_first: "sum_list (map (\<lambda>i. if i < m then 1 else 0) [0..<k]) = (min m k :: nat)"
  by (induction k) (auto simp: min_def)

lemma sum_list_spread: "0 < k \<Longrightarrow> sum_list (spread n k) = n"
proof -
  assume "0 < k"
  then have "n mod k \<le> k" by (simp add: less_imp_le)
  then have "sum_list (spread n k) = n div k * k + n mod k"
    unfolding spread_def by (simp add: sum_list_addf sum_list_triv sum_list_first)
  then show ?thesis by simp
qed

lemma in_spread: "x \<in> set (spread n k) \<Longrightarrow> x = n div k \<or> x = n div k + 1 \<and> 0 < n mod k"
  by (auto simp: spread_def split: if_splits)

lemma spread_le:
  assumes "x \<in> set (spread n k)" and "n \<le> k * c"
  shows "x \<le> c"
proof (cases "k = 0")
  case True
  with assms(1) show ?thesis by (simp add: spread_def)
next
  case False
  have div: "n div k \<le> c" using assms(2) False by (metis div_le_mono nonzero_mult_div_cancel_left)
  have "n div k + 1 \<le> c" if "0 < n mod k"
  proof (rule ccontr)
    assume "\<not> n div k + 1 \<le> c"
    with div have "n div k = c" by simp
    then have "n = k * c + n mod k" by (metis mult_div_mod_eq)
    with assms(2) that show False by linarith
  qed
  with in_spread [OF assms(1)] div show ?thesis by auto
qed

lemma spread_pos: "0 < k \<Longrightarrow> k \<le> n \<Longrightarrow> x \<in> set (spread n k) \<Longrightarrow> 0 < x"
  using in_spread [of x n k] by (auto simp: div_greater_zero_iff)

lemma level_loop_unfold:
  "below > stop \<Longrightarrow> cap > 0 \<Longrightarrow>
   level_loop stop cap below = map_option ((#) below) (level_loop stop cap (div_ceil below cap))"
  "below \<le> stop \<Longrightarrow> level_loop stop cap below = Some [below]"
  by (subst level_loop.simps, simp add: map_option_case split: option.splits)
     (subst level_loop.simps, simp)

lemma div_ceil_less: "1 < n \<Longrightarrow> 2 \<le> c \<Longrightarrow> div_ceil n c < n"
proof -
  assume n: "1 < n" and c: "2 \<le> c"
  have "n \<le> (n - 1) * 2" using n by simp
  also have "\<dots> \<le> (n - 1) * c" using c by simp
  finally have "div_ceil n c \<le> n - 1" using c by (intro div_ceil_le) simp_all
  then show ?thesis using n by simp
qed

text \<open>The sizing loop returns, and what it returns is a tower that fits.\<close>

fun tower :: "nat \<Rightarrow> nat \<Rightarrow> nat list \<Rightarrow> bool" where
  "tower stop cap [] = False"
| "tower stop cap [k] = (0 < k \<and> k \<le> stop)"
| "tower stop cap (k # l # ks) = (stop < k \<and> l = div_ceil k cap \<and> tower stop cap (l # ks))"

lemma level_loop_returns:
  assumes "1 \<le> stop" and "2 \<le> cap" and "0 < n"
  shows "\<exists>ks. level_loop stop cap n = Some (n # ks) \<and> tower stop cap (n # ks)"
  using assms(3)
proof (induction n rule: less_induct)
  case (less n)
  show ?case
  proof (cases "stop < n")
    case False
    then show ?thesis using less.prems by (simp add: level_loop_unfold)
  next
    case True
    have "div_ceil n cap < n" using True assms by (intro div_ceil_less) simp_all
    moreover have "0 < div_ceil n cap" using less.prems assms(2) by (intro div_ceil_pos) simp_all
    ultimately obtain ks where ks: "level_loop stop cap (div_ceil n cap) = Some (div_ceil n cap # ks)"
      "tower stop cap (div_ceil n cap # ks)" using less.IH by blast
    have "level_loop stop cap n = Some (n # div_ceil n cap # ks)"
      using ks(1) True assms(2) level_loop_unfold(1) [of stop n cap] by simp
    then show ?thesis using ks(2) True by auto
  qed
qed

lemma tower_last: "tower stop cap ks \<Longrightarrow> 0 < last ks \<and> last ks \<le> stop"
  by (induction stop cap ks rule: tower.induct) auto

lemma tower_nonempty: "tower stop cap ks \<Longrightarrow> ks \<noteq> []"
  by (cases ks) auto

lemma tower_pos: "tower stop cap ks \<Longrightarrow> k \<in> set ks \<Longrightarrow> 0 < k"
  by (induction stop cap ks rule: tower.induct) auto

lemma level_sizes_tower:
  assumes "1 \<le> lmax" and "2 \<le> nmax"
  shows "\<exists>ks. level_sizes n lmax nmax = Some (max (div_ceil n lmax) 1 # ks) \<and>
    tower 1 nmax (max (div_ceil n lmax) 1 # ks)"
  using level_loop_returns [of 1 nmax "max (div_ceil n lmax) 1"] assms by (simp add: level_sizes_def)

lemma spread_half_full:
  assumes "0 < c" and "2 \<le> div_ceil n c" and "x \<in> set (spread n (div_ceil n c))"
  shows "c div 2 \<le> x"
proof -
  let ?k = "div_ceil n c"
  have "(?k - 1) * c < n"
    using div_ceil_bounds(2) [OF assms(1), of n] assms(2) by (cases ?k) simp_all
  moreover have "?k * (c div 2) \<le> (?k - 1) * c"
  proof -
    have "?k * (c div 2) \<le> (2 * (?k - 1)) * (c div 2)" using assms(2) by (intro mult_le_mono1) simp
    also have "\<dots> = (?k - 1) * (2 * (c div 2))" by simp
    also have "\<dots> \<le> (?k - 1) * c" by (intro mult_le_mono2) simp
    finally show ?thesis .
  qed
  ultimately have "?k * (c div 2) \<le> n" by simp
  then have "c div 2 \<le> n div ?k" using assms(2) by (simp add: less_eq_div_iff_mult_less_eq mult.commute)
  then show ?thesis using in_spread [OF assms(3)] by auto
qed

section \<open>Parts of a list\<close>

lemma length_parts [simp]: "length (parts ns xs) = length ns"
  by (induction ns arbitrary: xs) simp_all

lemma concat_parts: "sum_list ns = length xs \<Longrightarrow> concat (parts ns xs) = xs"
  by (induction ns arbitrary: xs) simp_all

lemma parts_lengths: "sum_list ns = length xs \<Longrightarrow> map length (parts ns xs) = ns"
  by (induction ns arbitrary: xs) simp_all

lemma parts_length_in:
  "sum_list ns = length xs \<Longrightarrow> part \<in> set (parts ns xs) \<Longrightarrow> length part \<in> set ns"
  using parts_lengths [of ns xs] by (metis image_eqI set_map)

lemma set_parts: "part \<in> set (parts ns xs) \<Longrightarrow> set part \<subseteq> set xs"
  by (induction ns arbitrary: xs) (auto dest: in_set_takeD in_set_dropD)

lemma spread_parts:
  assumes "0 < k" and "length xs \<le> k * c" and "part \<in> set (parts (spread (length xs) k) xs)"
  shows "length part \<le> c"
  by (rule spread_le [OF parts_length_in [OF sum_list_spread [OF assms(1)] assms(3)] assms(2)])

section \<open>Runs of fields of one width\<close>

lemma field_outside:
  "list_all (\<lambda>w. fst w + length (snd w) \<le> i \<or> i + n \<le> fst w) ws \<Longrightarrow> field ws i n acc = acc"
  by (induction ws arbitrary: acc) simp_all

lemma field_member:
  assumes "(i, ys) \<in> set ws" and "n = length ys" and "0 < n"
    and "\<And>w. w \<in> set ws \<Longrightarrow> w = (i, ys) \<or> fst w + length (snd w) \<le> i \<or> i + n \<le> fst w"
  shows "field ws i n acc = Some ys"
  using assms(1,4)
proof (induction ws arbitrary: acc)
  case (Cons w ws)
  show ?case
  proof (cases "(i, ys) \<in> set ws")
    case True
    then show ?thesis using Cons by simp
  next
    case False
    then have "field ws i n acc' = acc'" for acc'
      by (intro field_outside) (use Cons.prems(2) in \<open>fastforce simp: list_all_iff\<close>)
    moreover have "w = (i, ys)" using Cons.prems(1) False by auto
    ultimately show ?thesis using assms(2,3) by simp
  qed
qed simp

text \<open>What a reader finds at a written pair, when no other pair of the run overlaps it.\<close>

lemma puts_member:
  assumes "puts ws b = Ok c" and "(i, ys) \<in> set ws"
    and "\<And>w. w \<in> set ws \<Longrightarrow> w = (i, ys) \<or> fst w + length (snd w) \<le> i \<or> i + length ys \<le> fst w"
    and "i + length ys \<le> length b"
  shows "seg c i (length ys) = ys"
proof (cases "ys = []")
  case False
  show ?thesis
    by (rule puts_field [OF assms(1,4) field_member]) (use assms(2,3) False in auto)
qed simp

lemma puts_in_range: "puts ws b = Ok c \<Longrightarrow> w \<in> set ws \<Longrightarrow> fst w + length (snd w) \<le> length b"
proof (induction ws arbitrary: b)
  case (Cons v ws)
  obtain j zs where v: "v = (j, zs)" by (cases v)
  from Cons.prems(1) have j: "j + length zs \<le> length b" and rest: "puts ws (patch b j zs) = Ok c"
    by (auto simp: v res_simps)
  show ?case using Cons.IH [OF rest] Cons.prems(2) j by (auto simp: v)
qed simp

lemma slot_disjoint: "(j :: nat) \<noteq> j' \<Longrightarrow> j * w + w \<le> j' * w \<or> j' * w + w \<le> j * w"
  using mult_le_mono1 [of "Suc j" j' w] mult_le_mono1 [of "Suc j'" j w] by (cases "j < j'") auto

lemma slot_in: "j < (n :: nat) \<Longrightarrow> j * w + w \<le> n * w"
  using mult_le_mono1 [of "Suc j" n w] by simp

section \<open>The blocks of an allocation group's tree\<close>

lemma ag_header_in:
  assumes "wf_sb sb" and "w \<in> set (ag_header sb agno spec level addrs i n)"
  shows "fst w + length (snd w) \<le> 52"
  using assms(2) wf_sbD(18) [OF assms(1)] by (auto simp: ag_header_def)

lemma ag_block_total:
  assumes "wf_sb sb" and "list_all (\<lambda>w. fst w + length (snd w) \<le> sb_block_size sb) ws"
  shows "\<exists>c d. puts (ag_header sb agno spec level addrs i n @ ws) (replicate (sb_block_size sb) 0) = Ok c \<and>
    stamp c 52 = Ok d"
proof -
  have bs: "512 \<le> sb_block_size sb" by (rule wf_sbD(4) [OF assms(1)])
  have "list_all (\<lambda>w. fst w + length (snd w) \<le> length (replicate (sb_block_size sb) (0 :: byte)))
      (ag_header sb agno spec level addrs i n @ ws)"
    using assms(2) bs ag_header_in [OF assms(1)] by (fastforce simp: list_all_iff)
  then obtain c where c: "puts (ag_header sb agno spec level addrs i n @ ws) (replicate (sb_block_size sb) 0) = Ok c"
    using puts_total by blast
  then show ?thesis using crc.seal_total [of 52 c] puts_length [OF c] bs by auto
qed

text \<open>A block as it is written: header and payload in a zeroed block, then stamped.\<close>

definition ag_block ::
  "superblock \<Rightarrow> nat \<Rightarrow> ag_spec \<Rightarrow> nat \<Rightarrow> nat list \<Rightarrow> nat \<Rightarrow> nat \<Rightarrow> (nat \<times> byte list) list \<Rightarrow> byte list \<Rightarrow> bool" where
  "ag_block sb agno spec level addrs i n ws d \<longleftrightarrow>
     (\<exists>c. puts (ag_header sb agno spec level addrs i n @ ws) (replicate (sb_block_size sb) 0) = Ok c \<and> stamp c 52 = Ok d)
     \<and> list_all (\<lambda>w. 56 \<le> fst w) ws"

lemma ag_block_header:
  assumes "wf_sb sb" and "ag_block sb agno spec level addrs i n ws d"
    and "sp_magic spec < 2 ^ 32" and "level < 2 ^ 16" and "n < 2 ^ 16"
  shows "length d = sb_block_size sb" "rd32 d 0 = sp_magic spec" "rd16 d 4 = level" "rd16 d 6 = n" "verify d 52"
proof -
  obtain c where P: "puts (ag_header sb agno spec level addrs i n @ ws) (replicate (sb_block_size sb) 0) = Ok c"
    and S: "stamp c 52 = Ok d" and far: "list_all (\<lambda>w. 56 \<le> fst w) ws"
    using assms(2) by (auto simp: ag_block_def)
  show "length d = sb_block_size sb" using puts_length [OF P] crc.seal_length [OF S] by simp
  show "verify d 52" by (rule crc.seal_check [OF S])
  have bs: "512 \<le> sb_block_size sb" by (rule wf_sbD(4) [OF assms(1)])
  have out: "field ws j m acc = acc" if "j + m \<le> 56" for j m acc
    by (rule field_outside) (use far that in \<open>auto simp: list_all_iff\<close>)
  have "field (ag_header sb agno spec level addrs i n) 0 4 acc = Some (u32_bytes (sp_magic spec))"
    "field (ag_header sb agno spec level addrs i n) 4 2 acc = Some (u16_bytes level)"
    "field (ag_header sb agno spec level addrs i n) 6 2 acc = Some (u16_bytes n)" for acc
    using wf_sbD(18) [OF assms(1)] by (simp_all add: ag_header_def)
  then have "seg d 0 4 = u32_bytes (sp_magic spec)" "seg d 4 2 = u16_bytes level" "seg d 6 2 = u16_bytes n"
    using bs by (auto intro!: crc.seal_field [OF P S] simp: field_append out)
  then show "rd32 d 0 = sp_magic spec" "rd16 d 4 = level" "rd16 d 6 = n"
    using assms(3-5) by (simp_all add: be_widths)
qed

lemma ag_block_field:
  assumes "wf_sb sb" and "ag_block sb agno spec level addrs i n ws d" and "(j, ys) \<in> set ws"
    and "\<And>w. w \<in> set ws \<Longrightarrow> w = (j, ys) \<or> fst w + length (snd w) \<le> j \<or> j + length ys \<le> fst w"
  shows "j + length ys \<le> sb_block_size sb" "seg d j (length ys) = ys"
proof -
  let ?ws = "ag_header sb agno spec level addrs i n @ ws"
  obtain c where P: "puts ?ws (replicate (sb_block_size sb) 0) = Ok c"
    and S: "stamp c 52 = Ok d" and far: "list_all (\<lambda>w. 56 \<le> fst w) ws"
    using assms(2) by (auto simp: ag_block_def)
  have mem: "(j, ys) \<in> set ?ws" using assms(3) by simp
  have j: "56 \<le> j" using far assms(3) by (auto simp: list_all_iff)
  show len: "j + length ys \<le> sb_block_size sb" using puts_in_range [OF P mem] by simp
  have "seg c j (length ys) = ys"
    by (rule puts_member [OF P mem])
      (use assms(4) ag_header_in [OF assms(1), of _ agno spec level addrs i n] j len in fastforce)+
  then show "seg d j (length ys) = ys"
    using crc.seal_seg [OF S, of j "length ys"] puts_length [OF P] j len by simp
qed

text \<open>The records of a leaf, as its reader slices them.\<close>

lemma leaf_payload_ok:
  assumes "\<forall>r \<in> set part. length (r_data r) = sp_rec_len spec" and "length part \<le> leaf_max spec bs" and "56 \<le> bs"
  shows "\<exists>ws. leaf_payload spec part = Ok ws \<and> list_all (\<lambda>w. 56 \<le> fst w \<and> fst w + length (snd w) \<le> bs) ws"
proof -
  have fit: "56 + j * sp_rec_len spec + sp_rec_len spec \<le> bs" if "j < length part" for j
  proof -
    have "j * sp_rec_len spec + sp_rec_len spec \<le> leaf_max spec bs * sp_rec_len spec"
      using slot_in [of j "leaf_max spec bs"] that assms(2) by simp
    also have "\<dots> \<le> bs - 56" by (simp add: leaf_max_def)
    finally show ?thesis using assms(3) by linarith
  qed
  have "list_all (\<lambda>w. 56 \<le> fst w \<and> fst w + length (snd w) \<le> bs)
     (map (\<lambda>(j, r). (56 + j * sp_rec_len spec, r_data r)) (enumerate 0 part))"
    using fit assms(1) by (fastforce simp: list_all_iff in_set_enumerate_eq)
  then show ?thesis using assms(1) by (simp add: leaf_payload_def list_all_iff)
qed

lemma leaf_block_records:
  assumes "wf_sb sb" and "leaf_payload spec part = Ok ws" and "ag_block sb agno spec level addrs i n ws d"
    and "j < length part" and "0 < sp_rec_len spec"
  shows "56 + j * sp_rec_len spec + sp_rec_len spec \<le> sb_block_size sb"
    and "seg d (56 + j * sp_rec_len spec) (sp_rec_len spec) = r_data (part ! j)"
proof -
  let ?w = "sp_rec_len spec"
  have len: "length (r_data (part ! k)) = ?w" if "k < length part" for k
    using assms(2) that by (auto simp: leaf_payload_def list_all_length split: if_splits)
  have ws: "ws = map (\<lambda>(j, r). (56 + j * ?w, r_data r)) (enumerate 0 part)"
    using assms(2) by (auto simp: leaf_payload_def split: if_splits)
  have mem: "(56 + j * ?w, r_data (part ! j)) \<in> set ws"
    using assms(4) by (force simp: ws in_set_enumerate_eq)
  have other: "w = (56 + j * ?w, r_data (part ! j)) \<or> fst w + length (snd w) \<le> 56 + j * ?w
      \<or> 56 + j * ?w + length (r_data (part ! j)) \<le> fst w" if "w \<in> set ws" for w
  proof -
    obtain k where k: "k < length part" "w = (56 + k * ?w, r_data (part ! k))"
      using \<open>w \<in> set ws\<close> by (auto simp: ws in_set_enumerate_eq)
    then show ?thesis using slot_disjoint [of j k ?w] len [of k] len [OF assms(4)] by (cases "k = j") auto
  qed
  show "56 + j * ?w + ?w \<le> sb_block_size sb" "seg d (56 + j * ?w) ?w = r_data (part ! j)"
    using ag_block_field [OF assms(1,3) mem other] len [OF assms(4)] by simp_all
qed

text \<open>A node's entries: keys below \<open>ptrs\<close>, pointers from there.\<close>

definition node_ptr_at :: "ag_spec \<Rightarrow> nat \<Rightarrow> nat" where
  "node_ptr_at spec nmax = 56 + nmax * (sp_key_len spec * slots spec)"

definition child_ok :: "ag_spec \<Rightarrow> child \<Rightarrow> bool" where
  "child_ok spec c \<longleftrightarrow> length (fst c) = sp_key_len spec \<and> length (fst (snd c)) = sp_key_len spec"

lemma node_payload_mem:
  assumes "node_payload spec nmax part = Ok ws"
  shows "w \<in> set ws \<longleftrightarrow> (\<exists>k < length part. w \<in> set (node_entry spec nmax (k, part ! k)))"
proof -
  have ws: "ws = concat (map (node_entry spec nmax) (enumerate 0 part))"
    using assms by (simp add: node_payload_def split: if_splits)
  have "set (enumerate 0 part) = (\<lambda>k. (k, part ! k)) ` {..<length part}"
    by (auto simp: in_set_enumerate_eq image_iff)
  then show ?thesis unfolding ws by auto
qed

lemma node_entry_cases:
  assumes "w \<in> set (node_entry spec nmax (k, c))"
  obtains (low) "w = (56 + k * (sp_key_len spec * slots spec), fst c)"
    | (high) "sp_overlapping spec" "w = (56 + k * (sp_key_len spec * slots spec) + sp_key_len spec, fst (snd c))"
    | (ptr) "w = (node_ptr_at spec nmax + k * 4, u32_bytes (snd (snd c)))"
  using assms by (auto simp: node_entry_def node_ptr_at_def Let_def split_beta split: if_splits)

lemma node_payload_set:
  assumes "node_payload spec nmax part = Ok ws" and "w \<in> set ws" and "length part \<le> nmax"
  obtains (key) "56 \<le> fst w" "fst w + length (snd w) \<le> node_ptr_at spec nmax"
    | (ptr) k where "k < length part" "w = (node_ptr_at spec nmax + k * 4, u32_bytes (snd (snd (part ! k))))"
proof -
  let ?s = "sp_key_len spec * slots spec"
  obtain k where k: "k < length part" and w: "w \<in> set (node_entry spec nmax (k, part ! k))"
    using assms(1,2) by (auto simp: node_payload_mem)
  have in_slot: "56 + k * ?s + ?s \<le> node_ptr_at spec nmax"
    using slot_in [of k nmax ?s] k assms(3) by (simp add: node_ptr_at_def)
  have "(\<lambda>(lo, hi, _). length lo = sp_key_len spec \<and> (sp_overlapping spec \<longrightarrow> length hi = sp_key_len spec)) (part ! k)"
    using assms(1) k by (simp add: node_payload_def list_all_length split: if_splits)
  then have lens: "length (fst (part ! k)) = sp_key_len spec"
    "sp_overlapping spec \<Longrightarrow> length (fst (snd (part ! k))) = sp_key_len spec"
    by (simp_all add: split_beta)
  from w show ?thesis
  proof (cases rule: node_entry_cases)
    case low
    then show ?thesis using in_slot lens(1) by (intro key) (auto simp: slots_def split: if_splits)
  next
    case high
    then show ?thesis using in_slot lens(2) by (intro key) (simp_all add: slots_def)
  next
    case ptr
    then show ?thesis using k that(2) by blast
  qed
qed

lemma node_ptrs_fit: "node_ptr_at spec (node_max spec bs) + node_max spec bs * 4 \<le> max bs 56"
proof -
  have "node_max spec bs * (sp_key_len spec * slots spec + 4) \<le> bs - 56" by (simp add: node_max_def)
  then show ?thesis by (simp add: node_ptr_at_def algebra_simps)
qed

lemma node_payload_ok:
  assumes "\<forall>c \<in> set part. child_ok spec c" and "length part \<le> node_max spec bs" and "56 \<le> bs"
  shows "\<exists>ws. node_payload spec (node_max spec bs) part = Ok ws \<and>
    list_all (\<lambda>w. 56 \<le> fst w \<and> fst w + length (snd w) \<le> bs) ws"
proof -
  let ?m = "node_max spec bs"
  have "\<exists>ws. node_payload spec ?m part = Ok ws"
    using assms(1) by (simp add: node_payload_def list_all_iff child_ok_def split_beta)
  then obtain ws where ws: "node_payload spec ?m part = Ok ws" ..
  have fit: "node_ptr_at spec ?m + ?m * 4 \<le> bs" using node_ptrs_fit [of spec bs] assms(3) by simp
  have "56 \<le> fst w \<and> fst w + length (snd w) \<le> bs" if w: "w \<in> set ws" for w
  proof -
    have "k * 4 + 4 \<le> ?m * 4" if "k < length part" for k
      using slot_in [of k ?m 4] that assms(2) by simp
    with ws w assms(2) show ?thesis
      by (cases rule: node_payload_set) (use fit in \<open>fastforce simp: node_ptr_at_def\<close>)+
  qed
  then show ?thesis using ws by (auto simp: list_all_iff)
qed

lemma node_block_ptrs:
  assumes "wf_sb sb" and "node_payload spec nmax part = Ok ws" and "ag_block sb agno spec level addrs i n ws d"
    and "length part \<le> nmax" and "j < length part" and "snd (snd (part ! j)) < 2 ^ 32"
  shows "node_ptr_at spec nmax + j * 4 + 4 \<le> sb_block_size sb"
    and "rd32 d (node_ptr_at spec nmax + j * 4) = snd (snd (part ! j))"
proof -
  let ?p = "node_ptr_at spec nmax"
  let ?w = "(?p + j * 4, u32_bytes (snd (snd (part ! j))))"
  have mem: "?w \<in> set ws"
    using assms(5) by (auto simp: node_payload_mem [OF assms(2)] node_entry_def node_ptr_at_def Let_def split_beta intro!: exI [of _ j])
  have other: "w = ?w \<or> fst w + length (snd w) \<le> ?p + j * 4 \<or> ?p + j * 4 + length (u32_bytes (snd (snd (part ! j)))) \<le> fst w"
    if "w \<in> set ws" for w
  proof -
    from assms(2) that assms(4) show ?thesis
    proof (cases rule: node_payload_set)
      case (ptr k)
      then show ?thesis using slot_disjoint [of j k 4] by (cases "k = j") auto
    qed simp
  qed
  show "?p + j * 4 + 4 \<le> sb_block_size sb" "rd32 d (?p + j * 4) = snd (snd (part ! j))"
    using ag_block_field [OF assms(1,3) mem other] assms(6) by (simp_all add: be_widths)
qed

section \<open>A level\<close>

lemma keys_of_length:
  assumes "\<forall>k \<in> set ks. length (fst k) = sp_key_len spec \<and> length (snd k) = sp_key_len spec"
  shows "length (fst (keys_of spec ks)) = sp_key_len spec \<and> length (snd (keys_of spec ks)) = sp_key_len spec"
proof (cases ks)
  case (Cons k ks')
  have "length (fold (\<lambda>(_, h) best. if sp_greater spec h best then h else best) it best) = sp_key_len spec"
    if "\<forall>k \<in> set it. length (snd k) = sp_key_len spec" "length best = sp_key_len spec" for it best
    using that by (induction it arbitrary: best) auto
  then show ?thesis using assms Cons by (cases k) auto
qed simp

text \<open>What each block of a level holds, by its index.\<close>

definition level_block ::
  "superblock \<Rightarrow> nat \<Rightarrow> ag_spec \<Rightarrow> nat \<Rightarrow> ('a list \<Rightarrow> (nat \<times> byte list) list res) \<Rightarrow>
   ('a \<Rightarrow> byte list \<times> byte list) \<Rightarrow> nat list \<Rightarrow> nat \<times> 'a list \<Rightarrow> child \<times> byte list \<Rightarrow> bool" where
  "level_block sb agno spec level payload keys addrs p b \<longleftrightarrow>
     (let (i, part) = p; (c, buf) = b in
      (fst c, fst (snd c)) = keys_of spec (map keys part) \<and> snd (snd c) = addrs ! i \<and>
      (\<exists>ws. payload part = Ok ws \<and> ag_block sb agno spec level addrs i (length part) ws buf))"

lemma ag_level_ok:
  assumes "wf_sb sb"
    and "\<And>part. part \<in> set (parts (spread (length items) (length addrs)) items) \<Longrightarrow>
      \<exists>ws. payload part = Ok ws \<and> list_all (\<lambda>w. 56 \<le> fst w \<and> fst w + length (snd w) \<le> sb_block_size sb) ws"
  shows "\<exists>built. ag_level sb agno spec level payload keys addrs items = Ok built \<and>
    list_all2 (level_block sb agno spec level payload keys addrs)
      (enumerate 0 (parts (spread (length items) (length addrs)) items)) built"
  unfolding ag_level_def
proof (rule map_res_all2, clarify)
  fix i part
  assume "(i, part) \<in> set (enumerate 0 (parts (spread (length items) (length addrs)) items))"
  then have "part \<in> set (parts (spread (length items) (length addrs)) items)"
    by (auto simp: in_set_enumerate_eq)
  then obtain ws where "payload part = Ok ws"
    "list_all (\<lambda>w. 56 \<le> fst w \<and> fst w + length (snd w) \<le> sb_block_size sb) ws"
    using assms(2) by blast
  then have ws: "payload part = Ok ws" "list_all (\<lambda>w. 56 \<le> fst w) ws"
    "list_all (\<lambda>w. fst w + length (snd w) \<le> sb_block_size sb) ws"
    by (simp_all add: list_all_iff)
  then obtain c d where c: "puts (ag_header sb agno spec level addrs i (length part) @ ws) (replicate (sb_block_size sb) 0) = Ok c"
    "stamp c 52 = Ok d"
    using ag_block_total [OF assms(1) ws(3), of agno spec level addrs i "length part"] by blast
  then have "ag_block sb agno spec level addrs i (length part) ws d" using ws(2) by (auto simp: ag_block_def)
  then show "\<exists>y. and_then (payload part) (\<lambda>ws.
       and_then (puts (ag_header sb agno spec level addrs i (length part) @ ws) (replicate (sb_block_size sb) 0)) (\<lambda>buf.
       and_then (stamp buf 52) (\<lambda>buf. let (low, high) = keys_of spec (map keys part) in
       Ok ((low, high, addrs ! i), buf)))) = Ok y \<and>
     level_block sb agno spec level payload keys addrs (i, part) y"
    using ws(1) c by (auto simp: level_block_def Let_def split: prod.splits)
qed

lemma level_addrs:
  assumes "list_all2 (level_block sb agno spec level payload keys addrs) (enumerate 0 ps) built"
    and "length ps = length addrs"
  shows "map (\<lambda>b. snd (snd (fst b))) built = addrs"
  using assms
  by (intro nth_equalityI)
    (auto simp: list_all2_conv_all_nth level_block_def nth_enumerate_eq Let_def split_beta)

lemma level_children:
  assumes "list_all2 (level_block sb agno spec level payload keys addrs) (enumerate 0 ps) built"
    and "\<And>x. x \<in> set (concat ps) \<Longrightarrow>
      length (fst (keys x)) = sp_key_len spec \<and> length (snd (keys x)) = sp_key_len spec"
  shows "\<forall>b \<in> set built. child_ok spec (fst b)"
proof
  fix b assume "b \<in> set built"
  then obtain i where i: "i < length built" "b = built ! i" by (metis in_set_conv_nth)
  then have b: "level_block sb agno spec level payload keys addrs (i, ps ! i) b" and "ps ! i \<in> set ps"
    using assms(1) by (auto simp: list_all2_conv_all_nth nth_enumerate_eq)
  then have "\<forall>k \<in> set (map keys (ps ! i)). length (fst k) = sp_key_len spec \<and> length (snd k) = sp_key_len spec"
    using assms(2) by auto
  from keys_of_length [OF this] b show "child_ok spec (fst b)"
    by (auto simp: level_block_def child_ok_def Let_def split_beta) (metis fst_conv snd_conv)+
qed

section \<open>The root in the inode\<close>

lemma pairs_mem:
  "w \<in> set (concat (map (\<lambda>(j, key, ptr). [(f j, g key), (h j, g ptr)]) (enumerate 0 xs))) \<longleftrightarrow>
   (\<exists>j < length xs. w = (f j, g (fst (xs ! j))) \<or> w = (h j, g (snd (xs ! j))))"
proof -
  have "set (enumerate 0 xs) = (\<lambda>j. (j, xs ! j)) ` {..<length xs}"
    by (auto simp: in_set_enumerate_eq image_iff)
  then show ?thesis by (auto simp: split_beta)
qed

lemma root_fork_read:
  assumes "bmap_root_fork fork_size level entries = Ok f" and "length entries \<le> bmap_root_max fork_size"
    and "4 \<le> fork_size"
  shows "length f = fork_size" "seg f 0 2 = u16_bytes level" "seg f 2 2 = u16_bytes (length entries)"
    "\<And>j. j < length entries \<Longrightarrow> seg f (4 + bmap_root_max fork_size * 8 + j * 8) 8 = u64_bytes (snd (entries ! j))"
proof -
  let ?m = "bmap_root_max fork_size"
  let ?kp = "concat (map (\<lambda>(j, key, ptr). [(4 + j * 8, u64_bytes key), (4 + ?m * 8 + j * 8, u64_bytes ptr)]) (enumerate 0 entries))"
  let ?ws = "[(0, u16_bytes level), (2, u16_bytes (length entries))] @ ?kp"
  have P: "puts ?ws (replicate fork_size 0) = Ok f" using assms(1) by (simp add: bmap_root_fork_def Let_def)
  note mem = pairs_mem [of _ "\<lambda>j. 4 + j * 8" u64_bytes "\<lambda>j. 4 + ?m * 8 + j * 8" entries]
  show "length f = fork_size" using puts_length [OF P] by simp
  have out: "field ?kp i n acc = acc" if "i + n \<le> 4" for i n acc
    by (rule field_outside) (use that in \<open>auto simp: list_all_iff mem simp del: set_concat set_map\<close>)
  show "seg f 0 2 = u16_bytes level" "seg f 2 2 = u16_bytes (length entries)"
    by (rule puts_field [OF P]; use assms(3) in \<open>simp add: field_append out del: set_concat\<close>)+
  fix j assume j: "j < length entries"
  let ?w = "(4 + ?m * 8 + j * 8, u64_bytes (snd (entries ! j)))"
  have in_ws: "?w \<in> set ?ws" using j mem [of ?w] by auto
  have "seg f (4 + ?m * 8 + j * 8) (length (u64_bytes (snd (entries ! j)))) = u64_bytes (snd (entries ! j))"
  proof (rule puts_member [OF P in_ws])
    show "4 + ?m * 8 + j * 8 + length (u64_bytes (snd (entries ! j))) \<le> length (replicate fork_size (0 :: byte))"
      using puts_in_range [OF P in_ws] by simp
    fix w assume "w \<in> set ?ws"
    then consider "fst w + length (snd w) \<le> 4" | k where "k < length entries" "w = (4 + k * 8, u64_bytes (fst (entries ! k)))"
      | k where "k < length entries" "w = (4 + ?m * 8 + k * 8, u64_bytes (snd (entries ! k)))"
      using mem [of w] by auto
    then show "w = ?w \<or> fst w + length (snd w) \<le> 4 + ?m * 8 + j * 8 \<or>
        4 + ?m * 8 + j * 8 + length (u64_bytes (snd (entries ! j))) \<le> fst w"
    proof cases
      case (2 k)
      then show ?thesis using slot_in [of k ?m 8] assms(2) by simp
    next
      case (3 k)
      then show ?thesis using slot_disjoint [of j k 8] by (cases "k = j") auto
    qed simp
  qed
  then show "seg f (4 + ?m * 8 + j * 8) 8 = u64_bytes (snd (entries ! j))" by simp
qed

lemma root_fork_total:
  assumes "length entries \<le> bmap_root_max fork_size" and "4 \<le> fork_size"
  shows "\<exists>f. bmap_root_fork fork_size level entries = Ok f"
proof -
  let ?m = "bmap_root_max fork_size"
  have fit: "4 + ?m * 16 \<le> fork_size" using assms(2) unfolding bmap_root_max_def
    by (metis add.commute add_le_cancel_left div_times_less_eq_dividend le_add_diff_inverse2)
  have "4 + j * 8 + 8 \<le> fork_size" "4 + ?m * 8 + j * 8 + 8 \<le> fork_size" if "j < length entries" for j
    using slot_in [of j ?m 8] that assms(1) fit by simp_all
  then show ?thesis unfolding bmap_root_fork_def Let_def using assms(2)
    by (intro puts_total) (auto simp: list_all_iff in_set_enumerate_eq)
qed

section \<open>Properties\<close>

text \<open>
  The root of an extent tree is read back from the inode: for up to as many entries as
  the fork holds, \<open>bmap_root_fork\<close> succeeds, fills the fork, and \<open>btree_root\<close> returns its
  level and the child blocks in order.
\<close>

lemma bmap_root_roundtrip:
  assumes "4 \<le> fork_size" and "0 < level" and "level < 2 ^ 16" and "entries \<noteq> []"
    and "length entries \<le> bmap_root_max fork_size" and "length entries < 2 ^ 16" and "\<forall>e \<in> set entries. snd e < 2 ^ 64"
  shows "\<exists>f. bmap_root_fork fork_size level entries = Ok f \<and> length f = fork_size \<and>
    btree_root f = Ok (level, map snd entries)"
proof -
  let ?m = "bmap_root_max fork_size"
  obtain f where f: "bmap_root_fork fork_size level entries = Ok f" using root_fork_total [OF assms(5,1)] by blast
  note r = root_fork_read [OF f assms(5,1)]
  have fit: "4 + ?m * 16 \<le> fork_size" using assms(1) unfolding bmap_root_max_def
    by (metis add.commute add_le_cancel_left div_times_less_eq_dividend le_add_diff_inverse2)
  have "map_res (\<lambda>i. be64 f (4 + ?m * 8 + i * 8)) [0..<length entries] = Ok (map (\<lambda>j. snd (entries ! j)) [0..<length entries])"
  proof (rule map_res_Ok)
    fix j assume "j \<in> set [0..<length entries]"
    then have j: "j < length entries" by simp
    have "4 + ?m * 8 + j * 8 + 8 \<le> length f" using slot_in [of j ?m 8] j assms(5) fit r(1) by simp
    then show "be64 f (4 + ?m * 8 + j * 8) = Ok (snd (entries ! j))"
      using r(4) [OF j] assms(7) j by (simp add: be_widths)
  qed
  also have "map (\<lambda>j. snd (entries ! j)) [0..<length entries] = map snd entries"
    by (rule nth_equalityI) simp_all
  finally have "btree_root f = Ok (level, map snd entries)"
    using r(1-3) assms(1-6) by (simp add: btree_root_def be_widths bmap_root_max_def Let_def)
  then show ?thesis using f r(1) by blast
qed

lemma bmap_root_roundtrip_witness:
  "\<exists>f. bmap_root_fork 336 1 [(0, 77), (5, 99)] = Ok f \<and> btree_root f = Ok (1, [77, 99])"
  using bmap_root_roundtrip [of 336 1 "[(0, 77), (5, 99)]"] by (auto simp: bmap_root_max_def)

end
