(* ===== verification/Device.thy ===== *)
theory Device
  imports Bytes
begin

text \<open>
  The device seam (\<open>src/src/device.rs\<close>). A \<open>BlockDevice\<close> is the record of its operations
  over a type of devices; the laws a filesystem relies on are the locale \<open>block_device\<close>,
  and \<open>MemDevice\<close> is proved to satisfy them. \<open>FileDevice\<close> is modelled over the operating
  system's file, whose operations are parameters.
\<close>

section \<open>The trait\<close>

record 'd device_ops =
  dev_size :: "'d \<Rightarrow> nat"
  dev_read_at :: "'d \<Rightarrow> nat \<Rightarrow> nat \<Rightarrow> byte list res"
  dev_write_at :: "'d \<Rightarrow> nat \<Rightarrow> byte list \<Rightarrow> 'd res"
  dev_flush :: "'d \<Rightarrow> 'd res"

text \<open>The default methods of the trait: a read-only device, with nothing to flush.\<close>

definition default_write_at :: "'d \<Rightarrow> nat \<Rightarrow> byte list \<Rightarrow> 'd res" where
  "default_write_at d offset buf = Err Unsupported"

definition default_flush :: "'d \<Rightarrow> 'd res" where
  "default_flush d = Ok d"

definition check_range_for :: "nat \<Rightarrow> nat \<Rightarrow> nat \<Rightarrow> unit res" where
  "check_range_for sz offset len =
     (if offset + len < 2 ^ 64 \<and> offset + len \<le> sz then Ok () else Err Io)"

definition check_range :: "nat \<Rightarrow> nat \<Rightarrow> nat \<Rightarrow> unit res" where
  "check_range sz offset len = check_range_for sz offset len"

section \<open>MemDevice\<close>

record mem_device =
  mem_data :: "byte list"
  mem_size :: nat

definition mem_new :: "byte list \<Rightarrow> mem_device" where
  "mem_new data = \<lparr>mem_data = data, mem_size = length data\<rparr>"

definition mem_into_inner :: "mem_device \<Rightarrow> byte list" where
  "mem_into_inner d = mem_data d"

definition mem_read_at :: "mem_device \<Rightarrow> nat \<Rightarrow> nat \<Rightarrow> byte list res" where
  "mem_read_at d offset len =
     and_then (check_range (mem_size d) offset len) (\<lambda>_. get (mem_data d) offset len)"

definition mem_write_at :: "mem_device \<Rightarrow> nat \<Rightarrow> byte list \<Rightarrow> mem_device res" where
  "mem_write_at d offset buf =
     and_then (check_range_for (mem_size d) offset (length buf)) (\<lambda>_.
     map_ok (\<lambda>data. d\<lparr>mem_data := data\<rparr>) (copy_in (mem_data d) offset buf))"

definition mem_ops :: "mem_device device_ops" where
  "mem_ops = \<lparr>dev_size = mem_size, dev_read_at = mem_read_at,
              dev_write_at = mem_write_at, dev_flush = default_flush\<rparr>"

section \<open>FileDevice\<close>

text \<open>
  The file underneath is the operating system's: seeking and reading exactly, seeking and
  writing all, and flushing with \<open>sync_data\<close> are parameters.
\<close>

record 'f file_device =
  fd_file :: 'f
  fd_size :: nat
  fd_writable :: bool

definition file_read_at ::
  "('f \<Rightarrow> nat \<Rightarrow> nat \<Rightarrow> byte list res) \<Rightarrow> 'f file_device \<Rightarrow> nat \<Rightarrow> nat \<Rightarrow> byte list res" where
  "file_read_at seek_read_exact d offset len =
     and_then (check_range (fd_size d) offset len) (\<lambda>_. seek_read_exact (fd_file d) offset len)"

definition file_write_at ::
  "('f \<Rightarrow> nat \<Rightarrow> byte list \<Rightarrow> 'f res) \<Rightarrow> 'f file_device \<Rightarrow> nat \<Rightarrow> byte list \<Rightarrow> 'f file_device res" where
  "file_write_at seek_write_all d offset buf =
     (if \<not> fd_writable d then Err Unsupported
      else and_then (check_range_for (fd_size d) offset (length buf)) (\<lambda>_.
           map_ok (\<lambda>f. d\<lparr>fd_file := f\<rparr>) (seek_write_all (fd_file d) offset buf)))"

definition file_flush :: "('f \<Rightarrow> 'f res) \<Rightarrow> 'f file_device \<Rightarrow> 'f file_device res" where
  "file_flush sync d =
     (if fd_writable d then map_ok (\<lambda>f. d\<lparr>fd_file := f\<rparr>) (sync (fd_file d)) else Ok d)"

text \<open>
  The operating system's file, as the code uses it: opening a path for reading or for both,
  seeking to the end, a seek followed by \<open>read_exact\<close> or \<open>write_all\<close>, and the flush.
\<close>

record 'f os_file =
  os_open :: "byte list \<Rightarrow> bool \<Rightarrow> 'f res"
  os_seek_end :: "'f \<Rightarrow> nat res"
  os_read :: "'f \<Rightarrow> nat \<Rightarrow> nat \<Rightarrow> byte list res"
  os_write :: "'f \<Rightarrow> nat \<Rightarrow> byte list \<Rightarrow> 'f res"
  os_sync :: "'f \<Rightarrow> 'f res"

definition file_open_with :: "'f os_file \<Rightarrow> byte list \<Rightarrow> bool \<Rightarrow> 'f file_device res" where
  "file_open_with os path writable =
     and_then (os_open os path writable) (\<lambda>f.
     and_then (os_seek_end os f) (\<lambda>sz.
     Ok \<lparr>fd_file = f, fd_size = sz, fd_writable = writable\<rparr>))"

definition file_open :: "'f os_file \<Rightarrow> byte list \<Rightarrow> 'f file_device res" where
  "file_open os path = file_open_with os path False"

definition file_open_rw :: "'f os_file \<Rightarrow> byte list \<Rightarrow> 'f file_device res" where
  "file_open_rw os path = file_open_with os path True"

definition file_ops :: "'f os_file \<Rightarrow> 'f file_device device_ops" where
  "file_ops os = \<lparr>dev_size = fd_size, dev_read_at = file_read_at (os_read os),
                  dev_write_at = file_write_at (os_write os), dev_flush = file_flush (os_sync os)\<rparr>"

section \<open>Boxed and shared devices\<close>

text \<open>The implementations for \<open>Box<T>\<close> and \<open>Arc<T>\<close> hand every method on to the device inside.\<close>

definition box_ops :: "('b \<Rightarrow> 'd) \<Rightarrow> ('d \<Rightarrow> 'b) \<Rightarrow> 'd device_ops \<Rightarrow> 'b device_ops" where
  "box_ops inner wrap ops =
     \<lparr>dev_size = (\<lambda>b. dev_size ops (inner b)),
      dev_read_at = (\<lambda>b offset len. dev_read_at ops (inner b) offset len),
      dev_write_at = (\<lambda>b offset buf. map_ok wrap (dev_write_at ops (inner b) offset buf)),
      dev_flush = (\<lambda>b. map_ok wrap (dev_flush ops (inner b)))\<rparr>"

section \<open>Runs of writes\<close>

text \<open>The loop \<open>for (at, buf) in writes\<close> with which a volume writes blocks out.\<close>

definition write_all :: "'d device_ops \<Rightarrow> (nat \<times> byte list) list \<Rightarrow> 'd \<Rightarrow> 'd res" where
  "write_all ops writes d = fold_res (\<lambda>(at, buf) d. dev_write_at ops d at buf) writes d"

text \<open>Two ranges of bytes that do not meet.\<close>

definition apart :: "nat \<times> byte list \<Rightarrow> nat \<times> byte list \<Rightarrow> bool" where
  "apart v w \<longleftrightarrow> fst v + length (snd v) \<le> fst w \<or> fst w + length (snd w) \<le> fst v"

section \<open>The interface\<close>

text \<open>
  A well-formed device (\<open>invar\<close>) holds \<open>content\<close>, \<open>size\<close> bytes of it. Reads and writes
  in range succeed, out of range they fail and never panic.
\<close>

locale block_device =
  fixes ops :: "'d device_ops"
    and content :: "'d \<Rightarrow> byte list"
    and invar :: "'d \<Rightarrow> bool"
  assumes size_content: "invar d \<Longrightarrow> dev_size ops d = length (content d)"
    and size_bound: "invar d \<Longrightarrow> length (content d) < 2 ^ 64"
    and read_at: "invar d \<Longrightarrow> dev_read_at ops d i n =
          (if i + n \<le> length (content d) then Ok (seg (content d) i n) else Err Io)"
    and write_at: "invar d \<Longrightarrow> i + length buf \<le> length (content d) \<Longrightarrow>
          \<exists>e. dev_write_at ops d i buf = Ok e \<and> invar e \<and> content e = patch (content d) i buf"
    and write_at_out: "invar d \<Longrightarrow> length (content d) < i + length buf \<Longrightarrow>
          dev_write_at ops d i buf = Err Io"
begin

lemma write_at_Ok:
  assumes "invar d" and "dev_write_at ops d i buf = Ok e"
  shows "invar e" and "content e = patch (content d) i buf" and "i + length buf \<le> length (content d)"
proof -
  show le: "i + length buf \<le> length (content d)"
    using assms write_at_out [of d i buf] by (cases "length (content d) < i + length buf") auto
  show "invar e" and "content e = patch (content d) i buf"
    using write_at [OF assms(1) le] assms(2) by auto
qed

lemma size_write: "invar d \<Longrightarrow> dev_write_at ops d i buf = Ok e \<Longrightarrow> dev_size ops e = dev_size ops d"
  by (simp add: write_at_Ok size_content)

lemma read_after_write:
  assumes "invar d" and "dev_write_at ops d i buf = Ok e"
  shows "dev_read_at ops e i (length buf) = Ok buf"
  using write_at_Ok [OF assms] by (simp add: read_at)

lemma read_other:
  assumes "invar d" and "dev_write_at ops d i buf = Ok e"
    and "j + n \<le> i \<or> i + length buf \<le> j"
  shows "dev_read_at ops e j n = dev_read_at ops d j n"
  using write_at_Ok [OF assms(1,2)] assms by (simp add: read_at seg_patch_other)

text \<open>A run of writes in range succeeds; what it does not touch stays, and what it writes is read back.\<close>

lemma write_all_ok:
  assumes "invar d" and "list_all (\<lambda>w. fst w + length (snd w) \<le> length (content d)) ws"
  shows "\<exists>e. write_all ops ws d = Ok e \<and> invar e \<and> length (content e) = length (content d) \<and>
    (\<forall>v. list_all (apart v) ws \<longrightarrow> dev_read_at ops e (fst v) (length (snd v)) = dev_read_at ops d (fst v) (length (snd v)))"
  using assms
proof (induction ws arbitrary: d)
  case (Cons w ws)
  obtain i buf where w: "w = (i, buf)" by (cases w)
  obtain d1 where d1: "dev_write_at ops d i buf = Ok d1" "invar d1" "content d1 = patch (content d) i buf"
    using write_at [OF Cons.prems(1)] Cons.prems(2) w by auto
  have len: "length (content d1) = length (content d)" using d1(3) Cons.prems(2) w by simp
  obtain e where "write_all ops ws d1 = Ok e" "invar e" "length (content e) = length (content d1)"
    and frame: "\<forall>v. list_all (apart v) ws \<longrightarrow>
      dev_read_at ops e (fst v) (length (snd v)) = dev_read_at ops d1 (fst v) (length (snd v))"
    using Cons.IH [OF d1(2)] Cons.prems(2) len by auto
  moreover have "dev_read_at ops d1 (fst v) (length (snd v)) = dev_read_at ops d (fst v) (length (snd v))" if "apart v w" for v
    using that by (intro read_other [OF Cons.prems(1) d1(1)]) (auto simp: apart_def w)
  ultimately show ?case using d1(1) len by (auto simp: write_all_def w)
qed (simp add: write_all_def)

lemma write_all_read:
  assumes "invar d" and "list_all (\<lambda>w. fst w + length (snd w) \<le> length (content d)) ws" and "sorted_wrt apart ws"
  shows "\<exists>e. write_all ops ws d = Ok e \<and> invar e \<and> (\<forall>w \<in> set ws. dev_read_at ops e (fst w) (length (snd w)) = Ok (snd w))"
  using assms
proof (induction ws arbitrary: d)
  case (Cons w ws)
  obtain i buf where w: "w = (i, buf)" by (cases w)
  obtain d1 where d1: "dev_write_at ops d i buf = Ok d1" "invar d1" "content d1 = patch (content d) i buf"
    using write_at [OF Cons.prems(1)] Cons.prems(2) w by auto
  have ws: "list_all (\<lambda>w. fst w + length (snd w) \<le> length (content d1)) ws"
    using d1(3) Cons.prems(2) w by simp
  obtain e where e: "write_all ops ws d1 = Ok e" "invar e"
    "\<forall>w \<in> set ws. dev_read_at ops e (fst w) (length (snd w)) = Ok (snd w)"
    using Cons.IH [OF d1(2) ws] Cons.prems(3) by auto
  have "list_all (apart w) ws" using Cons.prems(3) by (auto simp: list_all_iff)
  then have "dev_read_at ops e i (length buf) = dev_read_at ops d1 i (length buf)"
    using write_all_ok [OF d1(2) ws] e(1) w by auto
  then have "dev_read_at ops e i (length buf) = Ok buf" using read_after_write [OF Cons.prems(1) d1(1)] by simp
  then show ?case using d1(1) e by (simp add: write_all_def w)
qed (simp add: write_all_def)

lemma read_not_Panic: "invar d \<Longrightarrow> dev_read_at ops d i n \<noteq> Panic"
  by (simp add: read_at)

lemma read_length: "invar d \<Longrightarrow> dev_read_at ops d i n = Ok b \<Longrightarrow> length b = n"
  by (auto simp: read_at split: if_splits)

end

definition mem_inv :: "mem_device \<Rightarrow> bool" where
  "mem_inv d \<longleftrightarrow> mem_size d = length (mem_data d) \<and> length (mem_data d) < 2 ^ 64"

lemma mem_new_inv: "length data < 2 ^ 64 \<Longrightarrow> mem_inv (mem_new data)"
  by (simp add: mem_new_def mem_inv_def)

interpretation mem: block_device mem_ops mem_data mem_inv
proof unfold_locales
  fix d i n and buf :: "byte list"
  assume d: "mem_inv d"
  show "dev_size mem_ops d = length (mem_data d)" "length (mem_data d) < 2 ^ 64"
    using d by (simp_all add: mem_ops_def mem_inv_def)
  show "dev_read_at mem_ops d i n = (if i + n \<le> length (mem_data d) then Ok (seg (mem_data d) i n) else Err Io)"
    using d by (simp add: mem_ops_def mem_inv_def mem_read_at_def check_range_def check_range_for_def)
  show "i + length buf \<le> length (mem_data d) \<Longrightarrow>
      \<exists>e. dev_write_at mem_ops d i buf = Ok e \<and> mem_inv e \<and> mem_data e = patch (mem_data d) i buf"
    using d by (simp add: mem_ops_def mem_inv_def mem_write_at_def check_range_for_def)
  show "length (mem_data d) < i + length buf \<Longrightarrow> dev_write_at mem_ops d i buf = Err Io"
    using d by (simp add: mem_ops_def mem_inv_def mem_write_at_def check_range_for_def)
qed

section \<open>A file is a device\<close>

text \<open>
  What the operating system documents of a file whose bytes are \<open>bytes f\<close>: the end is at its
  length, a range inside it is read and, where it was opened for writing (\<open>wr\<close>), written.
\<close>

definition file_laws :: "'f os_file \<Rightarrow> ('f \<Rightarrow> byte list) \<Rightarrow> ('f \<Rightarrow> bool) \<Rightarrow> bool" where
  "file_laws os bytes wr \<longleftrightarrow>
     (\<forall>path f. os_open os path True = Ok f \<longrightarrow> wr f) \<and>
     (\<forall>f. os_seek_end os f = Ok (length (bytes f))) \<and>
     (\<forall>f i n. i + n \<le> length (bytes f) \<longrightarrow> os_read os f i n = Ok (seg (bytes f) i n)) \<and>
     (\<forall>f i buf. wr f \<longrightarrow> i + length buf \<le> length (bytes f) \<longrightarrow>
        (\<exists>g. os_write os f i buf = Ok g \<and> wr g \<and> bytes g = patch (bytes f) i buf))"

definition file_inv :: "('f \<Rightarrow> byte list) \<Rightarrow> ('f \<Rightarrow> bool) \<Rightarrow> 'f file_device \<Rightarrow> bool" where
  "file_inv bytes wr d \<longleftrightarrow>
     fd_writable d \<and> wr (fd_file d) \<and> fd_size d = length (bytes (fd_file d)) \<and> fd_size d < 2 ^ 64"

lemma file_block_device:
  assumes "file_laws os bytes wr"
  shows "block_device (file_ops os) (\<lambda>d. bytes (fd_file d)) (file_inv bytes wr)"
proof
  fix d :: "'a file_device" and i n and buf :: "byte list"
  assume d: "file_inv bytes wr d"
  let ?c = "bytes (fd_file d)"
  show "dev_size (file_ops os) d = length ?c" "length ?c < 2 ^ 64"
    using d by (simp_all add: file_ops_def file_inv_def)
  show "dev_read_at (file_ops os) d i n = (if i + n \<le> length ?c then Ok (seg ?c i n) else Err Io)"
    using d assms by (simp add: file_ops_def file_inv_def file_laws_def file_read_at_def check_range_def check_range_for_def)
  show "length ?c < i + length buf \<Longrightarrow> dev_write_at (file_ops os) d i buf = Err Io"
    using d by (simp add: file_ops_def file_inv_def file_write_at_def check_range_for_def)
  assume i: "i + length buf \<le> length ?c"
  then obtain g where "os_write os (fd_file d) i buf = Ok g" "wr g" "bytes g = patch ?c i buf"
    using d assms unfolding file_laws_def file_inv_def by blast
  then show "\<exists>e. dev_write_at (file_ops os) d i buf = Ok e \<and> file_inv bytes wr e \<and> bytes (fd_file e) = patch ?c i buf"
    using d i by (auto simp: file_ops_def file_inv_def file_write_at_def check_range_for_def)
qed

lemma file_opened_rw:
  assumes "file_laws os bytes wr" and "file_open_rw os path = Ok d" and "length (bytes (fd_file d)) < 2 ^ 64"
  shows "file_inv bytes wr d"
  using assms by (auto simp: file_open_rw_def file_open_with_def file_inv_def file_laws_def res_simps)

lemma file_read_only: "file_open os path = Ok d \<Longrightarrow> dev_write_at (file_ops os) d i buf = Err Unsupported"
  by (auto simp: file_open_def file_open_with_def file_ops_def file_write_at_def res_simps)

text \<open>A device behind a box is one where the device inside is.\<close>

lemma box_block_device:
  assumes "block_device ops content invar" and "\<And>d. inner (wrap d) = d"
  shows "block_device (box_ops inner wrap ops) (\<lambda>b. content (inner b)) (\<lambda>b. invar (inner b))"
proof
  fix b i n and buf :: "byte list"
  assume b: "invar (inner b)"
  show "length (content (inner b)) < 2 ^ 64" by (rule block_device.size_bound [OF assms(1) b])
  show "i + length buf \<le> length (content (inner b)) \<Longrightarrow>
      \<exists>e. dev_write_at (box_ops inner wrap ops) b i buf = Ok e \<and> invar (inner e) \<and> content (inner e) = patch (content (inner b)) i buf"
    using block_device.write_at [OF assms(1) b, of i buf] assms(2) by (auto simp: box_ops_def)
qed (simp_all add: box_ops_def block_device.size_content [OF assms(1)] block_device.read_at [OF assms(1)] block_device.write_at_out [OF assms(1)])

section \<open>Properties\<close>

text \<open>
  A write to a \<open>MemDevice\<close> that succeeds is read back exactly, leaves every other range
  as it was and keeps the device's size; one out of range is an I/O error.
\<close>

lemma mem_write_read:
  assumes "mem_inv d"
  shows "if i + length buf \<le> length (mem_data d)
         then \<exists>e. mem_write_at d i buf = Ok e \<and> mem_inv e \<and> mem_size e = mem_size d \<and>
                mem_read_at e i (length buf) = Ok buf \<and>
                (\<forall>j n. j + n \<le> i \<or> i + length buf \<le> j \<longrightarrow> mem_read_at e j n = mem_read_at d j n)
         else mem_write_at d i buf = Err Io"
proof (cases "i + length buf \<le> length (mem_data d)")
  case True
  then obtain e where e: "dev_write_at mem_ops d i buf = Ok e"
    using mem.write_at [OF assms] by blast
  have "mem_inv e" "dev_size mem_ops e = dev_size mem_ops d" "dev_read_at mem_ops e i (length buf) = Ok buf"
    "\<forall>j n. j + n \<le> i \<or> i + length buf \<le> j \<longrightarrow> dev_read_at mem_ops e j n = dev_read_at mem_ops d j n"
    using mem.write_at_Ok(1) [OF assms e] mem.size_write [OF assms e] mem.read_after_write [OF assms e]
      mem.read_other [OF assms e] by auto
  with True e show ?thesis by (auto simp: mem_ops_def)
next
  case False
  then show ?thesis using mem.write_at_out [OF assms] by (simp add: mem_ops_def)
qed

lemma mem_write_read_witness:
  "mem_inv (mem_new [1, 2, 3]) \<and>
   (\<exists>e. mem_write_at (mem_new [1, 2, 3]) 1 [9] = Ok e \<and> mem_read_at e 1 1 = Ok [9] \<and>
        mem_read_at e 0 1 = Ok [1])"
proof -
  have i: "mem_inv (mem_new [1, 2, 3])" by (rule mem_new_inv) simp
  have r: "mem_read_at (mem_new [1, 2, 3]) 0 1 = Ok [1]"
    by (simp add: mem_read_at_def mem_new_def check_range_def check_range_for_def seg_def)
  from mem_write_read [OF i, of 1 "[9]"] show ?thesis
    using i r by (auto simp: mem_new_def)
qed

text \<open>
  C20. An image opened for reading and writing keeps the contract of a device that the filesystem
  is proved against: over a file whose end, reads and writes behave as the operating system
  documents, \<open>FileDevice::open_rw\<close> gives a well-formed device, and on every such device reads in range
  give the file's bytes, writes in range change just the bytes written, anything out of range is an
  I/O error, and the contract goes on holding after a write. An image opened by
  \<open>FileDevice::open\<close> refuses every write.
\<close>

theorem file_device_contract:
  assumes "file_laws os bytes wr" and "file_open_rw os path = Ok d" and "length (bytes (fd_file d)) < 2 ^ 64"
    and "file_open os path = Ok r"
  shows "block_device (file_ops os) (\<lambda>d. bytes (fd_file d)) (file_inv bytes wr) \<and> file_inv bytes wr d \<and>
    dev_write_at (file_ops os) r i buf = Err Unsupported"
  using file_block_device [OF assms(1)] file_opened_rw [OF assms(1-3)] file_read_only [OF assms(4)] by simp

text \<open>A file that is its bytes, and whether it can be written.\<close>

definition demo_os :: "(byte list \<times> bool) os_file" where
  "demo_os = \<lparr>os_open = (\<lambda>path w. Ok (replicate 9 0, w)), os_seek_end = (\<lambda>f. Ok (length (fst f))),
     os_read = (\<lambda>f i n. get (fst f) i n),
     os_write = (\<lambda>f i buf. if snd f then map_ok (\<lambda>b. (b, True)) (copy_in (fst f) i buf) else Err Io), os_sync = Ok\<rparr>"

theorem file_device_contract_witness:
  "\<exists>d e. file_open_rw demo_os [] = Ok d \<and> dev_write_at (file_ops demo_os) d 3 [1, 2] = Ok e \<and>
     dev_read_at (file_ops demo_os) e 2 3 = Ok [0, 1, 2]"
proof -
  have laws: "file_laws demo_os fst snd" by (simp add: file_laws_def demo_os_def)
  obtain d r where d: "file_open_rw demo_os [] = Ok d" "file_open demo_os [] = Ok r" "fst (fd_file d) = replicate 9 0"
    by (simp add: file_open_rw_def file_open_def file_open_with_def demo_os_def)
  then have dev: "block_device (file_ops demo_os) (\<lambda>d. fst (fd_file d)) (file_inv fst snd)" and inv: "file_inv fst snd d"
    using file_device_contract [OF laws d(1) _ d(2)] by simp_all
  obtain e where "dev_write_at (file_ops demo_os) d 3 [1, 2] = Ok e" "file_inv fst snd e"
    "fst (fd_file e) = patch (replicate 9 0) 3 [1, 2]"
    using block_device.write_at [OF dev inv, of 3 "[1, 2]"] d(3) by auto
  moreover from this have "dev_read_at (file_ops demo_os) e 2 3 = Ok [0, 1, 2]"
    using block_device.read_at [OF dev, of e 2 3] by (simp add: patch_def seg_def numeral_eq_Suc)
  ultimately show ?thesis using d(1) by blast
qed

end
