(* ===== verification/AgWalk.thy ===== *)
theory AgWalk
  imports Btree Device
begin

text \<open>
  Reading an allocation group's B+tree (\<open>walk_tree\<close> of \<open>src/src/alloc.rs\<close>): a depth-first
  walk with an explicit stack that returns every record and every block. The walk counts
  the blocks it has read and gives up past \<open>2 ^ 24\<close>, which is why it ends on any device,
  cyclic pointers included. The main lemma is that a tree \<open>build_ag\<close> laid out is read back
  record for record.
\<close>

unbundle bit_operations_syntax

section \<open>The walk\<close>

text \<open>One block, checked: its records when it is a leaf, its children when it is a node.\<close>

definition tree_block :: "ag_spec \<Rightarrow> nat \<Rightarrow> byte list \<Rightarrow> nat \<Rightarrow> (byte list list + nat list) res" where
  "tree_block spec bs buf want =
     and_then (be32 buf 0) (\<lambda>magic.
     if magic \<noteq> sp_magic spec \<or> \<not> verify buf 52 then Err Corrupt
     else and_then (be16 buf 4) (\<lambda>level.
     and_then (be16 buf 6) (\<lambda>n.
     if level \<noteq> want then Err Corrupt
     else if level = 0 then
       if n > leaf_max spec bs then Err Corrupt
       else map_ok Inl (map_res (\<lambda>i. get buf (SHORT_HDR + i * sp_rec_len spec) (sp_rec_len spec)) [0..<n])
     else
       let mx = node_max spec bs; slot = sp_key_len spec * slots spec; ptrs = SHORT_HDR + mx * slot in
       if n > mx then Err Corrupt
       else map_ok Inr (map_res (\<lambda>i. be32 buf (ptrs + i * 4)) [0..<n]))))"

function walk_loop ::
  "'d device_ops \<Rightarrow> 'd \<Rightarrow> superblock \<Rightarrow> nat \<Rightarrow> ag_spec \<Rightarrow> (nat \<times> nat) list \<Rightarrow> byte list list \<Rightarrow> nat list \<Rightarrow>
   (byte list list \<times> nat list) res" where
  "walk_loop ops dev sb agno spec [] recs blocks = Ok (recs, blocks)"
| "walk_loop ops dev sb agno spec ((agbno, want) # stack) recs blocks =
     and_then (ag_len sb agno) (\<lambda>len.
     if agbno \<ge> len \<or> length blocks > 2 ^ 24 then Err Corrupt
     else and_then (dev_read_at ops dev (agb_to_byte sb agno agbno) (sb_block_size sb)) (\<lambda>buf.
     and_then (tree_block spec (sb_block_size sb) buf want) (\<lambda>block.
     case block of
       Inl rs \<Rightarrow> walk_loop ops dev sb agno spec stack (recs @ rs) (blocks @ [agbno])
     | Inr ptrs \<Rightarrow> walk_loop ops dev sb agno spec (map (\<lambda>p. (p, want - 1)) ptrs @ stack) recs (blocks @ [agbno]))))"
  by pat_completeness auto
termination
  by (relation "measure (\<lambda>(ops, dev, sb, agno, spec, stack, recs, blocks). 2 ^ 24 + 1 - length blocks)") auto

definition walk_tree ::
  "'d device_ops \<Rightarrow> 'd \<Rightarrow> superblock \<Rightarrow> nat \<Rightarrow> ag_spec \<Rightarrow> nat \<Rightarrow> nat \<Rightarrow> (byte list list \<times> nat list) res" where
  "walk_tree ops dev sb agno spec root levels =
     (if levels = 0 \<or> levels > 9 then Err Corrupt
      else walk_loop ops dev sb agno spec [(root, levels - 1)] [] [])"

section \<open>The five trees\<close>

text \<open>Slices compare byte by byte; reverse mappings by block, owner and offset.\<close>

fun bytes_greater :: "byte list \<Rightarrow> byte list \<Rightarrow> bool" where
  "bytes_greater [] bs = False"
| "bytes_greater (a # as) [] = True"
| "bytes_greater (a # as) (b # bs) = (a > b \<or> a = b \<and> bytes_greater as bs)"

abbreviation (input) "OFF_MASK \<equiv> 2 ^ 54 - 1 :: nat"

definition rmap_key_greater :: "byte list \<Rightarrow> byte list \<Rightarrow> bool" where
  "rmap_key_greater a b =
     (let k = (\<lambda>x. (rd32 x 0, rd64 x 4, rd64 x 12 AND OFF_MASK));
          (s, w, f) = k a; (s', w', f') = k b in
      s > s' \<or> s = s' \<and> (w > w' \<or> w = w' \<and> f > f'))"

definition BNO :: ag_spec where
  "BNO = \<lparr>sp_magic = 0x41423342, sp_rec_len = 8, sp_key_len = 8, sp_overlapping = False, sp_greater = bytes_greater\<rparr>"

definition CNT :: ag_spec where
  "CNT = \<lparr>sp_magic = 0x41423343, sp_rec_len = 8, sp_key_len = 8, sp_overlapping = False, sp_greater = bytes_greater\<rparr>"

definition INOBT :: ag_spec where
  "INOBT = \<lparr>sp_magic = 0x49414233, sp_rec_len = 16, sp_key_len = 4, sp_overlapping = False, sp_greater = bytes_greater\<rparr>"

definition FINOBT :: ag_spec where
  "FINOBT = \<lparr>sp_magic = 0x46494233, sp_rec_len = 16, sp_key_len = 4, sp_overlapping = False, sp_greater = bytes_greater\<rparr>"

definition RMAP :: ag_spec where
  "RMAP = \<lparr>sp_magic = 0x524d4233, sp_rec_len = 24, sp_key_len = 20, sp_overlapping = True, sp_greater = rmap_key_greater\<rparr>"

lemmas spec_defs = BNO_def CNT_def INOBT_def FINOBT_def RMAP_def

section \<open>Trees on a device\<close>

text \<open>
  The abstract tree: at \<open>level\<close>, the subtree at a block holds the records \<open>rs\<close> in order and
  takes the blocks \<open>bs\<close>.
\<close>

definition block_at :: "'d device_ops \<Rightarrow> 'd \<Rightarrow> superblock \<Rightarrow> nat \<Rightarrow> ag_spec \<Rightarrow> nat \<Rightarrow> nat \<Rightarrow> byte list list + nat list \<Rightarrow> bool" where
  "block_at ops dev sb agno spec level a block \<longleftrightarrow>
     (\<exists>len buf. ag_len sb agno = Ok len \<and> a < len \<and>
        dev_read_at ops dev (agb_to_byte sb agno a) (sb_block_size sb) = Ok buf \<and>
        tree_block spec (sb_block_size sb) buf level = Ok block)"

primrec stored ::
  "'d device_ops \<Rightarrow> 'd \<Rightarrow> superblock \<Rightarrow> nat \<Rightarrow> ag_spec \<Rightarrow> nat \<Rightarrow> nat \<Rightarrow> byte list list \<times> nat list \<Rightarrow> bool" where
  "stored ops dev sb agno spec 0 a x \<longleftrightarrow>
     block_at ops dev sb agno spec 0 a (Inl (fst x)) \<and> snd x = [a]"
| "stored ops dev sb agno spec (Suc l) a x \<longleftrightarrow>
     (\<exists>ps xs. block_at ops dev sb agno spec (Suc l) a (Inr ps) \<and>
        list_all2 (stored ops dev sb agno spec l) ps xs \<and>
        fst x = concat (map fst xs) \<and> snd x = a # concat (map snd xs))"

lemma walk_children:
  assumes "list_all2 P ps xs"
    and "\<And>p x stack recs blocks. P p x \<Longrightarrow> length blocks + length (snd x) \<le> 2 ^ 24 + 1 \<Longrightarrow>
      walk_loop ops dev sb agno spec ((p, l) # stack) recs blocks =
      walk_loop ops dev sb agno spec stack (recs @ fst x) (blocks @ snd x)"
    and "length blocks + length (concat (map snd xs)) \<le> 2 ^ 24 + 1"
  shows "walk_loop ops dev sb agno spec (map (\<lambda>p. (p, l)) ps @ stack) recs blocks =
    walk_loop ops dev sb agno spec stack (recs @ concat (map fst xs)) (blocks @ concat (map snd xs))"
  using assms(1,3)
proof (induction ps xs arbitrary: recs blocks rule: list_all2_induct)
  case (Cons p ps x xs)
  have "walk_loop ops dev sb agno spec ((p, l) # map (\<lambda>p. (p, l)) ps @ stack) recs blocks =
    walk_loop ops dev sb agno spec (map (\<lambda>p. (p, l)) ps @ stack) (recs @ fst x) (blocks @ snd x)"
    using Cons.prems by (intro assms(2) [OF Cons.hyps(1)]) simp
  then show ?case using Cons.IH [of "blocks @ snd x" "recs @ fst x"] Cons.prems by simp
qed simp

lemma walk_stored:
  assumes "stored ops dev sb agno spec l a x" and "length blocks + length (snd x) \<le> 2 ^ 24 + 1"
  shows "walk_loop ops dev sb agno spec ((a, l) # stack) recs blocks =
    walk_loop ops dev sb agno spec stack (recs @ fst x) (blocks @ snd x)"
  using assms
proof (induction l arbitrary: a x stack recs blocks)
  case 0
  then show ?case by (auto simp: block_at_def not_le)
next
  case (Suc l)
  obtain ps xs where b: "block_at ops dev sb agno spec (Suc l) a (Inr ps)"
    and xs: "list_all2 (stored ops dev sb agno spec l) ps xs"
    and x: "fst x = concat (map fst xs)" "snd x = a # concat (map snd xs)"
    using Suc.prems(1) by auto
  have "walk_loop ops dev sb agno spec ((a, Suc l) # stack) recs blocks =
    walk_loop ops dev sb agno spec (map (\<lambda>p. (p, l)) ps @ stack) recs (blocks @ [a])"
    using b Suc.prems(2) x(2) by (auto simp: block_at_def)
  also have "\<dots> = walk_loop ops dev sb agno spec stack (recs @ concat (map fst xs)) ((blocks @ [a]) @ concat (map snd xs))"
    using xs Suc.IH Suc.prems(2) x(2) by (intro walk_children [OF xs]) auto
  finally show ?case using x by simp
qed

lemma walk_tree_stored:
  assumes "stored ops dev sb agno spec l a x" and "l < 9" and "length (snd x) \<le> 2 ^ 24 + 1"
  shows "walk_tree ops dev sb agno spec a (Suc l) = Ok x"
  using walk_stored [OF assms(1), of "[]" "[]" "[]"] assms(2,3) by (simp add: walk_tree_def)

section \<open>A tree as it was built\<close>

text \<open>What a specification of a tree must be for its blocks to hold anything.\<close>

definition wf_spec :: "superblock \<Rightarrow> ag_spec \<Rightarrow> bool" where
  "wf_spec sb spec \<longleftrightarrow> sp_magic spec < 2 ^ 32 \<and> 0 < sp_rec_len spec \<and>
     1 \<le> leaf_max spec (sb_block_size sb) \<and> 2 \<le> node_max spec (sb_block_size sb)"

definition rec_ok :: "ag_spec \<Rightarrow> btrec \<Rightarrow> bool" where
  "rec_ok spec r \<longleftrightarrow> length (r_data r) = sp_rec_len spec \<and> length (r_low r) = sp_key_len spec \<and>
     length (r_high r) = sp_key_len spec"

lemma max_small:
  assumes "wf_sb sb"
  shows "leaf_max spec (sb_block_size sb) < 2 ^ 16" "node_max spec (sb_block_size sb) < 2 ^ 16"
proof -
  have "sb_block_size sb - 56 < 2 ^ 16" using wf_sbD(4,5) [OF assms] by simp
  then show "leaf_max spec (sb_block_size sb) < 2 ^ 16" "node_max spec (sb_block_size sb) < 2 ^ 16"
    unfolding leaf_max_def node_max_def by (meson div_le_dividend le_less_trans)+
qed

lemma leaf_block_read:
  assumes "wf_sb sb" and "wf_spec sb spec" and "leaf_payload spec part = Ok ws"
    and "ag_block sb agno spec 0 addrs i (length part) ws d"
    and "length part \<le> leaf_max spec (sb_block_size sb)"
  shows "tree_block spec (sb_block_size sb) d 0 = Ok (Inl (map r_data part))"
proof -
  let ?w = "sp_rec_len spec"
  have spec: "sp_magic spec < 2 ^ 32" "0 < ?w" using assms(2) by (simp_all add: wf_spec_def)
  have n: "length part < 2 ^ 16" using assms(5) max_small(1) [OF assms(1)] by (rule le_less_trans)
  note h = ag_block_header [OF assms(1,4) spec(1) _ n]
  have bs: "512 \<le> sb_block_size sb" by (rule wf_sbD(4) [OF assms(1)])
  have "map_res (\<lambda>i. get d (56 + i * ?w) ?w) [0..<length part] = Ok (map (\<lambda>j. r_data (part ! j)) [0..<length part])"
    by (rule map_res_Ok) (use leaf_block_records [OF assms(1,3,4) _ spec(2)] h(1) in simp)
  also have "map (\<lambda>j. r_data (part ! j)) [0..<length part] = map r_data part"
    by (rule nth_equalityI) simp_all
  finally show ?thesis using h bs assms(5) by (simp add: tree_block_def)
qed

lemma node_block_read:
  assumes "wf_sb sb" and "wf_spec sb spec" and "node_payload spec (node_max spec (sb_block_size sb)) part = Ok ws"
    and "ag_block sb agno spec (Suc l) addrs i (length part) ws d" and "Suc l < 2 ^ 16"
    and "length part \<le> node_max spec (sb_block_size sb)" and "\<forall>c \<in> set part. snd (snd c) < 2 ^ 32"
  shows "tree_block spec (sb_block_size sb) d (Suc l) = Ok (Inr (map (\<lambda>c. snd (snd c)) part))"
proof -
  let ?m = "node_max spec (sb_block_size sb)"
  have spec: "sp_magic spec < 2 ^ 32" using assms(2) by (simp add: wf_spec_def)
  have n: "length part < 2 ^ 16" using assms(6) max_small(2) [OF assms(1)] by (rule le_less_trans)
  note h = ag_block_header [OF assms(1,4) spec assms(5) n]
  have bs: "512 \<le> sb_block_size sb" by (rule wf_sbD(4) [OF assms(1)])
  have "map_res (\<lambda>i. be32 d (node_ptr_at spec ?m + i * 4)) [0..<length part]
      = Ok (map (\<lambda>j. snd (snd (part ! j))) [0..<length part])"
    by (rule map_res_Ok) (use node_block_ptrs [OF assms(1,3,4,6)] assms(7) h(1) in simp)
  also have "map (\<lambda>j. snd (snd (part ! j))) [0..<length part] = map (\<lambda>c. snd (snd c)) part"
    by (rule nth_equalityI) simp_all
  finally show ?thesis
    using h bs assms(6) by (simp add: tree_block_def node_ptr_at_def Let_def)
qed

text \<open>The blocks are on the device, inside the allocation group.\<close>

definition on_disk :: "'d device_ops \<Rightarrow> 'd \<Rightarrow> superblock \<Rightarrow> nat \<Rightarrow> (nat \<times> byte list) list \<Rightarrow> bool" where
  "on_disk ops dev sb agno blocks \<longleftrightarrow>
     (\<forall>(a, buf) \<in> set blocks. (\<exists>len. ag_len sb agno = Ok len \<and> a < len) \<and>
        dev_read_at ops dev (agb_to_byte sb agno a) (sb_block_size sb) = Ok buf)"

lemma on_disk_append [simp]:
  "on_disk ops dev sb agno (xs @ ys) \<longleftrightarrow> on_disk ops dev sb agno xs \<and> on_disk ops dev sb agno ys"
  by (auto simp: on_disk_def)

abbreviation ptr :: "child \<Rightarrow> nat" where
  "ptr c \<equiv> snd (snd c)"

abbreviation laid :: "child \<times> byte list \<Rightarrow> nat \<times> byte list" where
  "laid b \<equiv> case b of ((_, _, a), buf) \<Rightarrow> (a, buf)"

lemma laid_eq: "laid b = (ptr (fst b), snd b)"
  by (simp add: split_beta)

lemma block_on_disk:
  assumes "on_disk ops dev sb agno (map laid built)" and "b \<in> set built"
    and "tree_block spec (sb_block_size sb) (snd b) l = Ok block"
  shows "block_at ops dev sb agno spec l (ptr (fst b)) block"
proof -
  have "laid b \<in> set (map laid built)" using assms(2) by simp
  then show ?thesis using assms(1,3) unfolding on_disk_def block_at_def laid_eq by fastforce
qed

lemma parts_map: "parts ns (map f xs) = map (map f) (parts ns xs)"
  by (induction ns arbitrary: xs) (simp_all add: take_map drop_map)

lemma parts_all2: "list_all2 P xs ys \<Longrightarrow> list_all2 (list_all2 P) (parts ns xs) (parts ns ys)"
  by (induction ns arbitrary: xs ys) (simp_all add: list_all2_takeI list_all2_dropI)

lemma leaves_read:
  assumes "wf_sb sb" and "wf_spec sb spec"
    and "list_all2 (level_block sb agno spec 0 (leaf_payload spec) keys addrs) (enumerate 0 ps) built"
    and "\<forall>part \<in> set ps. length part \<le> leaf_max spec (sb_block_size sb)"
    and "on_disk ops dev sb agno (map laid built)"
  shows "list_all2 (stored ops dev sb agno spec 0) (map (\<lambda>b. ptr (fst b)) built)
    (map2 (\<lambda>part b. (map r_data part, [ptr (fst b)])) ps built)"
proof (rule list_all2_all_nthI)
  have len: "length ps = length built" using assms(3) by (auto simp: list_all2_conv_all_nth)
  then show "length (map (\<lambda>b. ptr (fst b)) built) = length (map2 (\<lambda>part b. (map r_data part, [ptr (fst b)])) ps built)"
    by simp
  fix n assume "n < length (map (\<lambda>b. ptr (fst b)) built)"
  then have n: "n < length built" by simp
  have "level_block sb agno spec 0 (leaf_payload spec) keys addrs (n, ps ! n) (built ! n)"
    using assms(3) n len by (auto simp: list_all2_conv_all_nth nth_enumerate_eq)
  then obtain ws where "leaf_payload spec (ps ! n) = Ok ws"
    "ag_block sb agno spec 0 addrs n (length (ps ! n)) ws (snd (built ! n))"
    by (auto simp: level_block_def Let_def split_beta)
  then have "tree_block spec (sb_block_size sb) (snd (built ! n)) 0 = Ok (Inl (map r_data (ps ! n)))"
    using assms(4) n len by (intro leaf_block_read [OF assms(1,2)]) auto
  then have "block_at ops dev sb agno spec 0 (ptr (fst (built ! n))) (Inl (map r_data (ps ! n)))"
    using block_on_disk [OF assms(5)] n by simp
  then show "stored ops dev sb agno spec 0 (map (\<lambda>b. ptr (fst b)) built ! n)
      (map2 (\<lambda>part b. (map r_data part, [ptr (fst b)])) ps built ! n)"
    using n len by simp
qed

lemma nodes_read:
  assumes "wf_sb sb" and "wf_spec sb spec" and "Suc l < 2 ^ 16"
    and "list_all2 (level_block sb agno spec (Suc l) (node_payload spec (node_max spec (sb_block_size sb))) keys addrs)
           (enumerate 0 ps) built"
    and "\<forall>part \<in> set ps. length part \<le> node_max spec (sb_block_size sb) \<and> (\<forall>c \<in> set part. ptr c < 2 ^ 32)"
    and "on_disk ops dev sb agno (map laid built)"
    and "list_all2 (list_all2 (stored ops dev sb agno spec l)) (map (map ptr) ps) qs"
  shows "list_all2 (stored ops dev sb agno spec (Suc l)) (map (\<lambda>b. ptr (fst b)) built)
    (map2 (\<lambda>q b. (concat (map fst q), ptr (fst b) # concat (map snd q))) qs built)"
proof (rule list_all2_all_nthI)
  have len: "length ps = length built" "length qs = length built"
    using assms(4,7) by (auto simp: list_all2_conv_all_nth)
  then show "length (map (\<lambda>b. ptr (fst b)) built) =
      length (map2 (\<lambda>q b. (concat (map fst q), ptr (fst b) # concat (map snd q))) qs built)" by simp
  fix n assume "n < length (map (\<lambda>b. ptr (fst b)) built)"
  then have n: "n < length built" by simp
  have "level_block sb agno spec (Suc l) (node_payload spec (node_max spec (sb_block_size sb))) keys addrs (n, ps ! n) (built ! n)"
    using assms(4) n len by (auto simp: list_all2_conv_all_nth nth_enumerate_eq)
  then obtain ws where "node_payload spec (node_max spec (sb_block_size sb)) (ps ! n) = Ok ws"
    "ag_block sb agno spec (Suc l) addrs n (length (ps ! n)) ws (snd (built ! n))"
    by (auto simp: level_block_def Let_def split_beta)
  then have "tree_block spec (sb_block_size sb) (snd (built ! n)) (Suc l) = Ok (Inr (map ptr (ps ! n)))"
    using assms(3,5) n len by (intro node_block_read [OF assms(1,2)]) auto
  then have "block_at ops dev sb agno spec (Suc l) (ptr (fst (built ! n))) (Inr (map ptr (ps ! n)))"
    using block_on_disk [OF assms(6)] n by simp
  moreover have "list_all2 (stored ops dev sb agno spec l) (map ptr (ps ! n)) (qs ! n)"
    using list_all2_nthD [OF assms(7), of n] n len by simp
  ultimately show "stored ops dev sb agno spec (Suc l) (map (\<lambda>b. ptr (fst b)) built ! n)
      (map2 (\<lambda>q b. (concat (map fst q), ptr (fst b) # concat (map snd q))) qs built ! n)"
    using n len by auto
qed

lemma concat_map2_tree:
  assumes "length qs = length built"
  shows "concat (map fst (map2 (\<lambda>q b. (concat (map fst q), f b # concat (map snd q))) qs built)) = concat (map fst (concat qs))"
    "mset (concat (map snd (map2 (\<lambda>q b. (concat (map fst q), f b # concat (map snd q))) qs built)))
      = mset (map f built) + mset (concat (map snd (concat qs)))"
  using assms by (induction qs built rule: list_induct2) simp_all

lemma concat_map2_leaves:
  assumes "length ps = length built"
  shows "concat (map fst (map2 (\<lambda>part b. (map g part, [f b])) ps built)) = map g (concat ps)"
    "concat (map snd (map2 (\<lambda>part b. (map g part, [f b])) ps built)) = map f built"
  using assms by (induction ps built rule: list_induct2) simp_all

lemma level_lengths:
  assumes "list_all2 (level_block sb agno spec level payload keys addrs) qs built"
  shows "\<forall>b \<in> set built. length (snd b) = sb_block_size sb"
proof
  fix b assume "b \<in> set built"
  then obtain i where "i < length built" "b = built ! i" by (metis in_set_conv_nth)
  then have "level_block sb agno spec level payload keys addrs (qs ! i) b"
    using assms by (auto simp: list_all2_conv_all_nth)
  then show "length (snd b) = sb_block_size sb"
    by (auto simp: level_block_def ag_block_def Let_def split_beta dest!: puts_length crc.seal_length)
qed

lemma ag_nodes_read:
  assumes "wf_sb sb" and "wf_spec sb spec"
    and "tower 1 (node_max spec (sb_block_size sb)) (length below # sizes)" and "sum_list sizes = length addrs"
    and "\<forall>c \<in> set below. child_ok spec c \<and> ptr c < 2 ^ 32" and "\<forall>a \<in> set addrs. a < 2 ^ 32"
  shows "\<exists>blocks c. ag_nodes sb agno spec (Suc l) sizes addrs below = Ok (blocks, [c]) \<and> map fst blocks = addrs \<and>
    (\<forall>p \<in> set blocks. length (snd p) = sb_block_size sb) \<and>
    (l + length sizes < 2 ^ 16 \<longrightarrow> on_disk ops dev sb agno blocks \<longrightarrow>
     list_all2 (stored ops dev sb agno spec l) (map ptr below) xs \<longrightarrow>
      (\<exists>x. stored ops dev sb agno spec (l + length sizes) (ptr c) x \<and> fst x = concat (map fst xs) \<and>
         mset (snd x) = mset addrs + mset (concat (map snd xs))))"
  using assms(3-6)
proof (induction sizes arbitrary: l addrs below xs)
  case Nil
  then obtain c where "below = [c]" by (cases below) auto
  then show ?case using Nil by (auto simp: list_all2_Cons1)
next
  case (Cons n sizes)
  let ?m = "node_max spec (sb_block_size sb)" and ?addrs = "take n addrs"
  let ?ps = "parts (spread (length below) n) below" and ?key = "\<lambda>(lo, hi, _). (lo, hi)"
  have m: "2 \<le> ?m" using assms(2) by (simp add: wf_spec_def)
  have n: "n = div_ceil (length below) ?m" and tower: "tower 1 ?m (n # sizes)" using Cons.prems(1) by auto
  have n0: "0 < n" using tower_pos [OF tower] by simp
  have len: "length ?addrs = n" using Cons.prems(2) by simp
  have fit: "length below \<le> n * ?m" unfolding n by (rule div_ceil_bounds(1)) (use m in simp)
  have part: "length p \<le> ?m \<and> (\<forall>c \<in> set p. child_ok spec c \<and> ptr c < 2 ^ 32)" if "p \<in> set ?ps" for p
    using that spread_parts [OF n0 fit that] set_parts [OF that] Cons.prems(3) by auto
  have bs: "56 \<le> sb_block_size sb" using wf_sbD(4) [OF assms(1)] by simp
  obtain built where built: "ag_level sb agno spec (Suc l) (node_payload spec ?m) ?key ?addrs below = Ok built"
    and all: "list_all2 (level_block sb agno spec (Suc l) (node_payload spec ?m) ?key ?addrs) (enumerate 0 ?ps) built"
    using ag_level_ok [OF assms(1), of below ?addrs "node_payload spec ?m" agno spec "Suc l" ?key]
      node_payload_ok [OF _ _ bs] part unfolding len by blast
  have addrs: "map (\<lambda>b. ptr (fst b)) built = ?addrs" by (rule level_addrs [OF all]) (simp only: length_parts length_spread len)
  have bl: "length built = n" using addrs len by (metis length_map)
  have cat: "concat ?ps = below" by (rule concat_parts) (simp add: sum_list_spread n0)
  have ok: "\<forall>c \<in> set (map fst built). child_ok spec c \<and> ptr c < 2 ^ 32"
  proof -
    have "\<forall>b \<in> set built. child_ok spec (fst b)"
      by (rule level_children [OF all]) (use Cons.prems(3) cat in \<open>auto simp: child_ok_def split_beta\<close>)
    moreover have "\<forall>b \<in> set built. ptr (fst b) \<in> set ?addrs" unfolding addrs [symmetric] by simp
    then have "\<forall>b \<in> set built. ptr (fst b) \<in> set addrs" by (meson in_set_takeD)
    ultimately show ?thesis using Cons.prems(4) by auto
  qed
  let ?q = "\<lambda>xs. parts (spread (length below) n) xs"
  let ?xs = "map2 (\<lambda>q b. (concat (map fst q), ptr (fst b) # concat (map snd q))) (?q xs) built"
  obtain blocks c where IH: "ag_nodes sb agno spec (Suc (Suc l)) sizes (drop n addrs) (map fst built) = Ok (blocks, [c])"
    "map fst blocks = drop n addrs" "\<forall>p \<in> set blocks. length (snd p) = sb_block_size sb"
    "Suc l + length sizes < 2 ^ 16 \<longrightarrow> on_disk ops dev sb agno blocks \<longrightarrow>
      list_all2 (stored ops dev sb agno spec (Suc l)) (map ptr (map fst built)) ?xs \<longrightarrow>
      (\<exists>x. stored ops dev sb agno spec (Suc l + length sizes) (ptr c) x \<and> fst x = concat (map fst ?xs) \<and>
         mset (snd x) = mset (drop n addrs) + mset (concat (map snd ?xs)))"
  proof -
    have "tower 1 ?m (length (map fst built) # sizes)" using tower bl by simp
    moreover have "sum_list sizes = length (drop n addrs)" using Cons.prems(2) by simp
    moreover have "\<forall>a \<in> set (drop n addrs). a < 2 ^ 32" using Cons.prems(4) by (meson in_set_dropD)
    ultimately show ?thesis using Cons.IH [OF _ _ ok, of "drop n addrs" "Suc l" ?xs] that by blast
  qed
  have top: "ag_nodes sb agno spec (Suc l) (n # sizes) addrs below = Ok (map laid built @ blocks, [c])"
    using built IH(1) by (simp add: split_beta)
  have "map fst (map laid built @ blocks) = addrs"
    using IH(2) addrs by (simp add: laid_eq comp_def)
  moreover have "\<forall>p \<in> set (map laid built @ blocks). length (snd p) = sb_block_size sb"
    using IH(3) level_lengths [OF all] by (auto simp: laid_eq)
  moreover have "\<exists>x. stored ops dev sb agno spec (l + length (n # sizes)) (ptr c) x \<and> fst x = concat (map fst xs) \<and>
      mset (snd x) = mset addrs + mset (concat (map snd xs))"
    if small: "l + length (n # sizes) < 2 ^ 16" and disk: "on_disk ops dev sb agno (map laid built @ blocks)"
      and xs: "list_all2 (stored ops dev sb agno spec l) (map ptr below) xs"
  proof -
    have ql: "length (?q xs) = length built" by (simp add: bl)
    have cq: "concat (?q xs) = xs"
      by (rule concat_parts) (use list_all2_lengthD [OF xs] in \<open>simp add: sum_list_spread n0\<close>)
    have "list_all2 (list_all2 (stored ops dev sb agno spec l)) (map (map ptr) ?ps) (?q xs)"
      using parts_all2 [OF xs] by (simp add: parts_map)
    then have "list_all2 (stored ops dev sb agno spec (Suc l)) (map (\<lambda>b. ptr (fst b)) built) ?xs"
      using part disk small by (intro nodes_read [OF assms(1,2) _ all]) auto
    then have st: "list_all2 (stored ops dev sb agno spec (Suc l)) (map ptr (map fst built)) ?xs"
      by (simp only: map_map comp_def)
    have "Suc l + length sizes < 2 ^ 16" "on_disk ops dev sb agno blocks" using small disk by simp_all
    then obtain x where "stored ops dev sb agno spec (Suc l + length sizes) (ptr c) x" "fst x = concat (map fst ?xs)"
      "mset (snd x) = mset (drop n addrs) + mset (concat (map snd ?xs))"
      using IH(4) st by blast
    moreover have "mset addrs = mset ?addrs + mset (drop n addrs)" by (metis append_take_drop_id mset_append)
    ultimately show ?thesis
      using concat_map2_tree [OF ql, of "\<lambda>b. ptr (fst b)"] cq addrs by (intro exI [of _ x]) simp
  qed
  ultimately show ?case using top by blast
qed

lemma build_ag_read:
  assumes "wf_sb sb" and "wf_spec sb spec" and "\<forall>r \<in> set recs. rec_ok spec r"
    and "tree_blocks spec (length recs) (sb_block_size sb) = Some (length agbnos)" and "\<forall>a \<in> set agbnos. a < 2 ^ 32"
  shows "\<exists>b sizes'. build_ag sb agno spec recs agbnos = Ok b \<and> map fst (bt_blocks b) = agbnos \<and>
    (\<forall>p \<in> set (bt_blocks b). length (snd p) = sb_block_size sb) \<and>
    level_sizes (length recs) (leaf_max spec (sb_block_size sb)) (node_max spec (sb_block_size sb)) = Some sizes' \<and>
    bt_levels b = length sizes' \<and>
    (bt_levels b \<le> 9 \<and> length agbnos \<le> 2 ^ 24 \<and> on_disk ops dev sb agno (bt_blocks b) \<longrightarrow>
      (\<exists>bs. walk_tree ops dev sb agno spec (bt_root b) (bt_levels b) = Ok (map r_data recs, bs) \<and> mset bs = mset agbnos))"
proof -
  let ?l = "leaf_max spec (sb_block_size sb)" and ?m = "node_max spec (sb_block_size sb)"
  let ?n = "max (div_ceil (length recs) ?l) 1" and ?key = "\<lambda>r. (r_low r, r_high r)"
  have lm: "1 \<le> ?l" "2 \<le> ?m" using assms(2) by (simp_all add: wf_spec_def)
  obtain sizes where sizes: "level_sizes (length recs) ?l ?m = Some (?n # sizes)" "tower 1 ?m (?n # sizes)"
    using level_sizes_tower [OF lm] by blast
  have sum: "?n + sum_list sizes = length agbnos"
    using assms(4) sizes(1) by (simp add: tree_blocks_def blocks_for_def)
  let ?addrs = "take ?n agbnos" and ?ps = "parts (spread (length recs) ?n) recs"
  have len: "length ?addrs = ?n" using sum by simp
  have "length recs \<le> div_ceil (length recs) ?l * ?l" by (rule div_ceil_bounds(1)) (use lm in simp)
  also have "\<dots> \<le> ?n * ?l" by (intro mult_le_mono1) simp
  finally have fit: "length recs \<le> ?n * ?l" .
  have part: "length p \<le> ?l \<and> (\<forall>r \<in> set p. rec_ok spec r)" if "p \<in> set ?ps" for p
    using that spread_parts [OF _ fit that] set_parts [OF that] assms(3) by auto
  have bs: "56 \<le> sb_block_size sb" using wf_sbD(4) [OF assms(1)] by simp
  obtain leaves where leaves: "ag_level sb agno spec 0 (leaf_payload spec) ?key ?addrs recs = Ok leaves"
    and all: "list_all2 (level_block sb agno spec 0 (leaf_payload spec) ?key ?addrs) (enumerate 0 ?ps) leaves"
    using ag_level_ok [OF assms(1), of recs ?addrs "leaf_payload spec" agno spec 0 ?key]
      leaf_payload_ok [OF _ _ bs] part unfolding len rec_ok_def by blast
  have addrs: "map (\<lambda>b. ptr (fst b)) leaves = ?addrs"
    by (rule level_addrs [OF all]) (simp only: length_parts length_spread len)
  have ll: "length leaves = ?n" using addrs len by (metis length_map)
  have cat: "concat ?ps = recs" by (rule concat_parts) (simp add: sum_list_spread)
  have ok: "\<forall>c \<in> set (map fst leaves). child_ok spec c \<and> ptr c < 2 ^ 32"
  proof -
    have "\<forall>b \<in> set leaves. child_ok spec (fst b)"
      by (rule level_children [OF all]) (simp only: cat, use assms(3) in \<open>simp add: rec_ok_def\<close>)
    moreover have "\<forall>b \<in> set leaves. ptr (fst b) \<in> set ?addrs" unfolding addrs [symmetric] by simp
    then have "\<forall>b \<in> set leaves. ptr (fst b) \<in> set agbnos" by (meson in_set_takeD)
    ultimately show ?thesis using assms(5) by auto
  qed
  let ?xs = "map2 (\<lambda>part b. (map r_data part, [ptr (fst b)])) ?ps leaves"
  obtain blocks c where nodes: "ag_nodes sb agno spec (Suc 0) sizes (drop ?n agbnos) (map fst leaves) = Ok (blocks, [c])"
    "map fst blocks = drop ?n agbnos" "\<forall>p \<in> set blocks. length (snd p) = sb_block_size sb"
    "0 + length sizes < 2 ^ 16 \<longrightarrow> on_disk ops dev sb agno blocks \<longrightarrow>
     list_all2 (stored ops dev sb agno spec 0) (map ptr (map fst leaves)) ?xs \<longrightarrow>
     (\<exists>x. stored ops dev sb agno spec (0 + length sizes) (ptr c) x \<and> fst x = concat (map fst ?xs) \<and>
        mset (snd x) = mset (drop ?n agbnos) + mset (concat (map snd ?xs)))"
  proof -
    have "tower 1 ?m (length (map fst leaves) # sizes)" using sizes(2) ll by simp
    moreover have "sum_list sizes = length (drop ?n agbnos)" using sum by simp
    moreover have "\<forall>a \<in> set (drop ?n agbnos). a < 2 ^ 32" using assms(5) by (meson in_set_dropD)
    ultimately show ?thesis
      using ag_nodes_read [OF assms(1,2) _ _ ok, of sizes "drop ?n agbnos" agno 0 ops dev ?xs] that by blast
  qed
  let ?b = "\<lparr>bt_blocks = map laid leaves @ blocks, bt_root = ptr c, bt_levels = Suc (length sizes), bt_root_entries = []\<rparr>"
  have build: "build_ag sb agno spec recs agbnos = Ok ?b"
    using leaves nodes(1) sizes(1) sum by (simp add: build_ag_def Let_def returns_def split_beta)
  have "map fst (bt_blocks ?b) = agbnos" using addrs nodes(2) by (simp add: laid_eq comp_def)
  moreover have "\<forall>p \<in> set (bt_blocks ?b). length (snd p) = sb_block_size sb"
    using nodes(3) level_lengths [OF all] by (auto simp: laid_eq)
  moreover have "\<exists>bs. walk_tree ops dev sb agno spec (bt_root ?b) (bt_levels ?b) = Ok (map r_data recs, bs) \<and> mset bs = mset agbnos"
    if small: "bt_levels ?b \<le> 9" "length agbnos \<le> 2 ^ 24" and disk: "on_disk ops dev sb agno (bt_blocks ?b)"
  proof -
    have "list_all2 (stored ops dev sb agno spec 0) (map (\<lambda>b. ptr (fst b)) leaves) ?xs"
      using part disk by (intro leaves_read [OF assms(1,2) all]) auto
    then have st: "list_all2 (stored ops dev sb agno spec 0) (map ptr (map fst leaves)) ?xs"
      by (simp only: map_map comp_def)
    have "0 + length sizes < 2 ^ 16" "on_disk ops dev sb agno blocks" using small(1) disk by simp_all
    then obtain x where x: "stored ops dev sb agno spec (0 + length sizes) (ptr c) x" "fst x = concat (map fst ?xs)"
      "mset (snd x) = mset (drop ?n agbnos) + mset (concat (map snd ?xs))"
      using nodes(4) st by blast
    have "length ?ps = length leaves" by (simp add: ll)
    from concat_map2_leaves [OF this, of r_data "\<lambda>b. ptr (fst b)"]
    have "concat (map fst ?xs) = map r_data (concat ?ps)" "concat (map snd ?xs) = ?addrs"
      by (simp_all only: addrs)
    then have "fst x = map r_data recs" "mset (snd x) = mset (drop ?n agbnos) + mset ?addrs"
      using x(2,3) by (simp_all only: cat)
    moreover have "mset agbnos = mset ?addrs + mset (drop ?n agbnos)" by (metis append_take_drop_id mset_append)
    ultimately have "fst x = map r_data recs" "mset (snd x) = mset agbnos" by (simp_all add: union_commute)
    moreover have "length (snd x) \<le> 2 ^ 24 + 1" using \<open>mset (snd x) = mset agbnos\<close> small(2) by (metis le_SucI Suc_eq_plus1 mset_eq_length)
    ultimately show ?thesis
      using walk_tree_stored [OF x(1)] small(1) by (cases x) auto
  qed
  ultimately show ?thesis using build sizes(1) by (intro exI [of _ ?b] exI [of _ "?n # sizes"]) auto
qed

lemma wf_specs:
  assumes "wf_sb sb" and "spec \<in> {BNO, CNT, INOBT, FINOBT, RMAP}"
  shows "wf_spec sb spec"
proof -
  have bs: "456 \<le> sb_block_size sb - 56" using wf_sbD(4) [OF assms(1)] by simp
  have "k \<le> (sb_block_size sb - 56) div w" if "0 < w" "k * w \<le> 456" for k w
    using that bs by (simp add: less_eq_div_iff_mult_less_eq)
  from this [of 8 1] this [of 12 2] this [of 16 1] this [of 8 2] this [of 24 1] this [of 44 2]
  have "wf_spec sb BNO" "wf_spec sb CNT" "wf_spec sb INOBT" "wf_spec sb FINOBT" "wf_spec sb RMAP"
    by (simp_all add: wf_spec_def leaf_max_def node_max_def slots_def spec_defs)
  with assms(2) show ?thesis by blast
qed

lemma sorted_wrt_distinct: "sorted_wrt (\<noteq>) xs \<longleftrightarrow> distinct xs"
  by (induction xs) auto

text \<open>Any device that keeps the contract gives a written tree back.\<close>

context block_device
begin

lemma tree_read_back:
  assumes "wf_sb sb" and "sb_fits sb" and "wf_spec sb spec" and "\<forall>r \<in> set recs. rec_ok spec r"
    and "level_sizes (length recs) (leaf_max spec (sb_block_size sb)) (node_max spec (sb_block_size sb)) = Some sizes"
    and "length sizes \<le> 9" and "sum_list sizes = length agbnos" and "length agbnos \<le> 2 ^ 24"
    and "distinct agbnos" and "agno < sb_ag_count sb" and "ag_len sb agno = Ok len" and "\<forall>a \<in> set agbnos. a < len"
    and "invar d" and "sb_ag_count sb * sb_ag_blocks sb * sb_block_size sb \<le> length (content d)"
  shows "\<exists>b e bs. build_ag sb agno spec recs agbnos = Ok b \<and> bt_levels b = length sizes \<and>
    write_all ops (map (\<lambda>(a, buf). (agb_to_byte sb agno a, buf)) (bt_blocks b)) d = Ok e \<and> invar e \<and>
    walk_tree ops e sb agno spec (bt_root b) (bt_levels b) = Ok (map r_data recs, bs) \<and> mset bs = mset agbnos"
proof -
  have "len \<le> sb_ag_blocks sb" using assms(11) by (auto simp: ag_len_def res_simps)
  with assms(12) have ag: "a < sb_ag_blocks sb" if "a \<in> set agbnos" for a using that by fastforce
  moreover have "sb_ag_blocks sb \<le> 2 ^ 31"
    using wf_sbD(15,16) [OF assms(1)] by (meson le_trans one_le_numeral power_increasing)
  ultimately have a32: "\<forall>a \<in> set agbnos. a < 2 ^ 32" by fastforce
  have tb: "tree_blocks spec (length recs) (sb_block_size sb) = Some (length agbnos)"
    using assms(5,7) by (simp add: tree_blocks_def blocks_for_def)
  note read = build_ag_read [OF assms(1,3,4) tb a32, of agno]
  obtain b sizes' where b: "build_ag sb agno spec recs agbnos = Ok b" "map fst (bt_blocks b) = agbnos"
    "\<forall>p \<in> set (bt_blocks b). length (snd p) = sb_block_size sb" and "bt_levels b = length sizes'"
    "level_sizes (length recs) (leaf_max spec (sb_block_size sb)) (node_max spec (sb_block_size sb)) = Some sizes'"
    using read [of ops d] by blast
  then have lv: "bt_levels b = length sizes" using assms(5) by simp
  let ?at = "\<lambda>(a, buf). (agb_to_byte sb agno a, buf)"
  let ?ws = "map ?at (bt_blocks b)"
  have blk: "fst p \<in> set agbnos" if "p \<in> set (bt_blocks b)" for p using that b(2) by (metis image_eqI set_map)
  have "list_all (\<lambda>w. fst w + length (snd w) \<le> length (content d)) ?ws"
  proof -
    have "agb_to_byte sb agno (fst p) + length (snd p) \<le> length (content d)" if "p \<in> set (bt_blocks b)" for p
      using agb_to_byte_eq(2) [OF assms(1,2,10) ag [OF blk [OF that]]] b(3) that assms(14) by simp
    then show ?thesis by (auto simp: list_all_iff split_beta)
  qed
  moreover have "sorted_wrt apart ?ws"
  proof -
    have "apart (?at p) (?at q)" if "p \<in> set (bt_blocks b)" "q \<in> set (bt_blocks b)" "fst p \<noteq> fst q" for p q
    proof -
      note e = agb_to_byte_eq(1) [OF assms(1,2,10)]
      have "agno * sb_ag_blocks sb + fst p \<noteq> agno * sb_ag_blocks sb + fst q" using that(3) by simp
      from slot_disjoint [OF this, of "sb_block_size sb"] show ?thesis
        using e [OF ag [OF blk [OF that(1)]]] e [OF ag [OF blk [OF that(2)]]] b(3) that(1,2)
        by (auto simp: apart_def split_beta)
    qed
    moreover have "sorted_wrt (\<noteq>) (map fst (bt_blocks b))"
      using assms(9) unfolding b(2) by (simp add: sorted_wrt_distinct)
    ultimately show ?thesis by (simp add: sorted_wrt_map) (rule sorted_wrt_mono_rel, auto)
  qed
  ultimately obtain e where e: "write_all ops ?ws d = Ok e" "invar e"
    "\<forall>w \<in> set ?ws. dev_read_at ops e (fst w) (length (snd w)) = Ok (snd w)"
    using write_all_read [OF assms(13)] by blast
  have "on_disk ops e sb agno (bt_blocks b)"
    using e(3) b(3) blk assms(11,12) by (fastforce simp: on_disk_def split_beta)
  moreover obtain b' where "build_ag sb agno spec recs agbnos = Ok b'"
    "bt_levels b' \<le> 9 \<and> length agbnos \<le> 2 ^ 24 \<and> on_disk ops e sb agno (bt_blocks b') \<longrightarrow>
      (\<exists>bs. walk_tree ops e sb agno spec (bt_root b') (bt_levels b') = Ok (map r_data recs, bs) \<and> mset bs = mset agbnos)"
    using read [of ops e] by blast
  moreover have "b' = b" using calculation(2) b(1) by simp
  ultimately obtain bs where "walk_tree ops e sb agno spec (bt_root b) (bt_levels b) = Ok (map r_data recs, bs)"
    "mset bs = mset agbnos" using lv assms(6,8) by metis
  then show ?thesis using b(1) lv e(1,2) by blast
qed

end

section \<open>Properties\<close>

text \<open>
  C28. The sizing of a tree returns and fits: for every number of records, a leaf capacity of
  at least one and a node capacity of at least two, the loop ends with one root; each level
  has just enough blocks for the level below; spread over their blocks, the items of a level
  are all there, never more than the capacity in a block, and at least half of it in each
  when there is more than one block.
\<close>

theorem level_sizes_fit:
  assumes "1 \<le> lmax" and "2 \<le> nmax"
  shows "\<exists>sizes. level_sizes n lmax nmax = Some sizes \<and> sizes \<noteq> [] \<and> last sizes = 1 \<and>
    hd sizes = max (div_ceil n lmax) 1 \<and> n \<le> hd sizes * lmax \<and>
    (\<forall>i. Suc i < length sizes \<longrightarrow> sizes ! Suc i = div_ceil (sizes ! i) nmax \<and> sizes ! Suc i < sizes ! i) \<and>
    sum_list (spread n (hd sizes)) = n \<and>
    (\<forall>x \<in> set (spread n (hd sizes)). x \<le> lmax \<and> (1 < hd sizes \<longrightarrow> lmax div 2 \<le> x))"
proof -
  let ?k = "max (div_ceil n lmax) 1"
  obtain ks where ks: "level_sizes n lmax nmax = Some (?k # ks)" "tower 1 nmax (?k # ks)"
    using level_sizes_tower [OF assms] by blast
  have "n \<le> div_ceil n lmax * lmax" by (rule div_ceil_bounds(1)) (use assms in simp)
  also have "\<dots> \<le> ?k * lmax" by (intro mult_le_mono1) simp
  finally have fit: "n \<le> ?k * lmax" .
  have step: "sizes ! Suc i = div_ceil (sizes ! i) nmax \<and> sizes ! Suc i < sizes ! i"
    if "tower 1 nmax sizes" "Suc i < length sizes" for sizes i
    using that assms(2)
  proof (induction "1 :: nat" nmax sizes arbitrary: i rule: tower.induct)
    case (3 cap k l ks)
    then show ?case using div_ceil_less [of k cap] by (cases i) auto
  qed auto
  have "lmax div 2 \<le> x" if "x \<in> set (spread n ?k)" "1 < ?k" for x
    using spread_half_full [of lmax n x] that assms(1) by (simp add: max_def split: if_splits)
  moreover obtain s where s: "s = ?k # ks" by simp
  ultimately have half: "\<forall>x \<in> set (spread n (hd s)). x \<le> lmax \<and> (1 < hd s \<longrightarrow> lmax div 2 \<le> x)"
    using spread_le [OF _ fit] by simp
  have "s \<noteq> []" "hd s = ?k" "n \<le> hd s * lmax" "level_sizes n lmax nmax = Some s"
    using s fit ks(1) by simp_all
  moreover have "last s = 1" using tower_last [OF ks(2)] unfolding s by linarith
  moreover have "sum_list (spread n (hd s)) = n" by (rule sum_list_spread) (simp add: s)
  moreover have "\<forall>i. Suc i < length s \<longrightarrow> s ! Suc i = div_ceil (s ! i) nmax \<and> s ! Suc i < s ! i"
    using step ks(2) unfolding s by blast
  ultimately show ?thesis using half by blast
qed

theorem level_sizes_fit_witness:
  "\<exists>sizes. level_sizes 60 10 5 = Some sizes \<and> last sizes = 1 \<and> hd sizes = 6"
  using level_sizes_fit [of 10 5 60] by (auto simp: div_ceil_def)

text \<open>
  C4. A B+tree written out is read back: for records of the tree's lengths and as many
  distinct blocks of the allocation group as the sizing asks for, \<open>build_ag\<close> succeeds, and
  once its blocks are written to a device the walk from its root returns exactly the records,
  in order, and exactly the blocks, whatever the number of levels up to the reader's nine.
\<close>

theorem tree_written_then_walked:
  assumes "wf_sb sb" and "sb_fits sb" and "spec \<in> {BNO, CNT, INOBT, FINOBT, RMAP}" and "\<forall>r \<in> set recs. rec_ok spec r"
    and "level_sizes (length recs) (leaf_max spec (sb_block_size sb)) (node_max spec (sb_block_size sb)) = Some sizes"
    and "length sizes \<le> 9" and "sum_list sizes = length agbnos" and "length agbnos \<le> 2 ^ 24"
    and "distinct agbnos" and "agno < sb_ag_count sb" and "ag_len sb agno = Ok len" and "\<forall>a \<in> set agbnos. a < len"
    and "mem_inv d" and "sb_ag_count sb * sb_ag_blocks sb * sb_block_size sb \<le> length (mem_data d)"
  shows "\<exists>b e bs. build_ag sb agno spec recs agbnos = Ok b \<and> bt_levels b = length sizes \<and>
    write_all mem_ops (map (\<lambda>(a, buf). (agb_to_byte sb agno a, buf)) (bt_blocks b)) d = Ok e \<and> mem_inv e \<and>
    walk_tree mem_ops e sb agno spec (bt_root b) (bt_levels b) = Ok (map r_data recs, bs) \<and> mset bs = mset agbnos"
  by (rule mem.tree_read_back [OF assms(1,2) wf_specs [OF assms(1,3)] assms(4-14)])

definition demo_device :: mem_device where
  "demo_device = mem_new (replicate (4 * 16384 * 4096) 0)"

lemma demo_device_inv: "mem_inv demo_device" "length (mem_data demo_device) = 4 * 16384 * 4096"
  by (simp_all add: demo_device_def mem_new_def mem_inv_def)

theorem tree_written_then_walked_witness:
  "\<exists>b e bs. build_ag demo_sb 1 BNO [\<lparr>r_data = replicate 8 7, r_low = replicate 8 7, r_high = replicate 8 7\<rparr>] [9] = Ok b \<and>
     write_all mem_ops (map (\<lambda>(a, buf). (agb_to_byte demo_sb 1 a, buf)) (bt_blocks b)) demo_device = Ok e \<and>
     walk_tree mem_ops e demo_sb 1 BNO (bt_root b) (bt_levels b) = Ok ([replicate 8 7], bs) \<and> mset bs = mset [9]"
proof -
  let ?r = "\<lparr>r_data = replicate 8 7, r_low = replicate 8 7, r_high = replicate 8 7\<rparr> :: btrec"
  have "level_sizes (length [?r]) (leaf_max BNO (sb_block_size demo_sb)) (node_max BNO (sb_block_size demo_sb)) = Some [1]"
    by (simp add: level_sizes_def leaf_max_def BNO_def div_ceil_def level_loop_unfold)
  moreover have "ag_len demo_sb 1 = Ok 16384" by (simp add: ag_len_def sub_w_def)
  ultimately show ?thesis
    using tree_written_then_walked [OF demo_sb_wf, of BNO "[?r]" "[1]" "[9]" 1 16384 demo_device] demo_device_inv
    by (auto simp: rec_ok_def BNO_def)
qed

end
