(* ===== verification/Alloc.thy ===== *)
theory Alloc
  imports OrdMap AgWalk "HOL-Library.Product_Lexorder"
begin

text \<open>
  An allocation group held in memory while it is written (\<open>src/src/alloc.rs\<close>): its free
  extents, inode chunks and reverse mappings, and the methods that take from and give back
  to them. Every method returns the state it leaves behind, on errors too.

  The free extents are abstracted to the set of free blocks (\<open>free_blocks\<close>): allocation
  takes blocks out of the set, freeing puts them back, and \<open>ag_inv\<close>, which every method
  keeps, says that the extents are disjoint, inside the group, and counted right. Sums of
  a start and a length of free extents do not overflow under \<open>ag_inv\<close> and are written
  plainly; those of reverse mappings, which are read unchecked, are checked.
\<close>

unbundle bit_operations_syntax

section \<open>Reverse mappings\<close>

abbreviation (input) "OWN_FS \<equiv> 0xfffffffffffffffd :: nat"
abbreviation (input) "OWN_LOG \<equiv> 0xfffffffffffffffc :: nat"
abbreviation (input) "OWN_AG \<equiv> 0xfffffffffffffffb :: nat"
abbreviation (input) "OWN_INOBT \<equiv> 0xfffffffffffffffa :: nat"
abbreviation (input) "OWN_INODES \<equiv> 0xfffffffffffffff9 :: nat"

abbreviation (input) "RMAPF_ATTR \<equiv> 2 ^ 63 :: nat"
abbreviation (input) "RMAPF_BMBT \<equiv> 2 ^ 62 :: nat"
abbreviation (input) "RMAPF_UNWRITTEN \<equiv> 2 ^ 61 :: nat"

text \<open>The complement of a 64-bit mask.\<close>

abbreviation not64 :: "nat \<Rightarrow> nat" where
  "not64 m \<equiv> 0xffffffffffffffff - m"

record rmap =
  rm_start :: nat
  rm_owner :: nat
  rm_offset :: nat
  rm_len :: nat

definition rm_end :: "rmap \<Rightarrow> nat res" where
  "rm_end r = add_w 32 (rm_start r) (rm_len r)"

definition inode_owned :: "rmap \<Rightarrow> bool" where
  "inode_owned r = (drop_bit 63 (rm_owner r) = 0)"

definition merges_with :: "rmap \<Rightarrow> rmap \<Rightarrow> bool res" where
  "merges_with a b =
     (if rm_owner a \<noteq> rm_owner b then Ok False
      else and_then (rm_end a) (\<lambda>e.
      if e \<noteq> rm_start b \<or> rm_len a + rm_len b > 0xffffffff then Ok False
      else if \<not> inode_owned a then Ok True
      else if rm_offset a AND not64 OFF_MASK \<noteq> rm_offset b AND not64 OFF_MASK then Ok False
      else if rm_offset a AND RMAPF_BMBT \<noteq> 0 then Ok True
      else Ok ((rm_offset a AND OFF_MASK) + rm_len a = rm_offset b AND OFF_MASK)))"

definition rmap_encode :: "rmap \<Rightarrow> btrec res" where
  "rmap_encode r =
     (let key_off = rm_offset r AND not64 RMAPF_UNWRITTEN in
      and_then (sub_w (rm_len r) 1) (\<lambda>adj.
      and_then (add_w 32 (rm_start r) adj) (\<lambda>hi.
      Ok \<lparr>r_data = u32_bytes (rm_start r) @ u32_bytes (rm_len r) @ u64_bytes (rm_owner r) @ u64_bytes (rm_offset r),
          r_low = u32_bytes (rm_start r) @ u64_bytes (rm_owner r) @ u64_bytes key_off,
          r_high = u32_bytes hi @ u64_bytes (rm_owner r) @
            u64_bytes (if inode_owned r \<and> rm_offset r AND RMAPF_BMBT = 0
                       then ((key_off AND OFF_MASK) + adj) OR (key_off AND not64 OFF_MASK)
                       else key_off)\<rparr>)))"

text \<open>The set of mappings, ordered as the derived \<open>Ord\<close> does: field by field.\<close>

type_synonym rmap_key = "nat \<times> nat \<times> nat \<times> nat"

definition rm_key :: "rmap \<Rightarrow> rmap_key" where
  "rm_key r = (rm_start r, rm_owner r, rm_offset r, rm_len r)"

type_synonym rmap_set = "(rmap_key, rmap) btree_map"

section \<open>Inode chunks\<close>

abbreviation (input) "CHUNK_INODES \<equiv> 64 :: nat"
abbreviation (input) "MAX_EXTENT \<equiv> 2 ^ 21 - 1 :: nat"

record chunk =
  ch_holemask :: nat
  ch_count :: nat
  ch_free :: "64 word"

definition holes :: "chunk \<Rightarrow> 64 word" where
  "holes c = foldl (\<lambda>m i. if ch_holemask c AND 2 ^ i \<noteq> 0 then m OR push_bit (i * 4) 0xf else m) 0 [0..<16]"

text \<open>\<open>count_ones\<close> and, of a word that is not zero, \<open>trailing_zeros\<close>.\<close>

definition count_ones :: "64 word \<Rightarrow> nat" where
  "count_ones w = length (filter (bit w) [0..<64])"

definition trailing_zeros :: "64 word \<Rightarrow> nat" where
  "trailing_zeros w = hd (filter (bit w) [0..<64])"

definition free_count :: "chunk \<Rightarrow> nat" where
  "free_count c = count_ones (ch_free c AND NOT (holes c))"

definition first_free :: "chunk \<Rightarrow> nat option" where
  "first_free c = (let usable = ch_free c AND NOT (holes c) in
     if usable \<noteq> 0 then Some (trailing_zeros usable) else None)"

definition chunk_encode :: "superblock \<Rightarrow> nat \<Rightarrow> chunk \<Rightarrow> btrec" where
  "chunk_encode sb startino c =
     (let data = u32_bytes startino @
            (if has_sparse_inodes sb then u16_bytes (ch_holemask c) @ u8_bytes (ch_count c) @ u8_bytes (free_count c)
             else u32_bytes (free_count c)) @ u64_bytes (unat (ch_free c)) in
      \<lparr>r_data = data, r_low = take 4 data, r_high = take 4 data\<rparr>)"

section \<open>The allocation group\<close>

record ag =
  ag_no :: nat
  ag_length :: nat
  ag_agf :: "byte list"
  ag_agi :: "byte list"
  ag_free :: "(nat, nat) btree_map"
  ag_free_total :: nat
  ag_reserve :: nat
  ag_agfl :: "nat list"
  ag_old_tree_blocks :: "nat list"
  ag_chunks :: "(nat, chunk) btree_map"
  ag_rmap :: rmap_set
  ag_dirty :: bool

subsection \<open>Free space\<close>

definition spare :: "ag \<Rightarrow> nat" where
  "spare ag = ag_free_total ag - ag_reserve ag"

definition take_run :: "nat \<Rightarrow> nat \<Rightarrow> (ag, unit) proc" where
  "take_run start len ag =
     (case om_upto start (ag_free ag) of
        None \<Rightarrow> (Panic, ag)
      | Some (fs, fl) \<Rightarrow>
          if \<not> start + len \<le> fs + fl then (Panic, ag)
          else if ag_free_total ag < len then (Panic, ag\<lparr>ag_free := om_remove fs (ag_free ag)\<rparr>)
          else
            let free = om_remove fs (ag_free ag);
                free = (if fs < start then om_insert fs (start - fs) free else free);
                free = (if start + len < fs + fl then om_insert (start + len) (fs + fl - start - len) free else free) in
            (Ok (), ag\<lparr>ag_free := free, ag_free_total := ag_free_total ag - len, ag_dirty := True\<rparr>))"

text \<open>\<open>Iterator::max_by_key\<close>: the last of the greatest.\<close>

fun max_by_key :: "('a \<Rightarrow> 'b::linorder) \<Rightarrow> 'a list \<Rightarrow> 'a option" where
  "max_by_key f [] = None"
| "max_by_key f (x # xs) = Some (fold (\<lambda>y best. if f best \<le> f y then y else best) xs x)"

definition alloc_pick :: "nat \<Rightarrow> nat \<Rightarrow> ag \<Rightarrow> (nat \<times> nat) option" where
  "alloc_pick want near ag =
     (case List.find (\<lambda>(_, n). n \<ge> want)
             (filter (\<lambda>(s, _). near \<le> s) (ag_free ag) @ filter (\<lambda>(s, _). s < near) (ag_free ag)) of
        Some (s, _) \<Rightarrow> Some (s, want)
      | None \<Rightarrow> map_option (\<lambda>(s, n). (s, min n want)) (max_by_key snd (ag_free ag)))"

definition alloc :: "nat \<Rightarrow> nat \<Rightarrow> (ag, (nat \<times> nat) option) proc" where
  "alloc want near ag =
     (let want = min (min want MAX_EXTENT) (min (spare ag) 0xffffffff) in
      if want = 0 then (Ok None, ag)
      else case alloc_pick want near ag of
             None \<Rightarrow> (Ok None, ag)
           | Some (s, l) \<Rightarrow> seq (take_run s l) (\<lambda>_. ret (Some (s, l))) ag)"

text \<open>\<open>Iterator::find_map\<close>.\<close>

primrec find_map :: "('a \<Rightarrow> 'b option) \<Rightarrow> 'a list \<Rightarrow> 'b option" where
  "find_map f [] = None"
| "find_map f (x # xs) = (case f x of Some y \<Rightarrow> Some y | None \<Rightarrow> find_map f xs)"

definition alloc_block_except :: "nat \<Rightarrow> (ag, nat option) proc" where
  "alloc_block_except no ag =
     (if spare ag = 0 then (Ok None, ag)
      else case find_map (\<lambda>(s, n). if s \<noteq> no then Some s else if n > 1 then Some (s + 1) else None) (ag_free ag) of
             None \<Rightarrow> (Ok None, ag)
           | Some b \<Rightarrow> seq (take_run b 1) (\<lambda>_. ret (Some b)) ag)"

text \<open>
  \<open>find_map\<close> with a closure that may panic. In \<open>alloc_aligned\<close> the product \<open>s.div_ceil(align) * align\<close> is
  one of 32 bits, and an alignment of zero divides by zero.
\<close>

primrec find_map_res :: "('a \<Rightarrow> 'b option res) \<Rightarrow> 'a list \<Rightarrow> 'b option res" where
  "find_map_res f [] = Ok None"
| "find_map_res f (x # xs) =
     and_then (f x) (\<lambda>r. case r of Some y \<Rightarrow> Ok (Some y) | None \<Rightarrow> find_map_res f xs)"

definition aligned_in :: "nat \<Rightarrow> nat \<Rightarrow> nat \<times> nat \<Rightarrow> nat option res" where
  "aligned_in len align e =
     (if align = 0 then Panic
      else and_then (mul_w 32 (div_ceil (fst e) align) align) (\<lambda>a.
        Ok (if a + len \<le> fst e + snd e then Some a else None)))"

definition alloc_aligned :: "nat \<Rightarrow> nat \<Rightarrow> (ag, nat option) proc" where
  "alloc_aligned len align ag =
     (if spare ag < len then (Ok None, ag)
      else seq (lift (find_map_res (aligned_in len align) (ag_free ag))) (\<lambda>got.
           case got of
             None \<Rightarrow> ret None
           | Some start \<Rightarrow> seq (take_run start len) (\<lambda>_. ret (Some start))) ag)"

text \<open>
  Giving blocks back. The predecessor is merged in before the successor is checked, so an
  error from the successor leaves the predecessor out of the map.
\<close>

definition free_extent :: "nat \<Rightarrow> nat \<Rightarrow> (ag, unit) proc" where
  "free_extent start len ag =
     (let end = start + len in
      if len = 0 \<or> end > ag_length ag then (Err Corrupt, ag)
      else
        let step1 = (case om_below start (ag_free ag) of
              None \<Rightarrow> Ok (start, len, ag_free ag)
            | Some (ps, pn) \<Rightarrow>
                if ps + pn > start then Err Corrupt
                else if ps + pn = start then Ok (ps, len + pn, om_remove ps (ag_free ag))
                else Ok (start, len, ag_free ag)) in
        case step1 of
          Err e \<Rightarrow> (Err e, ag)
        | Panic \<Rightarrow> (Panic, ag)
        | Ok (s, n, free) \<Rightarrow>
            (case om_from start free of
               None \<Rightarrow>
                 (Ok (), ag\<lparr>ag_free := om_insert s n free, ag_free_total := ag_free_total ag + len, ag_dirty := True\<rparr>)
             | Some (ns, nn) \<Rightarrow>
                 if ns < end then (Err Corrupt, ag\<lparr>ag_free := free\<rparr>)
                 else if ns = end then
                   (Ok (), ag\<lparr>ag_free := om_insert s (n + nn) (om_remove ns free),
                              ag_free_total := ag_free_total ag + len, ag_dirty := True\<rparr>)
                 else
                   (Ok (), ag\<lparr>ag_free := om_insert s n free, ag_free_total := ag_free_total ag + len, ag_dirty := True\<rparr>)))"

text \<open>
  Blocks for the trees, from the end of the longest extents. Each round takes at least one
  block (extents are not empty), so as many rounds as blocks are enough fuel.
\<close>

fun carve_loop :: "nat \<Rightarrow> nat \<Rightarrow> (nat \<times> nat) list \<Rightarrow> (ag, (nat \<times> nat) list) proc" where
  "carve_loop fuel 0 runs ag = (Ok runs, ag)"
| "carve_loop 0 (Suc n) runs ag = (Panic, ag)"
| "carve_loop (Suc fuel) (Suc n) runs ag =
     (case max_by_key (\<lambda>(s, len). (len, s)) (ag_free ag) of
        None \<Rightarrow> (Err NoSpace, ag)
      | Some (s, len) \<Rightarrow>
          let take = min len (Suc n); at = s + len - take in
          seq (take_run at take) (\<lambda>_. carve_loop fuel (Suc n - take) (runs @ [(at, take)])) ag)"

definition carve :: "nat \<Rightarrow> (ag, (nat \<times> nat) list) proc" where
  "carve n = seq (carve_loop n n []) (\<lambda>runs. ret (sort runs))"

subsection \<open>Mappings\<close>

definition rmap_insert :: "rmap \<Rightarrow> (ag, unit) proc" where
  "rmap_insert r = modify (\<lambda>ag. ag\<lparr>ag_rmap := om_insert (rm_key r) r (ag_rmap ag)\<rparr>)"

definition rmap_add :: "superblock \<Rightarrow> nat \<Rightarrow> nat \<Rightarrow> nat \<Rightarrow> nat \<Rightarrow> (ag, unit) proc" where
  "rmap_add sb start len owner offset =
     (if has_rmapbt sb then
        seq (rmap_insert \<lparr>rm_start = start, rm_owner = owner, rm_offset = offset, rm_len = len\<rparr>) (\<lambda>_.
        modify (\<lambda>ag. ag\<lparr>ag_dirty := True\<rparr>))
      else ret ())"

text \<open>The body of the loop over the mappings that may meet the range.\<close>

definition rmap_cut :: "nat \<Rightarrow> nat \<Rightarrow> nat \<Rightarrow> rmap \<Rightarrow> nat \<Rightarrow> (ag, nat) proc" where
  "rmap_cut start end owner r removed =
     (if rm_owner r \<noteq> owner then ret removed
      else seq (lift (rm_end r)) (\<lambda>re.
      if re \<le> start \<or> rm_start r \<ge> end then ret removed
      else
        seq (modify (\<lambda>ag. ag\<lparr>ag_rmap := om_remove (rm_key r) (ag_rmap ag)\<rparr>)) (\<lambda>_.
        let cut_s = max (rm_start r) start; cut_e = min re end;
            shift = (\<lambda>by. if inode_owned r \<and> rm_offset r AND RMAPF_BMBT = 0 then rm_offset r + by else rm_offset r) in
        seq (if rm_start r < cut_s
             then rmap_insert \<lparr>rm_start = rm_start r, rm_owner = owner, rm_offset = rm_offset r, rm_len = cut_s - rm_start r\<rparr>
             else ret ()) (\<lambda>_.
        seq (if cut_e < re
             then rmap_insert \<lparr>rm_start = cut_e, rm_owner = owner, rm_offset = shift (cut_e - rm_start r), rm_len = re - cut_e\<rparr>
             else ret ()) (\<lambda>_.
        ret (removed + (cut_e - cut_s)))))))"

primrec rmap_cuts :: "nat \<Rightarrow> nat \<Rightarrow> nat \<Rightarrow> rmap list \<Rightarrow> nat \<Rightarrow> (ag, nat) proc" where
  "rmap_cuts start end owner [] removed = ret removed"
| "rmap_cuts start end owner (r # hits) removed =
     seq (rmap_cut start end owner r removed) (rmap_cuts start end owner hits)"

definition rmap_remove :: "superblock \<Rightarrow> nat \<Rightarrow> nat \<Rightarrow> nat \<Rightarrow> (ag, unit) proc" where
  "rmap_remove sb start len owner =
     (if \<not> has_rmapbt sb then ret ()
      else seq (lift (add_w 32 start len)) (\<lambda>end.
        (\<lambda>ag. let probe = (start, 0, 0, 0);
                  hits = (case om_below probe (ag_rmap ag) of None \<Rightarrow> [] | Some (_, r) \<Rightarrow> [r]) @
                         takeWhile (\<lambda>r. rm_start r < end) (map snd (filter (\<lambda>(k, _). probe \<le> k) (ag_rmap ag))) in
         seq (rmap_cuts start end owner hits 0) (\<lambda>removed.
         if removed \<noteq> len then raise Corrupt
         else modify (\<lambda>ag. ag\<lparr>ag_dirty := True\<rparr>)) ag)))"

fun merge_into :: "rmap list \<Rightarrow> rmap list \<Rightarrow> rmap list res" where
  "merge_into out [] = Ok (rev out)"
| "merge_into [] (r # rs) = merge_into [r] rs"
| "merge_into (p # out) (r # rs) =
     and_then (merges_with p r) (\<lambda>yes.
     if yes then merge_into (p\<lparr>rm_len := rm_len p + rm_len r\<rparr> # out) rs
     else merge_into (r # p # out) rs)"

definition merged_rmap :: "ag \<Rightarrow> rmap list res" where
  "merged_rmap ag = merge_into [] (map snd (ag_rmap ag))"

subsection \<open>Inodes\<close>

definition alloc_inode :: "(ag, nat option) proc" where
  "alloc_inode ag =
     (case List.find (\<lambda>(_, c). free_count c > 0) (ag_chunks ag) of
        None \<Rightarrow> (Ok None, ag)
      | Some (start, c) \<Rightarrow>
          (case first_free c of
             None \<Rightarrow> (Ok None, ag)
           | Some i \<Rightarrow>
               let ag1 = ag\<lparr>ag_chunks := om_insert start (c\<lparr>ch_free := ch_free c AND NOT (push_bit i 1)\<rparr>) (ag_chunks ag),
                            ag_dirty := True\<rparr> in
               seq (lift (add_w 32 start i)) (\<lambda>agino. ret (Some agino)) ag1))"

definition alloc_chunk :: "superblock \<Rightarrow> (ag, nat option) proc" where
  "alloc_chunk sb =
     (if sb_inodes_per_block sb = 0 then panic
      else
        let blocks = CHUNK_INODES div sb_inodes_per_block sb; align = max (max (sb_inode_align sb) blocks) 1 in
        seq (alloc_aligned blocks align) (\<lambda>got.
        case got of
          None \<Rightarrow> ret None
        | Some agbno \<Rightarrow>
            seq (lift (shl_w 32 agbno (sb_inopb_log sb))) (\<lambda>start.
            seq (modify (\<lambda>ag. ag\<lparr>ag_chunks :=
                   om_insert start \<lparr>ch_holemask = 0, ch_count = CHUNK_INODES, ch_free = NOT 0\<rparr> (ag_chunks ag)\<rparr>)) (\<lambda>_.
            seq (rmap_add sb agbno blocks OWN_INODES 0) (\<lambda>_.
            seq (modify (\<lambda>ag. ag\<lparr>ag_dirty := True\<rparr>)) (\<lambda>_.
            ret (Some agbno)))))))"

definition free_inode :: "nat \<Rightarrow> (ag, unit) proc" where
  "free_inode agino ag =
     (case om_upto agino (ag_chunks ag) of
        None \<Rightarrow> (Err Corrupt, ag)
      | Some (start, c) \<Rightarrow>
          seq (lift (add_w 32 start CHUNK_INODES)) (\<lambda>end.
          if \<not> agino < end then raise Corrupt
          else
            let b = push_bit (agino - start) (1 :: 64 word) in
            if ch_free c AND b \<noteq> 0 then raise Corrupt
            else modify (\<lambda>ag. ag\<lparr>ag_chunks := om_insert start (c\<lparr>ch_free := ch_free c OR b\<rparr>) (ag_chunks ag),
                                 ag_dirty := True\<rparr>)) ag)"

section \<open>Free space as a set of blocks\<close>

definition cover :: "(nat \<times> nat) set \<Rightarrow> nat set" where
  "cover E = (\<Union>(s, n) \<in> E. {s..<s + n})"

definition free_blocks :: "ag \<Rightarrow> nat set" where
  "free_blocks ag = cover (set (ag_free ag))"

text \<open>Extents inside \<open>len\<close> blocks, none empty, no two meeting.\<close>

definition fs_ok :: "nat \<Rightarrow> (nat \<times> nat) set \<Rightarrow> bool" where
  "fs_ok len E \<longleftrightarrow> finite E \<and> (\<forall>s n. (s, n) \<in> E \<longrightarrow> 0 < n \<and> s + n \<le> len) \<and>
     (\<forall>s n s' n'. (s, n) \<in> E \<longrightarrow> (s', n') \<in> E \<longrightarrow> (s, n) \<noteq> (s', n') \<longrightarrow> s + n \<le> s' \<or> s' + n' \<le> s)"

definition ag_inv :: "ag \<Rightarrow> bool" where
  "ag_inv ag \<longleftrightarrow> om_ok (ag_free ag) \<and> fs_ok (ag_length ag) (set (ag_free ag)) \<and>
     ag_free_total ag = card (free_blocks ag) \<and> ag_length ag < 2 ^ 32"

lemma cover_Un [simp]: "cover (E \<union> F) = cover E \<union> cover F"
  by (auto simp: cover_def)

lemma cover_insert [simp]: "cover (insert (s, n) E) = {s..<s + n} \<union> cover E"
  by (auto simp: cover_def)

lemma cover_empty [simp]: "cover {} = {}"
  by (simp add: cover_def)

lemma cover_mono: "E \<subseteq> F \<Longrightarrow> cover E \<subseteq> cover F"
  by (auto simp: cover_def)

lemma fs_okD:
  assumes "fs_ok len E"
  shows "(s, n) \<in> E \<Longrightarrow> 0 < n" "(s, n) \<in> E \<Longrightarrow> s + n \<le> len"
    "(s, n) \<in> E \<Longrightarrow> (s', n') \<in> E \<Longrightarrow> (s, n) \<noteq> (s', n') \<Longrightarrow> s + n \<le> s' \<or> s' + n' \<le> s"
    "(s, n) \<in> E \<Longrightarrow> (s, n') \<in> E \<Longrightarrow> n = n'"
proof -
  show "(s, n) \<in> E \<Longrightarrow> 0 < n" "(s, n) \<in> E \<Longrightarrow> s + n \<le> len" using assms by (simp_all add: fs_ok_def)
  show "(s, n) \<in> E \<Longrightarrow> (s', n') \<in> E \<Longrightarrow> (s, n) \<noteq> (s', n') \<Longrightarrow> s + n \<le> s' \<or> s' + n' \<le> s"
    using assms unfolding fs_ok_def by blast
  show "n = n'" if "(s, n) \<in> E" "(s, n') \<in> E"
  proof (rule ccontr)
    assume "n \<noteq> n'"
    then have "s + n \<le> s \<or> s + n' \<le> s" using assms that unfolding fs_ok_def by blast
    moreover have "0 < n" "0 < n'" using assms that by (simp_all add: fs_ok_def)
    ultimately show False by simp
  qed
qed

lemma fs_ok_subset: "fs_ok len E \<Longrightarrow> F \<subseteq> E \<Longrightarrow> fs_ok len F"
  unfolding fs_ok_def by (intro conjI allI impI; (simp add: finite_subset; fail)?) blast+

lemma fs_ok_insert:
  assumes "fs_ok len E" and "0 < n" and "s + n \<le> len" and "{s..<s + n} \<inter> cover E = {}"
  shows "fs_ok len (insert (s, n) E)"
proof -
  have sep: "s + n \<le> s' \<or> s' + n' \<le> s" if "(s', n') \<in> E" for s' n'
  proof (rule ccontr)
    assume no: "\<not> (s + n \<le> s' \<or> s' + n' \<le> s)"
    have "max s s' \<in> {s..<s + n}" "max s s' \<in> {s'..<s' + n'}" using no assms(2) fs_okD(1) [OF assms(1) that] by auto
    moreover have "{s'..<s' + n'} \<subseteq> cover E" using that by (auto simp: cover_def)
    ultimately show False using assms(4) by blast
  qed
  show ?thesis unfolding fs_ok_def
  proof (intro conjI allI impI)
    show "finite (insert (s, n) E)" using assms(1) by (simp add: fs_ok_def)
    fix a m assume a: "(a, m) \<in> insert (s, n) E"
    show "0 < m" "a + m \<le> len" using a assms(2,3) fs_okD(1,2) [OF assms(1)] by auto
    fix a' m' assume a': "(a', m') \<in> insert (s, n) E" and ne: "(a, m) \<noteq> (a', m')"
    show "a + m \<le> a' \<or> a' + m' \<le> a"
    proof (cases "(a, m) \<in> E \<and> (a', m') \<in> E")
      case True
      then show ?thesis using fs_okD(3) [OF assms(1)] ne by blast
    next
      case False
      then show ?thesis using a a' ne sep [of a m] sep [of a' m'] by auto
    qed
  qed
qed

lemma cover_split:
  assumes "fs_ok len E" and "(s, n) \<in> E"
  shows "cover (E - {(s, n)}) = cover E - {s..<s + n}" "{s..<s + n} \<subseteq> cover E"
proof -
  show "{s..<s + n} \<subseteq> cover E" using assms(2) by (auto simp: cover_def)
  have "{s..<s + n} \<inter> cover (E - {(s, n)}) = {}"
    using fs_okD(3) [OF assms] by (fastforce simp: cover_def)
  moreover have "cover E = {s..<s + n} \<union> cover (E - {(s, n)})"
    using assms(2) by (metis cover_insert insert_Diff)
  ultimately show "cover (E - {(s, n)}) = cover E - {s..<s + n}" by blast
qed

text \<open>Cutting a run out of one extent.\<close>

lemma cut_extent:
  assumes "fs_ok len E" and "(fs, fl) \<in> E" and "fs \<le> start" and "start + n \<le> fs + fl" and "0 < n"
  defines "E1 \<equiv> E - {(fs, fl)}"
  defines "E2 \<equiv> if fs < start then insert (fs, start - fs) E1 else E1"
  defines "E3 \<equiv> if start + n < fs + fl then insert (start + n, fs + fl - start - n) E2 else E2"
  shows "fs_ok len E3" "cover E3 = cover E - {start..<start + n}" "fs \<notin> fst ` E1" "fs_ok len E2"
    "start + n < fs + fl \<Longrightarrow> start + n \<notin> fst ` E2"
proof -
  have c1: "cover E1 = cover E - {fs..<fs + fl}" and sub: "{fs..<fs + fl} \<subseteq> cover E"
    using cover_split [OF assms(1,2)] by (simp_all add: E1_def)
  have ok1: "fs_ok len E1" unfolding E1_def by (rule fs_ok_subset [OF assms(1)]) blast
  have le: "fs + fl \<le> len" by (rule fs_okD(2) [OF assms(1,2)])
  show "fs \<notin> fst ` E1" using fs_okD(4) [OF assms(1,2)] by (auto simp: E1_def)
  have c2: "cover E2 = cover E1 \<union> {fs..<start}" using assms(3) by (auto simp: E2_def)
  show ok2: "fs_ok len E2"
    unfolding E2_def using ok1 c1 assms(3-5) le by (auto intro!: fs_ok_insert)
  have "cover E3 = cover E2 \<union> {start + n..<fs + fl}" using assms(4) by (auto simp: E3_def)
  then show "cover E3 = cover E - {start..<start + n}"
    using c1 c2 sub assms(3,4) by fastforce
  show "fs_ok len E3"
    unfolding E3_def using ok2 c2 c1 assms(3-5) le by (auto intro!: fs_ok_insert)
  show "start + n \<notin> fst ` E2" if "start + n < fs + fl"
  proof
    assume "start + n \<in> fst ` E2"
    then obtain m where "(start + n, m) \<in> E2" by auto
    then have "start + n \<in> cover E2" using fs_okD(1) [OF ok2] by (fastforce simp: cover_def)
    then show False using c2 c1 assms(3-5) that by auto
  qed
qed

section \<open>The methods on free space\<close>

lemma ag_invD:
  assumes "ag_inv ag"
  shows "om_ok (ag_free ag)" "fs_ok (ag_length ag) (set (ag_free ag))" "ag_free_total ag = card (free_blocks ag)"
    "finite (free_blocks ag)" "free_blocks ag \<subseteq> {..<ag_length ag}"
proof -
  show "om_ok (ag_free ag)" and ok: "fs_ok (ag_length ag) (set (ag_free ag))" and "ag_free_total ag = card (free_blocks ag)"
    using assms by (simp_all add: ag_inv_def)
  show "free_blocks ag \<subseteq> {..<ag_length ag}"
    using fs_okD(2) [OF ok] by (fastforce simp: free_blocks_def cover_def)
  then show "finite (free_blocks ag)" using finite_subset by blast
qed

text \<open>What a method that takes a run leaves: the run out of the set, all else as it was.\<close>

definition same_but_free :: "ag \<Rightarrow> ag \<Rightarrow> bool" where
  "same_but_free ag ag' \<longleftrightarrow>
     ag' = ag\<lparr>ag_free := ag_free ag', ag_free_total := ag_free_total ag', ag_dirty := ag_dirty ag'\<rparr>"

definition taken :: "nat \<Rightarrow> nat \<Rightarrow> ag \<Rightarrow> ag \<Rightarrow> bool" where
  "taken s n ag ag' \<longleftrightarrow> 0 < n \<and> {s..<s + n} \<subseteq> free_blocks ag \<and> free_blocks ag' = free_blocks ag - {s..<s + n} \<and>
     ag_inv ag' \<and> same_but_free ag ag' \<and> ag_dirty ag'"

lemma same_but_freeD:
  assumes "same_but_free ag ag'"
  shows "ag_length ag' = ag_length ag" "ag_reserve ag' = ag_reserve ag" "ag_chunks ag' = ag_chunks ag"
    "ag_rmap ag' = ag_rmap ag" "ag_no ag' = ag_no ag"
  using assms unfolding same_but_free_def by (metis ag.select_convs ag.surjective ag.update_convs)+

lemma same_but_free_trans: "same_but_free a b \<Longrightarrow> same_but_free b c \<Longrightarrow> same_but_free a c"
  by (cases a, cases b, cases c) (simp add: same_but_free_def)

text \<open>Taking a free run succeeds, and takes just that run out of the set.\<close>

lemma take_run_ok:
  assumes "ag_inv ag" and "(fs, fl) \<in> set (ag_free ag)" and "fs \<le> start" and "start + n \<le> fs + fl" and "0 < n"
  shows "\<exists>ag'. take_run start n ag = (Ok (), ag') \<and> taken start n ag ag'"
proof -
  note inv = ag_invD [OF assms(1)]
  let ?E = "set (ag_free ag)"
  have upto: "om_upto start (ag_free ag) = Some (fs, fl)"
  proof -
    have "s \<le> fs" if "(s, m) \<in> ?E" "s \<le> start" for s m
      using fs_okD(3) [OF inv(2) that(1) assms(2)] that(2) assms(3-5) by (cases "(s, m) = (fs, fl)") auto
    then show ?thesis unfolding om.upto_Some [OF inv(1)] using assms(2,3) by auto
  qed
  note cut = cut_extent [OF inv(2) assms(2-5)]
  let ?f1 = "om_remove fs (ag_free ag)"
  let ?f2 = "if fs < start then om_insert fs (start - fs) ?f1 else ?f1"
  let ?f3 = "if start + n < fs + fl then om_insert (start + n) (fs + fl - start - n) ?f2 else ?f2"
  have ok: "om_ok ?f1" "om_ok ?f2" "om_ok ?f3"
    using inv(1) by (simp_all add: om.remove_ok om.insert_ok)
  have s1: "set ?f1 = ?E - {(fs, fl)}" by (rule om.remove_entry [OF inv(1) assms(2)])
  have s2: "set ?f2 = (if fs < start then insert (fs, start - fs) (?E - {(fs, fl)}) else ?E - {(fs, fl)})"
    using om.insert_new [OF ok(1), of fs "start - fs"] cut(3) s1 by simp
  have s3: "set ?f3 = (if start + n < fs + fl then insert (start + n, fs + fl - start - n) (set ?f2) else set ?f2)"
    using om.insert_new [OF ok(2), of "start + n" "fs + fl - start - n"] cut(5) unfolding s2 [symmetric] by simp
  have sub: "{start..<start + n} \<subseteq> free_blocks ag"
    using cover_split(2) [OF inv(2) assms(2)] assms(3,4) unfolding free_blocks_def by fastforce
  then have "card {start..<start + n} \<le> card (free_blocks ag)" using inv(4) card_mono by blast
  then have tot: "n \<le> ag_free_total ag" using inv(3) by simp
  let ?ag = "ag\<lparr>ag_free := ?f3, ag_free_total := ag_free_total ag - n, ag_dirty := True\<rparr>"
  have fb: "free_blocks ?ag = free_blocks ag - {start..<start + n}"
    using cut(2) unfolding s2 [symmetric] s3 [symmetric] by (simp add: free_blocks_def)
  have "card (free_blocks ag - {start..<start + n}) = card (free_blocks ag) - n"
    using sub by (simp add: card_Diff_subset)
  then have "ag_inv ?ag"
    using assms(1) ok(3) cut(1) fb inv(3) unfolding s2 [symmetric] s3 [symmetric] by (simp add: ag_inv_def)
  moreover have "take_run start n ag = (Ok (), ?ag)"
    using upto assms(4) tot by (simp add: take_run_def Let_def)
  ultimately show ?thesis using sub fb assms(5) by (intro exI [of _ ?ag]) (simp add: taken_def same_but_free_def)
qed

lemma free_extent_in: "ag_inv ag \<Longrightarrow> (s, n) \<in> set (ag_free ag) \<Longrightarrow> {s..<s + n} \<subseteq> free_blocks ag"
  using cover_split(2) [OF ag_invD(2)] by (simp add: free_blocks_def)

lemma max_by_key_Some: "xs \<noteq> [] \<Longrightarrow> \<exists>x \<in> set xs. max_by_key f xs = Some x \<and> (\<forall>y \<in> set xs. f y \<le> f x)"
proof -
  have fold: "fold (\<lambda>y best. if f best \<le> f y then y else best) ys x \<in> insert x (set ys) \<and>
    (\<forall>y \<in> insert x (set ys). f y \<le> f (fold (\<lambda>y best. if f best \<le> f y then y else best) ys x))" for ys x
  proof (induction ys arbitrary: x)
    case (Cons y ys)
    show ?case using Cons [of y] Cons [of x] by (cases "f x \<le> f y") (auto intro: order_trans)
  qed simp
  assume "xs \<noteq> []"
  then show ?thesis using fold by (cases xs) auto
qed

lemma max_by_key_in: "max_by_key f xs = Some x \<Longrightarrow> x \<in> set xs"
  using max_by_key_Some [of xs f] by (cases "xs = []") auto

lemma find_map_Some: "find_map f xs = Some y \<Longrightarrow> \<exists>x \<in> set xs. f x = Some y"
  by (induction xs) (auto split: option.splits)

lemma find_map_None: "find_map f xs = None \<longleftrightarrow> (\<forall>x \<in> set xs. f x = None)"
  by (induction xs) (auto split: option.splits)

lemma find_map_first: "find_map f xs = Some y \<Longrightarrow> \<exists>ys x zs. xs = ys @ x # zs \<and> f x = Some y \<and> (\<forall>z \<in> set ys. f z = None)"
proof (induction xs)
  case (Cons a xs)
  show ?case
  proof (cases "f a")
    case None
    then obtain ys x zs where "xs = ys @ x # zs" "f x = Some y" "\<forall>z \<in> set ys. f z = None" using Cons by auto
    then show ?thesis using None by (intro exI [of _ "a # ys"]) auto
  qed (use Cons.prems in \<open>auto intro!: exI [of _ "[]"]\<close>)
qed simp

lemma find_map_res_Ok: "(\<And>x. x \<in> set xs \<Longrightarrow> f x = Ok (g x)) \<Longrightarrow> find_map_res f xs = Ok (find_map g xs)"
  by (induction xs) (auto split: option.splits)

lemma find_map_res_Some: "find_map_res f xs = Ok (Some y) \<Longrightarrow> \<exists>x \<in> set xs. f x = Ok (Some y)"
  by (induction xs) (auto simp: and_then_eq_Ok split: option.splits)

lemma find_Some_in: "List.find P xs = Some x \<Longrightarrow> x \<in> set xs \<and> P x"
  by (auto simp: find_Some_iff)

text \<open>What the choice of a run is: a run inside one extent, none only when nothing is free.\<close>

lemma alloc_pick_Some:
  assumes "ag_inv ag" and "alloc_pick want near ag = Some (s, l)" and "0 < want"
  obtains n where "(s, n) \<in> set (ag_free ag)" "0 < l" "l \<le> n" "l \<le> want"
proof (cases "List.find (\<lambda>(_, n). n \<ge> want)
    (filter (\<lambda>(s, _). near \<le> s) (ag_free ag) @ filter (\<lambda>(s, _). s < near) (ag_free ag))")
  case (Some p)
  then show ?thesis using assms(2,3) find_Some_in [OF Some] that by (auto simp: alloc_pick_def)
next
  case None
  then obtain n where n: "max_by_key snd (ag_free ag) = Some (s, n)" "l = min n want"
    using assms(2) by (auto simp: alloc_pick_def)
  then show ?thesis
    using max_by_key_in [OF n(1)] fs_okD(1) [OF ag_invD(2) [OF assms(1)]] assms(3) that by force
qed

lemma alloc_pick_None: "alloc_pick want near ag = None \<Longrightarrow> ag_free ag = []"
  using max_by_key_Some [of "ag_free ag" snd]
  by (cases "ag_free ag = []") (auto simp: alloc_pick_def split: option.splits)

lemma taken_total: "ag_inv ag \<Longrightarrow> taken s n ag ag' \<Longrightarrow> n \<le> ag_free_total ag \<and> ag_free_total ag' = ag_free_total ag - n"
  using ag_invD(3,4) [of ag] ag_invD(3) [of ag'] card_mono [of "free_blocks ag" "{s..<s + n}"]
  by (simp add: taken_def card_Diff_subset)

lemma free_nonempty: "ag_inv ag \<Longrightarrow> 0 < ag_free_total ag \<Longrightarrow> ag_free ag \<noteq> []"
  using ag_invD(3) [of ag] by (auto simp: free_blocks_def)

lemma alloc_ok:
  assumes "ag_inv ag"
  shows "\<exists>r ag'. alloc want near ag = (Ok r, ag') \<and>
    (case r of None \<Rightarrow> ag' = ag \<and> (want = 0 \<or> spare ag = 0)
             | Some (s, l) \<Rightarrow> taken s l ag ag' \<and> l \<le> want \<and> l \<le> spare ag \<and> l \<le> MAX_EXTENT)"
proof -
  let ?w = "min (min want MAX_EXTENT) (min (spare ag) 0xffffffff)"
  show ?thesis
  proof (cases "?w = 0")
    case True
    then show ?thesis by (auto simp: alloc_def min_def split: if_splits)
  next
    case False
    then have w: "0 < ?w" "0 < ag_free_total ag" by (auto simp: spare_def)
    obtain s l where p: "alloc_pick ?w near ag = Some (s, l)"
      using alloc_pick_None [of ?w near ag] free_nonempty [OF assms w(2)] by (cases "alloc_pick ?w near ag") auto
    obtain n where n: "(s, n) \<in> set (ag_free ag)" "0 < l" "l \<le> n" "l \<le> ?w"
      using alloc_pick_Some [OF assms p w(1)] .
    obtain ag' where "take_run s l ag = (Ok (), ag')" "taken s l ag ag'"
      using take_run_ok [OF assms n(1), of s l] n(2,3) by auto
    then have "alloc want near ag = (Ok (Some (s, l)), ag')"
      unfolding alloc_def Let_def using False p by (simp only: if_False option.case prod.case seq_eq(1) ret_def)
    then show ?thesis using \<open>taken s l ag ag'\<close> n(4) by (intro exI conjI) auto
  qed
qed

lemma alloc_block_except_ok:
  assumes "ag_inv ag"
  shows "\<exists>r ag'. alloc_block_except no ag = (Ok r, ag') \<and>
    (case r of None \<Rightarrow> ag' = ag \<and> (spare ag = 0 \<or> free_blocks ag \<subseteq> {no})
             | Some b \<Rightarrow> taken b 1 ag ag' \<and> b \<noteq> no \<and> 0 < spare ag)"
proof -
  let ?f = "\<lambda>(s, n). if s \<noteq> no then Some s else if n > 1 then Some (s + 1) else None"
  note pos = fs_okD(1) [OF ag_invD(2) [OF assms]]
  show ?thesis
  proof (cases "spare ag = 0")
    case True
    then show ?thesis by (simp add: alloc_block_except_def)
  next
    case False
    show ?thesis
    proof (cases "find_map ?f (ag_free ag)")
      case None
      then have "\<forall>p \<in> set (ag_free ag). ?f p = None" by (simp add: find_map_None)
      then have "s = no \<and> n = 1" if "(s, n) \<in> set (ag_free ag)" for s n
        using that pos [OF that] by (fastforce split: if_splits)
      then have "free_blocks ag \<subseteq> {no}" by (fastforce simp: free_blocks_def cover_def)
      then show ?thesis using None False by (simp add: alloc_block_except_def)
    next
      case (Some b)
      then obtain s n where sn: "(s, n) \<in> set (ag_free ag)" "?f (s, n) = Some b" using find_map_Some by fastforce
      then have b: "s \<le> b" "b + 1 \<le> s + n" "b \<noteq> no" using pos [OF sn(1)] by (auto split: if_splits)
      obtain ag' where "take_run b 1 ag = (Ok (), ag')" "taken b 1 ag ag'"
        using take_run_ok [OF assms sn(1) b(1,2)] by auto
      then show ?thesis
        using Some False b(3) by (auto simp: alloc_block_except_def seq_eq(1) ret_def)
    qed
  qed
qed

lemma alloc_aligned_Some:
  assumes "ag_inv ag" and "0 < len" and "alloc_aligned len align ag = (Ok (Some a), ag')"
  shows "taken a len ag ag' \<and> align dvd a \<and> len \<le> spare ag"
proof -
  have sp: "\<not> spare ag < len" using assms(3) by (auto simp: alloc_aligned_def)
  then obtain got where got: "find_map_res (aligned_in len align) (ag_free ag) = Ok got"
    using assms(3) by (cases "find_map_res (aligned_in len align) (ag_free ag)")
      (auto simp: alloc_aligned_def seq_def lift_def)
  obtain start where start: "got = Some start"
    using assms(3) sp got by (cases got) (auto simp: alloc_aligned_def seq_def lift_def ret_def)
  then obtain s n where sn: "(s, n) \<in> set (ag_free ag)" "aligned_in len align (s, n) = Ok (Some start)"
    using find_map_res_Some got by fastforce
  then have al: "start = div_ceil s align * align" "start + len \<le> s + n" "0 < align"
    by (auto simp: aligned_in_def mul_w_def split: if_splits)
  have "s \<le> start" using div_ceil_bounds(1) [OF al(3)] al(1) by simp
  then obtain ag1 where t: "take_run start len ag = (Ok (), ag1)" "taken start len ag ag1"
    using take_run_ok [OF assms(1) sn(1) _ al(2) assms(2)] by auto
  have "a = start" "ag' = ag1"
    using assms(3) sp got start t(1) by (auto simp: alloc_aligned_def seq_def lift_def ret_def)
  then show ?thesis using t(2) sp al(1) by simp
qed

text \<open>With places and alignments of 32 bits the product does not overflow, and the search is a plain one.\<close>

lemma aligned_in_plain:
  assumes "ag_inv ag" and "0 < align" and "ag_length ag + align \<le> 2 ^ 32"
  shows "find_map_res (aligned_in len align) (ag_free ag) = Ok (find_map
    (\<lambda>(s, n). let a = div_ceil s align * align in if a + len \<le> s + n then Some a else None) (ag_free ag))" (is "_ = Ok (find_map ?f _)")
proof (rule find_map_res_Ok)
  fix e assume e: "e \<in> set (ag_free ag)"
  have "fst e < ag_length ag"
    using fs_okD(1,2) [OF ag_invD(2) [OF assms(1)], of "fst e" "snd e"] e by auto
  then have "div_ceil (fst e) align * align < 2 ^ 32"
    using div_ceil_bounds(2) [OF assms(2), of "fst e"] assms(3) by linarith
  then show "aligned_in len align e = Ok (?f e)" using assms(2) by (simp add: aligned_in_def mul_w_def Let_def split: prod.split)
qed

text \<open>What freeing leaves: the run in the set, all else as it was.\<close>

definition given :: "nat \<Rightarrow> nat \<Rightarrow> ag \<Rightarrow> ag \<Rightarrow> bool" where
  "given s n ag ag' \<longleftrightarrow> free_blocks ag' = free_blocks ag \<union> {s..<s + n} \<and> ag_inv ag' \<and> same_but_free ag ag' \<and> ag_dirty ag'"

lemma overlap_extent:
  assumes "fs_ok len E" and "0 < n" and "{s..<s + n} \<inter> cover E \<noteq> {}"
  obtains t m where "(t, m) \<in> E" "t < s + n" "s < t + m"
  using assms by (fastforce simp: cover_def)

lemma free_extent_ok:
  assumes "ag_inv ag" and "0 < n" and "start + n \<le> ag_length ag" and "{start..<start + n} \<inter> free_blocks ag = {}"
  shows "\<exists>ag'. free_extent start n ag = (Ok (), ag') \<and> given start n ag ag'"
proof -
  note inv = ag_invD [OF assms(1)]
  let ?E = "set (ag_free ag)"
  have sep: "t + m \<le> start \<or> start + n \<le> t" if "(t, m) \<in> ?E" for t m
  proof (rule ccontr)
    assume no: "\<not> (t + m \<le> start \<or> start + n \<le> t)"
    then have "max t start \<in> {start..<start + n}" "max t start \<in> {t..<t + m}"
      using assms(2) fs_okD(1) [OF inv(2) that] by auto
    then show False using assms(4) free_extent_in [OF assms(1) that] by blast
  qed
  have fin: "given start n ag (ag\<lparr>ag_free := om_insert s k f, ag_free_total := ag_free_total ag + n, ag_dirty := True\<rparr>)"
    if "om_ok f" "fs_ok (ag_length ag) (set f)" "0 < k" "s + k \<le> ag_length ag" "{s..<s + k} \<inter> cover (set f) = {}"
      "cover (set f) \<union> {s..<s + k} = free_blocks ag \<union> {start..<start + n}" for s k f
  proof -
    have "s \<notin> fst ` set f" using that(3,5) fs_okD(1) [OF that(2)] by (fastforce simp: cover_def)
    then have set: "set (om_insert s k f) = insert (s, k) (set f)" by (rule om.insert_new [OF that(1)])
    have "card (free_blocks ag \<union> {start..<start + n}) = card (free_blocks ag) + n"
      using assms(4) inv(4) by (subst card_Un_disjoint) auto
    moreover have "fs_ok (ag_length ag) (insert (s, k) (set f))" by (rule fs_ok_insert [OF that(2-5)])
    moreover have "cover (insert (s, k) (set f)) = free_blocks ag \<union> {start..<start + n}" using that(6) by auto
    ultimately show ?thesis
      using assms(1) inv(3) om.insert_ok [OF that(1)] by (simp add: given_def ag_inv_def free_blocks_def same_but_free_def set)
  qed
  obtain s k f where below: "(case om_below start (ag_free ag) of
              None \<Rightarrow> Ok (start, n, ag_free ag)
            | Some (ps, pn) \<Rightarrow>
                if ps + pn > start then Err Corrupt
                else if ps + pn = start then Ok (ps, n + pn, om_remove ps (ag_free ag))
                else Ok (start, n, ag_free ag)) = Ok (s, k, f)"
    and f: "om_ok f" "fs_ok (ag_length ag) (set f)" "set f \<subseteq> ?E" "0 < k" "s + k = start + n" "s \<le> start"
      "cover (set f) \<union> {s..<start} = free_blocks ag" "cover (set f) \<inter> {s..<start} = {}"
      "\<And>t m. (t, m) \<in> ?E \<Longrightarrow> start \<le> t \<Longrightarrow> (t, m) \<in> set f"
  proof (cases "om_below start (ag_free ag)")
    case None
    then show ?thesis using that [of start n "ag_free ag"] inv assms(2) by (simp add: free_blocks_def)
  next
    case (Some p)
    obtain ps pn where p: "p = (ps, pn)" by (cases p)
    then have mem: "(ps, pn) \<in> ?E" "ps < start" using Some om.below_Some [OF inv(1), of start p] by auto
    have le: "ps + pn \<le> start" using sep [OF mem(1)] mem(2) by auto
    show ?thesis
    proof (cases "ps + pn = start")
      case True
      have set: "set (om_remove ps (ag_free ag)) = ?E - {(ps, pn)}" by (rule om.remove_entry [OF inv(1) mem(1)])
      note cs = cover_split [OF inv(2) mem(1)]
      show ?thesis
        using that [of ps "n + pn" "om_remove ps (ag_free ag)"] Some p True inv(1) assms(2) mem cs
          fs_ok_subset [OF inv(2), of "?E - {(ps, pn)}"] unfolding set
        by (auto simp: om.remove_ok free_blocks_def)
    next
      case False
      then show ?thesis using that [of start n "ag_free ag"] Some p le inv assms(2) by (simp add: free_blocks_def)
    qed
  qed
  have parts: "{s..<s + k} = {s..<start} \<union> {start..<start + n}" using f(5,6) by auto
  then have sum: "cover (set f) \<union> {s..<s + k} = free_blocks ag \<union> {start..<start + n}" using f(7) by blast
  have "cover (set f) \<subseteq> free_blocks ag" using f(7) by blast
  with parts have new: "{s..<s + k} \<inter> cover (set f) = {}" using f(8) assms(4) by blast
  have here: "given start n ag (ag\<lparr>ag_free := om_insert s k f, ag_free_total := ag_free_total ag + n, ag_dirty := True\<rparr>)"
    using f(5) assms(3) by (intro fin [OF f(1,2,4) _ new sum]) simp
  show ?thesis
  proof (cases "om_from start f")
    case None
    then show ?thesis using below here assms(2,3) by (simp add: free_extent_def Let_def)
  next
    case (Some p)
    obtain ns nn where p: "p = (ns, nn)" by (cases p)
    then have mem: "(ns, nn) \<in> set f" "start \<le> ns" using Some om.above_Some [OF f(1), of start p] by auto
    have pos: "0 < nn" "ns + nn \<le> ag_length ag" using fs_okD(1,2) [OF f(2) mem(1)] by simp_all
    have far: "start + n \<le> ns" using sep [of ns nn] mem f(3) pos(1) by auto
    show ?thesis
    proof (cases "ns = start + n")
      case False
      then show ?thesis using below here Some p far assms(2,3) by (simp add: free_extent_def Let_def)
    next
      case True
      have set: "set (om_remove ns f) = set f - {(ns, nn)}" by (rule om.remove_entry [OF f(1) mem(1)])
      note cs = cover_split [OF f(2) mem(1)]
      have "given start n ag (ag\<lparr>ag_free := om_insert s (k + nn) (om_remove ns f), ag_free_total := ag_free_total ag + n, ag_dirty := True\<rparr>)"
      proof (rule fin)
        show "om_ok (om_remove ns f)" by (rule om.remove_ok [OF f(1)])
        show "fs_ok (ag_length ag) (set (om_remove ns f))" unfolding set by (rule fs_ok_subset [OF f(2)]) blast
        show "0 < k + nn" "s + (k + nn) \<le> ag_length ag" using f(4,5) True pos(2) by simp_all
        have split: "{s..<s + (k + nn)} = {s..<s + k} \<union> {ns..<ns + nn}" using f(5) True by auto
        show "{s..<s + (k + nn)} \<inter> cover (set (om_remove ns f)) = {}" unfolding set cs(1) split using new by blast
        show "cover (set (om_remove ns f)) \<union> {s..<s + (k + nn)} = free_blocks ag \<union> {start..<start + n}"
          unfolding set cs(1) split sum [symmetric] using cs(2) by blast
      qed
      then show ?thesis using below Some p True assms(2,3) by (simp add: free_extent_def Let_def)
    qed
  qed
qed

lemma free_extent_err:
  assumes "ag_inv ag" and "n = 0 \<or> ag_length ag < start + n \<or> {start..<start + n} \<inter> free_blocks ag \<noteq> {}"
  shows "\<exists>ag'. free_extent start n ag = (Err Corrupt, ag')"
proof (cases "n = 0 \<or> ag_length ag < start + n")
  case True
  then show ?thesis by (auto simp: free_extent_def Let_def)
next
  case False
  note inv = ag_invD [OF assms(1)]
  obtain t m where tm: "(t, m) \<in> set (ag_free ag)" "t < start + n" "start < t + m"
    using overlap_extent [OF inv(2), of n start] assms(2) False by (auto simp: free_blocks_def)
  show ?thesis
  proof (cases "t < start")
    case True
    then obtain p where b: "om_below start (ag_free ag) = Some p"
      using tm(1) om_below_None [of start "ag_free ag"] by (cases "om_below start (ag_free ag)") auto
    obtain ps pn where p: "p = (ps, pn)" by (cases p)
    have near: "(ps, pn) \<in> set (ag_free ag)" "ps < start" "t \<le> ps"
      using b p tm(1) True om.below_Some [OF inv(1), of start p] by auto
    have "(t, m) = (ps, pn)" using fs_okD(3) [OF inv(2) tm(1) near(1)] near(2,3) tm(3) fs_okD(1) [OF inv(2) near(1)] by auto
    then show ?thesis using b p tm(3) False by (auto simp: free_extent_def Let_def)
  next
    case t: False
    let ?step = "case om_below start (ag_free ag) of
              None \<Rightarrow> Ok (start, n, ag_free ag)
            | Some (ps, pn) \<Rightarrow>
                if ps + pn > start then Err Corrupt
                else if ps + pn = start then Ok (ps, n + pn, om_remove ps (ag_free ag))
                else Ok (start, n, ag_free ag)"
    have step: "?step = Err Corrupt \<or> (\<exists>s k f. ?step = Ok (s, k, f) \<and> om_ok f \<and> (t, m) \<in> set f)"
    proof (cases "om_below start (ag_free ag)")
      case None
      then show ?thesis using inv(1) tm(1) by auto
    next
      case (Some p)
      then have "fst p < start" using om.below_Some [OF inv(1), of start p] by blast
      then have "(t, m) \<in> set (om_remove (fst p) (ag_free ag))" using tm(1) t by (auto simp: om.remove_entries)
      then show ?thesis using inv(1) tm(1) Some by (cases p) (auto simp: om.remove_ok)
    qed
    have "om_from start f \<noteq> None \<and> fst (the (om_from start f)) < start + n" if ok: "om_ok f" and mem: "(t, m) \<in> set f" for f
    proof -
      obtain q where q: "om_from start f = Some q"
        using mem t by (cases "om_from start f") (auto simp: om_from_def find_None_iff)
      then have "fst q \<le> t" using om.above_Some [OF ok, of start q] mem t by auto
      then show ?thesis using q tm(2) by simp
    qed
    then show ?thesis using step False by (fastforce simp: free_extent_def Let_def split: option.splits)
  qed
qed

text \<open>Disjoint runs of \<open>n\<close> blocks in all, taken out of the set.\<close>

definition carved :: "nat \<Rightarrow> (nat \<times> nat) list \<Rightarrow> ag \<Rightarrow> ag \<Rightarrow> bool" where
  "carved n new ag ag' \<longleftrightarrow> sum_list (map snd new) = n \<and> (\<forall>p \<in> set new. 0 < snd p) \<and>
     cover (set new) \<subseteq> free_blocks ag \<and> free_blocks ag' = free_blocks ag - cover (set new) \<and>
     distinct (concat (map (\<lambda>(s, l). [s..<s + l]) new))"

lemma set_expand: "set (concat (map (\<lambda>(s, l). [s..<s + l]) runs)) = cover (set runs)"
  by (auto simp: cover_def)

lemma carve_loop_ok:
  assumes "ag_inv ag" and "n \<le> fuel"
  shows "\<exists>r ag'. carve_loop fuel n runs ag = (r, ag') \<and> ag_inv ag' \<and> same_but_free ag ag' \<and>
    (case r of Ok rs \<Rightarrow> (\<exists>new. rs = runs @ new \<and> carved n new ag ag')
             | Err e \<Rightarrow> e = NoSpace \<and> ag_free_total ag < n
             | Panic \<Rightarrow> False)"
  using assms
proof (induction fuel arbitrary: n runs ag)
  case 0
  then show ?case by (auto simp: same_but_free_def carved_def)
next
  case (Suc fuel)
  show ?case
  proof (cases n)
    case 0
    then show ?thesis using Suc.prems(1) by (auto simp: same_but_free_def carved_def)
  next
    case n: (Suc n')
    show ?thesis
    proof (cases "max_by_key (\<lambda>(s, len). (len, s)) (ag_free ag)")
      case None
      then have "ag_free ag = []" by (cases "ag_free ag") auto
      then show ?thesis using None n Suc.prems(1) ag_invD(3) [OF Suc.prems(1)] by (auto simp: same_but_free_def free_blocks_def)
    next
      case (Some p)
      obtain s len where p: "p = (s, len)" by (cases p)
      define tk where "tk = min len n"
      define at where "at = s + len - tk"
      have mem: "(s, len) \<in> set (ag_free ag)" using max_by_key_in [OF Some] p by simp
      have tk: "0 < tk" "tk \<le> len" "tk \<le> n" using fs_okD(1) [OF ag_invD(2) [OF Suc.prems(1)] mem] n by (auto simp: tk_def)
      have at: "s \<le> at" "at + tk \<le> s + len" using tk by (simp_all add: at_def)
      obtain ag1 where t: "take_run at tk ag = (Ok (), ag1)" "taken at tk ag ag1"
        using take_run_ok [OF Suc.prems(1) mem at tk(1)] by blast
      have eq: "carve_loop (Suc fuel) n runs ag = carve_loop fuel (n - tk) (runs @ [(at, tk)]) ag1"
        using Some p t(1) n by (simp add: Let_def seq_eq(1) tk_def at_def)
      have inv1: "ag_inv ag1" "same_but_free ag ag1" using t(2) by (simp_all add: taken_def)
      note tot = taken_total [OF Suc.prems(1) t(2)]
      obtain r ag' where r: "carve_loop fuel (n - tk) (runs @ [(at, tk)]) ag1 = (r, ag')" "ag_inv ag'" "same_but_free ag1 ag'"
        and res: "case r of Ok rs \<Rightarrow> (\<exists>new. rs = (runs @ [(at, tk)]) @ new \<and> carved (n - tk) new ag1 ag')
             | Err e \<Rightarrow> e = NoSpace \<and> ag_free_total ag1 < n - tk | Panic \<Rightarrow> False"
      proof -
        have "n - tk \<le> fuel" using Suc.prems(2) tk(1) by simp
        from Suc.IH [OF inv1(1) this, of "runs @ [(at, tk)]"] show ?thesis using that by blast
      qed
      have same: "same_but_free ag ag'" by (rule same_but_free_trans [OF inv1(2) r(3)])
      have "carved n ((at, tk) # new) ag ag'" if new: "carved (n - tk) new ag1 ag'" for new
      proof -
        have "{at..<at + tk} \<inter> set (concat (map (\<lambda>(s, l). [s..<s + l]) new)) = {}"
          using new t(2) unfolding set_expand by (auto simp: carved_def taken_def)
        then show ?thesis
          using new t(2) tk by (auto simp: carved_def taken_def simp del: set_concat)
      qed
      then have "case r of Ok rs \<Rightarrow> (\<exists>new. rs = runs @ new \<and> carved n new ag ag')
             | Err e \<Rightarrow> e = NoSpace \<and> ag_free_total ag < n | Panic \<Rightarrow> False"
        using res tot tk(3) by (cases r) auto
      then show ?thesis using eq r(1,2) same by auto
    qed
  qed
qed

section \<open>The contract of a pool of blocks\<close>

text \<open>What the writer relies on when it takes runs of blocks and gives them back.\<close>

locale block_pool =
  fixes pool :: "'s \<Rightarrow> nat set"
    and ok :: "'s \<Rightarrow> bool"
    and limit :: "'s \<Rightarrow> nat"
    and get_run :: "nat \<Rightarrow> nat \<Rightarrow> ('s, (nat \<times> nat) option) proc"
    and put_run :: "nat \<Rightarrow> nat \<Rightarrow> ('s, unit) proc"
  assumes pool_limit: "ok s \<Longrightarrow> pool s \<subseteq> {..<limit s}"
    and get_law: "ok s \<Longrightarrow> \<exists>r t. get_run want near s = (Ok r, t) \<and> ok t \<and> limit t = limit s \<and>
          (case r of None \<Rightarrow> pool t = pool s
           | Some (a, l) \<Rightarrow> 0 < l \<and> l \<le> want \<and> {a..<a + l} \<subseteq> pool s \<and> pool t = pool s - {a..<a + l})"
    and put_law: "ok s \<Longrightarrow> 0 < n \<Longrightarrow> a + n \<le> limit s \<Longrightarrow> {a..<a + n} \<inter> pool s = {} \<Longrightarrow>
          \<exists>t. put_run a n s = (Ok (), t) \<and> ok t \<and> limit t = limit s \<and> pool t = pool s \<union> {a..<a + n}"
begin

lemma get_Some:
  assumes "ok s" and "get_run want near s = (Ok (Some (a, l)), t)"
  shows "ok t" "limit t = limit s" "0 < l" "l \<le> want" "{a..<a + l} \<subseteq> pool s" "pool t = pool s - {a..<a + l}" "a + l \<le> limit s"
proof -
  show "ok t" "limit t = limit s" and l: "0 < l" and "l \<le> want" and sub: "{a..<a + l} \<subseteq> pool s" and "pool t = pool s - {a..<a + l}"
    using get_law [OF assms(1), of want near] assms(2) by auto
  have "a + l - 1 \<in> {a..<a + l}" using l by auto
  then have "a + l - 1 < limit s" using sub pool_limit [OF assms(1)] by blast
  then show "a + l \<le> limit s" using l by simp
qed

text \<open>Two runs taken one after the other have no block in common.\<close>

lemma get_get_disjoint:
  assumes "ok s" and "get_run want near s = (Ok (Some (a, l)), t)" and "get_run want' near' t = (Ok (Some (a', l')), u)"
  shows "{a..<a + l} \<inter> {a'..<a' + l'} = {}"
  using get_Some(6) [OF assms(1,2)] get_Some(5) [OF get_Some(1) [OF assms(1,2)] assms(3)] by blast

text \<open>A run taken can be given back, and then the pool is as it was.\<close>

lemma get_put:
  assumes "ok s" and "get_run want near s = (Ok (Some (a, l)), t)"
  shows "\<exists>u. put_run a l t = (Ok (), u) \<and> ok u \<and> pool u = pool s"
proof -
  note g = get_Some [OF assms]
  obtain u where "put_run a l t = (Ok (), u)" "ok u" "pool u = pool t \<union> {a..<a + l}"
    using put_law [OF g(1,3), of a] g(2,6,7) by auto
  then show ?thesis using g(5,6) by auto
qed

end

interpretation ag_pool: block_pool free_blocks ag_inv ag_length alloc free_extent
proof unfold_locales
  fix s :: ag
  assume s: "ag_inv s"
  show "free_blocks s \<subseteq> {..<ag_length s}" by (rule ag_invD(5) [OF s])
  fix want near
  show "\<exists>r t. alloc want near s = (Ok r, t) \<and> ag_inv t \<and> ag_length t = ag_length s \<and>
          (case r of None \<Rightarrow> free_blocks t = free_blocks s
           | Some (a, l) \<Rightarrow> 0 < l \<and> l \<le> want \<and> {a..<a + l} \<subseteq> free_blocks s \<and> free_blocks t = free_blocks s - {a..<a + l})"
    using alloc_ok [OF s, of want near] s same_but_freeD(1)
    by (fastforce simp: taken_def split: option.splits)
next
  fix s :: ag and a n
  assume "ag_inv s" "0 < n" "a + n \<le> ag_length s" "{a..<a + n} \<inter> free_blocks s = {}"
  then show "\<exists>t. free_extent a n s = (Ok (), t) \<and> ag_inv t \<and> ag_length t = ag_length s \<and> free_blocks t = free_blocks s \<union> {a..<a + n}"
    using free_extent_ok [of s n a] same_but_freeD(1) by (fastforce simp: given_def)
qed

section \<open>Every order of allocating and freeing\<close>

text \<open>
  The group together with the runs its client holds: one step is an allocation of any kind
  that succeeds, or freeing a run that is held.
\<close>

inductive ag_step :: "ag \<times> (nat \<times> nat) list \<Rightarrow> ag \<times> (nat \<times> nat) list \<Rightarrow> bool" where
  step_alloc: "alloc want near ag = (Ok (Some r), ag') \<Longrightarrow> ag_step (ag, held) (ag', r # held)"
| step_except: "alloc_block_except no ag = (Ok (Some b), ag') \<Longrightarrow> ag_step (ag, held) (ag', (b, 1) # held)"
| step_aligned: "alloc_aligned len align ag = (Ok (Some b), ag') \<Longrightarrow> 0 < len \<Longrightarrow> 0 < align \<Longrightarrow>
    ag_step (ag, held) (ag', (b, len) # held)"
| step_free: "r \<in> set held \<Longrightarrow> free_extent (fst r) (snd r) ag = (Ok (), ag') \<Longrightarrow> ag_step (ag, held) (ag', remove1 r held)"

definition expand :: "(nat \<times> nat) list \<Rightarrow> nat list" where
  "expand runs = concat (map (\<lambda>(s, n). [s..<s + n]) runs)"

definition held_inv :: "nat set \<Rightarrow> ag \<times> (nat \<times> nat) list \<Rightarrow> bool" where
  "held_inv all = (\<lambda>(ag, held). ag_inv ag \<and> distinct (expand held) \<and> set (expand held) \<inter> free_blocks ag = {} \<and>
     set (expand held) \<union> free_blocks ag = all \<and> (\<forall>r \<in> set held. 0 < snd r \<and> fst r + snd r \<le> ag_length ag))"

lemma expand_Cons [simp]: "expand ((s, n) # runs) = [s..<s + n] @ expand runs" "expand [] = []"
  by (simp_all add: expand_def)

lemma expand_remove1: "r \<in> set held \<Longrightarrow> mset (expand held) = mset (expand [r]) + mset (expand (remove1 r held))"
  by (induction held) (auto simp: expand_def split_beta)

lemma held_take:
  assumes "held_inv all (ag, held)" and "taken s n ag ag'"
  shows "held_inv all (ag', (s, n) # held)"
proof -
  have t: "0 < n" "{s..<s + n} \<subseteq> free_blocks ag" "free_blocks ag' = free_blocks ag - {s..<s + n}" "ag_inv ag'"
    "ag_length ag' = ag_length ag"
    using assms(2) same_but_freeD(1) by (auto simp: taken_def)
  have h: "ag_inv ag" "distinct (expand held)" "set (expand held) \<inter> free_blocks ag = {}"
    "set (expand held) \<union> free_blocks ag = all" "\<forall>r \<in> set held. 0 < snd r \<and> fst r + snd r \<le> ag_length ag"
    using assms(1) by (simp_all add: held_inv_def)
  have "s + n - 1 \<in> {s..<s + n}" using t(1) by auto
  then have "s + n - 1 < ag_length ag" using t(2) ag_invD(5) [OF h(1)] by blast
  then have "s + n \<le> ag_length ag" using t(1) by simp
  moreover have "{s..<s + n} \<inter> set (expand held) = {}" using t(2) h(3) by blast
  moreover have "set (expand ((s, n) # held)) \<union> free_blocks ag' = all" using t(2,3) h(4) by auto
  ultimately show ?thesis using t h by (auto simp: held_inv_def)
qed

lemma held_give:
  assumes "held_inv all (ag, held)" and "(s, n) \<in> set held"
  shows "\<exists>ag'. free_extent s n ag = (Ok (), ag') \<and> held_inv all (ag', remove1 (s, n) held)"
proof -
  have h: "ag_inv ag" "distinct (expand held)" "set (expand held) \<inter> free_blocks ag = {}"
    "set (expand held) \<union> free_blocks ag = all" "\<forall>r \<in> set held. 0 < snd r \<and> fst r + snd r \<le> ag_length ag"
    using assms(1) by (simp_all add: held_inv_def)
  let ?rest = "expand (remove1 (s, n) held)"
  have ms: "mset (expand held) = mset ([s..<s + n] @ ?rest)" using expand_remove1 [OF assms(2)] by simp
  then have d: "distinct ([s..<s + n] @ ?rest)" using h(2) mset_eq_imp_distinct_iff by blast
  have set: "set (expand held) = {s..<s + n} \<union> set ?rest" using mset_eq_setD [OF ms] by simp
  have "{s..<s + n} \<inter> free_blocks ag = {}" using set h(3) by blast
  then obtain ag' where f: "free_extent s n ag = (Ok (), ag')" "given s n ag ag'"
    using free_extent_ok [OF h(1), of n s] h(5) assms(2) by force
  then have g: "free_blocks ag' = free_blocks ag \<union> {s..<s + n}" "ag_inv ag'" "ag_length ag' = ag_length ag"
    using same_but_freeD(1) by (auto simp: given_def)
  have "set ?rest \<inter> free_blocks ag' = {}" using g(1) set h(3) d by auto
  moreover have "set ?rest \<union> free_blocks ag' = all" using g(1) set h(4) by auto
  moreover have "\<forall>r \<in> set (remove1 (s, n) held). 0 < snd r \<and> fst r + snd r \<le> ag_length ag'"
    using h(5) g(3) by (auto dest: notin_set_remove1)
  ultimately show ?thesis using f(1) g(2) d by (auto simp: held_inv_def)
qed

lemma ag_step_inv:
  assumes "ag_step s t" and "held_inv all s"
  shows "held_inv all t"
  using assms(1)
proof (cases rule: ag_step.cases)
  case (step_alloc want near ag r ag' held)
  then have "taken (fst r) (snd r) ag ag'"
    using alloc_ok [of ag want near] assms(2) by (auto simp: held_inv_def split: prod.splits)
  then show ?thesis using held_take [of all ag held "fst r" "snd r"] assms(2) step_alloc by auto
next
  case (step_except no ag b ag' held)
  then have "taken b 1 ag ag'" using alloc_block_except_ok [of ag no] assms(2) by (auto simp: held_inv_def)
  then show ?thesis using held_take [of all ag held b 1] assms(2) step_except by auto
next
  case (step_aligned len align ag b ag' held)
  then have "taken b len ag ag'" using alloc_aligned_Some assms(2) by (auto simp: held_inv_def)
  then show ?thesis using held_take [of all ag held b len] assms(2) step_aligned by auto
next
  case (step_free r held ag ag')
  then show ?thesis using held_give [of all ag held "fst r" "snd r"] assms(2) by auto
qed

lemma ag_steps_inv: "rtranclp ag_step s t \<Longrightarrow> held_inv all s \<Longrightarrow> held_inv all t"
  by (induction rule: rtranclp_induct) (auto intro: ag_step_inv)

lemma carve_ok:
  assumes "ag_inv ag"
  shows "\<exists>r ag'. carve n ag = (r, ag') \<and> ag_inv ag' \<and> same_but_free ag ag' \<and>
    (case r of Ok runs \<Rightarrow> sorted runs \<and> carved n runs ag ag'
             | Err e \<Rightarrow> e = NoSpace \<and> ag_free_total ag < n | Panic \<Rightarrow> False)"
proof -
  obtain r ag' where r: "carve_loop n n [] ag = (r, ag')" "ag_inv ag'" "same_but_free ag ag'"
    "case r of Ok rs \<Rightarrow> (\<exists>new. rs = [] @ new \<and> carved n new ag ag')
       | Err e \<Rightarrow> e = NoSpace \<and> ag_free_total ag < n | Panic \<Rightarrow> False"
    using carve_loop_ok [OF assms order_refl, of n "[]"] by blast
  have perm: "carved n (sort new) ag ag'" if "carved n new ag ag'" for new
  proof -
    have ms: "mset (sort new) = mset new" by simp
    have "sum_list (map snd (sort new)) = sum_list (map snd new)" using ms by (metis mset_map sum_mset_sum_list)
    moreover have "mset (concat (map (\<lambda>(s, l). [s..<s + l]) (sort new))) = mset (concat (map (\<lambda>(s, l). [s..<s + l]) new))"
      using ms by (simp add: mset_concat flip: sum_mset_sum_list)
    then have "distinct (concat (map (\<lambda>(s, l). [s..<s + l]) (sort new)))
        = distinct (concat (map (\<lambda>(s, l). [s..<s + l]) new))" by (rule mset_eq_imp_distinct_iff)
    ultimately show ?thesis using that by (simp add: carved_def)
  qed
  show ?thesis
    using r perm by (cases r) (auto simp: carve_def seq_eq ret_def)
qed

section \<open>Properties of free space\<close>

text \<open>
  C1. No block is ever handed out twice: after any sequence of allocations (of any of the
  three kinds) and of frees of runs that are held, from any well-formed group, the runs held
  are pairwise disjoint, none of their blocks is free, the free and the held blocks together
  are the blocks that were free at the start, and every run held can be freed without error.
\<close>

theorem no_double_allocation:
  assumes "ag_inv ag0" and "rtranclp ag_step (ag0, []) (ag, held)"
  shows "ag_inv ag \<and> distinct (expand held) \<and> set (expand held) \<inter> free_blocks ag = {} \<and>
    set (expand held) \<union> free_blocks ag = free_blocks ag0 \<and>
    (\<forall>r \<in> set held. \<exists>ag'. free_extent (fst r) (snd r) ag = (Ok (), ag'))"
proof -
  have "held_inv (free_blocks ag0) (ag0, [])" using assms(1) by (simp add: held_inv_def)
  then have inv: "held_inv (free_blocks ag0) (ag, held)" by (rule ag_steps_inv [OF assms(2)])
  have "\<exists>ag'. free_extent (fst r) (snd r) ag = (Ok (), ag')" if "r \<in> set held" for r
    using held_give [OF inv, of "fst r" "snd r"] that by auto
  then show ?thesis using inv by (simp add: held_inv_def)
qed

definition demo_ag :: ag where
  "demo_ag = \<lparr>ag_no = 0, ag_length = 100, ag_agf = [], ag_agi = [], ag_free = [(10, 20), (40, 5)], ag_free_total = 25,
     ag_reserve = 2, ag_agfl = [], ag_old_tree_blocks = [], ag_chunks = [], ag_rmap = [], ag_dirty = False\<rparr>"

lemma demo_ag_inv: "ag_inv demo_ag" "free_blocks demo_ag = {10..<30} \<union> {40..<45}"
proof -
  show fb: "free_blocks demo_ag = {10..<30} \<union> {40..<45}" by (simp add: demo_ag_def free_blocks_def)
  have "card ({10..<30 :: nat} \<union> {40..<45}) = 25" by (subst card_Un_disjoint) auto
  then show "ag_inv demo_ag" unfolding ag_inv_def fb by (simp add: demo_ag_def om_ok_def fs_ok_def)
qed

lemma demo_ag_alloc: "\<exists>ag'. alloc 3 35 demo_ag = (Ok (Some (40, 3)), ag')"
  by (simp add: alloc_def alloc_pick_def demo_ag_def spare_def seq_def take_run_def om_upto_def next_back_def ret_def Let_def)

theorem no_double_allocation_witness:
  "\<exists>ag'. rtranclp ag_step (demo_ag, []) (ag', [(40, 3)]) \<and> 41 \<notin> free_blocks ag'"
proof -
  obtain ag' where "alloc 3 35 demo_ag = (Ok (Some (40, 3)), ag')" using demo_ag_alloc by blast
  then have "rtranclp ag_step (demo_ag, []) (ag', [(40, 3)])" by (intro r_into_rtranclp step_alloc)
  moreover from no_double_allocation [OF demo_ag_inv(1) this] have "41 \<notin> free_blocks ag'" by simp
  ultimately show ?thesis by blast
qed

subsection \<open>Where a run is taken\<close>

text \<open>
  What \<open>alloc\<close> documents: "at or after \<open>near\<close> when possible: the first free extent long enough, else
  the longest there is", said of the set of the free extents and not of a search through them.
  An extent comes before another when it is the nearer one going up from \<open>near\<close> and around the end of the group.
\<close>

definition comes_first :: "nat \<Rightarrow> nat \<Rightarrow> nat \<Rightarrow> bool" where
  "comes_first at s t \<longleftrightarrow> (if at \<le> s then at \<le> t \<longrightarrow> s \<le> t else t < at \<and> s \<le> t)"

definition first_fit :: "nat \<Rightarrow> nat \<Rightarrow> (nat \<times> nat) set \<Rightarrow> nat \<Rightarrow> bool" where
  "first_fit w at E s \<longleftrightarrow> (\<exists>n \<ge> w. (s, n) \<in> E) \<and> (\<forall>(t, m) \<in> E. w \<le> m \<longrightarrow> comes_first at s t)"

definition longest :: "(nat \<times> nat) set \<Rightarrow> nat \<Rightarrow> nat \<Rightarrow> bool" where
  "longest E s l \<longleftrightarrow> (s, l) \<in> E \<and> (\<forall>(t, m) \<in> E. m \<le> l \<and> (m = l \<longrightarrow> t \<le> s))"

definition picked :: "nat \<Rightarrow> nat \<Rightarrow> (nat \<times> nat) set \<Rightarrow> nat \<times> nat \<Rightarrow> bool" where
  "picked w at E r \<longleftrightarrow> (if \<exists>(t, m) \<in> E. w \<le> m then first_fit w at E (fst r) \<and> snd r = w else longest E (fst r) (snd r))"

lemma find_first:
  assumes "om_ok m" and "List.find P m = Some p"
  shows "p \<in> set m \<and> P p \<and> (\<forall>q \<in> set m. P q \<longrightarrow> fst p \<le> fst q)"
  using assms
proof (induction m)
  case (Cons x m)
  then have "fst x \<le> fst q" if "q \<in> set m" for q
    using that by (cases x) (auto simp: om_ok_Cons less_imp_le)
  then show ?case using Cons by (cases x) (auto simp: om_ok_Cons split: if_splits)
qed simp

lemma find_appended: "List.find P (xs @ ys) = (case List.find P xs of None \<Rightarrow> List.find P ys | Some x \<Rightarrow> Some x)"
  by (induction xs) auto

lemma find_first_fit:
  assumes "om_ok m"
    and "List.find (\<lambda>(_, n). w \<le> n) (filter (\<lambda>(s, _). at \<le> s) m @ filter (\<lambda>(s, _). s < at) m) = Some (s, n)"
  shows "first_fit w at (set m) s"
proof -
  let ?P = "\<lambda>(_, n). w \<le> n" and ?A = "filter (\<lambda>(s, _). at \<le> s) m" and ?B = "filter (\<lambda>(s, _). s < at) m"
  consider "List.find ?P ?A = Some (s, n)" | "List.find ?P ?A = None" "List.find ?P ?B = Some (s, n)"
    using assms(2) by (auto simp: find_appended split: option.splits)
  then show ?thesis
  proof cases
    case 1
    note f = find_first [OF om_ok_filter [OF assms(1)] 1]
    have "(s, n) \<in> set m" "at \<le> s" "w \<le> n" using f by auto
    moreover have "s \<le> t" if "(t, k) \<in> set m" "w \<le> k" "at \<le> t" for t k
      using f that by (auto dest!: bspec [of _ _ "(t, k)"])
    ultimately show ?thesis by (auto simp: first_fit_def comes_first_def)
  next
    case 2
    note f = find_first [OF om_ok_filter [OF assms(1)] 2(2)]
    have "(s, n) \<in> set m" "s < at" "w \<le> n" using f by auto
    moreover have "s \<le> t" if "(t, k) \<in> set m" "w \<le> k" "t < at" for t k
      using f that by (auto dest!: bspec [of _ _ "(t, k)"])
    moreover have "t < at" if "(t, k) \<in> set m" "w \<le> k" for t k
      using 2(1) [unfolded find_None_iff, simplified] that by (meson not_le)
    ultimately show ?thesis by (auto simp: first_fit_def comes_first_def)
  qed
qed

lemma fold_last_greatest:
  fixes x :: "'k::linorder \<times> 'v::linorder"
  assumes "sorted_wrt (<) (map fst (x # ys))"
  defines "r \<equiv> fold (\<lambda>y best. if snd best \<le> snd y then y else best) ys x"
  shows "r \<in> set (x # ys) \<and> (\<forall>q \<in> set (x # ys). snd q \<le> snd r \<and> (snd q = snd r \<longrightarrow> fst q \<le> fst r))"
  using assms(1) unfolding r_def
proof (induction ys arbitrary: x)
  case (Cons y ys)
  let ?r = "\<lambda>x. fold (\<lambda>y best. if snd best \<le> snd y then y else best) ys x"
  have s: "sorted_wrt (<) (map fst (y # ys))" "sorted_wrt (<) (map fst (x # ys))" "fst x < fst y"
    "\<forall>q \<in> set (y # ys). fst x \<le> fst q"
    using Cons.prems by (auto simp: le_less)
  show ?case
  proof (cases "snd x \<le> snd y")
    case True
    note f = Cons.IH [OF s(1)]
    have r: "?r y \<in> set (y # ys)" "snd y \<le> snd (?r y)" using f by (blast, simp)
    then have "snd x \<le> snd (?r y)" "fst x \<le> fst (?r y)" using True s(4) order_trans by blast+
    then show ?thesis using f True by simp
  next
    case False
    note f = Cons.IH [OF s(2)]
    have "snd y < snd (?r x)" using f False by auto
    then show ?thesis using f False by auto
  qed
qed simp

lemma max_by_key_longest:
  assumes "om_ok m" and "max_by_key snd m = Some (s, n)"
  shows "longest (set m) s n"
proof -
  obtain x ys where m: "m = x # ys" using assms(2) by (cases m) auto
  have "sorted_wrt (<) (map fst (x # ys))" using assms(1) m by (simp add: om_ok_def)
  note f = fold_last_greatest [OF this]
  have "fold (\<lambda>y best. if snd best \<le> snd y then y else best) ys x = (s, n)" using assms(2) m by simp
  then show ?thesis using f m unfolding longest_def by auto
qed

lemma alloc_pick_picked:
  assumes "om_ok (ag_free ag)" and "alloc_pick w at ag = Some r"
  shows "picked w at (set (ag_free ag)) r"
proof (cases "List.find (\<lambda>(_, n). w \<le> n)
    (filter (\<lambda>(s, _). at \<le> s) (ag_free ag) @ filter (\<lambda>(s, _). s < at) (ag_free ag))")
  case (Some p)
  then have "first_fit w at (set (ag_free ag)) (fst p)"
    using find_first_fit [OF assms(1), of w at "fst p" "snd p"] by simp
  moreover have "r = (fst p, w)" using assms(2) Some by (auto simp: alloc_pick_def split: prod.splits)
  ultimately show ?thesis by (fastforce simp: picked_def first_fit_def)
next
  case None
  then have short: "\<forall>(t, m) \<in> set (ag_free ag). m < w" by (fastforce simp: find_None_iff)
  obtain s n where n: "max_by_key snd (ag_free ag) = Some (s, n)" "r = (s, min n w)"
    using assms(2) None by (auto simp: alloc_pick_def)
  then have "longest (set (ag_free ag)) s n" by (intro max_by_key_longest [OF assms(1)])
  moreover have "n < w" using max_by_key_in [OF n(1)] short by auto
  ultimately show ?thesis using n(2) short by (auto simp: picked_def)
qed

text \<open>
  C30. Allocating a run: it never panics and never fails. It returns nothing exactly when none is
  asked for or no block beyond the reserve is free, and then changes nothing. Otherwise, of the
  length asked for, cut to an extent record and to the spare blocks, it takes the first extent long
  enough at or after the block asked for, or else before it, and of that exactly the whole length;
  when no extent is long enough it takes all of the longest (the last of them). Exactly that run
  leaves the free blocks, and the total with it.
\<close>

theorem alloc_spec:
  assumes "ag_inv ag"
  shows "\<exists>r ag'. alloc want near ag = (Ok r, ag') \<and> ag_inv ag' \<and>
    (r = None \<longleftrightarrow> want = 0 \<or> spare ag = 0) \<and>
    (case r of None \<Rightarrow> ag' = ag
     | Some (s, l) \<Rightarrow> picked (min (min want MAX_EXTENT) (spare ag)) near (set (ag_free ag)) (s, l) \<and>
         0 < l \<and> l \<le> want \<and> l \<le> spare ag \<and> l \<le> MAX_EXTENT \<and> {s..<s + l} \<subseteq> free_blocks ag \<and>
         free_blocks ag' = free_blocks ag - {s..<s + l} \<and> ag_free_total ag' = ag_free_total ag - l \<and>
         ag_chunks ag' = ag_chunks ag \<and> ag_rmap ag' = ag_rmap ag \<and> ag_dirty ag')"
proof -
  let ?w = "min (min want MAX_EXTENT) (spare ag)"
  obtain r ag' where r: "alloc want near ag = (Ok r, ag')"
    "case r of None \<Rightarrow> ag' = ag \<and> (want = 0 \<or> spare ag = 0)
     | Some (s, l) \<Rightarrow> taken s l ag ag' \<and> l \<le> want \<and> l \<le> spare ag \<and> l \<le> MAX_EXTENT"
    using alloc_ok [OF assms] by blast
  have w: "min (min want MAX_EXTENT) (min (spare ag) 0xffffffff) = ?w" by (simp add: min_def)
  have "picked ?w near (set (ag_free ag)) p" if "r = Some p" for p
    using r(1) that alloc_pick_picked [OF ag_invD(1) [OF assms], of ?w near]
    unfolding alloc_def Let_def w by (auto simp: ret_def seq_def split: if_splits option.splits prod.splits res.splits)
  moreover have "0 < l" if "r = Some (s, l)" for s l
    using r(2) that by (simp add: taken_def)
  ultimately show ?thesis
    using r assms taken_total [OF assms] same_but_freeD(3,4)
    by (cases r) (auto simp: taken_def split: prod.splits)
qed

text \<open>Ten blocks at 35: the extent after it has five, so the first ten of the extent before it.\<close>

theorem alloc_spec_witness:
  "ag_inv demo_ag \<and> (\<exists>ag'. alloc 10 35 demo_ag = (Ok (Some (10, 10)), ag') \<and> free_blocks ag' = {20..<30} \<union> {40..<45})"
proof -
  have sp: "spare demo_ag = 23" by (simp add: spare_def demo_ag_def)
  obtain s l ag' where a: "alloc 10 35 demo_ag = (Ok (Some (s, l)), ag')"
    "picked (min (min 10 MAX_EXTENT) 23) 35 (set (ag_free demo_ag)) (s, l)"
    "free_blocks ag' = free_blocks demo_ag - {s..<s + l}"
    using alloc_spec [OF demo_ag_inv(1), of 10 35] sp by (fastforce split: option.splits prod.splits)
  have "s = 10 \<and> l = 10"
    using a(2) by (auto simp: picked_def first_fit_def comes_first_def demo_ag_def )
  then show ?thesis using a(1,3) demo_ag_inv by auto
qed

subsection \<open>Aligned runs\<close>

text \<open>A place a run of \<open>len\<close> blocks at a multiple of \<open>align\<close> can have: inside one free extent.\<close>

definition fits_at :: "nat \<Rightarrow> nat \<Rightarrow> (nat \<times> nat) set \<Rightarrow> nat \<Rightarrow> bool" where
  "fits_at len align E a \<longleftrightarrow> align dvd a \<and> (\<exists>(s, n) \<in> E. s \<le> a \<and> a + len \<le> s + n)"

lemma find_map_aligned:
  fixes len :: nat
  assumes "0 < align" and "om_ok m"
  defines "f \<equiv> \<lambda>(s, n). let a = div_ceil s align * align in if a + len \<le> s + n then Some a else None"
  shows "case find_map f m of
      None \<Rightarrow> \<forall>a. \<not> fits_at len align (set m) a
    | Some a \<Rightarrow> fits_at len align (set m) a \<and> (\<forall>b. fits_at len align (set m) b \<longrightarrow> a \<le> b)"
proof -
  have least: "div_ceil s align * align \<le> b \<and> f (s, n) \<noteq> None" if b: "align dvd b" "s \<le> b" "b + len \<le> s + n" for s n b
  proof -
    obtain k where k: "b = k * align" using b(1) by (auto simp: dvd_def mult.commute)
    have "div_ceil s align \<le> k" using b(2) k by (intro div_ceil_le [OF assms(1)]) simp
    then have "div_ceil s align * align \<le> b" unfolding k by (rule mult_le_mono1)
    then show ?thesis using b(3) by (simp add: f_def Let_def)
  qed
  show ?thesis
  proof (cases "find_map f m")
    case None
    then have no: "\<forall>x \<in> set m. f x = None" by (simp add: find_map_None)
    have "\<not> fits_at len align (set m) b" for b
    proof
      assume "fits_at len align (set m) b"
      then obtain s n where "(s, n) \<in> set m" "align dvd b" "s \<le> b" "b + len \<le> s + n" by (auto simp: fits_at_def)
      then show False using least no by blast
    qed
    then show ?thesis using None by simp
  next
    case (Some a)
    then obtain ys s n zs where m: "m = ys @ (s, n) # zs" "f (s, n) = Some a" "\<forall>z \<in> set ys. f z = None"
      using find_map_first [OF Some] by force
    then have a: "a = div_ceil s align * align" "a + len \<le> s + n" by (auto simp: f_def Let_def split: if_splits)
    have sa: "s \<le> a" using div_ceil_bounds(1) [OF assms(1)] a(1) by simp
    have "a \<le> b" if b: "align dvd b" "t \<le> b" "b + len \<le> t + k" "(t, k) \<in> set m" for b t k
    proof -
      have "f (t, k) \<noteq> None" using least [OF b(1-3)] by (rule conjunct2)
      then have "(t, k) \<notin> set ys" using m(3) by metis
      then have "s \<le> t" using b(4) m(1) assms(2) by (auto simp: om_ok_def sorted_wrt_append less_imp_le)
      then show ?thesis unfolding a(1) using b(1,2)
        by (metis assms(1) div_ceil_le dvdE le_trans mult.commute mult_le_mono1)
    qed
    then show ?thesis using Some sa a m(1) by (auto simp: fits_at_def)
  qed
qed

text \<open>
  C18. Allocating an aligned run, the place of a new inode chunk: for a group whose places and
  alignment are of 32 bits it never panics and never fails. It returns nothing exactly when fewer
  blocks than asked for are beyond the reserve or no free extent has an aligned run of them, and
  then changes nothing; otherwise it takes the lowest aligned run there is, the whole of it, and
  exactly that run leaves the free blocks.
\<close>

theorem alloc_aligned_spec:
  assumes "ag_inv ag" and "0 < len" and "0 < align" and "ag_length ag + align \<le> 2 ^ 32"
  shows "\<exists>r ag'. alloc_aligned len align ag = (Ok r, ag') \<and> ag_inv ag' \<and>
    (r = None \<longleftrightarrow> spare ag < len \<or> (\<forall>a. \<not> fits_at len align (set (ag_free ag)) a)) \<and>
    (case r of None \<Rightarrow> ag' = ag
     | Some a \<Rightarrow> fits_at len align (set (ag_free ag)) a \<and> (\<forall>b. fits_at len align (set (ag_free ag)) b \<longrightarrow> a \<le> b) \<and>
         {a..<a + len} \<subseteq> free_blocks ag \<and> free_blocks ag' = free_blocks ag - {a..<a + len} \<and>
         ag_free_total ag' = ag_free_total ag - len \<and> ag_chunks ag' = ag_chunks ag \<and> ag_rmap ag' = ag_rmap ag \<and> ag_dirty ag')"
proof (cases "spare ag < len")
  case True
  then show ?thesis using assms(1) by (simp add: alloc_aligned_def)
next
  case False
  note plain = aligned_in_plain [OF assms(1,3,4), of len] and found = find_map_aligned [OF assms(3) ag_invD(1) [OF assms(1)], of len]
  show ?thesis
  proof (cases "find_map_res (aligned_in len align) (ag_free ag) = Ok None")
    case True
    then have "alloc_aligned len align ag = (Ok None, ag)" using False by (simp add: alloc_aligned_def seq_def lift_def ret_def)
    then show ?thesis using found plain True assms(1) by auto
  next
    case no: False
    then obtain a where a: "find_map_res (aligned_in len align) (ag_free ag) = Ok (Some a)"
      "fits_at len align (set (ag_free ag)) a" "\<forall>b. fits_at len align (set (ag_free ag)) b \<longrightarrow> a \<le> b"
      using plain found by (auto split: option.splits)
    then obtain s n where sn: "(s, n) \<in> set (ag_free ag)" "s \<le> a" "a + len \<le> s + n" by (auto simp: fits_at_def)
    then obtain ag' where t: "take_run a len ag = (Ok (), ag')" "taken a len ag ag'"
      using take_run_ok [OF assms(1) sn(1-3) assms(2)] by auto
    then have "alloc_aligned len align ag = (Ok (Some a), ag')"
      using False a(1) by (simp add: alloc_aligned_def seq_def lift_def ret_def)
    then show ?thesis
      using t(2) a(2,3) False taken_total [OF assms(1) t(2)] same_but_freeD(3,4) by (auto simp: taken_def)
  qed
qed

theorem alloc_aligned_spec_witness:
  "ag_inv demo_ag \<and> (\<exists>ag'. alloc_aligned 4 8 demo_ag = (Ok (Some 16), ag') \<and> free_blocks ag' = {10..<16} \<union> {20..<30} \<union> {40..<45})"
proof -
  have E: "set (ag_free demo_ag) = {(10, 20), (40, 5)}" by (simp add: demo_ag_def)
  have f: "fits_at 4 8 (set (ag_free demo_ag)) 16" by (simp add: E fits_at_def)
  have sp: "spare demo_ag = 23" "ag_length demo_ag + 8 \<le> 2 ^ 32" by (simp_all add: spare_def demo_ag_def)
  obtain r ag' where a: "alloc_aligned 4 8 demo_ag = (Ok r, ag')" "r \<noteq> None"
    "case r of None \<Rightarrow> True | Some a \<Rightarrow> fits_at 4 8 (set (ag_free demo_ag)) a \<and> a \<le> 16 \<and> free_blocks ag' = free_blocks demo_ag - {a..<a + 4}"
    using alloc_aligned_spec [OF demo_ag_inv(1), of 4 8] sp f by (fastforce split: option.splits)
  then obtain p where p: "r = Some p" "fits_at 4 8 (set (ag_free demo_ag)) p" "p \<le> 16" "free_blocks ag' = free_blocks demo_ag - {p..<p + 4}" by auto
  have "p = 16" using p(2,3) by (auto simp: E fits_at_def dvd_def)
  then show ?thesis using a(1) p demo_ag_inv by auto
qed

text \<open>
  C36. Freeing a run succeeds exactly when the run is not empty, lies in the group and has no
  free block; then exactly its blocks join the free blocks, merged with their neighbours, and
  the total grows by its length. Otherwise it is an error, never a panic.
\<close>

theorem free_extent_spec:
  assumes "ag_inv ag"
  shows "if 0 < n \<and> start + n \<le> ag_length ag \<and> {start..<start + n} \<inter> free_blocks ag = {}
    then \<exists>ag'. free_extent start n ag = (Ok (), ag') \<and> ag_inv ag' \<and>
      free_blocks ag' = free_blocks ag \<union> {start..<start + n} \<and> ag_free_total ag' = ag_free_total ag + n
    else \<exists>ag'. free_extent start n ag = (Err Corrupt, ag')"
proof (cases "0 < n \<and> start + n \<le> ag_length ag \<and> {start..<start + n} \<inter> free_blocks ag = {}")
  case True
  then obtain ag' where f: "free_extent start n ag = (Ok (), ag')" "given start n ag ag'"
    using free_extent_ok [OF assms] by blast
  have "card (free_blocks ag \<union> {start..<start + n}) = card (free_blocks ag) + n"
    using True ag_invD(4) [OF assms] by (subst card_Un_disjoint) auto
  then have "ag_free_total ag' = ag_free_total ag + n"
    using f(2) ag_invD(3) [OF assms] ag_invD(3) [of ag'] by (simp add: given_def)
  then show ?thesis using True f by (auto simp: given_def)
next
  case False
  then show ?thesis using free_extent_err [OF assms, of n start] by auto
qed

theorem free_extent_spec_witness:
  "\<exists>ag'. free_extent 30 10 demo_ag = (Ok (), ag') \<and> ag_inv ag' \<and> free_blocks ag' = {10..<45}"
proof -
  have "{30..<40} \<inter> free_blocks demo_ag = {}" unfolding demo_ag_inv(2) by auto
  moreover have "{10..<30} \<union> {40..<45} \<union> {30..<40} = {10..<45 :: nat}" by auto
  ultimately show ?thesis
    using free_extent_spec [OF demo_ag_inv(1), of 10 30] unfolding demo_ag_inv(2) by (auto simp: demo_ag_def)
qed

text \<open>
  An error from \<open>free_extent\<close> can lose free blocks: freeing a run that starts right after
  a free extent and runs into the next one is refused, but the free extent before it has
  already been taken out of the map, and its blocks are no longer free (nor counted out).
\<close>

lemma free_extent_error_loses_blocks:
  "ag_inv demo_ag \<and>
   (\<exists>ag'. free_extent 30 12 demo_ag = (Err Corrupt, ag') \<and> free_blocks ag' = {40..<45} \<and>
      ag_free_total ag' = ag_free_total demo_ag \<and> \<not> ag_inv ag')"
proof -
  let ?ag = "demo_ag\<lparr>ag_free := [(40, 5)]\<rparr>"
  have "free_extent 30 12 demo_ag = (Err Corrupt, ?ag)"
    by (simp add: free_extent_def demo_ag_def om_below_def next_back_def om_from_def om_remove_def Let_def)
  moreover have "free_blocks ?ag = {40..<45}" by (simp add: free_blocks_def)
  moreover have "\<not> ag_inv ?ag" by (simp add: ag_inv_def demo_ag_def free_blocks_def)
  ultimately show ?thesis using demo_ag_inv(1) by simp
qed

text \<open>
  C37. Carving blocks for the trees: it ends, never panics, and either takes exactly \<open>n\<close> free
  blocks as disjoint non-empty runs in ascending order, or, only when fewer than \<open>n\<close> blocks
  are free, reports no space.
\<close>

theorem carve_spec:
  assumes "ag_inv ag"
  shows "(\<exists>runs ag'. carve n ag = (Ok runs, ag') \<and> ag_inv ag' \<and> sorted runs \<and> distinct (expand runs) \<and>
      length (expand runs) = n \<and> set (expand runs) \<subseteq> free_blocks ag \<and> free_blocks ag' = free_blocks ag - set (expand runs)) \<or>
    (\<exists>ag'. carve n ag = (Err NoSpace, ag') \<and> ag_free_total ag < n)"
proof -
  obtain r ag' where r: "carve n ag = (r, ag')" "ag_inv ag'"
    "case r of Ok runs \<Rightarrow> sorted runs \<and> carved n runs ag ag'
       | Err e \<Rightarrow> e = NoSpace \<and> ag_free_total ag < n | Panic \<Rightarrow> False"
    using carve_ok [OF assms] by blast
  have len: "length (expand runs) = sum_list (map snd runs)" for runs
    by (induction runs) (auto simp: expand_def)
  have "set (expand runs) = cover (set runs)" for runs by (simp add: expand_def cover_def split_beta)
  then show ?thesis
    using r len by (cases r) (auto simp: carved_def expand_def [symmetric])
qed

theorem carve_spec_witness: "\<exists>runs ag'. carve 22 demo_ag = (Ok runs, ag') \<and> length (expand runs) = 22"
  using carve_spec [OF demo_ag_inv(1), of 22] by (auto simp: demo_ag_def)

end
