(* ===== verification/AgInodes.thy ===== *)
theory AgInodes
  imports Alloc
begin

text \<open>
  The inode chunks and the reverse mappings of an allocation group (\<open>src/src/alloc.rs\<close>, the
  methods defined in \<open>Alloc\<close>): inode allocation as a set of free inode numbers, and the
  reverse mappings as a relation between blocks and owners that merging does not change.
\<close>

unbundle bit_operations_syntax

section \<open>Bits of a chunk\<close>

lemma word64_bit: "(w :: 64 word) \<noteq> 0 \<longleftrightarrow> (\<exists>i < 64. bit w i)"
proof
  assume "w \<noteq> 0"
  then obtain i where "bit w i" by (auto simp: bit_eq_iff)
  moreover then have "i < 64" using bit_imp_le_length [of w i] by simp
  ultimately show "\<exists>i < 64. bit w i" by blast
qed auto

lemma count_ones_pos: "0 < count_ones w \<longleftrightarrow> w \<noteq> 0"
  unfolding word64_bit count_ones_def by (auto simp: filter_empty_conv)

lemma trailing_zeros_bit:
  assumes "w \<noteq> 0"
  shows "trailing_zeros w < 64" "bit w (trailing_zeros w)"
proof -
  have "filter (bit w) [0..<64] \<noteq> []" using assms unfolding word64_bit by (auto simp: filter_empty_conv)
  from hd_in_set [OF this] show "trailing_zeros w < 64" "bit w (trailing_zeros w)"
    by (simp_all add: trailing_zeros_def)
qed

lemma bit_clear: "i < 64 \<Longrightarrow> bit ((w :: 64 word) AND NOT (2 ^ i)) j \<longleftrightarrow> bit w j \<and> j \<noteq> i"
  using bit_imp_le_length [of w j] by (auto simp: bit_simps)

lemma bit_set: "i < 64 \<Longrightarrow> bit ((w :: 64 word) OR 2 ^ i) j \<longleftrightarrow> bit w j \<or> j = i"
  by (auto simp: bit_simps)

lemma and_single: "i < 64 \<Longrightarrow> (w :: 64 word) AND 2 ^ i = 0 \<longleftrightarrow> \<not> bit w i"
  using word64_bit [of "w AND 2 ^ i"] by (auto simp: bit_simps)

section \<open>Inodes as sets of numbers\<close>

definition usable :: "chunk \<Rightarrow> 64 word" where
  "usable c = ch_free c AND NOT (holes c)"

definition free_inos :: "ag \<Rightarrow> nat set" where
  "free_inos ag = {start + i | start c i. (start, c) \<in> set (ag_chunks ag) \<and> i < 64 \<and> bit (usable c) i}"

definition used_inos :: "ag \<Rightarrow> nat set" where
  "used_inos ag = {start + i | start c i. (start, c) \<in> set (ag_chunks ag) \<and> i < 64 \<and> \<not> bit (ch_free c) i}"

text \<open>Chunks that do not overlap, inside 32-bit numbers, with holes marked free.\<close>

definition chunks_ok :: "ag \<Rightarrow> bool" where
  "chunks_ok ag \<longleftrightarrow> om_ok (ag_chunks ag) \<and>
     (\<forall>start c. (start, c) \<in> set (ag_chunks ag) \<longrightarrow> start + 64 < 2 ^ 32 \<and> (\<forall>i < 64. bit (holes c) i \<longrightarrow> bit (ch_free c) i)) \<and>
     (\<forall>s c s' c'. (s, c) \<in> set (ag_chunks ag) \<longrightarrow> (s', c') \<in> set (ag_chunks ag) \<longrightarrow> s < s' \<longrightarrow> s + 64 \<le> s')"

lemma chunks_okD:
  assumes "chunks_ok ag"
  shows "om_ok (ag_chunks ag)" "(start, c) \<in> set (ag_chunks ag) \<Longrightarrow> start + 64 < 2 ^ 32"
    "(start, c) \<in> set (ag_chunks ag) \<Longrightarrow> i < 64 \<Longrightarrow> bit (holes c) i \<Longrightarrow> bit (ch_free c) i"
    "(s, c) \<in> set (ag_chunks ag) \<Longrightarrow> (s', c') \<in> set (ag_chunks ag) \<Longrightarrow> s < s' \<Longrightarrow> s + 64 \<le> s'"
  using assms unfolding chunks_ok_def by blast+

text \<open>A number in a chunk determines the chunk and the index.\<close>

lemma chunk_unique:
  assumes "chunks_ok ag" and "(s, c) \<in> set (ag_chunks ag)" and "(s', c') \<in> set (ag_chunks ag)"
    and "s + i = s' + i'" and "i < 64" and "i' < 64"
  shows "s = s' \<and> c = c' \<and> i = i'"
proof -
  have "s = s'"
    using chunks_okD(4) [OF assms(1,2,3)] chunks_okD(4) [OF assms(1,3,2)] assms(4-6) by (cases s s' rule: linorder_cases) auto
  then show ?thesis using om.unique [OF chunks_okD(1) [OF assms(1)], of s c c'] assms(2-4) by simp
qed

lemma in_free_inos:
  assumes "chunks_ok ag" and "(s, c) \<in> set (ag_chunks ag)" and "i < 64"
  shows "s + i \<in> free_inos ag \<longleftrightarrow> bit (usable c) i" "s + i \<in> used_inos ag \<longleftrightarrow> \<not> bit (ch_free c) i"
proof -
  have *: "s + i \<in> {t + j | t d j. (t, d) \<in> set (ag_chunks ag) \<and> j < 64 \<and> P d j} \<longleftrightarrow> P c i" for P
    using chunk_unique [OF assms(1,2)] assms(2,3) by blast
  show "s + i \<in> free_inos ag \<longleftrightarrow> bit (usable c) i" "s + i \<in> used_inos ag \<longleftrightarrow> \<not> bit (ch_free c) i"
    unfolding free_inos_def used_inos_def by (rule *)+
qed

text \<open>Replacing the free bits of one chunk.\<close>

lemma set_free_bits:
  assumes "chunks_ok ag" and "(s, c) \<in> set (ag_chunks ag)" and "k < 64"
    and "\<And>i. i < 64 \<Longrightarrow> i \<noteq> k \<Longrightarrow> bit w i = bit (ch_free c) i" and "bit (holes c) k \<longrightarrow> bit w k"
  defines "ag' \<equiv> ag\<lparr>ag_chunks := om_insert s (c\<lparr>ch_free := w\<rparr>) (ag_chunks ag), ag_dirty := True\<rparr>"
  shows "chunks_ok ag'"
    and "free_inos ag' = (if bit w k \<and> \<not> bit (holes c) k then insert (s + k) (free_inos ag) else free_inos ag - {s + k})"
    and "used_inos ag' = (if bit w k then used_inos ag - {s + k} else insert (s + k) (used_inos ag))"
proof -
  note ok = chunks_okD [OF assms(1)]
  have holes: "holes (c\<lparr>ch_free := w\<rparr>) = holes c" by (simp add: holes_def)
  have set: "set (ag_chunks ag') = insert (s, c\<lparr>ch_free := w\<rparr>) (set (ag_chunks ag) - {(s, c)})"
  proof -
    have "{p \<in> set (ag_chunks ag). fst p \<noteq> s} = set (ag_chunks ag) - {(s, c)}"
      using om.remove_entry [OF ok(1) assms(2)] by (simp only: om.remove_entries)
    then show ?thesis by (simp add: ag'_def om.insert_entries [OF ok(1)])
  qed
  let ?C = "set (ag_chunks ag) - {(s, c)}" and ?c = "c\<lparr>ch_free := w\<rparr>"
  have apart: "t + 64 \<le> s \<or> s + 64 \<le> t" if "(t, d) \<in> ?C" for t d
  proof (cases t s rule: linorder_cases)
    case less
    then show ?thesis using that ok(4) [of t d s c] assms(2) by blast
  next
    case equal
    then show ?thesis using that om.unique [OF ok(1) assms(2), of d] by blast
  next
    case greater
    then show ?thesis using that ok(4) [of s c t d] assms(2) by blast
  qed
  show "chunks_ok ag'"
    unfolding chunks_ok_def
  proof (intro conjI allI impI)
    show "om_ok (ag_chunks ag')" using ok(1) by (simp add: ag'_def om.insert_ok)
    fix t d assume td: "(t, d) \<in> set (ag_chunks ag')"
    show "t + 64 < 2 ^ 32" using td ok(2) assms(2) unfolding set by auto
    show "bit (ch_free d) i" if "i < 64" "bit (holes d) i" for i
      using td that ok(3) assms(2,4,5) holes unfolding set by (cases "i = k") (auto split: if_splits)
    fix t' d' assume "(t', d') \<in> set (ag_chunks ag')" "t < t'"
    then show "t + 64 \<le> t'" using td ok(4) assms(2) unfolding set by auto
  qed
  have split: "{t + i | t d i. (t, d) \<in> insert (s, e) ?C \<and> i < 64 \<and> P d i}
      = {t + i | t d i. (t, d) \<in> ?C \<and> i < 64 \<and> P d i} \<union> {s + i | i. i < 64 \<and> P e i}" for P e
    by blast
  have out: "s + k \<notin> {t + i | t d i. (t, d) \<in> ?C \<and> i < 64 \<and> P d i}" for P
    using apart assms(3) by force
  have ins: "set (ag_chunks ag) = insert (s, c) ?C" using assms(2) by blast
  have upd: "{s + i | i. i < 64 \<and> Q i} = (if Q k then insert (s + k) {s + i | i. i < 64 \<and> P i} else {s + i | i. i < 64 \<and> P i} - {s + k})"
    if "\<And>i. i < 64 \<Longrightarrow> i \<noteq> k \<Longrightarrow> Q i = P i" for P Q :: "nat \<Rightarrow> bool"
    using that assms(3) by auto
  have free_def: "free_inos ag = {t + i | t d i. (t, d) \<in> ?C \<and> i < 64 \<and> bit (usable d) i} \<union> {s + i | i. i < 64 \<and> bit (usable c) i}"
    "free_inos ag' = {t + i | t d i. (t, d) \<in> ?C \<and> i < 64 \<and> bit (usable d) i} \<union> {s + i | i. i < 64 \<and> bit (usable ?c) i}"
    unfolding free_inos_def set by (subst ins, rule split) (rule split)
  have used_def: "used_inos ag = {t + i | t d i. (t, d) \<in> ?C \<and> i < 64 \<and> \<not> bit (ch_free d) i} \<union> {s + i | i. i < 64 \<and> \<not> bit (ch_free c) i}"
    "used_inos ag' = {t + i | t d i. (t, d) \<in> ?C \<and> i < 64 \<and> \<not> bit (ch_free d) i} \<union> {s + i | i. i < 64 \<and> \<not> bit (ch_free ?c) i}"
    unfolding used_inos_def set by (subst ins, rule split) (rule split)
  have bits: "bit (usable ?c) i \<longleftrightarrow> bit w i \<and> \<not> bit (holes c) i" "bit (usable c) i \<longleftrightarrow> bit (ch_free c) i \<and> \<not> bit (holes c) i" if "i < 64" for i
    using that by (simp_all add: usable_def holes bit_simps)
  have uf: "{s + i | i. i < 64 \<and> bit (usable ?c) i} = (if bit (usable ?c) k then insert (s + k) {s + i | i. i < 64 \<and> bit (usable c) i}
      else {s + i | i. i < 64 \<and> bit (usable c) i} - {s + k})"
    by (rule upd) (simp add: bits assms(4))
  have uu: "{s + i | i. i < 64 \<and> \<not> bit (ch_free ?c) i} = (if \<not> bit (ch_free ?c) k then insert (s + k) {s + i | i. i < 64 \<and> \<not> bit (ch_free c) i}
      else {s + i | i. i < 64 \<and> \<not> bit (ch_free c) i} - {s + k})"
    by (rule upd) (simp add: assms(4))
  show "free_inos ag' = (if bit w k \<and> \<not> bit (holes c) k then insert (s + k) (free_inos ag) else free_inos ag - {s + k})"
    unfolding free_def uf using out [of "\<lambda>d. bit (usable d)"] bits(1) [OF assms(3)] by auto
  show "used_inos ag' = (if bit w k then used_inos ag - {s + k} else insert (s + k) (used_inos ag))"
    unfolding used_def uu using out [of "\<lambda>d i. \<not> bit (ch_free d) i"] by auto
qed

lemma first_free_eq: "first_free c = (if usable c \<noteq> 0 then Some (trailing_zeros (usable c)) else None)"
  by (simp add: first_free_def usable_def Let_def)

lemma free_count_eq: "0 < free_count c \<longleftrightarrow> usable c \<noteq> 0"
  by (simp add: free_count_def usable_def count_ones_pos del: neq0_conv)

lemma free_count_0: "free_count c = 0 \<longleftrightarrow> usable c = 0"
  using free_count_eq [of c] by auto

lemma holes_0: "ch_holemask c = 0 \<Longrightarrow> holes c = 0"
proof -
  have "foldl (\<lambda>m i. m) a xs = a" for a :: "64 word" and xs :: "nat list" by (induction xs) simp_all
  then show "ch_holemask c = 0 \<Longrightarrow> holes c = 0" by (simp add: holes_def)
qed

lemma alloc_inode_ok:
  assumes "chunks_ok ag"
  shows "\<exists>r ag'. alloc_inode ag = (Ok r, ag') \<and> chunks_ok ag' \<and>
    (case r of None \<Rightarrow> ag' = ag \<and> free_inos ag = {}
     | Some n \<Rightarrow> n \<in> free_inos ag \<and> free_inos ag' = free_inos ag - {n} \<and> used_inos ag' = insert n (used_inos ag))"
proof (cases "List.find (\<lambda>(_, c). 0 < free_count c) (ag_chunks ag)")
  case None
  then have "\<forall>p \<in> set (ag_chunks ag). usable (snd p) = 0"
    by (auto simp: find_None_iff free_count_0)
  then have "free_inos ag = {}" by (fastforce simp: free_inos_def)
  then show ?thesis using None assms by (simp add: alloc_inode_def)
next
  case (Some p)
  obtain s c where p: "p = (s, c)" by (cases p)
  have mem: "(s, c) \<in> set (ag_chunks ag)" and "0 < free_count c" using find_Some_in [OF Some] p by auto
  then have u: "usable c \<noteq> 0" by (simp add: free_count_eq)
  define k where "k = trailing_zeros (usable c)"
  have k: "k < 64" "bit (usable c) k" using trailing_zeros_bit [OF u] by (simp_all add: k_def)
  have nh: "\<not> bit (holes c) k" using k by (simp add: usable_def bit_simps)
  let ?w = "ch_free c AND NOT (2 ^ k)"
  let ?ag = "ag\<lparr>ag_chunks := om_insert s (c\<lparr>ch_free := ?w\<rparr>) (ag_chunks ag), ag_dirty := True\<rparr>"
  have w: "\<not> bit ?w k" using k(1) by (simp add: bit_clear)
  note upd = set_free_bits [OF assms mem k(1), of ?w]
  have "chunks_ok ?ag" "free_inos ?ag = free_inos ag - {s + k}" "used_inos ?ag = insert (s + k) (used_inos ag)"
    using upd k(1) nh w by (simp_all add: bit_clear)
  moreover have "alloc_inode ag = (Ok (Some (s + k)), ?ag)"
    using Some p u chunks_okD(2) [OF assms mem] k(1)
    by (simp add: alloc_inode_def first_free_eq k_def add_w_def ret_def Let_def)
  moreover have "s + k \<in> free_inos ag" using in_free_inos(1) [OF assms mem k(1)] k(2) by simp
  ultimately show ?thesis by simp
qed

lemma free_inode_ok:
  assumes "chunks_ok ag"
  shows "if n \<in> used_inos ag
    then \<exists>ag'. free_inode n ag = (Ok (), ag') \<and> chunks_ok ag' \<and> used_inos ag' = used_inos ag - {n} \<and>
           free_inos ag' = insert n (free_inos ag)
    else free_inode n ag = (Err Corrupt, ag)"
proof (cases "om_upto n (ag_chunks ag)")
  case None
  then have "\<forall>q \<in> set (ag_chunks ag). n < fst q" using om.upto_None [OF chunks_okD(1) [OF assms]] by blast
  then have "n \<notin> used_inos ag" by (fastforce simp: used_inos_def)
  then show ?thesis using None by (simp add: free_inode_def)
next
  case (Some p)
  obtain s c where p: "p = (s, c)" by (cases p)
  note near = om.upto_Some [OF chunks_okD(1) [OF assms], of n p]
  have mem: "(s, c) \<in> set (ag_chunks ag)" "s \<le> n" using Some near p by auto
  have small: "s + 64 < 2 ^ 32" by (rule chunks_okD(2) [OF assms mem(1)])
  show ?thesis
  proof (cases "n < s + 64")
    case False
    have "n \<notin> used_inos ag"
    proof
      assume "n \<in> used_inos ag"
      then obtain t d i where t: "(t, d) \<in> set (ag_chunks ag)" "n = t + i" "i < 64" by (auto simp: used_inos_def)
      then have "t \<le> s" using Some near p by auto
      then show False using False t by simp
    qed
    then show ?thesis using Some p small False by (simp add: free_inode_def add_w_def raise_def)
  next
    case True
    obtain k where k: "k < 64" "n = s + k" using True mem(2) by (metis less_add_eq_less le_Suc_ex nat_add_left_cancel_less)
    note used = in_free_inos(2) [OF assms mem(1) k(1), folded k(2)]
    show ?thesis
    proof (cases "bit (ch_free c) k")
      case True
      then show ?thesis
        using used Some p small k and_single [of k "ch_free c"] by (simp add: free_inode_def add_w_def raise_def Let_def)
    next
      case False
      let ?w = "ch_free c OR 2 ^ k"
      let ?ag = "ag\<lparr>ag_chunks := om_insert s (c\<lparr>ch_free := ?w\<rparr>) (ag_chunks ag), ag_dirty := True\<rparr>"
      have nh: "\<not> bit (holes c) k" using False chunks_okD(3) [OF assms mem(1) k(1)] by blast
      have w: "bit ?w k" using k(1) by (simp add: bit_set)
      note upd = set_free_bits [OF assms mem(1) k(1), of ?w]
      have "chunks_ok ?ag" "free_inos ?ag = insert n (free_inos ag)" "used_inos ?ag = used_inos ag - {n}"
        using upd k nh w by (simp_all add: bit_set)
      moreover have "free_inode n ag = (Ok (), ?ag)"
        using Some p small k and_single [of k "ch_free c"] False by (simp add: free_inode_def add_w_def modify_def Let_def)
      ultimately show ?thesis using used False by auto
    qed
  qed
qed

section \<open>Properties of inode allocation\<close>

text \<open>
  C38. Allocating an inode never panics; it returns nothing only when no inode is free and then
  changes nothing; otherwise the number returned was free, and is from then on in use, no other
  inode changing.
\<close>

theorem alloc_inode_spec:
  assumes "chunks_ok ag"
  shows "\<exists>r ag'. alloc_inode ag = (Ok r, ag') \<and> chunks_ok ag' \<and>
    (case r of None \<Rightarrow> ag' = ag \<and> free_inos ag = {}
     | Some n \<Rightarrow> n \<in> free_inos ag \<and> free_inos ag' = free_inos ag - {n} \<and> used_inos ag' = insert n (used_inos ag))"
  by (rule alloc_inode_ok [OF assms])

definition demo_chunks :: ag where
  "demo_chunks = demo_ag\<lparr>ag_chunks := [(64, \<lparr>ch_holemask = 0, ch_count = 64, ch_free = 6\<rparr>)]\<rparr>"

lemma demo_chunks_ok: "chunks_ok demo_chunks"
  by (simp add: chunks_ok_def demo_chunks_def om_ok_def holes_0)

lemma demo_chunk_free: "65 \<in> free_inos demo_chunks" "64 \<in> used_inos demo_chunks"
proof -
  have mem: "(64, \<lparr>ch_holemask = 0, ch_count = 64, ch_free = 6\<rparr>) \<in> set (ag_chunks demo_chunks)" by (simp add: demo_chunks_def)
  show "65 \<in> free_inos demo_chunks" "64 \<in> used_inos demo_chunks"
    using in_free_inos [OF demo_chunks_ok mem, of 1] in_free_inos [OF demo_chunks_ok mem, of 0] by (simp_all add: usable_def holes_0)
qed

theorem alloc_inode_spec_witness:
  "\<exists>n ag'. alloc_inode demo_chunks = (Ok (Some n), ag') \<and> n \<in> free_inos demo_chunks \<and> n \<notin> free_inos ag'"
  using alloc_inode_spec [OF demo_chunks_ok] demo_chunk_free(1) by (auto split: option.splits)

text \<open>
  C39. Freeing an inode succeeds exactly for the inodes in use and makes just that one free; for a
  free inode, a hole, or a number in no chunk it is an error and changes nothing.
\<close>

theorem free_inode_spec:
  assumes "chunks_ok ag"
  shows "if n \<in> used_inos ag
    then \<exists>ag'. free_inode n ag = (Ok (), ag') \<and> chunks_ok ag' \<and> used_inos ag' = used_inos ag - {n} \<and>
           free_inos ag' = insert n (free_inos ag)
    else free_inode n ag = (Err Corrupt, ag)"
  by (rule free_inode_ok [OF assms])

theorem free_inode_spec_witness:
  "(\<exists>ag'. free_inode 64 demo_chunks = (Ok (), ag') \<and> 64 \<in> free_inos ag')"
  using free_inode_spec [OF demo_chunks_ok, of 64] demo_chunk_free(2) by auto

section \<open>Reverse mappings as a relation\<close>

text \<open>
  Where a block of a mapping sits: in nothing for an owner that is not an inode, in the extent
  tree of a fork, or at an offset of a fork that grows with the block.
\<close>

definition place :: "rmap \<Rightarrow> nat \<Rightarrow> (nat \<times> nat) option" where
  "place r b =
     (if \<not> inode_owned r then None
      else if rm_offset r AND RMAPF_BMBT \<noteq> 0 then Some (rm_offset r AND not64 OFF_MASK, 0)
      else Some (rm_offset r AND not64 OFF_MASK, (rm_offset r AND OFF_MASK) + (b - rm_start r)))"

definition rm_rel :: "rmap \<Rightarrow> (nat \<times> nat \<times> (nat \<times> nat) option) set" where
  "rm_rel r = {(b, rm_owner r, place r b) | b. rm_start r \<le> b \<and> b < rm_start r + rm_len r}"

definition rms_rel :: "rmap list \<Rightarrow> (nat \<times> nat \<times> (nat \<times> nat) option) set" where
  "rms_rel rs = (\<Union>r \<in> set rs. rm_rel r)"

definition rm_fits :: "rmap \<Rightarrow> bool" where
  "rm_fits r \<longleftrightarrow> rm_start r + rm_len r < 2 ^ 32"

text \<open>Bit 62 is one of the flag bits.\<close>

lemma and_power_cong: "bit (x :: nat) k = bit y k \<Longrightarrow> x AND 2 ^ k = y AND 2 ^ k"
  by (rule bit_eqI) (auto simp: bit_and_iff bit_exp_iff)

lemma bmbt_flag: "(x :: nat) AND not64 OFF_MASK = y AND not64 OFF_MASK \<Longrightarrow> x AND RMAPF_BMBT = y AND RMAPF_BMBT"
proof -
  have "bit (0xffffffffffffffff - (2 ^ 54 - 1) :: nat) 62" by (simp add: bit_iff_odd)
  then have *: "bit z 62 \<longleftrightarrow> bit (z AND not64 OFF_MASK) 62" for z :: nat by (simp add: bit_and_iff)
  assume "x AND not64 OFF_MASK = y AND not64 OFF_MASK"
  then have "bit x 62 = bit y 62" using * [of x] * [of y] by simp
  then show ?thesis using and_power_cong [of x 62 y] by simp
qed

lemma merge_rel:
  assumes "merges_with p r = Ok True"
  shows "rm_rel (p\<lparr>rm_len := rm_len p + rm_len r\<rparr>) = rm_rel p \<union> rm_rel r" "rm_fits r \<Longrightarrow> rm_fits (p\<lparr>rm_len := rm_len p + rm_len r\<rparr>)"
proof -
  have own: "rm_owner p = rm_owner r" and adj: "rm_start p + rm_len p = rm_start r"
    and in_fork: "inode_owned p \<Longrightarrow> rm_offset p AND not64 OFF_MASK = rm_offset r AND not64 OFF_MASK \<and>
      (rm_offset p AND RMAPF_BMBT \<noteq> 0 \<or> (rm_offset p AND OFF_MASK) + rm_len p = rm_offset r AND OFF_MASK)"
    using assms by (auto simp: merges_with_def rm_end_def add_w_def res_simps split: if_splits)
  have io: "inode_owned r = inode_owned p" using own by (simp add: inode_owned_def)
  let ?m = "p\<lparr>rm_len := rm_len p + rm_len r\<rparr>"
  have pm: "place ?m b = place p b" for b by (simp add: place_def inode_owned_def)
  have pr: "place r b = place p b" if "rm_start r \<le> b" for b
  proof (cases "inode_owned p")
    case True
    note f = in_fork [OF True]
    have "rm_offset r AND RMAPF_BMBT = rm_offset p AND RMAPF_BMBT" using bmbt_flag [OF conjunct1 [OF f]] by simp
    then show ?thesis using f adj that io True unfolding place_def by auto
  next
    case False
    then show ?thesis by (simp add: place_def io)
  qed
  show "rm_rel ?m = rm_rel p \<union> rm_rel r"
    unfolding rm_rel_def using own adj pr by (auto simp: pm) 
  show "rm_fits r \<Longrightarrow> rm_fits ?m" using adj by (simp add: rm_fits_def)
qed

lemma merges_total: "rm_fits p \<Longrightarrow> \<exists>b. merges_with p r = Ok b"
  by (auto simp: merges_with_def rm_end_def add_w_def rm_fits_def)

lemma merges_longer:
  "merges_with p r = Ok False \<Longrightarrow> merges_with p (r\<lparr>rm_len := rm_len r + k\<rparr>) = Ok False"
  by (auto simp: merges_with_def rm_end_def add_w_def res_simps split: if_splits)

text \<open>No record in the list continues the one before it; the list is kept reversed.\<close>

definition settled :: "rmap list \<Rightarrow> bool" where
  "settled out \<longleftrightarrow> (\<forall>i. Suc i < length out \<longrightarrow> merges_with (out ! Suc i) (out ! i) = Ok False)"

lemma settled_Cons: "settled (r # p # out) \<longleftrightarrow> merges_with p r = Ok False \<and> settled (p # out)"
  by (auto simp: settled_def nth_Cons split: nat.splits)

lemma merge_into_ok:
  assumes "list_all rm_fits (out @ rs)" and "settled out"
  shows "\<exists>res. merge_into out rs = Ok res \<and> rms_rel res = rms_rel out \<union> rms_rel rs \<and> settled (rev res)"
  using assms
proof (induction out rs rule: merge_into.induct)
  case (1 out)
  then show ?case by (auto simp: rms_rel_def)
next
  case (2 r rs)
  then show ?case by (auto simp: rms_rel_def settled_def)
next
  case (3 p out r rs)
  obtain b where b: "merges_with p r = Ok b" using merges_total 3(3) by fastforce
  show ?case
  proof (cases b)
    case True
    let ?m = "p\<lparr>rm_len := rm_len p + rm_len r\<rparr>"
    have "merges_with p r = Ok True" using b True by simp
    note m = merge_rel [OF this]
    have "settled (?m # out)"
      using 3(4) merges_longer by (cases out) (simp_all add: settled_Cons, simp add: settled_def)
    then obtain res where "merge_into (?m # out) rs = Ok res" "rms_rel res = rms_rel (?m # out) \<union> rms_rel rs" "settled (rev res)"
      using "3.IH"(1) [OF b True] 3(3) m(2) by auto
    then show ?thesis using b True m(1) by (auto simp: rms_rel_def)
  next
    case False
    have "settled (r # p # out)" using b False 3(4) by (simp add: settled_Cons)
    then obtain res where "merge_into (r # p # out) rs = Ok res" "rms_rel res = rms_rel (r # p # out) \<union> rms_rel rs" "settled (rev res)"
      using "3.IH"(2) [OF b False] 3(3) by auto
    then show ?thesis using b False by (auto simp: rms_rel_def)
  qed
qed

text \<open>
  Merging the reverse mappings keeps what they say: as long as no record runs past the
  32-bit block numbers, \<open>merged_rmap\<close> returns records that give every block the same owners
  at the same places in their forks, and no record in the result continues the one before it.
\<close>

lemma merged_rmap_same:
  assumes "\<forall>p \<in> set (ag_rmap ag). rm_fits (snd p)"
  shows "\<exists>rs. merged_rmap ag = Ok rs \<and> rms_rel rs = rms_rel (map snd (ag_rmap ag)) \<and>
    (\<forall>i. Suc i < length rs \<longrightarrow> merges_with (rs ! i) (rs ! Suc i) = Ok False)"
proof -
  obtain rs where rs: "merged_rmap ag = Ok rs" "rms_rel rs = rms_rel (map snd (ag_rmap ag))" "settled (rev rs)"
    using merge_into_ok [of "[]" "map snd (ag_rmap ag)"] assms
    by (auto simp: merged_rmap_def list_all_iff settled_def rms_rel_def)
  have "merges_with (rs ! i) (rs ! Suc i) = Ok False" if "Suc i < length rs" for i
  proof -
    let ?j = "length rs - Suc (Suc i)"
    have "merges_with (rev rs ! Suc ?j) (rev rs ! ?j) = Ok False" using rs(3) that by (auto simp: settled_def)
    moreover have "rev rs ! Suc ?j = rs ! i" "rev rs ! ?j = rs ! Suc i" using that by (simp_all add: rev_nth Suc_diff_Suc)
    ultimately show ?thesis by simp
  qed
  then show ?thesis using rs by blast
qed

definition demo_rmap :: "nat \<Rightarrow> nat \<Rightarrow> rmap_key \<times> rmap" where
  "demo_rmap s off = (let r = \<lparr>rm_start = s, rm_owner = 131, rm_offset = off, rm_len = 2\<rparr> in (rm_key r, r))"

lemma merged_rmap_same_witness:
  "\<exists>rs. merged_rmap (demo_ag\<lparr>ag_rmap := [demo_rmap 50 0, demo_rmap 52 2]\<rparr>) = Ok rs \<and>
     rms_rel rs = rms_rel (map snd [demo_rmap 50 0, demo_rmap 52 2])"
  using merged_rmap_same [of "demo_ag\<lparr>ag_rmap := [demo_rmap 50 0, demo_rmap 52 2]\<rparr>"]
  by (auto simp: demo_rmap_def rm_fits_def Let_def)

end
