(* ===== verification/AgDisk.thy ===== *)
theory AgDisk
  imports AgInodes
begin

text \<open>
  An allocation group on the device (\<open>src/src/alloc.rs\<close>): \<open>Ag::load\<close> reads the headers, the
  five B+trees and the free list into the record of \<open>Alloc\<close>; \<open>Ag::rebuild\<close> lays the trees
  out afresh and returns every block and header to write. The lemmas show that a group read
  is well-formed, that a rebuild keeps every block accounted for, and that what it writes is
  read back by \<open>load\<close> as the state it was built from.
\<close>

unbundle bit_operations_syntax

section \<open>Reading a group\<close>

abbreviation (input) "AGF_MAGIC \<equiv> 0x58414746 :: nat"
abbreviation (input) "AGI_MAGIC \<equiv> 0x58414749 :: nat"
abbreviation (input) "AGFL_MAGIC \<equiv> 0x5841464c :: nat"
abbreviation (input) "AGF_CRC \<equiv> 216 :: nat"
abbreviation (input) "AGI_CRC \<equiv> 312 :: nat"
abbreviation (input) "AGFL_CRC \<equiv> 32 :: nat"

definition header_at :: "superblock \<Rightarrow> nat \<Rightarrow> nat \<Rightarrow> nat" where
  "header_at sb agno n = agb_to_byte sb agno 0 + n * sb_sector_size sb"

definition check_header :: "byte list \<Rightarrow> nat \<Rightarrow> nat \<Rightarrow> nat \<Rightarrow> unit res" where
  "check_header buf magic crc agno =
     and_then (be32 buf 0) (\<lambda>m.
     if m \<noteq> magic \<or> \<not> verify buf crc then Err Corrupt
     else and_then (be32 buf 8) (\<lambda>no. if no \<noteq> agno then Err Corrupt else Ok ()))"

definition read_headers :: "'d device_ops \<Rightarrow> 'd \<Rightarrow> superblock \<Rightarrow> nat \<Rightarrow> (byte list \<times> byte list) res" where
  "read_headers ops dev sb agno =
     and_then (dev_read_at ops dev (header_at sb agno 1) (sect sb)) (\<lambda>agf.
     and_then (dev_read_at ops dev (header_at sb agno 2) (sect sb)) (\<lambda>agi.
     and_then (check_header agf AGF_MAGIC AGF_CRC agno) (\<lambda>_.
     and_then (check_header agi AGI_MAGIC AGI_CRC agno) (\<lambda>_.
     Ok (agf, agi)))))"

definition agf_free_blocks :: "byte list \<Rightarrow> nat res" where
  "agf_free_blocks agf =
     and_then (be32 agf 52) (\<lambda>a. and_then (be32 agf 48) (\<lambda>b. and_then (be32 agf 60) (\<lambda>c. Ok (a + b + c))))"

definition agi_inodes :: "byte list \<Rightarrow> (nat \<times> nat) res" where
  "agi_inodes agi = and_then (be32 agi 16) (\<lambda>a. and_then (be32 agi 28) (\<lambda>b. Ok (a, b)))"

text \<open>The free extents, which must come in order, not overlap and lie in the group.\<close>

definition free_record :: "nat \<Rightarrow> byte list \<Rightarrow> nat \<times> (nat, nat) btree_map \<Rightarrow> (nat \<times> (nat, nat) btree_map) res" where
  "free_record len r = (\<lambda>(last_end, free).
     and_then (be32 r 0) (\<lambda>start.
     and_then (be32 r 4) (\<lambda>n.
     if n = 0 \<or> start < last_end \<or> start + n > len then Err Corrupt
     else Ok (start + n, om_insert start n free))))"

definition free_records :: "nat \<Rightarrow> byte list list \<Rightarrow> (nat, nat) btree_map res" where
  "free_records len recs = map_ok snd (fold_res (free_record len) recs (0, []))"

definition rmap_decode :: "byte list \<Rightarrow> rmap res" where
  "rmap_decode r =
     and_then (be32 r 0) (\<lambda>start.
     and_then (be32 r 4) (\<lambda>len.
     and_then (be64 r 8) (\<lambda>owner.
     and_then (be64 r 16) (\<lambda>offset.
     Ok \<lparr>rm_start = start, rm_owner = owner, rm_offset = offset, rm_len = len\<rparr>))))"

definition rmap_records :: "byte list list \<Rightarrow> rmap_set res" where
  "rmap_records recs =
     fold_res (\<lambda>r rmap. and_then (rmap_decode r) (\<lambda>m. Ok (om_insert (rm_key m) m rmap))) recs []"

definition chunk_decode :: "superblock \<Rightarrow> byte list \<Rightarrow> (nat \<times> chunk) res" where
  "chunk_decode sb r =
     and_then (be32 r 0) (\<lambda>start.
     if has_sparse_inodes sb then
       and_then (be16 r 4) (\<lambda>holemask.
       and_then (index r 6) (\<lambda>count.
       and_then (be64 r 8) (\<lambda>free.
       Ok (start, \<lparr>ch_holemask = holemask, ch_count = unat count, ch_free = word_of_nat free\<rparr>))))
     else
       and_then (be64 r 8) (\<lambda>free.
       Ok (start, \<lparr>ch_holemask = 0, ch_count = CHUNK_INODES, ch_free = word_of_nat free\<rparr>)))"

definition chunk_records :: "superblock \<Rightarrow> byte list list \<Rightarrow> (nat, chunk) btree_map res" where
  "chunk_records sb recs =
     fold_res (\<lambda>r chunks. and_then (chunk_decode sb r) (\<lambda>(start, c). Ok (om_insert start c chunks))) recs []"

text \<open>
  The free list is a ring of slots: the slots from one to another, in order. The loop
  ends when both are slots of the ring (\<open>ring_slots\<close>).
\<close>

partial_function (option) agfl_loop :: "nat \<Rightarrow> nat \<Rightarrow> nat \<Rightarrow> nat list option" where
  "agfl_loop ring stop i =
     (if i = stop then Some [i]
      else Option.bind (agfl_loop ring stop ((i + 1) mod ring)) (\<lambda>slots. Some (i # slots)))"

declare agfl_loop.simps [code]

definition read_agfl :: "superblock \<Rightarrow> byte list \<Rightarrow> byte list \<Rightarrow> nat list res" where
  "read_agfl sb agf agfl_buf =
     and_then (be32 agfl_buf 0) (\<lambda>magic.
     if magic \<noteq> AGFL_MAGIC \<or> \<not> verify agfl_buf AGFL_CRC then Err Corrupt
     else
     and_then (map_ok (\<lambda>n. n div 4) (sub_w (sect sb) 36)) (\<lambda>ring.
     and_then (be32 agf 40) (\<lambda>first.
     and_then (be32 agf 44) (\<lambda>stop.
     and_then (be32 agf 48) (\<lambda>count.
     if count > 0 then
       if first \<ge> ring \<or> stop \<ge> ring then Err Corrupt
       else
         and_then (returns (agfl_loop ring stop first)) (\<lambda>slots.
         and_then (map_res (\<lambda>i. be32 agfl_buf (36 + i * 4)) slots) (\<lambda>agfl.
         if length agfl \<noteq> count then Err Corrupt else Ok agfl))
     else Ok [])))))"

definition reserve_for :: "nat list \<Rightarrow> nat \<Rightarrow> nat" where
  "reserve_for old_tree_blocks len = min (length old_tree_blocks * 2 + 32) (len div 8)"

definition load :: "'d device_ops \<Rightarrow> 'd \<Rightarrow> superblock \<Rightarrow> nat \<Rightarrow> ag res" where
  "load ops dev sb agno =
     and_then (read_headers ops dev sb agno) (\<lambda>(agf, agi).
     and_then (be32 agf 12) (\<lambda>len.
     and_then (ag_len sb agno) (\<lambda>want.
     if len \<noteq> want then Err Corrupt
     else
     let tree = (\<lambda>spec hdr root levels.
           and_then (be32 hdr root) (\<lambda>r. and_then (be32 hdr levels) (\<lambda>l. walk_tree ops dev sb agno spec r l))) in
     and_then (tree BNO agf 16 28) (\<lambda>(recs, bno_blocks).
     and_then (free_records len recs) (\<lambda>free.
     and_then (be32 agf 52) (\<lambda>counted.
     if sum_list (map snd free) \<noteq> counted then Err Corrupt
     else
     and_then (tree CNT agf 20 32) (\<lambda>(_, cnt_blocks).
     and_then (if has_rmapbt sb
               then and_then (tree RMAP agf 24 36) (\<lambda>(recs, blocks). map_ok (\<lambda>rmap. (rmap, blocks)) (rmap_records recs))
               else Ok ([], [])) (\<lambda>(rmap, rmap_blocks).
     and_then (tree INOBT agi 20 24) (\<lambda>(recs, ino_blocks).
     and_then (chunk_records sb recs) (\<lambda>chunks.
     and_then (if has_finobt sb then map_ok snd (tree FINOBT agi 328 332) else Ok []) (\<lambda>fino_blocks.
     and_then (dev_read_at ops dev (header_at sb agno 3) (sect sb)) (\<lambda>agfl_buf.
     and_then (read_agfl sb agf agfl_buf) (\<lambda>agfl.
     let old = bno_blocks @ cnt_blocks @ rmap_blocks @ ino_blocks @ fino_blocks in
     Ok \<lparr>ag_no = agno, ag_length = len, ag_agf = agf, ag_agi = agi, ag_free = free,
         ag_free_total = sum_list (map snd free), ag_reserve = reserve_for old len, ag_agfl = agfl,
         ag_old_tree_blocks = old, ag_chunks = chunks, ag_rmap = rmap, ag_dirty = False\<rparr>)))))))))))))"

section \<open>Laying the trees out\<close>

text \<open>\<open>as u32\<close>, and a sum of 32-bit numbers, which panics past the width.\<close>

definition as_u32 :: "nat \<Rightarrow> nat" where
  "as_u32 n = n mod 2 ^ 32"

definition sum_u32 :: "nat list \<Rightarrow> nat res" where
  "sum_u32 ns = (if sum_list ns < 2 ^ 32 then Ok (sum_list ns) else Panic)"

definition ag_need :: "superblock \<Rightarrow> nat \<Rightarrow> nat \<Rightarrow> nat res" where
  "ag_need sb free_recs rmap_recs =
     (let bs = sb_block_size sb in
      and_then (returns (tree_blocks BNO free_recs bs)) (\<lambda>b.
      and_then (returns (tree_blocks CNT free_recs bs)) (\<lambda>c.
      and_then (if has_rmapbt sb then returns (tree_blocks RMAP rmap_recs bs) else Ok 0) (\<lambda>r.
      Ok (b + c + r)))))"

definition ino_need :: "superblock \<Rightarrow> ag \<Rightarrow> nat res" where
  "ino_need sb ag =
     (let bs = sb_block_size sb in
      and_then (returns (tree_blocks INOBT (length (ag_chunks ag)) bs)) (\<lambda>i.
      and_then (if has_finobt sb
                then returns (tree_blocks FINOBT (length (filter (\<lambda>(_, c). free_count c > 0) (ag_chunks ag))) bs)
                else Ok 0) (\<lambda>f.
      Ok (i + f))))"

text \<open>
  The old trees' blocks are freed (the list is taken out of the group first, so a failure
  loses it) and the mappings that depend on the trees dropped.
\<close>

definition free_old_trees :: "superblock \<Rightarrow> (ag, unit) proc" where
  "free_old_trees sb = (\<lambda>ag.
     seq (modify (\<lambda>ag. ag\<lparr>ag_old_tree_blocks := []\<rparr>)) (\<lambda>_.
     seq (for_each (\<lambda>b. free_extent b 1) (ag_old_tree_blocks ag)) (\<lambda>_.
     seq (modify (\<lambda>ag. ag\<lparr>ag_rmap := filter (\<lambda>(_, r). rm_owner r \<noteq> OWN_AG \<and> rm_owner r \<noteq> OWN_INOBT) (ag_rmap ag)\<rparr>)) (\<lambda>_.
     for_each (\<lambda>b. rmap_add sb b 1 OWN_AG 0) (ag_agfl ag)))) ag)"

text \<open>One try: carve the runs, map them, and count again what the trees need.\<close>

definition try_carve :: "superblock \<Rightarrow> nat \<Rightarrow> nat \<Rightarrow> (ag, (nat \<times> nat) list \<times> (nat \<times> nat) list \<times> nat) proc" where
  "try_carve sb ino_blocks ag_blocks =
     seq (carve (as_u32 ino_blocks)) (\<lambda>ino_run.
     seq (carve (as_u32 ag_blocks)) (\<lambda>ag_run.
     seq (for_each (\<lambda>(s, n). rmap_add sb s n OWN_AG 0) ag_run) (\<lambda>_.
     seq (for_each (\<lambda>(s, n). rmap_add sb s n OWN_INOBT 0) ino_run) (\<lambda>_.
     (\<lambda>ag. seq (lift (merged_rmap ag)) (\<lambda>merged.
           seq (lift (ag_need sb (length (ag_free ag)) (length merged))) (\<lambda>need.
           ret (ag_run, ino_run, need))) ag)))))"

text \<open>At most as many tries as the first argument, each from the same free space and mappings.\<close>

primrec settle :: "nat \<Rightarrow> superblock \<Rightarrow> ag \<Rightarrow> nat \<Rightarrow> nat \<Rightarrow> (ag, (nat \<times> nat) list \<times> (nat \<times> nat) list) proc" where
  "settle 0 sb base ino_blocks ag_blocks = raise Corrupt"
| "settle (Suc tries) sb base ino_blocks ag_blocks =
     seq (modify (\<lambda>ag. ag\<lparr>ag_free := ag_free base, ag_free_total := ag_free_total base, ag_rmap := ag_rmap base\<rparr>)) (\<lambda>_.
     seq (try_carve sb ino_blocks ag_blocks) (\<lambda>(ag_run, ino_run, need).
     if need = ag_blocks then ret (ag_run, ino_run)
     else settle tries sb base ino_blocks need))"

definition bno_rec :: "nat \<times> nat \<Rightarrow> btrec" where
  "bno_rec = (\<lambda>(s, n). let d = u32_bytes s @ u32_bytes n in \<lparr>r_data = d, r_low = d, r_high = d\<rparr>)"

definition cnt_order :: "btrec \<Rightarrow> nat \<times> nat" where
  "cnt_order r = (rd32 (r_data r) 4, rd32 (r_data r) 0)"

text \<open>The five trees; without the feature there is no tree of mappings or of free inodes.\<close>

record ag_trees =
  t_bno :: "nat built"
  t_cnt :: "nat built"
  t_rmap :: "nat built option"
  t_inobt :: "nat built"
  t_finobt :: "nat built option"

definition build_trees :: "superblock \<Rightarrow> ag \<Rightarrow> nat list \<Rightarrow> nat list \<Rightarrow> ag_trees res" where
  "build_trees sb ag ag_list ino_list =
     (let bs = sb_block_size sb; agno = ag_no ag; bno_recs = map bno_rec (ag_free ag); cnt_recs = sort_key cnt_order bno_recs in
      and_then (merged_rmap ag) (\<lambda>merged.
      and_then (map_res rmap_encode merged) (\<lambda>rmap_recs.
      and_then (returns (tree_blocks BNO (length bno_recs) bs)) (\<lambda>nb.
      and_then (returns (tree_blocks CNT (length cnt_recs) bs)) (\<lambda>nc.
      and_then (and_then (get ag_list 0 nb) (build_ag sb agno BNO bno_recs)) (\<lambda>bno.
      and_then (and_then (get ag_list nb nc) (build_ag sb agno CNT cnt_recs)) (\<lambda>cnt.
      and_then (if has_rmapbt sb then map_ok Some (and_then (get_from ag_list (nb + nc)) (build_ag sb agno RMAP rmap_recs))
                else Ok None) (\<lambda>rmap.
      let encode = map (\<lambda>(s, c). chunk_encode sb s c); ino_recs = encode (ag_chunks ag);
          fino_recs = encode (filter (\<lambda>(_, c). free_count c > 0) (ag_chunks ag)) in
      and_then (returns (tree_blocks INOBT (length ino_recs) bs)) (\<lambda>ni.
      and_then (and_then (get ino_list 0 ni) (build_ag sb agno INOBT ino_recs)) (\<lambda>inobt.
      and_then (if has_finobt sb then map_ok Some (and_then (get_from ino_list ni) (build_ag sb agno FINOBT fino_recs))
                else Ok None) (\<lambda>finobt.
      Ok \<lparr>t_bno = bno, t_cnt = cnt, t_rmap = rmap, t_inobt = inobt, t_finobt = finobt\<rparr>)))))))))))"

definition emit :: "superblock \<Rightarrow> nat \<Rightarrow> nat built \<Rightarrow> (nat \<times> byte list) list" where
  "emit sb agno b = map (\<lambda>(a, buf). (agb_to_byte sb agno a, buf)) (bt_blocks b)"

definition emit_opt :: "superblock \<Rightarrow> nat \<Rightarrow> nat built option \<Rightarrow> (nat \<times> byte list) list" where
  "emit_opt sb agno b = (case b of None \<Rightarrow> [] | Some b \<Rightarrow> emit sb agno b)"

definition tree_writes :: "superblock \<Rightarrow> nat \<Rightarrow> ag_trees \<Rightarrow> (nat \<times> byte list) list" where
  "tree_writes sb agno t = emit sb agno (t_bno t) @ emit sb agno (t_cnt t) @ emit_opt sb agno (t_rmap t)
     @ emit sb agno (t_inobt t) @ emit_opt sb agno (t_finobt t)"

text \<open>The AGF; \<open>build_ag\<close> makes a tree of just as many blocks as its sizing asked for.\<close>

definition agf_puts :: "ag \<Rightarrow> ag_trees \<Rightarrow> nat \<Rightarrow> (nat \<times> byte list) list" where
  "agf_puts ag t counted =
     (let nb = length (bt_blocks (t_bno t)); nc = length (bt_blocks (t_cnt t)) in
      [(16, u32_bytes (bt_root (t_bno t))), (20, u32_bytes (bt_root (t_cnt t))),
       (28, u32_bytes (bt_levels (t_bno t))), (32, u32_bytes (bt_levels (t_cnt t)))]
      @ (case t_rmap t of None \<Rightarrow> []
         | Some r \<Rightarrow> [(24, u32_bytes (bt_root r)), (36, u32_bytes (bt_levels r)), (80, u32_bytes (length (bt_blocks r)))])
      @ [(52, u32_bytes counted), (56, u32_bytes (fold max (map snd (ag_free ag)) 0)),
         (60, u32_bytes ((nb - 1) + (nc - 1) + (case t_rmap t of None \<Rightarrow> 0 | Some r \<Rightarrow> length (bt_blocks r) - 1)))])"

definition agi_puts :: "superblock \<Rightarrow> ag \<Rightarrow> ag_trees \<Rightarrow> nat \<Rightarrow> nat \<Rightarrow> nat \<Rightarrow> (nat \<times> byte list) list" where
  "agi_puts sb ag t inodes freecount newino =
     [(16, u32_bytes inodes), (20, u32_bytes (bt_root (t_inobt t))), (24, u32_bytes (bt_levels (t_inobt t))),
      (28, u32_bytes freecount)]
     @ (case next_back (ag_chunks ag) of
          Some (l, _) \<Rightarrow> if newino = NULL_AGBLOCK then [(32, u32_bytes l)] else []
        | None \<Rightarrow> [])
     @ (case t_finobt t of None \<Rightarrow> [] | Some f \<Rightarrow> [(328, u32_bytes (bt_root f)), (332, u32_bytes (bt_levels f))])
     @ (if has_inobtcount sb
        then [(336, u32_bytes (length (bt_blocks (t_inobt t)))),
              (340, u32_bytes (case t_finobt t of None \<Rightarrow> 0 | Some f \<Rightarrow> length (bt_blocks f)))]
        else [])"

definition new_agf :: "ag \<Rightarrow> ag_trees \<Rightarrow> byte list res" where
  "new_agf ag t =
     and_then (sum_u32 (map snd (ag_free ag))) (\<lambda>counted.
     and_then (puts (agf_puts ag t counted) (ag_agf ag)) (\<lambda>agf. stamp agf AGF_CRC))"

definition new_agi :: "superblock \<Rightarrow> ag \<Rightarrow> ag_trees \<Rightarrow> byte list res" where
  "new_agi sb ag t =
     and_then (sum_u32 (map (\<lambda>(_, c). ch_count c) (ag_chunks ag))) (\<lambda>inodes.
     and_then (sum_u32 (map (\<lambda>(_, c). free_count c) (ag_chunks ag))) (\<lambda>freecount.
     and_then (be32 (ag_agi ag) 32) (\<lambda>newino.
     and_then (puts (agi_puts sb ag t inodes freecount newino) (ag_agi ag)) (\<lambda>agi. stamp agi AGI_CRC))))"

text \<open>The second half of a rebuild, once the runs are settled, and the whole.\<close>

definition lay_out :: "superblock \<Rightarrow> (nat \<times> nat) list \<times> (nat \<times> nat) list \<Rightarrow> (ag, (nat \<times> byte list) list) proc" where
  "lay_out sb = (\<lambda>(ag_run, ino_run) ag.
     let ag_list = expand ag_run; ino_list = expand ino_run; old = ag_list @ ino_list in
     seq (lift (build_trees sb ag ag_list ino_list)) (\<lambda>t.
     seq (lift (new_agf ag t)) (\<lambda>agf.
     seq (lift (new_agi sb ag t)) (\<lambda>agi.
     seq (modify (\<lambda>ag. ag\<lparr>ag_agf := agf, ag_agi := agi, ag_old_tree_blocks := old,
                          ag_reserve := reserve_for old (ag_length ag), ag_dirty := False\<rparr>)) (\<lambda>_.
     ret (tree_writes sb (ag_no ag) t @ [(header_at sb (ag_no ag) 1, agf), (header_at sb (ag_no ag) 2, agi)]))))) ag)"

definition rebuild :: "superblock \<Rightarrow> (ag, (nat \<times> byte list) list) proc" where
  "rebuild sb =
     seq (free_old_trees sb) (\<lambda>_. (\<lambda>base.
     seq (lift (ino_need sb base)) (\<lambda>ino_blocks.
     seq (lift (merged_rmap base)) (\<lambda>merged.
     seq (lift (ag_need sb (length (ag_free base)) (length merged + 2))) (\<lambda>ag_blocks.
     seq (settle 32 sb base ino_blocks ag_blocks) (lay_out sb)))) base))"

section \<open>Free extents in order\<close>

text \<open>Extents that come one after the other, none empty, inside \<open>len\<close> blocks.\<close>

definition in_order :: "nat \<Rightarrow> (nat \<times> nat) list \<Rightarrow> bool" where
  "in_order len fs \<longleftrightarrow> (\<forall>(s, n) \<in> set fs. 0 < n \<and> s + n \<le> len) \<and> sorted_wrt (\<lambda>p q. fst p + snd p \<le> fst q) fs"

lemma in_order_Cons:
  "in_order len ((s, n) # fs) \<longleftrightarrow> 0 < n \<and> s + n \<le> len \<and> (\<forall>q \<in> set fs. s + n \<le> fst q) \<and> in_order len fs"
  by (auto simp: in_order_def)

lemma in_order_snoc:
  "in_order len (fs @ [(s, n)]) \<longleftrightarrow> in_order len fs \<and> 0 < n \<and> s + n \<le> len \<and> (\<forall>q \<in> set fs. fst q + snd q \<le> s)"
  by (auto simp: in_order_def sorted_wrt_append)

lemma om_ok_sorted: "om_ok m \<longleftrightarrow> sorted_wrt (\<lambda>p q. fst p < fst q) m"
  by (simp add: om_ok_def sorted_wrt_map)

lemma in_order_iff: "in_order len fs \<longleftrightarrow> om_ok fs \<and> fs_ok len (set fs)"
proof (induction fs)
  case Nil
  then show ?case by (simp add: in_order_def om_ok_def fs_ok_def)
next
  case (Cons p fs)
  obtain s n where p: "p = (s, n)" by (cases p)
  show ?case
  proof
    assume a: "in_order len (p # fs)"
    then have fs: "om_ok fs" "fs_ok len (set fs)" and sn: "0 < n" "s + n \<le> len" and after: "\<forall>q \<in> set fs. s + n \<le> fst q"
      using Cons by (auto simp: p in_order_Cons)
    have "om_ok (p # fs)" using fs(1) sn(1) after by (fastforce simp: p om_ok_Cons)
    moreover have "fs_ok len (insert (s, n) (set fs))"
      using fs(2) sn after unfolding fs_ok_def by (intro conjI) (simp, blast, fastforce)
    ultimately show "om_ok (p # fs) \<and> fs_ok len (set (p # fs))" by (simp add: p)
  next
    assume a: "om_ok (p # fs) \<and> fs_ok len (set (p # fs))"
    then have "om_ok fs" "fs_ok len (set fs)" and lt: "\<forall>q \<in> set fs. s < fst q"
      using fs_ok_subset [of len "set (p # fs)" "set fs"] by (auto simp: p om_ok_Cons)
    moreover have "0 < n" "s + n \<le> len" using a fs_okD(1,2) [of len "set (p # fs)" s n] by (simp_all add: p)
    moreover have "s + n \<le> fst q" if "q \<in> set fs" for q
      using fs_okD(3) [of len "set (p # fs)" s n "fst q" "snd q"] a that lt by (fastforce simp: p)
    ultimately show "in_order len (p # fs)" using Cons by (simp add: p in_order_Cons)
  qed
qed

lemma in_order_card: "in_order len fs \<Longrightarrow> card (cover (set fs)) = sum_list (map snd fs)"
proof (induction fs)
  case (Cons p fs)
  obtain s n where p: "p = (s, n)" by (cases p)
  have "{s..<s + n} \<inter> cover (set fs) = {}" and fin: "finite (cover (set fs))"
    using Cons.prems by (auto simp: p in_order_Cons cover_def)
  then show ?case using Cons by (simp add: p in_order_Cons card_Un_disjoint)
qed simp

lemma ag_inv_iff:
  "ag_inv ag \<longleftrightarrow> in_order (ag_length ag) (ag_free ag) \<and> ag_free_total ag = sum_list (map snd (ag_free ag)) \<and> ag_length ag < 2 ^ 32"
  using in_order_card [of "ag_length ag" "ag_free ag"] by (auto simp: ag_inv_def in_order_iff free_blocks_def)

lemma om_insert_end: "\<forall>p \<in> set m. fst p < k \<Longrightarrow> om_insert k v m = m @ [(k, v)]"
  by (induction k v m rule: om_insert.induct) auto

text \<open>What the loop over the records accepts: records of extents in order.\<close>

lemma free_record_fold:
  assumes "in_order len fs" and "\<forall>q \<in> set fs. fst q + snd q \<le> e" and "\<forall>r \<in> set recs. length r = 8"
  shows "map_ok snd (fold_res (free_record len) recs (e, fs)) = Ok out \<longleftrightarrow>
    out = fs @ map (\<lambda>r. (rd32 r 0, rd32 r 4)) recs \<and> in_order len out \<and> (recs \<noteq> [] \<longrightarrow> e \<le> rd32 (hd recs) 0)"
  using assms
proof (induction recs arbitrary: e fs)
  case Nil
  then show ?case by (auto simp: map_ok_def)
next
  case (Cons r recs)
  let ?s = "rd32 r 0" and ?n = "rd32 r 4"
  have r: "free_record len r (e, fs) = (if ?n = 0 \<or> ?s < e \<or> ?s + ?n > len then Err Corrupt else Ok (?s + ?n, om_insert ?s ?n fs))"
    using Cons.prems(3) by (simp add: free_record_def)
  show ?case
  proof (cases "?n = 0 \<or> ?s < e \<or> ?s + ?n > len")
    case True
    then show ?thesis using r by (auto simp: in_order_def map_ok_def)
  next
    case False
    have ins: "om_insert ?s ?n fs = fs @ [(?s, ?n)]" 
    proof (rule om_insert_end)
      show "\<forall>p \<in> set fs. fst p < ?s" using Cons.prems(1,2) False by (fastforce simp: in_order_def)
    qed
    have io: "in_order len (fs @ [(?s, ?n)])" using Cons.prems(1,2) False by (fastforce simp: in_order_snoc)
    have eq: "map_ok snd (fold_res (free_record len) (r # recs) (e, fs))
        = map_ok snd (fold_res (free_record len) recs (?s + ?n, fs @ [(?s, ?n)]))"
      using r False by (simp add: ins)
    have "\<forall>q \<in> set (fs @ [(?s, ?n)]). fst q + snd q \<le> ?s + ?n" using Cons.prems(2) False by fastforce
    note IH = Cons.IH [OF io this]
    have hd: "recs \<noteq> [] \<longrightarrow> ?s + ?n \<le> rd32 (hd recs) 0"
      if "in_order len (fs @ map (\<lambda>r. (rd32 r 0, rd32 r 4)) (r # recs))"
      using that by (cases recs) (auto simp: in_order_def sorted_wrt_append)
    show ?thesis unfolding eq using IH Cons.prems(3) False hd by auto
  qed
qed

lemma free_records_iff:
  "\<forall>r \<in> set recs. length r = 8 \<Longrightarrow>
   free_records len recs = Ok free \<longleftrightarrow> free = map (\<lambda>r. (rd32 r 0, rd32 r 4)) recs \<and> in_order len free"
  using free_record_fold [of len "[]" 0 recs free] by (auto simp: free_records_def in_order_def)

section \<open>Loading gives a well-formed group\<close>

lemma map_res_get_lengths: "map_res (\<lambda>i. get buf (f i) n) is = Ok rs \<Longrightarrow> r \<in> set rs \<Longrightarrow> length r = n"
  by (induction "is" arbitrary: rs) (auto simp: res_simps get_def split: if_splits)

lemma tree_block_lengths: "tree_block spec bs buf l = Ok (Inl rs) \<Longrightarrow> r \<in> set rs \<Longrightarrow> length r = sp_rec_len spec"
  by (auto simp: tree_block_def res_simps Let_def map_ok_def split: if_splits dest: map_res_get_lengths)

lemma walk_loop_lengths:
  "walk_loop ops dev sb agno spec stack recs blocks = Ok (rs, bs) \<Longrightarrow> \<forall>r \<in> set recs. length r = sp_rec_len spec \<Longrightarrow>
   \<forall>r \<in> set rs. length r = sp_rec_len spec"
proof (induction ops dev sb agno spec stack recs blocks rule: walk_loop.induct)
  case (2 ops dev sb agno spec agbno want stack recs blocks)
  from "2.prems"(1) obtain len buf block where b: "ag_len sb agno = Ok len" "\<not> (agbno \<ge> len \<or> length blocks > 2 ^ 24)"
    "dev_read_at ops dev (agb_to_byte sb agno agbno) (sb_block_size sb) = Ok buf"
    "tree_block spec (sb_block_size sb) buf want = Ok block"
    and rest: "(case block of Inl rs' \<Rightarrow> walk_loop ops dev sb agno spec stack (recs @ rs') (blocks @ [agbno])
       | Inr ptrs \<Rightarrow> walk_loop ops dev sb agno spec (map (\<lambda>p. (p, want - 1)) ptrs @ stack) recs (blocks @ [agbno])) = Ok (rs, bs)"
    by (auto simp: res_simps simp del: One_nat_def split: if_splits)
  show ?case
  proof (cases block)
    case (Inl rs')
    then have "\<forall>r \<in> set (recs @ rs'). length r = sp_rec_len spec"
      using "2.prems"(2) b(4) tree_block_lengths by auto
    then show ?thesis using "2.IH"(1) [OF b Inl] rest Inl by simp
  next
    case (Inr ptrs)
    then show ?thesis using "2.IH"(2) [OF b Inr] rest "2.prems"(2) by simp
  qed
qed simp

lemma walk_tree_lengths:
  "walk_tree ops dev sb agno spec root levels = Ok (rs, bs) \<Longrightarrow> \<forall>r \<in> set rs. length r = sp_rec_len spec"
  using walk_loop_lengths [of ops dev sb agno spec "[(root, levels - 1)]" "[]" "[]" rs bs]
  by (simp add: walk_tree_def split: if_splits)

text \<open>The ring: between two of its slots the loop ends, after as many slots as lie between them.\<close>

lemma agfl_loop_unfold:
  "agfl_loop ring stop stop = Some [stop]"
  "i \<noteq> stop \<Longrightarrow> agfl_loop ring stop i = Option.bind (agfl_loop ring stop ((i + 1) mod ring)) (\<lambda>slots. Some (i # slots))"
  by (subst agfl_loop.simps, simp)+

lemma ring_slots:
  assumes "i < ring" and "stop = (i + m) mod ring" and "m < ring"
  shows "agfl_loop ring stop i = Some (map (\<lambda>k. (i + k) mod ring) [0..<Suc m])"
  using assms
proof (induction m arbitrary: i)
  case 0
  then show ?case by (simp add: agfl_loop_unfold)
next
  case (Suc m)
  let ?j = "(i + 1) mod ring"
  have "i \<noteq> stop"
  proof
    assume "i = stop"
    then have "i mod ring = (i + Suc m) mod ring" using Suc.prems by simp
    then have "ring dvd Suc m" using mod_eq_dvd_iff_nat [of i "i + Suc m" ring] by simp
    then show False using Suc.prems(3) by (simp add: nat_dvd_not_less)
  qed
  moreover have "agfl_loop ring stop ?j = Some (map (\<lambda>k. (?j + k) mod ring) [0..<Suc m])"
    by (rule Suc.IH) (use Suc.prems in \<open>simp_all add: mod_add_left_eq\<close>)
  moreover have "map (\<lambda>k. (?j + k) mod ring) [0..<Suc m] = map (\<lambda>k. (i + k) mod ring) [1..<Suc (Suc m)]"
    by (simp add: mod_add_left_eq map_upt_Suc map_Suc_upt [symmetric] del: upt_Suc)
  ultimately show ?case using Suc.prems(1)
    by (simp add: agfl_loop_unfold(2) upt_conv_Cons [of 0] del: upt_Suc)
qed

lemma ring_distance:
  assumes "(i :: nat) < ring" and "stop < ring"
  shows "stop = (i + (stop + ring - i) mod ring) mod ring" "(stop + ring - i) mod ring < ring"
proof -
  have "(i + (stop + ring - i)) mod ring = stop" using assms by simp
  then show "stop = (i + (stop + ring - i) mod ring) mod ring" by (simp only: mod_add_right_eq)
qed (use assms in simp)

lemmas load_parts = load_def read_headers_def Let_def

lemma load_inv:
  assumes "load ops dev sb agno = Ok ag"
  shows "ag_inv ag" "ag_no ag = agno" "ag_len sb agno = Ok (ag_length ag)" "\<not> ag_dirty ag"
    "ag_reserve ag \<le> ag_length ag div 8"
proof -
  obtain recs bs where walk: "and_then (be32 (ag_agf ag) 16) (\<lambda>r. and_then (be32 (ag_agf ag) 28) (walk_tree ops dev sb agno BNO r)) = Ok (recs, bs)"
    and free: "free_records (ag_length ag) recs = Ok (ag_free ag)"
    and len: "be32 (ag_agf ag) 12 = Ok (ag_length ag)" "ag_len sb agno = Ok (ag_length ag)"
    and rest: "ag_free_total ag = sum_list (map snd (ag_free ag))" "ag_no ag = agno" "\<not> ag_dirty ag"
      "ag_reserve ag = reserve_for (ag_old_tree_blocks ag) (ag_length ag)"
    using assms unfolding load_parts by (auto simp: res_simps split: if_splits prod.splits)
  have "\<forall>r \<in> set recs. length r = 8"
    using walk walk_tree_lengths [of ops dev sb agno BNO] by (auto simp: res_simps BNO_def)
  then have "in_order (ag_length ag) (ag_free ag)" using free free_records_iff by blast
  moreover have "ag_length ag < 2 ^ 32" using len(1) rd_less(2) by (simp add: be_eq_Ok)
  ultimately show "ag_inv ag" using rest(1) by (simp add: ag_inv_iff)
  show "ag_no ag = agno" "ag_len sb agno = Ok (ag_length ag)" "\<not> ag_dirty ag" using rest len by simp_all
  show "ag_reserve ag \<le> ag_length ag div 8" using rest(4) by (simp add: reserve_for_def)
qed

end
