(* ===== verification/AgRebuild.thy ===== *)
theory AgRebuild
  imports AgDisk
begin

text \<open>
  What \<open>Ag::rebuild\<close> (\<open>src/src/alloc.rs\<close>) guarantees. The sizes of the trees are bounded by
  the number of records, so that no cast truncates and no assertion fails; the search for
  sizes that hold gives back a group whose free blocks and tree blocks together are the ones
  it started from; and the blocks and headers it returns, once written, are loaded as the
  same group.
\<close>

unbundle bit_operations_syntax

section \<open>Sizes of trees\<close>

lemma tower_sum: "tower 1 m ks \<Longrightarrow> 3 \<le> m \<Longrightarrow> sum_list ks < 2 * hd ks"
proof (induction "1 :: nat" m ks rule: tower.induct)
  case (3 cap k l ks)
  have k: "1 < k" "l = div_ceil k cap" "sum_list (l # ks) < 2 * l" using 3 by auto
  have l: "0 < l" using k by (cases l) simp_all
  have "(l - 1) * cap < k" using div_ceil_bounds(2) [of cap k, folded k(2)] 3(3) l by (cases l) simp_all
  moreover have "(l - 1) * 3 \<le> (l - 1) * cap" using 3(3) by (rule mult_le_mono2)
  ultimately have "(l - 1) * 3 < k" by (metis le_less_trans)
  then have "3 * l \<le> k + 2" using l by linarith
  then have "2 * l \<le> k" using k(1) l by linarith
  then show ?case using k(3) by simp
qed simp_all

lemma tower_levels: "tower 1 m ks \<Longrightarrow> 10 \<le> m \<Longrightarrow> hd ks \<le> 10 ^ j \<Longrightarrow> length ks \<le> j + 1"
proof (induction "1 :: nat" m ks arbitrary: j rule: tower.induct)
  case (3 cap k l ks)
  then obtain i where j: "j = Suc i" by (cases j) simp_all
  have "k \<le> 10 ^ i * 10" using 3(4) j by simp
  also have "\<dots> \<le> 10 ^ i * cap" using 3(3) by (rule mult_le_mono2)
  finally have "div_ceil k cap \<le> 10 ^ i" using 3(3) by (intro div_ceil_le) simp_all
  then show ?case using 3 j by auto
qed simp_all

lemma tree_sizes:
  assumes "wf_sb sb" and "spec \<in> {BNO, CNT, INOBT, FINOBT, RMAP}"
  obtains sizes where
    "level_sizes n (leaf_max spec (sb_block_size sb)) (node_max spec (sb_block_size sb)) = Some sizes"
    "tree_blocks spec n (sb_block_size sb) = Some (sum_list sizes)" "0 < sum_list sizes"
    "sum_list sizes \<le> 2 * (n div 19 + 1)" "sum_list sizes \<le> 2 ^ 24 \<Longrightarrow> length sizes \<le> 9"
proof -
  let ?l = "leaf_max spec (sb_block_size sb)" and ?m = "node_max spec (sb_block_size sb)"
  have bs: "456 \<le> sb_block_size sb - 56" using wf_sbD(4) [OF assms(1)] by simp
  have "k \<le> (sb_block_size sb - 56) div w" if "0 < w" "k * w \<le> 456" for k w
    using that bs by (simp add: less_eq_div_iff_mult_less_eq)
  from this [of 8 19] this [of 12 10] this [of 16 19] this [of 8 10] this [of 24 19] this [of 44 10]
  have lm: "19 \<le> ?l" "10 \<le> ?m"
    using assms(2) by (auto simp: leaf_max_def node_max_def slots_def spec_defs)
  define k where "k = max (div_ceil n ?l) 1"
  obtain ks where ks: "level_sizes n ?l ?m = Some (k # ks)" "tower 1 ?m (k # ks)"
    using level_sizes_tower [of ?l ?m n] lm by (auto simp: k_def)
  have "div_ceil n ?l \<le> n div 19 + 1"
  proof (rule div_ceil_le)
    have "n < (n div 19 + 1) * 19" by presburger
    also have "\<dots> \<le> (n div 19 + 1) * ?l" using lm(1) by (rule mult_le_mono2)
    finally show "n \<le> (n div 19 + 1) * ?l" by simp
  qed (use lm in simp)
  then have kn: "k \<le> n div 19 + 1" by (simp add: k_def)
  have sum: "sum_list (k # ks) < 2 * k" using tower_sum [OF ks(2)] lm(2) by simp
  show ?thesis
  proof (rule that [OF ks(1)])
    show "tree_blocks spec n (sb_block_size sb) = Some (sum_list (k # ks))"
      using ks(1) by (simp add: tree_blocks_def blocks_for_def)
    show "0 < sum_list (k # ks)" using tower_pos [OF ks(2), of k] by simp
    show "sum_list (k # ks) \<le> 2 * (n div 19 + 1)" by (rule order_trans [OF less_imp_le [OF sum] mult_le_mono2 [OF kn]])
    assume "sum_list (k # ks) \<le> 2 ^ 24"
    then have "hd (k # ks) \<le> 10 ^ 8" by simp
    from tower_levels [OF ks(2) lm(2) this] show "length (k # ks) \<le> 9" by simp
  qed
qed


section \<open>Mappings and counts of a group\<close>

text \<open>The mappings of a group: keyed by their fields, none empty, their fields in their widths.\<close>

definition rmap_fields :: "rmap \<Rightarrow> bool" where
  "rmap_fields r \<longleftrightarrow> rm_fits r \<and> 0 < rm_len r \<and> rm_owner r < 2 ^ 64 \<and> rm_offset r < 2 ^ 64"

definition rmaps_ok :: "rmap_set \<Rightarrow> bool" where
  "rmaps_ok m \<longleftrightarrow> om_ok m \<and> (\<forall>(k, r) \<in> set m. k = rm_key r \<and> rmap_fields r)"

lemma rmaps_ok_insert: "rmaps_ok m \<Longrightarrow> rmap_fields r \<Longrightarrow> rmaps_ok (om_insert (rm_key r) r m)"
  by (auto simp: rmaps_ok_def om.insert_ok om.insert_entries)

lemma rmaps_ok_filter: "rmaps_ok m \<Longrightarrow> rmaps_ok (filter P m)"
  by (auto simp: rmaps_ok_def om_ok_filter)

lemma length_om_insert: "length (om_insert k v m) \<le> length m + 1"
  by (induction k v m rule: om_insert.induct) auto

text \<open>What a call that only changes the mappings leaves.\<close>

definition same_but_rmap :: "ag \<Rightarrow> ag \<Rightarrow> bool" where
  "same_but_rmap ag ag' \<longleftrightarrow> ag' = ag\<lparr>ag_rmap := ag_rmap ag', ag_dirty := ag_dirty ag'\<rparr>"

lemma same_but_rmapD:
  assumes "same_but_rmap ag ag'"
  shows "ag_no ag' = ag_no ag" "ag_length ag' = ag_length ag" "ag_agf ag' = ag_agf ag" "ag_agi ag' = ag_agi ag"
    "ag_free ag' = ag_free ag" "ag_free_total ag' = ag_free_total ag" "ag_agfl ag' = ag_agfl ag"
    "ag_old_tree_blocks ag' = ag_old_tree_blocks ag" "ag_chunks ag' = ag_chunks ag" "ag_reserve ag' = ag_reserve ag"
  using assms by (cases ag, cases ag', simp add: same_but_rmap_def)+

lemma same_but_rmap_trans: "same_but_rmap a b \<Longrightarrow> same_but_rmap b c \<Longrightarrow> same_but_rmap a c"
  by (cases a, cases b, cases c) (simp add: same_but_rmap_def)

lemma same_but_rmap_inv: "same_but_rmap ag ag' \<Longrightarrow> ag_inv ag' = ag_inv ag"
  by (simp add: ag_inv_iff same_but_rmapD)

lemma same_but_rmap_blocks: "same_but_rmap ag ag' \<Longrightarrow> free_blocks ag' = free_blocks ag"
  by (simp add: free_blocks_def same_but_rmapD)

lemma rmap_adds_ok:
  assumes "rmaps_ok (ag_rmap ag)" and "\<forall>(s, n) \<in> set runs. 0 < n \<and> s + n < 2 ^ 32" and "owner < 2 ^ 64"
  shows "\<exists>ag'. for_each (\<lambda>(s, n). rmap_add sb s n owner 0) runs ag = (Ok (), ag') \<and> same_but_rmap ag ag' \<and>
    rmaps_ok (ag_rmap ag') \<and> length (ag_rmap ag') \<le> length (ag_rmap ag) + length runs"
  using assms
proof (induction runs arbitrary: ag)
  case Nil
  then show ?case by (simp add: ret_def same_but_rmap_def)
next
  case (Cons p runs)
  obtain s n where p: "p = (s, n)" by (cases p)
  let ?r = "\<lparr>rm_start = s, rm_owner = owner, rm_offset = 0, rm_len = n\<rparr>"
  have "rmap_fields ?r" using Cons.prems(2,3) by (simp add: p rmap_fields_def rm_fits_def)
  note ins = rmaps_ok_insert [OF Cons.prems(1) this]
  define ag1 where "ag1 = (if has_rmapbt sb then ag\<lparr>ag_rmap := om_insert (rm_key ?r) ?r (ag_rmap ag), ag_dirty := True\<rparr> else ag)"
  have step: "rmap_add sb s n owner 0 ag = (Ok (), ag1)"
    by (simp add: rmap_add_def rmap_insert_def ag1_def ret_def) (simp add: modify_def)
  have ag1: "same_but_rmap ag ag1" "rmaps_ok (ag_rmap ag1)" "length (ag_rmap ag1) \<le> length (ag_rmap ag) + 1"
    using ins Cons.prems(1) length_om_insert [of "rm_key ?r" ?r "ag_rmap ag"] by (simp_all add: ag1_def same_but_rmap_def)
  obtain ag' where "for_each (\<lambda>(s, n). rmap_add sb s n owner 0) runs ag1 = (Ok (), ag')" "same_but_rmap ag1 ag'"
    "rmaps_ok (ag_rmap ag')" "length (ag_rmap ag') \<le> length (ag_rmap ag1) + length runs"
    using Cons.IH [OF ag1(2)] Cons.prems(2,3) by auto
  then show ?case using step ag1(1,3) same_but_rmap_trans by (fastforce simp: p seq_eq)
qed


text \<open>Merging keeps the fields in their widths and never makes more records.\<close>

lemma merge_into_fields:
  assumes "list_all rmap_fields (out @ rs)"
  shows "\<exists>res. merge_into out rs = Ok res \<and> list_all rmap_fields res \<and> length res \<le> length out + length rs"
  using assms
proof (induction out rs rule: merge_into.induct)
  case (3 p out r rs)
  obtain b where b: "merges_with p r = Ok b" using merges_total 3(3) by (fastforce simp: rmap_fields_def)
  show ?case
  proof (cases b)
    case True
    have "rmap_fields (p\<lparr>rm_len := rm_len p + rm_len r\<rparr>)"
      using merge_rel(2) [of p r] b True 3(3) by (simp add: rmap_fields_def)
    then show ?thesis using "3.IH"(1) [OF b True] 3(3) b True by fastforce
  next
    case False
    then show ?thesis using "3.IH"(2) [OF b False] 3(3) b by fastforce
  qed
qed (auto simp: list_all_iff)

lemma merged_fields:
  assumes "rmaps_ok (ag_rmap ag)"
  obtains merged where "merged_rmap ag = Ok merged" "list_all rmap_fields merged" "length merged \<le> length (ag_rmap ag)"
proof -
  have "list_all rmap_fields ([] @ map snd (ag_rmap ag))" using assms by (fastforce simp: rmaps_ok_def list_all_iff)
  then show ?thesis using merge_into_fields [of "[]" "map snd (ag_rmap ag)"] that by (auto simp: merged_rmap_def)
qed

text \<open>There are at most as many free extents as blocks, and the trees for them fit 32-bit counts.\<close>

lemma length_in_order: "in_order len fs \<Longrightarrow> length fs \<le> sum_list (map snd fs)"
proof (induction fs)
  case (Cons p fs)
  then show ?case by (cases p) (simp add: in_order_Cons)
qed simp

lemma free_count_le:
  assumes "ag_inv ag"
  shows "length (ag_free ag) \<le> ag_length ag" "ag_free_total ag \<le> ag_length ag" "sum_list (map snd (ag_free ag)) < 2 ^ 32"
proof -
  have "free_blocks ag \<subseteq> {..<ag_length ag}" by (rule ag_invD(5) [OF assms])
  then have "card (free_blocks ag) \<le> ag_length ag" using card_mono [of "{..<ag_length ag}"] by fastforce
  then show tot: "ag_free_total ag \<le> ag_length ag" using ag_invD(3) [OF assms] by simp
  then show "length (ag_free ag) \<le> ag_length ag" "sum_list (map snd (ag_free ag)) < 2 ^ 32"
    using assms length_in_order [of "ag_length ag" "ag_free ag"] by (auto simp: ag_inv_iff)
qed

lemma ag_need_ok:
  assumes "wf_sb sb" and "n \<le> 2 ^ 32" and "m \<le> 2 ^ 33 + 2"
  shows "\<exists>nb nc nr. ag_need sb n m = Ok (nb + nc + nr) \<and> tree_blocks BNO n (sb_block_size sb) = Some nb \<and>
    tree_blocks CNT n (sb_block_size sb) = Some nc \<and>
    (if has_rmapbt sb then tree_blocks RMAP m (sb_block_size sb) = Some nr else nr = 0) \<and> nb + nc + nr < 2 ^ 32"
proof -
  obtain s1 where s1: "tree_blocks BNO n (sb_block_size sb) = Some (sum_list s1)" "sum_list s1 \<le> 2 * (n div 19 + 1)"
    using tree_sizes [OF assms(1), of BNO] by blast
  obtain s2 where s2: "tree_blocks CNT n (sb_block_size sb) = Some (sum_list s2)" "sum_list s2 \<le> 2 * (n div 19 + 1)"
    using tree_sizes [OF assms(1), of CNT] by blast
  obtain s3 where s3: "tree_blocks RMAP m (sb_block_size sb) = Some (sum_list s3)" "sum_list s3 \<le> 2 * (m div 19 + 1)"
    using tree_sizes [OF assms(1), of RMAP] by blast
  have "n div 19 \<le> 2 ^ 32 div 19" "m div 19 \<le> (2 ^ 33 + 2) div 19" using assms(2,3) by (simp_all only: div_le_mono)
  then have "sum_list s1 + sum_list s2 + sum_list s3 < 2 ^ 32" using s1(2) s2(2) s3(2) by simp
  then show ?thesis using s1(1) s2(1) s3(1)
    by (intro exI [of _ "sum_list s1"] exI [of _ "sum_list s2"] exI [of _ "if has_rmapbt sb then sum_list s3 else 0"])
       (simp add: ag_need_def returns_def Let_def)
qed

lemma ino_need_cong: "ag_chunks ag = ag_chunks ag' \<Longrightarrow> ino_need sb ag = ino_need sb ag'"
  by (simp only: ino_need_def)

lemma ino_need_ok:
  assumes "wf_sb sb" and "length (ag_chunks ag) \<le> 2 ^ 32"
  shows "\<exists>ni nf. ino_need sb ag = Ok (ni + nf) \<and> tree_blocks INOBT (length (ag_chunks ag)) (sb_block_size sb) = Some ni \<and>
    (if has_finobt sb then tree_blocks FINOBT (length (filter (\<lambda>(_, c). 0 < free_count c) (ag_chunks ag))) (sb_block_size sb) = Some nf
     else nf = 0) \<and> ni + nf < 2 ^ 32"
proof -
  let ?n = "length (ag_chunks ag)" and ?m = "length (filter (\<lambda>(_, c). 0 < free_count c) (ag_chunks ag))"
  obtain s1 where s1: "tree_blocks INOBT ?n (sb_block_size sb) = Some (sum_list s1)" "sum_list s1 \<le> 2 * (?n div 19 + 1)"
    using tree_sizes [OF assms(1), of INOBT] by blast
  obtain s2 where s2: "tree_blocks FINOBT ?m (sb_block_size sb) = Some (sum_list s2)" "sum_list s2 \<le> 2 * (?m div 19 + 1)"
    using tree_sizes [OF assms(1), of FINOBT] by blast
  have "?m \<le> 2 ^ 32" using assms(2) length_filter_le order_trans by blast
  then have "?n div 19 \<le> 2 ^ 32 div 19" "?m div 19 \<le> 2 ^ 32 div 19" using assms(2) by (simp_all only: div_le_mono)
  then have "sum_list s1 + sum_list s2 < 2 ^ 32" using s1(2) s2(2) by simp
  then show ?thesis using s1(1) s2(1)
    by (intro exI [of _ "sum_list s1"] exI [of _ "if has_finobt sb then sum_list s2 else 0"])
       (simp add: ino_need_def returns_def Let_def)
qed

section \<open>The search for sizes that hold\<close>

text \<open>What neither freeing, carving nor mapping changes.\<close>

definition kept :: "ag \<Rightarrow> ag \<Rightarrow> bool" where
  "kept ag ag' \<longleftrightarrow> ag_no ag' = ag_no ag \<and> ag_length ag' = ag_length ag \<and> ag_agf ag' = ag_agf ag \<and> ag_agi ag' = ag_agi ag \<and>
     ag_agfl ag' = ag_agfl ag \<and> ag_chunks ag' = ag_chunks ag \<and> ag_old_tree_blocks ag' = ag_old_tree_blocks ag"

lemma kept_trans: "kept a b \<Longrightarrow> kept b c \<Longrightarrow> kept a c"
  by (simp add: kept_def)

lemma kept_free: "same_but_free ag ag' \<Longrightarrow> kept ag ag'"
  by (cases ag, cases ag') (simp add: kept_def same_but_free_def)

lemma kept_rmap: "same_but_rmap ag ag' \<Longrightarrow> kept ag ag'"
  by (cases ag, cases ag') (simp add: kept_def same_but_rmap_def)

lemma free_each_ok:
  assumes "ag_inv ag" and "distinct bs" and "set bs \<subseteq> {..<ag_length ag}" and "set bs \<inter> free_blocks ag = {}"
  shows "\<exists>ag'. for_each (\<lambda>b. free_extent b 1) bs ag = (Ok (), ag') \<and> ag_inv ag' \<and> same_but_free ag ag' \<and>
    free_blocks ag' = free_blocks ag \<union> set bs"
  using assms
proof (induction bs arbitrary: ag)
  case Nil
  then show ?case by (simp add: ret_def same_but_free_def)
next
  case (Cons b bs)
  obtain ag1 where ag1: "free_extent b 1 ag = (Ok (), ag1)" "given b 1 ag ag1"
    using free_extent_ok [of ag 1 b] Cons.prems by auto
  then have g: "free_blocks ag1 = insert b (free_blocks ag)" "ag_inv ag1" "same_but_free ag ag1" by (auto simp: given_def)
  obtain ag' where "for_each (\<lambda>b. free_extent b 1) bs ag1 = (Ok (), ag')" "ag_inv ag'" "same_but_free ag1 ag'"
    "free_blocks ag' = free_blocks ag1 \<union> set bs"
    using Cons.IH [OF g(2)] Cons.prems g(1) same_but_freeD(1) [OF g(3)] by auto
  then show ?case using ag1(1) g(1) same_but_free_trans [OF g(3)] by (auto simp: seq_eq)
qed

text \<open>A group a rebuild can start from: the blocks of its trees are its own and not free.\<close>

definition group_ok :: "ag \<Rightarrow> bool" where
  "group_ok ag \<longleftrightarrow> ag_inv ag \<and> rmaps_ok (ag_rmap ag) \<and> distinct (ag_old_tree_blocks ag) \<and>
     set (ag_old_tree_blocks ag) \<subseteq> {..<ag_length ag} \<and> set (ag_old_tree_blocks ag) \<inter> free_blocks ag = {} \<and>
     (\<forall>b \<in> set (ag_agfl ag). b < ag_length ag) \<and> length (ag_rmap ag) + length (ag_agfl ag) \<le> 2 ^ 32 \<and>
     length (ag_chunks ag) \<le> 2 ^ 32"

lemma kept_old: "kept (ag\<lparr>ag_old_tree_blocks := xs\<rparr>) (ag'\<lparr>ag_rmap := m\<rparr>) \<longleftrightarrow> kept (ag\<lparr>ag_old_tree_blocks := xs\<rparr>) ag'"
  by (simp add: kept_def)

lemma free_old_trees_ok:
  assumes "group_ok ag"
  shows "\<exists>base. free_old_trees sb ag = (Ok (), base) \<and> ag_inv base \<and> rmaps_ok (ag_rmap base) \<and>
    length (ag_rmap base) \<le> length (ag_rmap ag) + length (ag_agfl ag) \<and> kept (ag\<lparr>ag_old_tree_blocks := []\<rparr>) base \<and>
    free_blocks base = free_blocks ag \<union> set (ag_old_tree_blocks ag)"
proof -
  let ?bs = "ag_old_tree_blocks ag" and ?ag0 = "ag\<lparr>ag_old_tree_blocks := []\<rparr>"
  let ?P = "\<lambda>(_ :: rmap_key, r). rm_owner r \<noteq> OWN_AG \<and> rm_owner r \<noteq> OWN_INOBT"
  have "ag_inv ?ag0" "free_blocks ?ag0 = free_blocks ag" using assms by (simp_all add: group_ok_def ag_inv_def free_blocks_def)
  then obtain ag1 where ag1: "for_each (\<lambda>b. free_extent b 1) ?bs ?ag0 = (Ok (), ag1)" "ag_inv ag1" "same_but_free ?ag0 ag1"
    "free_blocks ag1 = free_blocks ag \<union> set ?bs"
    using free_each_ok [of ?ag0 ?bs] assms by (auto simp: group_ok_def)
  let ?ag2 = "ag1\<lparr>ag_rmap := filter ?P (ag_rmap ag1)\<rparr>"
  have rm: "ag_rmap ag1 = ag_rmap ag" using same_but_freeD(4) [OF ag1(3)] by simp
  have runs: "for_each (\<lambda>b. rmap_add sb b 1 OWN_AG 0) xs = for_each (\<lambda>(s, n). rmap_add sb s n OWN_AG 0) (map (\<lambda>b. (b, 1)) xs)" for xs
    by (induction xs) simp_all
  have len: "ag_length ag < 2 ^ 32" using assms by (simp add: group_ok_def ag_inv_def)
  obtain base where base: "for_each (\<lambda>b. rmap_add sb b 1 OWN_AG 0) (ag_agfl ag) ?ag2 = (Ok (), base)" "same_but_rmap ?ag2 base"
    "rmaps_ok (ag_rmap base)" "length (ag_rmap base) \<le> length (ag_rmap ?ag2) + length (ag_agfl ag)"
    using rmap_adds_ok [of ?ag2 "map (\<lambda>b. (b, 1)) (ag_agfl ag)" OWN_AG sb] assms rm len
    unfolding runs by (fastforce simp: group_ok_def rmaps_ok_filter)
  have "ag_inv base" "free_blocks base = free_blocks ag1"
    using same_but_rmap_inv [OF base(2)] same_but_rmap_blocks [OF base(2)] ag1(2) by (simp_all add: ag_inv_def free_blocks_def)
  moreover have "length (ag_rmap base) \<le> length (ag_rmap ag) + length (ag_agfl ag)"
    using base(4) by (rule order_trans) (simp add: rm)
  moreover have "kept ?ag0 base"
    using kept_free [OF ag1(3)] kept_rmap [OF base(2)] by (simp add: kept_def)
  moreover have "free_old_trees sb ag = (Ok (), base)"
    using ag1(1) base(1) by (simp add: free_old_trees_def seq_eq)
  ultimately show ?thesis using base(3) ag1(4) by blast
qed

text \<open>Two carvings out of the same free space, one after the other.\<close>

definition carved_two :: "(nat \<times> nat) list \<Rightarrow> (nat \<times> nat) list \<Rightarrow> nat \<Rightarrow> nat \<Rightarrow> ag \<Rightarrow> ag \<Rightarrow> bool" where
  "carved_two ag_run ino_run a i base ag \<longleftrightarrow> ag_inv ag \<and> rmaps_ok (ag_rmap ag) \<and> length (ag_rmap ag) \<le> 2 ^ 33 \<and> kept base ag \<and>
     length (expand ag_run) = a \<and> length (expand ino_run) = i \<and> distinct (expand ag_run @ expand ino_run) \<and>
     set (expand ag_run @ expand ino_run) \<subseteq> free_blocks base \<and>
     free_blocks ag = free_blocks base - set (expand ag_run @ expand ino_run)"

lemma expand_length: "length (expand runs) = sum_list (map snd runs)"
  by (induction runs) (auto simp: expand_def)

lemma carvedD:
  assumes "carved n runs ag ag'"
  shows "length (expand runs) = n" "distinct (expand runs)" "set (expand runs) \<subseteq> free_blocks ag"
    "free_blocks ag' = free_blocks ag - set (expand runs)" "\<forall>(s, n) \<in> set runs. 0 < n" "length runs \<le> n"
proof -
  show "length (expand runs) = n" using assms by (simp add: carved_def expand_length)
  have e: "expand runs = concat (map (\<lambda>(s, l). [s..<s + l]) runs)" by (simp add: expand_def)
  show "distinct (expand runs)" "set (expand runs) \<subseteq> free_blocks ag" "free_blocks ag' = free_blocks ag - set (expand runs)"
    using assms unfolding e set_expand by (simp_all add: carved_def)
  show pos: "\<forall>(s, n) \<in> set runs. 0 < n" using assms by (auto simp: carved_def)
  then have "length runs \<le> sum_list (map snd runs)" by (induction runs) auto
  then show "length runs \<le> n" using assms by (simp add: carved_def)
qed

lemma run_bound:
  assumes "ag_inv ag" and "set (expand runs) \<subseteq> free_blocks ag" and "\<forall>(s, n) \<in> set runs. 0 < n" and "(s, n) \<in> set runs"
  shows "s + n < 2 ^ 32"
proof -
  have n: "0 < n" using assms(3,4) by blast
  then have "s + n - 1 \<in> {s..<s + n}" by auto
  then have "s + n - 1 \<in> cover (set runs)" using assms(4) unfolding cover_def by blast
  then have "s + n - 1 \<in> set (expand runs)" by (simp only: expand_def set_expand)
  then have "s + n - 1 < ag_length ag" using assms(1,2) ag_invD(5) by blast
  then show ?thesis using n assms(1) unfolding ag_inv_def by linarith
qed

lemma try_carve_ok:
  assumes "wf_sb sb" and "ag_inv base" and "rmaps_ok (ag_rmap base)" and "length (ag_rmap base) \<le> 2 ^ 32"
    and "a < 2 ^ 32" and "i < 2 ^ 32"
  shows "(\<exists>ag_run ino_run need merged ag. try_carve sb i a base = (Ok (ag_run, ino_run, need), ag) \<and> need < 2 ^ 32 \<and>
      carved_two ag_run ino_run a i base ag \<and> merged_rmap ag = Ok merged \<and> length merged \<le> length (ag_rmap base) + i + a \<and>
      ag_need sb (length (ag_free ag)) (length merged) = Ok need) \<or>
    (\<exists>ag. try_carve sb i a base = (Err NoSpace, ag) \<and> ag_inv ag \<and> kept base ag \<and> card (free_blocks base) < i + a)"
proof -
  have u: "as_u32 i = i" "as_u32 a = a" using assms(5,6) by (simp_all add: as_u32_def)
  obtain r1 ag1 where c1: "carve i base = (r1, ag1)" "ag_inv ag1" "same_but_free base ag1"
    "case r1 of Ok runs \<Rightarrow> sorted runs \<and> carved i runs base ag1 | Err e \<Rightarrow> e = NoSpace \<and> ag_free_total base < i | Panic \<Rightarrow> False"
    using carve_ok [OF assms(2), of i] by blast
  show ?thesis
  proof (cases r1)
    case (Ok ino_run)
    obtain r2 ag2 where c2: "carve a ag1 = (r2, ag2)" "ag_inv ag2" "same_but_free ag1 ag2"
      "case r2 of Ok runs \<Rightarrow> sorted runs \<and> carved a runs ag1 ag2 | Err e \<Rightarrow> e = NoSpace \<and> ag_free_total ag1 < a | Panic \<Rightarrow> False"
      using carve_ok [OF c1(2), of a] by blast
    have i: "carved i ino_run base ag1" using c1(4) Ok by simp
    note kept2 = kept_trans [OF kept_free [OF c1(3)] kept_free [OF c2(3)]]
    show ?thesis
    proof (cases r2)
      case ok2: (Ok ag_run)
      then have a: "carved a ag_run ag1 ag2" using c2(4) by simp
      note ci = carvedD [OF i] and ca = carvedD [OF a]
      have rm2: "ag_rmap ag2 = ag_rmap base" using same_but_freeD(4) [OF c1(3)] same_but_freeD(4) [OF c2(3)] by simp
      have small: "\<forall>(s, n) \<in> set ag_run. 0 < n \<and> s + n < 2 ^ 32" "\<forall>(s, n) \<in> set ino_run. 0 < n \<and> s + n < 2 ^ 32"
        using run_bound [OF c1(2) ca(3,5)] run_bound [OF assms(2) ci(3,5)] ca(5) ci(5) by fast+
      obtain ag3 where r3: "for_each (\<lambda>(s, n). rmap_add sb s n OWN_AG 0) ag_run ag2 = (Ok (), ag3)" "same_but_rmap ag2 ag3"
        "rmaps_ok (ag_rmap ag3)" "length (ag_rmap ag3) \<le> length (ag_rmap ag2) + length ag_run"
        using rmap_adds_ok [of ag2 ag_run OWN_AG sb] small(1) assms(3) rm2 by auto
      obtain ag4 where r4: "for_each (\<lambda>(s, n). rmap_add sb s n OWN_INOBT 0) ino_run ag3 = (Ok (), ag4)" "same_but_rmap ag3 ag4"
        "rmaps_ok (ag_rmap ag4)" "length (ag_rmap ag4) \<le> length (ag_rmap ag3) + length ino_run"
        using rmap_adds_ok [of ag3 ino_run OWN_INOBT sb] small(2) r3(3) by auto
      note same = same_but_rmap_trans [OF r3(2) r4(2)]
      have inv: "ag_inv ag4" using same_but_rmap_inv [OF same] c2(2) by simp
      have dis: "distinct (expand ag_run @ expand ino_run)" using ci(2,4) ca(2,3) by auto
      have sub: "set (expand ag_run @ expand ino_run) \<subseteq> free_blocks base" using ci(3,4) ca(3) by auto
      have "length (expand ag_run @ expand ino_run) \<le> ag_length base"
      proof -
        have "length (expand ag_run @ expand ino_run) = card (set (expand ag_run @ expand ino_run))" using distinct_card [OF dis] by simp
        also have "\<dots> \<le> card (free_blocks base)" using ag_invD(4) [OF assms(2)] sub by (rule card_mono)
        finally show ?thesis using free_count_le(2) [OF assms(2)] ag_invD(3) [OF assms(2)] by simp
      qed
      then have "a + i \<le> ag_length base" using ca(1) ci(1) by simp
      then have rl: "length (ag_rmap ag4) \<le> 2 ^ 33"
        using r3(4) r4(4) rm2 ca(6) ci(6) assms(2,4) unfolding ag_inv_def by simp
      have two: "carved_two ag_run ino_run a i base ag4"
        unfolding carved_two_def
        using inv r4(3) rl kept_trans [OF kept2 kept_rmap [OF same]] ca(1,4) ci(1,4) dis sub same_but_rmap_blocks [OF same]
        by auto
      obtain merged where m: "merged_rmap ag4 = Ok merged" "length merged \<le> length (ag_rmap ag4)"
        using merged_fields [OF r4(3)] by blast
      then have ml: "length merged \<le> 2 ^ 33" using rl by simp
      have "length (ag_free ag4) \<le> 2 ^ 32" using free_count_le(1) [OF inv] inv unfolding ag_inv_def by linarith
      then obtain need where need: "ag_need sb (length (ag_free ag4)) (length merged) = Ok need" "need < 2 ^ 32"
        using ag_need_ok [OF assms(1), of "length (ag_free ag4)" "length merged"] ml by auto
      have "try_carve sb i a base = (Ok (ag_run, ino_run, need), ag4)"
        using c1(1) Ok c2(1) ok2 r3(1) r4(1) m(1) need(1) by (simp add: try_carve_def u seq_eq ret_def)
      moreover have "length merged \<le> length (ag_rmap base) + i + a" using m(2) r3(4) r4(4) rm2 ca(6) ci(6) by simp
      ultimately show ?thesis using two m(1) need by blast
    next
      case (Err e)
      have "card (free_blocks ag1) = card (free_blocks base) - i"
        using carvedD(1-4) [OF i] ag_invD(4) [OF assms(2)] by (simp add: card_Diff_subset distinct_card)
      moreover have "card (free_blocks ag1) < a" using c2(4) Err ag_invD(3) [OF c1(2)] by simp
      ultimately have "card (free_blocks base) < i + a" by linarith
      then show ?thesis using c1(1) Ok c2 kept2 Err by (auto simp: try_carve_def u seq_eq)
    qed (use c2(4) in simp)
  next
    case (Err e)
    then show ?thesis using c1 kept_free [OF c1(3)] ag_invD(3) [OF assms(2)] by (auto simp: try_carve_def u seq_eq)
  qed (use c1(4) in simp)
qed

text \<open>Whatever the number of tries, the loop ends with sizes that hold or with an error.\<close>

definition settled_sizes :: "superblock \<Rightarrow> (nat \<times> nat) list \<Rightarrow> (nat \<times> nat) list \<Rightarrow> nat \<Rightarrow> ag \<Rightarrow> ag \<Rightarrow> bool" where
  "settled_sizes sb ag_run ino_run i base ag \<longleftrightarrow> carved_two ag_run ino_run (length (expand ag_run)) i base ag \<and>
     (\<exists>merged. merged_rmap ag = Ok merged \<and> ag_need sb (length (ag_free ag)) (length merged) = Ok (length (expand ag_run)))"

lemma settle_ok:
  assumes "wf_sb sb" and "ag_inv base" and "rmaps_ok (ag_rmap base)" and "length (ag_rmap base) \<le> 2 ^ 32"
    and "i < 2 ^ 32" and "a < 2 ^ 32" and "ag_inv st" and "kept base st"
  shows "(\<exists>ag_run ino_run ag. settle tries sb base i a st = (Ok (ag_run, ino_run), ag) \<and> settled_sizes sb ag_run ino_run i base ag) \<or>
    (\<exists>e ag. settle tries sb base i a st = (Err e, ag) \<and> e \<in> {NoSpace, Corrupt} \<and> ag_inv ag \<and> kept base ag)"
  using assms(6-8)
proof (induction tries arbitrary: a st)
  case 0
  then show ?case by (simp add: raise_def)
next
  case (Suc tries)
  let ?st = "st\<lparr>ag_free := ag_free base, ag_free_total := ag_free_total base, ag_rmap := ag_rmap base\<rparr>"
  have st: "ag_inv ?st" "kept base ?st" "free_blocks ?st = free_blocks base"
    using assms(2) Suc.prems(3) by (simp_all add: ag_inv_iff kept_def free_blocks_def)
  have two: "carved_two ag_run ino_run a i base ag" if "carved_two ag_run ino_run a i ?st ag" for ag_run ino_run ag
    using that st kept_trans [OF st(2)] by (simp add: carved_two_def)
  consider (ok) ag_run ino_run need merged ag where "try_carve sb i a ?st = (Ok (ag_run, ino_run, need), ag)" "need < 2 ^ 32"
      "carved_two ag_run ino_run a i base ag" "merged_rmap ag = Ok merged" "ag_need sb (length (ag_free ag)) (length merged) = Ok need"
    | (full) ag where "try_carve sb i a ?st = (Err NoSpace, ag)" "ag_inv ag" "kept ?st ag"
    using try_carve_ok [OF assms(1) st(1) _ _ Suc.prems(1) assms(5)] assms(3,4) two by auto
  then show ?case
  proof cases
    case ok
    show ?thesis
    proof (cases "need = a")
      case True
      have "settled_sizes sb ag_run ino_run i base ag"
        using ok(3,4,5) True by (auto simp: settled_sizes_def carved_two_def)
      then show ?thesis using ok(1) True by (auto simp: seq_eq ret_def)
    next
      case False
      have "ag_inv ag" "kept base ag" using ok(3) by (simp_all add: carved_two_def)
      then show ?thesis using Suc.IH [OF ok(2)] ok(1) False by (simp add: seq_eq)
    qed
  next
    case full
    then show ?thesis using kept_trans [OF st(2)] by (auto simp: seq_eq)
  qed
qed

section \<open>The trees of a group\<close>

definition built :: "superblock \<Rightarrow> nat \<Rightarrow> ag_spec \<Rightarrow> btrec list \<Rightarrow> nat list \<Rightarrow> nat built \<Rightarrow> bool" where
  "built sb agno spec recs addrs b \<longleftrightarrow> (\<forall>r \<in> set recs. rec_ok spec r) \<and>
     tree_blocks spec (length recs) (sb_block_size sb) = Some (length addrs) \<and> (\<forall>a \<in> set addrs. a < 2 ^ 32) \<and>
     build_ag sb agno spec recs addrs = Ok b"

lemma built_ex:
  assumes "wf_sb sb" and "spec \<in> {BNO, CNT, INOBT, FINOBT, RMAP}" and "\<forall>r \<in> set recs. rec_ok spec r"
    and "tree_blocks spec (length recs) (sb_block_size sb) = Some (length addrs)" and "\<forall>a \<in> set addrs. a < 2 ^ 32"
  obtains b where "built sb agno spec recs addrs b"
  using build_ag_read [OF assms(1) wf_specs [OF assms(1,2)] assms(3-5), of agno mem_ops "mem_new []"] assms(3-5)
  unfolding built_def by metis

lemma builtD:
  assumes "wf_sb sb" and "spec \<in> {BNO, CNT, INOBT, FINOBT, RMAP}" and "built sb agno spec recs addrs b"
  shows "map fst (bt_blocks b) = addrs" "\<forall>p \<in> set (bt_blocks b). length (snd p) = sb_block_size sb"
    "length addrs \<le> 2 ^ 24 \<Longrightarrow> on_disk ops dev sb agno (bt_blocks b) \<Longrightarrow>
      \<exists>bs. walk_tree ops dev sb agno spec (bt_root b) (bt_levels b) = Ok (map r_data recs, bs) \<and> mset bs = mset addrs"
    "length addrs \<le> 2 ^ 24 \<Longrightarrow> bt_levels b < 2 ^ 32"
proof -
  obtain sizes where sizes: "level_sizes (length recs) (leaf_max spec (sb_block_size sb)) (node_max spec (sb_block_size sb)) = Some sizes"
    "tree_blocks spec (length recs) (sb_block_size sb) = Some (sum_list sizes)" "sum_list sizes \<le> 2 ^ 24 \<Longrightarrow> length sizes \<le> 9"
    using tree_sizes [OF assms(1,2)] by blast
  have rec: "\<forall>r \<in> set recs. rec_ok spec r" "tree_blocks spec (length recs) (sb_block_size sb) = Some (length addrs)"
    "\<forall>a \<in> set addrs. a < 2 ^ 32" "build_ag sb agno spec recs addrs = Ok b" using assms(3) by (simp_all add: built_def)
  note read = build_ag_read [OF assms(1) wf_specs [OF assms(1,2)] rec(1-3), of agno ops dev]
  show "map fst (bt_blocks b) = addrs" "\<forall>p \<in> set (bt_blocks b). length (snd p) = sb_block_size sb"
    using read rec(4) by auto
  have lev: "length addrs \<le> 2 ^ 24 \<Longrightarrow> bt_levels b \<le> 9" using read rec(2,4) sizes by auto
  then show "length addrs \<le> 2 ^ 24 \<Longrightarrow> bt_levels b < 2 ^ 32" by force
  assume "length addrs \<le> 2 ^ 24" "on_disk ops dev sb agno (bt_blocks b)"
  then show "\<exists>bs. walk_tree ops dev sb agno spec (bt_root b) (bt_levels b) = Ok (map r_data recs, bs) \<and> mset bs = mset addrs"
    using read rec(4) lev by auto
qed

text \<open>The records have the lengths of their trees.\<close>

lemma bno_rec_ok: "rec_ok BNO (bno_rec p)" "rec_ok CNT (bno_rec p)"
  by (cases p; simp add: rec_ok_def bno_rec_def spec_defs Let_def)+

lemma chunk_rec_ok: "rec_ok INOBT (chunk_encode sb s c)" "rec_ok FINOBT (chunk_encode sb s c)"
  by (simp_all add: rec_ok_def chunk_encode_def spec_defs Let_def)

lemma rmap_encode_ok:
  assumes "rmap_fields r"
  shows "\<exists>b. rmap_encode r = Ok b \<and> rec_ok RMAP b \<and>
    r_data b = u32_bytes (rm_start r) @ u32_bytes (rm_len r) @ u64_bytes (rm_owner r) @ u64_bytes (rm_offset r)"
  using assms by (auto simp: rmap_fields_def rm_fits_def rmap_encode_def rec_ok_def RMAP_def sub_w_def add_w_def Let_def)

lemma rmap_encodes_ok:
  assumes "list_all rmap_fields rs"
  shows "\<exists>bs. map_res rmap_encode rs = Ok bs \<and> (\<forall>b \<in> set bs. rec_ok RMAP b) \<and> length bs = length rs \<and>
    map r_data bs = map (\<lambda>r. u32_bytes (rm_start r) @ u32_bytes (rm_len r) @ u64_bytes (rm_owner r) @ u64_bytes (rm_offset r)) rs"
  using assms
proof (induction rs)
  case (Cons r rs)
  then show ?case using rmap_encode_ok [of r] by fastforce
qed simp

definition free_chunks :: "ag \<Rightarrow> (nat \<times> chunk) list" where
  "free_chunks ag = filter (\<lambda>(_, c). 0 < free_count c) (ag_chunks ag)"

definition chunk_recs :: "superblock \<Rightarrow> (nat \<times> chunk) list \<Rightarrow> btrec list" where
  "chunk_recs sb = map (\<lambda>(s, c). chunk_encode sb s c)"

lemma length_chunk_recs [simp]: "length (chunk_recs sb cs) = length cs"
  by (simp add: chunk_recs_def)

lemma chunk_recs_ok: "\<forall>r \<in> set (chunk_recs sb cs). rec_ok INOBT r" "\<forall>r \<in> set (chunk_recs sb cs). rec_ok FINOBT r"
  by (auto simp: chunk_recs_def chunk_rec_ok)

text \<open>All five trees over the two lists of blocks.\<close>

definition trees_built :: "superblock \<Rightarrow> ag \<Rightarrow> nat list \<Rightarrow> nat list \<Rightarrow> ag_trees \<Rightarrow> bool" where
  "trees_built sb ag ag_list ino_list t \<longleftrightarrow>
     (\<exists>A1 A2 A3 I1 I2 merged rmap_recs. ag_list = A1 @ A2 @ A3 \<and> ino_list = I1 @ I2 \<and>
        merged_rmap ag = Ok merged \<and> map_res rmap_encode merged = Ok rmap_recs \<and>
        built sb (ag_no ag) BNO (map bno_rec (ag_free ag)) A1 (t_bno t) \<and>
        built sb (ag_no ag) CNT (sort_key cnt_order (map bno_rec (ag_free ag))) A2 (t_cnt t) \<and>
        (if has_rmapbt sb then \<exists>r. t_rmap t = Some r \<and> built sb (ag_no ag) RMAP rmap_recs A3 r else t_rmap t = None \<and> A3 = []) \<and>
        built sb (ag_no ag) INOBT (chunk_recs sb (ag_chunks ag)) I1 (t_inobt t) \<and>
        (if has_finobt sb then \<exists>f. t_finobt t = Some f \<and> built sb (ag_no ag) FINOBT (chunk_recs sb (free_chunks ag)) I2 f
         else t_finobt t = None \<and> I2 = []))"

lemma trees_built_cong:
  assumes "ag_no ag = ag_no ag'" and "ag_free ag = ag_free ag'" and "ag_chunks ag = ag_chunks ag'" and "ag_rmap ag = ag_rmap ag'"
  shows "trees_built sb ag = trees_built sb ag'"
  by (intro ext) (unfold trees_built_def free_chunks_def merged_rmap_def assms, rule refl)

lemma split_at: "length xs = n + m \<Longrightarrow> \<exists>ys zs. xs = ys @ zs \<and> length ys = n \<and> length zs = m"
  by (intro exI [of _ "take n xs"] exI [of _ "drop n xs"]) simp

lemma get_append: "get (xs @ ys @ zs) (length xs) (length ys) = Ok ys" "get (xs @ ys) 0 (length xs) = Ok xs"
  "get_from (xs @ ys) (length xs) = Ok ys"
  by (simp_all add: get_def get_from_def seg_def)

lemma build_trees_ok:
  assumes "wf_sb sb" and "rmaps_ok (ag_rmap ag)" and "\<forall>a \<in> set (ag_list @ ino_list). a < 2 ^ 32"
    and "length (ag_free ag) \<le> 2 ^ 32" and "length (ag_rmap ag) \<le> 2 ^ 33" and "length (ag_chunks ag) \<le> 2 ^ 32"
    and "merged_rmap ag = Ok merged" and "ag_need sb (length (ag_free ag)) (length merged) = Ok (length ag_list)"
    and "ino_need sb ag = Ok (length ino_list)"
  shows "\<exists>t. build_trees sb ag ag_list ino_list = Ok t \<and> trees_built sb ag ag_list ino_list t"
proof -
  have m: "list_all rmap_fields merged" "length merged \<le> length (ag_rmap ag)"
    using merged_fields [OF assms(2)] assms(7) by auto
  obtain rr where rr: "map_res rmap_encode merged = Ok rr" "\<forall>b \<in> set rr. rec_ok RMAP b" "length rr = length merged"
    using rmap_encodes_ok [OF m(1)] by blast
  obtain nb nc nr where n: "length ag_list = nb + (nc + nr)" "tree_blocks BNO (length (ag_free ag)) (sb_block_size sb) = Some nb"
    "tree_blocks CNT (length (ag_free ag)) (sb_block_size sb) = Some nc"
    "if has_rmapbt sb then tree_blocks RMAP (length merged) (sb_block_size sb) = Some nr else nr = 0"
    using ag_need_ok [OF assms(1,4), of "length merged"] assms(5,8) m(2) by auto
  obtain ni nf where i: "length ino_list = ni + nf" "tree_blocks INOBT (length (ag_chunks ag)) (sb_block_size sb) = Some ni"
    "if has_finobt sb then tree_blocks FINOBT (length (free_chunks ag)) (sb_block_size sb) = Some nf else nf = 0"
    using ino_need_ok [OF assms(1,6)] assms(9) by (auto simp: free_chunks_def)
  obtain A1 A2 A3 where A: "ag_list = A1 @ A2 @ A3" "length A1 = nb" "length A2 = nc" "length A3 = nr"
    using split_at [OF n(1)] split_at [of _ nc nr] by metis
  obtain I1 I2 where I: "ino_list = I1 @ I2" "length I1 = ni" "length I2 = nf" using split_at [OF i(1)] by blast
  have small: "\<forall>a \<in> set A1. a < 2 ^ 32" "\<forall>a \<in> set A2. a < 2 ^ 32" "\<forall>a \<in> set A3. a < 2 ^ 32"
    "\<forall>a \<in> set I1. a < 2 ^ 32" "\<forall>a \<in> set I2. a < 2 ^ 32" using assms(3) A(1) I(1) by auto
  obtain bno where bno: "built sb (ag_no ag) BNO (map bno_rec (ag_free ag)) A1 bno"
    using built_ex [OF assms(1) _ _ _ small(1), of BNO "map bno_rec (ag_free ag)" "ag_no ag"] bno_rec_ok(1) n(2) A(2)
    by (auto simp: image_iff)
  obtain cnt where cnt: "built sb (ag_no ag) CNT (sort_key cnt_order (map bno_rec (ag_free ag))) A2 cnt"
    using built_ex [OF assms(1) _ _ _ small(2), of CNT "sort_key cnt_order (map bno_rec (ag_free ag))" "ag_no ag"] bno_rec_ok(2) n(3) A(3)
    by (auto simp: image_iff)
  obtain r where r: "if has_rmapbt sb then \<exists>b. r = Some b \<and> built sb (ag_no ag) RMAP rr A3 b else r = None \<and> A3 = []"
  proof (cases "has_rmapbt sb")
    case True
    then obtain b where "built sb (ag_no ag) RMAP rr A3 b"
      using built_ex [OF assms(1) _ rr(2) _ small(3), where agno = "ag_no ag"] n(4) A(4) rr(3) by auto
    then show ?thesis using that [of "Some b"] True by auto
  qed (use that [of None] n(4) A(4) in auto)
  obtain ino where ino: "built sb (ag_no ag) INOBT (chunk_recs sb (ag_chunks ag)) I1 ino"
    using built_ex [OF assms(1) _ chunk_recs_ok(1) [of sb "ag_chunks ag"] _ small(4), where agno = "ag_no ag"] i(2) I(2) by auto
  obtain f where f: "if has_finobt sb then \<exists>b. f = Some b \<and> built sb (ag_no ag) FINOBT (chunk_recs sb (free_chunks ag)) I2 b
      else f = None \<and> I2 = []"
  proof (cases "has_finobt sb")
    case True
    then obtain b where "built sb (ag_no ag) FINOBT (chunk_recs sb (free_chunks ag)) I2 b"
      using built_ex [OF assms(1) _ chunk_recs_ok(2) [of sb "free_chunks ag"] _ small(5), where agno = "ag_no ag"] i(3) I(3) by auto
    then show ?thesis using that [of "Some b"] True by auto
  qed (use that [of None] i(3) I(3) in auto)
  let ?t = "\<lparr>t_bno = bno, t_cnt = cnt, t_rmap = r, t_inobt = ino, t_finobt = f\<rparr>"
  have g: "get ag_list 0 nb = Ok A1" "get ag_list nb nc = Ok A2" "get_from ag_list (nb + nc) = Ok A3"
    "get ino_list 0 ni = Ok I1" "get_from ino_list ni = Ok I2"
    using get_append(1) [of A1 A2 A3] get_append(2) [of A1 "A2 @ A3"] get_append(3) [of "A1 @ A2" A3] get_append(2,3) [of I1 I2] A I
    by simp_all
  have B: "build_ag sb (ag_no ag) BNO (map bno_rec (ag_free ag)) A1 = Ok bno"
    "build_ag sb (ag_no ag) CNT (sort_key cnt_order (map bno_rec (ag_free ag))) A2 = Ok cnt"
    "build_ag sb (ag_no ag) INOBT (map (\<lambda>(s, c). chunk_encode sb s c) (ag_chunks ag)) I1 = Ok ino"
    using bno cnt ino by (simp_all add: built_def chunk_recs_def)
  have R: "(if has_rmapbt sb then map_ok Some (build_ag sb (ag_no ag) RMAP rr A3) else Ok None) = Ok r"
    using r by (auto simp: built_def split: if_splits)
  have F: "(if has_finobt sb then map_ok Some
      (build_ag sb (ag_no ag) FINOBT (map (\<lambda>(s, c). chunk_encode sb s c) (filter (\<lambda>(_, c). 0 < free_count c) (ag_chunks ag))) I2)
      else Ok None) = Ok f"
    using f by (auto simp: built_def chunk_recs_def free_chunks_def split: if_splits)
  have "build_trees sb ag ag_list ino_list = Ok ?t"
    unfolding build_trees_def Let_def
    by (simp only: assms(7) rr(1) and_then.simps length_sort length_map n(2,3) i(2) returns_def option.case g B R F)
  moreover have "trees_built sb ag ag_list ino_list ?t"
    unfolding trees_built_def ag_trees.select_convs
    by (intro exI [of _ A1] exI [of _ A2] exI [of _ A3] exI [of _ I1] exI [of _ I2] exI [of _ merged] exI [of _ rr] conjI
        A(1) I(1) assms(7) rr(1) bno cnt r ino f)
  ultimately show ?thesis by blast
qed

section \<open>The headers\<close>

lemma agf_field:
  assumes "new_agf ag t = Ok d" and "512 \<le> length (ag_agf ag)" and "i + 4 \<le> 216"
    and "\<And>counted. field (agf_puts ag t counted) i 4 (Some (seg (ag_agf ag) i 4)) = Some (f counted)"
  shows "seg d i 4 = f (sum_list (map snd (ag_free ag)))"
proof -
  from assms(1) obtain c where "puts (agf_puts ag t (sum_list (map snd (ag_free ag)))) (ag_agf ag) = Ok c" "stamp c AGF_CRC = Ok d"
    by (auto simp: new_agf_def sum_u32_def res_simps split: if_splits)
  from crc.seal_field [OF this _ _ assms(4)] assms(2,3) show ?thesis by simp
qed

lemma new_agf_fields:
  assumes "new_agf ag t = Ok d" and "512 \<le> length (ag_agf ag)"
  shows "length d = length (ag_agf ag)" "verify d AGF_CRC"
    "seg d 0 4 = seg (ag_agf ag) 0 4" "seg d 8 4 = seg (ag_agf ag) 8 4" "seg d 12 4 = seg (ag_agf ag) 12 4"
    "seg d 40 4 = seg (ag_agf ag) 40 4" "seg d 44 4 = seg (ag_agf ag) 44 4" "seg d 48 4 = seg (ag_agf ag) 48 4"
    "seg d 16 4 = u32_bytes (bt_root (t_bno t))" "seg d 28 4 = u32_bytes (bt_levels (t_bno t))"
    "seg d 20 4 = u32_bytes (bt_root (t_cnt t))" "seg d 32 4 = u32_bytes (bt_levels (t_cnt t))"
    "t_rmap t = Some r \<Longrightarrow> seg d 24 4 = u32_bytes (bt_root r)" "t_rmap t = Some r \<Longrightarrow> seg d 36 4 = u32_bytes (bt_levels r)"
    "seg d 52 4 = u32_bytes (sum_list (map snd (ag_free ag)))"
proof -
  from assms(1) obtain c where c: "puts (agf_puts ag t (sum_list (map snd (ag_free ag)))) (ag_agf ag) = Ok c" "stamp c AGF_CRC = Ok d"
    by (auto simp: new_agf_def sum_u32_def res_simps split: if_splits)
  show "length d = length (ag_agf ag)" "verify d AGF_CRC"
    using puts_length [OF c(1)] crc.seal_length [OF c(2)] crc.seal_check [OF c(2)] by simp_all
  note f = agf_field [OF assms]
  show "seg d 0 4 = seg (ag_agf ag) 0 4" "seg d 8 4 = seg (ag_agf ag) 8 4" "seg d 12 4 = seg (ag_agf ag) 12 4"
    "seg d 40 4 = seg (ag_agf ag) 40 4" "seg d 44 4 = seg (ag_agf ag) 44 4" "seg d 48 4 = seg (ag_agf ag) 48 4"
    "seg d 16 4 = u32_bytes (bt_root (t_bno t))" "seg d 28 4 = u32_bytes (bt_levels (t_bno t))"
    "seg d 20 4 = u32_bytes (bt_root (t_cnt t))" "seg d 32 4 = u32_bytes (bt_levels (t_cnt t))"
    "t_rmap t = Some r \<Longrightarrow> seg d 24 4 = u32_bytes (bt_root r)" "t_rmap t = Some r \<Longrightarrow> seg d 36 4 = u32_bytes (bt_levels r)"
    by (rule f; cases "t_rmap t"; simp add: agf_puts_def Let_def)+
  show "seg d 52 4 = u32_bytes (sum_list (map snd (ag_free ag)))"
    by (rule f; cases "t_rmap t"; simp add: agf_puts_def Let_def)
qed

lemma new_agf_ok:
  assumes "ag_inv ag" and "512 \<le> length (ag_agf ag)"
  shows "\<exists>d. new_agf ag t = Ok d"
proof -
  let ?n = "sum_list (map snd (ag_free ag))"
  obtain c where c: "puts (agf_puts ag t ?n) (ag_agf ag) = Ok c"
    using puts_total [of "ag_agf ag" "agf_puts ag t ?n"] assms(2) by (cases "t_rmap t") (auto simp: agf_puts_def Let_def)
  moreover have "\<exists>d. stamp c AGF_CRC = Ok d" using crc.seal_total puts_length [OF c] assms(2) by simp
  ultimately show ?thesis using free_count_le(3) [OF assms(1)] by (auto simp: new_agf_def sum_u32_def)
qed

text \<open>The inodes of a group fit 32-bit counts.\<close>

definition chunk_fields :: "superblock \<Rightarrow> chunk \<Rightarrow> bool" where
  "chunk_fields sb c \<longleftrightarrow> ch_count c \<le> 64 \<and> ch_holemask c < 2 ^ 16 \<and> (\<not> has_sparse_inodes sb \<longrightarrow> ch_holemask c = 0 \<and> ch_count c = 64)"

lemma chunk_count: "chunks_ok ag \<Longrightarrow> 64 * length (ag_chunks ag) < 2 ^ 32"
proof -
  have *: "64 * length cs < B" if "om_ok cs" "\<forall>s c. (s, c) \<in> set cs \<longrightarrow> s + 64 < B" "0 < B"
    "\<forall>s c s' c'. (s, c) \<in> set cs \<longrightarrow> (s', c') \<in> set cs \<longrightarrow> s < s' \<longrightarrow> s + 64 \<le> s'" for cs :: "(nat \<times> chunk) list" and B
    using that
  proof (induction cs arbitrary: B rule: rev_induct)
    case (snoc p cs)
    obtain s c where p: "p = (s, c)" by (cases p)
    have lt: "\<forall>q \<in> set cs. fst q < s" and ok: "om_ok cs"
      using snoc.prems(1) by (auto simp: p om_ok_sorted sorted_wrt_append)
    have "64 * length cs < s + 1"
    proof (rule snoc.IH [OF ok])
      show "\<forall>t d. (t, d) \<in> set cs \<longrightarrow> t + 64 < s + 1" using snoc.prems(4) lt p by fastforce
    qed (use snoc.prems(4) in auto)
    moreover have "s + 64 < B" using snoc.prems(2) p by simp
    ultimately show ?case by simp
  qed simp
  assume ok: "chunks_ok ag"
  note D = chunks_okD [OF ok]
  show ?thesis
  proof (rule *)
    show "om_ok (ag_chunks ag)" "(0 :: nat) < 2 ^ 32" using D(1) by simp_all
    show "\<forall>s c. (s, c) \<in> set (ag_chunks ag) \<longrightarrow> s + 64 < 2 ^ 32" using D(2) by blast
    show "\<forall>s c s' c'. (s, c) \<in> set (ag_chunks ag) \<longrightarrow> (s', c') \<in> set (ag_chunks ag) \<longrightarrow> s < s' \<longrightarrow> s + 64 \<le> s'"
      using D(4) by blast
  qed
qed

lemma count_ones_le: "count_ones w \<le> 64"
  using length_filter_le [of "bit w" "[0..<64]"] by (simp add: count_ones_def)

lemma sum_list_le: "\<forall>x \<in> set xs. f x \<le> (n :: nat) \<Longrightarrow> sum_list (map f xs) \<le> n * length xs"
  by (induction xs) auto

lemma new_agi_fields:
  assumes "new_agi sb ag t = Ok d" and "512 \<le> length (ag_agi ag)"
  shows "length d = length (ag_agi ag)" "verify d AGI_CRC"
    "seg d 0 4 = seg (ag_agi ag) 0 4" "seg d 8 4 = seg (ag_agi ag) 8 4"
    "seg d 20 4 = u32_bytes (bt_root (t_inobt t))" "seg d 24 4 = u32_bytes (bt_levels (t_inobt t))"
    "t_finobt t = Some f \<Longrightarrow> seg d 328 4 = u32_bytes (bt_root f)" "t_finobt t = Some f \<Longrightarrow> seg d 332 4 = u32_bytes (bt_levels f)"
proof -
  from assms(1) obtain m k j c where c: "puts (agi_puts sb ag t m k j) (ag_agi ag) = Ok c" "stamp c AGI_CRC = Ok d"
    by (auto simp: new_agi_def sum_u32_def res_simps split: if_splits)
  show "length d = length (ag_agi ag)" "verify d AGI_CRC"
    using puts_length [OF c(1)] crc.seal_length [OF c(2)] crc.seal_check [OF c(2)] by simp_all
  note f = crc.seal_field [OF c]
  show "seg d 0 4 = seg (ag_agi ag) 0 4" "seg d 8 4 = seg (ag_agi ag) 8 4"
    "seg d 20 4 = u32_bytes (bt_root (t_inobt t))" "seg d 24 4 = u32_bytes (bt_levels (t_inobt t))"
    "t_finobt t = Some f \<Longrightarrow> seg d 328 4 = u32_bytes (bt_root f)" "t_finobt t = Some f \<Longrightarrow> seg d 332 4 = u32_bytes (bt_levels f)"
    by (rule f; cases "t_finobt t"; use assms(2) in \<open>simp add: agi_puts_def split: option.splits\<close>)+
qed

lemma new_agi_ok:
  assumes "chunks_ok ag" and "\<forall>(s, c) \<in> set (ag_chunks ag). chunk_fields sb c" and "512 \<le> length (ag_agi ag)"
  shows "\<exists>d. new_agi sb ag t = Ok d"
proof -
  let ?m = "sum_list (map (\<lambda>(_, c). ch_count c) (ag_chunks ag))" and ?k = "sum_list (map (\<lambda>(_, c). free_count c) (ag_chunks ag))"
  have "?m \<le> 64 * length (ag_chunks ag)" "?k \<le> 64 * length (ag_chunks ag)"
    by (rule sum_list_le; use assms(2) count_ones_le in \<open>auto simp: chunk_fields_def free_count_def\<close>)+
  then have small: "?m < 2 ^ 32" "?k < 2 ^ 32" using chunk_count [OF assms(1)] by linarith+
  let ?j = "rd32 (ag_agi ag) 32"
  have "list_all (\<lambda>w. fst w + length (snd w) \<le> length (ag_agi ag)) (agi_puts sb ag t m k j)" for m k j
    using assms(3) by (cases "t_finobt t"; simp add: agi_puts_def split: option.splits)
  from puts_total [OF this] obtain c where c: "puts (agi_puts sb ag t ?m ?k ?j) (ag_agi ag) = Ok c" by blast
  moreover have "\<exists>d. stamp c AGI_CRC = Ok d" using crc.seal_total puts_length [OF c] assms(3) by simp
  ultimately show ?thesis using small assms(3) by (auto simp: new_agi_def sum_u32_def)
qed

section \<open>The whole rebuild\<close>

definition headers_ok :: "superblock \<Rightarrow> ag \<Rightarrow> bool" where
  "headers_ok sb ag \<longleftrightarrow> 512 \<le> sect sb \<and> length (ag_agf ag) = sect sb \<and> length (ag_agi ag) = sect sb \<and>
     rd32 (ag_agf ag) 0 = AGF_MAGIC \<and> rd32 (ag_agf ag) 8 = ag_no ag \<and> rd32 (ag_agf ag) 12 = ag_length ag \<and>
     rd32 (ag_agi ag) 0 = AGI_MAGIC \<and> rd32 (ag_agi ag) 8 = ag_no ag"

definition ready :: "superblock \<Rightarrow> ag \<Rightarrow> bool" where
  "ready sb ag \<longleftrightarrow> group_ok ag \<and> chunks_ok ag \<and> (\<forall>(s, c) \<in> set (ag_chunks ag). chunk_fields sb c) \<and> headers_ok sb ag"

definition tree_list :: "ag \<Rightarrow> nat set" where
  "tree_list ag = set (ag_old_tree_blocks ag)"

text \<open>The state after a rebuild, next to the one before it.\<close>

definition rebuilt :: "superblock \<Rightarrow> ag \<Rightarrow> (nat \<times> byte list) list \<Rightarrow> ag \<Rightarrow> bool" where
  "rebuilt sb ag writes ag' \<longleftrightarrow> ag_inv ag' \<and> rmaps_ok (ag_rmap ag') \<and>
     ag_no ag' = ag_no ag \<and> ag_length ag' = ag_length ag \<and> ag_agfl ag' = ag_agfl ag \<and> ag_chunks ag' = ag_chunks ag \<and>
     distinct (ag_old_tree_blocks ag') \<and> tree_list ag' \<inter> free_blocks ag' = {} \<and>
     tree_list ag' \<union> free_blocks ag' = tree_list ag \<union> free_blocks ag \<and>
     ag_reserve ag' = reserve_for (ag_old_tree_blocks ag') (ag_length ag) \<and> \<not> ag_dirty ag' \<and>
     (\<exists>ag_list ino_list t mid. ag_old_tree_blocks ag' = ag_list @ ino_list \<and> trees_built sb ag' ag_list ino_list t \<and>
        kept (ag\<lparr>ag_old_tree_blocks := []\<rparr>) mid \<and> ag_free mid = ag_free ag' \<and>
        new_agf mid t = Ok (ag_agf ag') \<and> new_agi sb mid t = Ok (ag_agi ag') \<and>
        writes = tree_writes sb (ag_no ag) t @ [(header_at sb (ag_no ag) 1, ag_agf ag'), (header_at sb (ag_no ag) 2, ag_agi ag')])"

lemma rebuild_start:
  assumes "wf_sb sb" and "group_ok ag"
  obtains base i a m where "free_old_trees sb ag = (Ok (), base)" "ag_inv base" "rmaps_ok (ag_rmap base)"
    "length (ag_rmap base) \<le> 2 ^ 32" "length (ag_rmap base) \<le> length (ag_rmap ag) + length (ag_agfl ag)"
    "kept (ag\<lparr>ag_old_tree_blocks := []\<rparr>) base" "free_blocks base = tree_list ag \<union> free_blocks ag"
    "ino_need sb base = Ok i" "i < 2 ^ 32" "m \<le> length (ag_rmap base) + 2" "ag_need sb (length (ag_free base)) m = Ok a" "a < 2 ^ 32"
    "rebuild sb ag = seq (settle 32 sb base i a) (lay_out sb) base"
proof -
  obtain base where base: "free_old_trees sb ag = (Ok (), base)" "ag_inv base" "rmaps_ok (ag_rmap base)"
    "length (ag_rmap base) \<le> length (ag_rmap ag) + length (ag_agfl ag)" "kept (ag\<lparr>ag_old_tree_blocks := []\<rparr>) base"
    "free_blocks base = tree_list ag \<union> free_blocks ag"
    using free_old_trees_ok [OF assms(2)] by (auto simp: tree_list_def Un_commute)
  have len: "length (ag_rmap base) \<le> 2 ^ 32" using base(4) assms(2) unfolding group_ok_def by linarith
  have ch: "length (ag_chunks base) \<le> 2 ^ 32" using base(5) assms(2) by (simp add: kept_def group_ok_def)
  obtain i where i: "ino_need sb base = Ok i" "i < 2 ^ 32" using ino_need_ok [OF assms(1) ch] by auto
  obtain m0 where m0: "merged_rmap base = Ok m0" "length m0 \<le> length (ag_rmap base)" using merged_fields [OF base(3)] by blast
  have "length (ag_free base) \<le> 2 ^ 32" using free_count_le(1) [OF base(2)] base(2) unfolding ag_inv_def by linarith
  then obtain a where a: "ag_need sb (length (ag_free base)) (length m0 + 2) = Ok a" "a < 2 ^ 32"
    using ag_need_ok [OF assms(1), of "length (ag_free base)" "length m0 + 2"] m0(2) len by auto
  have "rebuild sb ag = seq (settle 32 sb base i a) (lay_out sb) base"
    using base(1) i(1) m0(1) a(1) by (simp add: rebuild_def seq_eq)
  then show ?thesis using that [OF base(1-3) len base(4-6) i _ a] m0(2) by simp
qed

lemma lay_out_ok:
  assumes "wf_sb sb" and "ready sb ag" and "kept (ag\<lparr>ag_old_tree_blocks := []\<rparr>) base" and "ag_inv base"
    and "free_blocks base = tree_list ag \<union> free_blocks ag" and "ino_need sb base = Ok i"
    and "settled_sizes sb ag_run ino_run i base mid"
  shows "\<exists>writes ag'. lay_out sb (ag_run, ino_run) mid = (Ok writes, ag') \<and> rebuilt sb ag writes ag'"
proof -
  have g: "group_ok ag" "chunks_ok ag" "\<forall>(s, c) \<in> set (ag_chunks ag). chunk_fields sb c" "headers_ok sb ag"
    using assms(2) by (simp_all add: ready_def)
  let ?al = "expand ag_run" and ?il = "expand ino_run"
  obtain merged where m: "merged_rmap mid = Ok merged" "ag_need sb (length (ag_free mid)) (length merged) = Ok (length ?al)"
    using assms(7) by (auto simp: settled_sizes_def)
  have c: "ag_inv mid" "rmaps_ok (ag_rmap mid)" "length (ag_rmap mid) \<le> 2 ^ 33" "kept base mid" "length ?il = i"
    "distinct (?al @ ?il)" "set (?al @ ?il) \<subseteq> free_blocks base" "free_blocks mid = free_blocks base - set (?al @ ?il)"
    using assms(7) by (auto simp: settled_sizes_def carved_two_def)
  have k: "kept (ag\<lparr>ag_old_tree_blocks := []\<rparr>) mid" by (rule kept_trans [OF assms(3) c(4)])
  have small: "\<forall>b \<in> set (?al @ ?il). b < 2 ^ 32"
    using c(7) ag_invD(5) [OF assms(4)] assms(4) unfolding ag_inv_def by fastforce
  have free: "length (ag_free mid) \<le> 2 ^ 32" using free_count_le(1) [OF c(1)] c(1) unfolding ag_inv_def by linarith
  have chm: "ag_chunks mid = ag_chunks ag" "length (ag_chunks mid) \<le> 2 ^ 32" "ag_chunks base = ag_chunks ag"
    using k g(1) assms(3) by (simp_all add: kept_def group_ok_def)
  have ino: "ino_need sb mid = Ok (length ?il)" using assms(6) c(5) ino_need_cong [of mid base] chm by simp
  obtain t where t: "build_trees sb mid ?al ?il = Ok t" "trees_built sb mid ?al ?il t"
    using build_trees_ok [OF assms(1) c(2) small free c(3) chm(2) m ino] by blast
  have hdr: "512 \<le> length (ag_agf mid)" "512 \<le> length (ag_agi mid)" using g(4) k by (simp_all add: headers_ok_def kept_def)
  obtain agf where agf: "new_agf mid t = Ok agf" using new_agf_ok [OF c(1) hdr(1)] by blast
  have "chunks_ok mid" "\<forall>(s, c) \<in> set (ag_chunks mid). chunk_fields sb c" using g(2,3) chm(1) by (simp_all add: chunks_ok_def)
  then obtain agi where agi: "new_agi sb mid t = Ok agi" using new_agi_ok hdr(2) by blast
  let ?ag' = "mid\<lparr>ag_agf := agf, ag_agi := agi, ag_old_tree_blocks := ?al @ ?il,
                   ag_reserve := reserve_for (?al @ ?il) (ag_length mid), ag_dirty := False\<rparr>"
  let ?ws = "tree_writes sb (ag_no mid) t @ [(header_at sb (ag_no mid) 1, agf), (header_at sb (ag_no mid) 2, agi)]"
  have "lay_out sb (ag_run, ino_run) mid = (Ok ?ws, ?ag')" using t(1) agf agi by (simp add: lay_out_def seq_eq ret_def Let_def)
  moreover have "rebuilt sb ag ?ws ?ag'"
  proof -
    have "trees_built sb ?ag' ?al ?il t" using t(2) trees_built_cong [of ?ag' mid] by simp
    moreover have "ag_inv ?ag'" "free_blocks ?ag' = free_blocks mid" using c(1) by (simp_all add: ag_inv_def free_blocks_def)
    ultimately show ?thesis
      unfolding rebuilt_def using c(2,6,7,8) assms(5) k agf agi
      by (intro conjI exI [of _ ?al] exI [of _ ?il] exI [of _ t] exI [of _ mid]) (auto simp: tree_list_def kept_def)
  qed
  ultimately show ?thesis by blast
qed

lemma rebuild_ok:
  assumes "wf_sb sb" and "ready sb ag"
  shows "(\<exists>writes ag'. rebuild sb ag = (Ok writes, ag') \<and> rebuilt sb ag writes ag') \<or>
    (\<exists>e ag'. rebuild sb ag = (Err e, ag') \<and> e \<in> {NoSpace, Corrupt} \<and> ag_inv ag' \<and> kept (ag\<lparr>ag_old_tree_blocks := []\<rparr>) ag')"
proof -
  have "group_ok ag" using assms(2) by (simp add: ready_def)
  from rebuild_start [OF assms(1) this] obtain base i a where base: "ag_inv base" "rmaps_ok (ag_rmap base)" "length (ag_rmap base) \<le> 2 ^ 32"
    and kept: "kept (ag\<lparr>ag_old_tree_blocks := []\<rparr>) base" and pool: "free_blocks base = tree_list ag \<union> free_blocks ag"
    and i: "ino_need sb base = Ok i" "i < 2 ^ 32" and a: "a < 2 ^ 32" and eq: "rebuild sb ag = seq (settle 32 sb base i a) (lay_out sb) base"
    by metis
  have "kept base base" by (simp add: kept_def)
  from settle_ok [OF assms(1) base i(2) a base(1) this, of 32] show ?thesis
  proof (elim disjE exE conjE)
    fix e ag' assume "settle 32 sb base i a base = (Err e, ag')" "e \<in> {NoSpace, Corrupt}" "ag_inv ag'" "kept base ag'"
    then show ?thesis using kept_trans [OF kept] by (auto simp: eq seq_eq)
  next
    fix ag_run ino_run mid
    assume "settle 32 sb base i a base = (Ok (ag_run, ino_run), mid)" and "settled_sizes sb ag_run ino_run i base mid"
    then show ?thesis using lay_out_ok [OF assms kept base(1) pool i(1)] by (auto simp: eq seq_eq)
  qed
qed

section \<open>Reading it back\<close>

definition opt_blocks :: "nat built option \<Rightarrow> (nat \<times> byte list) list" where
  "opt_blocks b = (case b of None \<Rightarrow> [] | Some b \<Rightarrow> bt_blocks b)"

definition all_blocks :: "ag_trees \<Rightarrow> (nat \<times> byte list) list" where
  "all_blocks t = bt_blocks (t_bno t) @ bt_blocks (t_cnt t) @ opt_blocks (t_rmap t) @ bt_blocks (t_inobt t) @ opt_blocks (t_finobt t)"

lemma tree_writes_eq: "tree_writes sb agno t = map (\<lambda>(a, buf). (agb_to_byte sb agno a, buf)) (all_blocks t)"
  by (simp add: tree_writes_def all_blocks_def emit_def emit_opt_def opt_blocks_def split: option.splits)

lemma opt_built:
  assumes "wf_sb sb" and "spec \<in> {BNO, CNT, INOBT, FINOBT, RMAP}"
    and "if P then \<exists>r. b = Some r \<and> built sb agno spec recs A r else b = None \<and> A = []"
  shows "map fst (opt_blocks b) = A \<and> (\<forall>p \<in> set (opt_blocks b). length (snd p) = sb_block_size sb)"
proof (cases P)
  case True
  then obtain r where r: "b = Some r" "built sb agno spec recs A r" using assms(3) by auto
  then show ?thesis using builtD(1,2) [OF assms(1,2) r(2)] by (simp add: opt_blocks_def)
qed (use assms(3) in \<open>simp add: opt_blocks_def\<close>)

lemma trees_built_blocks:
  assumes "wf_sb sb" and "trees_built sb ag al il t"
  shows "map fst (all_blocks t) = al @ il" "\<forall>p \<in> set (all_blocks t). length (snd p) = sb_block_size sb"
proof -
  obtain A1 A2 A3 I1 I2 m rr where s: "al = A1 @ A2 @ A3" "il = I1 @ I2"
    and b: "built sb (ag_no ag) BNO (map bno_rec (ag_free ag)) A1 (t_bno t)"
      "built sb (ag_no ag) CNT (sort_key cnt_order (map bno_rec (ag_free ag))) A2 (t_cnt t)"
      "if has_rmapbt sb then \<exists>r. t_rmap t = Some r \<and> built sb (ag_no ag) RMAP rr A3 r else t_rmap t = None \<and> A3 = []"
      "built sb (ag_no ag) INOBT (chunk_recs sb (ag_chunks ag)) I1 (t_inobt t)"
      "if has_finobt sb then \<exists>f. t_finobt t = Some f \<and> built sb (ag_no ag) FINOBT (chunk_recs sb (free_chunks ag)) I2 f
       else t_finobt t = None \<and> I2 = []"
    using assms(2) unfolding trees_built_def by blast
  note D = builtD(1,2) [OF assms(1)]
  have "map fst (opt_blocks (t_rmap t)) = A3 \<and> (\<forall>p \<in> set (opt_blocks (t_rmap t)). length (snd p) = sb_block_size sb)"
    using opt_built [OF assms(1) _ b(3)] by simp
  moreover have "map fst (opt_blocks (t_finobt t)) = I2 \<and> (\<forall>p \<in> set (opt_blocks (t_finobt t)). length (snd p) = sb_block_size sb)"
    using opt_built [OF assms(1) _ b(5)] by simp
  ultimately show "map fst (all_blocks t) = al @ il" "\<forall>p \<in> set (all_blocks t). length (snd p) = sb_block_size sb"
    using D [OF _ b(1)] D [OF _ b(2)] D [OF _ b(4)] s by (auto simp: all_blocks_def)
qed

text \<open>Once the blocks are on the device, every tree is walked.\<close>

definition walked :: "'d device_ops \<Rightarrow> 'd \<Rightarrow> superblock \<Rightarrow> nat \<Rightarrow> ag_spec \<Rightarrow> nat built \<Rightarrow> btrec list \<Rightarrow> nat list \<Rightarrow> bool" where
  "walked ops dev sb agno spec b recs bs \<longleftrightarrow>
     walk_tree ops dev sb agno spec (bt_root b) (bt_levels b) = Ok (map r_data recs, bs)"

lemma trees_walked:
  assumes "wf_sb sb" and "trees_built sb ag al il t" and "on_disk ops dev sb (ag_no ag) (all_blocks t)" and "length (al @ il) \<le> 2 ^ 24"
  shows "\<exists>b1 b2 b3 b4 b5 merged rr. merged_rmap ag = Ok merged \<and> map_res rmap_encode merged = Ok rr \<and>
    walked ops dev sb (ag_no ag) BNO (t_bno t) (map bno_rec (ag_free ag)) b1 \<and>
    walked ops dev sb (ag_no ag) CNT (t_cnt t) (sort_key cnt_order (map bno_rec (ag_free ag))) b2 \<and>
    (if has_rmapbt sb then \<exists>r. t_rmap t = Some r \<and> walked ops dev sb (ag_no ag) RMAP r rr b3 else t_rmap t = None \<and> b3 = []) \<and>
    walked ops dev sb (ag_no ag) INOBT (t_inobt t) (chunk_recs sb (ag_chunks ag)) b4 \<and>
    (if has_finobt sb then \<exists>f. t_finobt t = Some f \<and> walked ops dev sb (ag_no ag) FINOBT f (chunk_recs sb (free_chunks ag)) b5
     else t_finobt t = None \<and> b5 = []) \<and>
    mset (b1 @ b2 @ b3 @ b4 @ b5) = mset (al @ il)"
proof -
  obtain A1 A2 A3 I1 I2 m rr where s: "al = A1 @ A2 @ A3" "il = I1 @ I2" "merged_rmap ag = Ok m" "map_res rmap_encode m = Ok rr"
    and b: "built sb (ag_no ag) BNO (map bno_rec (ag_free ag)) A1 (t_bno t)"
      "built sb (ag_no ag) CNT (sort_key cnt_order (map bno_rec (ag_free ag))) A2 (t_cnt t)"
      "if has_rmapbt sb then \<exists>r. t_rmap t = Some r \<and> built sb (ag_no ag) RMAP rr A3 r else t_rmap t = None \<and> A3 = []"
      "built sb (ag_no ag) INOBT (chunk_recs sb (ag_chunks ag)) I1 (t_inobt t)"
      "if has_finobt sb then \<exists>f. t_finobt t = Some f \<and> built sb (ag_no ag) FINOBT (chunk_recs sb (free_chunks ag)) I2 f
       else t_finobt t = None \<and> I2 = []"
    using assms(2) unfolding trees_built_def by blast
  have W: "\<exists>bs. walked ops dev sb (ag_no ag) spec b recs bs \<and> mset bs = mset A"
    if "spec \<in> {BNO, CNT, INOBT, FINOBT, RMAP}" "built sb (ag_no ag) spec recs A b" "on_disk ops dev sb (ag_no ag) (bt_blocks b)" "length A \<le> 2 ^ 24"
    for spec recs A b
    using builtD(3) [OF assms(1) that(1,2,4,3)] unfolding walked_def .
  have WO: "\<exists>bs. (if P then \<exists>r. b = Some r \<and> walked ops dev sb (ag_no ag) spec r recs bs else b = None \<and> bs = []) \<and> mset bs = mset A"
    if sp: "spec \<in> {BNO, CNT, INOBT, FINOBT, RMAP}" and ob: "if P then \<exists>r. b = Some r \<and> built sb (ag_no ag) spec recs A r else b = None \<and> A = []"
      and dk: "on_disk ops dev sb (ag_no ag) (opt_blocks b)" and ln: "length A \<le> 2 ^ 24" for P b spec recs A
  proof (cases P)
    case True
    then obtain r where r: "b = Some r" "built sb (ag_no ag) spec recs A r" using ob by auto
    then show ?thesis using W [OF sp r(2) _ ln] dk True by (simp add: opt_blocks_def)
  qed (use ob in simp)
  have len: "length A1 \<le> 2 ^ 24" "length A2 \<le> 2 ^ 24" "length A3 \<le> 2 ^ 24" "length I1 \<le> 2 ^ 24" "length I2 \<le> 2 ^ 24"
    using assms(4) s(1,2) by simp_all
  have disk: "on_disk ops dev sb (ag_no ag) (bt_blocks (t_bno t))" "on_disk ops dev sb (ag_no ag) (bt_blocks (t_cnt t))"
    "on_disk ops dev sb (ag_no ag) (opt_blocks (t_rmap t))" "on_disk ops dev sb (ag_no ag) (bt_blocks (t_inobt t))"
    "on_disk ops dev sb (ag_no ag) (opt_blocks (t_finobt t))" using assms(3) by (simp_all add: all_blocks_def)
  obtain b1 where b1: "walked ops dev sb (ag_no ag) BNO (t_bno t) (map bno_rec (ag_free ag)) b1" "mset b1 = mset A1"
    using W [OF _ b(1) disk(1) len(1)] by auto
  obtain b2 where b2: "walked ops dev sb (ag_no ag) CNT (t_cnt t) (sort_key cnt_order (map bno_rec (ag_free ag))) b2" "mset b2 = mset A2"
    using W [OF _ b(2) disk(2) len(2)] by auto
  obtain b4 where b4: "walked ops dev sb (ag_no ag) INOBT (t_inobt t) (chunk_recs sb (ag_chunks ag)) b4" "mset b4 = mset I1"
    using W [OF _ b(4) disk(4) len(4)] by auto
  obtain b3 where b3: "if has_rmapbt sb then \<exists>r. t_rmap t = Some r \<and> walked ops dev sb (ag_no ag) RMAP r rr b3 else t_rmap t = None \<and> b3 = []"
      "mset b3 = mset A3"
    using WO [OF _ b(3) disk(3) len(3)] by auto
  obtain b5 where b5: "if has_finobt sb then \<exists>f. t_finobt t = Some f \<and> walked ops dev sb (ag_no ag) FINOBT f (chunk_recs sb (free_chunks ag)) b5
      else t_finobt t = None \<and> b5 = []" "mset b5 = mset I2"
    using WO [OF _ b(5) disk(5) len(5)] by auto
  have "mset (b1 @ b2 @ b3 @ b4 @ b5) = mset (al @ il)" using b1(2) b2(2) b3(2) b4(2) b5(2) s(1,2) by simp
  then show ?thesis using s(3,4) b1(1) b2(1) b3(1) b4(1) b5(1) by blast
qed

text \<open>Every record is decoded as it was encoded.\<close>

lemma free_records_read:
  assumes "in_order len free" and "len < 2 ^ 32"
  shows "free_records len (map r_data (map bno_rec free)) = Ok free"
proof -
  have "(rd32 (r_data (bno_rec p)) 0, rd32 (r_data (bno_rec p)) 4) = p" if "p \<in> set free" for p
  proof -
    obtain s n where p: "p = (s, n)" by (cases p)
    then have "s < 2 ^ 32" "n < 2 ^ 32" using that assms by (force simp: in_order_def)+
    then show ?thesis by (simp add: p bno_rec_def Let_def seg_def be_widths)
  qed
  moreover have "length (r_data (bno_rec p)) = 8" for p by (cases p) (simp add: bno_rec_def Let_def)
  ultimately show ?thesis using assms(1) by (subst free_records_iff) (auto simp: o_def map_idI)
qed

lemma chunk_decode_encode:
  assumes "chunk_fields sb c" and "s < 2 ^ 32"
  shows "chunk_decode sb (r_data (chunk_encode sb s c)) = Ok (s, c)"
proof -
  let ?r = "r_data (chunk_encode sb s c)"
  have len: "length ?r = 16" by (simp add: chunk_encode_def Let_def)
  have s: "rd32 ?r 0 = s" and f: "rd64 ?r 8 = unat (ch_free c)"
    using assms(2) unsigned_less [of "ch_free c", where 'a = nat] by (simp_all add: chunk_encode_def Let_def seg_def be_widths)
  have sparse: "rd16 ?r 4 = ch_holemask c" "unat (?r ! 6) = ch_count c" if "has_sparse_inodes sb"
    using that assms(1) by (simp_all add: chunk_encode_def Let_def seg_def be_widths chunk_fields_def nth_append unat_of_nat)
  show ?thesis
    using len s f sparse assms(1) by (simp add: chunk_decode_def chunk_fields_def index_def)
qed

lemma chunk_records_read:
  assumes "om_ok cs" and "\<forall>(s, c) \<in> set cs. chunk_fields sb c \<and> s < 2 ^ 32"
  shows "chunk_records sb (map r_data (chunk_recs sb cs)) = Ok cs"
proof -
  have "fold_res (\<lambda>r chunks. and_then (chunk_decode sb r) (\<lambda>(start, c). Ok (om_insert start c chunks))) (map r_data (chunk_recs sb cs)) acc
      = Ok (acc @ cs)" if "om_ok (acc @ cs)" "\<forall>(s, c) \<in> set cs. chunk_fields sb c \<and> s < 2 ^ 32" for acc
    using that
  proof (induction cs arbitrary: acc)
    case (Cons p cs)
    obtain s c where p: "p = (s, c)" by (cases p)
    have "om_insert s c acc = acc @ [(s, c)]"
      by (rule om_insert_end) (use Cons.prems(1) p in \<open>auto simp: om_ok_sorted sorted_wrt_append\<close>)
    then show ?case using Cons.IH [of "acc @ [(s, c)]"] Cons.prems chunk_decode_encode [of sb c s]
      by (simp add: p chunk_recs_def)
  qed (simp add: chunk_recs_def)
  from this [of "[]"] show ?thesis using assms by (simp add: chunk_records_def)
qed

lemma rmap_decode_fields:
  assumes "rmap_fields r"
  shows "rmap_decode (u32_bytes (rm_start r) @ u32_bytes (rm_len r) @ u64_bytes (rm_owner r) @ u64_bytes (rm_offset r)) = Ok r"
  using assms by (simp add: rmap_decode_def rmap_fields_def rm_fits_def seg_def be_widths)

lemma rmap_records_read:
  assumes "list_all rmap_fields rs" and "map_res rmap_encode rs = Ok bs"
  shows "\<exists>m. rmap_records (map r_data bs) = Ok m \<and> rmaps_ok m \<and> set (map snd m) = set rs"
proof -
  let ?enc = "\<lambda>r. u32_bytes (rm_start r) @ u32_bytes (rm_len r) @ u64_bytes (rm_owner r) @ u64_bytes (rm_offset r)"
  have data: "map r_data bs = map ?enc rs" using rmap_encodes_ok [OF assms(1)] assms(2) by auto
  have key: "rm_key a = rm_key b \<longleftrightarrow> a = b" for a b :: rmap by (cases a, cases b) (auto simp: rm_key_def)
  have "\<exists>m. fold_res (\<lambda>r rmap. and_then (rmap_decode r) (\<lambda>m. Ok (om_insert (rm_key m) m rmap))) (map ?enc rs) acc = Ok m \<and>
      rmaps_ok m \<and> set (map snd m) = snd ` set acc \<union> set rs" if "rmaps_ok acc" "list_all rmap_fields rs" for acc
    using that
  proof (induction rs arbitrary: acc)
    case (Cons r rs)
    have ok: "rmaps_ok (om_insert (rm_key r) r acc)" using Cons.prems by (intro rmaps_ok_insert) simp_all
    have "snd ` set (om_insert (rm_key r) r acc) = insert r (snd ` set acc)"
    proof -
      have "om_ok acc" using Cons.prems(1) by (simp add: rmaps_ok_def)
      then have "set (om_insert (rm_key r) r acc) = insert (rm_key r, r) {p \<in> set acc. fst p \<noteq> rm_key r}"
        by (rule om_insert_set)
      then show ?thesis using Cons.prems(1) by (force simp: rmaps_ok_def key)
    qed
    then show ?case using Cons.IH [OF ok] Cons.prems(2) rmap_decode_fields [of r] by auto
  qed simp
  from this [of "[]"] show ?thesis
    using assms(1) by (simp add: rmap_records_def data rmaps_ok_def om_ok_def)
qed

lemma walked_small:
  assumes "wf_sb sb" and "walked ops dev sb agno spec b recs bs"
  shows "bt_root b < 2 ^ 32" "bt_levels b < 2 ^ 32"
proof -
  have "walk_tree ops dev sb agno spec (bt_root b) (bt_levels b) = Ok (map r_data recs, bs)" using assms(2) by (simp add: walked_def)
  then obtain len where len: "ag_len sb agno = Ok len" "bt_root b < len" and "bt_levels b \<le> 9"
    by (auto simp: walk_tree_def res_simps split: if_splits)
  then show "bt_levels b < 2 ^ 32" by simp
  have "len \<le> sb_ag_blocks sb" using len(1) by (auto simp: ag_len_def res_simps)
  moreover have "sb_ag_blocks sb \<le> 2 ^ 31"
    using wf_sbD(15,16) [OF assms(1)] by (meson le_trans one_le_numeral power_increasing)
  ultimately show "bt_root b < 2 ^ 32" using len(2) by simp
qed

text \<open>Loading from a device that has the trees of a group and its headers.\<close>

lemma read_agfl_cong:
  assumes "seg a 40 4 = seg b 40 4" and "seg a 44 4 = seg b 44 4" and "seg a 48 4 = seg b 48 4"
    and "512 \<le> length a" and "512 \<le> length b"
  shows "read_agfl sb a buf = read_agfl sb b buf"
proof -
  have eq: "be32 a 40 = be32 b 40" "be32 a 44 = be32 b 44" "be32 a 48 = be32 b 48" using assms by simp_all
  show ?thesis unfolding read_agfl_def eq ..
qed

lemma load_eval:
  fixes ops :: "'d device_ops"
  assumes "wf_sb sb" and "trees_built sb ag al il t" and "on_disk ops dev sb (ag_no ag) (all_blocks t)" and "length (al @ il) \<le> 2 ^ 24"
    and "ag_inv ag" and "rmaps_ok (ag_rmap ag)" and "chunks_ok ag" and "\<forall>(s, c) \<in> set (ag_chunks ag). chunk_fields sb c"
    and "headers_ok sb old" and "ag_no old = ag_no ag" and "ag_length old = ag_length ag" and "ag_len sb (ag_no ag) = Ok (ag_length ag)"
    and "ag_free old = ag_free ag" and "new_agf old t = Ok (ag_agf ag)" and "new_agi sb old t = Ok (ag_agi ag)"
    and "dev_read_at ops dev (header_at sb (ag_no ag) 1) (sect sb) = Ok (ag_agf ag)"
    and "dev_read_at ops dev (header_at sb (ag_no ag) 2) (sect sb) = Ok (ag_agi ag)"
    and "dev_read_at ops dev (header_at sb (ag_no ag) 3) (sect sb) = Ok buf" and "read_agfl sb (ag_agf old) buf = Ok (ag_agfl ag)"
  shows "\<exists>trees rmap. load ops dev sb (ag_no ag) =
      Ok (ag\<lparr>ag_old_tree_blocks := trees, ag_reserve := reserve_for trees (ag_length ag), ag_rmap := rmap, ag_dirty := False\<rparr>) \<and>
    mset trees = mset (al @ il) \<and> rmaps_ok rmap \<and> (has_rmapbt sb \<longrightarrow> rms_rel (map snd rmap) = rms_rel (map snd (ag_rmap ag)))"
proof -
  obtain b1 b2 b3 b4 b5 merged rr where m: "merged_rmap ag = Ok merged" "map_res rmap_encode merged = Ok rr"
    and w: "walked ops dev sb (ag_no ag) BNO (t_bno t) (map bno_rec (ag_free ag)) b1"
      "walked ops dev sb (ag_no ag) CNT (t_cnt t) (sort_key cnt_order (map bno_rec (ag_free ag))) b2"
      "if has_rmapbt sb then \<exists>r. t_rmap t = Some r \<and> walked ops dev sb (ag_no ag) RMAP r rr b3 else t_rmap t = None \<and> b3 = []"
      "walked ops dev sb (ag_no ag) INOBT (t_inobt t) (chunk_recs sb (ag_chunks ag)) b4"
      "if has_finobt sb then \<exists>f. t_finobt t = Some f \<and> walked ops dev sb (ag_no ag) FINOBT f (chunk_recs sb (free_chunks ag)) b5
       else t_finobt t = None \<and> b5 = []"
    and perm: "mset (b1 @ b2 @ b3 @ b4 @ b5) = mset (al @ il)"
    using trees_walked [OF assms(1-4)] by blast
  have hdr: "512 \<le> sect sb" "length (ag_agf old) = sect sb" "length (ag_agi old) = sect sb" using assms(9) by (simp_all add: headers_ok_def)
  note F = new_agf_fields [OF assms(14)] and G = new_agi_fields [OF assms(15)]
  have len: "length (ag_agf ag) = sect sb" "length (ag_agi ag) = sect sb" using F(1) G(1) hdr by simp_all
  note small = walked_small [OF assms(1)]
  have fs: "in_order (ag_length ag) (ag_free ag)" "ag_free_total ag = sum_list (map snd (ag_free ag))" "ag_length ag < 2 ^ 32"
    using assms(5) by (simp_all add: ag_inv_iff)
  have sum: "sum_list (map snd (ag_free ag)) < 2 ^ 32" by (rule free_count_le(3) [OF assms(5)])
  have agf: "be32 (ag_agf ag) 0 = Ok AGF_MAGIC" "be32 (ag_agf ag) 8 = Ok (ag_no ag)" "be32 (ag_agf ag) 12 = Ok (ag_length ag)"
    "be32 (ag_agf ag) 16 = Ok (bt_root (t_bno t))" "be32 (ag_agf ag) 28 = Ok (bt_levels (t_bno t))"
    "be32 (ag_agf ag) 20 = Ok (bt_root (t_cnt t))" "be32 (ag_agf ag) 32 = Ok (bt_levels (t_cnt t))"
    "be32 (ag_agf ag) 52 = Ok (sum_list (map snd (ag_free ag)))"
    using assms(9-11,13) hdr len F small [OF w(1)] small [OF w(2)] sum by (simp_all add: headers_ok_def be_widths)
  have agi: "be32 (ag_agi ag) 0 = Ok AGI_MAGIC" "be32 (ag_agi ag) 8 = Ok (ag_no ag)"
    "be32 (ag_agi ag) 20 = Ok (bt_root (t_inobt t))" "be32 (ag_agi ag) 24 = Ok (bt_levels (t_inobt t))"
    using assms(9,10) hdr len G small [OF w(4)] by (simp_all add: headers_ok_def be_widths)
  have rh: "read_headers ops dev sb (ag_no ag) = Ok (ag_agf ag, ag_agi ag)"
    using assms(16,17) agf(1,2) agi(1,2) F(2) G(2) hdr by (simp add: read_headers_def check_header_def)
  have fields: "list_all rmap_fields merged" using merged_fields [OF assms(6)] m(1) by auto
  obtain rm where rm: "rmap_records (map r_data rr) = Ok rm" "rmaps_ok rm" "set (map snd rm) = set merged"
    using rmap_records_read [OF fields m(2)] by blast
  define rmap where "rmap = (if has_rmapbt sb then rm else [])"
  have R: "(if has_rmapbt sb then and_then (and_then (be32 (ag_agf ag) 24) (\<lambda>r. and_then (be32 (ag_agf ag) 36)
        (\<lambda>l. walk_tree ops dev sb (ag_no ag) RMAP r l))) (\<lambda>(recs, blocks). map_ok (\<lambda>rmap. (rmap, blocks)) (rmap_records recs))
      else Ok ([], [])) = Ok (rmap, b3)"
  proof (cases "has_rmapbt sb")
    case True
    then obtain r where r: "t_rmap t = Some r" "walked ops dev sb (ag_no ag) RMAP r rr b3" using w(3) by auto
    have "be32 (ag_agf ag) 24 = Ok (bt_root r)" "be32 (ag_agf ag) 36 = Ok (bt_levels r)"
      using F(13,14) [OF _ r(1)] hdr len small [OF r(2)] by (simp_all add: be_widths)
    then show ?thesis using True r(2) rm(1) by (simp add: walked_def rmap_def)
  qed (use w(3) in \<open>simp add: rmap_def\<close>)
  have I: "(if has_finobt sb then map_ok snd (and_then (be32 (ag_agi ag) 328) (\<lambda>r. and_then (be32 (ag_agi ag) 332)
        (\<lambda>l. walk_tree ops dev sb (ag_no ag) FINOBT r l))) else Ok []) = Ok b5"
  proof (cases "has_finobt sb")
    case True
    then obtain f where f: "t_finobt t = Some f" "walked ops dev sb (ag_no ag) FINOBT f (chunk_recs sb (free_chunks ag)) b5" using w(5) by auto
    have "be32 (ag_agi ag) 328 = Ok (bt_root f)" "be32 (ag_agi ag) 332 = Ok (bt_levels f)"
      using G(7,8) [OF _ f(1)] hdr len small [OF f(2)] by (simp_all add: be_widths)
    then show ?thesis using True f(2) by (simp add: walked_def)
  qed (use w(5) in simp)
  have free: "free_records (ag_length ag) (map r_data (map bno_rec (ag_free ag))) = Ok (ag_free ag)"
    by (rule free_records_read [OF fs(1,3)])
  have chunks: "chunk_records sb (map r_data (chunk_recs sb (ag_chunks ag))) = Ok (ag_chunks ag)"
    using assms(8) chunks_okD(1,2) [OF assms(7)] by (intro chunk_records_read) fastforce+
  have agfl: "read_agfl sb (ag_agf ag) buf = Ok (ag_agfl ag)"
    using read_agfl_cong [OF F(6-8)] F(1) hdr assms(19) by simp
  let ?trees = "b1 @ b2 @ b3 @ b4 @ b5"
  have "load ops dev sb (ag_no ag) =
      Ok (ag\<lparr>ag_old_tree_blocks := ?trees, ag_reserve := reserve_for ?trees (ag_length ag), ag_rmap := rmap, ag_dirty := False\<rparr>)"
    unfolding load_def rh Let_def and_then.simps prod.case agf agi assms(12) R I assms(18) agfl
      w(1,2,4) [unfolded walked_def] free chunks if_False simp_thms
    using fs(2) by (cases ag) simp
  moreover have "rms_rel (map snd rm) = rms_rel (map snd (ag_rmap ag))"
  proof -
    have "list_all rm_fits ([] @ map snd (ag_rmap ag))" using assms(6) by (fastforce simp: rmaps_ok_def rmap_fields_def list_all_iff)
    then have "rms_rel merged = rms_rel (map snd (ag_rmap ag))"
      using merge_into_ok [of "[]" "map snd (ag_rmap ag)"] m(1) by (auto simp: merged_rmap_def settled_def rms_rel_def)
    then show ?thesis using rm(3) by (simp add: rms_rel_def)
  qed
  ultimately show ?thesis
    using perm rm(2) by (intro exI [of _ ?trees] exI [of _ rmap]) (auto simp: rmap_def rmaps_ok_def om_ok_def)
qed

text \<open>
  What the device must have before a rebuild is written: the group inside it, its free list in
  place, and no block of its pool among the four header sectors.
\<close>

definition room :: "superblock \<Rightarrow> ag \<Rightarrow> bool" where
  "room sb ag \<longleftrightarrow> ag_no ag < sb_ag_count sb \<and> ag_len sb (ag_no ag) = Ok (ag_length ag) \<and>
     4 * sect sb \<le> sb_ag_blocks sb * sb_block_size sb \<and>
     (\<forall>b \<in> tree_list ag \<union> free_blocks ag. 4 * sect sb \<le> b * sb_block_size sb)"

context block_device
begin

lemma rebuilt_load:
  assumes "wf_sb sb" and "sb_fits sb" and "ready sb ag" and "room sb ag" and "rebuilt sb ag writes ag'"
    and "length (ag_old_tree_blocks ag') \<le> 2 ^ 24"
    and "invar d" and "sb_ag_count sb * sb_ag_blocks sb * sb_block_size sb \<le> length (content d)"
    and "dev_read_at ops d (header_at sb (ag_no ag) 3) (sect sb) = Ok buf" and "read_agfl sb (ag_agf ag) buf = Ok (ag_agfl ag)"
  shows "\<exists>e trees rmap. write_all ops writes d = Ok e \<and> invar e \<and> load ops e sb (ag_no ag) =
      Ok (ag'\<lparr>ag_old_tree_blocks := trees, ag_rmap := rmap\<rparr>) \<and>
    mset trees = mset (ag_old_tree_blocks ag') \<and> rmaps_ok rmap \<and>
    (has_rmapbt sb \<longrightarrow> rms_rel (map snd rmap) = rms_rel (map snd (ag_rmap ag')))"
proof -
  obtain al il t mid where parts: "ag_old_tree_blocks ag' = al @ il" "trees_built sb ag' al il t" "kept (ag\<lparr>ag_old_tree_blocks := []\<rparr>) mid"
    "ag_free mid = ag_free ag'" "new_agf mid t = Ok (ag_agf ag')" "new_agi sb mid t = Ok (ag_agi ag')"
    and ws: "writes = tree_writes sb (ag_no ag) t @ [(header_at sb (ag_no ag) 1, ag_agf ag'), (header_at sb (ag_no ag) 2, ag_agi ag')]"
    and r: "ag_inv ag'" "rmaps_ok (ag_rmap ag')" "ag_no ag' = ag_no ag" "ag_length ag' = ag_length ag" "ag_agfl ag' = ag_agfl ag"
      "ag_chunks ag' = ag_chunks ag" "distinct (al @ il)" "tree_list ag' \<union> free_blocks ag' = tree_list ag \<union> free_blocks ag"
      "ag_reserve ag' = reserve_for (al @ il) (ag_length ag)" "\<not> ag_dirty ag'"
    using assms(5) unfolding rebuilt_def by auto
  let ?n = "ag_no ag" and ?bs = "sb_block_size sb" and ?base = "ag_no ag * sb_ag_blocks sb * sb_block_size sb"
  have rm: "?n < sb_ag_count sb" "ag_len sb ?n = Ok (ag_length ag)" "4 * sect sb \<le> sb_ag_blocks sb * ?bs"
    "\<forall>b \<in> set (al @ il). 4 * sect sb \<le> b * ?bs"
    using assms(4) r(8) parts(1) by (auto simp: room_def tree_list_def)
  have g: "group_ok ag" "chunks_ok ag" "\<forall>(s, c) \<in> set (ag_chunks ag). chunk_fields sb c" "headers_ok sb ag"
    using assms(3) by (simp_all add: ready_def)
  have mid: "headers_ok sb mid" "ag_no mid = ag_no ag" "ag_length mid = ag_length ag" "ag_agf mid = ag_agf ag" "ag_agi mid = ag_agi ag"
    using g(4) parts(3) by (simp_all add: headers_ok_def kept_def)
  have sect: "512 \<le> sect sb" "length (ag_agf ag) = sect sb" "length (ag_agi ag) = sect sb" using g(4) by (simp_all add: headers_ok_def)
  have hl: "length (ag_agf ag') = sect sb" "length (ag_agi ag') = sect sb"
    using new_agf_fields(1) [OF parts(5)] new_agi_fields(1) [OF parts(6)] sect mid(4,5) by simp_all
  note blocks = trees_built_blocks [OF assms(1) parts(2)]
  have pool: "b < ag_length ag" if "b \<in> set (al @ il)" for b
  proof -
    have "b \<in> tree_list ag \<union> free_blocks ag" using that r(8) parts(1) by (auto simp: tree_list_def)
    then show ?thesis using g(1) ag_invD(5) [of ag] by (auto simp: group_ok_def tree_list_def)
  qed
  have len: "ag_length ag \<le> sb_ag_blocks sb" using rm(2) by (auto simp: ag_len_def res_simps)
  have at: "agb_to_byte sb ?n b = ?base + b * ?bs" "?base + b * ?bs + ?bs \<le> length (content d)" if "b \<in> set (al @ il)" for b
  proof -
    have "b < sb_ag_blocks sb" using pool [OF that] len by simp
    note e = agb_to_byte_eq [OF assms(1,2) rm(1) this]
    show "agb_to_byte sb ?n b = ?base + b * ?bs" using e(1) by (simp add: add_mult_distrib)
    show "?base + b * ?bs + ?bs \<le> length (content d)" using e assms(8) by (simp add: add_mult_distrib)
  qed
  have hd: "header_at sb ?n k = ?base + k * sect sb" for k
    using agb_to_byte_eq(1) [OF assms(1,2) rm(1) wf_sbD(14) [OF assms(1)]] by (simp add: header_at_def sect_def)
  have "(?n + 1) * (sb_ag_blocks sb * ?bs) \<le> sb_ag_count sb * (sb_ag_blocks sb * ?bs)" using rm(1) by (intro mult_le_mono1) simp
  then have "?base + sb_ag_blocks sb * ?bs \<le> length (content d)" using assms(8) by (simp add: algebra_simps)
  then have hend: "?base + 4 * sect sb \<le> length (content d)" using rm(3) by simp
  let ?at = "\<lambda>(a, b). (agb_to_byte sb ?n a, b)"
  have blk: "fst p \<in> set (al @ il)" "length (snd p) = ?bs" if "p \<in> set (all_blocks t)" for p
    using that blocks by (metis image_eqI set_map, blast)
  have range: "list_all (\<lambda>w. fst w + length (snd w) \<le> length (content d)) writes"
    using blk at hd hend hl by (fastforce simp: ws tree_writes_eq list_all_iff split_beta)
  have hdr_apart: "\<forall>p \<in> set (all_blocks t). \<forall>k < 4. \<forall>x. length x = sect sb \<longrightarrow> apart (?at p) (header_at sb ?n k, x)"
  proof (intro ballI allI impI)
    fix p k and x :: "byte list" assume p: "p \<in> set (all_blocks t)" and "k < (4 :: nat)" "length x = sect sb"
    then have "(k + 1) * sect sb \<le> 4 * sect sb" by (intro mult_le_mono1) simp
    also have "4 * sect sb \<le> fst p * ?bs" using rm(4) blk(1) [OF p] by blast
    finally have "?base + k * sect sb + length x \<le> ?base + fst p * ?bs" using \<open>length x = sect sb\<close> by simp
    then show "apart (?at p) (header_at sb ?n k, x)" using at(1) [OF blk(1) [OF p]] by (simp add: apart_def hd split_beta)
  qed
  have "sorted_wrt apart writes"
  proof -
    have "sorted_wrt (\<noteq>) (map fst (all_blocks t))" using r(7) unfolding blocks(1) by (simp add: sorted_wrt_distinct)
    moreover have "apart (?at p) (?at q)" if "p \<in> set (all_blocks t)" "q \<in> set (all_blocks t)" "fst p \<noteq> fst q" for p q
      using slot_disjoint [OF that(3), of ?bs] at(1) [OF blk(1) [OF that(1)]] at(1) [OF blk(1) [OF that(2)]] blk(2) [OF that(1)] blk(2) [OF that(2)]
      by (auto simp: apart_def split_beta)
    ultimately have "sorted_wrt apart (map ?at (all_blocks t))"
      by (simp add: sorted_wrt_map) (rule sorted_wrt_mono_rel, auto)
    moreover have "apart (header_at sb ?n 1, ag_agf ag') (header_at sb ?n 2, ag_agi ag')" using hl by (simp add: apart_def hd)
    ultimately show ?thesis unfolding ws tree_writes_eq using hdr_apart hl by (auto simp: sorted_wrt_append)
  qed
  then obtain e where e: "write_all ops writes d = Ok e" "invar e" "\<forall>w \<in> set writes. dev_read_at ops e (fst w) (length (snd w)) = Ok (snd w)"
    using write_all_read [OF assms(7) range] by blast
  have "list_all (apart (header_at sb ?n 3, buf)) writes"
  proof -
    have lb: "length buf = sect sb" by (rule read_length [OF assms(7,9)])
    have "apart (header_at sb ?n 3, buf) (?at p)" if "p \<in> set (all_blocks t)" for p
    proof -
      have "apart (?at p) (header_at sb ?n 3, buf)" using hdr_apart that lb by simp
      then show ?thesis unfolding apart_def by blast
    qed
    then show ?thesis unfolding ws tree_writes_eq using hl lb by (auto simp: list_all_iff apart_def hd)
  qed
  then have agfl: "dev_read_at ops e (header_at sb ?n 3) (sect sb) = Ok buf"
    using write_all_ok [OF assms(7) range] e(1) assms(9) read_length [OF assms(7,9)] by fastforce
  have disk: "on_disk ops e sb ?n (all_blocks t)"
    unfolding on_disk_def
  proof (clarify, intro conjI)
    fix a b assume p: "(a, b) \<in> set (all_blocks t)"
    show "\<exists>len. ag_len sb ?n = Ok len \<and> a < len" using rm(2) pool blk(1) [OF p] by auto
    have "(agb_to_byte sb ?n a, b) \<in> set writes" using p by (force simp: ws tree_writes_eq)
    then show "dev_read_at ops e (agb_to_byte sb ?n a) ?bs = Ok b" using e(3) blk(2) [OF p] by fastforce
  qed
  have h: "dev_read_at ops e (header_at sb ?n 1) (sect sb) = Ok (ag_agf ag')" "dev_read_at ops e (header_at sb ?n 2) (sect sb) = Ok (ag_agi ag')"
    using e(3) hl by (auto simp: ws)
  have ch: "chunks_ok ag'" "\<forall>(s, c) \<in> set (ag_chunks ag'). chunk_fields sb c" using g(2,3) r(6) by (simp_all add: chunks_ok_def)
  have "length (al @ il) \<le> 2 ^ 24" using assms(6) parts(1) by simp
  from load_eval [OF assms(1) parts(2) _ this r(1,2) ch mid(1) _ _ _ parts(4-6), of ops e buf]
  obtain trees rmap where l: "load ops e sb ?n = Ok (ag'\<lparr>ag_old_tree_blocks := trees, ag_reserve := reserve_for trees (ag_length ag'),
      ag_rmap := rmap, ag_dirty := False\<rparr>)" "mset trees = mset (al @ il)" "rmaps_ok rmap"
    "has_rmapbt sb \<longrightarrow> rms_rel (map snd rmap) = rms_rel (map snd (ag_rmap ag'))"
    using disk h agfl rm(2) assms(10) mid r(3-5) by auto
  have "length trees = length (al @ il)" using l(2) by (metis size_mset)
  then have "reserve_for trees (ag_length ag') = ag_reserve ag'" using r(4,9) by (simp add: reserve_for_def)
  then have "load ops e sb ?n = Ok (ag'\<lparr>ag_old_tree_blocks := trees, ag_rmap := rmap\<rparr>)" using l(1) r(10) by (cases ag') simp
  then show ?thesis using e(1,2) l(2-4) parts(1) by auto
qed

end

section \<open>When a rebuild succeeds\<close>

text \<open>If the sizes do not depend on the records there can be, the first try settles, given the room.\<close>

lemma settle_first:
  assumes "wf_sb sb" and "ag_inv base" and "rmaps_ok (ag_rmap base)" and "length (ag_rmap base) \<le> 2 ^ 32"
    and "i < 2 ^ 32" and "a < 2 ^ 32" and "i + a \<le> card (free_blocks base)"
    and "\<And>n m. n \<le> card (free_blocks base) \<Longrightarrow> m \<le> length (ag_rmap base) + card (free_blocks base) \<Longrightarrow> ag_need sb n m = Ok a"
  shows "\<exists>runs ag. settle (Suc k) sb base i a base = (Ok runs, ag)"
proof -
  have "base\<lparr>ag_free := ag_free base, ag_free_total := ag_free_total base, ag_rmap := ag_rmap base\<rparr> = base" by simp
  moreover obtain ag_run ino_run need merged ag where t: "try_carve sb i a base = (Ok (ag_run, ino_run, need), ag)"
    "carved_two ag_run ino_run a i base ag" "merged_rmap ag = Ok merged" "ag_need sb (length (ag_free ag)) (length merged) = Ok need"
    "length merged \<le> length (ag_rmap base) + i + a"
    using try_carve_ok [OF assms(1-4,6,5)] assms(7) by auto
  moreover have "need = a"
  proof -
    have inv: "ag_inv ag" and sub: "free_blocks ag \<subseteq> free_blocks base" using t(2) by (auto simp: carved_two_def)
    have "length (ag_free ag) \<le> card (free_blocks ag)" using length_in_order [of "ag_length ag" "ag_free ag"] inv ag_invD(3) [OF inv]
      by (simp add: ag_inv_iff)
    also have "\<dots> \<le> card (free_blocks base)" using ag_invD(4) [OF assms(2)] sub by (rule card_mono)
    finally have "ag_need sb (length (ag_free ag)) (length merged) = Ok a" using assms(7,8) t(5) by simp
    then show ?thesis using t(4) by simp
  qed
  ultimately show ?thesis by (simp add: seq_eq ret_def)
qed

lemma rebuild_settles:
  assumes "wf_sb sb" and "ready sb ag" and "ino_need sb ag = Ok i" and "i + a \<le> card (tree_list ag \<union> free_blocks ag)" and "2 \<le> a"
    and "\<forall>n m. n \<le> card (tree_list ag \<union> free_blocks ag) \<longrightarrow>
      m \<le> length (ag_rmap ag) + length (ag_agfl ag) + card (tree_list ag \<union> free_blocks ag) \<longrightarrow> ag_need sb n m = Ok a"
  shows "\<exists>writes ag'. rebuild sb ag = (Ok writes, ag') \<and> rebuilt sb ag writes ag'"
proof -
  have "group_ok ag" using assms(2) by (simp add: ready_def)
  from rebuild_start [OF assms(1) this] obtain base j b m where base: "ag_inv base" "rmaps_ok (ag_rmap base)" "length (ag_rmap base) \<le> 2 ^ 32"
    and len: "length (ag_rmap base) \<le> length (ag_rmap ag) + length (ag_agfl ag)"
    and kept: "kept (ag\<lparr>ag_old_tree_blocks := []\<rparr>) base" and pool: "free_blocks base = tree_list ag \<union> free_blocks ag"
    and j: "ino_need sb base = Ok j" "j < 2 ^ 32" and m: "m \<le> length (ag_rmap base) + 2" "ag_need sb (length (ag_free base)) m = Ok b"
    and b: "b < 2 ^ 32" and eq: "rebuild sb ag = seq (settle 32 sb base j b) (lay_out sb) base"
    by metis
  have "ag_chunks base = ag_chunks ag" using kept by (simp add: kept_def)
  then have ji: "j = i" using j(1) assms(3) ino_need_cong [of base ag] by simp
  have "length (ag_free base) \<le> card (free_blocks base)"
    using length_in_order [of "ag_length base" "ag_free base"] base(1) ag_invD(3) [OF base(1)] by (simp add: ag_inv_iff)
  then have "ag_need sb (length (ag_free base)) m = Ok a" using assms(4-6) m(1) len by (simp add: pool)
  then have ba: "b = a" using m(2) by simp
  have "\<exists>runs mid. settle (Suc 31) sb base i a base = (Ok runs, mid)"
    by (rule settle_first [OF assms(1) base]) (use j(2) b ji ba assms(4,6) len in \<open>simp_all add: pool\<close>)
  moreover have "Suc 31 = (32 :: nat)" by simp
  ultimately obtain ag_run ino_run mid where s: "settle 32 sb base i a base = (Ok (ag_run, ino_run), mid)" by (metis surj_pair)
  have "kept base base" by (simp add: kept_def)
  from settle_ok [OF assms(1) base j(2) b base(1) this, of 32] have "settled_sizes sb ag_run ino_run i base mid"
    using s ji ba by auto
  then show ?thesis using lay_out_ok [OF assms(1,2) kept base(1) pool] j(1) s by (auto simp: eq ji ba seq_eq)
qed

lemma tree_one:
  assumes "n \<le> leaf_max spec bs" and "0 < leaf_max spec bs"
  shows "tree_blocks spec n bs = Some 1"
proof -
  have "div_ceil n (leaf_max spec bs) \<le> 1" using assms by (intro div_ceil_le) simp_all
  then have "max (div_ceil n (leaf_max spec bs)) 1 = 1" by simp
  then show ?thesis using assms(2) by (simp add: tree_blocks_def blocks_for_def level_sizes_def level_loop_unfold)
qed

section \<open>Properties of a rebuild\<close>

text \<open>A small group with two extents free, one chunk of inodes, and two blocks of trees.\<close>

definition demo_header :: "nat \<Rightarrow> byte list" where
  "demo_header magic = u32_bytes magic @ replicate 4 0 @ u32_bytes 1 @ u32_bytes 16384 @ replicate 496 0"

definition demo_group :: ag where
  "demo_group = \<lparr>ag_no = 1, ag_length = 16384, ag_agf = demo_header AGF_MAGIC, ag_agi = demo_header AGI_MAGIC,
     ag_free = [(10, 20), (40, 5)], ag_free_total = 25, ag_reserve = 2, ag_agfl = [], ag_old_tree_blocks = [50, 51],
     ag_chunks = [(64, \<lparr>ch_holemask = 0, ch_count = 64, ch_free = 6\<rparr>)], ag_rmap = [], ag_dirty = True\<rparr>"

lemma demo_group_ready: "ready demo_sb demo_group" "room demo_sb demo_group" "tree_list demo_group \<union> free_blocks demo_group = {10..<30} \<union> {40..<45} \<union> {50, 51}"
proof -
  have fb: "free_blocks demo_group = {10..<30} \<union> {40..<45}" by (simp add: demo_group_def free_blocks_def)
  show pool: "tree_list demo_group \<union> free_blocks demo_group = {10..<30} \<union> {40..<45} \<union> {50, 51}"
    by (auto simp: fb tree_list_def) (simp_all add: demo_group_def)
  have "ag_inv demo_group" by (simp add: ag_inv_iff demo_group_def in_order_def)
  moreover have "set (ag_old_tree_blocks demo_group) \<inter> free_blocks demo_group = {}" unfolding fb by (simp add: demo_group_def)
  ultimately have "group_ok demo_group" by (simp add: group_ok_def) (simp add: demo_group_def rmaps_ok_def om_ok_def)
  moreover have "chunks_ok demo_group" by (simp add: chunks_ok_def demo_group_def om_ok_def holes_0)
  moreover have "headers_ok demo_sb demo_group"
    by (simp add: headers_ok_def demo_group_def demo_header_def sect_def seg_def be_widths)
  ultimately show "ready demo_sb demo_group" by (simp add: ready_def) (simp add: demo_group_def chunk_fields_def)
  show "room demo_sb demo_group"
    unfolding room_def pool by (simp add: demo_group_def ag_len_def sub_w_def sect_def) (auto simp: sect_def)
qed

lemma demo_sizes:
  "ino_need demo_sb demo_group = Ok 2" "2 + 3 \<le> card (tree_list demo_group \<union> free_blocks demo_group)" "(2 :: nat) \<le> 3"
  "\<forall>n m. n \<le> card (tree_list demo_group \<union> free_blocks demo_group) \<longrightarrow>
     m \<le> length (ag_rmap demo_group) + length (ag_agfl demo_group) + card (tree_list demo_group \<union> free_blocks demo_group) \<longrightarrow>
     ag_need demo_sb n m = Ok 3"
proof -
  let ?pool = "tree_list demo_group \<union> free_blocks demo_group"
  have card: "card ?pool = 27"
  proof -
    have "?pool = {10..<30} \<union> {40..<45} \<union> {50..<52}" unfolding demo_group_ready(3) by auto
    moreover have "card ({10..<30 :: nat} \<union> {40..<45}) = 25" by (subst card_Un_disjoint) auto
    moreover have "card ({10..<30 :: nat} \<union> {40..<45} \<union> {50..<52}) = card ({10..<30 :: nat} \<union> {40..<45}) + 2"
      by (subst card_Un_disjoint) auto
    ultimately show ?thesis by simp
  qed
  have leaf: "leaf_max BNO 4096 = 505" "leaf_max CNT 4096 = 505" "leaf_max RMAP 4096 = 168" "leaf_max INOBT 4096 = 252" "leaf_max FINOBT 4096 = 252"
    by (simp_all add: leaf_max_def spec_defs)
  have feat: "has_rmapbt demo_sb" "has_finobt demo_sb" by (simp_all add: has_rmapbt_def has_finobt_def)
  show "ino_need demo_sb demo_group = Ok 2"
    using feat by (simp add: ino_need_def demo_group_def tree_one leaf returns_def)
  show "2 + 3 \<le> card ?pool" "(2 :: nat) \<le> 3" unfolding card by simp_all
  have "ag_need demo_sb n m = Ok 3" if "n \<le> 27" "m \<le> 27" for n m
    using that feat by (simp add: ag_need_def tree_one leaf returns_def)
  then show "\<forall>n m. n \<le> card ?pool \<longrightarrow> m \<le> length (ag_rmap demo_group) + length (ag_agfl demo_group) + card ?pool \<longrightarrow>
      ag_need demo_sb n m = Ok 3"
    unfolding card by (simp add: demo_group_def)
qed

lemma demo_group_rebuilds: "\<exists>writes ag'. rebuild demo_sb demo_group = (Ok writes, ag') \<and> rebuilt demo_sb demo_group writes ag'"
  by (rule rebuild_settles [OF demo_sb_wf(1) demo_group_ready(1) demo_sizes])

text \<open>A device with the free list of the group on it.\<close>

lemma demo_free_list:
  "\<exists>d buf. mem_inv d \<and> length (mem_data d) = 4 * 16384 * 4096 \<and>
     dev_read_at mem_ops d (header_at demo_sb 1 3) 512 = Ok buf \<and> read_agfl demo_sb (ag_agf demo_group) buf = Ok []"
proof -
  let ?z = "u32_bytes AGFL_MAGIC @ replicate 508 0"
  obtain c where c: "stamp ?z AGFL_CRC = Ok c" using crc.seal_total [of AGFL_CRC ?z] by auto
  have len: "length c = 512" using crc.seal_length [OF c] by simp
  have magic: "rd32 c 0 = AGFL_MAGIC" using crc.seal_seg [OF c, of 0 4] by (simp add: seg_def be_widths)
  let ?i = "header_at demo_sb 1 3"
  have i: "?i + 512 \<le> length (mem_data demo_device)"
    using agb_to_byte_eq(1) [OF demo_sb_wf, of 1 0] by (simp add: header_at_def demo_device_inv)
  then obtain d where d: "dev_write_at mem_ops demo_device ?i c = Ok d" "mem_inv d" "mem_data d = patch (mem_data demo_device) ?i c"
    using mem.write_at [OF demo_device_inv(1), of ?i c] len by auto
  have "dev_read_at mem_ops d ?i 512 = Ok c" using mem.read_after_write [OF demo_device_inv(1) d(1)] len by simp
  moreover have "read_agfl demo_sb (ag_agf demo_group) c = Ok []"
    using magic len crc.seal_check [OF c] by (simp add: read_agfl_def demo_group_def demo_header_def sect_def sub_w_def seg_def)
  moreover have "length (mem_data d) = 4 * 16384 * 4096" using d(3) i len by (simp add: demo_device_inv)
  ultimately show ?thesis using d(2) by blast
qed

lemma demo_group_no: "ag_no demo_group = 1" "sect demo_sb = 512" "ag_agfl demo_group = []"
  by (simp_all add: demo_group_def sect_def)

lemma demo_group_loads:
  "\<exists>writes ag' d e ag. rebuild demo_sb demo_group = (Ok writes, ag') \<and> write_all mem_ops writes d = Ok e \<and> mem_inv d \<and>
     load mem_ops e demo_sb 1 = Ok ag \<and> length (ag_old_tree_blocks ag') \<le> 2 ^ 24"
proof -
  obtain writes ag' where r: "rebuild demo_sb demo_group = (Ok writes, ag')" "rebuilt demo_sb demo_group writes ag'"
    using demo_group_rebuilds by blast
  have "length (ag_old_tree_blocks ag') \<le> 2 ^ 24"
  proof -
    have fin: "finite (tree_list demo_group \<union> free_blocks demo_group)" unfolding demo_group_ready(3) by simp
    have "length (ag_old_tree_blocks ag') = card (tree_list ag')" using r(2) by (simp add: rebuilt_def tree_list_def distinct_card)
    also have "\<dots> \<le> card (tree_list demo_group \<union> free_blocks demo_group)"
      using r(2) by (intro card_mono [OF fin]) (auto simp: rebuilt_def)
    also have "\<dots> \<le> card {0..<52 :: nat}" unfolding demo_group_ready(3) by (rule card_mono) auto
    finally show ?thesis by simp
  qed
  moreover obtain d buf where "mem_inv d" "length (mem_data d) = 4 * 16384 * 4096"
    "dev_read_at mem_ops d (header_at demo_sb 1 3) 512 = Ok buf" "read_agfl demo_sb (ag_agf demo_group) buf = Ok []"
    using demo_free_list by blast
  ultimately show ?thesis
    using mem.rebuilt_load [OF demo_sb_wf demo_group_ready(1,2) r(2), of d buf] r(1) by (auto simp: demo_group_no)
qed

text \<open>
  C31. A group loaded from a device is well-formed: whatever is on the device, when \<open>load\<close>
  returns a group its free extents are in order, non-empty, disjoint and inside the group, the
  free total is their sum, the length is the one the superblock gives, and the blocks held in
  reserve are at most an eighth of the group.
\<close>

theorem load_well_formed:
  assumes "load ops dev sb agno = Ok ag"
  shows "ag_inv ag \<and> ag_no ag = agno \<and> ag_len sb agno = Ok (ag_length ag) \<and> \<not> ag_dirty ag \<and> ag_reserve ag \<le> ag_length ag div 8"
  using load_inv [OF assms] by blast

theorem load_well_formed_witness: "\<exists>d ag. load mem_ops d demo_sb 1 = Ok ag \<and> ag_inv ag \<and> ag_no ag = 1"
  using demo_group_loads load_well_formed [of mem_ops _ demo_sb 1] by blast

text \<open>
  C3. A rebuild accounts for every block: from any well-formed group it does not panic, and
  when it succeeds the blocks of the new trees are distinct, none of them is free, and the tree
  blocks and the free blocks together are exactly those there were before; the inodes, the free
  list and the number of the group do not change. An error is a lack of space or of sizes that
  settle.
\<close>

theorem rebuild_accounts_for_blocks:
  assumes "wf_sb sb" and "ready sb ag"
  shows "case rebuild sb ag of
      (Ok writes, ag') \<Rightarrow> ag_inv ag' \<and> distinct (ag_old_tree_blocks ag') \<and> tree_list ag' \<inter> free_blocks ag' = {} \<and>
        tree_list ag' \<union> free_blocks ag' = tree_list ag \<union> free_blocks ag \<and>
        ag_no ag' = ag_no ag \<and> ag_chunks ag' = ag_chunks ag \<and> ag_agfl ag' = ag_agfl ag \<and> \<not> ag_dirty ag'
    | (Err e, ag') \<Rightarrow> e \<in> {NoSpace, Corrupt} \<and> ag_inv ag' \<and> ag_chunks ag' = ag_chunks ag
    | (Panic, ag') \<Rightarrow> False"
  using rebuild_ok [OF assms] by (auto simp: rebuilt_def kept_def)

theorem rebuild_accounts_for_blocks_witness:
  "\<exists>writes ag'. rebuild demo_sb demo_group = (Ok writes, ag') \<and> tree_list ag' \<inter> free_blocks ag' = {} \<and> 
     tree_list ag' \<union> free_blocks ag' = {10..<30} \<union> {40..<45} \<union> {50, 51}"
proof -
  obtain writes ag' where "rebuild demo_sb demo_group = (Ok writes, ag')" using demo_group_rebuilds by blast
  then show ?thesis
    using rebuild_accounts_for_blocks [OF demo_sb_wf(1) demo_group_ready(1)] unfolding demo_group_ready(3) by (intro exI [of _ writes] exI [of _ ag']) simp
qed

text \<open>
  C2. What a rebuild writes is what \<open>load\<close> reads: for a well-formed group whose blocks lie past
  the header sectors, with its free list on the device, the writes of a successful rebuild all
  go through, and loading the group again gives the very state the rebuild left, except that the
  tree blocks may come in another order and the reverse mappings are merged, giving the same
  owners to the same blocks.
\<close>

theorem rebuild_then_load:
  assumes "wf_sb sb" and "sb_fits sb" and "ready sb ag" and "room sb ag" and "rebuild sb ag = (Ok writes, ag')"
    and "length (ag_old_tree_blocks ag') \<le> 2 ^ 24"
    and "mem_inv d" and "sb_ag_count sb * sb_ag_blocks sb * sb_block_size sb \<le> length (mem_data d)"
    and "dev_read_at mem_ops d (header_at sb (ag_no ag) 3) (sect sb) = Ok buf" and "read_agfl sb (ag_agf ag) buf = Ok (ag_agfl ag)"
  shows "\<exists>e trees rmap. write_all mem_ops writes d = Ok e \<and>
    load mem_ops e sb (ag_no ag) = Ok (ag'\<lparr>ag_old_tree_blocks := trees, ag_rmap := rmap\<rparr>) \<and>
    mset trees = mset (ag_old_tree_blocks ag') \<and>
    (has_rmapbt sb \<longrightarrow> rms_rel (map snd rmap) = rms_rel (map snd (ag_rmap ag')))"
proof -
  have "rebuilt sb ag writes ag'" using rebuild_ok [OF assms(1,3)] assms(5) by auto
  from mem.rebuilt_load [OF assms(1-4) this assms(6-10)] show ?thesis by blast
qed

theorem rebuild_then_load_witness:
  "\<exists>writes ag' d e trees rmap. rebuild demo_sb demo_group = (Ok writes, ag') \<and> write_all mem_ops writes d = Ok e \<and>
     load mem_ops e demo_sb 1 = Ok (ag'\<lparr>ag_old_tree_blocks := trees, ag_rmap := rmap\<rparr>)"
proof -
  obtain writes ag' where r: "rebuild demo_sb demo_group = (Ok writes, ag')" "length (ag_old_tree_blocks ag') \<le> 2 ^ 24"
    using demo_group_loads by blast
  moreover obtain d buf where "mem_inv d" "length (mem_data d) = 4 * 16384 * 4096"
    "dev_read_at mem_ops d (header_at demo_sb 1 3) 512 = Ok buf" "read_agfl demo_sb (ag_agf demo_group) buf = Ok []"
    using demo_free_list by blast
  ultimately show ?thesis
    using rebuild_then_load [OF demo_sb_wf demo_group_ready(1,2) r(1,2), of d buf] by (auto simp: demo_group_no)
qed

text \<open>
  C32. A rebuild gets done: when the sizes of the free-space and mapping trees are the same for
  every number of records there can be, and the free blocks and the blocks of the old trees are
  enough for the trees, the rebuild succeeds.
\<close>

theorem rebuild_succeeds:
  assumes "wf_sb sb" and "ready sb ag" and "ino_need sb ag = Ok i" and "i + a \<le> card (tree_list ag \<union> free_blocks ag)" and "2 \<le> a"
    and "\<forall>n m. n \<le> card (tree_list ag \<union> free_blocks ag) \<longrightarrow>
      m \<le> length (ag_rmap ag) + length (ag_agfl ag) + card (tree_list ag \<union> free_blocks ag) \<longrightarrow> ag_need sb n m = Ok a"
  shows "\<exists>writes ag'. rebuild sb ag = (Ok writes, ag')"
  using rebuild_settles [OF assms] by blast

theorem rebuild_succeeds_witness: "\<exists>writes ag'. rebuild demo_sb demo_group = (Ok writes, ag')"
  by (rule rebuild_succeeds [OF demo_sb_wf(1) demo_group_ready(1) demo_sizes])

end
