(* ===== verification/Dir.thy ===== *)
theory Dir
  imports Inode
begin

text \<open>
  Reading directories (\<open>src/src/dir.rs\<close>): the types of names, the short form kept in the
  inode, and the data blocks of the larger forms. The names of a data block are appended to
  the list of those before it. That parsing never panics holds for the short form; for a data
  block it fails on one input, a name in the last eight bytes of the block
  (\<open>data_block_panics\<close>).
\<close>

unbundle bit_operations_syntax

section \<open>The code\<close>

abbreviation (input) "LEAF_OFFSET \<equiv> 2 ^ 35 :: nat"
abbreviation (input) "XD2B \<equiv> 0x58443242 :: nat"
abbreviation (input) "XD2D \<equiv> 0x58443244 :: nat"
abbreviation (input) "XDB3 \<equiv> 0x58444233 :: nat"
abbreviation (input) "XDD3 \<equiv> 0x58444433 :: nat"

datatype file_type = Unknown | File | Directory | CharDevice | BlockDevice | Fifo | Socket | Symlink

definition from_ftype :: "byte \<Rightarrow> file_type" where
  "from_ftype v =
     (if v = 1 then File else if v = 2 then Directory else if v = 3 then CharDevice
      else if v = 4 then BlockDevice else if v = 5 then Fifo else if v = 6 then Socket
      else if v = 7 then Symlink else Unknown)"

primrec ft_code :: "file_type \<Rightarrow> byte" where
  "ft_code Unknown = 0"
| "ft_code File = 1"
| "ft_code Directory = 2"
| "ft_code CharDevice = 3"
| "ft_code BlockDevice = 4"
| "ft_code Fifo = 5"
| "ft_code Socket = 6"
| "ft_code Symlink = 7"

definition from_mode :: "nat \<Rightarrow> file_type" where
  "from_mode mode =
     (let t = mode AND IFMT in
      if t = IFREG then File else if t = IFDIR then Directory else if t = IFCHR then CharDevice
      else if t = IFBLK then BlockDevice else if t = IFIFO then Fifo else if t = IFSOCK then Socket
      else if t = IFLNK then Symlink else Unknown)"

record raw_entry =
  re_name :: "byte list"
  re_ino :: nat
  re_ftype :: file_type

subsection \<open>The short form\<close>

definition ino_at :: "nat \<Rightarrow> byte list \<Rightarrow> nat \<Rightarrow> nat res" where
  "ino_at isz buf off =
     (if off + isz > length buf then Err Corrupt
      else if isz = 8 then be64 buf off else be32 buf off)"

text \<open>\<open>n\<close> entries from position \<open>p\<close>.\<close>

primrec short_entries :: "bool \<Rightarrow> nat \<Rightarrow> byte list \<Rightarrow> nat \<Rightarrow> nat \<Rightarrow> raw_entry list \<Rightarrow> raw_entry list res" where
  "short_entries ftype isz buf 0 p out = Ok out"
| "short_entries ftype isz buf (Suc n) p out =
     (if p + 3 > length buf then Err Corrupt
      else and_then (index buf p) (\<lambda>nl.
      let namelen = unat nl; name_at = p + 3; after = name_at + namelen in
      if namelen = 0 \<or> after + of_bool ftype > length buf then Err Corrupt
      else and_then (if ftype then map_ok from_ftype (index buf after) else Ok Unknown) (\<lambda>t.
      and_then (ino_at isz buf (after + of_bool ftype)) (\<lambda>ino.
      and_then (get buf name_at namelen) (\<lambda>name.
      short_entries ftype isz buf n (after + of_bool ftype + isz)
        (out @ [\<lparr>re_name = name, re_ino = ino, re_ftype = t\<rparr>]))))))"

definition parse_shortform :: "superblock \<Rightarrow> byte list \<Rightarrow> nat \<Rightarrow> (nat \<times> raw_entry list) res" where
  "parse_shortform sb fork sz =
     (if sz < 6 \<or> sz > length fork then Err Corrupt
      else and_then (get fork 0 sz) (\<lambda>buf.
      and_then (index buf 0) (\<lambda>n.
      and_then (index buf 1) (\<lambda>i8count.
      let isz = (if i8count > 0 then 8 else 4) in
      and_then (ino_at isz buf 2) (\<lambda>parent.
      and_then (short_entries (has_ftype sb) isz buf (unat n) (2 + isz) []) (\<lambda>out.
      Ok (parent, out)))))))"

subsection \<open>Data blocks\<close>

definition data_header :: "superblock \<Rightarrow> nat \<Rightarrow> (nat \<times> bool) res" where
  "data_header sb magic =
     (if magic = XD2B \<and> \<not> is_v5 sb then Ok (16, True)
      else if magic = XD2D \<and> \<not> is_v5 sb then Ok (16, False)
      else if magic = XDB3 \<and> is_v5 sb then Ok (64, True)
      else if magic = XDD3 \<and> is_v5 sb then Ok (64, False)
      else Err Corrupt)"

text \<open>Where the names of a block stop.\<close>

definition data_end :: "byte list \<Rightarrow> nat \<Rightarrow> bool \<Rightarrow> nat res" where
  "data_end buf hdr block_form =
     (if block_form then
        and_then (sub_w (length buf) 8) (\<lambda>at.
        and_then (be32 buf at) (\<lambda>n.
        if 8 + n * 8 \<le> length buf \<and> hdr \<le> length buf - (8 + n * 8)
        then Ok (length buf - (8 + n * 8)) else Err Corrupt))
      else Ok (length buf))"

definition entry_len :: "bool \<Rightarrow> nat \<Rightarrow> nat" where
  "entry_len ftype namelen = and_not (8 + 1 + namelen + of_bool ftype + 2 + 7) 7"

lemma entry_len_eq: "namelen < 256 \<Longrightarrow> entry_len ftype namelen = (18 + namelen + of_bool ftype) div 8 * 8"
  unfolding entry_len_def by (subst and_not_7) (simp_all add: add_ac)

lemma entry_len_bounds:
  assumes "namelen < 256"
  shows "16 \<le> entry_len ftype namelen" "namelen + of_bool ftype + 11 \<le> entry_len ftype namelen"
    "entry_len ftype namelen \<le> namelen + of_bool ftype + 18" "entry_len ftype namelen mod 8 = 0"
proof -
  let ?n = "18 + namelen + of_bool ftype"
  have "?n div 8 * 8 + ?n mod 8 = ?n" "?n mod 8 < 8" "2 \<le> ?n div 8" by simp_all
  then show "16 \<le> entry_len ftype namelen" "namelen + of_bool ftype + 11 \<le> entry_len ftype namelen"
    "entry_len ftype namelen \<le> namelen + of_bool ftype + 18" "entry_len ftype namelen mod 8 = 0"
    unfolding entry_len_eq [OF assms] by (linarith, linarith, linarith, simp)
qed

function data_entries :: "bool \<Rightarrow> byte list \<Rightarrow> nat \<Rightarrow> nat \<Rightarrow> raw_entry list \<Rightarrow> raw_entry list res" where
  "data_entries ftype buf e p out =
     (if p < e then
        if p + 8 > e then Err Corrupt
        else and_then (be16 buf p) (\<lambda>tag.
        if tag = 0xffff then
          and_then (be16 buf (p + 2)) (\<lambda>len.
          if len < 8 \<or> len mod 8 \<noteq> 0 then Err Corrupt
          else data_entries ftype buf e (p + len) out)
        else
          and_then (be64 buf p) (\<lambda>ino.
          and_then (index buf (p + 8)) (\<lambda>nl.
          let namelen = unat nl; len = entry_len ftype namelen in
          if namelen = 0 \<or> p + len > e then Err Corrupt
          else and_then (get buf (p + 9) namelen) (\<lambda>name.
          and_then (if ftype then map_ok from_ftype (index buf (p + 9 + namelen)) else Ok Unknown) (\<lambda>t.
          data_entries ftype buf e (p + len) (out @ [\<lparr>re_name = name, re_ino = ino, re_ftype = t\<rparr>]))))))
      else Ok out)"
  by pat_completeness auto
termination
proof (relation "measure (\<lambda>(ftype, buf, e, p, out). e - p)", goal_cases)
  case (3 ftype buf e p out tag ino nl namelen len name t)
  then show ?case using entry_len_bounds(1) [of namelen ftype] by simp linarith
qed auto

declare data_entries.simps [simp del]

definition parse_data_block ::
  "superblock \<Rightarrow> byte list \<Rightarrow> nat \<Rightarrow> raw_entry list \<Rightarrow> raw_entry list res" where
  "parse_data_block sb buf dir_ino out =
     and_then (be32 buf 0) (\<lambda>magic.
     and_then (data_header sb magic) (\<lambda>(hdr, block_form).
     and_then (if is_v5 sb then
                 if \<not> verify buf 4 then Err Corrupt
                 else and_then (be64 buf 40) (\<lambda>owner. if owner \<noteq> dir_ino then Err Corrupt else Ok ())
               else Ok ()) (\<lambda>_.
     and_then (data_end buf hdr block_form) (\<lambda>e.
     data_entries (has_ftype sb) buf e hdr out))))"

section \<open>Lemmas\<close>

lemma from_ftype_code [simp]: "from_ftype (ft_code t) = t"
  by (cases t) (simp_all add: from_ftype_def)

lemma ft_code_from_ftype: "v \<le> 7 \<Longrightarrow> ft_code (from_ftype v) = v"
proof -
  assume "v \<le> 7"
  then have "unat v \<le> 7" by (simp add: word_le_nat_alt)
  moreover have v: "v = word_of_nat (unat v)" by simp
  ultimately have "v \<in> word_of_nat ` {0, 1, 2, 3, 4, 5, 6, 7}" using image_eqI [of v word_of_nat "unat v" "{0, 1, 2, 3, 4, 5, 6, 7}"] by force
  then show ?thesis by (auto simp: from_ftype_def)
qed

lemma ino_at_not_Panic: "isz = 8 \<or> isz = 4 \<Longrightarrow> ino_at isz buf off \<noteq> Panic"
  by (auto simp: ino_at_def)

text \<open>What the short form returns: as many entries as it says, none with an empty name.\<close>

lemma short_entries_ok:
  assumes "isz = 8 \<or> isz = 4"
  shows "short_entries ftype isz buf n p out \<noteq> Panic \<and>
    (\<forall>res. short_entries ftype isz buf n p out = Ok res \<longrightarrow>
       (\<exists>new. res = out @ new \<and> length new = n \<and> (\<forall>e \<in> set new. re_name e \<noteq> [] \<and> length (re_name e) < 256)))"
proof (induction n arbitrary: p out)
  case (Suc n)
  show ?case
  proof (cases "p + 3 > length buf")
    case True
    then show ?thesis by simp
  next
    case False
    let ?nl = "unat (buf ! p)" and ?after = "p + 3 + unat (buf ! p)"
    show ?thesis
    proof (cases "?nl = 0 \<or> ?after + of_bool ftype > length buf")
      case True
      with False show ?thesis by auto
    next
      case run: False
      let ?t = "if ftype then from_ftype (buf ! ?after) else Unknown"
      let ?next = "\<lambda>ino. short_entries ftype isz buf n (?after + of_bool ftype + isz)
          (out @ [\<lparr>re_name = seg buf (p + 3) ?nl, re_ino = ino, re_ftype = ?t\<rparr>])"
      have step: "short_entries ftype isz buf (Suc n) p out = and_then (ino_at isz buf (?after + of_bool ftype)) ?next"
        using False run by (auto simp: Let_def)
      show ?thesis
      proof (cases "ino_at isz buf (?after + of_bool ftype)")
        case (Ok ino)
        have name: "seg buf (p + 3) ?nl \<noteq> []" "length (seg buf (p + 3) ?nl) < 256"
          using run by (auto simp flip: length_0_conv)
        show ?thesis
          using Suc.IH [of "?after + of_bool ftype + isz"
              "out @ [\<lparr>re_name = seg buf (p + 3) ?nl, re_ino = ino, re_ftype = ?t\<rparr>]"] name
          unfolding step Ok by (auto simp del: length_seg)
      next
        case Panic
        then show ?thesis using ino_at_not_Panic [OF assms] by blast
      qed (simp add: step del: short_entries.simps)
    qed
  qed
qed simp

text \<open>The steps of the walk over a data block, one for each kind of record.\<close>

definition entry_at :: "bool \<Rightarrow> byte list \<Rightarrow> nat \<Rightarrow> raw_entry" where
  "entry_at ftype buf p =
     (let namelen = unat (buf ! (p + 8)) in
      \<lparr>re_name = seg buf (p + 9) namelen, re_ino = rd64 buf p,
       re_ftype = (if ftype then from_ftype (buf ! (p + 9 + namelen)) else Unknown)\<rparr>)"

lemma data_entries_done: "e \<le> p \<Longrightarrow> data_entries ftype buf e p out = Ok out"
  by (subst data_entries.simps) simp

lemma data_entries_short: "p < e \<Longrightarrow> e < p + 8 \<Longrightarrow> data_entries ftype buf e p out = Err Corrupt"
  by (subst data_entries.simps) simp

lemma data_entries_free:
  assumes "p + 8 \<le> e" and "e \<le> length buf" and "rd16 buf p = 0xffff"
  shows "data_entries ftype buf e p out =
    (if rd16 buf (p + 2) < 8 \<or> rd16 buf (p + 2) mod 8 \<noteq> 0 then Err Corrupt
     else data_entries ftype buf e (p + rd16 buf (p + 2)) out)"
  using assms by (subst data_entries.simps) simp

lemma data_entries_name:
  assumes "p + 8 \<le> e" and "e \<le> length buf" and "p + 8 < length buf" and "rd16 buf p \<noteq> 0xffff"
  shows "data_entries ftype buf e p out =
    (if buf ! (p + 8) = 0 \<or> p + entry_len ftype (unat (buf ! (p + 8))) > e then Err Corrupt
     else data_entries ftype buf e (p + entry_len ftype (unat (buf ! (p + 8)))) (out @ [entry_at ftype buf p]))"
proof -
  let ?nl = "unat (buf ! (p + 8))"
  have "?nl + of_bool ftype + 11 \<le> entry_len ftype ?nl" by (rule entry_len_bounds(2)) simp
  then show ?thesis
    using assms by (subst data_entries.simps) (auto simp: entry_at_def Let_def unat_eq_0)
qed

text \<open>The only index that can be out of range is the length byte of a name in the last eight bytes.\<close>

lemma data_entries_Panic:
  assumes "data_entries ftype buf e p out = Panic" and "e \<le> length buf"
  shows "e = length buf"
  using assms(1)
proof (induction "e - p" arbitrary: p out rule: less_induct)
  case less
  show ?case
  proof (rule ccontr)
    assume "e \<noteq> length buf"
    then have e: "e < length buf" using assms(2) by simp
    consider "e \<le> p" | "p < e" "e < p + 8" | "p + 8 \<le> e" by linarith
    then show False
    proof cases
      case 3
      let ?nl = "unat (buf ! (p + 8))"
      have len: "16 \<le> entry_len ftype ?nl" by (rule entry_len_bounds(1)) simp
      have "data_entries ftype buf e (p + n) out' \<noteq> Panic" if "8 \<le> n" for n out'
        using less.hyps [of "p + n" out'] 3 that \<open>e \<noteq> length buf\<close> by fastforce
      then show False
        using less.prems 3 e len data_entries_free [of p e buf ftype out] data_entries_name [of p e buf ftype out]
        by (cases "rd16 buf p = 0xffff") (auto simp: not_less split: if_splits)
    qed (use less.prems in \<open>simp_all add: data_entries_done data_entries_short\<close>)
  qed
qed

lemma parse_data_block_v5:
  assumes "is_v5 sb" and "64 \<le> length buf" and "verify buf 4" and "rd64 buf 40 = ino"
  shows "rd32 buf 0 = XDD3 \<Longrightarrow> parse_data_block sb buf ino out = data_entries (has_ftype sb) buf (length buf) 64 out"
    and "rd32 buf 0 = XDB3 \<Longrightarrow> 8 + rd32 buf (length buf - 8) * 8 + 64 \<le> length buf \<Longrightarrow>
      parse_data_block sb buf ino out =
      data_entries (has_ftype sb) buf (length buf - (8 + rd32 buf (length buf - 8) * 8)) 64 out"
proof -
  have "64 \<le> length buf - (8 + rd32 buf (length buf - 8) * 8)" if "8 + rd32 buf (length buf - 8) * 8 + 64 \<le> length buf"
    using that by linarith
  then show "rd32 buf 0 = XDD3 \<Longrightarrow> parse_data_block sb buf ino out = data_entries (has_ftype sb) buf (length buf) 64 out"
    and "rd32 buf 0 = XDB3 \<Longrightarrow> 8 + rd32 buf (length buf - 8) * 8 + 64 \<le> length buf \<Longrightarrow>
      parse_data_block sb buf ino out =
      data_entries (has_ftype sb) buf (length buf - (8 + rd32 buf (length buf - 8) * 8)) 64 out"
    using assms by (simp_all add: parse_data_block_def data_header_def data_end_def sub_w_def)
qed

section \<open>Properties\<close>

text \<open>
  Parsing a short-form directory is total: whatever the fork and the size, it does not
  panic; what it accepts has as many entries as its first byte says, every name between 1
  and 255 bytes.
\<close>

lemma parse_shortform_total:
  "parse_shortform sb fork sz \<noteq> Panic \<and>
   (\<forall>parent es. parse_shortform sb fork sz = Ok (parent, es) \<longrightarrow>
      length es = unat (fork ! 0) \<and> (\<forall>e \<in> set es. re_name e \<noteq> [] \<and> length (re_name e) < 256))"
proof (cases "sz < 6 \<or> sz > length fork")
  case False
  let ?buf = "seg fork 0 sz" and ?isz = "if fork ! 1 > 0 then 8 else 4 :: nat"
  have b: "length ?buf = sz" "?buf ! 0 = fork ! 0" "?buf ! 1 = fork ! 1"
    using False by (simp_all add: seg_nth)
  have isz: "?isz = 8 \<or> ?isz = 4" by simp
  have eq: "parse_shortform sb fork sz =
    and_then (ino_at ?isz ?buf 2) (\<lambda>parent.
    and_then (short_entries (has_ftype sb) ?isz ?buf (unat (fork ! 0)) (2 + ?isz) []) (\<lambda>out. Ok (parent, out)))"
    using False b by (simp add: parse_shortform_def Let_def)
  let ?es = "short_entries (has_ftype sb) ?isz ?buf (unat (fork ! 0)) (2 + ?isz) []"
  note es = short_entries_ok [OF isz, of "has_ftype sb" ?buf "unat (fork ! 0)" "2 + ?isz" "[]"]
  show ?thesis
  proof (cases "ino_at ?isz ?buf 2")
    case (Ok parent)
    then show ?thesis unfolding eq using es by (cases ?es) (simp_all del: short_entries.simps)
  next
    case Panic
    then show ?thesis using ino_at_not_Panic [OF isz] by blast
  next
    case (Err x)
    then show ?thesis unfolding eq by simp
  qed
qed (simp add: parse_shortform_def)

lemma parse_shortform_total_witness:
  "parse_shortform demo_sb [0, 0, 0, 0, 0, 128] 6 = Ok (128, [])"
proof -
  have "parse_shortform demo_sb [0, 0, 0, 0, 0, 128] 6 \<noteq> Panic" using parse_shortform_total by blast
  then show ?thesis
    by (simp add: parse_shortform_def ino_at_def be32_def get_def seg_def from_be_bytes_def)
qed

text \<open>
  A data block can make the reader panic: in a block with a valid header and checksum, one
  free record that reaches to eight bytes before the end, followed by anything but a free
  tag, is an index out of range. A single-block directory never panics: its names stop before
  the tail.
\<close>

lemma data_block_panics:
  assumes "is_v5 sb" and "88 \<le> length buf" and "length buf mod 8 = 0" and "length buf \<le> 65536" and "verify buf 4"
    and "rd64 buf 40 = ino"
  shows "(rd32 buf 0 = XDD3 \<and> rd16 buf 64 = 0xffff \<and> rd16 buf 66 = length buf - 72 \<and> rd16 buf (length buf - 8) \<noteq> 0xffff \<longrightarrow>
      parse_data_block sb buf ino out = Panic) \<and>
    (rd32 buf 0 = XDB3 \<longrightarrow> parse_data_block sb buf ino out \<noteq> Panic)"
proof (intro conjI impI)
  assume h: "rd32 buf 0 = XDD3 \<and> rd16 buf 64 = 0xffff \<and> rd16 buf 66 = length buf - 72 \<and> rd16 buf (length buf - 8) \<noteq> 0xffff"
  have m: "(length buf - 72) mod 8 = 0" using assms(2,3) by presburger
  have n: "\<not> length buf - 72 < 8" "64 + (length buf - 72) = length buf - 8" using assms(2) by linarith+
  have "parse_data_block sb buf ino out = data_entries (has_ftype sb) buf (length buf) 64 out"
    using parse_data_block_v5(1) [OF assms(1) _ assms(5,6)] assms(2) h by simp
  also have "\<dots> = data_entries (has_ftype sb) buf (length buf) (length buf - 8) out"
    using data_entries_free [of 64 "length buf" buf] assms(2) h m n by simp
  also have "\<dots> = Panic"
    using h assms(2) by (subst data_entries.simps) (simp add: index_def)
  finally show "parse_data_block sb buf ino out = Panic" .
next
  assume h: "rd32 buf 0 = XDB3"
  show "parse_data_block sb buf ino out \<noteq> Panic"
  proof (cases "8 + rd32 buf (length buf - 8) * 8 + 64 \<le> length buf")
    case True
    then show ?thesis
      using parse_data_block_v5(2) [OF assms(1) _ assms(5,6) h True] assms(2)
        data_entries_Panic [of "has_ftype sb" buf "length buf - (8 + rd32 buf (length buf - 8) * 8)" 64 out] by fastforce
  next
    case False
    then show ?thesis
      using assms h by (simp add: parse_data_block_def data_header_def data_end_def sub_w_def) linarith
  qed
qed

text \<open>A directory block of 512 bytes with a valid checksum on which the reader panics.\<close>

lemma data_block_panics_witness:
  "\<exists>buf. length buf = 512 \<and> verify buf 4 \<and> parse_data_block demo_sb buf 128 [] = Panic"
proof -
  define ws where "ws = [(0 :: nat, u32_bytes XDD3), (40, u64_bytes 128), (64, u16_bytes 0xffff), (66, u16_bytes 440)]"
  have "\<exists>c. puts ws (replicate 512 0) = Ok c" by (rule puts_total) (simp add: ws_def)
  then obtain c where c: "puts ws (replicate 512 0) = Ok c" ..
  have lc: "length c = 512" using puts_length [OF c] by simp
  then obtain d where d: "stamp c 4 = Ok d" using crc.seal_total [of 4 c] by auto
  have len: "length d = 512" using crc.seal_length [OF d] lc by simp
  have "seg d 0 4 = u32_bytes XDD3" "seg d 40 8 = u64_bytes 128" "seg d 64 2 = u16_bytes 0xffff"
    "seg d 66 2 = u16_bytes 440" "seg d 504 2 = replicate 2 0"
    by (rule crc.seal_field [OF c d]; simp add: ws_def seg_replicate)+
  note rd = this [THEN arg_cong, of from_be_bytes]
  have "is_v5 demo_sb" by (simp add: is_v5_def)
  then have "parse_data_block demo_sb d 128 [] = Panic"
    using data_block_panics [of demo_sb d 128 "[]"] crc.seal_check [OF d] len rd by (simp add: be_widths)
  then show ?thesis using len crc.seal_check [OF d] by blast
qed

end
