(* ===== verification/DirWrite.thy ===== *)
theory DirWrite
  imports Dir Btree "HOL-Library.Product_Lexorder"
begin

text \<open>
  Writing directories (\<open>src/src/dirwrite.rs\<close>): a whole directory from its list of names, in
  the smallest of four forms that holds it. The main results are that what is laid out is
  read back by the reader of \<open>Dir\<close>: the short form by \<open>parse_shortform\<close>, and the data
  blocks of the other three, once given their address and checksum, by \<open>parse_data_block\<close>.
  Writes into a block are lists of offsets and bytes, one for each \<open>put\<close> of the source.
\<close>

unbundle bit_operations_syntax

section \<open>The code\<close>

abbreviation (input) "FREE_OFFSET \<equiv> 2 * LEAF_OFFSET"
abbreviation (input) "XDF3 \<equiv> 0x58444633 :: nat"
abbreviation (input) "LEAF1 \<equiv> 0x3df1 :: nat"
abbreviation (input) "LEAFN \<equiv> 0x3dff :: nat"
abbreviation (input) "NODE \<equiv> 0x3ebe :: nat"
abbreviation (input) "HDR \<equiv> 64 :: nat"

record dir_ent =
  de_name :: "byte list"
  de_ino :: nat
  de_ftype :: byte

record dir_block =
  db_lblk :: nat
  db_data :: "byte list"
  db_crc_off :: nat
  db_blkno_off :: nat

datatype dir_layout = Short "byte list" | Blocks nat "dir_block list"

abbreviation u8x32 :: "byte \<Rightarrow> 32 word" where
  "u8x32 b \<equiv> ucast b"

fun hash_loop :: "32 word \<Rightarrow> byte list \<Rightarrow> 32 word" where
  "hash_loop hash (a # b # c # d # n) =
     hash_loop (push_bit 21 (u8x32 a) XOR push_bit 14 (u8x32 b) XOR push_bit 7 (u8x32 c) XOR u8x32 d
                XOR word_rotl (7 * 4) hash) n"
| "hash_loop hash [a, b, c] =
     push_bit 14 (u8x32 a) XOR push_bit 7 (u8x32 b) XOR u8x32 c XOR word_rotl (7 * 3) hash"
| "hash_loop hash [a, b] = push_bit 7 (u8x32 a) XOR u8x32 b XOR word_rotl (7 * 2) hash"
| "hash_loop hash [a] = u8x32 a XOR word_rotl 7 hash"
| "hash_loop hash [] = hash"

definition hashname :: "byte list \<Rightarrow> 32 word" where
  "hashname name = hash_loop 0 name"

definition entsize :: "nat \<Rightarrow> nat" where
  "entsize namelen = and_not (8 + 1 + namelen + 1 + 2 + 7) 7"

abbreviation (input) "MAX_SHORT_INUM \<equiv> 0xffffffff :: nat"

subsection \<open>The short form\<close>

definition put_ino :: "nat \<Rightarrow> nat \<Rightarrow> byte list" where
  "put_ino isz ino = (if isz = 8 then u64_bytes ino else u32_bytes ino)"

primrec short_names :: "nat \<Rightarrow> nat \<Rightarrow> dir_ent list \<Rightarrow> byte list" where
  "short_names isz off [] = []"
| "short_names isz off (e # es) =
     [word_of_nat (length (de_name e))] @ u16_bytes off @ de_name e @ [de_ftype e] @ put_ino isz (de_ino e)
     @ short_names isz (off + entsize (length (de_name e))) es"

definition short_i8count :: "nat \<Rightarrow> dir_ent list \<Rightarrow> nat" where
  "short_i8count parent names =
     of_bool (parent > MAX_SHORT_INUM) + length (filter (\<lambda>e. de_ino e > MAX_SHORT_INUM) names)"

definition shortform :: "nat \<Rightarrow> dir_ent list \<Rightarrow> nat \<Rightarrow> byte list option" where
  "shortform parent names fork_size =
     (if length names > 255 then None
      else
        let i8count = short_i8count parent names;
            isz = (if i8count > 0 then 8 else 4);
            sz = 2 + isz + sum_list (map (\<lambda>e. 1 + 2 + length (de_name e) + 1 + isz) names) in
        if sz > fork_size then None
        else Some ([word_of_nat (length names), word_of_nat i8count] @ put_ino isz parent @
                   short_names isz (HDR + entsize 1 + entsize 2) names))"

subsection \<open>Blocks\<close>

text \<open>The writes of \<open>put_entry\<close>, \<open>put_free\<close> and \<open>stamp_header\<close>.\<close>

definition put_entry :: "nat \<times> dir_ent \<Rightarrow> (nat \<times> byte list) list" where
  "put_entry = (\<lambda>(p, e).
     let n = length (de_name e) in
     [(p, u64_bytes (de_ino e)), (p + 8, [word_of_nat n]), (p + 9, de_name e), (p + 9 + n, [de_ftype e]),
      (p + entsize n - 2, u16_bytes p)])"

definition put_free :: "nat \<Rightarrow> nat \<Rightarrow> (nat \<times> byte list) list" where
  "put_free p len =
     (if len > 0 then
        [(p, u16_bytes 0xffff), (p + 2, u16_bytes len), (p + len - 2, u16_bytes p), (48, u16_bytes p), (50, u16_bytes len)]
      else [])"

definition stamp_header :: "superblock \<Rightarrow> nat \<Rightarrow> (nat \<times> byte list) list" where
  "stamp_header sb ino = [(24, sb_meta_uuid sb), (40, u64_bytes ino)]"

text \<open>Entries one after the other from position \<open>p\<close> on.\<close>

primrec place_from :: "nat \<Rightarrow> dir_ent list \<Rightarrow> (nat \<times> dir_ent) list" where
  "place_from p [] = []"
| "place_from p (e # es) = (p, e) # place_from (p + entsize (length (de_name e))) es"

text \<open>The entries that still go into a block from position \<open>p\<close> on, with their positions, and the rest.\<close>

primrec fill :: "nat \<Rightarrow> nat \<Rightarrow> dir_ent list \<Rightarrow> (nat \<times> dir_ent) list \<times> dir_ent list" where
  "fill dbs p [] = ([], [])"
| "fill dbs p (e # es) =
     (if p + entsize (length (de_name e)) > dbs then ([], e # es)
      else let (placed, rest) = fill dbs (p + entsize (length (de_name e))) es in ((p, e) # placed, rest))"

definition fill_end :: "nat \<Rightarrow> (nat \<times> dir_ent) list \<Rightarrow> nat" where
  "fill_end p placed = p + sum_list (map (\<lambda>(_, e). entsize (length (de_name e))) placed)"

text \<open>An index entry, and its writes.\<close>

definition index_entry :: "nat \<Rightarrow> nat \<times> dir_ent \<Rightarrow> nat \<times> nat" where
  "index_entry base = (\<lambda>(p, e). (unat (hashname (de_name e)), ((base + p) div 8) mod 2 ^ 32))"

definition put_pairs :: "nat \<Rightarrow> (nat \<times> nat) list \<Rightarrow> (nat \<times> byte list) list" where
  "put_pairs at ents = concat (map (\<lambda>(i, h, a). [(at + i * 8, u32_bytes h), (at + i * 8 + 4, u32_bytes a)]) (enumerate 0 ents))"

definition single_block :: "superblock \<Rightarrow> nat \<Rightarrow> nat \<Rightarrow> dir_ent list \<Rightarrow> dir_block res" where
  "single_block sb ino dbs all =
     (let placed = place_from HDR all; p = fill_end HDR placed;
          leaf_at = dbs - 8 - length all * 8; leaf = sort (map (index_entry 0) placed) in
      map_ok (\<lambda>buf. \<lparr>db_lblk = 0, db_data = buf, db_crc_off = 4, db_blkno_off = 8\<rparr>)
        (puts ([(0, u32_bytes XDB3)] @ concat (map put_entry placed) @ put_free p (leaf_at - p) @
               put_pairs leaf_at leaf @ [(dbs - 8, u32_bytes (length all)), (dbs - 4, u32_bytes 0)] @
               stamp_header sb ino) (replicate dbs 0)))"

text \<open>
  The runs of entries of the data blocks; \<open>None\<close> when an entry does not fit an empty block,
  where the loop of the source would add empty blocks forever.
\<close>

lemma fill_rest: "fill dbs p es = (placed, rest) \<Longrightarrow> length placed + length rest = length es"
  by (induction es arbitrary: p placed rest) (auto split: if_splits prod.splits)

function data_runs :: "nat \<Rightarrow> dir_ent list \<Rightarrow> (nat \<times> dir_ent) list list option" where
  "data_runs dbs es =
     (if es = [] then Some []
      else let (placed, rest) = fill dbs HDR es in
           if placed = [] then None
           else map_option (\<lambda>runs. placed # runs) (data_runs dbs rest))"
  by pat_completeness auto
termination
proof (relation "measure (\<lambda>(dbs, es). length es)", goal_cases)
  case (2 dbs es x placed rest)
  then have "length placed + length rest = length es" "0 < length placed" using fill_rest [of dbs HDR es placed rest] by auto
  then show ?case by (simp del: length_greater_0_conv)
qed simp

declare data_runs.simps [simp del]

definition data_block :: "superblock \<Rightarrow> nat \<Rightarrow> nat \<Rightarrow> nat \<Rightarrow> nat \<times> (nat \<times> dir_ent) list \<Rightarrow> dir_block res" where
  "data_block sb ino dbs fsb_per = (\<lambda>(db, placed).
     let p = fill_end HDR placed in
     map_ok (\<lambda>buf. \<lparr>db_lblk = db * fsb_per, db_data = buf, db_crc_off = 4, db_blkno_off = 8\<rparr>)
       (puts ([(0, u32_bytes XDD3)] @ concat (map put_entry placed) @ put_free p (dbs - p) @ stamp_header sb ino)
          (replicate dbs 0)))"

definition best_free :: "nat \<Rightarrow> (nat \<times> dir_ent) list \<Rightarrow> nat" where
  "best_free dbs placed = (dbs - fill_end HDR placed) mod 2 ^ 16"

definition dir_leaf :: "nat \<Rightarrow> (nat \<times> dir_ent) list list \<Rightarrow> (nat \<times> nat) list" where
  "dir_leaf dbs runs = sort (concat (map (\<lambda>(db, placed). map (index_entry (db * dbs)) placed) (enumerate 0 runs)))"

definition da_info :: "superblock \<Rightarrow> nat \<Rightarrow> nat \<Rightarrow> nat \<Rightarrow> nat \<Rightarrow> (nat \<times> byte list) list" where
  "da_info sb ino magic forw back =
     [(0, u32_bytes forw), (4, u32_bytes back), (8, u16_bytes magic), (32, sb_meta_uuid sb), (48, u64_bytes ino)]"

definition put_leaf_ents :: "(nat \<times> nat) list \<Rightarrow> (nat \<times> byte list) list" where
  "put_leaf_ents ents = (56, u16_bytes (length ents)) # put_pairs HDR ents"

definition leaf_block :: "superblock \<Rightarrow> nat \<Rightarrow> nat \<Rightarrow> nat \<Rightarrow> (nat \<times> nat) list \<Rightarrow> nat list \<Rightarrow> dir_block res" where
  "leaf_block sb ino dbs leaf_first leaf bests =
     (let n = length bests; bests_at = dbs - 4 - n * 2 in
      map_ok (\<lambda>buf. \<lparr>db_lblk = leaf_first, db_data = buf, db_crc_off = 12, db_blkno_off = 16\<rparr>)
        (puts (da_info sb ino LEAF1 0 0 @ put_leaf_ents leaf @
               map (\<lambda>(i, b). (bests_at + i * 2, u16_bytes b)) (enumerate 0 bests) @
               [(dbs - 4, u32_bytes n)]) (replicate dbs 0)))"

text \<open>A block of the hash tree, with its highest hash and its position; one level of the tree.\<close>

definition da_block ::
  "superblock \<Rightarrow> nat \<Rightarrow> nat \<Rightarrow> nat \<Rightarrow> nat list \<Rightarrow> nat \<times> (nat \<times> nat) list \<Rightarrow> ((nat \<times> nat) \<times> dir_block) res" where
  "da_block sb ino dbs level addrs = (\<lambda>(i, part).
     let prev = (if i = 0 then 0 else addrs ! (i - 1));
         forw = (if i + 1 < length addrs then addrs ! (i + 1) else 0);
         ws = (if level = 0 then da_info sb ino LEAFN forw prev @ put_leaf_ents part
               else da_info sb ino NODE forw prev @ [(56, u16_bytes (length part)), (58, u16_bytes level)] @
                    put_pairs HDR part);
         high = (if part = [] then 0 else fst (last part)) in
     map_ok (\<lambda>buf. ((high, addrs ! i), \<lparr>db_lblk = addrs ! i, db_data = buf, db_crc_off = 12, db_blkno_off = 16\<rparr>))
       (puts ws (replicate dbs 0)))"

definition da_level ::
  "superblock \<Rightarrow> nat \<Rightarrow> nat \<Rightarrow> nat \<Rightarrow> nat list \<Rightarrow> (nat \<times> nat) list \<Rightarrow> ((nat \<times> nat) \<times> dir_block) list res" where
  "da_level sb ino dbs level addrs items =
     map_res (da_block sb ino dbs level addrs) (enumerate 0 (parts (spread (length items) (length addrs)) items))"

primrec da_levels ::
  "superblock \<Rightarrow> nat \<Rightarrow> nat \<Rightarrow> nat \<Rightarrow> nat list \<Rightarrow> nat list \<Rightarrow> (nat \<times> nat) list \<Rightarrow> dir_block list res" where
  "da_levels sb ino dbs level [] addrs items = Ok []"
| "da_levels sb ino dbs level (n # sizes) addrs items =
     and_then (da_level sb ino dbs level (take n addrs) items) (\<lambda>built.
     and_then (da_levels sb ino dbs (level + 1) sizes (drop n addrs) (map fst built)) (\<lambda>blocks.
     Ok (map snd built @ blocks)))"

function chunks :: "nat \<Rightarrow> 'a list \<Rightarrow> 'a list list" where
  "chunks n xs = (if xs = [] \<or> n = 0 then [] else take n xs # chunks n (drop n xs))"
  by pat_completeness auto
termination by (relation "measure (\<lambda>(n, xs). length xs)") auto

declare chunks.simps [simp del]

definition free_block :: "superblock \<Rightarrow> nat \<Rightarrow> nat \<Rightarrow> nat \<Rightarrow> nat \<Rightarrow> nat \<times> nat list \<Rightarrow> dir_block res" where
  "free_block sb ino dbs free_first fsb_per = (\<lambda>(i, chunk).
     let per_free = (dbs - HDR) div 2 in
     map_ok (\<lambda>buf. \<lparr>db_lblk = free_first + i * fsb_per, db_data = buf, db_crc_off = 4, db_blkno_off = 8\<rparr>)
       (puts ([(0, u32_bytes XDF3), (24, sb_meta_uuid sb), (40, u64_bytes ino), (48, u32_bytes (i * per_free)),
               (52, u32_bytes (length chunk)), (56, u32_bytes (length chunk))] @
              map (\<lambda>(j, b). (HDR + j * 2, u16_bytes b)) (enumerate 0 chunk)) (replicate dbs 0)))"

definition node_form ::
  "superblock \<Rightarrow> nat \<Rightarrow> nat \<Rightarrow> nat \<Rightarrow> nat \<Rightarrow> nat \<Rightarrow> (nat \<times> nat) list \<Rightarrow> nat list \<Rightarrow> dir_block list res" where
  "node_form sb ino dbs fsb_per leaf_first free_first leaf bests =
     (let per_leaf = (dbs - HDR) div 8; per_node = (dbs - HDR) div 8 in
      if per_leaf = 0 then Panic
      else
        and_then (returns (level_loop 1 per_node (div_ceil (length leaf) per_leaf))) (\<lambda>sizes.
        let pos = leaf_first # map (\<lambda>i. leaf_first + i * fsb_per) [1..<sum_list sizes]; order = tl pos @ [hd pos] in
        and_then (da_levels sb ino dbs 0 sizes order leaf) (\<lambda>index.
        and_then (map_res (free_block sb ino dbs free_first fsb_per) (enumerate 0 (chunks ((dbs - HDR) div 2) bests))) (\<lambda>frees.
        Ok (index @ frees)))))"

definition layout :: "superblock \<Rightarrow> nat \<Rightarrow> nat \<Rightarrow> dir_ent list \<Rightarrow> nat \<Rightarrow> dir_layout res" where
  "layout sb ino parent names fork_size =
     (case shortform parent names fork_size of
        Some sf \<Rightarrow> Ok (Short sf)
      | None \<Rightarrow>
          and_then (dir_block_size sb) (\<lambda>dbs.
          and_then (shl_w 64 1 (sb_dirblk_log sb)) (\<lambda>fsb_per.
          let leaf_first = LEAF_OFFSET div 2 ^ sb_block_log sb; free_first = FREE_OFFSET div 2 ^ sb_block_log sb;
              all = [\<lparr>de_name = [0x2e], de_ino = ino, de_ftype = 2\<rparr>, \<lparr>de_name = [0x2e, 0x2e], de_ino = parent, de_ftype = 2\<rparr>] @ names;
              used = sum_list (map (\<lambda>e. entsize (length (de_name e))) all) in
          if HDR + used + length all * 8 + 8 \<le> dbs then
            map_ok (\<lambda>b. Blocks dbs [b]) (single_block sb ino dbs all)
          else
            and_then (returns (data_runs dbs all)) (\<lambda>runs.
            and_then (map_res (data_block sb ino dbs fsb_per) (enumerate 0 runs)) (\<lambda>blocks.
            let leaf = dir_leaf dbs runs; bests = map (best_free dbs) runs; ndata = length runs in
            if HDR + length leaf * 8 + ndata * 2 + 4 \<le> dbs then
              map_ok (\<lambda>b. Blocks (ndata * dbs) (blocks @ [b])) (leaf_block sb ino dbs leaf_first leaf bests)
            else
              map_ok (\<lambda>index. Blocks (ndata * dbs) (sort_key db_lblk (blocks @ index)))
                (node_form sb ino dbs fsb_per leaf_first free_first leaf bests))))))"

text \<open>
  What the writer does with a block before it goes out (\<open>write_dir\<close> of \<open>src/src/write.rs\<close>): its
  disk address in 512-byte units, then its checksum.
\<close>

definition seal_block :: "nat \<Rightarrow> dir_block \<Rightarrow> byte list res" where
  "seal_block byte_addr b =
     and_then (put64 (db_data b) (db_blkno_off b) (drop_bit 9 byte_addr)) (\<lambda>data. stamp data (db_crc_off b))"

section \<open>The hash\<close>

text \<open>
  The reference: one byte at a time, the hash rotated left by seven bits before each byte is
  put in.
\<close>

definition hash_ref :: "byte list \<Rightarrow> 32 word" where
  "hash_ref name = foldl (\<lambda>h b. word_rotl 7 h XOR u8x32 b) 0 name"

lemma rotl_xor: "word_rotl n (x XOR y) = word_rotl n x XOR word_rotl n (y :: 32 word)"
  by (rule word_rot_logs)

lemma rotl_rotl: "word_rotl m (word_rotl n x) = word_rotl (m + n) (x :: 32 word)"
proof -
  have "word_rotr (n + m) (word_rotl m (word_rotl n x)) = x" by (simp flip: word_rotr_word_rotr_eq)
  then show ?thesis by (metis word_rot_rl add.commute)
qed

lemma rotl_byte:
  assumes "k \<le> 24"
  shows "word_rotl k (u8x32 b) = push_bit k (u8x32 b)"
proof (rule bit_word_eqI)
  fix n assume "n < LENGTH(32)"
  then have n: "n < 32" by simp
  have high: "\<not> bit b i" if "8 \<le> i" for i using that bit_imp_le_length [of b i] by auto
  have "(n + 32 - k) mod 32 = (if k \<le> n then n - k else n + 32 - k)" using n assms by (auto simp: mod_if)
  then show "bit (word_rotl k (u8x32 b)) n = bit (push_bit k (u8x32 b)) n"
    using n assms high by (auto simp: bit_word_rotl_iff bit_push_bit_iff bit_ucast_iff)
qed

lemma hash_loop_ref: "hash_loop h name = foldl (\<lambda>h b. word_rotl 7 h XOR u8x32 b) h name"
  by (induction h name rule: hash_loop.induct)
    (simp_all add: rotl_xor rotl_rotl xor.assoc xor.commute xor.left_commute
      rotl_byte [of 7, symmetric] rotl_byte [of 14, symmetric] rotl_byte [of 21, symmetric])

section \<open>The short form: lemmas\<close>

definition raw_of :: "dir_ent \<Rightarrow> raw_entry" where
  "raw_of e = \<lparr>re_name = de_name e, re_ino = de_ino e, re_ftype = from_ftype (de_ftype e)\<rparr>"

text \<open>Names a directory can hold, with inode numbers the format has.\<close>

definition ent_ok :: "dir_ent \<Rightarrow> bool" where
  "ent_ok e \<longleftrightarrow> de_name e \<noteq> [] \<and> length (de_name e) < 256 \<and> de_ino e < 2 ^ 63"

lemma entsize_eq: "entsize n = entry_len True n"
  by (simp add: entsize_def entry_len_def)

definition ino_fits :: "nat \<Rightarrow> nat \<Rightarrow> bool" where
  "ino_fits isz ino \<longleftrightarrow> isz = 8 \<and> ino < 2 ^ 64 \<or> isz = 4 \<and> ino < 2 ^ 32"

lemma length_put_ino: "isz = 8 \<or> isz = 4 \<Longrightarrow> length (put_ino isz ino) = isz"
  by (auto simp: put_ino_def)

lemma ino_at_put:
  assumes "ino_fits isz ino"
  shows "ino_at isz (pre @ put_ino isz ino @ post) (length pre) = Ok ino"
  using assms by (auto simp: ino_at_def put_ino_def ino_fits_def seg_append_right seg_append_left be_widths)

lemma seg_mid: "seg (xs @ ys @ zs) (length xs) (length ys) = ys"
  by (simp add: seg_def)

text \<open>The names are read back one after the other, wherever they start.\<close>

lemma short_entries_names:
  assumes "\<forall>e \<in> set es. de_name e \<noteq> [] \<and> length (de_name e) < 256 \<and> ino_fits isz (de_ino e)"
  shows "short_entries True isz (pre @ short_names isz off es) (length es) (length pre) out = Ok (out @ map raw_of es)"
  using assms
proof (induction es arbitrary: pre off out)
  case (Cons e es)
  let ?n = "length (de_name e)"
  let ?head = "[word_of_nat ?n] @ u16_bytes off @ de_name e @ [de_ftype e] :: byte list"
  let ?rest = "short_names isz (off + entsize ?n) es"
  let ?buf = "pre @ short_names isz off (e # es)"
  have e: "de_name e \<noteq> []" "?n < 256" "ino_fits isz (de_ino e)" and isz: "isz = 8 \<or> isz = 4"
    using Cons.prems by (auto simp: ino_fits_def)
  have n: "unat (word_of_nat ?n :: byte) = ?n" using e(2) by (simp add: unat_of_nat)
  have pi: "length (put_ino isz (de_ino e)) = isz" by (rule length_put_ino [OF isz])
  have buf: "?buf = (pre @ ?head) @ put_ino isz (de_ino e) @ ?rest" by simp
  have head: "length (pre @ ?head) = length pre + 4 + ?n" by simp
  have ino: "ino_at isz ?buf (length pre + 4 + ?n) = Ok (de_ino e)"
    unfolding buf using ino_at_put [OF e(3), of "pre @ ?head" ?rest] head by (simp only:)
  have name: "get ?buf (length pre + 3) ?n = Ok (de_name e)"
    using pi seg_mid [of "pre @ [word_of_nat ?n] @ u16_bytes off" "de_name e" "[de_ftype e] @ put_ino isz (de_ino e) @ ?rest"] by simp
  have t: "index ?buf (length pre + 3 + ?n) = Ok (de_ftype e)"
    using pi by (simp add: nth_append)
  have len: "length pre + 4 + ?n + isz \<le> length ?buf" using pi by simp
  have l: "index ?buf (length pre) = Ok (word_of_nat ?n)" by (simp add: nth_append)
  have step: "short_entries True isz ?buf (Suc (length es)) (length pre) out =
      short_entries True isz ?buf (length es) (length pre + 4 + ?n + isz) (out @ [raw_of e])"
    using l n t ino name len e(1) by (simp add: Let_def raw_of_def add_ac del: short_names.simps)
  have buf': "?buf = (pre @ ?head @ put_ino isz (de_ino e)) @ ?rest" by simp
  have len': "length pre + 4 + ?n + isz = length (pre @ ?head @ put_ino isz (de_ino e))" using pi by simp
  have "short_entries True isz ?buf (length es) (length pre + 4 + ?n + isz) (out @ [raw_of e]) =
      Ok ((out @ [raw_of e]) @ map raw_of es)"
    unfolding buf' len' by (rule Cons.IH) (use Cons.prems in auto)
  then show ?case using step by (simp only: list.size add_0 add_0_right Suc_eq_plus1 list.map append_assoc append_Cons append_Nil)
qed simp

lemma length_short_names:
  "isz = 8 \<or> isz = 4 \<Longrightarrow>
   length (short_names isz off es) = sum_list (map (\<lambda>e. 1 + 2 + length (de_name e) + 1 + isz) es)"
  by (induction es arbitrary: off) (simp_all add: length_put_ino)

text \<open>
  Directories small enough for an inode: at most 2048 bytes for the fork leaves the count of
  wide inode numbers below 256, so that it fits its byte.
\<close>

lemma short_parse:
  assumes sf: "shortform parent names fork_size = Some sf" and "fork_size \<le> 2048" and ft: "has_ftype sb"
    and p: "parent < 2 ^ 64" and es: "\<forall>e \<in> set names. ent_ok e"
  shows "parse_shortform sb (sf @ pad) (length sf) = Ok (parent, map raw_of names)" and "length sf \<le> fork_size"
proof -
  define k where "k = short_i8count parent names"
  define isz :: nat where "isz = (if k > 0 then 8 else 4)"
  let ?sz = "2 + isz + sum_list (map (\<lambda>e. 1 + 2 + length (de_name e) + 1 + isz) names)"
  let ?off = "64 + entsize 1 + entsize 2"
  have n: "length names \<le> 255" and sz: "?sz \<le> fork_size"
    and eq: "sf = ([word_of_nat (length names), word_of_nat k] @ put_ino isz parent) @ short_names isz ?off names"
    using sf by (auto simp: shortform_def k_def isz_def Let_def split: if_splits)
  have isz: "isz = 8 \<or> isz = 4" by (simp add: isz_def)
  have len: "length sf = ?sz" using isz by (simp add: eq length_put_ino length_short_names)
  with sz show "length sf \<le> fork_size" by simp
  have "length names * 9 \<le> sum_list (map (\<lambda>e. 1 + 2 + length (de_name e) + 1 + isz) names)"
    using es
  proof (induction names)
    case (Cons a names)
    have "0 < length (de_name a)" using Cons.prems by (simp add: ent_ok_def)
    then have "9 \<le> 1 + 2 + length (de_name a) + 1 + isz" using isz by linarith
    moreover have "length names * 9 \<le> sum_list (map (\<lambda>e. 1 + 2 + length (de_name e) + 1 + isz) names)"
      using Cons by simp
    ultimately show ?case by (simp only: list.map sum_list.Cons list.size add_mult_distrib)
  qed simp
  then have "length names \<le> 227" using sz assms(2) by linarith
  then have "length (filter (\<lambda>e. de_ino e > 0xffffffff) names) \<le> 227" by (rule le_trans [OF length_filter_le])
  then have k: "k < 256" unfolding k_def short_i8count_def by (simp add: of_bool_def)
  have fit: "ino_fits isz parent" "\<forall>e \<in> set names. ino_fits isz (de_ino e)"
    using p es by (auto simp: ino_fits_def isz_def k_def short_i8count_def ent_ok_def filter_empty_conv)
  have u: "unat (word_of_nat (length names) :: byte) = length names" "unat (word_of_nat k :: byte) = k"
    using n k by (simp_all add: unat_of_nat)
  have i8: "(word_of_nat k :: byte) > 0 \<longleftrightarrow> k > 0" using u(2) by (metis unat_gt_0 word_greater_zero_iff unat_0 gr0I)
  have parent: "ino_at isz sf 2 = Ok parent"
    using ino_at_put [OF fit(1), of "[word_of_nat (length names), word_of_nat k]"] by (simp add: eq numeral_2_eq_2)
  have "short_entries True isz sf (length names) (2 + isz) [] = Ok (map raw_of names)"
    using short_entries_names [of names isz "[word_of_nat (length names), word_of_nat k] @ put_ino isz parent" ?off "[]"] es fit(2) isz
    by (simp add: eq ent_ok_def length_put_ino)
  moreover have "6 \<le> length sf" using len isz by auto
  moreover have "index sf 0 = Ok (word_of_nat (length names))" "index sf 1 = Ok (word_of_nat k)" by (simp_all add: eq)
  ultimately show "parse_shortform sb (sf @ pad) (length sf) = Ok (parent, map raw_of names)"
    using ft parent u i8 by (simp add: parse_shortform_def seg_def isz_def Let_def)
qed

section \<open>Blocks: lemmas\<close>

abbreviation used :: "dir_ent list \<Rightarrow> nat" where
  "used es \<equiv> sum_list (map (\<lambda>e. entsize (length (de_name e))) es)"

lemma fill_end_place: "fill_end p (place_from p es) = p + used es"
proof -
  have "sum_list (map (\<lambda>(_, e). entsize (length (de_name e))) (place_from q es)) = used es" for q
    by (induction es arbitrary: q) simp_all
  then show ?thesis by (simp add: fill_end_def)
qed

lemma map_snd_place [simp]: "map snd (place_from p es) = es"
  by (induction es arbitrary: p) simp_all

lemma fill_place:
  "fill dbs p es = (placed, rest) \<Longrightarrow> p \<le> dbs \<Longrightarrow>
   placed = place_from p (map snd placed) \<and> es = map snd placed @ rest \<and> p + used (map snd placed) \<le> dbs"
proof (induction es arbitrary: p placed rest)
  case (Cons e es)
  show ?case
  proof (cases "p + entsize (length (de_name e)) > dbs")
    case False
    obtain pl r where f: "fill dbs (p + entsize (length (de_name e))) es = (pl, r)" by fastforce
    then show ?thesis using Cons.IH [OF f] Cons.prems False by (auto simp: add.assoc)
  qed (use Cons.prems in auto)
qed simp

lemma place_from_split:
  "place_from p es = xs @ (q, e) # ys \<Longrightarrow>
   p \<le> q \<and> q + entsize (length (de_name e)) \<le> p + used es \<and>
   (\<forall>(a, f) \<in> set xs. p \<le> a \<and> a + entsize (length (de_name f)) \<le> q) \<and>
   (\<forall>(a, f) \<in> set ys. q + entsize (length (de_name e)) \<le> a)"
proof (induction es arbitrary: p xs)
  case (Cons f es)
  have ge: "p' \<le> a" if "(a, g) \<in> set (place_from p' es)" for a g p'
    using that by (induction es arbitrary: p') (auto, meson add_leD1)
  show ?case
  proof (cases xs)
    case Nil
    then show ?thesis using Cons.prems ge by auto
  next
    case (Cons x xs')
    then have x: "x = (p, f)" and r: "place_from (p + entsize (length (de_name f))) es = xs' @ (q, e) # ys"
      using Cons.prems by auto
    from Cons.IH [OF r] show ?thesis by (auto simp: Cons x)
  qed
qed simp

text \<open>The writes of an entry stay inside it.\<close>

lemma put_entry_in:
  assumes "w \<in> set (put_entry (p, e))" and "length (de_name e) < 256"
  shows "p \<le> fst w \<and> fst w + length (snd w) \<le> p + entsize (length (de_name e))"
  using assms(1) entry_len_bounds(1,2) [OF assms(2), of True]
  by (auto simp: put_entry_def Let_def entsize_eq)

lemma field_put_entry:
  assumes "length (de_name e) < 256" and "de_name e \<noteq> []"
  shows "field (put_entry (p, e)) p 8 acc = Some (u64_bytes (de_ino e))"
    "field (put_entry (p, e)) (p + 8) 1 acc = Some [word_of_nat (length (de_name e))]"
    "field (put_entry (p, e)) (p + 9) (length (de_name e)) acc = Some (de_name e)"
    "field (put_entry (p, e)) (p + 9 + length (de_name e)) 1 acc = Some [de_ftype e]"
  using entry_len_bounds(2) [OF assms(1), of True] assms(2)
  by (auto simp: put_entry_def Let_def entsize_eq seg_def)

text \<open>A block \<open>d\<close> that holds an entry at a position, and one that holds them all.\<close>

definition holds_entry :: "byte list \<Rightarrow> nat \<times> dir_ent \<Rightarrow> bool" where
  "holds_entry d = (\<lambda>(p, e).
     seg d p 8 = u64_bytes (de_ino e) \<and> seg d (p + 8) 1 = [word_of_nat (length (de_name e))] \<and>
     seg d (p + 9) (length (de_name e)) = de_name e \<and> seg d (p + 9 + length (de_name e)) 1 = [de_ftype e])"

lemma puts_holds_entries:
  assumes c: "puts (A @ concat (map put_entry (place_from p es)) @ B) b = Ok c"
    and A: "\<forall>w \<in> set A. fst w + length (snd w) \<le> p"
    and B: "\<forall>w \<in> set B. fst w + length (snd w) \<le> p \<or> p + used es \<le> fst w"
    and es: "\<forall>e \<in> set es. ent_ok e" and len: "p + used es \<le> length b"
  shows "\<forall>x \<in> set (place_from p es). holds_entry c x"
proof
  fix x assume x: "x \<in> set (place_from p es)"
  obtain q e where qe: "x = (q, e)" by (cases x)
  obtain xs ys where split: "place_from p es = xs @ (q, e) # ys" using x qe by (meson split_list)
  note s = place_from_split [OF split]
  have ok: "ent_ok f" if "(a, f) \<in> set (place_from p es)" for a f
    using that es map_snd_place [of p es] by (metis image_eqI list.set_map snd_conv)
  have e: "length (de_name e) < 256" "de_name e \<noteq> []" using ok [of q e] x qe by (auto simp: ent_ok_def)
  let ?hi = "q + entsize (length (de_name e))"
  let ?L = "A @ concat (map put_entry xs)" and ?R = "concat (map put_entry ys) @ B"
  have ws: "A @ concat (map put_entry (place_from p es)) @ B = ?L @ put_entry (q, e) @ ?R" by (simp add: split)
  have L: "fst w + length (snd w) \<le> q" if w: "w \<in> set ?L" for w
  proof (cases "w \<in> set A")
    case True
    then show ?thesis using A s by force
  next
    case False
    then obtain a f where f: "(a, f) \<in> set xs" "w \<in> set (put_entry (a, f))" using w by auto
    then have "length (de_name f) < 256" using ok [of a f] by (simp add: split ent_ok_def)
    from put_entry_in [OF f(2) this] s f(1) show ?thesis by fastforce
  qed
  have R: "fst w + length (snd w) \<le> q \<or> ?hi \<le> fst w" if w: "w \<in> set ?R" for w
  proof (cases "w \<in> set B")
    case True
    then show ?thesis using B s by force
  next
    case False
    then obtain a f where f: "(a, f) \<in> set ys" "w \<in> set (put_entry (a, f))" using w by auto
    then have "length (de_name f) < 256" using ok [of a f] by (simp add: split ent_ok_def)
    from put_entry_in [OF f(2) this] s f(1) show ?thesis by fastforce
  qed
  have rd: "seg c i n = zs" if "q \<le> i" "i + n \<le> ?hi" "\<And>acc. field (put_entry (q, e)) i n acc = Some zs" for i n zs
  proof (rule puts_field [OF c [unfolded ws]])
    show "i + n \<le> length b" using that(2) s len by simp
    have "list_all (\<lambda>w. fst w + length (snd w) \<le> i \<or> i + n \<le> fst w) ?R"
      unfolding list_all_iff using R that(1,2) by (meson le_trans)
    then have "field ?R i n acc = acc" for acc by (rule field_outside)
    then show "field (?L @ put_entry (q, e) @ ?R) i n (Some (seg b i n)) = Some zs"
      by (simp only: field_append [of ?L "put_entry (q, e) @ ?R"] field_append [of "put_entry (q, e)" ?R] that(3))
  qed
  have n: "length (de_name e) + 12 \<le> entsize (length (de_name e))"
    using entry_len_bounds(2) [OF e(1), of True] by (simp add: entsize_eq)
  show "holds_entry c x"
    using n by (simp add: holds_entry_def qe, intro conjI; intro rd field_put_entry [OF e, simplified]) auto
qed

lemma to_be_bytes_split: "to_be_bytes (n + m) v = to_be_bytes n (v div 256 ^ m) @ to_be_bytes m v"
  by (induction m arbitrary: v) (simp_all add: div_mult2_eq)

text \<open>An inode number below \<open>2 ^ 63\<close> does not start like a free tag.\<close>

lemma ino_not_free:
  assumes "seg d p 8 = u64_bytes v" and "v < 2 ^ 63"
  shows "rd16 d p \<noteq> 0xffff"
proof -
  have "seg d p 2 = seg (seg d p 8) 0 2" by (simp add: seg_seg)
  also have "\<dots> = u16_bytes (v div 256 ^ 6)"
    unfolding assms(1) using to_be_bytes_split [of 2 6 v] by (simp add: seg_def)
  finally have "rd16 d p = v div 256 ^ 6" using assms(2) by (simp add: from_to_be_bytes)
  moreover have "v div 256 ^ 6 < 2 ^ 15" using assms(2) by (simp add: less_mult_imp_div_less)
  ultimately show ?thesis by simp
qed

text \<open>The walk of a data block over entries it holds, and over the free space after them.\<close>

lemma data_entries_holds:
  assumes "\<forall>x \<in> set (place_from p es). holds_entry d x" and "\<forall>e \<in> set es. ent_ok e"
    and "p + used es \<le> e" and "e \<le> length d"
  shows "data_entries True d e p out = data_entries True d e (p + used es) (out @ map raw_of es)"
  using assms
proof (induction es arbitrary: p out)
  case (Cons x es)
  let ?n = "length (de_name x)"
  have h: "seg d p 8 = u64_bytes (de_ino x)" "seg d (p + 8) 1 = [word_of_nat ?n]"
    "seg d (p + 9) ?n = de_name x" "seg d (p + 9 + ?n) 1 = [de_ftype x]"
    using Cons.prems(1) by (auto simp: holds_entry_def)
  have ok: "0 < ?n" "?n < 256" "de_ino x < 2 ^ 63" using Cons.prems(2) by (auto simp: ent_ok_def)
  have len: "?n + 12 \<le> entsize ?n" "16 \<le> entsize ?n"
    using entry_len_bounds(1,2) [OF ok(2), of True] by (simp_all add: entsize_eq)
  have fit: "p + entsize ?n \<le> e" "e \<le> length d" using Cons.prems(3,4) by simp_all
  have nl: "d ! (p + 8) = word_of_nat ?n" "d ! (p + 9 + ?n) = de_ftype x" using h(2,4) seg_1_nth by force+
  have u: "unat (word_of_nat ?n :: byte) = ?n" using ok(2) by (simp add: unat_of_nat)
  have ne: "(word_of_nat ?n :: byte) \<noteq> 0" using u ok(1) by (metis unat_0 less_irrefl)
  have at: "entry_at True d p = raw_of x"
    using h(1,3) ok(3) nl u by (simp add: entry_at_def raw_of_def Let_def be_widths)
  have "data_entries True d e p out = data_entries True d e (p + entsize ?n) (out @ [raw_of x])"
    using data_entries_name [of p e d True out] ino_not_free [OF h(1) ok(3)] len fit nl(1) u ne at by (simp add: entsize_eq)
  also have "\<dots> = data_entries True d e (p + entsize ?n + used es) ((out @ [raw_of x]) @ map raw_of es)"
    using Cons.prems by (intro Cons.IH) (simp_all add: add.assoc)
  finally show ?case by (simp add: add.assoc)
qed simp

definition holds_free :: "byte list \<Rightarrow> nat \<Rightarrow> nat \<Rightarrow> bool" where
  "holds_free d p e \<longleftrightarrow> p = e \<or> p + 8 \<le> e \<and> (e - p) mod 8 = 0 \<and> seg d p 2 = u16_bytes 0xffff \<and> seg d (p + 2) 2 = u16_bytes (e - p)"

lemma data_entries_holds_free:
  assumes "holds_free d p e" and "e \<le> length d" and "e - p < 65536"
  shows "data_entries True d e p out = Ok out"
proof (cases "p = e")
  case False
  then have h: "p + 8 \<le> e" "(e - p) mod 8 = 0" "rd16 d p = 0xffff" "rd16 d (p + 2) = e - p"
    using assms by (auto simp: holds_free_def be_widths)
  then show ?thesis
    using data_entries_free [OF h(1) assms(2) h(3), of True out] data_entries_done [of e "p + (e - p)"] by simp
qed (simp add: data_entries_done)

lemma used_mod: "\<forall>e \<in> set es. ent_ok e \<Longrightarrow> used es mod 8 = 0"
proof (induction es)
  case (Cons e es)
  have "entsize (length (de_name e)) mod 8 = 0" using Cons.prems entry_len_bounds(4) [of "length (de_name e)" True] by (simp add: ent_ok_def entsize_eq)
  then show ?case using Cons by (auto simp: mod_add_eq dest: mod_0_imp_dvd)
qed simp

text \<open>The free record written after the entries.\<close>

lemma puts_holds_free:
  assumes c: "puts (A @ put_free p (e - p) @ B) b = Ok c" and "52 \<le> p" and "p = e \<or> p + 8 \<le> e" and "(e - p) mod 8 = 0"
    and "e \<le> length b" and B: "\<forall>w \<in> set B. fst w + length (snd w) \<le> p \<or> e \<le> fst w"
  shows "holds_free c p e"
proof (cases "p = e")
  case False
  then have p: "p + 8 \<le> e" using assms(3) by simp
  have rd: "seg c i 2 = ys" if "i = p \<or> i = p + 2" "\<And>acc. field (put_free p (e - p)) i 2 acc = Some ys" for i ys
  proof (rule puts_field [OF c])
    show "i + 2 \<le> length b" using that(1) p assms(5) by auto
    have "list_all (\<lambda>w. fst w + length (snd w) \<le> i \<or> i + 2 \<le> fst w) B"
      unfolding list_all_iff using B that(1) p by fastforce
    then have "field B i 2 acc = acc" for acc by (rule field_outside)
    then show "field (A @ put_free p (e - p) @ B) i 2 (Some (seg b i 2)) = Some ys"
      by (simp only: field_append [of A "put_free p (e - p) @ B"] field_append [of "put_free p (e - p)" B] that(2))
  qed
  have "seg c p 2 = u16_bytes 0xffff" "seg c (p + 2) 2 = u16_bytes (e - p)"
    using p assms(2) by (auto intro!: rd simp: put_free_def)
  then show ?thesis using p assms(4) by (simp add: holds_free_def)
qed (simp add: holds_free_def)

section \<open>Data blocks are read back\<close>

lemma holds_seal:
  assumes d: "stamp c 4 = Ok d" and "length c = dbs" and "8 \<le> p"
  shows "p + used es \<le> dbs \<Longrightarrow> \<forall>e \<in> set es. ent_ok e \<Longrightarrow> \<forall>x \<in> set (place_from p es). holds_entry c x \<Longrightarrow>
      \<forall>x \<in> set (place_from p es). holds_entry d x"
    and "holds_free c p e \<Longrightarrow> e \<le> dbs \<Longrightarrow> holds_free d p e"
proof -
  have eq: "seg d i n = seg c i n" if "8 \<le> i" "i + n \<le> dbs" for i n
    using crc.seal_seg [OF d, of i n] that assms(2) by simp
  show "holds_free c p e \<Longrightarrow> e \<le> dbs \<Longrightarrow> holds_free d p e"
    using eq assms(3) by (auto simp: holds_free_def)
  assume fit: "p + used es \<le> dbs" and ok: "\<forall>e \<in> set es. ent_ok e" and c: "\<forall>x \<in> set (place_from p es). holds_entry c x"
  show "\<forall>x \<in> set (place_from p es). holds_entry d x"
  proof
    fix x assume x: "x \<in> set (place_from p es)"
    obtain q e where qe: "x = (q, e)" by (cases x)
    obtain xs ys where split: "place_from p es = xs @ (q, e) # ys" using x qe by (meson split_list)
    have q: "8 \<le> q" "q + entsize (length (de_name e)) \<le> dbs" using place_from_split [OF split] fit assms(3) by auto
    have "e \<in> set es" using map_snd_place [of p es] x qe by (metis image_eqI list.set_map snd_conv)
    then have "length (de_name e) < 256" using ok by (auto simp: ent_ok_def)
    then have "length (de_name e) + 12 \<le> entsize (length (de_name e))"
      using entry_len_bounds(2) [of "length (de_name e)" True] by (simp add: entsize_eq)
    then show "holds_entry d x" using c x q eq by (auto simp: holds_entry_def qe)
  qed
qed

lemma dirblk_header:
  assumes "wf_sb sb" and c: "puts ([(0, u32_bytes magic)] @ ws @ stamp_header sb ino @ [(8, u64_bytes at)]) b = Ok c"
    and d: "stamp c 4 = Ok d" and "64 \<le> length b" and "magic < 2 ^ 32" and "ino < 2 ^ 64"
    and ws: "\<forall>w \<in> set ws. 48 \<le> fst w"
  shows "rd32 d 0 = magic" "rd64 d 40 = ino" "verify d 4" "length d = length b"
proof -
  have uuid: "length (sb_meta_uuid sb) = 16" by (rule wf_sbD(18) [OF assms(1)])
  have out: "field ws i n acc = acc" if "i + n \<le> 48" for i n and acc :: "byte list option"
    by (rule field_outside) (use ws that in \<open>auto simp: list_all_iff\<close>)
  have "seg d 0 4 = u32_bytes magic" "seg d 40 8 = u64_bytes ino"
    by (rule crc.seal_field [OF c d]; use assms(4) uuid in \<open>simp add: field_append out stamp_header_def\<close>)+
  then show "rd32 d 0 = magic" "rd64 d 40 = ino" using assms(5,6) by (simp_all add: be_widths)
  show "verify d 4" by (rule crc.seal_check [OF d])
  show "length d = length b" using crc.seal_length [OF d] puts_length [OF c] by simp
qed

lemma fresh_puts:
  assumes "map_ok f (puts ws b) = Ok blk" and "seal_block at blk = Ok d"
    and "\<And>buf. db_data (f buf) = buf \<and> db_crc_off (f buf) = 4 \<and> db_blkno_off (f buf) = 8"
  obtains c where "puts (ws @ [(8, u64_bytes (drop_bit 9 at))]) b = Ok c" and "stamp c 4 = Ok d"
  using assms by (auto simp: res_simps seal_block_def put64_def puts_append)

text \<open>
  Both kinds of block: entries from byte 64, a free record up to \<open>e\<close>, then \<open>R\<close> (nothing, or the
  hash index and the tail).
\<close>

lemma entries_block:
  assumes sb: "wf_sb sb" and ino: "ino < 2 ^ 64" "magic < 2 ^ 32" and dbs: "512 \<le> dbs"
    and e: "e \<le> dbs" "e mod 8 = 0" "e - (64 + used es) < 65536" "64 + used es \<le> e"
    and es: "\<forall>x \<in> set es. ent_ok x" and R: "\<forall>w \<in> set R. e \<le> fst w"
    and b: "map_ok f (puts ([(0, u32_bytes magic)] @ concat (map put_entry (place_from 64 es)) @
              put_free (64 + used es) (e - (64 + used es)) @ R @ stamp_header sb ino) (replicate dbs 0)) = Ok blk"
    and d: "seal_block at blk = Ok d"
    and f: "\<And>buf. db_data (f buf) = buf \<and> db_crc_off (f buf) = 4 \<and> db_blkno_off (f buf) = 8"
  shows "rd32 d 0 = magic" "rd64 d 40 = ino" "verify d 4" "length d = dbs"
    "data_entries True d e 64 out = Ok (out @ map raw_of es)"
    "\<And>i n ys. e \<le> i \<Longrightarrow> i + n \<le> dbs \<Longrightarrow> (\<And>acc. field R i n acc = Some ys) \<Longrightarrow> seg d i n = ys"
proof -
  let ?E = "concat (map put_entry (place_from 64 es))" and ?p = "64 + used es"
  let ?F = "put_free ?p (e - ?p)" and ?T = "stamp_header sb ino @ [(8, u64_bytes (drop_bit 9 at))]"
  have uuid: "length (sb_meta_uuid sb) = 16" by (rule wf_sbD(18) [OF sb])
  obtain c where "puts (([(0, u32_bytes magic)] @ ?E @ ?F @ R @ stamp_header sb ino) @ [(8, u64_bytes (drop_bit 9 at))]) (replicate dbs 0) = Ok c"
    and s: "stamp c 4 = Ok d"
    by (rule fresh_puts [OF b d f])
  then have c: "puts ([(0, u32_bytes magic)] @ ?E @ ?F @ R @ ?T) (replicate dbs 0) = Ok c"
    "puts ([(0, u32_bytes magic)] @ (?E @ ?F @ R) @ ?T) (replicate dbs 0) = Ok c"
    "puts (([(0, u32_bytes magic)] @ ?E) @ ?F @ (R @ ?T)) (replicate dbs 0) = Ok c"
    "puts (([(0, u32_bytes magic)] @ ?E @ ?F) @ R @ ?T) (replicate dbs 0) = Ok c"
    by (simp_all only: append_assoc)
  have lc: "length c = dbs" using puts_length [OF c(1)] by simp
  have m: "(e - ?p) mod 8 = 0" using used_mod [OF es] e(2,4) by presburger
  then have gap: "?p = e \<or> ?p + 8 \<le> e" using e(4) by presburger
  have F: "\<forall>w \<in> set ?F. 48 \<le> fst w \<and> (fst w + length (snd w) \<le> 64 \<or> ?p \<le> fst w)"
    using gap by (auto simp: put_free_def)
  have T: "fst w + length (snd w) \<le> 64" if "w \<in> set ?T" for w using that uuid by (auto simp: stamp_header_def)
  have E: "\<forall>w \<in> set ?E. 48 \<le> fst w"
  proof
    fix w assume "w \<in> set ?E"
    then obtain q x where q: "(q, x) \<in> set (place_from 64 es)" "w \<in> set (put_entry (q, x))" by auto
    obtain xs ys where split: "place_from 64 es = xs @ (q, x) # ys" using q(1) by (meson split_list)
    have "x \<in> set es" using map_snd_place [of 64 es] q(1) by (metis image_eqI list.set_map snd_conv)
    then show "48 \<le> fst w" using put_entry_in [OF q(2)] place_from_split [OF split] es by (auto simp: ent_ok_def)
  qed
  have low: "\<forall>w \<in> set (?E @ ?F @ R). 48 \<le> fst w" using E F R e(4) by fastforce
  show "rd32 d 0 = magic" "rd64 d 40 = ino" "verify d 4" and ld: "length d = dbs"
    using dirblk_header [OF sb c(2) s _ ino(2,1) low] dbs by simp_all
  have "\<forall>w \<in> set (?F @ R @ ?T). fst w + length (snd w) \<le> 64 \<or> 64 + used es \<le> fst w"
  proof
    fix w assume "w \<in> set (?F @ R @ ?T)"
    then consider "w \<in> set ?F" | "w \<in> set R" | "w \<in> set ?T" by (metis UnE set_append)
    then show "fst w + length (snd w) \<le> 64 \<or> 64 + used es \<le> fst w"
    proof cases
      case 2
      then have "e \<le> fst w" using R by blast
      then show ?thesis using e(4) by simp
    qed (use F T in blast)+
  qed
  then have "\<forall>x \<in> set (place_from 64 es). holds_entry c x"
    using puts_holds_entries [OF c(1) _ _ es] e(1,4) by simp
  then have hd: "\<forall>x \<in> set (place_from 64 es). holds_entry d x"
    by (intro holds_seal(1) [OF s lc _ _ es]) (use e(1,4) in simp_all)
  have "\<forall>w \<in> set (R @ ?T). fst w + length (snd w) \<le> ?p \<or> e \<le> fst w"
  proof
    fix w assume "w \<in> set (R @ ?T)"
    then consider "w \<in> set R" | "w \<in> set ?T" by (metis UnE set_append)
    then show "fst w + length (snd w) \<le> ?p \<or> e \<le> fst w"
    proof cases
      case 2
      then show ?thesis using T [OF 2] by simp
    qed (use R in blast)
  qed
  then have "holds_free c ?p e" using puts_holds_free [OF c(3) _ gap m] e(1) by simp
  then have hf: "holds_free d ?p e" using holds_seal(2) [OF s lc _ _ e(1)] by simp
  show "data_entries True d e 64 out = Ok (out @ map raw_of es)"
    using data_entries_holds [OF hd es e(4), of out] data_entries_holds_free [OF hf _ e(3), of "out @ map raw_of es"] ld e(1) by simp
  fix i n ys assume i: "e \<le> i" "i + n \<le> dbs" and R': "\<And>acc. field R i n acc = Some ys"
  have "list_all (\<lambda>w. fst w + length (snd w) \<le> i \<or> i + n \<le> fst w) ?T"
    unfolding list_all_iff using T i(1) e(4) by fastforce
  then have T': "field ?T i n acc = acc" for acc by (rule field_outside)
  show "seg d i n = ys"
  proof (rule crc.seal_field [OF c(4) s])
    show "field (([(0, u32_bytes magic)] @ ?E @ ?F) @ R @ ?T) i n (Some (seg (replicate dbs 0) i n)) = Some ys"
      by (simp only: field_append [of "[(0, u32_bytes magic)] @ ?E @ ?F" "R @ ?T"] field_append [of R ?T] T' R')
  qed (use i e(4) in simp_all)
qed

text \<open>The two kinds.\<close>

abbreviation dir_sb :: "superblock \<Rightarrow> nat \<Rightarrow> bool" where
  "dir_sb sb dbs \<equiv> wf_sb sb \<and> is_v5 sb \<and> has_ftype sb \<and> 512 \<le> dbs \<and> dbs \<le> 65536 \<and> dbs mod 8 = 0"

lemma data_block_read:
  assumes sb: "dir_sb sb dbs" and ino: "ino < 2 ^ 64" and es: "\<forall>e \<in> set es. ent_ok e" and fit: "64 + used es \<le> dbs"
    and b: "data_block sb ino dbs fsb_per (db, place_from 64 es) = Ok b" and d: "seal_block at b = Ok d"
  shows "parse_data_block sb d ino out = Ok (out @ map raw_of es)"
proof -
  have b': "map_ok (\<lambda>buf. \<lparr>db_lblk = db * fsb_per, db_data = buf, db_crc_off = 4, db_blkno_off = 8\<rparr>)
      (puts ([(0, u32_bytes XDD3)] @ concat (map put_entry (place_from 64 es)) @
         put_free (64 + used es) (dbs - (64 + used es)) @ [] @ stamp_header sb ino) (replicate dbs 0)) = Ok b"
    using b by (simp only: data_block_def fill_end_place Let_def prod.case append_Nil)
  note r = entries_block [OF _ ino _ _ order_refl _ _ fit es _ b' d]
  have "dbs - (64 + used es) < 65536" using sb by linarith
  then have "rd32 d 0 = XDD3" "rd64 d 40 = ino" "verify d 4" "length d = dbs"
    "data_entries True d dbs 64 out = Ok (out @ map raw_of es)"
    using r(1-5) sb by simp_all
  then show ?thesis using parse_data_block_v5(1) [of sb d ino out] sb by simp
qed

lemma put_pairs_in:
  assumes "w \<in> set (put_pairs at ents)"
  shows "at \<le> fst w \<and> fst w + length (snd w) \<le> at + length ents * 8"
proof -
  obtain i h a where i: "i < length ents" "w = (at + i * 8, u32_bytes h) \<or> w = (at + i * 8 + 4, u32_bytes a)"
    using assms by (auto simp: put_pairs_def in_set_enumerate_eq)
  from slot_in [OF i(1), of 8] i(2) show ?thesis by auto
qed

lemma length_place [simp]: "length (place_from p es) = length es"
  by (induction es arbitrary: p) simp_all

lemma single_block_read:
  assumes sb: "dir_sb sb dbs" and ino: "ino < 2 ^ 64" and es: "\<forall>e \<in> set es. ent_ok e"
    and fit: "64 + used es + length es * 8 + 8 \<le> dbs"
    and b: "single_block sb ino dbs es = Ok b" and d: "seal_block at b = Ok d"
  shows "parse_data_block sb d ino out = Ok (out @ map raw_of es)"
proof -
  let ?e = "dbs - 8 - length es * 8"
  let ?leaf = "sort (map (index_entry 0) (place_from 64 es))"
  let ?tail = "[(dbs - 8, u32_bytes (length es)), (dbs - 4, u32_bytes 0)]"
  have b': "map_ok (\<lambda>buf. \<lparr>db_lblk = 0, db_data = buf, db_crc_off = 4, db_blkno_off = 8\<rparr>)
      (puts ([(0, u32_bytes XDB3)] @ concat (map put_entry (place_from 64 es)) @
         put_free (64 + used es) (?e - (64 + used es)) @ (put_pairs ?e ?leaf @ ?tail) @ stamp_header sb ino) (replicate dbs 0)) = Ok b"
    using b by (simp only: single_block_def fill_end_place Let_def append_assoc)
  have s: "512 \<le> dbs" "dbs \<le> 65536" "dbs mod 8 = 0" using sb by simp_all
  have e: "?e \<le> dbs" "?e mod 8 = 0" "?e - (64 + used es) < 65536" "64 + used es \<le> ?e"
    using s fit by presburger+
  have P: "?e \<le> fst w \<and> fst w + length (snd w) \<le> dbs - 8" if "w \<in> set (put_pairs ?e ?leaf)" for w
    using put_pairs_in [OF that] fit by simp
  have R: "\<forall>w \<in> set (put_pairs ?e ?leaf @ ?tail). ?e \<le> fst w" using P by auto
  have "field (put_pairs ?e ?leaf) (dbs - 8) 4 acc = acc" for acc
    by (rule field_outside) (use P in \<open>auto simp: list_all_iff\<close>)
  then have tail: "field (put_pairs ?e ?leaf @ ?tail) (dbs - 8) 4 acc = Some (u32_bytes (length es))" for acc
    using s by (simp add: field_append) linarith
  note r = entries_block [OF _ ino _ _ e es R b' d]
  have h: "rd32 d 0 = XDB3" "rd64 d 40 = ino" "verify d 4" "length d = dbs"
    "data_entries True d ?e 64 out = Ok (out @ map raw_of es)" "seg d (dbs - 8) 4 = u32_bytes (length es)"
    using r(1-5) r(6) [OF _ _ _ _ _ _ tail] sb by simp_all
  have n: "length es < 4294967296" using fit sb by linarith
  then have "rd32 d (length d - 8) = length es" using h(4,6) by (simp add: be_widths)
  then show ?thesis
    using parse_data_block_v5(2) [of sb d ino out] sb h fit by (simp add: add.commute)
qed

section \<open>Whole directories\<close>

definition all_ents :: "nat \<Rightarrow> nat \<Rightarrow> dir_ent list \<Rightarrow> dir_ent list" where
  "all_ents ino parent names =
     [\<lparr>de_name = [0x2e], de_ino = ino, de_ftype = 2\<rparr>, \<lparr>de_name = [0x2e, 0x2e], de_ino = parent, de_ftype = 2\<rparr>] @ names"

text \<open>Blocks as they are on the device, for some addresses, and the names in them.\<close>

definition sealed :: "dir_block list \<Rightarrow> byte list list \<Rightarrow> bool" where
  "sealed blocks bufs \<longleftrightarrow> list_all2 (\<lambda>b d. \<exists>at. seal_block at b = Ok d) blocks bufs"

definition read_blocks :: "superblock \<Rightarrow> nat \<Rightarrow> byte list list \<Rightarrow> raw_entry list \<Rightarrow> raw_entry list res" where
  "read_blocks sb ino bufs out = fold_res (\<lambda>d. parse_data_block sb d ino) bufs out"

lemma data_runs_parts:
  "data_runs dbs es = Some runs \<Longrightarrow> 64 \<le> dbs \<Longrightarrow>
   es = concat (map (map snd) runs) \<and> (\<forall>r \<in> set runs. r = place_from 64 (map snd r) \<and> 64 + used (map snd r) \<le> dbs)"
proof (induction dbs es arbitrary: runs rule: data_runs.induct)
  case (1 dbs es)
  show ?case
  proof (cases "es = []")
    case True
    then show ?thesis using 1 by (simp add: data_runs.simps)
  next
    case False
    obtain placed rest where f: "fill dbs 64 es = (placed, rest)" by fastforce
    obtain rs where rs: "data_runs dbs rest = Some rs" "runs = placed # rs" "placed \<noteq> []"
      using "1.prems"(1) False f by (subst (asm) data_runs.simps) (auto split: if_splits)
    have ih: "rest = concat (map (map snd) rs) \<and> (\<forall>r \<in> set rs. r = place_from 64 (map snd r) \<and> 64 + used (map snd r) \<le> dbs)"
      using "1.IH" [OF False f [symmetric] refl rs(3) rs(1) "1.prems"(2)] by simp
    show ?thesis using fill_place [OF f "1.prems"(2)] ih rs(2) by auto
  qed
qed

lemma data_blocks_read:
  assumes sb: "dir_sb sb dbs" and ino: "ino < 2 ^ 64"
    and "map_res (data_block sb ino dbs fsb_per) (enumerate k runs) = Ok blocks" and "sealed blocks bufs"
    and "\<forall>r \<in> set runs. r = place_from 64 (map snd r) \<and> 64 + used (map snd r) \<le> dbs"
    and "\<forall>r \<in> set runs. \<forall>e \<in> set (map snd r). ent_ok e"
  shows "read_blocks sb ino bufs out = Ok (out @ map raw_of (concat (map (map snd) runs)))"
  using assms(3-)
proof (induction runs arbitrary: k blocks bufs out)
  case Nil
  then show ?case by (simp add: read_blocks_def sealed_def)
next
  case (Cons r runs)
  obtain b bs where b: "data_block sb ino dbs fsb_per (k, r) = Ok b" "blocks = b # bs"
    "map_res (data_block sb ino dbs fsb_per) (enumerate (Suc k) runs) = Ok bs"
    using Cons.prems(1) by (auto simp: res_simps)
  obtain d ds at where d: "bufs = d # ds" "seal_block at b = Ok d" "sealed bs ds"
    using Cons.prems(2) b(2) by (auto simp: sealed_def list_all2_Cons1)
  have r: "r = place_from 64 (map snd r)" "64 + used (map snd r) \<le> dbs" "\<forall>e \<in> set (map snd r). ent_ok e"
    using Cons.prems(3,4) by auto
  have "parse_data_block sb d ino out = Ok (out @ map raw_of (map snd r))"
    by (rule data_block_read [OF sb ino r(3,2) _ d(2)]) (use b(1) r(1) in simp)
  then show ?case
    using Cons.IH [OF b(3) d(3), of "out @ map raw_of (map snd r)"] Cons.prems(3,4) d(1)
    by (simp add: read_blocks_def comp_def)
qed

lemma data_block_lblk: "data_block sb ino dbs fsb_per (k, r) = Ok b \<Longrightarrow> db_lblk b = k * fsb_per"
  by (auto simp: res_simps data_block_def Let_def)

lemma data_blocks_lblk:
  "map_res (data_block sb ino dbs fsb_per) (enumerate k runs) = Ok blocks \<Longrightarrow>
   map db_lblk blocks = map (\<lambda>i. i * fsb_per) [k..<k + length runs]"
proof (induction runs arbitrary: k blocks)
  case (Cons r runs)
  obtain b bs where b: "data_block sb ino dbs fsb_per (k, r) = Ok b" "blocks = b # bs"
    "map_res (data_block sb ino dbs fsb_per) (enumerate (Suc k) runs) = Ok bs"
    using Cons.prems by (auto simp: res_simps)
  have "[k..<k + length (r # runs)] = k # [Suc k..<Suc k + length runs]" using upt_conv_Cons [of k "k + length (r # runs)"] by simp
  then show ?case using Cons.IH [OF b(3)] data_block_lblk [OF b(1)] b(2) by simp
qed simp

text \<open>The index blocks lie above the data blocks.\<close>

lemma map_res_in: "map_res f xs = Ok ys \<Longrightarrow> y \<in> set ys \<Longrightarrow> \<exists>x \<in> set xs. f x = Ok y"
  by (induction xs arbitrary: ys) (auto simp: res_simps)

lemma da_level_lblk:
  assumes "da_level sb ino dbs level addrs items = Ok built" and "x \<in> set built"
  shows "db_lblk (snd x) \<in> set addrs"
proof -
  obtain i part where "(i, part) \<in> set (enumerate 0 (parts (spread (length items) (length addrs)) items))"
    and "db_lblk (snd x) = addrs ! i"
    using map_res_in [OF assms(1) [unfolded da_level_def] assms(2)] by (auto simp: da_block_def res_simps Let_def)
  then show ?thesis by (auto simp: in_set_enumerate_eq)
qed

lemma da_levels_lblk:
  "da_levels sb ino dbs level sizes addrs items = Ok blocks \<Longrightarrow> b \<in> set blocks \<Longrightarrow> db_lblk b \<in> set addrs"
proof (induction sizes arbitrary: level addrs items blocks)
  case (Cons n sizes)
  obtain built bs where l: "da_level sb ino dbs level (take n addrs) items = Ok built"
    "da_levels sb ino dbs (level + 1) sizes (drop n addrs) (map fst built) = Ok bs" "blocks = map snd built @ bs"
    using Cons.prems(1) by (auto simp: res_simps)
  then show ?case
    using Cons.IH [OF l(2)] Cons.prems(2) da_level_lblk [OF l(1)] by (auto dest: in_set_takeD in_set_dropD)
qed simp

lemma node_form_lblk:
  assumes "node_form sb ino dbs fsb_per leaf_first free_first leaf bests = Ok blocks" and "leaf_first \<le> free_first"
    and "b \<in> set blocks"
  shows "leaf_first \<le> db_lblk b"
proof -
  obtain sizes index frees where n: "blocks = index @ frees"
    and i: "da_levels sb ino dbs 0 sizes (map (\<lambda>i. leaf_first + i * fsb_per) [1..<sum_list sizes] @ [leaf_first]) leaf = Ok index"
    and f: "map_res (free_block sb ino dbs free_first fsb_per) (enumerate 0 (chunks ((dbs - 64) div 2) bests)) = Ok frees"
    using assms(1) by (auto simp: node_form_def Let_def res_simps split: if_splits)
  consider "b \<in> set index" | "b \<in> set frees" using assms(3) n by auto
  then show ?thesis
  proof cases
    case 1
    then show ?thesis using da_levels_lblk [OF i 1] by auto
  next
    case 2
    then show ?thesis using map_res_in [OF f 2] assms(2) by (auto simp: free_block_def Let_def res_simps)
  qed
qed

lemma leaf_block_lblk: "leaf_block sb ino dbs leaf_first leaf bests = Ok b \<Longrightarrow> db_lblk b = leaf_first"
  by (auto simp: leaf_block_def Let_def res_simps)

text \<open>The data blocks of a layout are those below the index, in order.\<close>

lemma filter_data:
  assumes "map db_lblk blocks = map (\<lambda>i. i * fsb_per) [0..<n]" and "n * fsb_per \<le> limit" and "0 < fsb_per"
    and "\<forall>b \<in> set idx. limit \<le> db_lblk b"
  shows "filter (\<lambda>b. db_lblk b < limit) (blocks @ idx) = blocks"
    and "filter (\<lambda>b. db_lblk b < limit) (sort_key db_lblk (blocks @ idx)) = blocks"
proof -
  have "db_lblk b < limit" if "b \<in> set blocks" for b
  proof -
    have "db_lblk b \<in> set (map (\<lambda>i. i * fsb_per) [0..<n])" using that assms(1) by (metis image_eqI list.set_map)
    then obtain i where "i < n" "db_lblk b = i * fsb_per" by auto
    moreover have "i * fsb_per < n * fsb_per" using \<open>i < n\<close> assms(3) by simp
    ultimately show ?thesis using assms(2) by linarith
  qed
  then show f: "filter (\<lambda>b. db_lblk b < limit) (blocks @ idx) = blocks"
    using assms(4) by (auto simp: filter_id_conv filter_empty_conv not_less)
  have "sorted (map db_lblk blocks)"
    unfolding assms(1) by (auto simp: sorted_wrt_map sorted_wrt_iff_nth_less intro: mult_le_mono1)
  then show "filter (\<lambda>b. db_lblk b < limit) (sort_key db_lblk (blocks @ idx)) = blocks"
    by (simp only: filter_sort f sort_key_id_if_sorted)
qed

text \<open>A superblock this writer writes directories for: version 5, types in names, a sane directory block.\<close>

definition dir_ready :: "superblock \<Rightarrow> bool" where
  "dir_ready sb \<longleftrightarrow> wf_sb sb \<and> is_v5 sb \<and> has_ftype sb \<and> sb_block_size sb * 2 ^ sb_dirblk_log sb \<le> 65536"

lemma dir_ready_sb:
  assumes "dir_ready sb"
  shows "dir_sb sb (sb_block_size sb * 2 ^ sb_dirblk_log sb)"
    "dir_block_size sb = Ok (sb_block_size sb * 2 ^ sb_dirblk_log sb)" "shl_w 64 1 (sb_dirblk_log sb) = Ok (2 ^ sb_dirblk_log sb)"
proof -
  let ?k = "sb_dirblk_log sb" and ?bs = "sb_block_size sb"
  have sb: "wf_sb sb" and le: "?bs * 2 ^ ?k \<le> 65536" using assms by (simp_all add: dir_ready_def)
  have bs: "512 \<le> ?bs" "?bs = 2 ^ sb_block_log sb" "9 \<le> sb_block_log sb" using wf_sbD(1,2,4) [OF sb] by simp_all
  have "2 ^ (9 + ?k) \<le> ?bs * (2 :: nat) ^ ?k" unfolding power_add using bs(1) by (intro mult_le_mono1) simp
  then have "(2 :: nat) ^ (9 + ?k) \<le> 2 ^ 16" using le by simp
  then have k: "?k \<le> 7" using power_le_imp_le_exp [of "2 :: nat" "9 + ?k" 16] by simp
  have "2 ^ 9 dvd ?bs" unfolding bs(2) by (rule le_imp_power_dvd [OF bs(3)])
  then have "8 dvd ?bs" by (rule dvd_trans [rotated]) simp
  moreover have "512 \<le> ?bs * 2 ^ ?k" using bs(1) by (metis le_trans mult.right_neutral mult_le_mono2 one_le_numeral one_le_power)
  ultimately show "dir_sb sb (?bs * 2 ^ ?k)" using assms by (simp add: dir_ready_def)
  show "dir_block_size sb = Ok (?bs * 2 ^ ?k)" using k le by (simp add: dir_block_size_def shl_w_def)
  have "(2 :: nat) ^ ?k < 2 ^ 64" using k by (intro power_strict_increasing) simp_all
  then show "shl_w 64 1 ?k = Ok (2 ^ ?k)" using k by (simp add: shl_w_def)
qed

lemma all_ents_ok:
  "\<forall>e \<in> set names. ent_ok e \<Longrightarrow> ino < 2 ^ 63 \<Longrightarrow> parent < 2 ^ 63 \<Longrightarrow> \<forall>e \<in> set (all_ents ino parent names). ent_ok e"
  by (auto simp: all_ents_def ent_ok_def)

lemma layout_read:
  assumes sb: "dir_ready sb" and ino: "ino < 2 ^ 63" "parent < 2 ^ 63" and es: "\<forall>e \<in> set names. ent_ok e"
    and l: "layout sb ino parent names fork_size = Ok (Blocks sz blocks)" and sz: "sz \<le> LEAF_OFFSET"
    and s: "sealed (filter (\<lambda>b. db_lblk b < LEAF_OFFSET div 2 ^ sb_block_log sb) blocks) bufs"
  shows "read_blocks sb ino bufs [] = Ok (map raw_of (all_ents ino parent names))"
proof -
  let ?dbs = "sb_block_size sb * 2 ^ sb_dirblk_log sb" and ?per = "2 ^ sb_dirblk_log sb :: nat"
  let ?leaf = "LEAF_OFFSET div 2 ^ sb_block_log sb" and ?free = "FREE_OFFSET div 2 ^ sb_block_log sb"
  let ?all = "all_ents ino parent names"
  note d = dir_ready_sb [OF sb]
  have ino': "ino < 2 ^ 64" using ino(1) by simp
  have ok: "\<forall>e \<in> set ?all. ent_ok e" by (rule all_ents_ok [OF es ino])
  have log: "sb_block_log sb \<le> 16" "sb_block_size sb = 2 ^ sb_block_log sb" using d(1) wf_sbD(1,3) by blast+
  have "(2 :: nat) ^ sb_block_log sb \<le> 2 ^ 16" using log(1) by (intro power_increasing) simp_all
  then have pos: "0 < ?leaf" by (simp add: div_greater_zero_iff)
  have none: "shortform parent names fork_size = None" using l by (auto simp: layout_def split: option.splits)
  show ?thesis
  proof (cases "64 + used ?all + length ?all * 8 + 8 \<le> ?dbs")
    case True
    then obtain b where b: "single_block sb ino ?dbs ?all = Ok b" "blocks = [b]"
      using l none d(2,3) by (auto simp: layout_def all_ents_def Let_def res_simps)
    have "db_lblk b = 0" using b(1) by (auto simp: single_block_def Let_def res_simps)
    then obtain buf at where "bufs = [buf]" "seal_block at b = Ok buf"
      using s b(2) pos by (auto simp: sealed_def list_all2_Cons1)
    then show ?thesis using single_block_read [OF d(1) ino' ok True b(1), of at buf "[]"] by (simp add: read_blocks_def)
  next
    case False
    have "and_then (returns (data_runs ?dbs ?all)) (\<lambda>runs. and_then (map_res (data_block sb ino ?dbs ?per) (enumerate 0 runs)) (\<lambda>bs.
        if 64 + length (dir_leaf ?dbs runs) * 8 + length runs * 2 + 4 \<le> ?dbs
        then map_ok (\<lambda>b. Blocks (length runs * ?dbs) (bs @ [b])) (leaf_block sb ino ?dbs ?leaf (dir_leaf ?dbs runs) (map (best_free ?dbs) runs))
        else map_ok (\<lambda>index. Blocks (length runs * ?dbs) (sort_key db_lblk (bs @ index)))
               (node_form sb ino ?dbs ?per ?leaf ?free (dir_leaf ?dbs runs) (map (best_free ?dbs) runs)))) = Ok (Blocks sz blocks)"
      using l none d(2,3) False by (simp only: layout_def all_ents_def Let_def option.case and_then.simps if_False)
    then obtain runs bs leaf bests where r: "data_runs ?dbs ?all = Some runs"
      and bs: "map_res (data_block sb ino ?dbs ?per) (enumerate 0 runs) = Ok bs"
      and rest: "map_ok (\<lambda>b. Blocks (length runs * ?dbs) (bs @ [b])) (leaf_block sb ino ?dbs ?leaf leaf bests) = Ok (Blocks sz blocks) \<or>
        map_ok (\<lambda>index. Blocks (length runs * ?dbs) (sort_key db_lblk (bs @ index)))
          (node_form sb ino ?dbs ?per ?leaf ?free leaf bests) = Ok (Blocks sz blocks)"
      by (auto simp: and_then_eq_Ok returns_def split: option.splits if_splits)
    have n: "sz = length runs * ?dbs"
      and idx: "(\<exists>b. leaf_block sb ino ?dbs ?leaf leaf bests = Ok b \<and> blocks = bs @ [b]) \<or>
        (\<exists>index. node_form sb ino ?dbs ?per ?leaf ?free leaf bests = Ok index \<and> blocks = sort_key db_lblk (bs @ index))"
      using rest by (auto simp: map_ok_eq_Ok)
    note p = data_runs_parts [OF r]
    have lim: "length runs * ?per \<le> ?leaf"
      using sz n log(2) by (simp add: less_eq_div_iff_mult_less_eq mult.commute mult.left_commute)
    have "?leaf \<le> ?free" by (intro div_le_mono) simp
    note f = filter_data [OF data_blocks_lblk [OF bs, simplified add_0] lim]
    from idx have "filter (\<lambda>b. db_lblk b < ?leaf) blocks = bs"
    proof
      assume "\<exists>b. leaf_block sb ino ?dbs ?leaf leaf bests = Ok b \<and> blocks = bs @ [b]"
      then obtain b where "leaf_block sb ino ?dbs ?leaf leaf bests = Ok b" "blocks = bs @ [b]" by blast
      then show ?thesis using f(1) [of "[b]"] leaf_block_lblk by simp
    next
      assume "\<exists>index. node_form sb ino ?dbs ?per ?leaf ?free leaf bests = Ok index \<and> blocks = sort_key db_lblk (bs @ index)"
      then obtain index where x: "node_form sb ino ?dbs ?per ?leaf ?free leaf bests = Ok index" "blocks = sort_key db_lblk (bs @ index)"
        by blast
      show ?thesis using f(2) [of index] node_form_lblk [OF x(1) \<open>?leaf \<le> ?free\<close>] x(2) by simp
    qed
    then have "sealed bs bufs" using s by simp
    moreover have "\<forall>r \<in> set runs. \<forall>e \<in> set (map snd r). ent_ok e" using p d(1) ok by force
    ultimately show ?thesis using data_blocks_read [OF d(1) ino' bs, of bufs "[]"] p d(1) by simp
  qed
qed

section \<open>Laying out always succeeds\<close>

lemma entsize_le: "length (de_name e) < 256 \<Longrightarrow> entsize (length (de_name e)) \<le> 272"
  using entry_len_bounds(3,4) [of "length (de_name e)" True] unfolding entsize_eq by (simp add: entry_len_eq)

lemma puts_ok: "(\<And>w. w \<in> set ws \<Longrightarrow> fst w + length (snd w) \<le> n) \<Longrightarrow> \<exists>c. map_ok f (puts ws (replicate n 0)) = Ok c"
  using puts_total [of "replicate n 0" ws] by (auto simp: list_all_iff)

lemma put_entries_in:
  assumes "\<forall>e \<in> set es. ent_ok e" and "w \<in> set (concat (map put_entry (place_from p es)))"
  shows "fst w + length (snd w) \<le> p + used es"
proof -
  obtain q e where q: "(q, e) \<in> set (place_from p es)" "w \<in> set (put_entry (q, e))" using assms(2) by auto
  obtain xs ys where split: "place_from p es = xs @ (q, e) # ys" using q(1) by (meson split_list)
  have "e \<in> set es" using map_snd_place [of p es] q(1) by (metis image_eqI list.set_map snd_conv)
  then show ?thesis using put_entry_in [OF q(2)] place_from_split [OF split] assms(1) by (auto simp: ent_ok_def)
qed

lemma put_free_in: "w \<in> set (put_free p (e - p)) \<Longrightarrow> p + 8 \<le> e \<or> e \<le> p \<Longrightarrow> 52 \<le> e \<Longrightarrow> fst w + length (snd w) \<le> e"
  by (auto simp: put_free_def split: if_splits)

lemma stamp_header_in: "wf_sb sb \<Longrightarrow> w \<in> set (stamp_header sb ino) \<Longrightarrow> fst w + length (snd w) \<le> 64"
  using wf_sbD(18) [of sb] by (auto simp: stamp_header_def)

lemma da_info_in: "wf_sb sb \<Longrightarrow> w \<in> set (da_info sb ino magic forw back) \<Longrightarrow> fst w + length (snd w) \<le> 64"
  using wf_sbD(18) [of sb] by (auto simp: da_info_def)

lemma gap_8: "\<forall>e \<in> set es. ent_ok e \<Longrightarrow> e mod 8 = 0 \<Longrightarrow> 64 + used es + 8 \<le> e \<or> e \<le> 64 + used es"
  using used_mod [of es] by presburger

lemma single_block_total:
  assumes "dir_sb sb dbs" and es: "\<forall>e \<in> set es. ent_ok e" and "64 + used es + length es * 8 + 8 \<le> dbs"
  shows "\<exists>b. single_block sb ino dbs es = Ok b"
proof -
  let ?e = "dbs - 8 - length es * 8" and ?p = "64 + used es"
  have s: "512 \<le> dbs" "dbs mod 8 = 0" "wf_sb sb" using assms(1) by simp_all
  have e: "?e mod 8 = 0" "?e \<le> dbs" "?p \<le> ?e" using s assms(3) by presburger+
  show ?thesis
    unfolding single_block_def fill_end_place Let_def
  proof (rule puts_ok, unfold set_append Un_iff, elim disjE)
    fix w :: "nat \<times> byte list"
    show "fst w + length (snd w) \<le> dbs" if "w \<in> set (concat (map put_entry (place_from 64 es)))"
      using put_entries_in [OF es that] e by simp
    show "fst w + length (snd w) \<le> dbs" if "w \<in> set (put_free ?p (?e - ?p))"
      using put_free_in [OF that gap_8 [OF es e(1)]] e by simp
    show "fst w + length (snd w) \<le> dbs" if "w \<in> set (put_pairs ?e (sort (map (index_entry 0) (place_from 64 es))))"
      using put_pairs_in [OF that] assms(3) by simp linarith
    show "fst w + length (snd w) \<le> dbs" if "w \<in> set (stamp_header sb ino)"
      using stamp_header_in [OF s(3) that] s(1) by simp
  qed (use s(1) in auto)
qed

lemma data_block_total:
  assumes "dir_sb sb dbs" and es: "\<forall>e \<in> set es. ent_ok e" and "64 + used es \<le> dbs"
  shows "\<exists>b. data_block sb ino dbs fsb_per (k, place_from 64 es) = Ok b"
proof -
  have s: "512 \<le> dbs" "dbs mod 8 = 0" "wf_sb sb" using assms(1) by simp_all
  show ?thesis
    unfolding data_block_def fill_end_place Let_def prod.case
  proof (rule puts_ok, unfold set_append Un_iff, elim disjE)
    fix w :: "nat \<times> byte list"
    show "fst w + length (snd w) \<le> dbs" if "w \<in> set (concat (map put_entry (place_from 64 es)))"
      using put_entries_in [OF es that] assms(3) by simp
    show "fst w + length (snd w) \<le> dbs" if "w \<in> set (put_free (64 + used es) (dbs - (64 + used es)))"
      using put_free_in [OF that gap_8 [OF es s(2)]] s(1) by simp
    show "fst w + length (snd w) \<le> dbs" if "w \<in> set (stamp_header sb ino)"
      using stamp_header_in [OF s(3) that] s(1) by simp
  qed (use s(1) in auto)
qed

lemma data_runs_total:
  assumes "512 \<le> dbs" and "\<forall>e \<in> set es. ent_ok e"
  shows "\<exists>runs. data_runs dbs es = Some runs \<and> (es \<noteq> [] \<longrightarrow> runs \<noteq> []) \<and> [] \<notin> set runs"
  using assms(2)
proof (induction "length es" arbitrary: es rule: less_induct)
  case less
  show ?case
  proof (cases es)
    case Nil
    then show ?thesis by (simp add: data_runs.simps)
  next
    case (Cons e es')
    obtain placed rest where f: "fill dbs 64 es = (placed, rest)" by fastforce
    have "entsize (length (de_name e)) \<le> 272" using less.prems Cons by (intro entsize_le) (simp add: ent_ok_def)
    then have ne: "placed \<noteq> []" using f Cons assms(1) by (auto split: prod.splits)
    have es: "es = map snd placed @ rest" using fill_place [OF f] assms(1) by simp
    then have "length rest < length es" using ne by simp
    then obtain runs where "data_runs dbs rest = Some runs" "[] \<notin> set runs" using less.hyps [of rest] less.prems es by auto
    then show ?thesis using f ne Cons by (subst data_runs.simps) auto
  qed
qed

lemma da_level_total:
  assumes sb: "dir_sb sb dbs" and "0 < length addrs" and "length items \<le> length addrs * ((dbs - 64) div 8)"
  shows "\<exists>built. da_level sb ino dbs level addrs items = Ok built \<and> length built = length addrs"
proof -
  let ?cap = "(dbs - 64) div 8"
  have s: "512 \<le> dbs" "wf_sb sb" using sb by simp_all
  have "\<exists>y. da_block sb ino dbs level addrs x = Ok y \<and> True"
    if "x \<in> set (enumerate 0 (parts (spread (length items) (length addrs)) items))" for x
  proof -
    obtain i part where x: "x = (i, part)" by (cases x)
    have "part \<in> set (parts (spread (length items) (length addrs)) items)" using that x by (auto simp: in_set_enumerate_eq)
    then have "length part \<le> ?cap" by (rule spread_parts [OF assms(2,3)])
    then have "length part * 8 \<le> ?cap * 8" by (rule mult_le_mono1)
    also have "\<dots> \<le> dbs - 64" by (rule div_times_less_eq_dividend)
    finally have fit: "64 + length part * 8 \<le> dbs" using s(1) by simp
    have P: "fst w + length (snd w) \<le> dbs" if "w \<in> set (put_pairs 64 part)" for w
      using put_pairs_in [OF that] fit by simp
    have I: "fst w + length (snd w) \<le> dbs" if "w \<in> set (da_info sb ino magic forw bk)" for w magic forw bk
      using da_info_in [OF s(2) that] s(1) by simp
    show ?thesis
      unfolding x da_block_def prod.case Let_def simp_thms
      by (rule puts_ok) (use s(1) in \<open>auto simp: put_leaf_ents_def split: if_splits dest: P I\<close>)
  qed
  then obtain built where b: "da_level sb ino dbs level addrs items = Ok built"
    using map_res_all2 [of "enumerate 0 (parts (spread (length items) (length addrs)) items)" "da_block sb ino dbs level addrs" "\<lambda>_ _. True"]
    unfolding da_level_def by blast
  have "length built = length addrs" using map_res_length [OF b [unfolded da_level_def]] by simp
  with b show ?thesis by blast
qed

lemma da_levels_total:
  assumes sb: "dir_sb sb dbs" and "tower 1 ((dbs - 64) div 8) sizes" and "sum_list sizes \<le> length addrs"
    and "length items \<le> hd sizes * ((dbs - 64) div 8)"
  shows "\<exists>blocks. da_levels sb ino dbs level sizes addrs items = Ok blocks"
  using assms(2-)
proof (induction sizes arbitrary: level addrs items)
  case (Cons k ks)
  let ?cap = "(dbs - 64) div 8"
  have k: "0 < k" "length (take k addrs) = k" using Cons.prems(1,2) tower_pos [OF Cons.prems(1), of k] by auto
  obtain built where b: "da_level sb ino dbs level (take k addrs) items = Ok built" "length built = k"
    using da_level_total [OF sb, of "take k addrs" items ino level] k Cons.prems(3) by (auto simp del: length_take)
  show ?case
  proof (cases ks)
    case Nil
    then show ?thesis using b by simp
  next
    case ks: (Cons l ls)
    have "0 < ?cap" using sb by (simp add: div_greater_zero_iff) linarith
    then have "k \<le> l * ?cap" using Cons.prems(1) ks div_ceil_bounds(1) [of ?cap k] by simp
    then have "length (map fst built) \<le> hd ks * ?cap" using ks b(2) by simp
    moreover have "tower 1 ?cap ks" using Cons.prems(1) unfolding ks tower.simps by blast
    moreover have "sum_list ks \<le> length (drop k addrs)" using Cons.prems(2) by simp
    ultimately obtain blocks where "da_levels sb ino dbs (level + 1) ks (drop k addrs) (map fst built) = Ok blocks"
      using Cons.IH by blast
    then show ?thesis using b by simp
  qed
qed simp

lemma chunks_le: "0 < n \<Longrightarrow> c \<in> set (chunks n xs) \<Longrightarrow> length c \<le> n"
proof (induction n xs rule: chunks.induct)
  case (1 n xs)
  then show ?case by (subst (asm) (2) chunks.simps) (auto split: if_splits)
qed

lemma free_block_total:
  assumes sb: "dir_sb sb dbs" and "length chunk \<le> (dbs - 64) div 2"
  shows "\<exists>b. free_block sb ino dbs free_first fsb_per (i, chunk) = Ok b"
proof -
  have s: "512 \<le> dbs" "length (sb_meta_uuid sb) = 16" using sb wf_sbD(18) by simp_all
  have "length chunk * 2 \<le> (dbs - 64) div 2 * 2" by (rule mult_le_mono1 [OF assms(2)])
  also have "\<dots> \<le> dbs - 64" by (rule div_times_less_eq_dividend)
  finally have fit: "64 + length chunk * 2 \<le> dbs" using s(1) by simp
  show ?thesis
    unfolding free_block_def Let_def prod.case
  proof (rule puts_ok, unfold set_append Un_iff, elim disjE)
    fix w :: "nat \<times> byte list"
    assume "w \<in> set (map (\<lambda>(j, b). (64 + j * 2, u16_bytes b)) (enumerate 0 chunk))"
    then obtain j b where "j < length chunk" "w = (64 + j * 2, u16_bytes b)" by (auto simp: in_set_enumerate_eq)
    then show "fst w + length (snd w) \<le> dbs" using slot_in [of j "length chunk" 2] fit by simp
  qed (use s in auto)
qed

lemma leaf_block_total:
  assumes sb: "dir_sb sb dbs" and fit: "64 + length leaf * 8 + length bests * 2 + 4 \<le> dbs"
  shows "\<exists>b. leaf_block sb ino dbs leaf_first leaf bests = Ok b"
proof -
  have s: "512 \<le> dbs" "wf_sb sb" using sb by simp_all
  show ?thesis
    unfolding leaf_block_def Let_def
  proof (rule puts_ok, unfold set_append Un_iff, elim disjE)
    fix w :: "nat \<times> byte list"
    show "fst w + length (snd w) \<le> dbs" if "w \<in> set (da_info sb ino LEAF1 0 0)"
      using da_info_in [OF s(2) that] s(1) by simp
    show "fst w + length (snd w) \<le> dbs" if "w \<in> set (put_leaf_ents leaf)"
      using that put_pairs_in [of w 64 leaf] fit s(1) by (auto simp: put_leaf_ents_def)
    assume "w \<in> set (map (\<lambda>(i, b). (dbs - 4 - length bests * 2 + i * 2, u16_bytes b)) (enumerate 0 bests))"
    then obtain j b where "j < length bests" "w = (dbs - 4 - length bests * 2 + j * 2, u16_bytes b)"
      by (auto simp: in_set_enumerate_eq)
    then show "fst w + length (snd w) \<le> dbs" using slot_in [of j "length bests" 2] fit by simp
  qed (use s(1) in auto)
qed

lemma node_form_total:
  assumes sb: "dir_sb sb dbs" and "leaf \<noteq> []"
  shows "\<exists>blocks. node_form sb ino dbs fsb_per leaf_first free_first leaf bests = Ok blocks"
proof -
  let ?cap = "(dbs - 64) div 8" and ?n = "div_ceil (length leaf) ((dbs - 64) div 8)"
  have "56 \<le> ?cap" using sb div_le_mono [of 448 "dbs - 64" 8] by simp linarith
  then have cap: "2 \<le> ?cap" "0 < ?cap" by simp_all
  have "0 < ?n" using cap(2) assms(2) by (intro div_ceil_pos) simp_all
  then obtain ks where ks: "level_loop 1 ?cap ?n = Some (?n # ks)" "tower 1 ?cap (?n # ks)"
    using level_loop_returns [of 1 ?cap ?n] cap by auto
  let ?sum = "sum_list (?n # ks)"
  let ?order = "map (\<lambda>i. leaf_first + i * fsb_per) [1..<?sum] @ [leaf_first]"
  have "?sum \<le> length ?order" using \<open>0 < ?n\<close> by simp
  moreover have "length leaf \<le> hd (?n # ks) * ?cap" using div_ceil_bounds(1) [OF cap(2)] by simp
  ultimately obtain index where index: "da_levels sb ino dbs 0 (?n # ks) ?order leaf = Ok index"
    using da_levels_total [OF sb ks(2), of ?order leaf ino 0] by blast
  have "0 < (dbs - 64) div 2" using sb by (simp add: div_greater_zero_iff) linarith
  then have "\<exists>b. free_block sb ino dbs free_first fsb_per x = Ok b \<and> True"
    if "x \<in> set (enumerate 0 (chunks ((dbs - 64) div 2) bests))" for x
    using that free_block_total [OF sb, of "snd x" ino free_first fsb_per "fst x"]
      chunks_le [of "(dbs - 64) div 2" "snd x" bests] nth_mem [of "fst x" "chunks ((dbs - 64) div 2) bests"]
    by (simp add: in_set_enumerate_eq)
  then obtain frees where "map_res (free_block sb ino dbs free_first fsb_per) (enumerate 0 (chunks ((dbs - 64) div 2) bests)) = Ok frees"
    using map_res_all2 [of "enumerate 0 (chunks ((dbs - 64) div 2) bests)" "free_block sb ino dbs free_first fsb_per" "\<lambda>_ _. True"]
    by blast
  with index ks(1) cap show ?thesis
    by (simp add: node_form_def Let_def returns_def del: da_levels.simps)
qed

lemma layout_total:
  assumes sb: "dir_ready sb" and ino: "ino < 2 ^ 63" "parent < 2 ^ 63" and es: "\<forall>e \<in> set names. ent_ok e"
  shows "\<exists>l. layout sb ino parent names fork_size = Ok l"
proof (cases "shortform parent names fork_size")
  case (Some sf)
  then show ?thesis by (simp add: layout_def)
next
  case None
  let ?dbs = "sb_block_size sb * 2 ^ sb_dirblk_log sb" and ?per = "2 ^ sb_dirblk_log sb :: nat"
  let ?all = "all_ents ino parent names"
  let ?leaf = "LEAF_OFFSET div 2 ^ sb_block_log sb" and ?free = "FREE_OFFSET div 2 ^ sb_block_log sb"
  note d = dir_ready_sb [OF sb]
  have ok: "\<forall>e \<in> set ?all. ent_ok e" by (rule all_ents_ok [OF es ino])
  have eq: "layout sb ino parent names fork_size =
    (if 64 + used ?all + length ?all * 8 + 8 \<le> ?dbs then map_ok (\<lambda>b. Blocks ?dbs [b]) (single_block sb ino ?dbs ?all)
     else and_then (returns (data_runs ?dbs ?all)) (\<lambda>runs. and_then (map_res (data_block sb ino ?dbs ?per) (enumerate 0 runs)) (\<lambda>bs.
        if 64 + length (dir_leaf ?dbs runs) * 8 + length runs * 2 + 4 \<le> ?dbs
        then map_ok (\<lambda>b. Blocks (length runs * ?dbs) (bs @ [b])) (leaf_block sb ino ?dbs ?leaf (dir_leaf ?dbs runs) (map (best_free ?dbs) runs))
        else map_ok (\<lambda>index. Blocks (length runs * ?dbs) (sort_key db_lblk (bs @ index)))
               (node_form sb ino ?dbs ?per ?leaf ?free (dir_leaf ?dbs runs) (map (best_free ?dbs) runs)))))"
    using None d(2,3) by (simp only: layout_def all_ents_def Let_def option.case and_then.simps)
  show ?thesis
  proof (cases "64 + used ?all + length ?all * 8 + 8 \<le> ?dbs")
    case True
    then show ?thesis unfolding eq using single_block_total [OF d(1) ok True, of ino] by auto
  next
    case False
    obtain runs where r: "data_runs ?dbs ?all = Some runs" "runs \<noteq> []" "[] \<notin> set runs"
      using data_runs_total [OF _ ok, of ?dbs] d(1) by (auto simp: all_ents_def)
    note p = data_runs_parts [OF r(1)]
    have blk: "\<exists>b. data_block sb ino ?dbs ?per x = Ok b \<and> True" if x: "x \<in> set (enumerate 0 runs)" for x
    proof -
      have run: "snd x \<in> set runs" using x nth_mem [of "fst x" runs] by (simp add: in_set_enumerate_eq)
      then have "snd x = place_from 64 (map snd (snd x))" "64 + used (map snd (snd x)) \<le> ?dbs" "\<forall>e \<in> set (map snd (snd x)). ent_ok e"
        using p d(1) ok by force+
      then show ?thesis using data_block_total [OF d(1), of "map snd (snd x)" ino ?per "fst x"] by simp
    qed
    obtain bs where bs: "map_res (data_block sb ino ?dbs ?per) (enumerate 0 runs) = Ok bs"
      using map_res_all2 [of "enumerate 0 runs" "data_block sb ino ?dbs ?per" "\<lambda>_ _. True", OF blk] by blast
    have "length (dir_leaf ?dbs runs) = length (concat runs)"
    proof -
      have "length (concat (map (\<lambda>(db, placed). map (index_entry (db * n)) placed) (enumerate k runs))) = length (concat runs)" for k n
        by (induction runs arbitrary: k) simp_all
      then show ?thesis by (simp add: dir_leaf_def)
    qed
    moreover have "concat runs \<noteq> []"
    proof -
      have "hd runs \<in> set runs" using r(2) by (rule hd_in_set)
      then have "hd runs \<noteq> []" using r(3) by metis
      with \<open>hd runs \<in> set runs\<close> show ?thesis by (simp only: concat_eq_Nil_conv) metis
    qed
    ultimately have ne: "dir_leaf ?dbs runs \<noteq> []" by (simp only: length_0_conv [symmetric] simp_thms)
    have eq2: "layout sb ino parent names fork_size =
      (if 64 + length (dir_leaf ?dbs runs) * 8 + length runs * 2 + 4 \<le> ?dbs
       then map_ok (\<lambda>b. Blocks (length runs * ?dbs) (bs @ [b])) (leaf_block sb ino ?dbs ?leaf (dir_leaf ?dbs runs) (map (best_free ?dbs) runs))
       else map_ok (\<lambda>index. Blocks (length runs * ?dbs) (sort_key db_lblk (bs @ index)))
              (node_form sb ino ?dbs ?per ?leaf ?free (dir_leaf ?dbs runs) (map (best_free ?dbs) runs)))"
      unfolding eq by (simp only: False if_False r(1) returns_def option.case and_then.simps bs)
    show ?thesis
    proof (cases "64 + length (dir_leaf ?dbs runs) * 8 + length runs * 2 + 4 \<le> ?dbs")
      case True
      then obtain b where "leaf_block sb ino ?dbs ?leaf (dir_leaf ?dbs runs) (map (best_free ?dbs) runs) = Ok b"
        using leaf_block_total [OF d(1), of "dir_leaf ?dbs runs" "map (best_free ?dbs) runs" ino ?leaf] by auto
      with True show ?thesis unfolding eq2 by (simp only: if_True map_ok_simps) blast
    next
      case False
      obtain index where "node_form sb ino ?dbs ?per ?leaf ?free (dir_leaf ?dbs runs) (map (best_free ?dbs) runs) = Ok index"
        using node_form_total [OF d(1) ne, of ino ?per ?leaf ?free "map (best_free ?dbs) runs"] by blast
      with False show ?thesis unfolding eq2 by (simp only: if_False map_ok_simps) blast
    qed
  qed
qed

section \<open>Properties\<close>

text \<open>
  The name hash, four bytes at a time, is the byte-at-a-time hash: rotate left by seven,
  then exclusive-or the byte in.
\<close>

lemma hashname_bytewise: "hashname name = hash_ref name"
  by (simp add: hashname_def hash_ref_def hash_loop_ref)

text \<open>
  C5. A directory laid out is read back. For names of 1 to 255 bytes and inode numbers below
  \<open>2 ^ 63\<close>, laying out always succeeds; a short form fits the fork and parses to the parent
  and the names in order, whatever follows it in the inode; and the blocks of the other forms
  (one block, or data blocks under a leaf or a hash tree), those below the index, sealed with
  any addresses and read in order, give \<open>.\<close>, \<open>..\<close> and the names in order, as long as the
  data blocks stay below the offset of the index.
\<close>

theorem layout_read_back:
  assumes "dir_ready sb" and "ino < 2 ^ 63" and "parent < 2 ^ 63" and "\<forall>e \<in> set names. ent_ok e" and "fork_size \<le> 2048"
  shows "\<exists>l. layout sb ino parent names fork_size = Ok l \<and>
    (case l of
       Short sf \<Rightarrow> length sf \<le> fork_size \<and>
         (\<forall>pad. parse_shortform sb (sf @ pad) (length sf) = Ok (parent, map raw_of names))
     | Blocks sz blocks \<Rightarrow> sz \<le> LEAF_OFFSET \<longrightarrow>
         (\<forall>bufs. sealed (filter (\<lambda>b. db_lblk b < LEAF_OFFSET div 2 ^ sb_block_log sb) blocks) bufs \<longrightarrow>
            read_blocks sb ino bufs [] = Ok (map raw_of (all_ents ino parent names))))"
proof -
  obtain l where l: "layout sb ino parent names fork_size = Ok l" using layout_total [OF assms(1-4)] by blast
  have ft: "has_ftype sb" using assms(1) by (simp add: dir_ready_def)
  show ?thesis
  proof (cases l)
    case (Short sf)
    then have "shortform parent names fork_size = Some sf"
      using l by (auto simp: layout_def Let_def res_simps split: option.splits if_splits)
    then show ?thesis
      using short_parse [OF _ assms(5) ft _ assms(4)] assms(3) l Short by auto
  next
    case (Blocks sz blocks)
    then show ?thesis using layout_read [OF assms(1-4)] l by auto
  qed
qed

definition demo_ent :: dir_ent where
  "demo_ent = \<lparr>de_name = [0x61], de_ino = 131, de_ftype = 1\<rparr>"

theorem layout_read_back_witness:
  "\<exists>sf. layout demo_sb 128 128 [demo_ent] 336 = Ok (Short sf) \<and> parse_shortform demo_sb sf (length sf) = Ok (128, [raw_of demo_ent])"
proof -
  have "dir_ready demo_sb" using demo_sb_wf by (simp add: dir_ready_def is_v5_def has_ftype_def)
  moreover have "ent_ok demo_ent" by (simp add: ent_ok_def demo_ent_def)
  ultimately obtain l where l: "layout demo_sb 128 128 [demo_ent] 336 = Ok l"
    "case l of
       Short sf \<Rightarrow> length sf \<le> 336 \<and> (\<forall>pad. parse_shortform demo_sb (sf @ pad) (length sf) = Ok (128, map raw_of [demo_ent]))
     | Blocks sz blocks \<Rightarrow> sz \<le> LEAF_OFFSET \<longrightarrow>
         (\<forall>bufs. sealed (filter (\<lambda>b. db_lblk b < LEAF_OFFSET div 2 ^ sb_block_log demo_sb) blocks) bufs \<longrightarrow>
            read_blocks demo_sb 128 bufs [] = Ok (map raw_of (all_ents 128 128 [demo_ent])))"
    using layout_read_back [of demo_sb 128 128 "[demo_ent]" 336] by fastforce
  obtain sf' where "shortform 128 [demo_ent] 336 = Some sf'"
    by (simp add: shortform_def short_i8count_def demo_ent_def Let_def)
  then have "\<exists>sf. l = Short sf" using l(1) by (auto simp: layout_def)
  then obtain sf where sf: "l = Short sf" ..
  then have "\<forall>pad. parse_shortform demo_sb (sf @ pad) (length sf) = Ok (128, [raw_of demo_ent])" using l(2) by simp
  from this [rule_format, of "[]"] have "parse_shortform demo_sb sf (length sf) = Ok (128, [raw_of demo_ent])" by simp
  then show ?thesis using l(1) sf by simp
qed

end
