(* ===== verification/Log.thy ===== *)
theory Log
  imports Superblock Device
begin

text \<open>
  The log (\<open>src/src/log.rs\<close>): a ring of 512-byte basic blocks, each stamped with the cycle it
  was written in. Nothing is replayed; the code finds where the next write would go and asks
  whether the last record is an unmount record. Modelled: the whole search, the binary search
  for the first block of a cycle, the checks for writes out of order, the record the head may
  be in the middle of, the last header before the head, and the verdict.

  The lemmas read a device through the locale \<open>block_device\<close>: \<open>bb i\<close> is what it holds in
  basic block \<open>i\<close>.
\<close>

unbundle bit_operations_syntax

abbreviation (input) "HEADER_MAGIC \<equiv> 0xFEEDBABE :: nat"
abbreviation (input) "UNMOUNT_TRANS \<equiv> 0x20 :: byte"
abbreviation (input) "BB \<equiv> 512 :: nat"
abbreviation (input) "HEADER_CYCLE_SIZE \<equiv> 32 * 1024 :: nat"
abbreviation (input) "MAX_ICLOGS \<equiv> 8 :: nat"

section \<open>The state of a log\<close>

datatype log_state = Clean | Dirty (dirty_head: nat) (dirty_tail: nat) | External | Unreadable

definition is_clean :: "log_state \<Rightarrow> bool" where
  "is_clean s = (s = Clean)"

record 'd log =
  lg_dev :: 'd
  lg_start :: nat
  lg_bbs :: nat
  lg_align :: nat
  lg_v2 :: bool

section \<open>Basic blocks\<close>

definition cycle_of :: "byte list \<Rightarrow> nat res" where
  "cycle_of b = and_then (be32 b 0) (\<lambda>w. if w = HEADER_MAGIC then be32 b 4 else be32 b 0)"

definition bytes_to_bbs :: "nat \<Rightarrow> nat" where
  "bytes_to_bbs n = div_ceil n BB"

definition rec_bbs :: "'d log \<Rightarrow> nat" where
  "rec_bbs l = (if lg_v2 l then (256 * 1024) div BB else (32 * 1024) div BB)"

definition total_rec_bbs :: "'d log \<Rightarrow> nat" where
  "total_rec_bbs l = MAX_ICLOGS * rec_bbs l"

text \<open>Reads are rounded out to whole filesystem blocks.\<close>

definition log_read :: "'d device_ops \<Rightarrow> 'd log \<Rightarrow> nat \<Rightarrow> nat \<Rightarrow> byte list res" where
  "log_read ops l first n =
     (if n = 0 then Err Corrupt
      else and_then (add_w 64 first n) (\<lambda>e.
      if e > lg_bbs l then Err Corrupt
      else and_then (mul_w 64 first BB) (\<lambda>o1.
      and_then (add_w 64 (lg_start l) o1) (\<lambda>from.
      and_then (mul_w 64 n BB) (\<lambda>o2.
      and_then (add_w 64 from o2) (\<lambda>to.
      and_then (sub_w (lg_align l) 1) (\<lambda>mask.
      let a = and_not from mask in
      and_then (mul_w 64 (div_ceil to (lg_align l)) (lg_align l)) (\<lambda>b.
      and_then (sub_w b a) (\<lambda>len.
      and_then (dev_read_at ops (lg_dev l) a len) (\<lambda>buf.
      get buf (from - a) (to - from)))))))))))"

definition cycle :: "'d device_ops \<Rightarrow> 'd log \<Rightarrow> nat \<Rightarrow> nat res" where
  "cycle ops l bb = and_then (log_read ops l bb 1) cycle_of"

text \<open>Header blocks of a record.\<close>

definition hblks :: "'d log \<Rightarrow> byte list \<Rightarrow> nat res" where
  "hblks l h =
     and_then (be32 h 320) (\<lambda>size.
     and_then (be32 h 8) (\<lambda>version.
     Ok (if lg_v2 l \<and> version AND 2 \<noteq> 0 \<and> size > HEADER_CYCLE_SIZE
         then div_ceil size HEADER_CYCLE_SIZE else 1)))"

section \<open>Searching the ring\<close>

text \<open>The binary search for the first block in a cycle.\<close>

function find_cycle_start :: "'d device_ops \<Rightarrow> 'd log \<Rightarrow> nat \<Rightarrow> nat \<Rightarrow> nat \<Rightarrow> nat res" where
  "find_cycle_start ops l first hi cyc =
     and_then (add_w 64 first hi) (\<lambda>s.
     let mid = s div 2 in
     if mid \<noteq> first \<and> mid \<noteq> hi then
       and_then (cycle ops l mid) (\<lambda>c.
       if c = cyc then find_cycle_start ops l first mid cyc
       else find_cycle_start ops l mid hi cyc)
     else Ok hi)"
  by pat_completeness auto
termination
  by (relation "measure (\<lambda>(ops, l, first, hi, cyc). (hi - first) + (first - hi))")
    (auto simp: add_w_def split: if_splits)

text \<open>The first position a fallible test accepts.\<close>

primrec find_res :: "('a \<Rightarrow> bool res) \<Rightarrow> 'a list \<Rightarrow> 'a option res" where
  "find_res f [] = Ok None"
| "find_res f (x # xs) = and_then (f x) (\<lambda>b. if b then Ok (Some x) else find_res f xs)"

abbreviation (input) "CYCLE_CHUNK \<equiv> 2048 :: nat"

function find_cycle_loop :: "'d device_ops \<Rightarrow> 'd log \<Rightarrow> nat \<Rightarrow> nat \<Rightarrow> nat \<Rightarrow> nat option res" where
  "find_cycle_loop ops l i hi cyc =
     (if i < hi then
        let n = min CYCLE_CHUNK (hi - i) in
        and_then (log_read ops l i n) (\<lambda>buf.
        and_then (find_res (\<lambda>j. and_then (get_from buf (j * BB)) (\<lambda>b. map_ok (\<lambda>c. c = cyc) (cycle_of b))) [0..<n])
          (\<lambda>found. case found of
             Some j \<Rightarrow> Ok (Some (i + j))
           | None \<Rightarrow> find_cycle_loop ops l (i + n) hi cyc))
      else Ok None)"
  by pat_completeness auto
termination
  by (relation "measure (\<lambda>(ops, l, i, hi, cyc). hi - i)") auto

definition find_cycle :: "'d device_ops \<Rightarrow> 'd log \<Rightarrow> nat \<Rightarrow> nat \<Rightarrow> nat \<Rightarrow> nat option res" where
  "find_cycle ops l start n cyc =
     and_then (add_w 64 start n) (\<lambda>hi. find_cycle_loop ops l start hi cyc)"

declare find_cycle_start.simps [simp del] find_cycle_loop.simps [simp del]

text \<open>The scan of a buffer of blocks from \<open>begin\<close> up, backwards, for a record header.\<close>

definition is_header :: "byte list \<Rightarrow> nat \<Rightarrow> nat \<Rightarrow> bool res" where
  "is_header buf begin i =
     and_then (get buf ((i - begin) * BB) BB) (\<lambda>b. map_ok (\<lambda>w. w = HEADER_MAGIC) (be32 b 0))"

definition no_header :: "nat \<Rightarrow> nat \<Rightarrow> (bool \<times> nat) res" where
  "no_header start lst = (if start = 0 then Ok (False, lst) else Err Corrupt)"

text \<open>
  Backing up to a record header: whether there was one, and the position the caller goes on
  with.
\<close>

definition back_up_to_record ::
  "'d device_ops \<Rightarrow> 'd log \<Rightarrow> nat \<Rightarrow> nat \<Rightarrow> nat \<Rightarrow> (bool \<times> nat) res" where
  "back_up_to_record ops l start lst extra =
     (if lst \<le> start then no_header start lst
      else and_then (log_read ops l start (lst - start)) (\<lambda>buf.
      and_then (find_res (is_header buf start) (rev [start..<lst])) (\<lambda>found.
      case found of
        None \<Rightarrow> no_header start lst
      | Some i \<Rightarrow>
          and_then (get buf ((i - start) * BB) BB) (\<lambda>h.
          and_then (add_w 64 (lst - i) extra) (\<lambda>have.
          and_then (be32 h 12) (\<lambda>len.
          and_then (hblks l h) (\<lambda>hb.
          Ok (True, if have \<noteq> bytes_to_bbs len + hb then i else lst))))))))"

text \<open>Wrapping subtraction of one, on 32 bits.\<close>

definition pred32 :: "nat \<Rightarrow> nat" where
  "pred32 c = (c + (2 ^ 32 - 1)) mod 2 ^ 32"

section \<open>The head of the log\<close>

text \<open>A log written part way round once: the head is where the zeroes start.\<close>

definition find_zeroed :: "'d device_ops \<Rightarrow> 'd log \<Rightarrow> nat option res" where
  "find_zeroed ops l =
     and_then (find_cycle_start ops l 0 (lg_bbs l - 1) 0) (\<lambda>lst.
     let n = min (total_rec_bbs l) lst; start = lst - n in
     and_then (find_cycle ops l start n 0) (\<lambda>found.
     let lst = (case found of Some b \<Rightarrow> b | None \<Rightarrow> lst) in
     and_then (back_up_to_record ops l start lst 0) (\<lambda>(ok, lst).
     if ok then Ok (Some lst) else Err Corrupt)))"

text \<open>
  Records are written out of order: look back over everything that could have been in flight
  for a block the search skipped.
\<close>

definition skip_holes :: "'d device_ops \<Rightarrow> 'd log \<Rightarrow> nat \<Rightarrow> nat \<Rightarrow> nat res" where
  "skip_holes ops l head stop =
     (let n = min (total_rec_bbs l) (lg_bbs l) in
      if head \<ge> n then
        map_ok (\<lambda>found. case found of Some b \<Rightarrow> b | None \<Rightarrow> head) (find_cycle ops l (head - n) n stop)
      else
        let start = lg_bbs l - (n - head) in
        and_then (find_cycle ops l start (n - head) (pred32 stop)) (\<lambda>found.
        case found of
          Some b \<Rightarrow> Ok b
        | None \<Rightarrow> map_ok (\<lambda>found. case found of Some b \<Rightarrow> b | None \<Rightarrow> head) (find_cycle ops l 0 head stop)))"

text \<open>The head must not be in the middle of a record, which may wrap round the end.\<close>

definition settle_head :: "'d device_ops \<Rightarrow> 'd log \<Rightarrow> nat \<Rightarrow> nat res" where
  "settle_head ops l head =
     (let n = rec_bbs l in
      if head \<ge> n then
        and_then (back_up_to_record ops l (head - n) head 0) (\<lambda>(ok, head).
        if ok then Ok head else Err Corrupt)
      else
        and_then (back_up_to_record ops l 0 head 0) (\<lambda>(ok, head).
        if ok then Ok head
        else if lg_bbs l < n - head then Err Corrupt
        else
          let start = lg_bbs l - (n - head) in
          and_then (back_up_to_record ops l start (lg_bbs l) head) (\<lambda>(ok, hi).
          if \<not> ok then Err Corrupt
          else Ok (if hi \<noteq> lg_bbs l then hi else head))))"

definition find_head :: "'d device_ops \<Rightarrow> 'd log \<Rightarrow> nat option res" where
  "find_head ops l =
     and_then (cycle ops l 0) (\<lambda>first_cycle.
     if first_cycle = 0 then Ok None
     else and_then (sub_w (lg_bbs l) 1) (\<lambda>last_bb.
     and_then (cycle ops l last_bb) (\<lambda>last_cycle.
     if last_cycle = 0 then find_zeroed ops l
     else
       and_then (if first_cycle = last_cycle then Ok (lg_bbs l, pred32 last_cycle)
                 else map_ok (\<lambda>h. (h, last_cycle)) (find_cycle_start ops l 0 last_bb last_cycle))
         (\<lambda>(head, stop).
       and_then (skip_holes ops l head stop) (\<lambda>head.
       and_then (settle_head ops l head) (\<lambda>head.
       Ok (Some (if head = lg_bbs l then 0 else head))))))))"

section \<open>The last header, and the verdict\<close>

abbreviation (input) "HEADER_CHUNK \<equiv> 256 :: nat"

function header_scan :: "'d device_ops \<Rightarrow> 'd log \<Rightarrow> nat \<Rightarrow> nat \<Rightarrow> (nat \<times> byte list) option res" where
  "header_scan ops l lo hi =
     (if hi > lo then
        let begin = max (hi - HEADER_CHUNK) lo in
        and_then (log_read ops l begin (hi - begin)) (\<lambda>buf.
        and_then (find_res (is_header buf begin) (rev [begin..<hi])) (\<lambda>found.
        case found of
          Some i \<Rightarrow> map_ok (\<lambda>b. Some (i, b)) (get buf ((i - begin) * BB) BB)
        | None \<Rightarrow> header_scan ops l lo begin))
      else Ok None)"
  by pat_completeness auto
termination
  by (relation "measure (\<lambda>(ops, l, lo, hi). hi - lo)") auto

declare header_scan.simps [simp del]

definition header_before :: "'d device_ops \<Rightarrow> 'd log \<Rightarrow> nat \<Rightarrow> (nat \<times> byte list) res" where
  "header_before ops l head =
     and_then (header_scan ops l 0 head) (\<lambda>found.
     case found of
       Some r \<Rightarrow> Ok r
     | None \<Rightarrow> and_then (header_scan ops l head (lg_bbs l)) (ok_or Corrupt))"

definition log_verdict :: "'d device_ops \<Rightarrow> 'd log \<Rightarrow> nat \<Rightarrow> log_state res" where
  "log_verdict ops l head =
     and_then (header_before ops l head) (\<lambda>(rblk, h).
     and_then (be64 h 24) (\<lambda>lsn.
     let tail = lsn AND 0xffffffff in
     and_then (hblks l h) (\<lambda>hb.
     and_then (be32 h 12) (\<lambda>len.
     and_then (be32 h 40) (\<lambda>num_ops.
     let after = (rblk + hb + bytes_to_bbs len) mod lg_bbs l in
     if head = after \<and> num_ops = 1 then
       and_then (log_read ops l ((rblk + hb) mod lg_bbs l) 1) (\<lambda>data.
       and_then (index data 9) (\<lambda>flags.
       Ok (if flags AND UNMOUNT_TRANS \<noteq> 0 then Clean else Dirty head tail)))
     else Ok (Dirty head tail))))))"

definition find_state :: "'d device_ops \<Rightarrow> 'd log \<Rightarrow> log_state res" where
  "find_state ops l =
     and_then (find_head ops l) (\<lambda>found.
     case found of
       None \<Rightarrow> Ok Clean
     | Some head \<Rightarrow>
         if head = 0 then
           and_then (cycle ops l 0) (\<lambda>c. if c = 0 then Ok Clean else log_verdict ops l head)
         else log_verdict ops l head)"

definition state :: "'d device_ops \<Rightarrow> 'd \<Rightarrow> superblock \<Rightarrow> log_state res" where
  "state ops dev sb =
     (if has_external_log sb then Ok External
      else if sb_log_blocks sb = 0 then Err Corrupt
      else and_then (fsb_to_byte sb (sb_log_start sb)) (\<lambda>start.
      and_then (add_w 64 (sb_log_start sb) (sb_log_blocks sb)) (\<lambda>e.
      and_then (fsb_to_byte sb (e - 1)) (\<lambda>_.
      and_then (sub_w (sb_block_log sb) 9) (\<lambda>sh.
      and_then (shl_w 64 (sb_log_blocks sb) sh) (\<lambda>bbs.
      find_state ops \<lparr>lg_dev = dev, lg_start = start, lg_bbs = bbs,
        lg_align = sb_block_size sb, lg_v2 = has_logv2 sb\<rparr>))))))"

section \<open>Reading basic blocks\<close>

lemma div_mult_bounds: "0 < (m :: nat) \<Longrightarrow> x div m * m \<le> x \<and> x < x div m * m + m"
  by (metis add.commute div_mult_mod_eq le_add1 mod_less_divisor nat_add_left_cancel_less add.left_commute)

text \<open>
  A log as its bytes on the device: block \<open>i\<close>, its cycle number, whether it is a record
  header; and that the log lies on the device, in whole filesystem blocks.
\<close>

definition bb :: "byte list \<Rightarrow> 'd log \<Rightarrow> nat \<Rightarrow> byte list" where
  "bb c l i = seg c (lg_start l + i * 512) 512"

definition cyc :: "byte list \<Rightarrow> 'd log \<Rightarrow> nat \<Rightarrow> nat" where
  "cyc c l i = (if rd32 (bb c l i) 0 = HEADER_MAGIC then rd32 (bb c l i) 4 else rd32 (bb c l i) 0)"

definition header_at :: "byte list \<Rightarrow> 'd log \<Rightarrow> nat \<Rightarrow> bool" where
  "header_at c l i \<longleftrightarrow> rd32 (bb c l i) 0 = HEADER_MAGIC"

text \<open>The blocks of a record: its headers and its data.\<close>

definition rec_hblks :: "byte list \<Rightarrow> 'd log \<Rightarrow> nat \<Rightarrow> nat" where
  "rec_hblks c l i =
     (if lg_v2 l \<and> rd32 (bb c l i) 8 AND 2 \<noteq> 0 \<and> rd32 (bb c l i) 320 > HEADER_CYCLE_SIZE
      then div_ceil (rd32 (bb c l i) 320) HEADER_CYCLE_SIZE else 1)"

definition rec_len :: "byte list \<Rightarrow> 'd log \<Rightarrow> nat \<Rightarrow> nat" where
  "rec_len c l i = bytes_to_bbs (rd32 (bb c l i) 12) + rec_hblks c l i"

definition log_fits :: "byte list \<Rightarrow> 'd log \<Rightarrow> bool" where
  "log_fits c l \<longleftrightarrow> 0 < lg_bbs l \<and> is_power_of_two (lg_align l) \<and>
     lg_align l dvd lg_start l \<and> lg_align l dvd lg_bbs l * 512 \<and>
     lg_start l + lg_bbs l * 512 \<le> length c"

lemma bb_length: "log_fits c l \<Longrightarrow> i < lg_bbs l \<Longrightarrow> length (bb c l i) = 512"
proof -
  assume "log_fits c l" "i < lg_bbs l"
  then have "Suc i * 512 \<le> lg_bbs l * 512" "lg_start l + lg_bbs l * 512 \<le> length c"
    by (auto simp: log_fits_def intro: mult_le_mono1)
  then show ?thesis by (simp add: bb_def)
qed

lemma find_res_Ok: "(\<And>x. x \<in> set xs \<Longrightarrow> f x = Ok (P x)) \<Longrightarrow> find_res f xs = Ok (List.find P xs)"
  by (induction xs) auto

lemma find_append: "List.find P (xs @ ys) = (case List.find P xs of Some x \<Rightarrow> Some x | None \<Rightarrow> List.find P ys)"
  by (induction xs) auto

lemma find_upt_le: "List.find P [i..<j] = Some k \<Longrightarrow> i \<le> k \<and> k < j"
  by (auto simp: find_Some_iff)

lemma find_rev_upt_le: "List.find P (rev [i..<j]) = Some k \<Longrightarrow> i \<le> k \<and> k < j"
  by (auto simp: find_Some_iff rev_nth)

lemma find_Some_set: "List.find P xs = Some x \<Longrightarrow> P x \<and> x \<in> set xs"
  by (auto simp: find_Some_iff)

lemma find_upt_shift: "List.find (\<lambda>j. P (i + j)) [0..<n] = map_option (\<lambda>k. k - i) (List.find P [i..<i + n])"
proof -
  have "[i..<i + n] = map (\<lambda>j. i + j) [0..<n]" by (simp add: map_add_upt add.commute)
  moreover have "List.find P (map f xs) = map_option f (List.find (P \<circ> f) xs)" for f :: "nat \<Rightarrow> nat" and xs
    by (induction xs) auto
  ultimately show ?thesis by (simp add: option.map_comp comp_def option.map_ident)
qed

lemma seg_drop: "seg (drop a xs) b n = seg xs (a + b) n"
  by (simp add: seg_def add.commute)

text \<open>What a run of blocks in a buffer says is what the blocks say.\<close>

lemma run_length: "log_fits c l \<Longrightarrow> i + n \<le> lg_bbs l \<Longrightarrow> length (seg c (lg_start l + i * 512) (n * 512)) = n * 512"
proof -
  assume "log_fits c l" "i + n \<le> lg_bbs l"
  then have "(i + n) * 512 \<le> lg_bbs l * 512" "lg_start l + lg_bbs l * 512 \<le> length c"
    by (auto simp: log_fits_def intro: mult_le_mono1)
  then show ?thesis by (simp add: algebra_simps)
qed

lemma run_block:
  assumes "j < n"
  shows "seg (seg c (lg_start l + i * 512) (n * 512)) (j * 512) 512 = bb c l (i + j)"
proof -
  have "Suc j * 512 \<le> n * 512" using assms by (intro mult_le_mono1) simp
  then show ?thesis by (simp add: bb_def seg_seg algebra_simps)
qed

lemma run_cycle:
  assumes "log_fits c l" and "i + n \<le> lg_bbs l" and "j < n"
  shows "and_then (get_from (seg c (lg_start l + i * 512) (n * 512)) (j * 512)) (\<lambda>b. map_ok (\<lambda>k. k = cy) (cycle_of b)) =
    Ok (cyc c l (i + j) = cy)"
proof -
  let ?b = "seg c (lg_start l + i * 512) (n * 512)"
  have "Suc j * 512 \<le> n * 512" using assms(3) by (intro mult_le_mono1) simp
  then have j: "j * 512 + 512 \<le> length ?b" using run_length [OF assms(1,2)] by simp
  have "seg (drop (j * 512) ?b) k 4 = seg (bb c l (i + j)) k 4" if "k + 4 \<le> 512" for k
    unfolding run_block [OF assms(3), symmetric] using that by (simp add: seg_drop seg_seg)
  from this [of 0] this [of 4] j show ?thesis by (simp add: cycle_of_def cyc_def)
qed

lemma run_header:
  assumes "log_fits c l" and "i + n \<le> lg_bbs l" and "i \<le> k" and "k < i + n"
  shows "get (seg c (lg_start l + i * 512) (n * 512)) ((k - i) * 512) 512 = Ok (bb c l k)"
    "is_header (seg c (lg_start l + i * 512) (n * 512)) i k = Ok (header_at c l k)"
proof -
  have "Suc (k - i) * 512 \<le> n * 512" using assms(3,4) by (intro mult_le_mono1) simp
  then show g: "get (seg c (lg_start l + i * 512) (n * 512)) ((k - i) * 512) 512 = Ok (bb c l k)"
    using run_length [OF assms(1,2)] run_block [of "k - i" n c l i] assms(3,4) by simp
  have "length (bb c l k) = 512" using assms by (intro bb_length) auto
  then show "is_header (seg c (lg_start l + i * 512) (n * 512)) i k = Ok (header_at c l k)"
    using g by (simp add: is_header_def header_at_def)
qed

context block_device
begin

text \<open>A read of blocks of the log is one read of the device, of whole filesystem blocks of the log.\<close>

lemma log_read_reads:
  assumes inv: "invar (lg_dev l)" and l: "log_fits (content (lg_dev l)) l" and "0 < n" and "first + n \<le> lg_bbs l"
  obtains a b where "lg_start l \<le> a" "a \<le> lg_start l + first * 512" "lg_start l + first * 512 + n * 512 \<le> b"
    "b \<le> lg_start l + lg_bbs l * 512"
    "\<And>ops. log_read ops l first n =
       and_then (dev_read_at ops (lg_dev l) a (b - a)) (\<lambda>buf. get buf (lg_start l + first * 512 - a) (n * 512))"
proof -
  obtain k where k: "k < 64" "lg_align l = 2 ^ k" using l by (auto simp: log_fits_def elim: is_power_of_twoE)
  let ?m = "2 ^ k :: nat" and ?hi = "lg_start l + lg_bbs l * 512"
  let ?from = "lg_start l + first * 512" and ?to = "lg_start l + first * 512 + n * 512"
  have fit: "?hi \<le> length (content (lg_dev l))" using l by (simp add: log_fits_def)
  have len: "length (content (lg_dev l)) < 2 ^ 64" by (rule size_bound [OF inv])
  have to: "?to \<le> ?hi" using assms(4) by (metis add.assoc add_mult_distrib mult_le_mono1 nat_add_left_cancel_le)
  have big: "first + n < 2 ^ 64" "first * 512 < 2 ^ 64" "n * 512 < 2 ^ 64" "?from < 2 ^ 64" "?to < 2 ^ 64"
    using to fit len by linarith+
  define a where "a = ?from div ?m * ?m"
  define b where "b = div_ceil ?to ?m * ?m"
  have a: "a \<le> ?from" using div_mult_bounds [of ?m ?from] by (simp add: a_def)
  obtain s where s: "lg_start l = s * ?m" using l k by (auto simp: log_fits_def dvd_def mult.commute)
  have "s \<le> ?from div ?m" using div_le_mono [of "s * ?m" ?from ?m] s by simp
  then have start: "lg_start l \<le> a" unfolding a_def s by (rule mult_le_mono1)
  obtain q where q: "?hi = q * ?m"
    using l k dvd_add [of "?m" "lg_start l" "lg_bbs l * 512"] by (auto simp: log_fits_def dvd_def mult.commute)
  have "div_ceil ?to ?m \<le> q" using to q by (intro div_ceil_le) simp_all
  then have b: "b \<le> ?hi" unfolding b_def q by (rule mult_le_mono1)
  have to_b: "?to \<le> b" using div_ceil_bounds(1) [of ?m ?to] by (simp add: b_def)
  have "and_not ?from (?m - 1) = a" unfolding a_def using k big by (intro and_not_mask) auto
  moreover have "b < 2 ^ 64" using b fit len by linarith
  ultimately have "log_read ops l first n = and_then (dev_read_at ops (lg_dev l) a (b - a)) (\<lambda>buf. get buf (?from - a) (n * 512))"
    for ops :: "'d device_ops"
    using assms(3,4) big k(2) a to_b unfolding b_def
    by (simp add: log_read_def add_w_def mul_w_def sub_w_def Let_def)
  then show thesis by (rule that [OF start a to_b b])
qed

lemma log_read_ok:
  assumes inv: "invar (lg_dev l)" and l: "log_fits (content (lg_dev l)) l" and "0 < n" and "first + n \<le> lg_bbs l"
  shows "log_read ops l first n = Ok (seg (content (lg_dev l)) (lg_start l + first * 512) (n * 512))"
proof -
  let ?from = "lg_start l + first * 512"
  obtain a b where ab: "a \<le> ?from" "?from + n * 512 \<le> b" "b \<le> lg_start l + lg_bbs l * 512"
    "\<And>ops. log_read ops l first n = and_then (dev_read_at ops (lg_dev l) a (b - a)) (\<lambda>buf. get buf (?from - a) (n * 512))"
    using log_read_reads [OF assms] by metis
  have fit: "b \<le> length (content (lg_dev l))" using l ab(3) by (simp add: log_fits_def)
  have "dev_read_at ops (lg_dev l) a (b - a) = Ok (seg (content (lg_dev l)) a (b - a))"
    using ab(1,2) fit by (simp add: read_at [OF inv])
  moreover have "get (seg (content (lg_dev l)) a (b - a)) (?from - a) (n * 512) = Ok (seg (content (lg_dev l)) ?from (n * 512))"
    using ab(1,2) fit by (simp add: seg_seg)
  ultimately show ?thesis by (simp add: ab(4))
qed

text \<open>
  A read of basic blocks, whatever is asked: the bytes of the blocks when they are in the log and
  corruption when they are not; and the device is asked for nothing outside the log.
\<close>

lemma log_read_spec:
  assumes inv: "invar (lg_dev l)" and l: "log_fits (content (lg_dev l)) l" and "first + n < 2 ^ 64"
  shows "log_read ops l first n =
    (if 0 < n \<and> first + n \<le> lg_bbs l then Ok (seg (content (lg_dev l)) (lg_start l + first * 512) (n * 512)) else Err Corrupt)"
  using log_read_ok [OF inv l, of n first] assms(3) by (simp add: log_read_def add_w_def)

lemma cycle_ok:
  assumes "invar (lg_dev l)" and "log_fits (content (lg_dev l)) l" and "i < lg_bbs l"
  shows "cycle ops l i = Ok (cyc (content (lg_dev l)) l i)"
  using log_read_ok [OF assms(1,2), of 1 i] assms(3) bb_length [OF assms(2,3)]
  by (simp add: cycle_def cycle_of_def cyc_def bb_def)

text \<open>The binary search finds the one place where the cycle changes.\<close>

lemma find_cycle_start_ok:
  assumes "invar (lg_dev l)" and "log_fits (content (lg_dev l)) l" and "first < k" and "k \<le> lst" and "lst < lg_bbs l"
    and "\<forall>i. first \<le> i \<and> i < k \<longrightarrow> cyc (content (lg_dev l)) l i \<noteq> cy"
    and "\<forall>i. k \<le> i \<and> i \<le> lst \<longrightarrow> cyc (content (lg_dev l)) l i = cy"
  shows "find_cycle_start ops l first lst cy = Ok k"
  using assms(3-)
proof (induction "lst - first" arbitrary: first lst rule: less_induct)
  case less
  let ?mid = "(first + lst) div 2"
  have bbs: "lg_bbs l * 512 < 2 ^ 64"
    using assms(2) size_bound [OF assms(1)] by (simp add: log_fits_def)
  have "first < lst" using less.prems by simp
  then have sum: "add_w 64 first lst = Ok (first + lst)" using less.prems(3) bbs by (simp add: add_w_def)
  show ?case
  proof (cases "?mid \<noteq> first \<and> ?mid \<noteq> lst")
    case False
    then have "lst = Suc first" using \<open>first < lst\<close> by linarith
    then show ?thesis using False sum less.prems by (subst find_cycle_start.simps) (simp add: Let_def)
  next
    case True
    then have mid: "first < ?mid" "?mid < lst" using \<open>first < lst\<close> by linarith+
    have c: "cycle ops l ?mid = Ok (cyc (content (lg_dev l)) l ?mid)"
      using mid less.prems(3) by (intro cycle_ok [OF assms(1,2)]) simp
    show ?thesis
    proof (cases "k \<le> ?mid")
      case in_cycle: True
      have "find_cycle_start ops l first ?mid cy = Ok k"
        using less.prems mid in_cycle by (intro less.hyps) auto
      moreover have "cyc (content (lg_dev l)) l ?mid = cy" using less.prems(5) in_cycle mid by simp
      ultimately show ?thesis using True sum c by (subst find_cycle_start.simps) (simp add: Let_def)
    next
      case before: False
      have "find_cycle_start ops l ?mid lst cy = Ok k"
        using less.prems mid before by (intro less.hyps) auto
      moreover have "cyc (content (lg_dev l)) l ?mid \<noteq> cy" using less.prems(4) before mid by simp
      ultimately show ?thesis using True sum c by (subst find_cycle_start.simps) (simp add: Let_def)
    qed
  qed
qed

lemma find_cycle_loop_ok:
  assumes "invar (lg_dev l)" and "log_fits (content (lg_dev l)) l" and "hi \<le> lg_bbs l"
  shows "find_cycle_loop ops l i hi cy = Ok (List.find (\<lambda>i. cyc (content (lg_dev l)) l i = cy) [i..<hi])"
proof (induction "hi - i" arbitrary: i rule: less_induct)
  case less
  let ?c = "content (lg_dev l)" and ?n = "min 2048 (hi - i)"
  show ?case
  proof (cases "i < hi")
    case False
    then show ?thesis by (subst find_cycle_loop.simps) simp
  next
    case True
    then have n: "0 < ?n" "i + ?n \<le> hi" by auto
    have buf: "log_read ops l i ?n = Ok (seg ?c (lg_start l + i * 512) (?n * 512))"
      using n assms(3) by (intro log_read_ok [OF assms(1,2)]) auto
    have "find_res (\<lambda>j. and_then (get_from (seg ?c (lg_start l + i * 512) (?n * 512)) (j * 512))
        (\<lambda>b. map_ok (\<lambda>c. c = cy) (cycle_of b))) [0..<?n] = Ok (List.find (\<lambda>j. cyc ?c l (i + j) = cy) [0..<?n])"
      using n assms(3) by (intro find_res_Ok run_cycle [OF assms(2)]) auto
    also have "List.find (\<lambda>j. cyc ?c l (i + j) = cy) [0..<?n] = map_option (\<lambda>k. k - i) (List.find (\<lambda>k. cyc ?c l k = cy) [i..<i + ?n])"
      by (rule find_upt_shift)
    finally have step: "find_cycle_loop ops l i hi cy = (case List.find (\<lambda>k. cyc ?c l k = cy) [i..<i + ?n] of
        Some k \<Rightarrow> Ok (Some (i + (k - i))) | None \<Rightarrow> find_cycle_loop ops l (i + ?n) hi cy)"
      using True buf by (subst find_cycle_loop.simps) (simp add: Let_def split: option.splits)
    have "[i..<hi] = [i..<i + ?n] @ [i + ?n..<hi]" using n upt_add_eq_append [of i "i + ?n" "hi - (i + ?n)"] by simp
    moreover have "find_cycle_loop ops l (i + ?n) hi cy = Ok (List.find (\<lambda>k. cyc ?c l k = cy) [i + ?n..<hi])"
      using True n by (intro less.hyps) linarith
    moreover have "i + (k - i) = k" if "List.find (\<lambda>k. cyc ?c l k = cy) [i..<i + ?n] = Some k" for k
      using find_upt_le [OF that] by simp
    ultimately show ?thesis
      using step by (cases "List.find (\<lambda>k. cyc ?c l k = cy) [i..<i + ?n]") (simp_all only: find_append option.case)
  qed
qed

lemma find_cycle_ok:
  assumes "invar (lg_dev l)" and "log_fits (content (lg_dev l)) l" and "start + n \<le> lg_bbs l"
  shows "find_cycle ops l start n cy = Ok (List.find (\<lambda>i. cyc (content (lg_dev l)) l i = cy) [start..<start + n])"
proof -
  have "lg_bbs l * 512 < 2 ^ 64" using assms(2) size_bound [OF assms(1)] by (simp add: log_fits_def)
  then show ?thesis using find_cycle_loop_ok [OF assms] assms(3) by (simp add: find_cycle_def add_w_def)
qed

lemma header_scan_ok:
  assumes "invar (lg_dev l)" and "log_fits (content (lg_dev l)) l" and "hi \<le> lg_bbs l"
  shows "header_scan ops l lo hi =
    Ok (map_option (\<lambda>i. (i, bb (content (lg_dev l)) l i)) (List.find (header_at (content (lg_dev l)) l) (rev [lo..<hi])))"
  using assms(3)
proof (induction "hi - lo" arbitrary: hi rule: less_induct)
  case less
  let ?c = "content (lg_dev l)" and ?b = "max (hi - 256) lo"
  show ?case
  proof (cases "lo < hi")
    case False
    then show ?thesis by (subst header_scan.simps) simp
  next
    case True
    then have n: "0 < hi - ?b" "?b + (hi - ?b) \<le> lg_bbs l" "lo \<le> ?b" "?b \<le> hi" "?b < hi" using less.prems by auto
    let ?buf = "seg ?c (lg_start l + ?b * 512) ((hi - ?b) * 512)"
    have buf: "log_read ops l ?b (hi - ?b) = Ok ?buf" by (rule log_read_ok [OF assms(1,2) n(1,2)])
    have f: "find_res (is_header ?buf ?b) (rev [?b..<hi]) = Ok (List.find (header_at ?c l) (rev [?b..<hi]))"
      using n by (intro find_res_Ok run_header(2) [OF assms(2)]) auto
    have g: "get ?buf ((i - ?b) * 512) 512 = Ok (bb ?c l i)" if "List.find (header_at ?c l) (rev [?b..<hi]) = Some i" for i
      using find_rev_upt_le [OF that] n by (intro run_header(1) [OF assms(2)]) auto
    have ih: "header_scan ops l lo ?b = Ok (map_option (\<lambda>i. (i, bb ?c l i)) (List.find (header_at ?c l) (rev [lo..<?b])))"
      using n less.prems by (intro less.hyps) linarith+
    have "rev [lo..<hi] = rev [?b..<hi] @ rev [lo..<?b]"
      using n(3,4) upt_add_eq_append [of lo ?b "hi - ?b"] by (simp flip: rev_append)
    then show ?thesis
      using True buf f g ih by (subst header_scan.simps) (simp add: Let_def find_append split: option.splits)
  qed
qed

text \<open>Backing up on a log that lies on the device, whatever it holds.\<close>

lemma back_up_ok:
  assumes "invar (lg_dev l)" and "log_fits (content (lg_dev l)) l" and "lst \<le> lg_bbs l" and "extra \<le> lg_bbs l"
  shows "back_up_to_record ops l start lst extra =
    (case List.find (header_at (content (lg_dev l)) l) (rev [start..<lst]) of
       None \<Rightarrow> no_header start lst
     | Some i \<Rightarrow> Ok (True, if lst - i + extra \<noteq> rec_len (content (lg_dev l)) l i then i else lst))"
proof (cases "lst \<le> start")
  case True
  then show ?thesis by (simp add: back_up_to_record_def)
next
  case False
  let ?c = "content (lg_dev l)" and ?n = "lst - start"
  let ?buf = "seg ?c (lg_start l + start * 512) (?n * 512)"
  have n: "0 < ?n" "start + ?n \<le> lg_bbs l" using False assms(3) by auto
  have bbs: "lg_bbs l * 512 < 2 ^ 64" using assms(2) size_bound [OF assms(1)] by (simp add: log_fits_def)
  have buf: "log_read ops l start ?n = Ok ?buf" by (rule log_read_ok [OF assms(1,2) n])
  have f: "find_res (is_header ?buf start) (rev [start..<lst]) = Ok (List.find (header_at ?c l) (rev [start..<lst]))"
    using n by (intro find_res_Ok run_header(2) [OF assms(2)]) auto
  have g: "get ?buf ((i - start) * 512) 512 = Ok (bb ?c l i)" "length (bb ?c l i) = 512"
    if "List.find (header_at ?c l) (rev [start..<lst]) = Some i" for i
    using find_rev_upt_le [OF that] n assms(3) run_header(1) [OF assms(2) n(2), of i] bb_length [OF assms(2), of i] by simp_all
  have "add_w 64 (lst - i) extra = Ok (lst - i + extra)" for i
    using assms(3,4) bbs by (simp add: add_w_def)
  then show ?thesis
    using False buf f g by (simp add: back_up_to_record_def rec_len_def rec_hblks_def hblks_def split: option.splits)
qed

lemma header_before_ok:
  assumes "invar (lg_dev l)" and "log_fits (content (lg_dev l)) l" and "head \<le> lg_bbs l"
  shows "header_before ops l head =
    (case List.find (header_at (content (lg_dev l)) l) (rev [0..<head] @ rev [head..<lg_bbs l]) of
       Some i \<Rightarrow> Ok (i, bb (content (lg_dev l)) l i) | None \<Rightarrow> Err Corrupt)"
  using header_scan_ok [OF assms(1,2) assms(3), of 0] header_scan_ok [OF assms(1,2) order_refl, of head]
  by (simp add: header_before_def find_append split: option.splits)

end

section \<open>A log as it is written\<close>

text \<open>
  The blocks before the head are in one cycle and the rest in the one before (zero for a log
  on its first pass); the last record before the head is whole and no longer than a record
  may be.
\<close>

definition written_ring :: "byte list \<Rightarrow> 'd log \<Rightarrow> nat \<Rightarrow> nat \<Rightarrow> bool" where
  "written_ring c l head cy \<longleftrightarrow> 0 < head \<and> head \<le> lg_bbs l \<and> 0 < cy \<and> cy < 2 ^ 32 \<and>
     (\<forall>i. i < head \<longrightarrow> cyc c l i = cy) \<and> (\<forall>i. head \<le> i \<and> i < lg_bbs l \<longrightarrow> cyc c l i = cy - 1)"

definition last_record :: "byte list \<Rightarrow> 'd log \<Rightarrow> nat \<Rightarrow> nat \<Rightarrow> bool" where
  "last_record c l head r \<longleftrightarrow> r < head \<and> header_at c l r \<and> (\<forall>i. r < i \<and> i < head \<longrightarrow> \<not> header_at c l i) \<and>
     head - r = rec_len c l r \<and> head - r \<le> rec_bbs l"

text \<open>A record of one operation, whose flags say that it unmounts.\<close>

definition unmount_record :: "byte list \<Rightarrow> 'd log \<Rightarrow> nat \<Rightarrow> bool" where
  "unmount_record c l r \<longleftrightarrow> rd32 (bb c l r) 40 = 1 \<and>
     bb c l ((r + rec_hblks c l r) mod lg_bbs l) ! 9 AND UNMOUNT_TRANS \<noteq> 0"

lemma find_last_upt:
  assumes "s \<le> r" and "r < h" and "P r" and "\<forall>i. r < i \<and> i < h \<longrightarrow> \<not> P i"
  shows "List.find P (rev [s..<h]) = Some r"
proof -
  have "[s..<h] = [s..<Suc r] @ [Suc r..<h]" using assms(1,2) upt_add_eq_append [of s "Suc r" "h - Suc r"] by simp
  moreover have "List.find P (rev [Suc r..<h]) = None" using assms(4) by (simp add: find_None_iff)
  ultimately show ?thesis using assms(1,3) by (simp add: find_append)
qed

lemma find_None_upt: "\<forall>i. s \<le> i \<and> i < h \<longrightarrow> \<not> P i \<Longrightarrow> List.find P [s..<h] = None"
  by (simp add: find_None_iff)

lemma pred32_pos: "0 < c \<Longrightarrow> c < 2 ^ 32 \<Longrightarrow> pred32 c = c - 1"
proof -
  assume "0 < c" "c < 2 ^ 32"
  then have "c + (2 ^ 32 - 1) = (c - 1) + 2 ^ 32" by simp
  then have "pred32 c = (c - 1) mod 2 ^ 32" unfolding pred32_def by (simp only: mod_add_self2)
  then show ?thesis using \<open>c < 2 ^ 32\<close> by simp
qed

context block_device
begin

lemma log_bbs_small: "invar (lg_dev l) \<Longrightarrow> log_fits (content (lg_dev l)) l \<Longrightarrow> lg_bbs l * 512 < 2 ^ 64"
  using size_bound [of "lg_dev l"] by (simp add: log_fits_def)

lemma back_up_whole:
  assumes "invar (lg_dev l)" and "log_fits (content (lg_dev l)) l" and "last_record (content (lg_dev l)) l head r"
    and "head \<le> lg_bbs l" and "s \<le> r"
  shows "back_up_to_record ops l s head 0 = Ok (True, head)"
proof -
  have "List.find (header_at (content (lg_dev l)) l) (rev [s..<head]) = Some r"
    using assms(3,5) unfolding last_record_def by (intro find_last_upt) auto
  then show ?thesis using back_up_ok [OF assms(1,2,4), of 0 s] assms(3) by (simp add: last_record_def)
qed

text \<open>The search for the head, on a log that was written in order.\<close>

lemma settle_head_whole:
  assumes "invar (lg_dev l)" and "log_fits (content (lg_dev l)) l" and "last_record (content (lg_dev l)) l head r"
    and "head \<le> lg_bbs l"
  shows "settle_head ops l head = Ok head"
proof (cases "rec_bbs l \<le> head")
  case True
  then have "head - rec_bbs l \<le> r" using assms(3) by (auto simp: last_record_def)
  from back_up_whole [OF assms this] show ?thesis using True by (simp add: settle_head_def)
next
  case False
  then show ?thesis using back_up_whole [OF assms, of 0] by (simp add: settle_head_def)
qed

lemma skip_holes_none:
  assumes "invar (lg_dev l)" and "log_fits (content (lg_dev l)) l" and "head \<le> lg_bbs l"
    and "\<forall>i. i < head \<longrightarrow> cyc (content (lg_dev l)) l i \<noteq> stop"
    and "\<forall>i. head \<le> i \<and> i < lg_bbs l \<longrightarrow> cyc (content (lg_dev l)) l i \<noteq> pred32 stop"
  shows "skip_holes ops l head stop = Ok head"
proof -
  let ?c = "content (lg_dev l)" and ?n = "min (total_rec_bbs l) (lg_bbs l)"
  show ?thesis
  proof (cases "?n \<le> head")
    case True
    then have "find_cycle ops l (head - ?n) ?n stop = Ok (List.find (\<lambda>i. cyc ?c l i = stop) [head - ?n..<head])"
      using find_cycle_ok [OF assms(1,2), of "head - ?n" ?n stop] assms(3) by simp
    also have "\<dots> = Ok None" using assms(4) find_None_upt [of "head - ?n" head "\<lambda>i. cyc ?c l i = stop"] by simp
    finally show ?thesis using True by (simp add: skip_holes_def Let_def)
  next
    case False
    then have start: "lg_bbs l - (?n - head) + (?n - head) = lg_bbs l" "head \<le> lg_bbs l - (?n - head)" by auto
    have "find_cycle ops l (lg_bbs l - (?n - head)) (?n - head) (pred32 stop) =
        Ok (List.find (\<lambda>i. cyc ?c l i = pred32 stop) [lg_bbs l - (?n - head)..<lg_bbs l])"
      using find_cycle_ok [OF assms(1,2), of "lg_bbs l - (?n - head)" "?n - head" "pred32 stop"] start(1) by simp
    also have "\<dots> = Ok None" using assms(5) start(2) by (simp add: find_None_iff)
    finally have w: "find_cycle ops l (lg_bbs l - (?n - head)) (?n - head) (pred32 stop) = Ok None" .
    have "find_cycle ops l 0 head stop = Ok None"
      using find_cycle_ok [OF assms(1,2), of 0 head stop] assms(3,4) by (simp add: find_None_iff)
    with w False show ?thesis unfolding skip_holes_def Let_def by (simp only: if_False option.case and_then.simps map_ok_simps)
  qed
qed

lemma find_zeroed_ring:
  assumes "invar (lg_dev l)" and "log_fits (content (lg_dev l)) l" and "written_ring (content (lg_dev l)) l head 1"
    and "last_record (content (lg_dev l)) l head r" and "head < lg_bbs l"
  shows "find_zeroed ops l = Ok (Some head)"
proof -
  let ?c = "content (lg_dev l)" and ?n = "min (total_rec_bbs l) head"
  have ring: "0 < head" "\<forall>i. i < head \<longrightarrow> cyc ?c l i = 1" "\<forall>i. head \<le> i \<and> i < lg_bbs l \<longrightarrow> cyc ?c l i = 0"
    using assms(3) by (auto simp: written_ring_def)
  have k: "find_cycle_start ops l 0 (lg_bbs l - 1) 0 = Ok head"
    using ring assms(5) by (intro find_cycle_start_ok [OF assms(1,2)]) auto
  have "find_cycle ops l (head - ?n) ?n 0 = Ok (List.find (\<lambda>i. cyc ?c l i = 0) [head - ?n..<head])"
    using find_cycle_ok [OF assms(1,2), of "head - ?n" ?n 0] assms(5) by simp
  then have none: "find_cycle ops l (head - ?n) ?n 0 = Ok None"
    using ring(2) by (simp add: find_None_upt)
  have "head - ?n \<le> r"
    using assms(4) by (auto simp: last_record_def total_rec_bbs_def)
  note b = back_up_whole [OF assms(1,2,4) less_imp_le [OF assms(5)] this]
  show ?thesis using k none b by (simp add: find_zeroed_def Let_def)
qed

lemma find_head_ring:
  assumes "invar (lg_dev l)" and "log_fits (content (lg_dev l)) l" and "written_ring (content (lg_dev l)) l head cy"
    and "last_record (content (lg_dev l)) l head r"
  shows "find_head ops l = Ok (Some (head mod lg_bbs l))"
proof -
  let ?c = "content (lg_dev l)" and ?b = "lg_bbs l"
  have ring: "0 < head" "head \<le> ?b" "0 < cy" "cy < 2 ^ 32" "\<And>i. i < head \<Longrightarrow> cyc ?c l i = cy"
    "\<And>i. head \<le> i \<Longrightarrow> i < ?b \<Longrightarrow> cyc ?c l i = cy - 1"
    using assms(3) by (auto simp: written_ring_def)
  have first: "cycle ops l 0 = Ok cy" using cycle_ok [OF assms(1,2), of 0] ring(1,2,5) by simp
  have lst: "cycle ops l (?b - 1) = Ok (cyc ?c l (?b - 1))" using cycle_ok [OF assms(1,2), of "?b - 1"] ring(1,2) by simp
  have sub: "sub_w ?b 1 = Ok (?b - 1)" using ring(1,2) by (simp add: sub_w_def)
  note settle = settle_head_whole [OF assms(1,2,4) ring(2)]
  show ?thesis
  proof (cases "head = ?b")
    case True
    have "cyc ?c l (?b - 1) = cy" using ring(1,5) True by simp
    moreover have "skip_holes ops l ?b (pred32 cy) = Ok ?b"
      using ring(3-5) True by (intro skip_holes_none [OF assms(1,2)]) (auto simp: pred32_pos)
    ultimately show ?thesis using first lst sub settle True ring(3) by (simp add: find_head_def)
  next
    case False
    then have h: "head < ?b" using ring(2) by simp
    then have old: "cyc ?c l (?b - 1) = cy - 1" using ring(6) by simp
    show ?thesis
    proof (cases "cy = 1")
      case True
      then show ?thesis
        using find_zeroed_ring [OF assms(1,2) _ assms(4) h] assms(3) first lst sub old h by (simp add: find_head_def)
    next
      case pass: False
      then have cy: "1 < cy" using ring(3) by simp
      have "find_cycle_start ops l 0 (?b - 1) (cy - 1) = Ok head"
        using ring h cy by (intro find_cycle_start_ok [OF assms(1,2)]) auto
      moreover have "skip_holes ops l head (cy - 1) = Ok head"
        using ring h cy pred32_pos [of "cy - 1"] by (intro skip_holes_none [OF assms(1,2)]) auto
      moreover have "cy \<noteq> cy - 1" using cy by simp
      ultimately show ?thesis using first lst sub settle old h cy by (simp add: find_head_def)
    qed
  qed
qed

text \<open>The verdict for a head and the record before it.\<close>

lemma log_verdict_ok:
  assumes "invar (lg_dev l)" and "log_fits (content (lg_dev l)) l" and "head < lg_bbs l"
  shows "log_verdict ops l head =
    (case List.find (header_at (content (lg_dev l)) l) (rev [0..<head] @ rev [head..<lg_bbs l]) of
       None \<Rightarrow> Err Corrupt
     | Some r \<Rightarrow> Ok (if head = (r + rec_len (content (lg_dev l)) l r) mod lg_bbs l \<and> unmount_record (content (lg_dev l)) l r
                    then Clean else Dirty head (rd64 (bb (content (lg_dev l)) l r) 24 AND 0xffffffff)))"
proof -
  let ?c = "content (lg_dev l)" and ?hs = "rev [0..<head] @ rev [head..<lg_bbs l]"
  show ?thesis
  proof (cases "List.find (header_at ?c l) ?hs")
    case None
    then show ?thesis using header_before_ok [OF assms(1,2), of head] assms(3) by (simp add: log_verdict_def)
  next
    case (Some r)
    then have "r < lg_bbs l" using assms(3) by (auto simp: find_append dest!: find_rev_upt_le split: option.splits)
    then have h: "length (bb ?c l r) = 512" by (rule bb_length [OF assms(2)])
    let ?d = "(r + rec_hblks ?c l r) mod lg_bbs l"
    have d: "?d < lg_bbs l" using assms(3) by simp
    have data: "log_read ops l ?d 1 = Ok (bb ?c l ?d)" "length (bb ?c l ?d) = 512"
      using log_read_ok [OF assms(1,2), of 1 ?d] bb_length [OF assms(2) d] d by (simp_all add: bb_def)
    have hb: "hblks l (bb ?c l r) = Ok (rec_hblks ?c l r)" using h by (simp add: hblks_def rec_hblks_def)
    have after: "(r + rec_hblks ?c l r + bytes_to_bbs (rd32 (bb ?c l r) 12)) mod lg_bbs l = (r + rec_len ?c l r) mod lg_bbs l"
      by (simp add: rec_len_def add_ac)
    show ?thesis
      using header_before_ok [OF assms(1,2), of head] assms(3) Some h hb data
      by (simp add: log_verdict_def after unmount_record_def Let_def)
  qed
qed

lemma find_state_ring:
  assumes "invar (lg_dev l)" and "log_fits (content (lg_dev l)) l" and "written_ring (content (lg_dev l)) l head cy"
    and "last_record (content (lg_dev l)) l head r"
  shows "find_state ops l =
    Ok (if unmount_record (content (lg_dev l)) l r then Clean
        else Dirty (head mod lg_bbs l) (rd64 (bb (content (lg_dev l)) l r) 24 AND 0xffffffff))"
proof -
  let ?c = "content (lg_dev l)" and ?h = "head mod lg_bbs l"
  have ring: "0 < head" "head \<le> lg_bbs l" "0 < cy" "cyc ?c l 0 = cy"
    using assms(3) by (auto simp: written_ring_def)
  have r: "r < head" "header_at ?c l r" "\<forall>i. r < i \<and> i < head \<longrightarrow> \<not> header_at ?c l i" "r + rec_len ?c l r = head"
    using assms(4) by (auto simp: last_record_def)
  have f: "List.find (header_at ?c l) (rev [0..<head]) = Some r" using r by (intro find_last_upt) auto
  have h: "?h < lg_bbs l" using ring by simp
  have "List.find (header_at ?c l) (rev [0..<?h] @ rev [?h..<lg_bbs l]) = Some r"
    using f ring by (cases "head = lg_bbs l") (simp_all add: find_append)
  then have v: "log_verdict ops l ?h = Ok (if unmount_record ?c l r then Clean else Dirty ?h (rd64 (bb ?c l r) 24 AND 0xffffffff))"
    using log_verdict_ok [OF assms(1,2) h] r(4) by simp
  have "cycle ops l 0 = Ok cy" using cycle_ok [OF assms(1,2), of 0] ring by simp
  then show ?thesis
    using find_head_ring [OF assms] v ring(3) by (cases "?h = 0") (simp_all add: find_state_def)
qed

text \<open>Whatever the log holds, each step of the search stays inside it.\<close>

lemma find_cycle_start_range:
  assumes "invar (lg_dev l)" and "log_fits (content (lg_dev l)) l" and "first \<le> lst" and "lst < lg_bbs l"
  shows "\<exists>k. find_cycle_start ops l first lst cy = Ok k \<and> k \<le> lst"
  using assms(3,4)
proof (induction "lst - first" arbitrary: first lst rule: less_induct)
  case less
  let ?mid = "(first + lst) div 2"
  have sum: "add_w 64 first lst = Ok (first + lst)"
    using less.prems log_bbs_small [OF assms(1,2)] by (simp add: add_w_def)
  show ?case
  proof (cases "?mid \<noteq> first \<and> ?mid \<noteq> lst")
    case False
    then show ?thesis using sum by (subst find_cycle_start.simps) (auto simp: Let_def)
  next
    case True
    then have mid: "first < ?mid" "?mid < lst" using less.prems by linarith+
    obtain c where c: "cycle ops l ?mid = Ok c" using cycle_ok [OF assms(1,2), of ?mid] mid less.prems by simp
    obtain k where "find_cycle_start ops l first ?mid cy = Ok k" "k \<le> lst"
      using less.hyps [OF diff_less_mono [OF mid(2) less_imp_le [OF mid(1)]]] mid less.prems by (meson le_less_trans less_imp_le order.strict_trans)
    moreover obtain k' where "find_cycle_start ops l ?mid lst cy = Ok k'" "k' \<le> lst"
      using less.hyps [OF diff_less_mono2 [OF mid(1) order.strict_trans [OF mid]]] mid less.prems by (meson less_imp_le)
    ultimately show ?thesis using True sum c by (subst find_cycle_start.simps) (simp add: Let_def)
  qed
qed

lemma find_cycle_range:
  assumes "invar (lg_dev l)" and "log_fits (content (lg_dev l)) l" and "start + n \<le> lg_bbs l"
  obtains r where "find_cycle ops l start n cy = Ok r" and "\<And>b. r = Some b \<Longrightarrow> b < start + n"
  using that find_cycle_ok [OF assms] find_upt_le by blast

lemma back_up_range:
  assumes "invar (lg_dev l)" and "log_fits (content (lg_dev l)) l" and "lst \<le> lg_bbs l" and "extra \<le> lg_bbs l"
  shows "back_up_to_record ops l start lst extra = Err Corrupt \<or>
    (\<exists>ok k. back_up_to_record ops l start lst extra = Ok (ok, k) \<and> k \<le> lst)"
  using back_up_ok [OF assms, of start] find_rev_upt_le [of "header_at (content (lg_dev l)) l" start lst]
  by (auto simp: no_header_def split: option.splits dest: less_imp_le)

lemma skip_holes_range:
  assumes "invar (lg_dev l)" and "log_fits (content (lg_dev l)) l" and "head \<le> lg_bbs l"
  shows "\<exists>h. skip_holes ops l head stop = Ok h \<and> h \<le> lg_bbs l"
proof -
  let ?n = "min (total_rec_bbs l) (lg_bbs l)"
  show ?thesis
  proof (cases "?n \<le> head")
    case True
    obtain r where "find_cycle ops l (head - ?n) ?n stop = Ok r" "\<And>b. r = Some b \<Longrightarrow> b < head - ?n + ?n"
      using find_cycle_range [OF assms(1,2), of "head - ?n" ?n stop] True assms(3) by auto
    then show ?thesis using True assms(3) by (cases r) (auto simp: skip_holes_def Let_def)
  next
    case False
    then have n: "?n - head \<le> lg_bbs l" by simp
    obtain r where r: "find_cycle ops l (lg_bbs l - (?n - head)) (?n - head) (pred32 stop) = Ok r"
      "\<And>b. r = Some b \<Longrightarrow> b < lg_bbs l"
      using find_cycle_range [OF assms(1,2), of "lg_bbs l - (?n - head)" "?n - head" "pred32 stop"] n by auto
    obtain q where q: "find_cycle ops l 0 head stop = Ok q" "\<And>b. q = Some b \<Longrightarrow> b < head"
      using find_cycle_range [OF assms(1,2), of 0 head stop] assms(3) by auto
    have e: "skip_holes ops l head stop = Ok (case r of Some b \<Rightarrow> b | None \<Rightarrow> (case q of Some b \<Rightarrow> b | None \<Rightarrow> head))"
      unfolding skip_holes_def Let_def using False r(1) q(1)
      by (simp only: if_False and_then.simps map_ok_simps) (simp split: option.splits)
    then show ?thesis using r(2) q(2) assms(3) by (auto split: option.splits dest: less_imp_le)
  qed
qed

lemma settle_head_range:
  assumes "invar (lg_dev l)" and "log_fits (content (lg_dev l)) l" and "head \<le> lg_bbs l"
  shows "settle_head ops l head = Err Corrupt \<or> (\<exists>h. settle_head ops l head = Ok h \<and> h \<le> lg_bbs l)"
proof (cases "rec_bbs l \<le> head")
  case True
  then show ?thesis using back_up_range [OF assms, of 0 "head - rec_bbs l"] assms(3) by (auto simp: settle_head_def)
next
  case False
  consider "back_up_to_record ops l 0 head 0 = Err Corrupt" |
    (2) ok k where "back_up_to_record ops l 0 head 0 = Ok (ok, k)" "k \<le> head"
    using back_up_range [OF assms, of 0 0] by auto
  then show ?thesis
  proof cases
    case 1
    then show ?thesis using False by (simp add: settle_head_def)
  next
    case 2
    then have "k \<le> lg_bbs l" using assms(3) by simp
    then show ?thesis
      using back_up_range [OF assms(1,2) order_refl, of k "lg_bbs l - (rec_bbs l - k)"] 2 False
      by (auto simp: settle_head_def Let_def split: if_splits)
  qed
qed

lemma find_head_range:
  assumes "invar (lg_dev l)" and "log_fits (content (lg_dev l)) l"
  shows "find_head ops l = Err Corrupt \<or> find_head ops l = Ok None \<and> cyc (content (lg_dev l)) l 0 = 0 \<or>
    (\<exists>h < lg_bbs l. find_head ops l = Ok (Some h))"
proof -
  let ?c = "content (lg_dev l)" and ?b = "lg_bbs l"
  have b: "0 < ?b" using assms(2) by (simp add: log_fits_def)
  have first: "cycle ops l 0 = Ok (cyc ?c l 0)" and lst: "cycle ops l (?b - 1) = Ok (cyc ?c l (?b - 1))"
    using cycle_ok [OF assms] b by simp_all
  have sub: "sub_w ?b 1 = Ok (?b - 1)" using b by (simp add: sub_w_def)
  have start: "\<exists>k. find_cycle_start ops l 0 (?b - 1) cy = Ok k \<and> k \<le> ?b - 1" for cy
    using find_cycle_start_range [OF assms, of 0 "?b - 1" cy] b by simp
  have rest: "and_then (skip_holes ops l h stop) (\<lambda>h. and_then (settle_head ops l h)
        (\<lambda>h. Ok (Some (if h = ?b then 0 else h)))) = Err Corrupt \<or>
      (\<exists>k < ?b. and_then (skip_holes ops l h stop) (\<lambda>h. and_then (settle_head ops l h)
        (\<lambda>h. Ok (Some (if h = ?b then 0 else h)))) = Ok (Some k))" if h: "h \<le> ?b" for h stop
  proof -
    obtain h1 where "skip_holes ops l h stop = Ok h1" "h1 \<le> ?b" using skip_holes_range [OF assms h] by blast
    then show ?thesis using settle_head_range [OF assms, of h1] b by (auto split: if_splits)
  qed
  have zeroed: "find_zeroed ops l = Err Corrupt \<or> (\<exists>k < ?b. find_zeroed ops l = Ok (Some k))"
  proof -
    obtain k where k: "find_cycle_start ops l 0 (?b - 1) 0 = Ok k" "k \<le> ?b - 1" using start by blast
    let ?n = "min (total_rec_bbs l) k"
    have "k - ?n + ?n \<le> ?b" using k(2) b by simp
    from find_cycle_range [OF assms this, of 0]
    obtain r where r: "find_cycle ops l (k - ?n) ?n 0 = Ok r" "\<And>x. r = Some x \<Longrightarrow> x < k - ?n + ?n" by blast
    let ?m = "case r of Some x \<Rightarrow> x | None \<Rightarrow> k"
    have m: "?m \<le> k" using r(2) by (cases r) (auto dest: less_imp_le)
    then have "?m \<le> ?b" using k(2) by simp
    have in_log: "j < ?b" if "j \<le> ?m" for j using that m k(2) b by linarith
    consider "back_up_to_record ops l (k - ?n) ?m 0 = Err Corrupt" |
      (2) ok j where "back_up_to_record ops l (k - ?n) ?m 0 = Ok (ok, j)" "j \<le> ?m"
      using back_up_range [OF assms \<open>?m \<le> ?b\<close>, of 0 "k - ?n"] by auto
    then show ?thesis
    proof cases
      case 2
      then show ?thesis using k r(1) in_log [OF 2(2)] by (cases ok) (simp_all add: find_zeroed_def Let_def)
    qed (use k r(1) in \<open>simp add: find_zeroed_def Let_def\<close>)
  qed
  consider "cyc ?c l 0 = 0" | "cyc ?c l 0 \<noteq> 0" "cyc ?c l (?b - 1) = 0" | "cyc ?c l 0 \<noteq> 0" "cyc ?c l (?b - 1) \<noteq> 0" by blast
  then show ?thesis
  proof cases
    case 3
    obtain k where k: "find_cycle_start ops l 0 (?b - 1) (cyc ?c l (?b - 1)) = Ok k" "k \<le> ?b - 1" using start by blast
    then have "k \<le> ?b" by simp
    with rest [of ?b] rest [OF this] k first lst sub 3 show ?thesis
      by (cases "cyc ?c l 0 = cyc ?c l (?b - 1)") (simp_all add: find_head_def)
  qed (use zeroed first lst sub in \<open>simp_all add: find_head_def\<close>)
qed

lemma find_state_range:
  assumes "invar (lg_dev l)" and "log_fits (content (lg_dev l)) l"
  shows "case find_state ops l of
      Ok Clean \<Rightarrow> cyc (content (lg_dev l)) l 0 = 0 \<or> (\<exists>r < lg_bbs l. header_at (content (lg_dev l)) l r \<and> unmount_record (content (lg_dev l)) l r)
    | Ok (Dirty head tail) \<Rightarrow> head < lg_bbs l
    | Ok _ \<Rightarrow> False
    | Err e \<Rightarrow> e = Corrupt
    | Panic \<Rightarrow> False"
proof -
  let ?c = "content (lg_dev l)"
  have v: "case log_verdict ops l h of
      Ok Clean \<Rightarrow> \<exists>r < lg_bbs l. header_at ?c l r \<and> unmount_record ?c l r
    | Ok (Dirty head tail) \<Rightarrow> head < lg_bbs l
    | Ok _ \<Rightarrow> False | Err e \<Rightarrow> e = Corrupt | Panic \<Rightarrow> False" if "h < lg_bbs l" for h
  proof (cases "List.find (header_at ?c l) (rev [0..<h] @ rev [h..<lg_bbs l])")
    case None
    then show ?thesis using log_verdict_ok [OF assms that] by simp
  next
    case (Some r)
    then have "header_at ?c l r" "r < lg_bbs l"
      using that find_Some_set [OF Some] by auto
    then show ?thesis using log_verdict_ok [OF assms that] Some that by auto
  qed
  have z: "cycle ops l 0 = Ok (cyc ?c l 0)" using cycle_ok [OF assms, of 0] assms(2) by (simp add: log_fits_def)
  consider "find_head ops l = Err Corrupt" | "find_head ops l = Ok None" "cyc ?c l 0 = 0" |
    (3) h where "h < lg_bbs l" "find_head ops l = Ok (Some h)"
    using find_head_range [OF assms] by metis
  then show ?thesis
  proof cases
    case 3
    show ?thesis using v [OF 3(1)] 3 z
      by (cases "log_verdict ops l h") (auto simp: find_state_def split: log_state.splits)
  qed (simp_all add: find_state_def)
qed

end

section \<open>Reading only the log\<close>

text \<open>
  A device that panics on a read that leaves the bytes from \<open>lo\<close> to \<open>hi\<close>, and is the given one
  otherwise. A search that gives the same result on it has read nothing outside them.
\<close>

definition reads_within :: "nat \<Rightarrow> nat \<Rightarrow> 'd device_ops \<Rightarrow> 'd device_ops" where
  "reads_within lo hi ops =
     ops\<lparr>dev_read_at := \<lambda>d off n. if lo \<le> off \<and> off + n \<le> hi then dev_read_at ops d off n else Panic\<rparr>"

context block_device
begin

lemma log_read_within:
  assumes "invar (lg_dev l)" and "log_fits (content (lg_dev l)) l"
  shows "log_read (reads_within (lg_start l) (lg_start l + lg_bbs l * 512) ops) l i n = log_read ops l i n"
proof (cases "0 < n \<and> i + n \<le> lg_bbs l")
  case True
  then obtain a b where ab: "lg_start l \<le> a" "a \<le> lg_start l + i * 512" "lg_start l + i * 512 + n * 512 \<le> b"
    "b \<le> lg_start l + lg_bbs l * 512"
    "\<And>ops. log_read ops l i n = and_then (dev_read_at ops (lg_dev l) a (b - a)) (\<lambda>buf. get buf (lg_start l + i * 512 - a) (n * 512))"
    using log_read_reads [OF assms] by metis
  then have "a + (b - a) \<le> lg_start l + lg_bbs l * 512" by linarith
  then show ?thesis using ab(1) by (simp add: ab(5) reads_within_def)
next
  case False
  then show ?thesis by (auto simp: log_read_def add_w_def)
qed

end

text \<open>The search sees the device through \<open>log_read\<close> alone.\<close>

lemma find_cycle_start_cong:
  assumes "\<And>i n. log_read ops l i n = log_read ops' l i n"
  shows "find_cycle_start ops l lo hi cy = find_cycle_start ops' l lo hi cy"
proof (induction "(hi - lo) + (lo - hi)" arbitrary: lo hi rule: less_induct)
  case less
  let ?mid = "(lo + hi) div 2"
  have c: "cycle ops l = cycle ops' l" by (simp add: cycle_def assms fun_eq_iff)
  show ?case
  proof (cases "?mid \<noteq> lo \<and> ?mid \<noteq> hi")
    case True
    then have "(?mid - lo) + (lo - ?mid) < (hi - lo) + (lo - hi)" "(hi - ?mid) + (?mid - hi) < (hi - lo) + (lo - hi)"
      by auto
    then have "find_cycle_start ops l lo ?mid cy = find_cycle_start ops' l lo ?mid cy"
      "find_cycle_start ops l ?mid hi cy = find_cycle_start ops' l ?mid hi cy" by (blast intro: less.hyps)+
    then show ?thesis using c by (subst (1 2) find_cycle_start.simps) (simp add: add_w_def Let_def cong: if_cong)
  qed (subst (1 2) find_cycle_start.simps, auto simp: add_w_def Let_def)
qed

lemma find_cycle_loop_cong:
  assumes "\<And>i n. log_read ops l i n = log_read ops' l i n"
  shows "find_cycle_loop ops l i hi cy = find_cycle_loop ops' l i hi cy"
proof (induction "hi - i" arbitrary: i rule: less_induct)
  case less
  show ?case
  proof (cases "i < hi")
    case True
    then have "hi - (i + min 2048 (hi - i)) < hi - i" by auto
    then show ?thesis using less.hyps by (subst (1 2) find_cycle_loop.simps) (simp add: assms Let_def)
  qed (subst (1 2) find_cycle_loop.simps, simp)
qed

lemma header_scan_cong:
  assumes "\<And>i n. log_read ops l i n = log_read ops' l i n"
  shows "header_scan ops l lo hi = header_scan ops' l lo hi"
proof (induction "hi - lo" arbitrary: hi rule: less_induct)
  case less
  show ?case
  proof (cases "lo < hi")
    case True
    then have "max (hi - 256) lo - lo < hi - lo" by auto
    then show ?thesis using less.hyps by (subst (1 2) header_scan.simps) (simp add: assms Let_def)
  qed (subst (1 2) header_scan.simps, simp)
qed

lemma find_state_cong:
  assumes "\<And>i n. log_read ops l i n = log_read ops' l i n"
  shows "find_state ops l = find_state ops' l"
proof -
  note cong = find_cycle_start_cong [OF assms] find_cycle_loop_cong [OF assms] header_scan_cong [OF assms]
  have c: "cycle ops l = cycle ops' l" by (simp add: cycle_def assms fun_eq_iff)
  have f: "find_cycle ops l = find_cycle ops' l" by (simp add: find_cycle_def cong fun_eq_iff)
  have b: "back_up_to_record ops l = back_up_to_record ops' l" by (simp add: back_up_to_record_def assms fun_eq_iff)
  have z: "find_zeroed ops l = find_zeroed ops' l" unfolding find_zeroed_def cong f b ..
  have s: "skip_holes ops l = skip_holes ops' l" "settle_head ops l = settle_head ops' l"
    by (rule ext, rule ext, simp only: skip_holes_def f) (rule ext, simp only: settle_head_def b)
  have h: "find_head ops l = find_head ops' l" unfolding find_head_def c z s cong ..
  have v: "log_verdict ops l = log_verdict ops' l" unfolding log_verdict_def header_before_def cong assms ..
  show ?thesis unfolding find_state_def h c v ..
qed

section \<open>The log of a filesystem\<close>

text \<open>An internal log lies inside one allocation group, on a device that holds the filesystem.\<close>

definition log_of :: "'d \<Rightarrow> superblock \<Rightarrow> nat \<Rightarrow> nat \<Rightarrow> 'd log" where
  "log_of dev sb agno agbno =
     \<lparr>lg_dev = dev, lg_start = agb_to_byte sb agno agbno, lg_bbs = sb_log_blocks sb * 2 ^ (sb_block_log sb - 9),
      lg_align = sb_block_size sb, lg_v2 = has_logv2 sb\<rparr>"

definition log_placed :: "superblock \<Rightarrow> nat \<Rightarrow> nat \<Rightarrow> bool" where
  "log_placed sb agno agbno \<longleftrightarrow> sb_log_start sb = agb_to_fsb sb agno agbno \<and> sb_log_start sb \<noteq> 0 \<and>
     0 < sb_log_blocks sb \<and> agno < sb_ag_count sb \<and> agbno + sb_log_blocks sb \<le> sb_ag_blocks sb"

lemma state_log_of:
  assumes sb: "wf_sb sb" "sb_fits sb" and p: "log_placed sb agno agbno"
    and dev: "sb_ag_count sb * sb_ag_blocks sb * sb_block_size sb \<le> length c"
  shows "state ops dev sb = find_state ops (log_of dev sb agno agbno)" and "log_fits c (log_of dev sb agno agbno)"
proof -
  let ?n = "sb_log_blocks sb" and ?bs = "sb_block_size sb" and ?sh = "sb_block_log sb - 9"
  have n: "0 < ?n" "agbno + ?n \<le> sb_ag_blocks sb" "agno < sb_ag_count sb" and start: "sb_log_start sb = agb_to_fsb sb agno agbno"
    "sb_log_start sb \<noteq> 0" using p by (simp_all add: log_placed_def)
  have first: "agbno < sb_ag_blocks sb" and lst: "agbno + ?n - 1 < sb_ag_blocks sb" using n by linarith+
  have byte: "fsb_to_byte sb (agb_to_fsb sb agno a) = Ok (agb_to_byte sb agno a)" if "a < sb_ag_blocks sb" for a
    using that n(3) agb_to_fsb_parts(2,3) [OF sb(1) that] agb_to_byte_eq(1) [OF sb n(3) that] byte_no_wrap(2) [OF sb n(3) that]
    by (simp add: fsb_to_byte_eq)
  have e: "sb_log_start sb + ?n - 1 = agb_to_fsb sb agno (agbno + ?n - 1)"
    using start(1) n(1) agb_to_fsb_parts(1) [OF sb(1) first] agb_to_fsb_parts(1) [OF sb(1) lst] by simp
  have ag31: "2 ^ sb_agblk_log sb \<le> (2 :: nat) ^ 31" using wf_sbD(16) [OF sb(1)] by (intro power_increasing) simp_all
  have "agno * 2 ^ sb_agblk_log sb < 2 ^ 32 * 2 ^ 31"
    using n(3) wf_sbD(13) [OF sb(1)] ag31 by (intro mult_less_le_imp_less) simp_all
  then have sum: "add_w 64 (sb_log_start sb) ?n = Ok (sb_log_start sb + ?n)"
    using start(1) agb_to_fsb_parts(1) [OF sb(1) first] n(2) wf_sbD(15) [OF sb(1)] ag31
    by (simp add: add_w_def)
  have sh: "2 ^ ?sh \<le> (2 :: nat) ^ 7" using wf_sbD(3) [OF sb(1)] by (intro power_increasing) simp_all
  have "?n * 2 ^ ?sh \<le> 2 ^ 31 * 2 ^ 7" using n(2) wf_sbD(15) [OF sb(1)] ag31 sh by (intro mult_le_mono) linarith+
  then have shl: "shl_w 64 ?n ?sh = Ok (?n * 2 ^ ?sh)" using wf_sbD(3) [OF sb(1)] by (simp add: shl_w_def)
  show "state ops dev sb = find_state ops (log_of dev sb agno agbno)"
    using start(2) n(1) sum byte [OF first] byte [OF lst] e shl wf_sbD(2) [OF sb(1)]
    by (simp add: state_def has_external_log_def log_of_def sub_w_def start(1) [symmetric])
  have "(2 :: nat) ^ sb_block_log sb = 2 ^ ?sh * 512" 
    using wf_sbD(2) [OF sb(1)] power_add [of "2 :: nat" ?sh 9] by simp
  then have bbs: "?n * 2 ^ ?sh * 512 = ?n * ?bs" using wf_sbD(1) [OF sb(1)] by simp
  have at: "agb_to_byte sb agno agbno = (agno * sb_ag_blocks sb + agbno) * ?bs" by (rule agb_to_byte_eq(1) [OF sb n(3) first])
  have "agb_to_byte sb agno agbno + ?n * ?bs = (agno * sb_ag_blocks sb + (agbno + ?n)) * ?bs" by (simp add: at algebra_simps)
  also have "\<dots> \<le> sb_ag_count sb * sb_ag_blocks sb * ?bs"
    using linear_block_less [OF n(3) lst] n by (intro mult_le_mono1) linarith
  finally have "agb_to_byte sb agno agbno + ?n * ?bs \<le> length c" using dev by simp
  moreover have "is_power_of_two ?bs" using wf_sbD(1,3) [OF sb(1)] is_power_of_twoI [of "sb_block_log sb"] by simp
  ultimately show "log_fits c (log_of dev sb agno agbno)" using n(1) at by (simp add: log_fits_def log_of_def bbs del: mult.assoc)
qed

section \<open>Properties\<close>

text \<open>
  C6. The verdict on a log written in order. For a filesystem whose internal log lies in one
  allocation group on a device that holds it all: when the blocks of the log before \<open>head\<close> are
  in one cycle and the rest in the cycle before (or zero on the first pass), and the last record
  before the head is whole and does not wrap round the end of the ring, then the log is reported clean exactly when that record is a
  single unmount operation; otherwise it is dirty, with the head (zero at the end of the ring)
  and the tail the record names.
\<close>

theorem state_of_written_log:
  assumes "wf_sb sb" and "sb_fits sb" and "log_placed sb agno agbno" and "mem_inv dev"
    and "sb_ag_count sb * sb_ag_blocks sb * sb_block_size sb \<le> length (mem_data dev)"
    and "written_ring (mem_data dev) (log_of dev sb agno agbno) head cy"
    and "last_record (mem_data dev) (log_of dev sb agno agbno) head r"
  shows "state mem_ops dev sb =
    Ok (if unmount_record (mem_data dev) (log_of dev sb agno agbno) r then Clean
        else Dirty (head mod lg_bbs (log_of dev sb agno agbno))
               (rd64 (bb (mem_data dev) (log_of dev sb agno agbno) r) 24 AND 0xffffffff))"
proof -
  let ?l = "log_of dev sb agno agbno"
  have dev: "lg_dev ?l = dev" by (simp add: log_of_def)
  note s = state_log_of [OF assms(1-3,5)]
  show ?thesis
    unfolding s(1) by (rule mem.find_state_ring [of ?l head cy r, unfolded dev, OF assms(4) s(2) assms(6,7)])
qed

text \<open>
  C23. The search is total, errs the safe way and reads only the log. Whatever the bytes of an
  internal log inside one allocation group: the search ends without a panic, reports a head inside
  the log or corruption, and says clean only for a log never written or when some record header in
  it is followed by a single unmount operation; its result is the same on a device that panics on a
  read of any byte outside the log; and a read of basic blocks gives the bytes of those blocks when
  there are some and all are in the log, corruption when not.
\<close>

theorem state_total_safe:
  assumes "wf_sb sb" and "sb_fits sb" and "log_placed sb agno agbno" and "mem_inv dev"
    and "sb_ag_count sb * sb_ag_blocks sb * sb_block_size sb \<le> length (mem_data dev)"
  shows "let l = log_of dev sb agno agbno; c = mem_data dev; from = lg_start l; to = lg_start l + lg_bbs l * 512 in
    (case state mem_ops dev sb of
      Ok Clean \<Rightarrow> cyc c l 0 = 0 \<or> (\<exists>r < lg_bbs l. header_at c l r \<and> unmount_record c l r)
    | Ok (Dirty head tail) \<Rightarrow> head < lg_bbs l
    | Ok _ \<Rightarrow> False
    | Err e \<Rightarrow> e = Corrupt
    | Panic \<Rightarrow> False) \<and>
    state (reads_within from to mem_ops) dev sb = state mem_ops dev sb \<and>
    (\<forall>first n. first + n < 2 ^ 64 \<longrightarrow> log_read mem_ops l first n =
      (if 0 < n \<and> first + n \<le> lg_bbs l then Ok (seg c (from + first * 512) (n * 512)) else Err Corrupt))"
proof -
  let ?l = "log_of dev sb agno agbno"
  have dev: "lg_dev ?l = dev" by (simp add: log_of_def)
  note s = state_log_of [OF assms(1-3,5)]
  show ?thesis
    unfolding Let_def s(1)
  proof (intro conjI allI impI)
    show "find_state (reads_within (lg_start ?l) (lg_start ?l + lg_bbs ?l * 512) mem_ops) ?l = find_state mem_ops ?l"
      by (rule find_state_cong) (rule mem.log_read_within [of ?l, unfolded dev, OF assms(4) s(2)])
  qed (rule mem.find_state_range [of ?l, unfolded dev, OF assms(4) s(2)]
    | rule mem.log_read_spec [of ?l, unfolded dev, OF assms(4) s(2)], assumption)+
qed

text \<open>
  The binary search ends at the boundary: over blocks that are not in the cycle up to
  \<open>k\<close> and in it from \<open>k\<close> on, \<open>find_cycle_start\<close> returns \<open>k\<close>.
\<close>

lemma find_cycle_start_boundary:
  assumes "mem_inv (lg_dev l)" and "log_fits (mem_data (lg_dev l)) l" and "first < k" and "k \<le> lst" and "lst < lg_bbs l"
    and "\<forall>i. first \<le> i \<and> i < k \<longrightarrow> cyc (mem_data (lg_dev l)) l i \<noteq> cy"
    and "\<forall>i. k \<le> i \<and> i \<le> lst \<longrightarrow> cyc (mem_data (lg_dev l)) l i = cy"
  shows "find_cycle_start mem_ops l first lst cy = Ok k"
  by (rule mem.find_cycle_start_ok [OF assms])

text \<open>A filesystem of eight blocks, the fifth its log: an unmount record, then zeroes.\<close>

definition demo_log_sb :: superblock where
  "demo_log_sb = demo_sb\<lparr>sb_ag_blocks := 8, sb_ag_count := 1, sb_log_start := 4, sb_log_blocks := 1\<rparr>"

definition demo_log_dev :: mem_device where
  "demo_log_dev = mem_new (replicate 16384 0 @
     u32_bytes HEADER_MAGIC @ u32_bytes 1 @ u32_bytes 2 @ u32_bytes 512 @ replicate 24 0 @ u32_bytes 1 @ replicate 468 0 @
     u32_bytes 1 @ replicate 5 0 @ [0x20] @ replicate 502 0 @ replicate 15360 0)"

abbreviation demo_log :: "mem_device log" where
  "demo_log \<equiv> log_of demo_log_dev demo_log_sb 0 4"

lemma demo_log_simps: "lg_start demo_log = 16384" "lg_bbs demo_log = 8" "lg_v2 demo_log"
  by (simp_all add: log_of_def demo_log_sb_def demo_sb_def agb_to_byte_def has_logv2_def is_v5_def)

lemma demo_log_ok:
  "wf_sb demo_log_sb" "sb_fits demo_log_sb" "log_placed demo_log_sb 0 4" "mem_inv demo_log_dev"
  "sb_ag_count demo_log_sb * sb_ag_blocks demo_log_sb * sb_block_size demo_log_sb \<le> length (mem_data demo_log_dev)"
  using demo_sb_wf
  by (simp_all add: demo_log_sb_def wf_sb_def sb_fits_def log_placed_def agb_to_fsb_def demo_sb_def demo_log_dev_def mem_new_def mem_inv_def)

lemma demo_log_blocks:
  "bb (mem_data demo_log_dev) demo_log 0 =
     u32_bytes HEADER_MAGIC @ u32_bytes 1 @ u32_bytes 2 @ u32_bytes 512 @ replicate 24 0 @ u32_bytes 1 @ replicate 468 0"
  "bb (mem_data demo_log_dev) demo_log 1 = u32_bytes 1 @ replicate 5 0 @ [0x20] @ replicate 502 0"
  "2 \<le> i \<Longrightarrow> i < 8 \<Longrightarrow> bb (mem_data demo_log_dev) demo_log i = replicate 512 0"
proof -
  let ?h = "u32_bytes HEADER_MAGIC @ u32_bytes 1 @ u32_bytes 2 @ u32_bytes 512 @ replicate 24 0 @ u32_bytes 1 @ replicate 468 0"
  let ?d = "u32_bytes 1 @ replicate 5 0 @ [0x20] @ replicate 502 0 :: byte list"
  have c: "mem_data demo_log_dev = (replicate 16384 0 @ ?h @ ?d) @ replicate 15360 0"
    "mem_data demo_log_dev = (replicate 16384 0 @ ?h) @ ?d @ replicate 15360 0"
    "mem_data demo_log_dev = replicate 16384 0 @ ?h @ ?d @ replicate 15360 0"
    by (simp_all add: demo_log_dev_def mem_new_def)
  have len: "length ?h = 512" "length ?d = 512" by simp_all
  show "bb (mem_data demo_log_dev) demo_log 0 = ?h"
    unfolding bb_def demo_log_simps c(3) by (subst seg_append_right) (simp_all add: seg_def)
  show "bb (mem_data demo_log_dev) demo_log 1 = ?d"
    unfolding bb_def demo_log_simps c(2) by (subst seg_append_right) (simp_all add: seg_def)
  assume "2 \<le> i" "i < 8"
  then have "2 * 512 \<le> i * 512" "i * 512 \<le> 7 * 512" by (intro mult_le_mono1; simp)+
  then show "bb (mem_data demo_log_dev) demo_log i = replicate 512 0"
    unfolding bb_def demo_log_simps c(1) by (subst seg_append_right) (simp_all add: seg_replicate)
qed

lemma demo_log_ring: "written_ring (mem_data demo_log_dev) demo_log 2 1"
proof -
  have z: "cyc (mem_data demo_log_dev) demo_log i = 0" if "2 \<le> i" "i < 8" for i
    using demo_log_blocks(3) [OF that] by (simp add: cyc_def seg_replicate)
  have "cyc (mem_data demo_log_dev) demo_log 0 = 1" "cyc (mem_data demo_log_dev) demo_log 1 = 1"
    unfolding cyc_def demo_log_blocks by (simp_all add: seg_append_left seg_append_right be_widths)
  moreover have "i = 0 \<or> i = 1" if "i < 2" for i :: nat using that by linarith
  ultimately show ?thesis using z demo_log_simps by (force simp: written_ring_def)
qed

lemma demo_log_record:
  "last_record (mem_data demo_log_dev) demo_log 2 0" "unmount_record (mem_data demo_log_dev) demo_log 0"
proof -
  have h: "header_at (mem_data demo_log_dev) demo_log 0" "\<not> header_at (mem_data demo_log_dev) demo_log 1"
    unfolding header_at_def demo_log_blocks by (simp_all add: seg_append_left seg_append_right be_widths)
  have rd: "rd32 (bb (mem_data demo_log_dev) demo_log 0) 12 = 512" "rd32 (bb (mem_data demo_log_dev) demo_log 0) 320 = 0"
    "rd32 (bb (mem_data demo_log_dev) demo_log 0) 40 = 1"
    unfolding demo_log_blocks by (simp_all add: seg_append_left seg_append_right be_widths seg_replicate)
  then have n: "rec_hblks (mem_data demo_log_dev) demo_log 0 = 1" "rec_len (mem_data demo_log_dev) demo_log 0 = 2"
    by (simp_all add: rec_hblks_def rec_len_def bytes_to_bbs_def div_ceil_def)
  show "last_record (mem_data demo_log_dev) demo_log 2 0"
    using h n demo_log_simps by (auto simp: last_record_def rec_bbs_def less_Suc_eq numeral_2_eq_2)
  have "bb (mem_data demo_log_dev) demo_log 1 ! 9 = 0x20" unfolding demo_log_blocks by (simp add: nth_append)
  then show "unmount_record (mem_data demo_log_dev) demo_log 0"
    using rd(3) n(1) by (simp add: unmount_record_def demo_log_simps)
qed

theorem state_of_written_log_witness: "state mem_ops demo_log_dev demo_log_sb = Ok Clean"
  using state_of_written_log [OF demo_log_ok demo_log_ring demo_log_record(1)] demo_log_record(2) by simp

theorem state_total_safe_witness:
  "state mem_ops demo_log_dev demo_log_sb \<noteq> Panic \<and>
   state (reads_within 16384 20480 mem_ops) demo_log_dev demo_log_sb = state mem_ops demo_log_dev demo_log_sb \<and>
   log_read mem_ops demo_log 7 2 = Err Corrupt"
proof -
  note s = state_total_safe [OF demo_log_ok, unfolded Let_def]
  have "log_read mem_ops demo_log 7 2 = Err Corrupt"
    using s [THEN conjunct2, THEN conjunct2, rule_format, of 7 2] by (simp add: demo_log_simps)
  moreover have "state (reads_within 16384 20480 mem_ops) demo_log_dev demo_log_sb = state mem_ops demo_log_dev demo_log_sb"
    using s [THEN conjunct2, THEN conjunct1] by (simp add: demo_log_simps)
  moreover have "state mem_ops demo_log_dev demo_log_sb \<noteq> Panic" using s [THEN conjunct1] by auto
  ultimately show ?thesis by blast
qed

lemma find_cycle_start_boundary_witness: "find_cycle_start mem_ops demo_log 0 7 0 = Ok 2"
proof -
  have d: "lg_dev demo_log = demo_log_dev" by (simp add: log_of_def)
  have f: "log_fits (mem_data demo_log_dev) demo_log" by (rule state_log_of(2) [OF demo_log_ok(1-3,5)])
  have "cyc (mem_data demo_log_dev) demo_log i = 1" if "i < 2" for i
    using demo_log_ring that by (simp add: written_ring_def)
  moreover have "cyc (mem_data demo_log_dev) demo_log i = 0" if "2 \<le> i" "i \<le> 7" for i
    using demo_log_ring that by (simp add: written_ring_def demo_log_simps)
  ultimately show ?thesis
    using find_cycle_start_boundary [of demo_log 0 2 7 0] demo_log_ok(4) f demo_log_simps by (simp add: d)
qed

end
