(* ===== verification/Attr.thy ===== *)
theory Attr
  imports Superblock Strings
begin

text \<open>
  Extended attributes (\<open>src/src/attr.rs\<close>): the names of the namespaces, the conversion of
  ACLs, the short form in the inode, leaf and node blocks, and blocks of remote values. The
  lemmas show that nothing a device holds makes the parsers panic, that names are always
  valid UTF-8 with the prefix of their namespace, and what the conversion of ACLs yields.
\<close>

unbundle bit_operations_syntax

abbreviation (input) "LOCAL \<equiv> 0x01 :: byte"
abbreviation (input) "ROOT \<equiv> 0x02 :: byte"
abbreviation (input) "SECURE \<equiv> 0x04 :: byte"
abbreviation (input) "PARENT \<equiv> 0x08 :: byte"
abbreviation (input) "INCOMPLETE \<equiv> 0x80 :: byte"
abbreviation (input) "LEAF_MAGIC_V4 \<equiv> 0xfbee :: nat"
abbreviation (input) "LEAF_MAGIC_V5 \<equiv> 0x3bee :: nat"
abbreviation (input) "NODE_MAGIC_V4 \<equiv> 0xfebe :: nat"
abbreviation (input) "NODE_MAGIC_V5 \<equiv> 0x3ebe :: nat"
abbreviation (input) "RMT_MAGIC \<equiv> 0x5841524d :: nat"
abbreviation (input) "RMT_HDR \<equiv> 56 :: nat"

section \<open>Definitions\<close>

record xattr =
  xa_name :: "byte list"
  xa_value :: "byte list"

datatype attr_value = Inline "byte list" | Remote nat nat

record found =
  fd_name :: "byte list"
  fd_value :: attr_value

definition full_name :: "byte \<Rightarrow> byte list \<Rightarrow> byte list option" where
  "full_name flags name0 =
     (if flags AND (INCOMPLETE OR PARENT) \<noteq> 0 then None
      else
        let name = utf8_lossy name0 in
        Some (if flags AND SECURE \<noteq> 0 then ascii ''security.'' @ name
              else if flags AND ROOT \<noteq> 0 then
                if name = ascii ''SGI_ACL_FILE'' then ascii ''system.posix_acl_access''
                else if name = ascii ''SGI_ACL_DEFAULT'' then ascii ''system.posix_acl_default''
                else ascii ''trusted.'' @ name
              else ascii ''user.'' @ name))"

definition acl_entry :: "byte list \<Rightarrow> nat \<Rightarrow> byte list res" where
  "acl_entry xfs i =
     and_then (get_from xfs (4 + i * 12)) (\<lambda>e.
     and_then (be32 e 0) (\<lambda>tag.
     and_then (be32 e 4) (\<lambda>id0.
     and_then (be16 e 8) (\<lambda>perm.
     let id = (if tag = 0x02 \<or> tag = 0x08 then id0 else 0xffffffff) in
     Ok (to_le_bytes 2 tag @ to_le_bytes 2 perm @ to_le_bytes 4 id)))))"

definition posix_acl :: "byte list \<Rightarrow> byte list res" where
  "posix_acl xfs =
     (if length xfs < 4 then Err Corrupt
      else and_then (be32 xfs 0) (\<lambda>n.
      if length xfs < 4 + n * 12 then Err Corrupt
      else map_ok (\<lambda>es. to_le_bytes 4 2 @ concat es) (map_res (acl_entry xfs) [0..<n])))"

primrec short_attrs :: "byte list \<Rightarrow> nat \<Rightarrow> nat \<Rightarrow> nat \<Rightarrow> found list \<Rightarrow> found list res" where
  "short_attrs fork lim 0 p out = Ok out"
| "short_attrs fork lim (Suc n) p out =
     (if p + 3 > lim then Err Corrupt
      else and_then (index fork p) (\<lambda>nl.
      and_then (index fork (p + 1)) (\<lambda>vl.
      and_then (index fork (p + 2)) (\<lambda>flags.
      let namelen = unat nl; valuelen = unat vl; name_at = p + 3; e = name_at + namelen + valuelen in
      if e > lim then Err Corrupt
      else and_then (get fork name_at namelen) (\<lambda>raw.
      and_then (case full_name flags raw of
                  None \<Rightarrow> Ok out
                | Some name \<Rightarrow> map_ok (\<lambda>v. out @ [\<lparr>fd_name = name, fd_value = Inline v\<rparr>]) (get fork (name_at + namelen) valuelen))
        (\<lambda>out. short_attrs fork lim n e out))))))"

definition parse_attr_shortform :: "byte list \<Rightarrow> found list res" where
  "parse_attr_shortform fork =
     (if length fork < 4 then Err Corrupt
      else and_then (be16 fork 0) (\<lambda>t.
      and_then (index fork 2) (\<lambda>n.
      short_attrs fork (min t (length fork)) (unat n) 4 [])))"

datatype attr_block = Leaf "found list" nat | Node nat

text \<open>One entry of a leaf block, its name with the value or where the value is.\<close>

definition leaf_entry :: "byte list \<Rightarrow> nat \<Rightarrow> found list res" where
  "leaf_entry buf e =
     and_then (be16 buf (e + 4)) (\<lambda>nameidx.
     and_then (index buf (e + 6)) (\<lambda>flags.
     if flags AND LOCAL \<noteq> 0 then
       if nameidx + 3 > length buf then Err Corrupt
       else and_then (be16 buf nameidx) (\<lambda>valuelen.
       and_then (index buf (nameidx + 2)) (\<lambda>nl.
       let namelen = unat nl; name_at = nameidx + 3 in
       if name_at + namelen + valuelen > length buf then Err Corrupt
       else and_then (get buf name_at namelen) (\<lambda>raw.
       case full_name flags raw of
         None \<Rightarrow> Ok []
       | Some name \<Rightarrow> map_ok (\<lambda>v. [\<lparr>fd_name = name, fd_value = Inline v\<rparr>]) (get buf (name_at + namelen) valuelen))))
     else
       if nameidx + 9 > length buf then Err Corrupt
       else and_then (be32 buf nameidx) (\<lambda>blk.
       and_then (be32 buf (nameidx + 4)) (\<lambda>len.
       and_then (index buf (nameidx + 8)) (\<lambda>nl.
       let namelen = unat nl; name_at = nameidx + 9 in
       if name_at + namelen > length buf then Err Corrupt
       else map_ok (\<lambda>raw. case full_name flags raw of
                            None \<Rightarrow> []
                          | Some name \<Rightarrow> [\<lparr>fd_name = name, fd_value = Remote blk len\<rparr>])
              (get buf name_at namelen))))))"

definition parse_attr_block :: "superblock \<Rightarrow> byte list \<Rightarrow> nat \<Rightarrow> attr_block res" where
  "parse_attr_block sb buf ino =
     and_then (be16 buf 8) (\<lambda>magic.
     let v5 = is_v5 sb; leaf = (if v5 then LEAF_MAGIC_V5 else LEAF_MAGIC_V4); node = (if v5 then NODE_MAGIC_V5 else NODE_MAGIC_V4) in
     if magic \<noteq> leaf \<and> magic \<noteq> node then Err Corrupt
     else and_then (if v5 then
                      if \<not> verify buf 12 then Err Corrupt
                      else and_then (be64 buf 48) (\<lambda>owner. if owner \<noteq> ino then Err Corrupt else Ok ())
                    else Ok ()) (\<lambda>_.
     if magic = node then
       let count_at = (if v5 then 56 else 12); entries = (if v5 then 64 else 16) in
       and_then (be16 buf count_at) (\<lambda>n.
       if n = 0 then Err Corrupt else map_ok Node (be32 buf (entries + 4)))
     else
       let count_at = (if v5 then 56 else 12); entries = (if v5 then 80 else 32) in
       and_then (be16 buf count_at) (\<lambda>n.
       if entries + n * 8 > length buf then Err Corrupt
       else and_then (map_res (\<lambda>i. leaf_entry buf (entries + i * 8)) [0..<n]) (\<lambda>found.
       map_ok (Leaf (concat found)) (be32 buf 0)))))"

definition remote_blocks :: "superblock \<Rightarrow> nat \<Rightarrow> nat res" where
  "remote_blocks sb len =
     and_then (if is_v5 sb then sub_w (sb_block_size sb) RMT_HDR else Ok (sb_block_size sb)) (\<lambda>per.
     if per = 0 then Panic else Ok (div_ceil len per))"

definition remote_payload :: "superblock \<Rightarrow> byte list \<Rightarrow> nat \<Rightarrow> nat \<Rightarrow> byte list res" where
  "remote_payload sb buf ino want =
     (if \<not> is_v5 sb then get buf 0 (min want (length buf))
      else and_then (be32 buf 0) (\<lambda>magic.
      if magic \<noteq> RMT_MAGIC \<or> \<not> verify buf 12 then Err Corrupt
      else and_then (be64 buf 32) (\<lambda>owner.
      if owner \<noteq> ino then Err Corrupt
      else and_then (be32 buf 8) (\<lambda>bytes.
      if RMT_HDR + bytes > length buf then Err Corrupt else get buf RMT_HDR bytes))))"

section \<open>Lemmas\<close>

text \<open>What every found attribute satisfies: a valid name with the prefix of a namespace.\<close>

definition name_ok :: "byte list \<Rightarrow> bool" where
  "name_ok name \<longleftrightarrow> utf8 name \<and>
     (\<exists>pre \<in> {''security.'', ''system.posix_acl_'', ''trusted.'', ''user.''}. \<exists>s. name = ascii pre @ s)"

lemma utf8_append: "utf8 a \<Longrightarrow> utf8 b \<Longrightarrow> utf8 (a @ b)"
proof (induction rule: utf8.induct)
  case (char c bs)
  have "utf8_step (take (length c) (c @ bs) @ bs @ b) = (length c, True)"
    by (rule utf8_step_true(2)) (use char.hyps in simp_all)
  then show ?case using char utf8.char [of c "bs @ b"] by simp
qed simp

lemma utf8_literals:
  "utf8 (ascii ''security.'')" "utf8 (ascii ''trusted.'')" "utf8 (ascii ''user.'')"
  "utf8 (ascii ''system.posix_acl_access'')" "utf8 (ascii ''system.posix_acl_default'')"
  by (rule utf8_ascii; simp add: ascii_def)+

lemma length_ascii [simp]: "length (ascii s) = length s"
  by (simp add: ascii_def)

lemma full_name_ok: "full_name flags raw = Some name \<Longrightarrow> name_ok name"
proof -
  assume a: "full_name flags raw = Some name"
  have acl: "ascii ''system.posix_acl_access'' = ascii ''system.posix_acl_'' @ ascii ''access''"
    "ascii ''system.posix_acl_default'' = ascii ''system.posix_acl_'' @ ascii ''default''" by (simp_all add: ascii_def)
  have u: "utf8 (a @ utf8_lossy bs)" if "utf8 a" for a bs using that by (rule utf8_append [OF _ utf8_lossy_is_utf8])
  have "name_ok (ascii ''security.'' @ utf8_lossy bs)" "name_ok (ascii ''trusted.'' @ utf8_lossy bs)"
    "name_ok (ascii ''user.'' @ utf8_lossy bs)" for bs
    using u utf8_literals unfolding name_ok_def by blast+
  moreover have "name_ok (ascii ''system.posix_acl_access'')" "name_ok (ascii ''system.posix_acl_default'')"
    using acl utf8_literals unfolding name_ok_def by blast+
  ultimately show "name_ok name"
    using a unfolding full_name_def Let_def by (auto simp del: length_ascii split: if_splits)
qed

text \<open>The found attributes of a buffer: valid names, and inline values that are slices of it.\<close>

definition is_slice :: "'a list \<Rightarrow> 'a list \<Rightarrow> bool" where
  "is_slice buf v \<longleftrightarrow> (\<exists>i n. i + n \<le> length buf \<and> v = seg buf i n)"

lemma is_slice_seg [simp]: "i + n \<le> length buf \<Longrightarrow> is_slice buf (seg buf i n)"
  by (auto simp: is_slice_def)

definition found_ok :: "byte list \<Rightarrow> found \<Rightarrow> bool" where
  "found_ok buf f \<longleftrightarrow> name_ok (fd_name f) \<and>
     (\<forall>v. fd_value f = Inline v \<longrightarrow> is_slice buf v)"

lemma short_attrs_ok:
  assumes "lim \<le> length fork" and "\<forall>f \<in> set out. found_ok fork f"
  shows "case short_attrs fork lim n p out of Ok fs \<Rightarrow> \<forall>f \<in> set fs. found_ok fork f | Err e \<Rightarrow> e = Corrupt | Panic \<Rightarrow> False"
  using assms
proof (induction n arbitrary: p out)
  case (Suc n)
  show ?case
  proof (cases "p + 3 > lim")
    case False
    let ?nl = "unat (fork ! p)" and ?vl = "unat (fork ! (p + 1))"
    have i: "p < length fork" "p + 1 < length fork" "p + 2 < length fork" using False Suc.prems(1) by linarith+
    show ?thesis
    proof (cases "p + 3 + ?nl + ?vl > lim")
      case True
      then show ?thesis using False i by (simp add: Let_def)
    next
      case fit: False
      have b: "p + 3 + ?nl \<le> length fork" "p + 3 + ?nl + ?vl \<le> length fork" using fit Suc.prems(1) by linarith+
      show ?thesis
      proof (cases "full_name (fork ! (p + 2)) (seg fork (p + 3) ?nl)")
        case None
        then show ?thesis using Suc False i fit b by (simp add: Let_def)
      next
        case (Some name)
        let ?f = "\<lparr>fd_name = name, fd_value = Inline (seg fork (p + 3 + ?nl) ?vl)\<rparr>"
        have "found_ok fork ?f" using full_name_ok [OF Some] b by (auto simp: found_ok_def)
        then have "\<forall>f \<in> set (out @ [?f]). found_ok fork f" using Suc.prems(2) by auto
        then show ?thesis using Suc.IH [OF Suc.prems(1), of "out @ [?f]"] Some False i fit b by (simp add: Let_def)
      qed
    qed
  qed simp
qed simp

lemma parse_attr_shortform_ok:
  "case parse_attr_shortform fork of Ok fs \<Rightarrow> \<forall>f \<in> set fs. found_ok fork f | Err e \<Rightarrow> e = Corrupt | Panic \<Rightarrow> False"
  using short_attrs_ok [of "min (rd16 fork 0) (length fork)" fork "[]" "unat (fork ! 2)" 4]
  by (simp add: parse_attr_shortform_def)

lemma leaf_entry_ok:
  assumes "e + 8 \<le> length buf"
  shows "case leaf_entry buf e of Ok fs \<Rightarrow> \<forall>f \<in> set fs. found_ok buf f | Err x \<Rightarrow> x = Corrupt | Panic \<Rightarrow> False"
  using assms full_name_ok
  by (auto simp: leaf_entry_def Let_def found_ok_def split: if_splits option.splits)

lemma map_res_outcome:
  assumes "\<And>x. x \<in> set xs \<Longrightarrow> case f x of Ok ys \<Rightarrow> \<forall>y \<in> set ys. P y | Err e \<Rightarrow> e = err | Panic \<Rightarrow> False"
  shows "case map_res f xs of Ok yss \<Rightarrow> \<forall>y \<in> set (concat yss). P y | Err e \<Rightarrow> e = err | Panic \<Rightarrow> False"
  using assms
proof (induction xs)
  case (Cons x xs)
  have "case f x of Ok ys \<Rightarrow> \<forall>y \<in> set ys. P y | Err e \<Rightarrow> e = err | Panic \<Rightarrow> False" using Cons.prems by simp
  moreover have "case map_res f xs of Ok yss \<Rightarrow> \<forall>y \<in> set (concat yss). P y | Err e \<Rightarrow> e = err | Panic \<Rightarrow> False"
    using Cons by simp
  ultimately show ?case by (auto split: res.splits)
qed simp

lemma parse_attr_block_ok:
  assumes "512 \<le> length buf"
  shows "case parse_attr_block sb buf ino of
      Ok (Leaf fs forw) \<Rightarrow> (\<forall>f \<in> set fs. found_ok buf f) \<and> forw < 2 ^ 32
    | Ok (Node child) \<Rightarrow> child < 2 ^ 32
    | Err e \<Rightarrow> e = Corrupt | Panic \<Rightarrow> False"
proof -
  let ?at = "if is_v5 sb then 56 else 12" and ?ents = "if is_v5 sb then 80 else 32"
  let ?n = "rd16 buf ?at"
  have outcome: "case map_res (\<lambda>i. leaf_entry buf (?ents + i * 8)) [0..<?n] of
      Ok fss \<Rightarrow> \<forall>f \<in> set (concat fss). found_ok buf f | Err e \<Rightarrow> e = Corrupt | Panic \<Rightarrow> False" if "\<not> ?ents + ?n * 8 > length buf"
  proof (rule map_res_outcome)
    fix i assume "i \<in> set [0..<?n]"
    then have "i * 8 + 8 \<le> ?n * 8" by simp
    then show "case leaf_entry buf (?ents + i * 8) of Ok ys \<Rightarrow> \<forall>f \<in> set ys. found_ok buf f | Err e \<Rightarrow> e = Corrupt | Panic \<Rightarrow> False"
      using that by (intro leaf_entry_ok) linarith
  qed
  have r: "be16 buf 8 = Ok (rd16 buf 8)" "be64 buf 48 = Ok (rd64 buf 48)" "be16 buf ?at = Ok ?n" "be32 buf 0 = Ok (rd32 buf 0)"
    "be32 buf ((if is_v5 sb then 64 else 16) + 4) = Ok (rd32 buf ((if is_v5 sb then 64 else 16) + 4))"
    using assms by simp_all
  let ?chk = "if is_v5 sb then if \<not> verify buf 12 then Err Corrupt
    else and_then (Ok (rd64 buf 48)) (\<lambda>owner. if owner \<noteq> ino then Err Corrupt else Ok ()) else Ok ()"
  let ?leaf = "if is_v5 sb then LEAF_MAGIC_V5 else LEAF_MAGIC_V4" and ?node = "if is_v5 sb then NODE_MAGIC_V5 else NODE_MAGIC_V4"
  have "?chk = Ok () \<or> ?chk = Err Corrupt" by simp
  then consider "rd16 buf 8 \<noteq> ?leaf \<and> rd16 buf 8 \<noteq> ?node \<or> ?chk = Err Corrupt"
    | (node) "?chk = Ok ()" "rd16 buf 8 = ?node" | (leaf) "?chk = Ok ()" "rd16 buf 8 = ?leaf" "rd16 buf 8 \<noteq> ?node"
    by blast
  then show ?thesis
  proof cases
    case 1
    then show ?thesis unfolding parse_attr_block_def Let_def by (simp only: r and_then.simps) (auto simp del: not_None_eq)
  next
    case node
    then show ?thesis
      unfolding parse_attr_block_def Let_def using rd_less(2) [of buf "(if is_v5 sb then 64 else 16) + 4"]
      by (simp only: r and_then.simps) simp
  next
    case leaf
    have eq: "parse_attr_block sb buf ino =
      (if ?ents + ?n * 8 > length buf then Err Corrupt
       else and_then (map_res (\<lambda>i. leaf_entry buf (?ents + i * 8)) [0..<?n]) (\<lambda>found. Ok (Leaf (concat found) (rd32 buf 0))))"
      unfolding parse_attr_block_def Let_def using leaf by (simp only: r and_then.simps map_ok_simps) simp
    show ?thesis
    proof (cases "?ents + ?n * 8 > length buf")
      case False
      then show ?thesis
        unfolding eq using outcome [OF False] rd_less(2) [of buf 0]
        by (cases "map_res (\<lambda>i. leaf_entry buf (?ents + i * 8)) [0..<?n]") (simp_all only: if_False and_then.simps res.case, simp_all)
    qed (simp only: eq if_True res.case)
  qed
qed

text \<open>One entry of an ACL in the two forms, as the triple of tag, permissions and identity.\<close>

definition xfs_acl_entry :: "byte list \<Rightarrow> nat \<Rightarrow> nat \<times> nat \<times> nat" where
  "xfs_acl_entry xfs i = (rd32 xfs (4 + i * 12), rd16 xfs (4 + i * 12 + 8), rd32 xfs (4 + i * 12 + 4))"

definition le_at :: "byte list \<Rightarrow> nat \<Rightarrow> nat \<Rightarrow> nat" where
  "le_at b i n = from_le_bytes (seg b i n)"

lemma rd_drop: "rd32 (drop k b) i = rd32 b (k + i)" "rd16 (drop k b) i = rd16 b (k + i)"
  by (simp_all add: seg_def add.commute)

lemma acl_entry_eq:
  assumes "4 + i * 12 + 12 \<le> length xfs"
  shows "acl_entry xfs i = Ok (case xfs_acl_entry xfs i of (tag, perm, who) \<Rightarrow>
    to_le_bytes 2 tag @ to_le_bytes 2 perm @ to_le_bytes 4 (if tag = 2 \<or> tag = 8 then who else 0xffffffff))"
  using assms by (simp add: acl_entry_def xfs_acl_entry_def rd_drop Let_def add.commute)

lemma seg_concat_fixed:
  assumes "\<forall>x \<in> set xs. length x = w" and "i < length xs" and "j + n \<le> w"
  shows "seg (concat xs) (i * w + j) n = seg (xs ! i) j n"
  using assms
proof (induction xs arbitrary: i)
  case (Cons x xs)
  show ?case
  proof (cases i)
    case 0
    then show ?thesis using Cons.prems by (simp add: seg_append_left)
  next
    case (Suc k)
    have "w + k * w + j - length x = k * w + j" using Cons.prems(1) by simp
    then show ?thesis using Suc Cons.prems Cons.IH [of k] by (simp add: seg_append_right add.assoc)
  qed
qed simp

text \<open>How an attribute's remote value is put together from its blocks (volume.rs).\<close>

lemma remote_payload_ok:
  assumes "is_v5 sb \<Longrightarrow> 56 \<le> length buf"
  shows "case remote_payload sb buf ino want of
      Ok v \<Rightarrow> is_slice buf v \<and> length v \<le> (if is_v5 sb then length buf - 56 else length buf)
    | Err e \<Rightarrow> e = Corrupt | Panic \<Rightarrow> False"
  using assms by (auto simp: remote_payload_def Let_def split: if_splits)

section \<open>Properties\<close>

text \<open>
  C34. Attribute parsing is safe on any bytes: the short form and every block of at least 512
  bytes parse without a panic to a result or an error of corruption; each attribute found has
  a name that is valid UTF-8 and starts with a namespace, and an inline value that is a slice
  of what was parsed; block numbers fit 32 bits.
\<close>

theorem attr_parse_safe:
  assumes "512 \<le> length buf"
  shows "(case parse_attr_shortform fork of Ok fs \<Rightarrow> \<forall>f \<in> set fs. found_ok fork f | Err e \<Rightarrow> e = Corrupt | Panic \<Rightarrow> False) \<and>
    (case parse_attr_block sb buf ino of
       Ok (Leaf fs forw) \<Rightarrow> (\<forall>f \<in> set fs. found_ok buf f) \<and> forw < 2 ^ 32
     | Ok (Node child) \<Rightarrow> child < 2 ^ 32
     | Err e \<Rightarrow> e = Corrupt | Panic \<Rightarrow> False)"
  using parse_attr_shortform_ok parse_attr_block_ok [OF assms] by blast

theorem attr_parse_safe_witness:
  "parse_attr_shortform [0, 10, 1, 0, 1, 2, 0, 0x61, 8, 9] = Ok [\<lparr>fd_name = ascii ''user.a'', fd_value = Inline [8, 9]\<rparr>] \<and>
   name_ok (ascii ''user.a'')"
proof -
  have eq: "parse_attr_shortform [0, 10, 1, 0, 1, 2, 0, 0x61, 8, 9] = Ok [\<lparr>fd_name = ascii ''user.a'', fd_value = Inline [8, 9]\<rparr>]"
    by code_simp
  have "(512 :: nat) \<le> length (replicate 512 (0 :: byte))" by simp
  from attr_parse_safe [OF this, of "[0, 10, 1, 0, 1, 2, 0, 0x61, 8, 9]"] eq show ?thesis by (simp add: found_ok_def)
qed

text \<open>
  The conversion of an ACL: it fails exactly when the value is shorter than its count
  says; otherwise the result is the version 2 and, for each entry in order, the tag (its low
  16 bits), the permissions and the identity of named users and groups, all ones for the
  others, in little-endian.
\<close>

lemma posix_acl_spec:
  "if length xfs < 4 \<or> length xfs < 4 + rd32 xfs 0 * 12 then posix_acl xfs = Err Corrupt
   else \<exists>out. posix_acl xfs = Ok out \<and> length out = 4 + rd32 xfs 0 * 8 \<and> le_at out 0 4 = 2 \<and>
     (\<forall>i < rd32 xfs 0. case xfs_acl_entry xfs i of (tag, perm, who) \<Rightarrow>
        le_at out (4 + i * 8) 2 = tag mod 2 ^ 16 \<and> le_at out (4 + i * 8 + 2) 2 = perm \<and>
        le_at out (4 + i * 8 + 4) 4 = (if tag = 2 \<or> tag = 8 then who else 2 ^ 32 - 1))"
proof (cases "length xfs < 4 \<or> length xfs < 4 + rd32 xfs 0 * 12")
  case True
  then show ?thesis by (auto simp: posix_acl_def)
next
  case False
  let ?n = "rd32 xfs 0"
  let ?e = "\<lambda>i. case xfs_acl_entry xfs i of (tag, perm, who) \<Rightarrow>
    to_le_bytes 2 tag @ to_le_bytes 2 perm @ to_le_bytes 4 (if tag = 2 \<or> tag = 8 then who else 0xffffffff)"
  let ?es = "map ?e [0..<?n]"
  let ?out = "to_le_bytes 4 2 @ concat ?es"
  have "4 + i * 12 + 12 \<le> length xfs" if "i < ?n" for i
  proof -
    have "Suc i * 12 \<le> ?n * 12" using that by (intro mult_le_mono1) simp
    then show ?thesis using False by simp
  qed
  then have ok: "posix_acl xfs = Ok ?out"
    using False map_res_Ok [of "[0..<?n]" "acl_entry xfs" ?e] acl_entry_eq by (simp add: posix_acl_def)
  have w: "\<forall>x \<in> set ?es. length x = 8" by (auto simp: split: prod.splits)
  have len: "length ?out = 4 + ?n * 8"
    using w by (simp add: length_concat comp_def sum_list_triv case_prod_unfold)
  have at: "le_at ?out (4 + i * 8 + j) n = from_le_bytes (seg (?e i) j n)" if "i < ?n" "j + n \<le> 8" for i j n
  proof -
    have "seg ?out (4 + i * 8 + j) n = seg (concat ?es) (i * 8 + j) n" by (simp add: seg_append_right)
    also have "\<dots> = seg (?es ! i) j n" by (rule seg_concat_fixed [OF w]) (use that in simp_all)
    finally show ?thesis using that by (simp add: le_at_def)
  qed
  have "case xfs_acl_entry xfs i of (tag, perm, who) \<Rightarrow>
      le_at ?out (4 + i * 8) 2 = tag mod 2 ^ 16 \<and> le_at ?out (4 + i * 8 + 2) 2 = perm \<and>
      le_at ?out (4 + i * 8 + 4) 4 = (if tag = 2 \<or> tag = 8 then who else 2 ^ 32 - 1)" if i: "i < ?n" for i
    using at [OF i, of 0 2] at [OF i, of 2 2] at [OF i, of 4 4] rd_less [of xfs "4 + i * 12"] rd_less [of xfs "4 + i * 12 + 8"] rd_less [of xfs "4 + i * 12 + 4"]
    by (simp add: xfs_acl_entry_def seg_append_left seg_append_right from_to_le_bytes)
  moreover have "le_at ?out 0 4 = 2" by (simp add: le_at_def seg_append_left from_to_le_bytes)
  ultimately show ?thesis using False ok len by auto
qed

definition demo_acl :: "byte list" where
  "demo_acl = [0, 0, 0, 1, 0, 0, 0, 1, 0, 0, 0, 9, 0, 7, 0, 0]"

lemma posix_acl_spec_witness:
  "\<exists>out. posix_acl demo_acl = Ok out \<and> length out = 12 \<and> le_at out 0 4 = 2 \<and> le_at out 4 2 = 1 \<and> le_at out 6 2 = 7 \<and>
     le_at out 8 4 = 2 ^ 32 - 1"
proof -
  have r: "length demo_acl = 16" "rd32 demo_acl 0 = 1" "xfs_acl_entry demo_acl 0 = (1, 7, 9)"
    by (simp_all add: demo_acl_def xfs_acl_entry_def seg_def from_be_bytes_def)
  show ?thesis using posix_acl_spec [of demo_acl] r by auto
qed

end
