(* ===== verification/Volume.thy ===== *)
theory Volume
  imports Alloc Log Dir Attr "HOL-Library.List_Lexorder"
begin

text \<open>
  Reading an open filesystem (\<open>src/src/volume.rs\<close>): opening with the check of the log, blocks
  and inodes, the map of a fork and its bytes, directories, symbolic links and extended
  attributes. The writer's state (\<open>DirState\<close> and \<open>Writer\<close> of \<open>src/src/write.rs\<close>) is here
  too, since a directory changed in memory is read from it. Every operation takes the device's
  operations and the volume; loops over blocks and trees are recursions that are shown to end
  by the bounds the code itself checks.
\<close>

unbundle bit_operations_syntax

abbreviation (input) "MAX_SYMLINKS \<equiv> 40 :: nat"
abbreviation (input) "MAX_LINK \<equiv> 1024 :: nat"
abbreviation (input) "SYMLINK_HDR \<equiv> 56 :: nat"
abbreviation (input) "SYMLINK_MAGIC \<equiv> 0x58534c4d :: nat"

section \<open>State\<close>

record dir_state =
  ds_parent :: nat
  ds_names :: "(byte list, nat \<times> byte) btree_map"

record vwriter =
  vw_ags :: "(nat, ag) btree_map"
  vw_dirs :: "(nat, dir_state) btree_map"
  vw_rng :: "64 word"
  vw_new_chunks :: nat

record 'd volume =
  v_dev :: 'd
  v_sb :: superblock
  v_log :: log_state
  v_w :: "vwriter option"
  v_time :: "timestamp option"

definition cached_entries :: "vwriter \<Rightarrow> nat \<Rightarrow> raw_entry list option" where
  "cached_entries w ino =
     map_option (\<lambda>d.
       [\<lparr>re_name = [0x2e], re_ino = ino, re_ftype = Directory\<rparr>,
        \<lparr>re_name = [0x2e, 0x2e], re_ino = ds_parent d, re_ftype = Directory\<rparr>] @
       map (\<lambda>(n, i, t). \<lparr>re_name = n, re_ino = i, re_ftype = from_ftype t\<rparr>) (ds_names d))
       (om_get (vw_dirs w) ino)"

section \<open>Opening\<close>

definition open_norecovery :: "'d device_ops \<Rightarrow> 'd \<Rightarrow> 'd volume res" where
  "open_norecovery ops dev =
     (if dev_size ops dev < 512 then Err NotXfs
      else and_then (dev_read_at ops dev 0 512) (\<lambda>buf0.
      and_then (get buf0 102 2) (\<lambda>s.
      let sct = from_be_bytes s in
      and_then (if sct > 512 \<and> sct \<le> 32768 \<and> sct \<le> dev_size ops dev then dev_read_at ops dev 0 sct else Ok buf0) (\<lambda>buf.
      and_then (parse_sb buf) (\<lambda>sb.
      let total = sb_data_blocks sb * sb_block_size sb in
      if \<not> total < 2 ^ 64 \<or> total > dev_size ops dev then Err Corrupt
      else and_then (case state ops dev sb of Err Corrupt \<Rightarrow> Ok Unreadable | r \<Rightarrow> r) (\<lambda>log.
      Ok \<lparr>v_dev = dev, v_sb = sb, v_log = log, v_w = None, v_time = None\<rparr>))))))"

definition open_volume :: "'d device_ops \<Rightarrow> 'd \<Rightarrow> 'd volume res" where
  "open_volume ops dev =
     and_then (open_norecovery ops dev) (\<lambda>vol.
     case v_log vol of
       Dirty head tail \<Rightarrow> Err (DirtyLog head tail)
     | Unreadable \<Rightarrow> Err Corrupt
     | _ \<Rightarrow> Ok vol)"

section \<open>Blocks and inodes\<close>

definition read_blocks :: "'d device_ops \<Rightarrow> 'd volume \<Rightarrow> nat \<Rightarrow> nat \<Rightarrow> byte list res" where
  "read_blocks ops v fsb n =
     and_then (fsb_to_byte (v_sb v) fsb) (\<lambda>at.
     and_then (shl_w 64 n (sb_block_log (v_sb v))) (\<lambda>len.
     and_then (add_w 64 fsb n) (\<lambda>s.
     and_then (sub_w s 1) (\<lambda>lst.
     and_then (fsb_to_byte (v_sb v) lst) (\<lambda>_.
     dev_read_at ops (v_dev v) at len)))))"

definition read_inode :: "'d device_ops \<Rightarrow> 'd volume \<Rightarrow> nat \<Rightarrow> inode res" where
  "read_inode ops v ino =
     and_then (ino_to_byte (v_sb v) ino) (\<lambda>at.
     let bs = sb_block_size (v_sb v) in
     and_then (sub_w bs 1) (\<lambda>mask.
     let block_at = and_not at mask in
     and_then (dev_read_at ops (v_dev v) block_at bs) (\<lambda>buf.
     and_then (get_from buf (at - block_at)) (\<lambda>b. parse_inode (v_sb v) ino b))))"

text \<open>
  The walk of an extent tree. The blocks seen are both the set that detects a loop and the
  result; their number is bounded by the blocks the inode says it has.
\<close>

function fork_walk ::
  "'d device_ops \<Rightarrow> 'd volume \<Rightarrow> inode \<Rightarrow> (nat \<times> nat) list \<Rightarrow> extent list \<Rightarrow> nat list \<Rightarrow> (extent list \<times> nat list) res" where
  "fork_walk ops v ip [] out blocks = Ok (out, blocks)"
| "fork_walk ops v ip ((fsb, want) # stack) out blocks =
     (if fsb \<in> set blocks then Err Corrupt
      else and_then (add_w 64 (i_nblocks ip) 1) (\<lambda>lim.
      if length blocks + 1 > lim then Err Corrupt
      else and_then (read_blocks ops v fsb 1) (\<lambda>buf.
      and_then (check_btree_block (v_sb v) buf fsb (i_ino ip)) (\<lambda>(lvl, n).
      if lvl \<noteq> want then Err Corrupt
      else if lvl = 0 then
        and_then (leaf_extents (v_sb v) buf n) (\<lambda>xs. fork_walk ops v ip stack (out @ xs) (blocks @ [fsb]))
      else
        and_then (node_ptrs (v_sb v) buf n) (\<lambda>ps.
        fork_walk ops v ip (map (\<lambda>p. (p, lvl - 1)) ps @ stack) out (blocks @ [fsb]))))))"
  by pat_completeness auto
termination
  by (relation "measure (\<lambda>(ops, v, ip, stack, out, blocks). i_nblocks ip + 1 - length blocks)") (auto simp: add_w_def split: if_splits)

definition fork_map :: "'d device_ops \<Rightarrow> 'd volume \<Rightarrow> inode \<Rightarrow> bool \<Rightarrow> (extent list \<times> nat list) res" where
  "fork_map ops v ip attr =
     (if attr \<and> i_aformat ip = None then Ok ([], [])
      else
        let (format, fork, n) = (if attr then (the (i_aformat ip), i_attr_fork ip, i_anextents ip)
                                 else (i_format ip, i_data_fork ip, i_nextents ip)) in
        case format of
          Extents \<Rightarrow> and_then (inline_extents fork n) (\<lambda>xs. map_ok (\<lambda>xs. (xs, [])) (finish xs))
        | Btree \<Rightarrow>
            and_then (btree_root fork) (\<lambda>(level, ptrs).
            and_then (sub_w level 1) (\<lambda>below.
            and_then (fork_walk ops v ip (map (\<lambda>p. (p, below)) ptrs) [] []) (\<lambda>(out, blocks).
            if \<not> attr \<and> length out \<noteq> i_nextents ip then Err Corrupt
            else map_ok (\<lambda>xs. (xs, blocks)) (finish out))))
        | _ \<Rightarrow> Ok ([], []))"

definition extents :: "'d device_ops \<Rightarrow> 'd volume \<Rightarrow> inode \<Rightarrow> bool \<Rightarrow> extent list res" where
  "extents ops v ip attr = map_ok fst (fork_map ops v ip attr)"

text \<open>The extents that meet the range, each copied to its place.\<close>

primrec mapped_loop ::
  "'d device_ops \<Rightarrow> 'd volume \<Rightarrow> nat \<Rightarrow> nat \<Rightarrow> extent list \<Rightarrow> byte list \<Rightarrow> byte list res" where
  "mapped_loop ops v lblk e [] out = Ok out"
| "mapped_loop ops v lblk e (x # xs) out =
     (if x_offset x \<ge> e then Ok out
      else if x_unwritten x then mapped_loop ops v lblk e xs out
      else
        let from = max (x_offset x) lblk; to = min (x_end x) e in
        and_then (sub_w to from) (\<lambda>n.
        and_then (read_blocks ops v (x_block x + (from - x_offset x)) n) (\<lambda>data.
        and_then (copy_in out ((from - lblk) * sb_block_size (v_sb v)) data) (\<lambda>out.
        mapped_loop ops v lblk e xs out))))"

definition read_mapped :: "'d device_ops \<Rightarrow> 'd volume \<Rightarrow> extent list \<Rightarrow> nat \<Rightarrow> nat \<Rightarrow> byte list res" where
  "read_mapped ops v exts lblk n =
     and_then (mul_w 64 n (sb_block_size (v_sb v))) (\<lambda>len.
     and_then (add_w 64 lblk n) (\<lambda>e.
     mapped_loop ops v lblk e (drop (partition_point (\<lambda>x. x_end x \<le> lblk) exts) exts) (replicate len 0)))"

definition read_inode_range ::
  "'d device_ops \<Rightarrow> 'd volume \<Rightarrow> inode \<Rightarrow> extent list \<Rightarrow> nat \<Rightarrow> nat \<Rightarrow> byte list res" where
  "read_inode_range ops v ip exts offset len =
     (if offset \<ge> i_size ip \<or> len = 0 then Ok []
      else
        let len = min len (i_size ip - offset) in
        if i_format ip = Local then
          if offset + len > length (i_data_fork ip) then Err Corrupt
          else get (i_data_fork ip) offset len
        else if is_realtime ip then Err Unsupported
        else
          let lg = sb_block_log (v_sb v); first = offset div 2 ^ lg; lst = (offset + len - 1) div 2 ^ lg in
          and_then (read_mapped ops v exts first (lst - first + 1)) (\<lambda>buf.
          get buf (offset - first * 2 ^ lg) len))"

section \<open>Directories\<close>

text \<open>The directory blocks that start in one extent, from \<open>lblk\<close> on; \<open>next\<close> is where the next extent goes on.\<close>

function dir_loop ::
  "'d device_ops \<Rightarrow> 'd volume \<Rightarrow> nat \<Rightarrow> extent list \<Rightarrow> nat \<Rightarrow> nat \<Rightarrow> nat \<Rightarrow> raw_entry list \<Rightarrow> nat \<Rightarrow> (raw_entry list \<times> nat) res" where
  "dir_loop ops v ino exts k lim lblk out next =
     (if lblk < lim then
        and_then (read_mapped ops v exts lblk (2 ^ k)) (\<lambda>buf.
        and_then (parse_data_block (v_sb v) buf ino out) (\<lambda>out.
        dir_loop ops v ino exts k lim (lblk + 2 ^ k) out (lblk + 2 ^ k)))
      else Ok (out, next))"
  by pat_completeness auto
termination
proof (relation "measure (\<lambda>(ops, v, ino, exts, k, lim, lblk, out, next). lim - lblk)", goal_cases)
  case (2 ops v ino exts k lim lblk)
  moreover have "(0 :: nat) < 2 ^ k" by simp
  ultimately show ?case unfolding in_measure split_conv by linarith
qed simp

declare dir_loop.simps [simp del]

definition dir_extents ::
  "'d device_ops \<Rightarrow> 'd volume \<Rightarrow> nat \<Rightarrow> extent list \<Rightarrow> raw_entry list res" where
  "dir_extents ops v ino exts =
     (let k = sb_dirblk_log (v_sb v); limit = LEAF_OFFSET div 2 ^ sb_block_log (v_sb v) in
      and_then (shl_w 64 1 k) (\<lambda>per.
      map_ok fst (fold_res (\<lambda>e (out, next).
        dir_loop ops v ino exts k (min (x_end e) limit) (max (and_not (x_offset e) (per - 1)) next) out next)
        exts ([], 0))))"

definition dir_entries :: "'d device_ops \<Rightarrow> 'd volume \<Rightarrow> inode \<Rightarrow> raw_entry list res" where
  "dir_entries ops v ip =
     (if \<not> is_dir ip then Err NotADirectory
      else case Option.bind (v_w v) (\<lambda>w. cached_entries w (i_ino ip)) of
        Some names \<Rightarrow> Ok names
      | None \<Rightarrow>
          if i_format ip = Local then
            and_then (parse_shortform (v_sb v) (i_data_fork ip) (i_size ip)) (\<lambda>(parent, names).
            Ok ([\<lparr>re_name = [0x2e], re_ino = i_ino ip, re_ftype = Directory\<rparr>,
                 \<lparr>re_name = [0x2e, 0x2e], re_ino = parent, re_ftype = Directory\<rparr>] @ names))
          else and_then (extents ops v ip False) (dir_extents ops v (i_ino ip)))"

definition dir_lookup :: "'d device_ops \<Rightarrow> 'd volume \<Rightarrow> inode \<Rightarrow> byte list \<Rightarrow> nat option res" where
  "dir_lookup ops v ip name =
     map_ok (\<lambda>es. map_option re_ino (List.find (\<lambda>e. re_name e = name) es)) (dir_entries ops v ip)"

record entry =
  en_name :: "byte list"
  en_raw_name :: "byte list"
  en_inode :: nat
  en_kind :: file_type
  en_is_dir :: bool

definition read_dir_inode :: "'d device_ops \<Rightarrow> 'd volume \<Rightarrow> inode \<Rightarrow> entry list res" where
  "read_dir_inode ops v ip =
     and_then (dir_entries ops v ip) (\<lambda>es.
     map_res (\<lambda>e.
       map_ok (\<lambda>kind. \<lparr>en_name = utf8_lossy (re_name e), en_raw_name = re_name e, en_inode = re_ino e,
                      en_kind = kind, en_is_dir = (kind = Directory)\<rparr>)
         (if re_ftype e = Unknown then map_ok (\<lambda>i. from_mode (i_mode i)) (read_inode ops v (re_ino e)) else Ok (re_ftype e)))
       (filter (\<lambda>e. re_name e \<noteq> [0x2e] \<and> re_name e \<noteq> [0x2e, 0x2e]) es))"

section \<open>Symbolic links\<close>

primrec link_loop ::
  "'d device_ops \<Rightarrow> 'd volume \<Rightarrow> nat \<Rightarrow> nat \<Rightarrow> extent list \<Rightarrow> byte list \<Rightarrow> byte list res" where
  "link_loop ops v ino sz [] out = Ok out"
| "link_loop ops v ino sz (e # es) out =
     (if length out \<ge> sz then Ok out
      else if x_unwritten e then Err Corrupt
      else
        and_then (read_blocks ops v (x_block e) (x_count e)) (\<lambda>buf.
        and_then (be32 buf 8) (\<lambda>bytes.
        and_then (be32 buf 0) (\<lambda>magic.
        if magic \<noteq> SYMLINK_MAGIC \<or> \<not> verify buf 12 then Err Corrupt
        else and_then (be64 buf 32) (\<lambda>owner.
        if owner \<noteq> ino then Err Corrupt
        else and_then (be32 buf 4) (\<lambda>off.
        if off \<noteq> length out \<or> SYMLINK_HDR + bytes > length buf then Err Corrupt
        else and_then (get buf SYMLINK_HDR bytes) (\<lambda>part.
        link_loop ops v ino sz es (out @ part))))))))"

definition symlink_target :: "'d device_ops \<Rightarrow> 'd volume \<Rightarrow> inode \<Rightarrow> byte list res" where
  "symlink_target ops v ip =
     (if file_type ip \<noteq> IFLNK then Err NotASymlink
      else if i_size ip = 0 \<or> i_size ip > MAX_LINK then Err Corrupt
      else if i_format ip = Local then
        if i_size ip > length (i_data_fork ip) then Err Corrupt else get (i_data_fork ip) 0 (i_size ip)
      else
        and_then (extents ops v ip False) (\<lambda>exts.
        if \<not> is_v5 (v_sb v) then
          if sb_block_size (v_sb v) = 0 then Panic
          else and_then (read_mapped ops v exts 0 (div_ceil (i_size ip) (sb_block_size (v_sb v)))) (\<lambda>buf. get buf 0 (i_size ip))
        else
          and_then (link_loop ops v (i_ino ip) (i_size ip) exts []) (\<lambda>out.
          if length out \<noteq> i_size ip then Err Corrupt else Ok out)))"

section \<open>Extended attributes\<close>

function attr_loop ::
  "'d device_ops \<Rightarrow> 'd volume \<Rightarrow> nat \<Rightarrow> extent list \<Rightarrow> nat \<Rightarrow> nat list \<Rightarrow> found list \<Rightarrow> found list res" where
  "attr_loop ops v ino exts blk seen found =
     (if blk \<in> set seen \<or> length seen + 1 > 2 ^ 20 then Err Corrupt
      else and_then (read_mapped ops v exts blk 1) (\<lambda>buf.
      and_then (parse_attr_block (v_sb v) buf ino) (\<lambda>b.
      case b of
        Node first_child \<Rightarrow> attr_loop ops v ino exts first_child (blk # seen) found
      | Leaf f forw \<Rightarrow>
          if forw = 0 then Ok (found @ f) else attr_loop ops v ino exts forw (blk # seen) (found @ f))))"
  by pat_completeness auto
termination
  by (relation "measure (\<lambda>(ops, v, ino, exts, blk, seen, found). 2 ^ 20 - length seen)") auto

declare attr_loop.simps [simp del]

definition attrs_found :: "'d device_ops \<Rightarrow> 'd volume \<Rightarrow> inode \<Rightarrow> found list res" where
  "attrs_found ops v ip =
     (case i_aformat ip of
        None \<Rightarrow> Ok []
      | Some Local \<Rightarrow> parse_attr_shortform (i_attr_fork ip)
      | Some Dev \<Rightarrow> Err Corrupt
      | Some f \<Rightarrow>
          if f = Extents \<and> i_anextents ip = 0 then Ok []
          else and_then (extents ops v ip True) (\<lambda>exts. attr_loop ops v (i_ino ip) exts 0 [] []))"

text \<open>The blocks of a remote value, put together.\<close>

primrec remote_loop ::
  "'d device_ops \<Rightarrow> 'd volume \<Rightarrow> nat \<Rightarrow> extent list \<Rightarrow> nat \<Rightarrow> nat \<Rightarrow> nat list \<Rightarrow> byte list \<Rightarrow> byte list res" where
  "remote_loop ops v ino exts first len [] val = Ok val"
| "remote_loop ops v ino exts first len (i # is) val =
     and_then (read_mapped ops v exts (first + i) 1) (\<lambda>buf.
     and_then (sub_w len (length val)) (\<lambda>want.
     and_then (remote_payload (v_sb v) buf ino want) (\<lambda>part.
     remote_loop ops v ino exts first len is (val @ part))))"

definition attr_fetch :: "'d device_ops \<Rightarrow> 'd volume \<Rightarrow> inode \<Rightarrow> found \<Rightarrow> xattr res" where
  "attr_fetch ops v ip f =
     and_then (case fd_value f of
        Inline val \<Rightarrow> Ok val
      | Remote first len \<Rightarrow>
          and_then (extents ops v ip True) (\<lambda>exts.
          and_then (remote_blocks (v_sb v) len) (\<lambda>n.
          and_then (remote_loop ops v (i_ino ip) exts first len [0..<n] []) (\<lambda>val.
          if length val \<noteq> len then Err Corrupt else Ok val)))) (\<lambda>val.
     map_ok (\<lambda>val. \<lparr>xa_name = fd_name f, xa_value = val\<rparr>)
       (if take 17 (fd_name f) = ascii ''system.posix_acl_'' then posix_acl val else Ok val))"

definition xattrs_inode :: "'d device_ops \<Rightarrow> 'd volume \<Rightarrow> inode \<Rightarrow> xattr list res" where
  "xattrs_inode ops v ip = and_then (attrs_found ops v ip) (map_res (attr_fetch ops v ip))"

section \<open>Runs of blocks\<close>

text \<open>A run of blocks inside one allocation group, and the byte address of a block.\<close>

definition in_ag :: "superblock \<Rightarrow> nat \<Rightarrow> nat \<Rightarrow> bool" where
  "in_ag sb fsb n \<longleftrightarrow> fsb div 2 ^ sb_agblk_log sb < sb_ag_count sb \<and> fsb mod 2 ^ sb_agblk_log sb + n \<le> sb_ag_blocks sb"

definition fsb_addr :: "superblock \<Rightarrow> nat \<Rightarrow> nat" where
  "fsb_addr sb fsb = (fsb div 2 ^ sb_agblk_log sb * sb_ag_blocks sb + fsb mod 2 ^ sb_agblk_log sb) * sb_block_size sb"

lemma in_ag_shift:
  assumes "wf_sb sb" and "in_ag sb fsb n" and "i < n"
  shows "(fsb + i) div 2 ^ sb_agblk_log sb = fsb div 2 ^ sb_agblk_log sb"
    and "(fsb + i) mod 2 ^ sb_agblk_log sb = fsb mod 2 ^ sb_agblk_log sb + i"
    and "fsb_addr sb (fsb + i) = fsb_addr sb fsb + i * sb_block_size sb"
proof -
  let ?m = "2 ^ sb_agblk_log sb :: nat"
  have "fsb mod ?m + i < ?m" using assms wf_sbD(15) [OF assms(1)] by (simp add: in_ag_def)
  then have "(fsb div ?m * ?m + (fsb mod ?m + i)) div ?m = fsb div ?m" "(fsb div ?m * ?m + (fsb mod ?m + i)) mod ?m = fsb mod ?m + i"
    by (simp_all only: shift_mask_nat)
  moreover have "fsb div ?m * ?m + (fsb mod ?m + i) = fsb + i" by (simp only: add.assoc [symmetric] div_mult_mod_eq)
  ultimately show *: "(fsb + i) div ?m = fsb div ?m" "(fsb + i) mod ?m = fsb mod ?m + i" by (simp_all only:)
  show "fsb_addr sb (fsb + i) = fsb_addr sb fsb + i * sb_block_size sb"
    unfolding fsb_addr_def * by (simp add: algebra_simps)
qed

lemma in_ag_sub:
  assumes "wf_sb sb" and "in_ag sb fsb n" and "i + m \<le> n" and "0 < m"
  shows "in_ag sb (fsb + i) m"
  using assms in_ag_shift(1,2) [OF assms(1,2), of i] by (simp add: in_ag_def)

lemma fsb_to_byte_in_ag:
  assumes "wf_sb sb" and "sb_fits sb" and "in_ag sb fsb n" and "0 < n"
  shows "fsb_to_byte sb fsb = Ok (fsb_addr sb fsb)"
    and "fsb_addr sb fsb + n * sb_block_size sb \<le> sb_ag_count sb * sb_ag_blocks sb * sb_block_size sb"
proof -
  let ?a = "fsb div 2 ^ sb_agblk_log sb" and ?b = "fsb mod 2 ^ sb_agblk_log sb"
  have ag: "?a < sb_ag_count sb" "?b < sb_ag_blocks sb" using assms by (simp_all add: in_ag_def)
  show "fsb_to_byte sb fsb = Ok (fsb_addr sb fsb)"
    using ag byte_no_wrap(2) [OF assms(1,2) ag] by (simp add: fsb_to_byte_eq fsb_addr_def Let_def)
  have "?a * sb_ag_blocks sb + (?b + n) \<le> Suc ?a * sb_ag_blocks sb" using assms(3) by (simp add: in_ag_def)
  also have "\<dots> \<le> sb_ag_count sb * sb_ag_blocks sb" using ag(1) by (intro mult_le_mono1) simp
  finally have "(?a * sb_ag_blocks sb + ?b + n) * sb_block_size sb \<le> sb_ag_count sb * sb_ag_blocks sb * sb_block_size sb"
    by (intro mult_le_mono1) simp
  then show "fsb_addr sb fsb + n * sb_block_size sb \<le> sb_ag_count sb * sb_ag_blocks sb * sb_block_size sb"
    by (simp add: fsb_addr_def add_mult_distrib)
qed

lemma seg_blocks: "seg c p (n * bs) = concat (map (\<lambda>i. seg c (p + i * bs) bs) [0..<n])"
proof (induction n)
  case (Suc n)
  have "seg c p (Suc n * bs) = seg c p (n * bs) @ seg c (p + n * bs) bs"
    by (simp only: seg_add [symmetric] mult_Suc add.commute)
  then show ?case using Suc by simp
qed simp

lemma length_concat_blocks: "(\<And>k. k \<in> set ks \<Longrightarrow> length (f k) = w) \<Longrightarrow> length (concat (map f ks)) = length ks * w"
  by (induction ks) auto

lemma patch_blocks:
  assumes "a \<le> i" and "i \<le> j" and "j \<le> b" and f: "\<And>k. length (f k) = w" and g: "\<And>k. i \<le> k \<Longrightarrow> k < j \<Longrightarrow> length (g k) = w"
  shows "patch (concat (map f [a..<b])) ((i - a) * w) (concat (map g [i..<j])) =
    concat (map (\<lambda>k. if i \<le> k \<and> k < j then g k else f k) [a..<b])"
proof -
  let ?h = "\<lambda>k. if i \<le> k \<and> k < j then g k else f k"
  have "[a..<b] = [a..<i] @ [i..<j] @ [j..<b]"
    using upt_add_eq_append [of a i "b - i"] upt_add_eq_append [of i j "b - j"] assms(1-3) by simp
  then have split: "concat (map h [a..<b]) = concat (map h [a..<i]) @ concat (map h [i..<j]) @ concat (map h [j..<b])" for h :: "nat \<Rightarrow> 'a list"
    by simp
  have len: "length (concat (map f [k..<l])) = (l - k) * w" for k l using length_concat_blocks [of "[k..<l]" f w] f by simp
  have gl: "length (concat (map g [i..<j])) = (j - i) * w" using length_concat_blocks [of "[i..<j]" g w] g by simp
  have h: "map ?h [a..<i] = map f [a..<i]" "map ?h [i..<j] = map g [i..<j]" "map ?h [j..<b] = map f [j..<b]" by auto
  show ?thesis
    unfolding split [of f] split [of ?h] h patch_def using len gl by simp
qed

text \<open>The bytes of a logical block: the block an extent maps, or zeroes.\<close>

definition lblock :: "byte list \<Rightarrow> superblock \<Rightarrow> extent list \<Rightarrow> nat \<Rightarrow> byte list" where
  "lblock c sb exts lblk =
     (case List.find (\<lambda>e. x_offset e \<le> lblk \<and> lblk < x_end e) exts of
        Some e \<Rightarrow> if x_unwritten e then replicate (sb_block_size sb) 0
                  else seg c (fsb_addr sb (x_block e + (lblk - x_offset e))) (sb_block_size sb)
      | None \<Rightarrow> replicate (sb_block_size sb) 0)"

definition exts_ok :: "superblock \<Rightarrow> extent list \<Rightarrow> bool" where
  "exts_ok sb exts \<longleftrightarrow> sorted_wrt before exts \<and>
     (\<forall>e \<in> set exts. 0 < x_count e \<and> x_end e < 2 ^ 64 \<and> (\<not> x_unwritten e \<longrightarrow> in_ag sb (x_block e) (x_count e)))"

text \<open>A volume whose device holds the whole filesystem.\<close>

definition vol_ok :: "('d \<Rightarrow> byte list) \<Rightarrow> ('d \<Rightarrow> bool) \<Rightarrow> 'd volume \<Rightarrow> bool" where
  "vol_ok content invar v \<longleftrightarrow> wf_sb (v_sb v) \<and> sb_fits (v_sb v) \<and> invar (v_dev v) \<and>
     sb_ag_count (v_sb v) * sb_ag_blocks (v_sb v) * sb_block_size (v_sb v) \<le> length (content (v_dev v))"

context block_device
begin

lemma read_blocks_ok:
  assumes "vol_ok content invar v" and "in_ag (v_sb v) fsb n" and "0 < n"
  shows "read_blocks ops v fsb n = Ok (seg (content (v_dev v)) (fsb_addr (v_sb v) fsb) (n * sb_block_size (v_sb v)))"
    and "fsb_addr (v_sb v) fsb + n * sb_block_size (v_sb v) \<le> length (content (v_dev v))"
proof -
  let ?sb = "v_sb v" and ?c = "content (v_dev v)"
  have wf: "wf_sb ?sb" "sb_fits ?sb" and inv: "invar (v_dev v)"
    and big: "sb_ag_count ?sb * sb_ag_blocks ?sb * sb_block_size ?sb \<le> length ?c"
    using assms(1) by (simp_all add: vol_ok_def)
  note f = fsb_to_byte_in_ag [OF wf assms(2,3)]
  have l: "fsb_to_byte ?sb (fsb + n - 1) = Ok (fsb_addr ?sb (fsb + n - 1))"
  proof -
    have "in_ag ?sb (fsb + (n - 1)) 1" using in_ag_sub [OF wf(1) assms(2), of "n - 1" 1] assms(3) by simp
    then show ?thesis using fsb_to_byte_in_ag(1) [OF wf, of "fsb + n - 1" 1] assms(3) by simp
  qed
  show le: "fsb_addr ?sb fsb + n * sb_block_size ?sb \<le> length ?c" using f(2) big by simp
  have "n * sb_block_size ?sb < 2 ^ 64" using le size_bound [OF inv] by simp
  moreover have "fsb + n < 2 ^ 64"
  proof -
    let ?m = "2 ^ sb_agblk_log ?sb :: nat"
    have "fsb + n = fsb div ?m * ?m + (fsb mod ?m + n)" by (simp only: add.assoc [symmetric] div_mult_mod_eq)
    also have "\<dots> \<le> fsb div ?m * ?m + ?m" using assms(2) wf_sbD(15) [OF wf(1)] by (simp add: in_ag_def)
    also have "\<dots> = Suc (fsb div ?m) * ?m" by simp
    also have "\<dots> \<le> sb_ag_count ?sb * ?m" using assms(2) by (intro mult_le_mono1) (simp add: in_ag_def)
    also have "\<dots> < 2 ^ 32 * 2 ^ 31"
      using wf_sbD(13) [OF wf(1)] power_increasing [OF wf_sbD(16) [OF wf(1)], of "2 :: nat"]
      by (intro mult_less_le_imp_less) (simp_all del: power_increasing_iff)
    finally show ?thesis by simp
  qed
  ultimately show "read_blocks ops v fsb n = Ok (seg ?c (fsb_addr ?sb fsb) (n * sb_block_size ?sb))"
    using f(1) l le wf_sbD(1,3) [OF wf(1)] assms(3)
    by (simp add: read_blocks_def shl_w_def add_w_def sub_w_def read_at [OF inv])
qed

lemma length_lblock:
  assumes "vol_ok content invar v" and "exts_ok (v_sb v) exts"
  shows "length (lblock (content (v_dev v)) (v_sb v) exts k) = sb_block_size (v_sb v)"
proof -
  have "fsb_addr (v_sb v) (x_block e + (k - x_offset e)) + sb_block_size (v_sb v) \<le> length (content (v_dev v))"
    if "e \<in> set exts" "x_offset e \<le> k" "k < x_end e" "\<not> x_unwritten e" for e
  proof -
    have "in_ag (v_sb v) (x_block e) (x_count e)" using that assms(2) by (simp add: exts_ok_def)
    then have "in_ag (v_sb v) (x_block e + (k - x_offset e)) 1"
      using that assms(1) by (intro in_ag_sub) (auto simp: x_end_def vol_ok_def)
    from read_blocks_ok(2) [OF assms(1) this] show ?thesis by simp
  qed
  then show ?thesis by (auto simp: lblock_def dest: find_Some_set split: option.splits)
qed

lemma mapped_loop_ok:
  assumes "vol_ok content invar v" and "exts_ok (v_sb v) (ys @ xs)" and "\<forall>x \<in> set xs. lblk < x_end x" and "lblk < e"
  shows "mapped_loop ops v lblk e xs (concat (map (lblock (content (v_dev v)) (v_sb v) ys) [lblk..<e])) =
    Ok (concat (map (lblock (content (v_dev v)) (v_sb v) (ys @ xs)) [lblk..<e]))"
  using assms
proof (induction xs arbitrary: ys)
  case (Cons x xs)
  let ?sb = "v_sb v" and ?c = "content (v_dev v)" and ?bs = "sb_block_size (v_sb v)"
  have sorted: "before a x" if "a \<in> set ys" for a using Cons.prems(2) that by (simp add: exts_ok_def sorted_wrt_append)
  have later: "before x b" if "b \<in> set xs" for b using Cons.prems(2) that by (simp add: exts_ok_def sorted_wrt_append)
  have ok: "exts_ok ?sb ((ys @ [x]) @ xs)" and ysok: "exts_ok ?sb ys"
    using Cons.prems(2) by (auto simp: exts_ok_def sorted_wrt_append)
  have out: "List.find (\<lambda>e. x_offset e \<le> k \<and> k < x_end e) ys = None" if "x_offset x \<le> k" for k
    using sorted that by (fastforce simp: find_None_iff before_def)
  have new: "lblock ?c ?sb (ys @ [x]) k = (if x_offset x \<le> k \<and> k < x_end x then lblock ?c ?sb [x] k else lblock ?c ?sb ys k)" for k
    using out [of k] by (auto simp: lblock_def find_append split: option.splits)
  show ?case
  proof (cases "x_offset x \<ge> e")
    case True
    then have ge: "e \<le> x_offset b" if "b \<in> set (x # xs)" for b using that later x_offset_le_end [of x] by (auto simp: before_def dest: le_trans)
    have "List.find (\<lambda>e. x_offset e \<le> k \<and> k < x_end e) (x # xs) = None" if "k < e" for k
      unfolding find_None_iff using ge that by (meson le_less_trans not_le)
    then have "lblock ?c ?sb (ys @ x # xs) k = lblock ?c ?sb ys k" if "k < e" for k
      using that by (auto simp: lblock_def find_append split: option.splits)
    then show ?thesis using True by (auto intro!: arg_cong [where f = concat])
  next
    case start: False
    show ?thesis
    proof (cases "x_unwritten x")
      case True
      have "lblock ?c ?sb (ys @ [x]) = lblock ?c ?sb ys"
        using out True by (auto simp: fun_eq_iff lblock_def find_append split: option.splits)
      then show ?thesis using Cons.IH [OF Cons.prems(1) ok] Cons.prems(3,4) start True by simp
    next
      case False
      let ?i = "max (x_offset x) lblk" and ?j = "min (x_end x) e"
      have ij: "?i < ?j" "lblk \<le> ?i" "?j \<le> e" "x_offset x \<le> ?i" "?j \<le> x_end x"
      proof -
        have "x_offset x < x_end x" using Cons.prems(2) by (simp add: exts_ok_def x_end_def)
        moreover have "lblk < x_end x" using Cons.prems(3) by simp
        ultimately show "?i < ?j" "lblk \<le> ?i" "?j \<le> e" "x_offset x \<le> ?i" "?j \<le> x_end x" using start Cons.prems(4) by simp_all
      qed
      let ?f = "x_block x + (?i - x_offset x)"
      have ag: "in_ag ?sb ?f (?j - ?i)"
        using False Cons.prems(1,2) ij by (intro in_ag_sub [where n = "x_count x"]) (auto simp: exts_ok_def vol_ok_def x_end_def)
      note r = read_blocks_ok(1) [OF Cons.prems(1) ag]
      have "concat (map (\<lambda>m. seg ?c (fsb_addr ?sb ?f + m * ?bs) ?bs) [0..<?j - ?i]) = concat (map (lblock ?c ?sb [x]) [?i..<?j])"
      proof -
        have "lblock ?c ?sb [x] (m + ?i) = seg ?c (fsb_addr ?sb ?f + m * ?bs) ?bs" if "m < ?j - ?i" for m
        proof -
          have f: "x_block x + (m + ?i - x_offset x) = ?f + m" using ij(4) by simp
          have "x_offset x \<le> m + ?i" "m + ?i < x_end x" using that ij(4,5) by linarith+
          then have "lblock ?c ?sb [x] (m + ?i) = seg ?c (fsb_addr ?sb (?f + m)) ?bs" using False
            unfolding f [symmetric] by (simp only: lblock_def List.find.simps simp_thms if_True if_False option.case)
          then show ?thesis using in_ag_shift(3) [OF _ ag that] Cons.prems(1) by (simp only: vol_ok_def)
        qed
        then have "map (lblock ?c ?sb [x]) (map (\<lambda>m. m + ?i) [0..<?j - ?i]) = map (\<lambda>m. seg ?c (fsb_addr ?sb ?f + m * ?bs) ?bs) [0..<?j - ?i]"
          by simp
        moreover have "map (\<lambda>m. m + ?i) [0..<?j - ?i] = [?i..<?j]" using ij(1) map_add_upt [of ?i "?j - ?i"] by simp
        ultimately show ?thesis by simp
      qed
      then have data: "read_blocks ops v ?f (?j - ?i) = Ok (concat (map (lblock ?c ?sb [x]) [?i..<?j]))"
        using r ij(1) by (simp only: seg_blocks zero_less_diff)
      have xok: "exts_ok ?sb [x]" using Cons.prems(2) by (simp add: exts_ok_def)
      have "patch (concat (map (lblock ?c ?sb ys) [lblk..<e])) ((?i - lblk) * ?bs) (concat (map (lblock ?c ?sb [x]) [?i..<?j])) =
        concat (map (\<lambda>k. if ?i \<le> k \<and> k < ?j then lblock ?c ?sb [x] k else lblock ?c ?sb ys k) [lblk..<e])"
        using ij length_lblock [OF Cons.prems(1)] ysok xok by (intro patch_blocks) auto
      also have "\<dots> = concat (map (lblock ?c ?sb (ys @ [x])) [lblk..<e])"
        by (intro arg_cong [where f = concat] map_cong) (auto simp: new)
      finally have pt: "patch (concat (map (lblock ?c ?sb ys) [lblk..<e])) ((?i - lblk) * ?bs) (concat (map (lblock ?c ?sb [x]) [?i..<?j])) =
        concat (map (lblock ?c ?sb (ys @ [x])) [lblk..<e])" .
      have len: "length (concat (map (lblock ?c ?sb ys) [lblk..<e])) = (e - lblk) * ?bs"
        "length (concat (map (lblock ?c ?sb [x]) [?i..<?j])) = (?j - ?i) * ?bs"
        using length_concat_blocks [of "[lblk..<e]" "lblock ?c ?sb ys" ?bs] length_concat_blocks [of "[?i..<?j]" "lblock ?c ?sb [x]" ?bs]
          length_lblock [OF Cons.prems(1)] ysok xok by simp_all
      have "(?i - lblk + (?j - ?i)) * ?bs \<le> (e - lblk) * ?bs" using ij by (intro mult_le_mono1) simp
      then have "copy_in (concat (map (lblock ?c ?sb ys) [lblk..<e])) ((?i - lblk) * ?bs) (concat (map (lblock ?c ?sb [x]) [?i..<?j])) =
        Ok (concat (map (lblock ?c ?sb (ys @ [x])) [lblk..<e]))"
        unfolding copy_in_def len pt by (simp only: add_mult_distrib if_True)
      moreover have "sub_w ?j ?i = Ok (?j - ?i)" using ij(1) by (simp add: sub_w_def)
      ultimately show ?thesis
        using start False data Cons.IH [OF Cons.prems(1) ok] Cons.prems(3,4) by (simp add: Let_def del: max_less_iff_conj)
    qed
  qed
qed simp

lemma read_mapped_ok:
  assumes v: "vol_ok content invar v" and x: "exts_ok (v_sb v) exts" and n: "0 < n" "n * sb_block_size (v_sb v) < 2 ^ 64" "lblk + n < 2 ^ 64"
  shows "read_mapped ops v exts lblk n = Ok (concat (map (lblock (content (v_dev v)) (v_sb v) exts) [lblk..<lblk + n]))"
proof -
  let ?c = "content (v_dev v)" and ?sb = "v_sb v" and ?bs = "sb_block_size (v_sb v)"
  let ?p = "\<lambda>e. x_end e \<le> lblk"
  let ?ys = "takeWhile ?p exts" and ?xs = "dropWhile ?p exts"
  have sorted: "sorted_wrt before exts" using x by (simp add: exts_ok_def)
  have mono: "?p (exts ! i)" if "i \<le> j" "j < length exts" "?p (exts ! j)" for i j
    using that sorted_wrt_nth_less [OF sorted, of i j] x_offset_le_end [of "exts ! j"] by (cases "i = j") (auto simp: before_def)
  then have k: "partition_point ?p exts = length ?ys" by (rule partition_point_spec)
  have after: "\<forall>e \<in> set ?xs. lblk < x_end e"
  proof
    fix e assume "e \<in> set ?xs"
    then obtain j where j: "j < length ?xs" "e = ?xs ! j" by (auto simp: in_set_conv_nth)
    from j(1) have "?xs \<noteq> []" by (metis list.size(3) not_less_zero)
    then have h: "\<not> ?p (hd ?xs)" by (rule hd_dropWhile)
    have "sorted_wrt before ?xs" using sorted by (metis sorted_wrt_append takeWhile_dropWhile_id)
    then have "j = 0 \<or> before (hd ?xs) e" using j sorted_wrt_nth_less [of before ?xs 0 j] \<open>?xs \<noteq> []\<close> by (auto simp: hd_conv_nth)
    then show "lblk < x_end e" using h j x_offset_le_end [of e] \<open>?xs \<noteq> []\<close> by (auto simp: hd_conv_nth before_def)
  qed
  have ex: "?ys @ ?xs = exts" by simp
  have z: "lblock ?c ?sb ?ys i = replicate ?bs 0" if "lblk \<le> i" for i
  proof -
    have "\<not> (x_offset e \<le> i \<and> i < x_end e)" if "e \<in> set ?ys" for e using set_takeWhileD [OF that] \<open>lblk \<le> i\<close> by simp
    then have "List.find (\<lambda>e. x_offset e \<le> i \<and> i < x_end e) ?ys = None" unfolding find_None_iff by blast
    then show ?thesis by (simp add: lblock_def)
  qed
  have "concat (map (lblock ?c ?sb ?ys) [lblk..<lblk + m]) = replicate (m * ?bs) 0" for m
    by (induction m) (simp_all add: z replicate_add [symmetric] add.commute)
  moreover have "mapped_loop ops v lblk (lblk + n) ?xs (concat (map (lblock ?c ?sb ?ys) [lblk..<lblk + n])) =
      Ok (concat (map (lblock ?c ?sb (?ys @ ?xs)) [lblk..<lblk + n]))"
    by (rule mapped_loop_ok [OF v _ after]) (simp_all add: ex x n(1))
  ultimately show ?thesis
    using n unfolding read_mapped_def k ex by (simp add: mul_w_def add_w_def dropWhile_eq_drop)
qed

end

text \<open>The block mapped at a position is the one the bisection finds.\<close>

lemma lblock_find:
  assumes "exts_ok sb exts"
  shows "lblock c sb exts k = (case find exts k of
      Some e \<Rightarrow> if x_unwritten e then replicate (sb_block_size sb) 0
                else seg c (fsb_addr sb (x_block e + (k - x_offset e))) (sb_block_size sb)
    | None \<Rightarrow> replicate (sb_block_size sb) 0)"
proof -
  have s: "sorted_wrt before exts" using assms by (simp add: exts_ok_def)
  have "List.find (\<lambda>e. x_offset e \<le> k \<and> k < x_end e) exts = find exts k"
  proof (cases "List.find (\<lambda>e. x_offset e \<le> k \<and> k < x_end e) exts")
    case None
    then have "\<not> (\<exists>e. find exts k = Some e)" using find_sorted [OF s] by (auto simp: find_None_iff)
    then show ?thesis using None by (cases "find exts k") auto
  next
    case (Some e)
    then have "find exts k = Some e" using find_sorted [OF s] find_Some_set [OF Some] by blast
    with Some show ?thesis by simp
  qed
  then show ?thesis by (simp only: lblock_def)
qed

lemma nth_concat_blocks:
  assumes "\<And>k. length (f k) = w" and "k < n * w"
  shows "concat (map f [a..<a + n]) ! k = f (a + k div w) ! (k mod w)"
  using assms(2)
proof (induction n)
  case (Suc n)
  have len: "length (concat (map f [a..<a + n])) = n * w" using length_concat_blocks [of "[a..<a + n]" f w] assms(1) by simp
  show ?case
  proof (cases "k < n * w")
    case True
    then show ?thesis using Suc len by (simp add: nth_append)
  next
    case False
    then have "k div w = n" using Suc.prems by (intro div_nat_eqI) (simp_all add: mult.commute)
    moreover have "k mod w = k - n * w" using \<open>k div w = n\<close> by (simp add: minus_mult_div_eq_mod mult.commute flip: minus_div_mult_eq_mod)
    ultimately show ?thesis using False len by (simp add: nth_append)
  qed
qed simp

text \<open>A byte of a file, by the extent that maps its block.\<close>

definition file_byte :: "byte list \<Rightarrow> superblock \<Rightarrow> extent list \<Rightarrow> nat \<Rightarrow> byte" where
  "file_byte c sb exts i =
     (case find exts (i div sb_block_size sb) of
        Some e \<Rightarrow> if x_unwritten e then 0
                  else c ! (fsb_addr sb (x_block e + (i div sb_block_size sb - x_offset e)) + i mod sb_block_size sb)
      | None \<Rightarrow> 0)"

context block_device
begin

lemma lblock_byte:
  assumes "vol_ok content invar v" and "exts_ok (v_sb v) exts"
  shows "lblock (content (v_dev v)) (v_sb v) exts (i div sb_block_size (v_sb v)) ! (i mod sb_block_size (v_sb v)) =
    file_byte (content (v_dev v)) (v_sb v) exts i"
proof -
  let ?bs = "sb_block_size (v_sb v)" and ?c = "content (v_dev v)"
  have bs: "i mod ?bs < ?bs" using assms(1) wf_sbD(6) by (simp add: vol_ok_def)
  have "fsb_addr (v_sb v) (x_block e + (k - x_offset e)) + ?bs \<le> length ?c"
    if "find exts k = Some e" "\<not> x_unwritten e" for e k
  proof -
    have e: "e \<in> set exts" "x_offset e \<le> k" "k < x_end e"
      using that(1) find_sorted [of exts k e] assms(2) by (simp_all add: exts_ok_def)
    then have "in_ag (v_sb v) (x_block e + (k - x_offset e)) 1"
      using assms that(2) by (intro in_ag_sub [where n = "x_count e"]) (auto simp: exts_ok_def vol_ok_def x_end_def)
    from read_blocks_ok(2) [OF assms(1) this] show ?thesis by simp
  qed
  then show ?thesis
    using bs by (auto simp: lblock_find [OF assms(2)] file_byte_def seg_nth split: option.splits)
qed

lemma read_mapped_bytes:
  assumes "vol_ok content invar v" and "exts_ok (v_sb v) exts" and "0 < len" and "offset + len < 2 ^ 63"
  shows "and_then (read_mapped ops v exts (offset div sb_block_size (v_sb v))
        ((offset + len - 1) div sb_block_size (v_sb v) - offset div sb_block_size (v_sb v) + 1))
      (\<lambda>buf. get buf (offset - offset div sb_block_size (v_sb v) * sb_block_size (v_sb v)) len) =
    Ok (map (file_byte (content (v_dev v)) (v_sb v) exts) [offset..<offset + len])"
proof -
  let ?bs = "sb_block_size (v_sb v)" and ?c = "content (v_dev v)"
  let ?first = "offset div ?bs" and ?last = "(offset + len - 1) div ?bs"
  let ?n = "?last - ?first + 1" and ?skip = "offset - offset div ?bs * ?bs"
  have wf: "wf_sb (v_sb v)" using assms(1) by (simp add: vol_ok_def)
  have bs: "0 < ?bs" "?bs \<le> 65536" using wf_sbD(5,6) [OF wf] by simp_all
  have fl: "?first \<le> ?last" using assms(3) by (intro div_le_mono) simp
  have lst: "?last * ?bs \<le> offset + len - 1" "offset + len - 1 < (?last + 1) * ?bs"
    using bs(1) by (simp_all add: dividend_less_div_times add.commute)
  have fst: "?first * ?bs \<le> offset" by simp
  have n: "?first * ?bs + ?n * ?bs = (?last + 1) * ?bs" using fl by (simp add: add_mult_distrib [symmetric])
  then have cover: "offset + len \<le> ?first * ?bs + ?n * ?bs" "?first * ?bs + ?n * ?bs < offset + len + ?bs"
    using lst assms(3) add_mult_distrib [of ?last 1 ?bs] by linarith+
  have skip: "?first * ?bs + ?skip = offset" using fst by linarith
  have m: "?n * ?bs < 2 ^ 64" "?first + ?n < 2 ^ 64"
  proof -
    have big: "(2 :: nat) ^ 63 + 65536 \<le> 2 ^ 64" by simp
    have "?n * ?bs \<le> ?first * ?bs + ?n * ?bs" by (rule le_add2)
    also have "\<dots> < offset + len + ?bs" by (rule cover(2))
    also have "\<dots> \<le> 2 ^ 63 + 65536" using assms(4) bs(2) by (intro add_mono) simp_all
    finally show "?n * ?bs < 2 ^ 64" using big by (rule less_le_trans)
    have "?first + ?n \<le> offset + len" using fl assms(3) div_le_dividend [of "offset + len - 1" ?bs] by linarith
    also have "\<dots> < 2 ^ 63" by (rule assms(4))
    finally show "?first + ?n < 2 ^ 64" by (rule less_trans) simp
  qed
  let ?buf = "concat (map (lblock ?c (v_sb v) exts) [?first..<?first + ?n])"
  have r: "read_mapped ops v exts ?first ?n = Ok ?buf"
    by (rule read_mapped_ok [OF assms(1,2) _ m]) simp
  have len: "length ?buf = ?n * ?bs"
    using length_concat_blocks [of "[?first..<?first + ?n]" "lblock ?c (v_sb v) exts" ?bs] length_lblock [OF assms(1,2)] by simp
  have fit: "?skip + len \<le> ?n * ?bs" using cover(1) skip by linarith
  have "seg ?buf ?skip len = map (file_byte ?c (v_sb v) exts) [offset..<offset + len]"
  proof (rule nth_equalityI)
    show "length (seg ?buf ?skip len) = length (map (file_byte ?c (v_sb v) exts) [offset..<offset + len])"
      using fit len by simp
    fix i assume "i < length (seg ?buf ?skip len)"
    then have i: "i < len" using fit len by simp
    have k: "?skip + i < ?n * ?bs" using fit i by linarith
    have o: "offset + i = (?skip + i) + ?first * ?bs" using skip by linarith
    have "(offset + i) div ?bs = ?first + (?skip + i) div ?bs"
      by (subst o, rule div_mult_self1) (use bs(1) in simp)
    moreover have "(offset + i) mod ?bs = (?skip + i) mod ?bs" by (subst o, rule mod_mult_self1)
    moreover have "seg ?buf ?skip len ! i = ?buf ! (?skip + i)" using i fit len by (simp add: seg_nth)
    moreover have "?buf ! (?skip + i) = lblock ?c (v_sb v) exts (?first + (?skip + i) div ?bs) ! ((?skip + i) mod ?bs)"
      by (rule nth_concat_blocks [OF length_lblock [OF assms(1,2)] k])
    ultimately show "seg ?buf ?skip len ! i = map (file_byte ?c (v_sb v) exts) [offset..<offset + len] ! i"
      using i lblock_byte [OF assms(1,2), of "offset + i"] by simp
  qed
  then show ?thesis using r len fit by simp
qed

end

text \<open>Reading a range of a file on the device in memory, on every branch.\<close>

lemma read_inode_range_mem:
  assumes "vol_ok mem_data mem_inv v" and "exts_ok (v_sb v) exts" and "i_size ip < 2 ^ 63"
  shows "read_inode_range mem_ops v ip exts offset len =
    (if offset \<ge> i_size ip \<or> len = 0 then Ok []
     else if i_format ip = Local then
       if min (offset + len) (i_size ip) > length (i_data_fork ip) then Err Corrupt
       else Ok (seg (i_data_fork ip) offset (min len (i_size ip - offset)))
     else if is_realtime ip then Err Unsupported
     else Ok (map (file_byte (mem_data (v_dev v)) (v_sb v) exts) [offset..<min (offset + len) (i_size ip)]))"
proof (cases "offset \<ge> i_size ip \<or> len = 0")
  case False
  let ?n = "min len (i_size ip - offset)"
  have n: "0 < ?n" "offset + ?n < 2 ^ 63" and m: "min (offset + len) (i_size ip) = offset + ?n" using False assms(3) by linarith+
  have "wf_sb (v_sb v)" using assms(1) by (simp add: vol_ok_def)
  note bs = wf_sbD(1) [OF this]
  note r = mem.read_mapped_bytes [OF assms(1,2) n]
  show ?thesis using False r unfolding read_inode_range_def Let_def m bs by (simp add: get_def)
qed (simp add: read_inode_range_def)

section \<open>Properties\<close>

text \<open>
  C7. Reading a range of a file gives its bytes. On a volume whose device holds the whole
  filesystem, with extents in order that each lie inside one allocation group, the range is
  clipped to the file's size, a byte in a written extent is the device's byte at the address
  of its block, and a byte in a hole or an unwritten extent is zero; inline contents come from
  the inode or are corrupt, and data on the realtime device is refused. Nothing panics.
\<close>

theorem read_range_spec:
  assumes "vol_ok mem_data mem_inv v" and "exts_ok (v_sb v) exts" and "i_size ip < 2 ^ 63"
  shows "read_inode_range mem_ops v ip exts offset len =
    (if offset \<ge> i_size ip \<or> len = 0 then Ok []
     else if i_format ip = Local then
       if min (offset + len) (i_size ip) > length (i_data_fork ip) then Err Corrupt
       else Ok (seg (i_data_fork ip) offset (min len (i_size ip - offset)))
     else if is_realtime ip then Err Unsupported
     else Ok (map (file_byte (mem_data (v_dev v)) (v_sb v) exts) [offset..<min (offset + len) (i_size ip)]))"
  by (rule read_inode_range_mem [OF assms])

definition demo_vol :: "mem_device volume" where
  "demo_vol = \<lparr>v_dev = demo_device, v_sb = demo_sb, v_log = Clean, v_w = None, v_time = None\<rparr>"

lemma demo_vol_ok: "vol_ok mem_data mem_inv demo_vol"
  using demo_sb_wf demo_device_inv by (simp add: vol_ok_def demo_vol_def)

definition demo_inode :: inode where
  "demo_inode = \<lparr>i_ino = 131, i_mode = 0x81a4, i_version = 3, i_format = Extents, i_uid = 0, i_gid = 0, i_nlink = 1,
     i_projid = 0, i_atime = \<lparr>ts_secs = 0, ts_nsecs = 0\<rparr>, i_mtime = \<lparr>ts_secs = 0, ts_nsecs = 0\<rparr>,
     i_ctime = \<lparr>ts_secs = 0, ts_nsecs = 0\<rparr>, i_crtime = None, i_size = 9000, i_nblocks = 2, i_nextents = 1, i_anextents = 0,
     i_aformat = None, i_flags = 0, i_flags2 = 0, i_generation = 0, i_data_fork = [], i_attr_fork = []\<rparr>"

definition demo_exts :: "extent list" where
  "demo_exts = [\<lparr>x_offset = 1, x_block = 16390, x_count = 2, x_unwritten = False\<rparr>]"

lemma demo_exts_ok: "exts_ok demo_sb demo_exts"
  by (simp add: exts_ok_def demo_exts_def in_ag_def x_end_def)

theorem read_range_spec_witness:
  "read_inode_range mem_ops demo_vol demo_inode demo_exts 8998 100 =
     Ok (map (file_byte (mem_data demo_device) demo_sb demo_exts) [8998, 8999])"
proof -
  have e: "exts_ok (v_sb demo_vol) demo_exts" using demo_exts_ok by (simp add: demo_vol_def)
  have s: "i_size demo_inode < 2 ^ 63" by (simp add: demo_inode_def)
  show ?thesis
    unfolding read_range_spec [OF demo_vol_ok e s, of 8998 100]
    by (simp add: demo_inode_def demo_vol_def is_realtime_def upt_rec)
qed

text \<open>
  The check of a run's last block does not keep the run inside one allocation group: here the
  groups have 10000 blocks, numbered with 14 bits, and a run from the last block of group 0 to
  the first of group 1 is read as 6386 blocks that follow each other on the device.
\<close>

lemma read_blocks_spans_groups:
  "read_blocks mem_ops (demo_vol\<lparr>v_sb := demo_sb\<lparr>sb_ag_blocks := 10000\<rparr>\<rparr>) 9999 6386 =
     Ok (seg (mem_data demo_device) (9999 * 4096) (6386 * 4096))"
proof -
  have "dev_read_at mem_ops demo_device (9999 * 4096) (6386 * 4096) = Ok (seg (mem_data demo_device) (9999 * 4096) (6386 * 4096))"
    using mem.read_at [OF demo_device_inv(1), of "9999 * 4096" "6386 * 4096"] by (simp add: demo_device_inv(2))
  then show ?thesis
    by (simp add: read_blocks_def fsb_to_byte_eq demo_vol_def shl_w_def add_w_def sub_w_def Let_def)
qed

end
