(* ===== verification/Paths.thy ===== *)
theory Paths
  imports Volume
begin

text \<open>
  Paths (\<open>src/src/volume.rs\<close>): resolving a path with its symbolic links, the operations that
  take a path, and the walk over a tree of directories. The loops end by themselves: resolving
  follows at most forty links and each step before the next link shortens the path, and the
  walk enters a directory only once, of finitely many inode numbers.
\<close>

unbundle bit_operations_syntax

section \<open>Resolving\<close>

definition split_path_comps :: "byte list \<Rightarrow> byte list list" where
  "split_path_comps path = filter (\<lambda>c. c \<noteq> [] \<and> c \<noteq> [0x2e]) (split_on 0x2f path)"

function resolve_loop ::
  "'d device_ops \<Rightarrow> 'd volume \<Rightarrow> bool \<Rightarrow> byte list list \<Rightarrow> nat \<Rightarrow> nat \<Rightarrow> nat res" where
  "resolve_loop ops v follow [] cur links = Ok cur"
| "resolve_loop ops v follow (name # comps) cur links =
     and_then (read_inode ops v cur) (\<lambda>dir.
     if \<not> is_dir dir then Err NotADirectory
     else and_then (and_then (dir_lookup ops v dir name) (ok_or NotFound)) (\<lambda>child.
     if comps = [] \<and> \<not> follow then Ok child
     else and_then (read_inode ops v child) (\<lambda>ip.
     if file_type ip = IFLNK then
       if links + 1 > MAX_SYMLINKS then Err SymlinkLoop
       else and_then (symlink_target ops v ip) (\<lambda>target.
       resolve_loop ops v follow (split_path_comps target @ comps)
         (if take 1 target = [0x2f] then sb_root_ino (v_sb v) else cur) (links + 1))
     else resolve_loop ops v follow comps child links)))"
  by pat_completeness auto
termination
  by (relation "measures [\<lambda>(ops, v, follow, comps, cur, links). MAX_SYMLINKS - links, \<lambda>(ops, v, follow, comps, cur, links). length comps]") auto

definition resolve :: "'d device_ops \<Rightarrow> 'd volume \<Rightarrow> byte list \<Rightarrow> bool \<Rightarrow> nat res" where
  "resolve ops v path follow = resolve_loop ops v follow (split_path_comps path) (sb_root_ino (v_sb v)) 0"

definition lookup :: "'d device_ops \<Rightarrow> 'd volume \<Rightarrow> byte list \<Rightarrow> nat res" where
  "lookup ops v path = resolve ops v path False"

definition path_exists :: "'d device_ops \<Rightarrow> 'd volume \<Rightarrow> byte list \<Rightarrow> bool res" where
  "path_exists ops v path =
     (case lookup ops v path of
        Ok _ \<Rightarrow> Ok True
      | Err NotFound \<Rightarrow> Ok False
      | Err e \<Rightarrow> Err e
      | Panic \<Rightarrow> Panic)"

section \<open>Operations on a path\<close>

record vstat =
  st_inode :: nat
  st_size :: nat
  st_mode :: nat
  st_links :: nat
  st_uid :: nat
  st_gid :: nat
  st_blocks :: nat
  st_atime :: timestamp
  st_mtime :: timestamp
  st_ctime :: timestamp
  st_crtime :: "timestamp option"
  st_rdev :: "nat \<times> nat"

definition stat_is_dir :: "vstat \<Rightarrow> bool" where
  "stat_is_dir s \<longleftrightarrow> st_mode s AND IFMT = IFDIR"

definition stat_is_file :: "vstat \<Rightarrow> bool" where
  "stat_is_file s \<longleftrightarrow> st_mode s AND IFMT = IFREG"

definition stat_is_symlink :: "vstat \<Rightarrow> bool" where
  "stat_is_symlink s \<longleftrightarrow> st_mode s AND IFMT = IFLNK"

definition stat_kind :: "vstat \<Rightarrow> file_type" where
  "stat_kind s = from_mode (st_mode s)"

definition stat_inode :: "'d volume \<Rightarrow> inode \<Rightarrow> vstat res" where
  "stat_inode v ip =
     and_then (sub_w (sb_block_log (v_sb v)) 9) (\<lambda>sh.
     and_then (shl_w 64 (i_nblocks ip) sh) (\<lambda>blocks.
     and_then (device ip) (\<lambda>rdev.
     Ok \<lparr>st_inode = i_ino ip, st_size = i_size ip, st_mode = i_mode ip, st_links = i_nlink ip, st_uid = i_uid ip,
         st_gid = i_gid ip, st_blocks = blocks, st_atime = i_atime ip, st_mtime = i_mtime ip, st_ctime = i_ctime ip,
         st_crtime = i_crtime ip, st_rdev = rdev\<rparr>)))"

definition stat :: "'d device_ops \<Rightarrow> 'd volume \<Rightarrow> byte list \<Rightarrow> vstat res" where
  "stat ops v path = and_then (and_then (lookup ops v path) (read_inode ops v)) (stat_inode v)"

definition file_inode :: "'d device_ops \<Rightarrow> 'd volume \<Rightarrow> byte list \<Rightarrow> inode res" where
  "file_inode ops v path =
     and_then (and_then (resolve ops v path True) (read_inode ops v)) (\<lambda>ip.
     if file_type ip = IFREG then Ok ip
     else if file_type ip = IFDIR then Err IsADirectory
     else Err Unsupported)"

definition read_file :: "'d device_ops \<Rightarrow> 'd volume \<Rightarrow> byte list \<Rightarrow> byte list res" where
  "read_file ops v path =
     and_then (file_inode ops v path) (\<lambda>ip.
     and_then (extents ops v ip False) (\<lambda>exts.
     read_inode_range ops v ip exts 0 (i_size ip)))"

definition read_range :: "'d device_ops \<Rightarrow> 'd volume \<Rightarrow> byte list \<Rightarrow> nat \<Rightarrow> nat \<Rightarrow> byte list res" where
  "read_range ops v path offset len =
     and_then (file_inode ops v path) (\<lambda>ip.
     and_then (extents ops v ip False) (\<lambda>exts.
     read_inode_range ops v ip exts offset len))"

definition read_dir :: "'d device_ops \<Rightarrow> 'd volume \<Rightarrow> byte list \<Rightarrow> entry list res" where
  "read_dir ops v path =
     and_then (and_then (resolve ops v path True) (read_inode ops v)) (\<lambda>ip.
     if \<not> is_dir ip then Err NotADirectory else read_dir_inode ops v ip)"

definition read_link_bytes :: "'d device_ops \<Rightarrow> 'd volume \<Rightarrow> byte list \<Rightarrow> byte list res" where
  "read_link_bytes ops v path =
     and_then (and_then (lookup ops v path) (read_inode ops v)) (\<lambda>ip.
     if file_type ip \<noteq> IFLNK then Err NotASymlink else symlink_target ops v ip)"

definition read_link :: "'d device_ops \<Rightarrow> 'd volume \<Rightarrow> byte list \<Rightarrow> byte list res" where
  "read_link ops v path = map_ok utf8_lossy (read_link_bytes ops v path)"

definition list_xattrs :: "'d device_ops \<Rightarrow> 'd volume \<Rightarrow> byte list \<Rightarrow> xattr list res" where
  "list_xattrs ops v path = and_then (and_then (lookup ops v path) (read_inode ops v)) (xattrs_inode ops v)"

definition get_xattr :: "'d device_ops \<Rightarrow> 'd volume \<Rightarrow> byte list \<Rightarrow> byte list \<Rightarrow> byte list option res" where
  "get_xattr ops v path name =
     map_ok (\<lambda>xs. map_option xa_value (List.find (\<lambda>x. xa_name x = name) xs)) (list_xattrs ops v path)"

section \<open>Walking\<close>

record walk_entry =
  we_path :: "byte list"
  we_raw_path :: "byte list"
  we_stat :: vstat

text \<open>Stable and descending; the walk takes names from the back.\<close>

definition sorted_children :: "'d device_ops \<Rightarrow> 'd volume \<Rightarrow> inode \<Rightarrow> entry list res" where
  "sorted_children ops v ip = map_ok (\<lambda>names. rev (sort_key en_raw_name (rev names))) (read_dir_inode ops v ip)"

lemma read_inode_ino:
  assumes "read_inode ops v ino = Ok ip"
  shows "i_ino ip = ino" and "ino < sb_ag_count (v_sb v) * 2 ^ agino_log (v_sb v)"
proof -
  show "i_ino ip = ino" using assms by (auto simp: read_inode_def parse_inode_def Let_def res_simps split: if_splits)
  have "\<not> sb_ag_count (v_sb v) \<le> ino div 2 ^ agino_log (v_sb v)"
    using assms by (auto simp: read_inode_def ino_to_byte_def Let_def drop_bit_eq_div split: if_splits)
  then show "ino < sb_ag_count (v_sb v) * 2 ^ agino_log (v_sb v)" by (simp add: div_less_iff_less_mult not_le)
qed

text \<open>The stack holds, per level, the path and the names left, next one first.\<close>

function tree_walk ::
  "'d device_ops \<Rightarrow> 'd volume \<Rightarrow> (walk_entry \<Rightarrow> inode \<Rightarrow> 's \<Rightarrow> 's res) \<Rightarrow> nat list \<Rightarrow> (byte list \<times> entry list) list \<Rightarrow> 's \<Rightarrow> 's res" where
  "tree_walk ops v f visited [] s = Ok s"
| "tree_walk ops v f visited ((prefix, []) # stack) s = tree_walk ops v f visited stack s"
| "tree_walk ops v f visited ((prefix, entry # rest) # stack) s =
     (let raw_path = (if prefix = [] then [] else prefix @ [0x2f]) @ en_raw_name entry in
      and_then (read_inode ops v (en_inode entry)) (\<lambda>ip.
      and_then (stat_inode v ip) (\<lambda>st.
      and_then (f \<lparr>we_path = utf8_lossy raw_path, we_raw_path = raw_path, we_stat = st\<rparr> ip s) (\<lambda>s.
      if is_dir ip then
        if i_ino ip \<in> set visited then Err Corrupt
        else and_then (sorted_children ops v ip) (\<lambda>children.
        tree_walk ops v f (i_ino ip # visited) ((raw_path, rev children) # (prefix, rest) # stack) s)
      else tree_walk ops v f visited ((prefix, rest) # stack) s))))"
  by pat_completeness auto
termination
proof (relation "measures [\<lambda>(ops, v, f, visited, stack, s). card ({..<sb_ag_count (v_sb v) * 2 ^ agino_log (v_sb v)} - set visited),
    \<lambda>(ops, v, f, visited, stack, s). sum_list (map (\<lambda>(p, es). length es + 1) stack)]", goal_cases)
  case (3 ops v f visited prefix entry rest stack s raw_path ip st t children)
  let ?n = "sb_ag_count (v_sb v) * 2 ^ agino_log (v_sb v)"
  have "i_ino ip < ?n" using read_inode_ino [OF 3(2)] by simp
  then have "{..<?n} - set (i_ino ip # visited) \<subset> {..<?n} - set visited" using 3(6) by auto
  then have "card ({..<?n} - set (i_ino ip # visited)) < card ({..<?n} - set visited)" by (intro psubset_card_mono) simp_all
  then show ?case by simp
qed auto

definition walk_each ::
  "'d device_ops \<Rightarrow> 'd volume \<Rightarrow> byte list \<Rightarrow> (walk_entry \<Rightarrow> inode \<Rightarrow> 's \<Rightarrow> 's res) \<Rightarrow> 's \<Rightarrow> 's res" where
  "walk_each ops v root f s =
     and_then (and_then (resolve ops v root True) (read_inode ops v)) (\<lambda>start.
     if \<not> is_dir start then Err NotADirectory
     else and_then (sorted_children ops v start) (\<lambda>children.
     tree_walk ops v f [i_ino start] [([], rev children)] s))"

definition walk :: "'d device_ops \<Rightarrow> 'd volume \<Rightarrow> byte list \<Rightarrow> walk_entry list res" where
  "walk ops v root = walk_each ops v root (\<lambda>e ip out. Ok (out @ [e])) []"

section \<open>What resolving means\<close>

text \<open>
  \<open>follows ops v follow cur comps n ino\<close>: from directory \<open>cur\<close>, the components lead to
  \<open>ino\<close> through \<open>n\<close> symbolic links; an absolute target starts again at the root.
\<close>

inductive follows :: "'d device_ops \<Rightarrow> 'd volume \<Rightarrow> bool \<Rightarrow> nat \<Rightarrow> byte list list \<Rightarrow> nat \<Rightarrow> nat \<Rightarrow> bool"
  for ops v follow where
  arrived: "follows ops v follow cur [] 0 cur"
| final: "read_inode ops v cur = Ok dir \<Longrightarrow> is_dir dir \<Longrightarrow> dir_lookup ops v dir name = Ok (Some child) \<Longrightarrow> \<not> follow \<Longrightarrow>
    follows ops v follow cur [name] 0 child"
| step: "read_inode ops v cur = Ok dir \<Longrightarrow> is_dir dir \<Longrightarrow> dir_lookup ops v dir name = Ok (Some child) \<Longrightarrow>
    comps \<noteq> [] \<or> follow \<Longrightarrow> read_inode ops v child = Ok ip \<Longrightarrow> file_type ip \<noteq> IFLNK \<Longrightarrow>
    follows ops v follow child comps n ino \<Longrightarrow> follows ops v follow cur (name # comps) n ino"
| link: "read_inode ops v cur = Ok dir \<Longrightarrow> is_dir dir \<Longrightarrow> dir_lookup ops v dir name = Ok (Some child) \<Longrightarrow>
    comps \<noteq> [] \<or> follow \<Longrightarrow> read_inode ops v child = Ok ip \<Longrightarrow> file_type ip = IFLNK \<Longrightarrow>
    symlink_target ops v ip = Ok target \<Longrightarrow>
    follows ops v follow (if take 1 target = [0x2f] then sb_root_ino (v_sb v) else cur) (split_path_comps target @ comps) n ino \<Longrightarrow>
    follows ops v follow cur (name # comps) (Suc n) ino"

inductive_cases follows_NilE: "follows ops v follow cur [] n ino"
inductive_cases follows_ConsE: "follows ops v follow cur (name # comps) n ino"

lemma resolve_follows:
  assumes "follows ops v follow cur comps n ino" and "links + n \<le> 40"
  shows "resolve_loop ops v follow comps cur links = Ok ino"
  using assms
proof (induction arbitrary: links rule: follows.induct)
  case (link cur dir name child comps ip target n ino)
  then show ?case using link.IH [of "links + 1"] by auto
qed auto

lemma follows_resolve:
  assumes "resolve_loop ops v follow comps cur links = Ok ino" and "links \<le> 40"
  shows "\<exists>n. links + n \<le> 40 \<and> follows ops v follow cur comps n ino"
  using assms
proof (induction ops v follow comps cur links rule: resolve_loop.induct)
  case (1 ops v follow cur links)
  then show ?case by (intro exI [of _ 0]) (auto intro: follows.arrived)
next
  case (2 ops v follow name comps cur links)
  obtain dir child where d: "read_inode ops v cur = Ok dir" "is_dir dir" "dir_lookup ops v dir name = Ok (Some child)"
    using "2.prems"(1) by (auto simp: res_simps split: if_splits)
  show ?case
  proof (cases "comps = [] \<and> \<not> follow")
    case True
    then have "ino = child" using "2.prems"(1) d by simp
    then show ?thesis using True d "2.prems"(2) by (intro exI [of _ 0]) (auto intro: follows.final)
  next
    case False
    then obtain ip where ip: "read_inode ops v child = Ok ip" using "2.prems"(1) d by (auto simp: res_simps)
    show ?thesis
    proof (cases "file_type ip = IFLNK")
      case True
      then obtain target where t: "symlink_target ops v ip = Ok target" and l: "\<not> 40 < links + 1"
        and r: "resolve_loop ops v follow (split_path_comps target @ comps) (if take 1 target = [0x2f] then sb_root_ino (v_sb v) else cur) (links + 1) = Ok ino"
        using "2.prems"(1) d False ip by (auto simp: res_simps split: if_splits)
      have "dir_lookup ops v dir name = Ok (Some child)" "ok_or NotFound (Some child) = Ok child" using d by simp_all
      then obtain n where "links + 1 + n \<le> 40"
        "follows ops v follow (if take 1 target = [0x2f] then sb_root_ino (v_sb v) else cur) (split_path_comps target @ comps) n ino"
        using "2.IH"(1) [OF d(1) _ _ False ip True l t r] d l by auto
      then show ?thesis using follows.link [OF d _ ip True t] False by (intro exI [of _ "Suc n"]) auto
    next
      case no: False
      then have r: "resolve_loop ops v follow comps child links = Ok ino" using "2.prems"(1) d False ip by simp
      obtain n where "links + n \<le> 40" "follows ops v follow child comps n ino"
        using "2.IH"(2) [OF d(1) _ _ False ip no r "2.prems"(2)] d by auto
      then show ?thesis using follows.step [OF d _ ip no] False by (intro exI [of _ n]) auto
    qed
  qed
qed

section \<open>What a walk visits\<close>

definition dir_inodes :: "walk_entry list \<Rightarrow> nat list" where
  "dir_inodes es = map (\<lambda>e. st_inode (we_stat e)) (filter (\<lambda>e. stat_is_dir (we_stat e)) es)"

lemma stat_inode_fields:
  assumes "stat_inode v ip = Ok st"
  shows "st_inode st = i_ino ip" and "stat_is_dir st = is_dir ip"
  using assms by (auto simp: stat_inode_def stat_is_dir_def is_dir_def file_type_def res_simps)

lemma tree_walk_distinct:
  assumes "tree_walk ops v f visited stack out = Ok es" and "f = (\<lambda>e ip out. Ok (out @ [e]))"
    and "visited = rev (dir_inodes out) @ [start]" and "distinct visited"
  shows "distinct (start # dir_inodes es)"
  using assms
proof (induction ops v f visited stack out arbitrary: rule: tree_walk.induct)
  case (3 ops v f visited prefix entry rest stack out)
  let ?raw = "(if prefix = [] then [] else prefix @ [0x2f]) @ en_raw_name entry"
  obtain ip st where ip: "read_inode ops v (en_inode entry) = Ok ip" and st: "stat_inode v ip = Ok st"
    using "3.prems"(1) by (auto simp: Let_def res_simps)
  let ?e = "\<lparr>we_path = utf8_lossy ?raw, we_raw_path = ?raw, we_stat = st\<rparr>"
  have out: "f ?e ip out = Ok (out @ [?e])" by (simp add: "3.prems"(2))
  note fields = stat_inode_fields [OF st]
  show ?case
  proof (cases "is_dir ip")
    case True
    then obtain children where new: "i_ino ip \<notin> set visited" and ch: "sorted_children ops v ip = Ok children"
      and r: "tree_walk ops v f (i_ino ip # visited) ((?raw, rev children) # (prefix, rest) # stack) (out @ [?e]) = Ok es"
      using "3.prems"(1) ip st out by (auto simp: Let_def res_simps split: if_splits)
    have eq: "i_ino ip # visited = rev (dir_inodes (out @ [?e])) @ [start]"
      using "3.prems"(3) True fields by (simp add: dir_inodes_def)
    show ?thesis
      by (rule "3.IH"(1) [OF refl ip st out True new ch r "3.prems"(2) eq]) (use new "3.prems"(4) in simp)
  next
    case False
    then have r: "tree_walk ops v f visited ((prefix, rest) # stack) (out @ [?e]) = Ok es"
      using "3.prems"(1) ip st out by (simp add: Let_def)
    have eq: "visited = rev (dir_inodes (out @ [?e])) @ [start]"
      using "3.prems"(3) False fields by (simp add: dir_inodes_def)
    show ?thesis by (rule "3.IH"(2) [OF refl ip st out False r "3.prems"(2) eq "3.prems"(4)])
  qed
qed auto

section \<open>Properties\<close>

text \<open>
  C8. Resolving a path is following its names: it returns an inode exactly when the
  components lead to it from the root, symbolic links on the way replaced by their targets
  (the last one too when it is to be followed), an absolute target starting again at the root,
  with at most forty links; and it always returns.
\<close>

theorem resolve_spec:
  "resolve ops v path follow = Ok ino \<longleftrightarrow>
     (\<exists>n \<le> 40. follows ops v follow (sb_root_ino (v_sb v)) (split_path_comps path) n ino)"
  unfolding resolve_def using resolve_follows [of ops v follow _ _ _ ino 0] follows_resolve [of ops v follow _ _ 0 ino] by auto

text \<open>
  C33. A walk ends whatever the directories hold, and one that succeeds reports every
  directory at most once and never the one it started at, so no cycle of directories is walked.
\<close>

theorem walk_directories_once:
  assumes "walk ops v root = Ok es"
  shows "\<exists>start. resolve ops v root True = Ok start \<and> distinct (start # dir_inodes es)"
proof -
  obtain start ip children where t: "resolve ops v root True = Ok start" "read_inode ops v start = Ok ip"
    and w: "tree_walk ops v (\<lambda>e ip out. Ok (out @ [e])) [i_ino ip] [([], rev children)] [] = Ok es"
    using assms by (auto simp: walk_def walk_each_def res_simps split: if_splits)
  have "distinct (i_ino ip # dir_inodes es)"
    by (rule tree_walk_distinct [OF w refl]) (simp_all add: dir_inodes_def)
  then show ?thesis using t read_inode_ino(1) [OF t(2)] by auto
qed

text \<open>A version 4 filesystem of one block per group, whose root directory is empty.\<close>

definition tiny_inode :: "byte list" where
  "tiny_inode = [0x49, 0x4e, 0x41, 0xed, 2, 1] @ replicate 57 0 @ [6] @ replicate 36 0 @ [0, 0, 0, 0, 0, 1] @ replicate 150 0"

definition tiny_vol :: "mem_device volume" where
  "tiny_vol = \<lparr>v_dev = mem_new (tiny_inode @ tiny_inode), v_sb = demo_sb\<lparr>sb_block_size := 512, sb_block_log := 9, sb_inode_size := 256,
     sb_inodes_per_block := 2, sb_inopb_log := 1, sb_agblk_log := 0, sb_ag_blocks := 1, sb_ag_count := 1, sb_version := 4,
     sb_root_ino := 1\<rparr>, v_log = Clean, v_w = None, v_time = None\<rparr>"

lemma tiny_inode_fields:
  "length tiny_inode = 256" "rd16 tiny_inode 0 = 0x494e" "rd16 tiny_inode 2 = 0x41ed" "tiny_inode ! 4 = 2" "tiny_inode ! 5 = 1"
  "tiny_inode ! 82 = 0" "seg tiny_inode 56 8 = replicate 7 0 @ [6]" "drop 100 tiny_inode = [0, 0, 0, 0, 0, 1] @ replicate 150 0"
  by (simp_all add: tiny_inode_def seg_append_left seg_append_right seg_def from_be_bytes_def nth_append)

lemma tiny_root:
  "\<exists>ip. read_inode mem_ops tiny_vol 1 = Ok ip \<and> is_dir ip \<and> i_format ip = Local \<and> i_size ip = 6 \<and>
     i_data_fork ip = [0, 0, 0, 0, 0, 1] @ replicate 150 0 \<and> i_ino ip = 1"
proof -
  let ?sb = "v_sb tiny_vol"
  have at: "ino_to_byte ?sb 1 = Ok 256" by (simp add: ino_to_byte_def tiny_vol_def agino_log_def Let_def add_w_def)
  have an: "and_not 256 511 = 0" using and_not_mask [of 9 256] by simp
  have rd: "dev_read_at mem_ops (v_dev tiny_vol) 0 512 = Ok (tiny_inode @ tiny_inode)"
    by (simp add: tiny_vol_def mem_ops_def mem_read_at_def mem_new_def check_range_def check_range_for_def tiny_inode_fields)
  have sb: "sb_block_size ?sb = 512" "sb_inode_size ?sb = 256" "\<not> is_v5 ?sb" by (simp_all add: tiny_vol_def is_v5_def)
  have sz: "rd64 tiny_inode 56 = 6" by (simp add: tiny_inode_fields from_be_bytes_snoc)
  have seg: "seg tiny_inode 0 256 = tiny_inode" using tiny_inode_fields(1) by simp
  have "read_inode mem_ops tiny_vol 1 = parse_inode ?sb 1 tiny_inode"
    using at an rd sb by (simp add: read_inode_def Let_def sub_w_def tiny_inode_fields)
  moreover have "\<exists>ip. parse_inode ?sb 1 tiny_inode = Ok ip \<and> is_dir ip \<and> i_format ip = Local \<and> i_size ip = 6 \<and>
     i_data_fork ip = [0, 0, 0, 0, 0, 1] @ replicate 150 0 \<and> i_ino ip = 1"
    by (simp add: parse_inode_def inode_checks_def inode_forks_def sb seg sz tiny_inode_fields(1-6,8) from_u8_def sub_w_def Let_def is_dir_def file_type_def)
  ultimately show ?thesis by simp
qed

lemma tiny_walk: "walk mem_ops tiny_vol [0x2f] = Ok []" "resolve mem_ops tiny_vol [0x2f] True = Ok 1"
proof -
  obtain ip where ip: "read_inode mem_ops tiny_vol 1 = Ok ip" "is_dir ip" "i_format ip = Local" "i_size ip = 6"
    "i_data_fork ip = [0, 0, 0, 0, 0, 1] @ replicate 150 0" "i_ino ip = 1" using tiny_root by blast
  have "parse_shortform (v_sb tiny_vol) (i_data_fork ip) 6 = Ok (1, [])"
    by (simp add: parse_shortform_def ip seg_def ino_at_def be32_def get_def from_be_bytes_def index_def)
  then have "sorted_children mem_ops tiny_vol ip = Ok []"
    using ip by (simp add: sorted_children_def read_dir_inode_def dir_entries_def tiny_vol_def)
  moreover show r: "resolve mem_ops tiny_vol [0x2f] True = Ok 1" by (simp add: resolve_def split_path_comps_def tiny_vol_def)
  ultimately show "walk mem_ops tiny_vol [0x2f] = Ok []" using ip by (simp add: walk_def walk_each_def)
qed

theorem walk_directories_once_witness: "walk mem_ops tiny_vol [0x2f] = Ok [] \<and> resolve mem_ops tiny_vol [0x2f] True = Ok 1"
  using walk_directories_once [of mem_ops tiny_vol "[0x2f]" "[]"] tiny_walk by auto

end
