(* ===== verification/Write.thy ===== *)
theory Write
  imports AgDisk DirWrite Paths
begin

text \<open>
  The write side of a volume, its lower half (\<open>src/src/write.rs\<close>): the writer and its groups,
  allocating and giving back blocks, storing a file's bytes, and inodes. A method on
  \<open>&mut self\<close> is a \<open>proc\<close> on the volume (\<open>OrdMap\<close>); what it leaves behind on an error is part
  of the model. The host is a parameter: the device's operations, and a clock that may tell a
  different time in every state.
\<close>

unbundle bit_operations_syntax

section \<open>The host and the writer\<close>

text \<open>The clock gives seconds and nanoseconds since the epoch, or nothing when it is set before it.\<close>

record 'd host =
  h_ops :: "'d device_ops"
  h_clock :: "'d volume \<Rightarrow> (nat \<times> nat) option"

type_synonym ('d, 'a) vproc = "('d volume, 'a) proc"

text \<open>A method on \<open>&self\<close> in a method on \<open>&mut self\<close>, and a write to the device.\<close>

definition reading :: "('s \<Rightarrow> 'a res) \<Rightarrow> ('s, 'a) proc" where
  "reading f s = (f s, s)"

definition dev_write :: "'d host \<Rightarrow> nat \<Rightarrow> byte list \<Rightarrow> ('d, unit) vproc" where
  "dev_write h at buf v =
     (case dev_write_at (h_ops h) (v_dev v) at buf of
        Ok d \<Rightarrow> (Ok (), v\<lparr>v_dev := d\<rparr>)
      | Err e \<Rightarrow> (Err e, v)
      | Panic \<Rightarrow> (Panic, v))"

record attrs =
  a_mode :: nat
  a_uid :: nat
  a_gid :: nat

definition attrs_default :: attrs where
  "attrs_default = \<lparr>a_mode = 0x1a4, a_uid = 0, a_gid = 0\<rparr>"

definition attrs_mode :: "nat \<Rightarrow> attrs" where
  "attrs_mode m = attrs_default\<lparr>a_mode := m\<rparr>"

definition attrs_dir :: attrs where
  "attrs_dir = attrs_default\<lparr>a_mode := 0x1ed\<rparr>"

definition attrs_owner :: "nat \<Rightarrow> nat \<Rightarrow> attrs \<Rightarrow> attrs" where
  "attrs_owner uid gid a = a\<lparr>a_uid := uid, a_gid := gid\<rparr>"

definition perms :: "attrs \<Rightarrow> nat" where
  "perms a = a_mode a AND 0xfff"

datatype special = SpCharDevice nat nat | SpBlockDevice nat nat | SpFifo | SpSocket

definition mode_bits :: "special \<Rightarrow> nat" where
  "mode_bits k = (case k of SpCharDevice _ _ \<Rightarrow> IFCHR | SpBlockDevice _ _ \<Rightarrow> IFBLK | SpFifo \<Rightarrow> IFIFO | SpSocket \<Rightarrow> IFSOCK)"

definition writer_new :: "(nat \<times> nat) option \<Rightarrow> vwriter" where
  "writer_new t =
     (let seed = (case t of Some (s, n) \<Rightarrow> word_of_nat (s * 1000000000 + n) | None \<Rightarrow> 0x9e3779b97f4a7c15) in
      \<lparr>vw_ags = [], vw_dirs = [], vw_rng = seed OR 1, vw_new_chunks = 0\<rparr>)"

definition next_gen :: "(vwriter, nat) proc" where
  "next_gen w =
     (let r = vw_rng w; r = r XOR drop_bit 12 r; r = r XOR push_bit 25 r; r = r XOR drop_bit 27 r in
      (Ok (unat (drop_bit 32 (r * 0x2545f4914f6cdd1d))), w\<lparr>vw_rng := r\<rparr>))"

text \<open>The last name of a path and what comes before it.\<close>

definition split_path :: "byte list \<Rightarrow> (byte list \<times> byte list) res" where
  "split_path path =
     (let t = rev (dropWhile (\<lambda>c. c = 0x2f) (rev path));
          name = rev (takeWhile (\<lambda>c. c \<noteq> 0x2f) (rev t));
          parent = take (length t - length name - 1) t in
      if name = [] \<or> name = [0x2e] \<or> name = [0x2e, 0x2e] \<or> length name > 255 then Err InvalidPath
      else Ok (if parent = [] then [0x2f] else parent, name))"

definition set_time :: "int \<Rightarrow> 'd volume \<Rightarrow> 'd volume" where
  "set_time secs v = v\<lparr>v_time := Some \<lparr>ts_secs = secs, ts_nsecs = 0\<rparr>\<rparr>"

definition now :: "'d host \<Rightarrow> 'd volume \<Rightarrow> timestamp" where
  "now h v = (case v_time v of
      Some t \<Rightarrow> t
    | None \<Rightarrow> (case h_clock h v of
        Some (s, n) \<Rightarrow> \<lparr>ts_secs = sint (word_of_nat s :: 64 word), ts_nsecs = n\<rparr>
      | None \<Rightarrow> \<lparr>ts_secs = 0, ts_nsecs = 0\<rparr>))"

text \<open>The writer starts with the first change, when the filesystem can be written at all.\<close>

definition writer :: "'d host \<Rightarrow> ('d, unit) vproc" where
  "writer h v =
     (case v_w v of
        Some _ \<Rightarrow> (Ok (), v)
      | None \<Rightarrow>
          seq (lift (check_writable (v_sb v))) (\<lambda>_.
          if v_log v \<noteq> Clean \<and> v_log v \<noteq> External then raise Unsupported
          else modify (\<lambda>v. v\<lparr>v_w := Some (writer_new (h_clock h v))\<rparr>)) v)"

text \<open>A method on the writer, and one on a group it holds; both must be there.\<close>

definition on_w :: "(vwriter, 'a) proc \<Rightarrow> ('d, 'a) vproc" where
  "on_w m v = (case v_w v of
      None \<Rightarrow> (Panic, v)
    | Some w \<Rightarrow> (case m w of (r, w') \<Rightarrow> (r, v\<lparr>v_w := Some w'\<rparr>)))"

definition on_ag :: "nat \<Rightarrow> (ag, 'a) proc \<Rightarrow> ('d, 'a) vproc" where
  "on_ag agno m = on_w (\<lambda>w. case om_get (vw_ags w) agno of
      None \<Rightarrow> (Panic, w)
    | Some ag \<Rightarrow> (case m ag of (r, ag') \<Rightarrow> (r, w\<lparr>vw_ags := om_insert agno ag' (vw_ags w)\<rparr>)))"

definition load_ag :: "'d host \<Rightarrow> nat \<Rightarrow> ('d, unit) vproc" where
  "load_ag h agno =
     seq (writer h) (\<lambda>_.
     seq (on_w (\<lambda>w. (Ok (om_get (vw_ags w) agno \<noteq> None), w))) (\<lambda>there.
     if there then ret ()
     else
       seq (reading (\<lambda>v. load (h_ops h) (v_dev v) (v_sb v) agno)) (\<lambda>ag.
       on_w (modify (\<lambda>w. w\<lparr>vw_ags := om_insert agno ag (vw_ags w)\<rparr>)))))"

definition ag_order :: "superblock \<Rightarrow> nat \<Rightarrow> nat list" where
  "ag_order sb first = map (\<lambda>i. (first mod sb_ag_count sb + i) mod sb_ag_count sb) [0..<sb_ag_count sb]"

section \<open>Blocks\<close>

text \<open>
  The inner loop of \<open>alloc_blocks\<close>, on one group. A run has at least one block, so as many
  rounds as blocks are enough fuel (\<open>alloc_fill_ok\<close>).
\<close>

fun alloc_fill :: "superblock \<Rightarrow> nat \<Rightarrow> nat \<Rightarrow> nat \<Rightarrow> nat \<Rightarrow> (nat \<times> nat) list \<Rightarrow> (ag, nat \<times> (nat \<times> nat) list) proc" where
  "alloc_fill sb agno near fuel 0 out = ret (0, out)"
| "alloc_fill sb agno near 0 (Suc n) out = panic"
| "alloc_fill sb agno near (Suc fuel) (Suc n) out =
     seq (alloc (min (Suc n) MAX_EXTENT) near) (\<lambda>got.
     case got of
       None \<Rightarrow> ret (Suc n, out)
     | Some (s, l) \<Rightarrow>
         seq (lift (sub_w (Suc n) l)) (\<lambda>left.
         alloc_fill sb agno near fuel left (out @ [(agb_to_fsb sb agno s, l)])))"

primrec alloc_from ::
  "'d host \<Rightarrow> superblock \<Rightarrow> nat \<Rightarrow> nat \<Rightarrow> nat list \<Rightarrow> nat \<Rightarrow> (nat \<times> nat) list \<Rightarrow> ('d, nat \<times> (nat \<times> nat) list) vproc" where
  "alloc_from h sb pref near [] left out = ret (left, out)"
| "alloc_from h sb pref near (agno # agnos) left out =
     (if left = 0 then ret (left, out)
      else
        seq (load_ag h agno) (\<lambda>_.
        seq (on_ag agno (alloc_fill sb agno (if agno = pref then near else 0) left left out)) (\<lambda>(left, out).
        alloc_from h sb pref near agnos left out)))"

definition alloc_blocks :: "'d host \<Rightarrow> nat \<Rightarrow> nat \<Rightarrow> nat \<Rightarrow> ('d, (nat \<times> nat) list) vproc" where
  "alloc_blocks h pref n near v =
     (let sb = v_sb v in
      seq (alloc_from h sb pref near (ag_order sb pref) n []) (\<lambda>(left, out).
      if left > 0 then
        seq (for_each (\<lambda>(fsb, l). let (agno, agbno) = fsb_to_agb sb fsb in on_ag agno (free_extent agbno l)) out) (\<lambda>_.
        raise NoSpace)
      else ret out) v)"

definition rmap_extent :: "nat \<Rightarrow> nat \<Rightarrow> nat \<Rightarrow> nat \<Rightarrow> ('d, unit) vproc" where
  "rmap_extent fsb len owner offset v =
     (let sb = v_sb v; (agno, agbno) = fsb_to_agb sb fsb in on_ag agno (rmap_add sb agbno len owner offset) v)"

definition release :: "'d host \<Rightarrow> nat \<Rightarrow> nat \<Rightarrow> nat \<Rightarrow> ('d, unit) vproc" where
  "release h fsb len owner v =
     (let sb = v_sb v; (agno, agbno) = fsb_to_agb sb fsb in
      seq (load_ag h agno) (\<lambda>_.
      on_ag agno (seq (free_extent agbno len) (\<lambda>_. rmap_remove sb agbno len owner))) v)"

definition free_fork :: "'d host \<Rightarrow> inode \<Rightarrow> bool \<Rightarrow> ('d, nat) vproc" where
  "free_fork h ip attr =
     seq (reading (\<lambda>v. fork_map (h_ops h) v ip attr)) (\<lambda>(exts, btree_blocks).
     seq (for_each (\<lambda>e. release h (x_block e) (as_u32 (x_count e)) (i_ino ip)) exts) (\<lambda>_.
     seq (for_each (\<lambda>b. release h b 1 (i_ino ip)) btree_blocks) (\<lambda>_.
     ret (sum_list (map x_count exts) + length btree_blocks))))"

abbreviation (input) "CHUNK \<equiv> 2 ^ 20 :: nat"

function write_chunks :: "'d host \<Rightarrow> byte list \<Rightarrow> nat \<Rightarrow> nat \<Rightarrow> nat \<Rightarrow> ('d, unit) vproc" where
  "write_chunks h data stop at dev_at =
     (if at < stop then
        let n = min (stop - at) CHUNK; have = min (length data - at) n in
        seq (lift (get data at have)) (\<lambda>part.
        seq (dev_write h dev_at (part @ replicate (n - have) 0)) (\<lambda>_.
        write_chunks h data stop (at + n) (dev_at + n)))
      else ret ())"
  by pat_completeness auto
termination
  by (relation "measure (\<lambda>(h, data, stop, at, dev_at). stop - at)") auto

declare write_chunks.simps [simp del]

definition write_mapped :: "'d host \<Rightarrow> extent list \<Rightarrow> byte list \<Rightarrow> ('d, unit) vproc" where
  "write_mapped h exts data v =
     (let sb = v_sb v; bs = sb_block_size sb in
      for_each (\<lambda>e.
        seq (lift (mul_w 64 (x_offset e) bs)) (\<lambda>at.
        seq (lift (mul_w 64 (x_end e) bs)) (\<lambda>xend.
        seq (lift (fsb_to_byte sb (x_block e))) (\<lambda>dev_at.
        write_chunks h data (min xend (div_ceil (length data) bs * bs)) at dev_at)))) exts v)"

definition near :: "superblock \<Rightarrow> nat \<Rightarrow> nat \<times> nat" where
  "near sb ino = (let (agno, agino) = ino_to_agino sb ino in (agno, drop_bit (sb_inopb_log sb) agino))"

definition map_fork :: "'d host \<Rightarrow> nat \<Rightarrow> extent list \<Rightarrow> nat \<Rightarrow> ('d, fmt \<times> byte list \<times> nat) vproc" where
  "map_fork h ino exts fork_size v =
     (if length exts \<le> fork_size div 16 then (Ok (Extents, concat (map encode exts), 0), v)
      else
        let sb = v_sb v; bs = sb_block_size sb; root_max = bmap_root_max fork_size; (agno, near) = near sb ino in
        seq (lift (returns (bmap_blocks (length exts) bs root_max))) (\<lambda>nb.
        seq (alloc_blocks h agno nb near) (\<lambda>runs.
        seq (for_each (\<lambda>(fsb, len). rmap_extent fsb len ino RMAPF_BMBT) runs) (\<lambda>_.
        seq (lift (build_bmap sb ino (map (\<lambda>e. (x_offset e, encode e)) exts) (expand runs) root_max)) (\<lambda>built.
        seq (for_each (\<lambda>(fsb, buf). seq (lift (fsb_to_byte sb fsb)) (\<lambda>at. dev_write h at buf)) (bt_blocks built)) (\<lambda>_.
        seq (lift (bmap_root_fork fork_size ((bt_levels built - 1) mod 2 ^ 16) (bt_root_entries built))) (\<lambda>fork.
        ret (Btree, fork, nb))))))) v)"

text \<open>The extents of a new file: the runs one after the other, each entered in the reverse map.\<close>

primrec map_runs :: "nat \<Rightarrow> (nat \<times> nat) list \<Rightarrow> nat \<Rightarrow> ('d, extent list) vproc" where
  "map_runs ino [] lblk = ret []"
| "map_runs ino (run # runs) lblk =
     (let (fsb, len) = run in
      seq (rmap_extent fsb len ino lblk) (\<lambda>_.
      seq (map_runs ino runs (lblk + len)) (\<lambda>exts.
      ret (\<lparr>x_offset = lblk, x_block = fsb, x_count = len, x_unwritten = False\<rparr> # exts))))"

definition store_data :: "'d host \<Rightarrow> nat \<Rightarrow> nat \<Rightarrow> byte list \<Rightarrow> ('d, fmt \<times> byte list \<times> nat \<times> nat) vproc" where
  "store_data h ino fork_size data v =
     (let sb = v_sb v; n = div_ceil (length data) (sb_block_size sb); (agno, near) = near sb ino in
      if n = 0 then (Ok (Extents, [], 0, 0), v)
      else
        seq (alloc_blocks h agno n near) (\<lambda>runs.
        seq (map_runs ino runs 0) (\<lambda>exts v.
        case seq (write_mapped h exts data) (\<lambda>_. map_fork h ino exts fork_size) v of
          (Ok (format, fork, btree_blocks), v) \<Rightarrow> (Ok (format, fork, n + btree_blocks, length exts), v)
        | (Err e, v) \<Rightarrow> seq (for_each (\<lambda>x. release h (x_block x) (as_u32 (x_count x)) ino) exts) (\<lambda>_. raise e) v
        | (Panic, v) \<Rightarrow> (Panic, v))) v)"

end
