(* ===== verification/WriteOps.thy ===== *)
theory WriteOps
  imports Write
begin

text \<open>
  The write side of a volume, its upper half (\<open>src/src/write.rs\<close>): inodes, directories held in
  memory and laid out, the operations that make, change and remove names, and the flush that
  brings everything on disk up to date.
\<close>

unbundle bit_operations_syntax

section \<open>Inodes\<close>

definition read_raw :: "'d host \<Rightarrow> nat \<Rightarrow> ('d, byte list) vproc" where
  "read_raw h ino = reading (\<lambda>v.
     and_then (ino_to_byte (v_sb v) ino) (\<lambda>at.
     and_then (dev_read_at (h_ops h) (v_dev v) at (sb_inode_size (v_sb v))) (\<lambda>buf.
     and_then (be16 buf 0) (\<lambda>magic.
     if magic \<noteq> INODE_MAGIC \<or> \<not> verify buf INODE_CRC then Err Corrupt
     else and_then (be64 buf 152) (\<lambda>n. if n \<noteq> ino then Err Corrupt else Ok buf)))))"

definition write_raw :: "'d host \<Rightarrow> nat \<Rightarrow> byte list \<Rightarrow> ('d, unit) vproc" where
  "write_raw h ino raw v =
     (let sb = v_sb v; bs = sb_block_size sb in
      seq (lift (stamp raw INODE_CRC)) (\<lambda>raw.
      seq (lift (ino_to_byte sb ino)) (\<lambda>at.
      seq (lift (sub_w bs 1)) (\<lambda>mask.
      let block_at = and_not at mask in
      seq (reading (\<lambda>v. dev_read_at (h_ops h) (v_dev v) block_at bs)) (\<lambda>buf.
      seq (lift (copy_in buf (at - block_at) raw)) (\<lambda>buf.
      dev_write h block_at buf))))) v)"

definition new_raw_inode :: "'d host \<Rightarrow> nat \<Rightarrow> nat \<Rightarrow> nat \<Rightarrow> nat \<Rightarrow> nat \<Rightarrow> ('d, byte list) vproc" where
  "new_raw_inode h ino mode uid gid nlink v =
     seq (on_w next_gen) (\<lambda>gen. lift (new_raw (v_sb v) (now h v) gen ino mode uid gid nlink)) v"

text \<open>The inodes of a new chunk, all free, each with a generation of its own.\<close>

definition free_inode_bytes :: "superblock \<Rightarrow> nat \<Rightarrow> nat \<Rightarrow> byte list res" where
  "free_inode_bytes sb gen ino =
     and_then (puts [(0, u16_bytes INODE_MAGIC), (4, [3]), (92, u32_bytes gen), (96, u32_bytes 0xffffffff),
                     (152, u64_bytes ino), (160, sb_meta_uuid sb)] (replicate (sb_inode_size sb) 0)) (\<lambda>r.
     stamp r INODE_CRC)"

primrec fill_chunk :: "superblock \<Rightarrow> nat \<Rightarrow> nat list \<Rightarrow> byte list \<Rightarrow> ('d, byte list) vproc" where
  "fill_chunk sb first [] buf = ret buf"
| "fill_chunk sb first (i # is) buf =
     seq (on_w next_gen) (\<lambda>gen.
     seq (lift (free_inode_bytes sb gen (first + i))) (\<lambda>r.
     seq (lift (copy_in buf (i * sb_inode_size sb) r)) (fill_chunk sb first is)))"

definition init_chunk :: "'d host \<Rightarrow> nat \<Rightarrow> nat \<Rightarrow> ('d, unit) vproc" where
  "init_chunk h agno agbno v =
     (let sb = v_sb v in
      if sb_inodes_per_block sb = 0 then (Panic, v)
      else
        let blocks = CHUNK_INODES div sb_inodes_per_block sb in
        seq (lift (shl_w 32 agbno (sb_inopb_log sb))) (\<lambda>agino.
        seq (fill_chunk sb (agino_to_ino sb agno agino) [0..<CHUNK_INODES] (replicate (blocks * sb_block_size sb) 0)) (\<lambda>buf.
        dev_write h (agb_to_byte sb agno agbno) buf)) v)"

text \<open>The limit on inodes, checked before a new chunk is made.\<close>

definition check_imax :: "('d, unit) vproc" where
  "check_imax v =
     (let sb = v_sb v in
      if sb_imax_pct sb > 0 then
        seq (on_w (\<lambda>w. (Ok (vw_new_chunks w), w))) (\<lambda>new_chunks.
        seq (lift (mul_w 64 (sb_data_blocks sb) (sb_imax_pct sb))) (\<lambda>p.
        seq (lift (mul_w 64 (p div 100) (sb_inodes_per_block sb))) (\<lambda>mx.
        seq (lift (and_then (add_w 64 new_chunks 1) (\<lambda>c. and_then (mul_w 64 c CHUNK_INODES) (add_w 64 (sb_icount sb))))) (\<lambda>n.
        if n > mx then raise NoSpace else ret ())))) v
      else (Ok (), v))"

primrec alloc_ino_from :: "'d host \<Rightarrow> superblock \<Rightarrow> nat list \<Rightarrow> ('d, nat) vproc" where
  "alloc_ino_from h sb [] = raise NoSpace"
| "alloc_ino_from h sb (agno # agnos) =
     seq (load_ag h agno) (\<lambda>_.
     seq (on_ag agno alloc_inode) (\<lambda>got.
     case got of
       Some agino \<Rightarrow> ret (agino_to_ino sb agno agino)
     | None \<Rightarrow>
         seq check_imax (\<lambda>_.
         seq (on_ag agno (alloc_chunk sb)) (\<lambda>chunk.
         case chunk of
           None \<Rightarrow> alloc_ino_from h sb agnos
         | Some agbno \<Rightarrow>
             seq (on_ag agno alloc_inode) (\<lambda>got.
             case got of
               None \<Rightarrow> panic
             | Some agino \<Rightarrow>
                 seq (on_w (modify (\<lambda>w. w\<lparr>vw_new_chunks := vw_new_chunks w + 1\<rparr>))) (\<lambda>_.
                 seq (init_chunk h agno agbno) (\<lambda>_.
                 ret (agino_to_ino sb agno agino))))))))"

definition alloc_ino :: "'d host \<Rightarrow> nat \<Rightarrow> ('d, nat) vproc" where
  "alloc_ino h pref v = alloc_ino_from h (v_sb v) (ag_order (v_sb v) pref) v"

definition unalloc_ino :: "nat \<Rightarrow> ('d, unit) vproc" where
  "unalloc_ino ino v = (let (agno, agino) = ino_to_agino (v_sb v) ino in on_ag agno (free_inode agino) v)"

definition freed_inode :: "superblock \<Rightarrow> nat \<Rightarrow> byte list \<Rightarrow> byte list res" where
  "freed_inode sb ino raw =
     and_then (be32 raw 92) (\<lambda>gen.
     and_then (raw_flags2 raw) (\<lambda>flags2.
     puts [(0, u16_bytes INODE_MAGIC), (4, [3]), (5, [format_code Extents]), (83, [format_code Extents]),
           (120, u64_bytes (flags2 AND (DIFLAG2_BIGTIME OR DIFLAG2_NREXT64))), (92, u32_bytes ((gen + 1) mod 2 ^ 32)),
           (96, u32_bytes 0xffffffff), (152, u64_bytes ino), (160, sb_meta_uuid sb)]
       (replicate (length raw) 0)))"

definition destroy :: "'d host \<Rightarrow> inode \<Rightarrow> ('d, unit) vproc" where
  "destroy h ip v =
     (let sb = v_sb v; ino = i_ino ip; (agno, agino) = ino_to_agino sb ino in
      if i_flags2 ip AND 0x2 \<noteq> 0 then (Err Unsupported, v)
      else if is_realtime ip then (Err Unsupported, v)
      else
        seq (free_fork h ip False) (\<lambda>_.
        seq (if i_aformat ip \<noteq> None then free_fork h ip True else ret 0) (\<lambda>_.
        seq (read_raw h ino) (\<lambda>raw.
        seq (lift (freed_inode sb ino raw)) (\<lambda>r.
        seq (write_raw h ino r) (\<lambda>_.
        seq (load_ag h agno) (\<lambda>_.
        on_ag agno (free_inode agino))))))) v)"

section \<open>Directories\<close>

definition parent_dir :: "'d host \<Rightarrow> byte list \<Rightarrow> 'd volume \<Rightarrow> (nat \<times> byte list) res" where
  "parent_dir h path v =
     and_then (split_path path) (\<lambda>(parent, name).
     and_then (resolve (h_ops h) v parent True) (\<lambda>dino.
     and_then (read_inode (h_ops h) v dino) (\<lambda>ip.
     if \<not> is_dir ip then Err NotADirectory else Ok (dino, name))))"

definition entry_of :: "'d host \<Rightarrow> nat \<Rightarrow> byte list \<Rightarrow> 'd volume \<Rightarrow> (nat \<times> file_type) option res" where
  "entry_of h dino name v =
     and_then (read_inode (h_ops h) v dino) (\<lambda>dir.
     and_then (dir_entries (h_ops h) v dir) (\<lambda>es.
     Ok (map_option (\<lambda>e. (re_ino e, re_ftype e)) (List.find (\<lambda>e. re_name e = name) es))))"

text \<open>The names of a directory as the writer holds them.\<close>

definition dir_names :: "nat \<Rightarrow> raw_entry list \<Rightarrow> dir_state" where
  "dir_names dino es = fold (\<lambda>e d.
     if re_name e = [0x2e, 0x2e] then d\<lparr>ds_parent := re_ino e\<rparr>
     else if re_name e \<noteq> [0x2e] then d\<lparr>ds_names := om_insert (re_name e) (re_ino e, ft_code (re_ftype e)) (ds_names d)\<rparr>
     else d) es \<lparr>ds_parent = dino, ds_names = []\<rparr>"

definition hold_dir :: "'d host \<Rightarrow> nat \<Rightarrow> ('d, unit) vproc" where
  "hold_dir h dino =
     seq (writer h) (\<lambda>_.
     seq (on_w (\<lambda>w. (Ok (om_get (vw_dirs w) dino \<noteq> None), w))) (\<lambda>there.
     if there then ret ()
     else
       seq (reading (\<lambda>v. and_then (read_inode (h_ops h) v dino) (dir_entries (h_ops h) v))) (\<lambda>es.
       on_w (modify (\<lambda>w. w\<lparr>vw_dirs := om_insert dino (dir_names dino es) (vw_dirs w)\<rparr>)))))"

text \<open>A change to a directory held in memory.\<close>

definition on_dir :: "'d host \<Rightarrow> nat \<Rightarrow> (dir_state \<Rightarrow> dir_state) \<Rightarrow> ('d, unit) vproc" where
  "on_dir h dino f =
     seq (hold_dir h dino) (\<lambda>_. on_w (\<lambda>w.
       case om_get (vw_dirs w) dino of
         None \<Rightarrow> (Panic, w)
       | Some d \<Rightarrow> (Ok (), w\<lparr>vw_dirs := om_insert dino (f d) (vw_dirs w)\<rparr>)))"

definition add_name :: "'d host \<Rightarrow> nat \<Rightarrow> byte list \<Rightarrow> nat \<Rightarrow> file_type \<Rightarrow> ('d, unit) vproc" where
  "add_name h dino name ino kind = on_dir h dino (\<lambda>d. d\<lparr>ds_names := om_insert name (ino, ft_code kind) (ds_names d)\<rparr>)"

definition drop_name :: "'d host \<Rightarrow> nat \<Rightarrow> byte list \<Rightarrow> ('d, unit) vproc" where
  "drop_name h dino name = on_dir h dino (\<lambda>d. d\<lparr>ds_names := om_remove name (ds_names d)\<rparr>)"

text \<open>Runs of consecutive logical blocks; the list is kept reversed.\<close>

definition lblk_runs :: "nat \<Rightarrow> nat list \<Rightarrow> (nat \<times> nat) list" where
  "lblk_runs per lblks = rev (fold (\<lambda>l runs.
     case runs of (s, n) # rest \<Rightarrow> if s + n = l then (s, n + per) # rest else (l, per) # runs | [] \<Rightarrow> [(l, per)]) lblks [])"

primrec alloc_runs :: "'d host \<Rightarrow> nat \<Rightarrow> nat \<Rightarrow> nat \<Rightarrow> (nat \<times> nat) list \<Rightarrow> ('d, extent list) vproc" where
  "alloc_runs h dino agno nr [] = ret []"
| "alloc_runs h dino agno nr (run # runs) =
     (let (lstart, n) = run in
      seq (alloc_blocks h agno n nr) (\<lambda>got.
      seq (map_runs dino got lstart) (\<lambda>exts.
      seq (alloc_runs h dino agno nr runs) (\<lambda>more_exts.
      ret (exts @ more_exts)))))"

definition fsb_of :: "extent list \<Rightarrow> nat \<Rightarrow> nat res" where
  "fsb_of exts lblk = and_then (ok_or Corrupt (find exts lblk)) (\<lambda>e. Ok (x_block e + (lblk - x_offset e)))"

definition write_dir_block :: "'d host \<Rightarrow> nat \<Rightarrow> extent list \<Rightarrow> dir_block \<Rightarrow> ('d, unit) vproc" where
  "write_dir_block h per exts b v =
     (let sb = v_sb v; bs = sb_block_size sb in
      seq (lift (and_then (fsb_of exts (db_lblk b)) (fsb_to_byte sb))) (\<lambda>first.
      seq (lift (seal_block first b)) (\<lambda>data.
      for_each (\<lambda>k.
        seq (lift (and_then (fsb_of exts (db_lblk b + k)) (fsb_to_byte sb))) (\<lambda>at.
        seq (lift (get data (k * bs) bs)) (\<lambda>part.
        dev_write h at part))) [0..<per])) v)"

text \<open>The new fork of a directory: its format and bytes, its size, the blocks it uses and its extents.\<close>

definition lay_dir :: "'d host \<Rightarrow> nat \<Rightarrow> dir_state \<Rightarrow> nat \<Rightarrow> ('d, fmt \<times> byte list \<times> nat \<times> nat \<times> nat) vproc" where
  "lay_dir h dino st fork_size v =
     (let sb = v_sb v;
          names = map (\<lambda>(n, ino, ftype). \<lparr>de_name = n, de_ino = ino, de_ftype = ftype\<rparr>) (ds_names st);
          (agno, near) = near sb dino in
      seq (lift (layout sb dino (ds_parent st) names fork_size)) (\<lambda>lay.
      case lay of
        Short bytes \<Rightarrow> ret (Local, bytes, length bytes, 0, 0)
      | Blocks sz blocks \<Rightarrow>
          seq (lift (shl_w 64 1 (sb_dirblk_log sb))) (\<lambda>per.
          let runs = lblk_runs per (map db_lblk blocks) in
          seq (alloc_runs h dino agno near runs) (\<lambda>exts.
          seq (for_each (write_dir_block h per exts) blocks) (\<lambda>_.
          seq (map_fork h dino exts fork_size) (\<lambda>(format, fork, btree_blocks).
          ret (format, fork, sz, sum_list (map snd runs) + btree_blocks, length exts)))))) v)"

text \<open>A fork, its size and its blocks in a raw inode; \<open>freed\<close> blocks are no longer its own.\<close>

definition set_contents :: "fmt \<Rightarrow> byte list \<Rightarrow> nat \<Rightarrow> nat \<Rightarrow> byte list \<Rightarrow> byte list res" where
  "set_contents format fork len nextents raw =
     and_then (set_data_fork format fork raw) (\<lambda>raw.
     and_then (set_size len raw) (set_nextents nextents))"

definition change_nblocks :: "nat \<Rightarrow> nat \<Rightarrow> byte list \<Rightarrow> byte list res" where
  "change_nblocks freed more_blocks raw =
     and_then (raw_nblocks raw) (\<lambda>nb.
     and_then (add_w 64 (nb - freed) more_blocks) (\<lambda>nb.
     set_nblocks nb raw))"

definition write_dir :: "'d host \<Rightarrow> nat \<Rightarrow> dir_state \<Rightarrow> ('d, unit) vproc" where
  "write_dir h dino st =
     seq (reading (\<lambda>v. read_inode (h_ops h) v dino)) (\<lambda>ip.
     if \<not> is_dir ip then raise Corrupt
     else
       seq (free_fork h ip False) (\<lambda>freed.
       seq (read_raw h dino) (\<lambda>raw.
       seq (lift (data_fork_size raw)) (\<lambda>fork_size.
       let subdirs = length (filter (\<lambda>(_, _, t). t = ft_code Directory) (ds_names st)) in
       seq (lay_dir h dino st fork_size) (\<lambda>(format, fork, sz, used, nextents).
       seq (lift (set_contents format fork sz nextents raw)) (\<lambda>raw.
       seq (lift (change_nblocks freed used raw)) (\<lambda>raw.
       seq (lift (set_nlink (2 + subdirs) raw)) (\<lambda>raw v.
       seq (lift (touch (now h v) True raw)) (write_raw h dino) v))))))))"

section \<open>Making things\<close>

definition create_node :: "'d host \<Rightarrow> byte list \<Rightarrow> nat \<Rightarrow> nat \<Rightarrow> nat \<Rightarrow> nat \<Rightarrow> ('d, nat \<times> byte list \<times> nat \<times> byte list) vproc" where
  "create_node h path mode uid gid nlink =
     seq (reading (parent_dir h path)) (\<lambda>(dino, name).
     seq (reading (entry_of h dino name)) (\<lambda>there.
     if there \<noteq> None then raise Exists
     else
       seq (writer h) (\<lambda>_ v.
       seq (alloc_ino h (fst (ino_to_agino (v_sb v) dino))) (\<lambda>ino.
       seq (new_raw_inode h ino mode uid gid nlink) (\<lambda>raw.
       ret (dino, name, ino, raw))) v)))"

definition replace_file :: "'d host \<Rightarrow> nat \<Rightarrow> byte list \<Rightarrow> attrs option \<Rightarrow> ('d, nat) vproc" where
  "replace_file h ino data a =
     seq (writer h) (\<lambda>_.
     seq (reading (\<lambda>v. read_inode (h_ops h) v ino)) (\<lambda>ip.
     if i_flags2 ip AND 0x2 \<noteq> 0 then raise Unsupported
     else if is_realtime ip then raise Unsupported
     else
       seq (read_raw h ino) (\<lambda>raw.
       seq (lift (data_fork_size raw)) (\<lambda>fork_size.
       seq (store_data h ino fork_size data) (\<lambda>(format, fork, used, nextents).
       seq (free_fork h ip False) (\<lambda>freed.
       seq (lift (set_contents format fork (length data) nextents raw)) (\<lambda>raw.
       seq (lift (change_nblocks freed used raw)) (\<lambda>raw.
       seq (lift (case a of
                    None \<Rightarrow> Ok raw
                  | Some a \<Rightarrow> and_then (set_mode (IFREG OR perms a) raw) (set_owner (a_uid a) (a_gid a)))) (\<lambda>raw v.
       seq (lift (touch (now h v) True raw)) (\<lambda>raw.
       seq (write_raw h ino raw) (\<lambda>_.
       ret ino)) v)))))))))"

definition new_file :: "'d host \<Rightarrow> byte list \<Rightarrow> byte list \<Rightarrow> attrs option \<Rightarrow> ('d, nat) vproc" where
  "new_file h path data a =
     (let a = (case a of Some a \<Rightarrow> a | None \<Rightarrow> attrs_default) in
      seq (create_node h path (IFREG OR perms a) (a_uid a) (a_gid a) 1) (\<lambda>(dino, name, ino, raw).
      seq (lift (data_fork_size raw)) (\<lambda>fork_size v.
      case store_data h ino fork_size data v of
        (Err e, v) \<Rightarrow> seq (unalloc_ino ino) (\<lambda>_. raise e) v
      | (Panic, v) \<Rightarrow> (Panic, v)
      | (Ok (format, fork, nused, nextents), v) \<Rightarrow>
          seq (lift (and_then (set_contents format fork (length data) nextents raw) (set_nblocks nused))) (\<lambda>raw.
          seq (write_raw h ino raw) (\<lambda>_.
          seq (add_name h dino name ino File) (\<lambda>_.
          ret ino))) v)))"

definition write_file :: "'d host \<Rightarrow> byte list \<Rightarrow> byte list \<Rightarrow> attrs option \<Rightarrow> ('d, nat) vproc" where
  "write_file h path data a =
     seq (reading (parent_dir h path)) (\<lambda>(dino, name).
     seq (reading (entry_of h dino name)) (\<lambda>there.
     case there of
       Some (ino, kind) \<Rightarrow>
         if kind = File then replace_file h ino data a
         else if kind = Directory then raise IsADirectory
         else raise Exists
     | None \<Rightarrow> new_file h path data a))"

definition write_path :: "'d host \<Rightarrow> byte list \<Rightarrow> byte list \<Rightarrow> ('d, nat) vproc" where
  "write_path h path data = write_file h path data None"

definition write_with :: "'d host \<Rightarrow> byte list \<Rightarrow> byte list \<Rightarrow> attrs \<Rightarrow> ('d, nat) vproc" where
  "write_with h path data a = write_file h path data (Some a)"

definition mkdir_with :: "'d host \<Rightarrow> byte list \<Rightarrow> attrs \<Rightarrow> ('d, nat) vproc" where
  "mkdir_with h path a =
     seq (create_node h path (IFDIR OR perms a) (a_uid a) (a_gid a) 2) (\<lambda>(dino, name, ino, raw).
     seq (lift (data_fork_size raw)) (\<lambda>fork_size v.
     seq (lift (layout (v_sb v) ino dino [] fork_size)) (\<lambda>lay.
     case lay of
       Blocks _ _ \<Rightarrow> panic
     | Short fork \<Rightarrow>
         seq (lift (and_then (set_data_fork Local fork raw) (set_size (length fork)))) (\<lambda>raw.
         seq (write_raw h ino raw) (\<lambda>_.
         seq (on_w (modify (\<lambda>w. w\<lparr>vw_dirs := om_insert ino \<lparr>ds_parent = dino, ds_names = []\<rparr> (vw_dirs w)\<rparr>))) (\<lambda>_.
         seq (add_name h dino name ino Directory) (\<lambda>_.
         ret ino))))) v))"

definition mkdir :: "'d host \<Rightarrow> byte list \<Rightarrow> ('d, nat) vproc" where
  "mkdir h path = mkdir_with h path attrs_dir"

primrec mkdir_comps :: "'d host \<Rightarrow> attrs \<Rightarrow> byte list list \<Rightarrow> byte list \<Rightarrow> ('d, unit) vproc" where
  "mkdir_comps h a [] cur = ret ()"
| "mkdir_comps h a (c # cs) cur =
     (let cur = cur @ [0x2f] @ c in
      (\<lambda>v. case resolve (h_ops h) v cur True of
        Ok ino \<Rightarrow>
          seq (reading (\<lambda>v. read_inode (h_ops h) v ino)) (\<lambda>ip.
          if \<not> is_dir ip then raise NotADirectory else mkdir_comps h a cs cur) v
      | Err NotFound \<Rightarrow> seq (mkdir_with h cur a) (\<lambda>_. mkdir_comps h a cs cur) v
      | Err e \<Rightarrow> (Err e, v)
      | Panic \<Rightarrow> (Panic, v)))"

definition mkdir_all_with :: "'d host \<Rightarrow> byte list \<Rightarrow> attrs \<Rightarrow> ('d, unit) vproc" where
  "mkdir_all_with h path a = mkdir_comps h a (filter (\<lambda>c. c \<noteq> [] \<and> c \<noteq> [0x2e]) (split_on 0x2f path)) []"

definition mkdir_all :: "'d host \<Rightarrow> byte list \<Rightarrow> ('d, unit) vproc" where
  "mkdir_all h path = mkdir_all_with h path attrs_dir"

subsection \<open>Symbolic links\<close>

text \<open>The block for one part of a target, from the first group that has one that does not follow the last.\<close>

primrec link_block :: "'d host \<Rightarrow> superblock \<Rightarrow> nat option \<Rightarrow> nat list \<Rightarrow> ('d, nat option) vproc" where
  "link_block h sb prev [] = ret None"
| "link_block h sb prev (a # as) =
     seq (load_ag h a) (\<lambda>_.
     let no = (case prev of
           None \<Rightarrow> 0xffffffff
         | Some f \<Rightarrow> (let (pa, pb) = fsb_to_agb sb f in if pa = a then pb + 1 else 0xffffffff)) in
     seq (on_ag a (alloc_block_except no)) (\<lambda>got.
     case got of
       Some b \<Rightarrow> ret (Some (agb_to_fsb sb a b))
     | None \<Rightarrow> link_block h sb prev as))"

primrec link_extents :: "'d host \<Rightarrow> superblock \<Rightarrow> nat \<Rightarrow> nat \<Rightarrow> nat list \<Rightarrow> extent list \<Rightarrow> nat option \<Rightarrow> ('d, extent list) vproc" where
  "link_extents h sb ino agno [] exts prev = ret exts"
| "link_extents h sb ino agno (i # is) exts prev =
     seq (link_block h sb prev (ag_order sb agno)) (\<lambda>got.
     case got of
       Some fsb \<Rightarrow>
         seq (rmap_extent fsb 1 ino i) (\<lambda>_.
         link_extents h sb ino agno is (exts @ [\<lparr>x_offset = i, x_block = fsb, x_count = 1, x_unwritten = False\<rparr>]) (Some fsb))
     | None \<Rightarrow>
         seq (for_each (\<lambda>e. release h (x_block e) 1 ino) exts) (\<lambda>_.
         seq (unalloc_ino ino) (\<lambda>_.
         raise NoSpace)))"

definition link_part :: "superblock \<Rightarrow> nat \<Rightarrow> nat \<Rightarrow> nat \<Rightarrow> byte list \<Rightarrow> byte list res" where
  "link_part sb ino at off part =
     and_then (puts [(0, u32_bytes SYMLINK_MAGIC), (4, u32_bytes off), (8, u32_bytes (length part)), (16, sb_meta_uuid sb),
                     (32, u64_bytes ino), (40, u64_bytes (drop_bit 9 at)), (SYMLINK_HDR, part)]
       (replicate (sb_block_size sb) 0)) (\<lambda>buf. stamp buf 12)"

definition write_link_part :: "'d host \<Rightarrow> superblock \<Rightarrow> nat \<Rightarrow> byte list \<Rightarrow> nat \<times> extent \<Rightarrow> ('d, unit) vproc" where
  "write_link_part h sb ino target = (\<lambda>(i, e).
     let payload = sb_block_size sb - SYMLINK_HDR; off = i * payload in
     seq (lift (sub_w (min (off + payload) (length target)) off)) (\<lambda>n.
     seq (lift (get target off n)) (\<lambda>part.
     seq (lift (fsb_to_byte sb (x_block e))) (\<lambda>at.
     seq (lift (link_part sb ino at off part)) (\<lambda>buf.
     dev_write h at buf)))))"

definition symlink :: "'d host \<Rightarrow> byte list \<Rightarrow> byte list \<Rightarrow> ('d, nat) vproc" where
  "symlink h path target =
     (if target = [] \<or> length target > 1023 then raise InvalidPath
      else
        seq (create_node h path (IFLNK OR 0x1ff) 0 0 1) (\<lambda>(dino, name, ino, raw).
        seq (lift (data_fork_size raw)) (\<lambda>fork_size v.
        let sb = v_sb v in
        seq (if length target \<le> fork_size
             then lift (and_then (set_data_fork Local target raw) (set_nextents 0))
             else
               seq (lift (sub_w (sb_block_size sb) SYMLINK_HDR)) (\<lambda>payload.
               if payload = 0 then panic
               else
                 let nblk = div_ceil (length target) payload in
                 seq (link_extents h sb ino (fst (near sb ino)) [0..<nblk] [] None) (\<lambda>exts.
                 seq (for_each (write_link_part h sb ino target) (enumerate 0 exts)) (\<lambda>_.
                 lift (and_then (set_data_fork Extents (concat (map encode exts)) raw) (\<lambda>raw.
                       and_then (set_nextents (length exts) raw) (set_nblocks nblk))))))) (\<lambda>raw.
        seq (lift (set_size (length target) raw)) (\<lambda>raw.
        seq (write_raw h ino raw) (\<lambda>_.
        seq (add_name h dino name ino Symlink) (\<lambda>_.
        ret ino)))) v)))"

subsection \<open>Special files and links\<close>

definition special_dev :: "special \<Rightarrow> nat res" where
  "special_dev k =
     (let number = (\<lambda>major minor. if major \<ge> 2 ^ 14 \<or> minor \<ge> 2 ^ 18 then Err Unsupported else Ok (push_bit 18 major OR minor)) in
      case k of
        SpCharDevice major minor \<Rightarrow> number major minor
      | SpBlockDevice major minor \<Rightarrow> number major minor
      | _ \<Rightarrow> Ok 0)"

definition mknod :: "'d host \<Rightarrow> byte list \<Rightarrow> special \<Rightarrow> attrs \<Rightarrow> ('d, nat) vproc" where
  "mknod h path kind a =
     seq (lift (special_dev kind)) (\<lambda>dev.
     seq (create_node h path (mode_bits kind OR perms a) (a_uid a) (a_gid a) 1) (\<lambda>(dino, name, ino, raw).
     seq (lift (set_data_fork Dev (u32_bytes dev) raw)) (\<lambda>raw.
     seq (write_raw h ino raw) (\<lambda>_.
     seq (add_name h dino name ino (from_mode (mode_bits kind))) (\<lambda>_.
     ret ino)))))"

text \<open>An edit of an inode on disk, with its change time.\<close>

definition edit_raw :: "'d host \<Rightarrow> nat \<Rightarrow> (byte list \<Rightarrow> byte list res) \<Rightarrow> ('d, unit) vproc" where
  "edit_raw h ino f =
     seq (read_raw h ino) (\<lambda>raw v.
     seq (lift (and_then (f raw) (touch (now h v) False))) (write_raw h ino) v)"

definition link :: "'d host \<Rightarrow> byte list \<Rightarrow> byte list \<Rightarrow> ('d, nat) vproc" where
  "link h existing new_path =
     seq (reading (\<lambda>v. lookup (h_ops h) v existing)) (\<lambda>ino.
     seq (reading (\<lambda>v. read_inode (h_ops h) v ino)) (\<lambda>ip.
     if is_dir ip then raise IsADirectory
     else
       seq (reading (parent_dir h new_path)) (\<lambda>(dino, name).
       seq (reading (entry_of h dino name)) (\<lambda>there.
       if there \<noteq> None then raise Exists
       else
         seq (writer h) (\<lambda>_.
         seq (edit_raw h ino (\<lambda>raw. and_then (raw_nlink raw) (\<lambda>n. and_then (add_w 32 n 1) (\<lambda>n. set_nlink n raw)))) (\<lambda>_.
         seq (add_name h dino name ino (from_mode (i_mode ip))) (\<lambda>_.
         ret ino)))))))"

section \<open>Removing and changing things\<close>

definition unlink :: "'d host \<Rightarrow> byte list \<Rightarrow> ('d, unit) vproc" where
  "unlink h path =
     seq (reading (parent_dir h path)) (\<lambda>(dino, name).
     seq (reading (entry_of h dino name)) (\<lambda>there.
     seq (lift (ok_or NotFound there)) (\<lambda>(ino, kind).
     if kind = Directory then raise IsADirectory
     else
       seq (writer h) (\<lambda>_.
       seq (reading (\<lambda>v. read_inode (h_ops h) v ino)) (\<lambda>ip.
       seq (if i_nlink ip \<le> 1 then destroy h ip
            else edit_raw h ino (\<lambda>raw. and_then (raw_nlink raw) (\<lambda>n. and_then (sub_w n 1) (\<lambda>n. set_nlink n raw)))) (\<lambda>_.
       drop_name h dino name))))))"

definition rmdir :: "'d host \<Rightarrow> byte list \<Rightarrow> ('d, unit) vproc" where
  "rmdir h path =
     seq (reading (parent_dir h path)) (\<lambda>(dino, name).
     seq (reading (entry_of h dino name)) (\<lambda>there.
     seq (lift (ok_or NotFound there)) (\<lambda>(ino, kind).
     if kind \<noteq> Directory then raise NotADirectory
     else
       seq (reading (\<lambda>v. read_inode (h_ops h) v ino)) (\<lambda>ip.
       seq (reading (\<lambda>v. dir_entries (h_ops h) v ip)) (\<lambda>es.
       if length es > 2 then raise NotEmpty
       else
         seq (writer h) (\<lambda>_.
         seq (destroy h ip) (\<lambda>_.
         seq (on_w (modify (\<lambda>w. w\<lparr>vw_dirs := om_remove ino (vw_dirs w)\<rparr>))) (\<lambda>_.
         drop_name h dino name))))))))"

definition chmod :: "'d host \<Rightarrow> byte list \<Rightarrow> nat \<Rightarrow> ('d, unit) vproc" where
  "chmod h path p =
     seq (reading (\<lambda>v. resolve (h_ops h) v path True)) (\<lambda>ino.
     seq (writer h) (\<lambda>_.
     edit_raw h ino (\<lambda>raw. and_then (raw_mode raw) (\<lambda>m. set_mode ((m AND IFMT) OR (p AND 0xfff)) raw))))"

definition chown :: "'d host \<Rightarrow> byte list \<Rightarrow> nat \<Rightarrow> nat \<Rightarrow> ('d, unit) vproc" where
  "chown h path uid gid =
     seq (reading (\<lambda>v. resolve (h_ops h) v path True)) (\<lambda>ino.
     seq (writer h) (\<lambda>_.
     edit_raw h ino (set_owner uid gid)))"

section \<open>Flush\<close>

text \<open>The rebuilds of the changed groups, in order; the writes of those before an error are lost with it.\<close>

primrec rebuild_all :: "superblock \<Rightarrow> nat list \<Rightarrow> (vwriter, (nat \<times> byte list) list) proc" where
  "rebuild_all sb [] = ret []"
| "rebuild_all sb (agno # agnos) = (\<lambda>w.
     case om_get (vw_ags w) agno of
       None \<Rightarrow> (Panic, w)
     | Some ag \<Rightarrow>
         if ag_dirty ag then
           (case rebuild sb ag of
              (r, ag') \<Rightarrow>
                seq (seq (modify (\<lambda>w. w\<lparr>vw_ags := om_insert agno ag' (vw_ags w)\<rparr>)) (\<lambda>_. lift r)) (\<lambda>ws.
                seq (rebuild_all sb agnos) (\<lambda>rest. ret (ws @ rest))) w)
         else rebuild_all sb agnos w)"

text \<open>The counters of every group, from memory where the group is there and from the device where not.\<close>

definition group_headers :: "'d host \<Rightarrow> 'd volume \<Rightarrow> nat \<Rightarrow> (byte list \<times> byte list) res" where
  "group_headers h v agno =
     (case v_w v of
        None \<Rightarrow> Panic
      | Some w \<Rightarrow> (case om_get (vw_ags w) agno of
          Some ag \<Rightarrow> Ok (ag_agf ag, ag_agi ag)
        | None \<Rightarrow> read_headers (h_ops h) (v_dev v) (v_sb v) agno))"

definition count_groups :: "'d host \<Rightarrow> 'd volume \<Rightarrow> (nat \<times> nat \<times> nat) res" where
  "count_groups h v =
     fold_res (\<lambda>agno (icount, ifree, fdblocks).
       and_then (group_headers h v agno) (\<lambda>(agf, agi).
       and_then (agi_inodes agi) (\<lambda>(c, f).
       and_then (agf_free_blocks agf) (\<lambda>b.
       Ok (icount + c, ifree + f, fdblocks + b))))) [0..<sb_ag_count (v_sb v)] (0, 0, 0)"

definition dev_flush_v :: "'d host \<Rightarrow> ('d, unit) vproc" where
  "dev_flush_v h v =
     (case dev_flush (h_ops h) (v_dev v) of
        Ok d \<Rightarrow> (Ok (), v\<lparr>v_dev := d\<rparr>)
      | Err e \<Rightarrow> (Err e, v)
      | Panic \<Rightarrow> (Panic, v))"

definition flush_sb :: "'d host \<Rightarrow> ('d, unit) vproc" where
  "flush_sb h =
     seq (reading (count_groups h)) (\<lambda>(icount, ifree, fdblocks).
     seq (reading (\<lambda>v. dev_read_at (h_ops h) (v_dev v) 0 (sect (v_sb v)))) (\<lambda>sbuf.
     seq (lift (puts [(128, u64_bytes icount), (136, u64_bytes ifree), (144, u64_bytes fdblocks)] sbuf)) (\<lambda>sbuf.
     seq (lift (stamp sbuf 224)) (\<lambda>sbuf.
     seq (dev_write h 0 sbuf) (\<lambda>_.
     modify (\<lambda>v. v\<lparr>v_sb := (v_sb v)\<lparr>sb_icount := icount, sb_ifree := ifree, sb_free_blocks := fdblocks\<rparr>\<rparr>))))))"

definition flush :: "'d host \<Rightarrow> ('d, unit) vproc" where
  "flush h v =
     (case v_w v of
        None \<Rightarrow> dev_flush_v h v
      | Some w \<Rightarrow>
          seq (on_w (modify (\<lambda>w. w\<lparr>vw_dirs := []\<rparr>))) (\<lambda>_.
          seq (for_each (\<lambda>(dino, st). write_dir h dino st) (vw_dirs w)) (\<lambda>_.
          (\<lambda>v. seq (on_w (\<lambda>w. rebuild_all (v_sb v) (map fst (vw_ags w)) w)) (\<lambda>writes.
          seq (for_each (\<lambda>(at, buf). dev_write h at buf) writes) (\<lambda>_.
          seq (flush_sb h) (\<lambda>_.
          seq (on_w (modify (\<lambda>w. w\<lparr>vw_new_chunks := 0\<rparr>))) (\<lambda>_.
          dev_flush_v h)))) v))) v)"

end
