(* ===== verification/WriteGuard.thy ===== *)
theory WriteGuard
  imports WriteOps
begin

text \<open>
  When a volume may not be written. The writer starts only on a filesystem whose features are
  all known and whose log is clean (or elsewhere); until then every operation only reads, so a
  refused operation leaves the volume and its device exactly as they were.
\<close>

section \<open>Refusals\<close>

text \<open>Run from \<open>s\<close>, the method returns no value and changes nothing.\<close>

definition refused :: "'s \<Rightarrow> ('s, 'a) proc \<Rightarrow> bool" where
  "refused s m \<longleftrightarrow> snd (m s) = s \<and> (\<forall>a. fst (m s) \<noteq> Ok a)"

lemma refusedI: "m s = (Err e, s) \<Longrightarrow> refused s m" "m s = (Panic, s) \<Longrightarrow> refused s m"
  by (simp_all add: refused_def)

lemma refused_seq: "refused s m \<Longrightarrow> refused s (seq m f)"
  by (cases "m s"; cases "fst (m s)") (auto simp: refused_def seq_def)

lemma refused_reading: "(\<And>a. f s = Ok a \<Longrightarrow> refused s (g a)) \<Longrightarrow> refused s (seq (reading f) g)"
  by (cases "f s") (auto simp: refused_def seq_def reading_def)

lemma refused_lift: "(\<And>a. x = Ok a \<Longrightarrow> refused s (g a)) \<Longrightarrow> refused s (seq (lift x) g)"
  by (cases x) (auto simp: refused_def)

lemma refused_raise: "refused s (raise e)" "refused s panic"
  by (simp_all add: refused_def raise_def panic_def)

lemma refused_if: "(b \<Longrightarrow> refused s m) \<Longrightarrow> (\<not> b \<Longrightarrow> refused s n) \<Longrightarrow> refused s (if b then m else n)"
  by simp

lemma refused_apply: "refused s (g s) \<Longrightarrow> refused s (\<lambda>t. g t t)"
  by (simp add: refused_def)

lemmas refused_rules = refused_reading refused_lift refused_raise refused_if

text \<open>A volume that has no writer and may not get one.\<close>

definition unwritable :: "'d volume \<Rightarrow> bool" where
  "unwritable v \<longleftrightarrow> v_w v = None \<and> (check_writable (v_sb v) \<noteq> Ok () \<or> v_log v \<noteq> Clean \<and> v_log v \<noteq> External)"

lemma writer_refused: "unwritable v \<Longrightarrow> refused v (writer h)"
  by (cases "check_writable (v_sb v)") (auto simp: unwritable_def refused_def writer_def raise_def)

lemma refused_writer: "unwritable v \<Longrightarrow> refused v (seq (writer h) f)"
  by (rule refused_seq) (rule writer_refused)

lemma create_node_refused: "unwritable v \<Longrightarrow> refused v (create_node h path mode uid gid nlink)"
  unfolding create_node_def by (auto intro!: refused_rules refused_writer split: prod.splits)

lemmas guarded = refused_writer refused_seq [OF create_node_refused]

lemma write_file_refused: "unwritable v \<Longrightarrow> refused v (write_file h path data a)"
  unfolding write_file_def replace_file_def new_file_def Let_def
  by (auto intro!: refused_rules guarded split: prod.splits option.splits)

lemma mkdir_with_refused: "unwritable v \<Longrightarrow> refused v (mkdir_with h path a)"
  unfolding mkdir_with_def by (auto intro!: guarded)

lemma symlink_refused: "unwritable v \<Longrightarrow> refused v (symlink h path target)"
  unfolding symlink_def by (auto intro!: refused_rules guarded)

lemma mknod_refused: "unwritable v \<Longrightarrow> refused v (mknod h path kind a)"
  unfolding mknod_def by (auto intro!: refused_rules guarded)

lemma link_refused: "unwritable v \<Longrightarrow> refused v (link h existing new_path)"
  unfolding link_def by (auto intro!: refused_rules guarded split: prod.splits)

lemma unlink_refused: "unwritable v \<Longrightarrow> refused v (unlink h path)"
  unfolding unlink_def by (auto intro!: refused_rules guarded split: prod.splits)

lemma rmdir_refused: "unwritable v \<Longrightarrow> refused v (rmdir h path)"
  unfolding rmdir_def by (auto intro!: refused_rules guarded split: prod.splits)

lemma chmod_refused: "unwritable v \<Longrightarrow> refused v (chmod h path p)" "unwritable v \<Longrightarrow> refused v (chown h path uid gid)"
  unfolding chmod_def chown_def by (auto intro!: refused_rules guarded)

text \<open>The operations, as one type.\<close>

datatype change =
    WriteFile "byte list" "byte list" "attrs option" | MakeDir "byte list" attrs | MakeLink "byte list" "byte list"
  | MakeNode "byte list" special attrs | AddLink "byte list" "byte list" | RemoveFile "byte list" | RemoveDir "byte list"
  | ChangeMode "byte list" nat | ChangeOwner "byte list" nat nat

definition ignore :: "('d, 'a) vproc \<Rightarrow> ('d, unit) vproc" where
  "ignore m = seq m (\<lambda>_. ret ())"

fun apply_change :: "'d host \<Rightarrow> change \<Rightarrow> ('d, unit) vproc" where
  "apply_change h (WriteFile path data a) = ignore (write_file h path data a)"
| "apply_change h (MakeDir path a) = ignore (mkdir_with h path a)"
| "apply_change h (MakeLink path target) = ignore (symlink h path target)"
| "apply_change h (MakeNode path kind a) = ignore (mknod h path kind a)"
| "apply_change h (AddLink existing new_path) = ignore (link h existing new_path)"
| "apply_change h (RemoveFile path) = unlink h path"
| "apply_change h (RemoveDir path) = rmdir h path"
| "apply_change h (ChangeMode path p) = chmod h path p"
| "apply_change h (ChangeOwner path uid gid) = chown h path uid gid"

lemma change_refused: "unwritable v \<Longrightarrow> refused v (apply_change h c)"
  by (cases c)
    (auto simp: ignore_def intro: refused_seq write_file_refused mkdir_with_refused symlink_refused mknod_refused link_refused
      unlink_refused rmdir_refused chmod_refused)

section \<open>Properties\<close>

text \<open>
  C11. A volume whose log is dirty or unreadable, or whose features the writer does not know, is
  never changed: each of nine operations that write (a file, a directory, a symbolic link, a special
  file, a link, the two removals, a mode, an owner) returns no success there and leaves the volume, its device
  and its memory exactly as they were.
\<close>

theorem unwritable_unchanged:
  assumes "v_w v = None" and "check_writable (v_sb v) \<noteq> Ok () \<or> v_log v \<noteq> Clean \<and> v_log v \<noteq> External"
  shows "snd (apply_change h c v) = v \<and> fst (apply_change h c v) \<noteq> Ok ()"
  using change_refused [of v h c] assms by (simp add: unwritable_def refused_def)

definition still_host :: "mem_device host" where
  "still_host = \<lparr>h_ops = mem_ops, h_clock = (\<lambda>_. None)\<rparr>"

theorem unwritable_unchanged_witness:
  "snd (apply_change still_host (RemoveFile [0x2f, 0x61]) (tiny_vol\<lparr>v_log := Dirty 3 1\<rparr>)) = tiny_vol\<lparr>v_log := Dirty 3 1\<rparr>"
  by (rule unwritable_unchanged [THEN conjunct1]) (simp_all add: tiny_vol_def)

end
