(* ===== verification/WriteNames.thy ===== *)
theory WriteNames
  imports WriteOps
begin

text \<open>
  The names of a directory as a finite map. Whatever form a directory has on disk, putting a
  name in (\<open>add_name\<close>) and taking one out (\<open>drop_name\<close>) update the map that a lookup
  (\<open>entry\<close>) reads, and touch neither the device nor any other directory.
\<close>

section \<open>Ordered maps as maps\<close>

lemma map_of_om_insert: "om_ok m \<Longrightarrow> map_of (om_insert k v m) = (map_of m)(k \<mapsto> v)"
proof (induction k v m rule: om_insert.induct)
  case (2 k v k' v' m)
  then have IH: "k' < k \<Longrightarrow> map_of (om_insert k v m) = (map_of m)(k \<mapsto> v)" and lt: "\<forall>p \<in> set m. k' < fst p"
    by (auto simp: om_ok_Cons)
  have none: "k = k' \<Longrightarrow> map_of m k' = None" using lt by (fastforce simp: map_of_eq_None_iff)
  show ?case using IH none by (auto simp: fun_eq_iff)
qed simp

lemma map_of_om_remove: "map_of (om_remove k m) = (map_of m)(k := None)"
  by (induction m) (auto simp: om_remove_def fun_eq_iff)

section \<open>Reading does not depend on the memory of names\<close>

text \<open>Two volumes on the same device.\<close>

definition same_disk :: "'d volume \<Rightarrow> 'd volume \<Rightarrow> bool" where
  "same_disk v v' \<longleftrightarrow> v_dev v' = v_dev v \<and> v_sb v' = v_sb v"

lemma read_blocks_cong: "same_disk v v' \<Longrightarrow> read_blocks ops v' = read_blocks ops v"
  by (simp add: same_disk_def read_blocks_def fun_eq_iff)

lemma read_inode_cong: "same_disk v v' \<Longrightarrow> read_inode ops v' ino = read_inode ops v ino"
  by (simp add: same_disk_def read_inode_def)

lemma fork_walk_cong: "same_disk v v' \<Longrightarrow> fork_walk ops v' ip stack out blocks = fork_walk ops v ip stack out blocks"
proof (induction ops v ip stack out blocks rule: fork_walk.induct)
  case (2 ops v ip fsb want stack out blocks)
  have sb: "v_sb v' = v_sb v" using "2.prems" by (simp add: same_disk_def)
  show ?case
    unfolding fork_walk.simps read_blocks_cong [OF "2.prems"] sb
    by (intro if_cong refl and_then_cong; clarsimp split: prod.splits; intro conjI impI if_cong refl and_then_cong)
       (use "2.IH" "2.prems" in auto)
qed simp

lemma fork_map_cong: "same_disk v v' \<Longrightarrow> fork_map ops v' ip attr = fork_map ops v ip attr"
  unfolding fork_map_def by (simp only: fork_walk_cong)

lemma mapped_loop_cong: "same_disk v v' \<Longrightarrow> mapped_loop ops v' lblk e xs out = mapped_loop ops v lblk e xs out"
proof (induction xs arbitrary: out)
  case (Cons x xs)
  have sb: "v_sb v' = v_sb v" using Cons.prems by (simp add: same_disk_def)
  show ?case unfolding mapped_loop.simps read_blocks_cong [OF Cons.prems] sb Cons.IH [OF Cons.prems] ..
qed simp

lemma read_mapped_cong: "same_disk v v' \<Longrightarrow> read_mapped ops v' = read_mapped ops v"
proof -
  assume s: "same_disk v v'"
  have sb: "v_sb v' = v_sb v" using s by (simp add: same_disk_def)
  show ?thesis by (intro ext) (unfold read_mapped_def mapped_loop_cong [OF s] sb, rule refl)
qed

lemma dir_loop_cong: "same_disk v v' \<Longrightarrow> dir_loop ops v' ino exts k lim lblk out next = dir_loop ops v ino exts k lim lblk out next"
proof (induction ops v ino exts k lim lblk out "next" rule: dir_loop.induct)
  case (1 ops v ino exts k lim lblk out "next")
  have sb: "v_sb v' = v_sb v" using "1.prems" by (simp add: same_disk_def)
  show ?case
    by (subst (1 2) dir_loop.simps) (unfold read_mapped_cong [OF "1.prems"] sb, intro if_cong refl and_then_cong, use "1.IH" "1.prems" in auto)
qed

lemma dir_extents_cong: "same_disk v v' \<Longrightarrow> dir_extents ops v' ino exts = dir_extents ops v ino exts"
proof -
  assume s: "same_disk v v'"
  have sb: "v_sb v' = v_sb v" using s by (simp add: same_disk_def)
  show ?thesis unfolding dir_extents_def dir_loop_cong [OF s] sb ..
qed

text \<open>The names a volume remembers for a directory.\<close>

definition held :: "'d volume \<Rightarrow> nat \<Rightarrow> dir_state option" where
  "held v dino = Option.bind (v_w v) (\<lambda>w. om_get (vw_dirs w) dino)"

lemma dir_entries_cong:
  assumes "same_disk v v'" and "held v' (i_ino ip) = held v (i_ino ip)"
  shows "dir_entries ops v' ip = dir_entries ops v ip"
proof -
  have sb: "v_sb v' = v_sb v" using assms(1) by (simp add: same_disk_def)
  have c: "Option.bind (v_w u) (\<lambda>w. cached_entries w d) = Option.bind (held u d) (\<lambda>st. Some (
       [\<lparr>re_name = [0x2e], re_ino = d, re_ftype = Directory\<rparr>, \<lparr>re_name = [0x2e, 0x2e], re_ino = ds_parent st, re_ftype = Directory\<rparr>] @
       map (\<lambda>(n, i, t). \<lparr>re_name = n, re_ino = i, re_ftype = from_ftype t\<rparr>) (ds_names st)))" for u :: "'a volume" and d
    by (cases "v_w u") (auto simp: held_def cached_entries_def map_option_case split: option.splits)
  show ?thesis
    unfolding dir_entries_def c assms(2) sb extents_def fork_map_cong [OF assms(1)] dir_extents_cong [OF assms(1), abs_def] ..
qed

lemma dir_entries_held:
  assumes "is_dir ip" and "held v (i_ino ip) = Some st"
  shows "dir_entries ops v ip = Ok ([\<lparr>re_name = [0x2e], re_ino = i_ino ip, re_ftype = Directory\<rparr>,
      \<lparr>re_name = [0x2e, 0x2e], re_ino = ds_parent st, re_ftype = Directory\<rparr>] @
      map (\<lambda>(n, i, t). \<lparr>re_name = n, re_ino = i, re_ftype = from_ftype t\<rparr>) (ds_names st))"
proof -
  from assms(2) obtain w where "v_w v = Some w" "om_get (vw_dirs w) (i_ino ip) = Some st" by (auto simp: held_def bind_eq_Some_conv)
  then show ?thesis using assms(1) by (simp add: dir_entries_def cached_entries_def)
qed

section \<open>A directory as a map\<close>

definition find_entry :: "byte list \<Rightarrow> raw_entry list \<Rightarrow> (nat \<times> file_type) option" where
  "find_entry n es = map_option (\<lambda>e. (re_ino e, re_ftype e)) (List.find (\<lambda>e. re_name e = n) es)"

abbreviation dots :: "byte list set" where
  "dots \<equiv> {[0x2e], [0x2e, 0x2e]}"

definition kinds :: "(nat \<times> byte) option \<Rightarrow> (nat \<times> file_type) option" where
  "kinds = map_option (\<lambda>(i, t). (i, from_ftype t))"

lemma find_entry_simps [simp]:
  "find_entry n [] = None"
  "find_entry n (e # es) = (if re_name e = n then Some (re_ino e, re_ftype e) else find_entry n es)"
  by (simp_all add: find_entry_def)

lemma find_entry_names:
  "find_entry n (map (\<lambda>(n, i, t). \<lparr>re_name = n, re_ino = i, re_ftype = from_ftype t\<rparr>) m) = kinds (map_of m n)"
  by (induction m) (auto simp: kinds_def)

lemma find_entry_None: "find_entry n es = None \<longleftrightarrow> n \<notin> re_name ` set es"
  by (induction es) auto

lemma dir_names_fold:
  assumes "om_ok (ds_names d)" and "distinct (map re_name es)" and "n \<notin> dots"
  defines "f \<equiv> \<lambda>e d. if re_name e = [0x2e, 0x2e] then d\<lparr>ds_parent := re_ino e\<rparr>
     else if re_name e \<noteq> [0x2e] then d\<lparr>ds_names := om_insert (re_name e) (re_ino e, ft_code (re_ftype e)) (ds_names d)\<rparr> else d"
  shows "om_ok (ds_names (fold f es d)) \<and>
    kinds (map_of (ds_names (fold f es d)) n) = (case find_entry n es of Some x \<Rightarrow> Some x | None \<Rightarrow> kinds (map_of (ds_names d) n))"
  using assms(1,2)
proof (induction es arbitrary: d)
  case (Cons e es)
  have ok: "om_ok (ds_names (f e d))" using Cons.prems(1) by (simp add: f_def om_insert_ok)
  have "kinds (map_of (ds_names (f e d)) n) = (if re_name e = n then Some (re_ino e, re_ftype e) else kinds (map_of (ds_names d) n))"
    using assms(3) Cons.prems(1) by (auto simp: f_def map_of_om_insert kinds_def)
  moreover have "re_name e = n \<Longrightarrow> find_entry n es = None" using Cons.prems(2) by (auto simp: find_entry_None)
  ultimately show ?case using Cons.IH [OF ok] Cons.prems(2) by (auto split: option.splits)
qed simp

lemma dir_names_map:
  assumes "distinct (map re_name es)" and "n \<notin> dots"
  shows "om_ok (ds_names (dir_names dino es))" "kinds (map_of (ds_names (dir_names dino es)) n) = find_entry n es"
  using dir_names_fold [of "\<lparr>ds_parent = dino, ds_names = []\<rparr>" es n] assms
  by (auto simp: dir_names_def om_ok_def kinds_def split: option.splits)

section \<open>Holding and changing a directory\<close>

definition names_ok :: "'d volume \<Rightarrow> bool" where
  "names_ok v \<longleftrightarrow> (\<forall>w. v_w v = Some w \<longrightarrow> om_ok (vw_dirs w) \<and> (\<forall>(d, st) \<in> set (vw_dirs w). om_ok (ds_names st)))"

definition can_write :: "'d volume \<Rightarrow> bool" where
  "can_write v \<longleftrightarrow> v_w v \<noteq> None \<or> check_writable (v_sb v) = Ok () \<and> (v_log v = Clean \<or> v_log v = External)"

lemma writer_ok:
  assumes "can_write v" and "names_ok v"
  shows "\<exists>w. writer h v = (Ok (), v\<lparr>v_w := Some w\<rparr>) \<and> names_ok (v\<lparr>v_w := Some w\<rparr>) \<and>
    (\<forall>d. held (v\<lparr>v_w := Some w\<rparr>) d = held v d) \<and> (v_w v \<noteq> None \<longrightarrow> v_w v = Some w)"
proof (cases "v_w v")
  case None
  then show ?thesis
    using assms(1) by (intro exI [of _ "writer_new (h_clock h v)"])
      (auto simp: can_write_def writer_def modify_def names_ok_def held_def writer_new_def om_ok_def om_get_def Let_def)
next
  case (Some w)
  then have eq: "v\<lparr>v_w := Some w\<rparr> = v" by simp
  show ?thesis by (rule exI [of _ w]) (unfold eq, use assms(2) Some in \<open>simp add: writer_def\<close>)
qed

lemma held_insert:
  assumes "om_ok (vw_dirs w)"
  shows "held (v\<lparr>v_w := Some (w\<lparr>vw_dirs := om_insert d st (vw_dirs w)\<rparr>)\<rparr>) x = (if x = d then Some st else held (v\<lparr>v_w := Some w\<rparr>) x)"
  using map_of_om_insert [OF assms, of d st] by (simp add: held_def om_get_def)

lemma names_ok_insert:
  assumes "names_ok (v\<lparr>v_w := Some w\<rparr>)" and "om_ok (ds_names st)"
  shows "names_ok (v\<lparr>v_w := Some (w\<lparr>vw_dirs := om_insert d st (vw_dirs w)\<rparr>)\<rparr>)"
  using assms by (auto simp: names_ok_def om_insert_ok om_insert_set)

lemma hold_dir_ok:
  assumes "can_write v" and "names_ok v" and "read_inode (h_ops h) v dino = Ok ip" and "is_dir ip"
    and "dir_entries (h_ops h) v ip = Ok es" and "distinct (map re_name es)"
  shows "\<exists>w st. hold_dir h dino v = (Ok (), v\<lparr>v_w := Some w\<rparr>) \<and> names_ok (v\<lparr>v_w := Some w\<rparr>) \<and>
    held (v\<lparr>v_w := Some w\<rparr>) dino = Some st \<and> (\<forall>d. d \<noteq> dino \<longrightarrow> held (v\<lparr>v_w := Some w\<rparr>) d = held v d) \<and>
    (\<forall>n. n \<notin> dots \<longrightarrow> kinds (map_of (ds_names st) n) = find_entry n es)"
proof -
  obtain w where w: "writer h v = (Ok (), v\<lparr>v_w := Some w\<rparr>)" "names_ok (v\<lparr>v_w := Some w\<rparr>)" "\<forall>d. held (v\<lparr>v_w := Some w\<rparr>) d = held v d"
    using writer_ok [OF assms(1,2)] by blast
  have ino: "i_ino ip = dino" by (rule read_inode_ino(1) [OF assms(3)])
  let ?v = "v\<lparr>v_w := Some w\<rparr>"
  have sd: "same_disk v ?v" by (simp add: same_disk_def)
  show ?thesis
  proof (cases "held v dino")
    case None
    then have none: "om_get (vw_dirs w) dino = None" using w(3) by (auto simp: held_def)
    let ?st = "dir_names dino es" and ?w = "w\<lparr>vw_dirs := om_insert dino (dir_names dino es) (vw_dirs w)\<rparr>"
    have "dir_entries (h_ops h) ?v ip = Ok es" using dir_entries_cong [OF sd, of ip] w(3) assms(5) by simp
    then have "hold_dir h dino v = (Ok (), v\<lparr>v_w := Some ?w\<rparr>)"
      using w(1) none assms(3) read_inode_cong [OF sd] by (simp add: hold_dir_def seq_def on_w_def reading_def modify_def)
    moreover have ok: "om_ok (vw_dirs w)" using w(2) by (simp add: names_ok_def)
    moreover have "om_ok (ds_names ?st)" by (rule dir_names_map(1) [OF assms(6), of "[]"]) simp
    ultimately show ?thesis
      using names_ok_insert [OF w(2)] w(3) dir_names_map(2) [OF assms(6)]
      by (intro exI [of _ ?w] exI [of _ ?st]) (simp add: held_insert [OF ok])
  next
    case (Some st)
    then have "om_get (vw_dirs w) dino = Some st" using w(3) by (auto simp: held_def)
    then have "hold_dir h dino v = (Ok (), ?v)" using w(1) by (simp add: hold_dir_def seq_def on_w_def ret_def)
    moreover have "kinds (map_of (ds_names st) n) = find_entry n es" if "n \<notin> dots" for n
    proof -
      let ?dot = "\<lparr>re_name = [0x2e], re_ino = dino, re_ftype = Directory\<rparr>" and ?up = "\<lparr>re_name = [0x2e, 0x2e], re_ino = ds_parent st, re_ftype = Directory\<rparr>"
      have "held v (i_ino ip) = Some st" using Some ino by simp
      from dir_entries_held [OF assms(4) this, of "h_ops h"]
      have "es = ?dot # ?up # map (\<lambda>(n, i, t). \<lparr>re_name = n, re_ino = i, re_ftype = from_ftype t\<rparr>) (ds_names st)"
        using assms(5) ino by simp
      then have "find_entry n es = find_entry n (map (\<lambda>(n, i, t). \<lparr>re_name = n, re_ino = i, re_ftype = from_ftype t\<rparr>) (ds_names st))"
        using that by auto
      then show ?thesis by (simp only: find_entry_names)
    qed
    ultimately show ?thesis using w(2,3) Some by (intro exI [of _ w] exI [of _ st]) simp
  qed
qed

lemma on_dir_ok:
  assumes "can_write v" and "names_ok v" and "read_inode (h_ops h) v dino = Ok ip" and "is_dir ip"
    and "dir_entries (h_ops h) v ip = Ok es" and "distinct (map re_name es)"
    and "\<And>st. om_ok (ds_names st) \<Longrightarrow> om_ok (ds_names (f st))"
  shows "\<exists>w st. on_dir h dino f v = (Ok (), v\<lparr>v_w := Some w\<rparr>) \<and> names_ok (v\<lparr>v_w := Some w\<rparr>) \<and> om_ok (ds_names st) \<and>
    held (v\<lparr>v_w := Some w\<rparr>) dino = Some (f st) \<and> (\<forall>d. d \<noteq> dino \<longrightarrow> held (v\<lparr>v_w := Some w\<rparr>) d = held v d) \<and>
    (\<forall>n. n \<notin> dots \<longrightarrow> kinds (map_of (ds_names st) n) = find_entry n es)"
proof -
  obtain w st where w: "hold_dir h dino v = (Ok (), v\<lparr>v_w := Some w\<rparr>)" "names_ok (v\<lparr>v_w := Some w\<rparr>)" "held (v\<lparr>v_w := Some w\<rparr>) dino = Some st"
    "\<forall>d. d \<noteq> dino \<longrightarrow> held (v\<lparr>v_w := Some w\<rparr>) d = held v d" "\<forall>n. n \<notin> dots \<longrightarrow> kinds (map_of (ds_names st) n) = find_entry n es"
    using hold_dir_ok [OF assms(1-6)] by blast
  have get: "om_get (vw_dirs w) dino = Some st" using w(3) by (simp add: held_def)
  have ok: "om_ok (vw_dirs w)" using w(2) by (simp add: names_ok_def)
  have "om_ok (ds_names st)" using w(2) get by (auto simp: names_ok_def om_get_def dest: map_of_SomeD)
  then show ?thesis
    using w(1,4,5) get names_ok_insert [OF w(2) assms(7)]
    by (intro exI [of _ "w\<lparr>vw_dirs := om_insert dino (f st) (vw_dirs w)\<rparr>"] exI [of _ st])
      (simp add: on_dir_def seq_eq on_w_def held_insert [OF ok])
qed

lemma entry_of_eq:
  assumes "read_inode (h_ops h) v dino = Ok ip"
  shows "entry_of h dino n v = map_ok (find_entry n) (dir_entries (h_ops h) v ip)"
  using assms by (simp add: entry_of_def map_ok_def find_entry_def)

lemma entry_of_other:
  assumes "held v' d = held v d" and "same_disk v v'"
  shows "entry_of h d n v' = entry_of h d n v"
proof (cases "read_inode (h_ops h) v d")
  case (Ok ip)
  have "i_ino ip = d" by (rule read_inode_ino(1) [OF Ok])
  then have "dir_entries (h_ops h) v' ip = dir_entries (h_ops h) v ip" using dir_entries_cong [OF assms(2)] assms(1) by simp
  then show ?thesis using Ok by (simp add: entry_of_def read_inode_cong [OF assms(2)])
qed (simp_all add: entry_of_def read_inode_cong [OF assms(2)])

lemma entry_of_held:
  assumes "read_inode (h_ops h) v dino = Ok ip" and "is_dir ip" and "held v dino = Some st" and "n \<notin> dots"
  shows "entry_of h dino n v = Ok (kinds (map_of (ds_names st) n))"
proof -
  have "held v (i_ino ip) = Some st" using read_inode_ino(1) [OF assms(1)] assms(3) by simp
  note e = dir_entries_held [OF assms(2) this, of "h_ops h"]
  have "[0x2e] \<noteq> n" "[0x2e, 0x2e] \<noteq> n" using assms(4) by auto
  then show ?thesis unfolding entry_of_eq [OF assms(1)] e by (simp add: find_entry_names)
qed

section \<open>Properties\<close>

text \<open>
  C10. A directory is a finite map from names to inodes, whatever its form on disk and whether
  or not it is in memory yet: putting a name in makes a lookup of that name give the new inode
  and type, taking a name out makes it give nothing, every other name of the directory and every
  name of every other directory stays as it was, and the device is not touched.
\<close>

theorem names_refine_map:
  assumes "can_write v" and "names_ok v" and "read_inode (h_ops h) v dino = Ok ip" and "is_dir ip"
    and "dir_entries (h_ops h) v ip = Ok es" and "distinct (map re_name es)" and "name \<notin> dots"
  shows "(\<exists>v'. add_name h dino name ino kind v = (Ok (), v') \<and> v_dev v' = v_dev v \<and> names_ok v' \<and>
      (\<forall>d n. n \<notin> dots \<longrightarrow> entry_of h d n v' = (if d = dino \<and> n = name then Ok (Some (ino, kind)) else entry_of h d n v))) \<and>
    (\<exists>v'. drop_name h dino name v = (Ok (), v') \<and> v_dev v' = v_dev v \<and> names_ok v' \<and>
      (\<forall>d n. n \<notin> dots \<longrightarrow> entry_of h d n v' = (if d = dino \<and> n = name then Ok None else entry_of h d n v)))"
proof -
  have step: "\<exists>v'. on_dir h dino f v = (Ok (), v') \<and> v_dev v' = v_dev v \<and> names_ok v' \<and>
      (\<forall>d n. n \<notin> dots \<longrightarrow> entry_of h d n v' = (if d = dino \<and> n = name then Ok (kinds x) else entry_of h d n v))"
    if f: "\<And>st. om_ok (ds_names st) \<Longrightarrow> om_ok (ds_names (f st)) \<and> map_of (ds_names (f st)) = (map_of (ds_names st))(name := x)" for f x
  proof -
    obtain w st where w: "on_dir h dino f v = (Ok (), v\<lparr>v_w := Some w\<rparr>)" "names_ok (v\<lparr>v_w := Some w\<rparr>)" "om_ok (ds_names st)"
      "held (v\<lparr>v_w := Some w\<rparr>) dino = Some (f st)" "\<forall>d. d \<noteq> dino \<longrightarrow> held (v\<lparr>v_w := Some w\<rparr>) d = held v d"
      "\<forall>n. n \<notin> dots \<longrightarrow> kinds (map_of (ds_names st) n) = find_entry n es"
      using on_dir_ok [OF assms(1-6), of f] f by blast
    let ?v = "v\<lparr>v_w := Some w\<rparr>"
    have sd: "same_disk v ?v" by (simp add: same_disk_def)
    have ip: "read_inode (h_ops h) ?v dino = Ok ip" using read_inode_cong [OF sd] assms(3) by simp
    have "entry_of h d n ?v = (if d = dino \<and> n = name then Ok (kinds x) else entry_of h d n v)" if n: "n \<notin> dots" for d n
    proof (cases "d = dino")
      case True
      have "entry_of h dino n ?v = Ok (kinds (map_of (ds_names (f st)) n))" by (rule entry_of_held [OF ip assms(4) w(4) n])
      moreover have "entry_of h dino n v = Ok (kinds (map_of (ds_names st) n))"
        using w(6) n assms(5) by (simp add: entry_of_eq [OF assms(3)])
      ultimately show ?thesis using f [OF w(3)] True by simp
    next
      case False
      then show ?thesis using entry_of_other [OF _ sd] w(5) by simp
    qed
    then show ?thesis using w(1,2) by (intro exI [of _ ?v]) simp
  qed
  have k: "kinds (Some (ino, ft_code kind)) = Some (ino, kind)" "kinds None = None" by (simp_all add: kinds_def)
  have "\<exists>v'. add_name h dino name ino kind v = (Ok (), v') \<and> v_dev v' = v_dev v \<and> names_ok v' \<and>
      (\<forall>d n. n \<notin> dots \<longrightarrow> entry_of h d n v' = (if d = dino \<and> n = name then Ok (Some (ino, kind)) else entry_of h d n v))"
    unfolding add_name_def
    by (rule step [of "\<lambda>d. d\<lparr>ds_names := om_insert name (ino, ft_code kind) (ds_names d)\<rparr>" "Some (ino, ft_code kind)", unfolded k(1)])
       (simp add: om_insert_ok map_of_om_insert)
  moreover have "\<exists>v'. drop_name h dino name v = (Ok (), v') \<and> v_dev v' = v_dev v \<and> names_ok v' \<and>
      (\<forall>d n. n \<notin> dots \<longrightarrow> entry_of h d n v' = (if d = dino \<and> n = name then Ok None else entry_of h d n v))"
    unfolding drop_name_def
    by (rule step [of "\<lambda>d. d\<lparr>ds_names := om_remove name (ds_names d)\<rparr>" None, unfolded k(2)])
       (simp add: om.remove_ok map_of_om_remove)
  ultimately show ?thesis ..
qed

theorem names_refine_map_witness:
  "\<exists>v'. add_name \<lparr>h_ops = mem_ops, h_clock = (\<lambda>_. None)\<rparr> 1 [0x61] 2 file_type.File (tiny_vol\<lparr>v_w := Some (writer_new None)\<rparr>) = (Ok (), v') \<and>
     entry_of \<lparr>h_ops = mem_ops, h_clock = (\<lambda>_. None)\<rparr> 1 [0x61] v' = Ok (Some (2, file_type.File))"
proof -
  let ?h = "\<lparr>h_ops = mem_ops, h_clock = (\<lambda>_. None)\<rparr> :: mem_device host" and ?v = "tiny_vol\<lparr>v_w := Some (writer_new None)\<rparr>"
  obtain ip where ip: "read_inode mem_ops tiny_vol 1 = Ok ip" "is_dir ip" "i_format ip = Local" "i_size ip = 6"
    "i_data_fork ip = [0, 0, 0, 0, 0, 1] @ replicate 150 0" "i_ino ip = 1" using tiny_root by blast
  have sf: "parse_shortform (v_sb tiny_vol) (i_data_fork ip) 6 = Ok (1, [])"
    by (simp add: parse_shortform_def ip seg_def ino_at_def be32_def get_def from_be_bytes_def index_def)
  have rd: "read_inode (h_ops ?h) ?v 1 = Ok ip" using read_inode_cong [of tiny_vol ?v mem_ops 1] ip(1) by (simp add: same_disk_def)
  have es: "dir_entries (h_ops ?h) ?v ip = Ok [\<lparr>re_name = [0x2e], re_ino = 1, re_ftype = Directory\<rparr>, \<lparr>re_name = [0x2e, 0x2e], re_ino = 1, re_ftype = Directory\<rparr>]"
    using ip sf by (simp add: dir_entries_def cached_entries_def writer_new_def om_get_def)
  have ok: "can_write ?v" "names_ok ?v" by (simp_all add: can_write_def names_ok_def writer_new_def om_ok_def)
  show ?thesis using names_refine_map [OF ok rd ip(2) es, of "[0x61]" 2 file_type.File] by fastforce
qed

end
