(* ===== verification/WriteAlloc.thy ===== *)
theory WriteAlloc
  imports WriteNames
begin

text \<open>
  Blocks for a file, from all groups of a volume. The groups are seen as the writer sees them: as
  it holds them in memory, or as \<open>load\<close> reads them. \<open>alloc_blocks\<close> returns exactly as many free blocks as it
  is asked for, or, when the groups together have too few to spare, gives back all it has taken.
\<close>

section \<open>One group\<close>

text \<open>What taking \<open>runs\<close> towards \<open>n\<close> blocks leaves of a group; \<open>left\<close> of them are still wanted.\<close>

definition drawn :: "nat \<Rightarrow> nat \<Rightarrow> (nat \<times> nat) list \<Rightarrow> ag \<Rightarrow> ag \<Rightarrow> bool" where
  "drawn n left runs ag ag' \<longleftrightarrow> ag_inv ag' \<and> same_but_free ag ag' \<and> distinct (expand runs) \<and> set (expand runs) \<subseteq> free_blocks ag \<and>
     free_blocks ag' = free_blocks ag - set (expand runs) \<and> length (expand runs) + left = n \<and> (\<forall>(s, l) \<in> set runs. 0 < l) \<and>
     spare ag' + length (expand runs) = spare ag \<and> (left = 0 \<or> spare ag' = 0)"

lemma spare_taken: "ag_inv ag \<Longrightarrow> taken s l ag ag' \<Longrightarrow> l \<le> spare ag \<Longrightarrow> spare ag' + l = spare ag"
  using taken_total [of ag s l ag'] by (simp add: spare_def taken_def same_but_freeD(2) [of ag ag'])

lemma drawn_Cons:
  assumes "ag_inv ag" and "taken s l ag ag1" and "l \<le> spare ag" and "l \<le> n" and "drawn (n - l) left runs ag1 ag'"
  shows "drawn n left ((s, l) # runs) ag ag'"
proof -
  have t: "0 < l" "{s..<s + l} \<subseteq> free_blocks ag" "free_blocks ag1 = free_blocks ag - {s..<s + l}" "same_but_free ag ag1"
    using assms(2) by (simp_all add: taken_def)
  show ?thesis
    using assms(4,5) t spare_taken [OF assms(1-3)] same_but_free_trans [OF t(4)] by (auto simp: drawn_def)
qed

lemma alloc_fill_ok:
  assumes "ag_inv ag" and "n \<le> fuel"
  shows "\<exists>left runs ag'. alloc_fill sb agno hint fuel n out ag =
      (Ok (left, out @ map (\<lambda>(s, l). (agb_to_fsb sb agno s, l)) runs), ag') \<and> drawn n left runs ag ag'"
  using assms
proof (induction fuel arbitrary: n out ag)
  case 0
  then show ?case by (intro exI [of _ 0] exI [of _ "[]"] exI [of _ ag]) (simp add: drawn_def ret_def same_but_free_def)
next
  case (Suc fuel m)
  show ?case
  proof (cases m)
    case 0
    then show ?thesis using Suc.prems by (intro exI [of _ 0] exI [of _ "[]"] exI [of _ ag]) (simp add: drawn_def ret_def same_but_free_def)
  next
    case m: (Suc n)
    obtain r ag1 where r: "alloc (min (Suc n) MAX_EXTENT) hint ag = (Ok r, ag1)"
      "case r of None \<Rightarrow> ag1 = ag \<and> (min (Suc n) MAX_EXTENT = 0 \<or> spare ag = 0)
       | Some (s, l) \<Rightarrow> taken s l ag ag1 \<and> l \<le> min (Suc n) MAX_EXTENT \<and> l \<le> spare ag \<and> l \<le> MAX_EXTENT"
      using alloc_ok [OF Suc.prems(1)] by blast
    show ?thesis
    proof (cases r)
      case None
      then show ?thesis
        using r Suc.prems(1) by (intro exI [of _ "Suc n"] exI [of _ "[]"] exI [of _ ag]) (simp add: m drawn_def seq_eq ret_def same_but_free_def)
    next
      case (Some p)
      then obtain s l where p: "r = Some (s, l)" by (cases p) simp
      have t: "taken s l ag ag1" "l \<le> Suc n" "l \<le> spare ag" using r(2) by (auto simp: p min_def split: if_splits)
      have "ag_inv ag1" "0 < l" using t(1) by (simp_all add: taken_def)
      moreover have "Suc n - l \<le> fuel" using \<open>0 < l\<close> Suc.prems(2) m by linarith
      ultimately obtain left runs ag' where IH: "alloc_fill sb agno hint fuel (Suc n - l) (out @ [(agb_to_fsb sb agno s, l)]) ag1 =
          (Ok (left, (out @ [(agb_to_fsb sb agno s, l)]) @ map (\<lambda>(s, l). (agb_to_fsb sb agno s, l)) runs), ag')" "drawn (Suc n - l) left runs ag1 ag'"
        using Suc.IH [of ag1 "Suc n - l" "out @ [(agb_to_fsb sb agno s, l)]"] by auto
      have "alloc_fill sb agno hint (Suc fuel) (Suc n) out ag =
          (Ok (left, out @ map (\<lambda>(s, l). (agb_to_fsb sb agno s, l)) ((s, l) # runs)), ag')"
        using r(1) IH(1) t(2) by (simp add: m p seq_eq sub_w_def)
      then show ?thesis using drawn_Cons [OF Suc.prems(1) t(1,3,2) IH(2)] m by blast
    qed
  qed
qed

section \<open>The groups of a volume\<close>

text \<open>A group as the writer sees it.\<close>

definition seen_group :: "'d host \<Rightarrow> 'd volume \<Rightarrow> nat \<Rightarrow> ag res" where
  "seen_group h v g =
     (case Option.bind (v_w v) (\<lambda>w. om_get (vw_ags w) g) of
        Some ag \<Rightarrow> Ok ag
      | None \<Rightarrow> load (h_ops h) (v_dev v) (v_sb v) g)"

definition in_memory :: "'d volume \<Rightarrow> nat \<Rightarrow> bool" where
  "in_memory v g \<longleftrightarrow> (\<exists>w. v_w v = Some w \<and> om_get (vw_ags w) g \<noteq> None)"

text \<open>A volume that may be written and whose groups can all be read and are well formed.\<close>

definition group_good :: "'d host \<Rightarrow> 'd volume \<Rightarrow> nat \<Rightarrow> bool" where
  "group_good h v g \<longleftrightarrow> (\<exists>ag. seen_group h v g = Ok ag \<and> ag_inv ag \<and> ag_len (v_sb v) g = Ok (ag_length ag))"

definition good :: "'d host \<Rightarrow> 'd volume \<Rightarrow> bool" where
  "good h v \<longleftrightarrow> wf_sb (v_sb v) \<and> can_write v \<and> (\<forall>w. v_w v = Some w \<longrightarrow> om_ok (vw_ags w)) \<and>
     (\<forall>g < sb_ag_count (v_sb v). group_good h v g)"

text \<open>The volume \<open>v'\<close> is \<open>v\<close> with the group \<open>g\<close> changed to \<open>ag\<close>, in memory.\<close>

definition only_writer :: "'d volume \<Rightarrow> 'd volume \<Rightarrow> bool" where
  "only_writer v v' \<longleftrightarrow> v_dev v' = v_dev v \<and> v_sb v' = v_sb v \<and> v_log v' = v_log v \<and> v_time v' = v_time v"

definition regrouped :: "'d host \<Rightarrow> 'd volume \<Rightarrow> nat \<Rightarrow> ag \<Rightarrow> 'd volume \<Rightarrow> bool" where
  "regrouped h v g ag v' \<longleftrightarrow> only_writer v v' \<and> (\<forall>x. seen_group h v' x = (if x = g then Ok ag else seen_group h v x)) \<and>
     in_memory v' g \<and> (\<forall>x. in_memory v x \<longrightarrow> in_memory v' x) \<and> (\<forall>w. v_w v' = Some w \<longrightarrow> om_ok (vw_ags w))"

lemma seen_group_memory:
  "seen_group h (v\<lparr>v_w := Some w\<rparr>) x = (case map_of (vw_ags w) x of Some ag \<Rightarrow> Ok ag | None \<Rightarrow> load (h_ops h) (v_dev v) (v_sb v) x)"
  by (cases "map_of (vw_ags w) x") (simp_all add: seen_group_def om_get_def)

lemma writer_groups:
  assumes "can_write v" and "\<forall>w. v_w v = Some w \<longrightarrow> om_ok (vw_ags w)"
  shows "\<exists>w. writer h v = (Ok (), v\<lparr>v_w := Some w\<rparr>) \<and> om_ok (vw_ags w) \<and> (\<forall>x. seen_group h (v\<lparr>v_w := Some w\<rparr>) x = seen_group h v x) \<and>
    (\<forall>x. in_memory v x \<longrightarrow> in_memory (v\<lparr>v_w := Some w\<rparr>) x)"
proof (cases "v_w v")
  case None
  then show ?thesis
    using assms(1) by (intro exI [of _ "writer_new (h_clock h v)"])
      (auto simp: can_write_def writer_def modify_def writer_new_def om_ok_def om_get_def Let_def seen_group_def in_memory_def)
next
  case (Some w)
  then have eq: "v\<lparr>v_w := Some w\<rparr> = v" by simp
  show ?thesis unfolding fun_eq_iff by (rule exI [of _ w]) (unfold eq, use Some assms(2) in \<open>simp add: writer_def\<close>)
qed

lemma load_ag_group:
  assumes "can_write v" and "\<forall>w. v_w v = Some w \<longrightarrow> om_ok (vw_ags w)" and "seen_group h v g = Ok ag"
  shows "\<exists>v'. load_ag h g v = (Ok (), v') \<and> regrouped h v g ag v'"
proof -
  obtain w where w: "writer h v = (Ok (), v\<lparr>v_w := Some w\<rparr>)" "om_ok (vw_ags w)" "\<forall>x. seen_group h (v\<lparr>v_w := Some w\<rparr>) x = seen_group h v x"
    "\<forall>x. in_memory v x \<longrightarrow> in_memory (v\<lparr>v_w := Some w\<rparr>) x"
    using writer_groups [OF assms(1,2)] by blast
  let ?v = "v\<lparr>v_w := Some w\<rparr>"
  show ?thesis
  proof (cases "om_get (vw_ags w) g")
    case None
    have "seen_group h ?v g = Ok ag" using w(3) assms(3) by simp
    then have l: "load (h_ops h) (v_dev v) (v_sb v) g = Ok ag" using None by (simp add: seen_group_def)
    let ?w = "w\<lparr>vw_ags := om_insert g ag (vw_ags w)\<rparr>"
    have "load_ag h g v = (Ok (), v\<lparr>v_w := Some ?w\<rparr>)"
      using w(1) None l by (simp add: load_ag_def seq_def on_w_def reading_def modify_def)
    moreover have "regrouped h v g ag (v\<lparr>v_w := Some ?w\<rparr>)"
      using w(2,4) w(3) [rule_format, symmetric] map_of_om_insert [OF w(2), of g ag] om_insert_ok [OF w(2)]
      by (auto simp: regrouped_def only_writer_def seen_group_memory in_memory_def om_get_def)
    ultimately show ?thesis by blast
  next
    case (Some a)
    have "seen_group h ?v g = Ok ag" using w(3) assms(3) by simp
    then have "a = ag" using Some by (simp add: seen_group_def)
    have "load_ag h g v = (Ok (), ?v)" using w(1) Some by (simp add: load_ag_def seq_def on_w_def ret_def)
    moreover have "regrouped h v g ag ?v"
      using w(2-4) assms(3) Some by (auto simp: regrouped_def only_writer_def in_memory_def)
    ultimately show ?thesis by blast
  qed
qed

lemma on_ag_group:
  assumes "in_memory v g" and "\<forall>w. v_w v = Some w \<longrightarrow> om_ok (vw_ags w)" and "seen_group h v g = Ok ag" and "m ag = (r, ag')"
  shows "\<exists>v'. on_ag g m v = (r, v') \<and> regrouped h v g ag' v'"
proof -
  obtain w where w: "v_w v = Some w" "om_get (vw_ags w) g = Some ag" "om_ok (vw_ags w)"
    using assms(1-3) by (auto simp: in_memory_def seen_group_def)
  have eq: "seen_group h v x = (case map_of (vw_ags w) x of Some ag \<Rightarrow> Ok ag | None \<Rightarrow> load (h_ops h) (v_dev v) (v_sb v) x)" for x
    using w(1) by (simp add: seen_group_def om_get_def)
  let ?w = "w\<lparr>vw_ags := om_insert g ag' (vw_ags w)\<rparr>"
  have "on_ag g m v = (r, v\<lparr>v_w := Some ?w\<rparr>)" using w(1,2) assms(4) by (simp add: on_ag_def on_w_def)
  moreover have "regrouped h v g ag' (v\<lparr>v_w := Some ?w\<rparr>)"
    using w map_of_om_insert [OF w(3), of g ag'] om_insert_ok [OF w(3)]
    by (auto simp: regrouped_def only_writer_def seen_group_memory eq in_memory_def om_get_def)
  ultimately show ?thesis by blast
qed

lemma regrouped_trans: "regrouped h v g ag u \<Longrightarrow> regrouped h u g ag' v' \<Longrightarrow> regrouped h v g ag' v'"
  by (auto simp: regrouped_def only_writer_def)

text \<open>Loading a group and working on it.\<close>

lemma with_group:
  assumes "can_write v" and "\<forall>w. v_w v = Some w \<longrightarrow> om_ok (vw_ags w)" and "seen_group h v g = Ok ag" and "m ag = (r, ag')"
  shows "\<exists>v'. seq (load_ag h g) (\<lambda>_. on_ag g m) v = (r, v') \<and> regrouped h v g ag' v'"
proof -
  obtain u where u: "load_ag h g v = (Ok (), u)" "regrouped h v g ag u" using load_ag_group [OF assms(1-3)] by blast
  then obtain v' where v': "on_ag g m u = (r, v')" "regrouped h u g ag' v'"
    using on_ag_group [of u g h ag m r ag'] assms(4) by (auto simp: regrouped_def)
  show ?thesis using v' regrouped_trans [OF u(2) v'(2)] by (simp add: seq_eq(1) [where m = "load_ag h g", OF u(1)])
qed

lemma regrouped_good:
  assumes "good h v" and "regrouped h v g ag v'" and "ag_inv ag" and "ag_len (v_sb v) g = Ok (ag_length ag)"
  shows "good h v'" "v_sb v' = v_sb v" "v_dev v' = v_dev v"
proof -
  have v': "v_sb v' = v_sb v" "v_dev v' = v_dev v" "v_log v' = v_log v"
    using assms(2) by (simp_all add: regrouped_def only_writer_def)
  have "v_w v' \<noteq> None" using assms(2) by (auto simp: regrouped_def in_memory_def)
  then show "good h v'"
    using assms v' by (auto simp: good_def can_write_def group_good_def regrouped_def)
  show "v_sb v' = v_sb v" "v_dev v' = v_dev v" by (rule v'(1), rule v'(2))
qed

section \<open>Free blocks of a volume\<close>

definition group_free :: "'d host \<Rightarrow> 'd volume \<Rightarrow> nat \<Rightarrow> nat set" where
  "group_free h v g = (case seen_group h v g of Ok ag \<Rightarrow> free_blocks ag | _ \<Rightarrow> {})"

definition group_spare :: "'d host \<Rightarrow> 'd volume \<Rightarrow> nat \<Rightarrow> nat" where
  "group_spare h v g = (case seen_group h v g of Ok ag \<Rightarrow> spare ag | _ \<Rightarrow> 0)"

text \<open>By their numbers in the filesystem, and the count of those beyond every group's reserve.\<close>

definition vol_free :: "'d host \<Rightarrow> 'd volume \<Rightarrow> nat set" where
  "vol_free h v = (\<Union>g < sb_ag_count (v_sb v). agb_to_fsb (v_sb v) g ` group_free h v g)"

definition vol_spare :: "'d host \<Rightarrow> 'd volume \<Rightarrow> nat" where
  "vol_spare h v = (\<Sum>g < sb_ag_count (v_sb v). group_spare h v g)"

lemma ag_len_le: "ag_len sb g = Ok n \<Longrightarrow> n \<le> sb_ag_blocks sb"
  by (auto simp: ag_len_def res_simps)

lemma fsb_add:
  assumes "wf_sb sb" and "s + i < sb_ag_blocks sb"
  shows "agb_to_fsb sb g s + i = agb_to_fsb sb g (s + i)"
  using agb_to_fsb_parts(1) [OF assms(1)] assms(2) by simp

lemma fsb_inj:
  assumes "wf_sb sb" and "b < sb_ag_blocks sb" and "b' < sb_ag_blocks sb" and "agb_to_fsb sb g b = agb_to_fsb sb g' b'"
  shows "g = g' \<and> b = b'"
  using agb_to_fsb_parts(2,3) [OF assms(1,2), of g] agb_to_fsb_parts(2,3) [OF assms(1,3), of g'] assms(4) by simp

lemma expand_fsb:
  assumes "wf_sb sb" and "\<forall>(s, l) \<in> set runs. s + l \<le> sb_ag_blocks sb"
  shows "expand (map (\<lambda>(s, l). (agb_to_fsb sb g s, l)) runs) = map (agb_to_fsb sb g) (expand runs)"
  using assms(2)
proof (induction runs)
  case (Cons r runs)
  obtain s l where r: "r = (s, l)" by (cases r)
  have "[agb_to_fsb sb g s..<agb_to_fsb sb g s + l] = map (agb_to_fsb sb g) [s..<s + l]"
  proof (rule nth_equalityI)
    fix i assume "i < length [agb_to_fsb sb g s..<agb_to_fsb sb g s + l]"
    then have i: "i < l" by simp
    then have "agb_to_fsb sb g s + i = agb_to_fsb sb g (s + i)" using Cons.prems by (intro fsb_add [OF assms(1)]) (simp add: r)
    then show "[agb_to_fsb sb g s..<agb_to_fsb sb g s + l] ! i = map (agb_to_fsb sb g) [s..<s + l] ! i" using i by simp
  qed simp
  then show ?case using Cons by (simp add: r)
qed simp

lemma good_group:
  assumes "good h v" and "g < sb_ag_count (v_sb v)"
  obtains ag where "seen_group h v g = Ok ag" and "ag_inv ag" and "ag_len (v_sb v) g = Ok (ag_length ag)" and "ag_length ag \<le> sb_ag_blocks (v_sb v)"
  using assms ag_len_le by (auto simp: good_def group_good_def)

lemma free_in_group: "ag_inv ag \<Longrightarrow> b \<in> free_blocks ag \<Longrightarrow> b < ag_length ag"
  by (force simp: ag_inv_def fs_ok_def free_blocks_def cover_def)

lemma group_free_less:
  assumes "good h v" and "x < sb_ag_count (v_sb v)" and "b \<in> group_free h v x"
  shows "b < sb_ag_blocks (v_sb v)"
proof -
  obtain y where "seen_group h v x = Ok y" "ag_inv y" "ag_length y \<le> sb_ag_blocks (v_sb v)" using good_group [OF assms(1,2)] by metis
  then show ?thesis using assms(3) free_in_group [of y b] by (simp add: group_free_def)
qed

lemma vol_free_split:
  assumes "g < sb_ag_count (v_sb v)" and "seen_group h v g = Ok ag"
  shows "vol_free h v = agb_to_fsb (v_sb v) g ` free_blocks ag \<union>
    (\<Union>x \<in> {..<sb_ag_count (v_sb v)} - {g}. agb_to_fsb (v_sb v) x ` group_free h v x)"
proof -
  have "insert g ({..<sb_ag_count (v_sb v)} - {g}) = {..<sb_ag_count (v_sb v)}" using assms(1) by auto
  then have "vol_free h v = (\<Union>x \<in> insert g ({..<sb_ag_count (v_sb v)} - {g}). agb_to_fsb (v_sb v) x ` group_free h v x)"
    by (simp only: vol_free_def)
  moreover have "group_free h v g = free_blocks ag" using assms(2) by (simp add: group_free_def)
  ultimately show ?thesis by (simp only: UN_insert)
qed

lemma vol_regrouped:
  assumes "good h v" and "g < sb_ag_count (v_sb v)" and "seen_group h v g = Ok ag" and "regrouped h v g ag' v'"
    and "ag_inv ag'" and "ag_length ag' = ag_length ag"
  shows "good h v'"
    and "E \<subseteq> free_blocks ag \<Longrightarrow> free_blocks ag' = free_blocks ag - E \<Longrightarrow> vol_free h v' = vol_free h v - agb_to_fsb (v_sb v) g ` E"
    and "free_blocks ag' = free_blocks ag \<union> E \<Longrightarrow> vol_free h v' = vol_free h v \<union> agb_to_fsb (v_sb v) g ` E"
    and "vol_spare h v' + spare ag = vol_spare h v + spare ag'"
proof -
  let ?c = "sb_ag_count (v_sb v)" and ?f = "agb_to_fsb (v_sb v)"
  obtain a where a: "seen_group h v g = Ok a" "ag_inv a" "ag_len (v_sb v) g = Ok (ag_length a)" "ag_length a \<le> sb_ag_blocks (v_sb v)"
    by (rule good_group [OF assms(1,2)])
  have ag: "a = ag" using a(1) assms(3) by simp
  note a = a [unfolded ag]
  have wf: "wf_sb (v_sb v)" using assms(1) by (simp add: good_def)
  note g = regrouped_good [OF assms(1,4,5)] have sb: "v_sb v' = v_sb v" and "good h v'" using g a(3) assms(6) by simp_all
  then show "good h v'" by simp
  have seen: "seen_group h v' x = (if x = g then Ok ag' else seen_group h v x)" for x using assms(4) by (simp add: regrouped_def)
  have free: "group_free h v' x = group_free h v x" "group_spare h v' x = group_spare h v x" if "x \<noteq> g" for x
    using that by (simp_all add: group_free_def group_spare_def seen)
  let ?rest = "\<Union>x \<in> {..<?c} - {g}. ?f x ` group_free h v x"
  have v: "vol_free h v = ?f g ` free_blocks ag \<union> ?rest" by (rule vol_free_split [OF assms(2,3)])
  have "seen_group h v' g = Ok ag'" by (simp add: seen)
  from vol_free_split [of g v' h, OF _ this] have v': "vol_free h v' = ?f g ` free_blocks ag' \<union> ?rest"
    using assms(2) free(1) by (simp add: sb)
  show "vol_free h v' = vol_free h v \<union> ?f g ` E" if "free_blocks ag' = free_blocks ag \<union> E"
    unfolding v v' that by blast
  show "vol_free h v' = vol_free h v - ?f g ` E" if E: "E \<subseteq> free_blocks ag" "free_blocks ag' = free_blocks ag - E"
  proof -
    note lt = group_free_less [OF assms(1)]
    have gf: "free_blocks ag = group_free h v g" by (simp add: group_free_def a(1))
    have "?f g b \<noteq> ?f x b'" if "b \<in> free_blocks ag" "x \<in> {..<?c} - {g}" "b' \<in> group_free h v x" for b x b'
      using fsb_inj [OF wf, of b b' g x] lt [of g b] lt [of x b'] that assms(2) by (auto simp: gf)
    moreover have "?f g b \<noteq> ?f g b'" if "b \<in> free_blocks ag" "b' \<in> free_blocks ag" "b \<noteq> b'" for b b'
      using fsb_inj [OF wf, of b b' g g] lt [of g] that assms(2) by (auto simp: gf)
    ultimately show ?thesis unfolding v v' E(2) using E(1) by blast
  qed
  have c: "{..<?c} = insert g ({..<?c} - {g})" using assms(2) by auto
  have gs: "group_spare h v g = spare ag" "group_spare h v' g = spare ag'" by (simp_all add: group_spare_def seen a(1))
  have "vol_spare h v = spare ag + (\<Sum>x \<in> {..<?c} - {g}. group_spare h v x)"
    unfolding vol_spare_def by (subst c, subst sum.insert) (simp_all add: gs)
  moreover have "vol_spare h v' = spare ag' + (\<Sum>x \<in> {..<?c} - {g}. group_spare h v x)"
    unfolding vol_spare_def sb by (subst c, subst sum.insert) (simp_all add: gs free)
  ultimately show "vol_spare h v' + spare ag = vol_spare h v + spare ag'" by simp
qed

section \<open>Taking from group after group\<close>

text \<open>A run of blocks inside a group that is in memory.\<close>

definition run_in :: "'d host \<Rightarrow> 'd volume \<Rightarrow> nat \<times> nat \<Rightarrow> bool" where
  "run_in h v r \<longleftrightarrow> 0 < snd r \<and> (\<exists>g b. g < sb_ag_count (v_sb v) \<and> fst r = agb_to_fsb (v_sb v) g b \<and> in_memory v g \<and>
     (\<exists>ag. seen_group h v g = Ok ag \<and> b + snd r \<le> ag_length ag))"

text \<open>What taking \<open>runs\<close> towards \<open>n\<close> blocks leaves of a volume.\<close>

definition vol_drawn :: "'d host \<Rightarrow> nat \<Rightarrow> nat \<Rightarrow> (nat \<times> nat) list \<Rightarrow> 'd volume \<Rightarrow> 'd volume \<Rightarrow> bool" where
  "vol_drawn h n left runs v v' \<longleftrightarrow> good h v' \<and> only_writer v v' \<and> distinct (expand runs) \<and> set (expand runs) \<subseteq> vol_free h v \<and>
     vol_free h v' = vol_free h v - set (expand runs) \<and> length (expand runs) + left = n \<and>
     vol_spare h v' + length (expand runs) = vol_spare h v \<and> (\<forall>r \<in> set runs. run_in h v' r) \<and>
     (\<forall>r. run_in h v r \<longrightarrow> run_in h v' r)"

lemma expand_append [simp]: "expand (xs @ ys) = expand xs @ expand ys"
  by (simp add: expand_def)

lemma vol_drawn_trans:
  assumes "vol_drawn h n left runs v u" and "vol_drawn h left left' runs' u v'"
  shows "vol_drawn h n left' (runs @ runs') v v'"
proof -
  have a: "set (expand runs) \<subseteq> vol_free h v" "vol_free h u = vol_free h v - set (expand runs)" "distinct (expand runs)"
    and b: "set (expand runs') \<subseteq> vol_free h u" "vol_free h v' = vol_free h u - set (expand runs')" "distinct (expand runs')"
    using assms by (simp_all add: vol_drawn_def)
  have r: "\<forall>r \<in> set runs. run_in h u r" "\<forall>r. run_in h u r \<longrightarrow> run_in h v' r" "\<forall>r \<in> set runs'. run_in h v' r"
    "\<forall>r. run_in h v r \<longrightarrow> run_in h u r"
    using assms by (simp_all add: vol_drawn_def)
  have "distinct (expand (runs @ runs'))" "set (expand (runs @ runs')) \<subseteq> vol_free h v" "vol_free h v' = vol_free h v - set (expand (runs @ runs'))"
    using a b by auto
  moreover have "only_writer v v'" using assms by (simp add: vol_drawn_def only_writer_def)
  moreover have "good h v'" "length (expand (runs @ runs')) + left' = n" "vol_spare h v' + length (expand (runs @ runs')) = vol_spare h v"
    using assms by (simp_all add: vol_drawn_def)
  moreover have "\<forall>r \<in> set (runs @ runs'). run_in h v' r" "\<forall>r. run_in h v r \<longrightarrow> run_in h v' r" using r by auto
  ultimately show ?thesis unfolding vol_drawn_def by blast
qed

lemma run_bounds: "(s, l) \<in> set runs \<Longrightarrow> 0 < l \<Longrightarrow> set (expand runs) \<subseteq> {..<n} \<Longrightarrow> s + l \<le> n"
proof -
  assume r: "(s, l) \<in> set runs" "0 < l" "set (expand runs) \<subseteq> {..<n}"
  then have "s + (l - 1) \<in> set (expand runs)" by (auto simp: expand_def intro!: bexI [of _ "(s, l)"])
  then show "s + l \<le> n" using r by auto
qed

lemma drawn_vol:
  assumes "good h v" and "g < sb_ag_count (v_sb v)" and "seen_group h v g = Ok ag" and "regrouped h v g ag' v'" and "drawn n left runs ag ag'"
  shows "vol_drawn h n left (map (\<lambda>(s, l). (agb_to_fsb (v_sb v) g s, l)) runs) v v'"
proof -
  let ?f = "agb_to_fsb (v_sb v) g" let ?R = "map (\<lambda>(s, l). (?f s, l)) runs"
  have wf: "wf_sb (v_sb v)" using assms(1) by (simp add: good_def)
  obtain a where a: "seen_group h v g = Ok a" "ag_inv a" "ag_len (v_sb v) g = Ok (ag_length a)" "ag_length a \<le> sb_ag_blocks (v_sb v)"
    by (rule good_group [OF assms(1,2)])
  have "a = ag" using a(1) assms(3) by simp
  note a = a [unfolded this]
  have d: "ag_inv ag'" "ag_length ag' = ag_length ag" "distinct (expand runs)" "set (expand runs) \<subseteq> free_blocks ag"
    "free_blocks ag' = free_blocks ag - set (expand runs)" "length (expand runs) + left = n" "\<forall>(s, l) \<in> set runs. 0 < l"
    "spare ag' + length (expand runs) = spare ag"
    using assms(5) same_but_freeD(1) by (auto simp: drawn_def)
  have "set (expand runs) \<subseteq> {..<ag_length ag}" using d(4) free_in_group [OF a(2)] by auto
  then have len: "s + l \<le> ag_length ag" if "(s, l) \<in> set runs" for s l using run_bounds [OF that] d(7) that by auto
  then have "\<forall>(s, l) \<in> set runs. s + l \<le> sb_ag_blocks (v_sb v)" using a(4) by fastforce
  note ex = expand_fsb [OF wf this, of g]
  have "inj_on ?f (set (expand runs))"
    using d(4) free_in_group [OF a(2)] a(4) fsb_inj [OF wf, of _ _ g g] by (auto intro!: inj_onI) (meson less_le_trans subsetD)
  moreover note R = vol_regrouped [OF assms(1-4) d(1,2)]
  moreover have "v_sb v' = v_sb v" using regrouped_good [OF assms(1,4) d(1)] a(3) d(2) by simp
  moreover have "set (expand ?R) \<subseteq> vol_free h v" unfolding ex vol_free_split [OF assms(2,3)] using d(4) by auto
  moreover have "run_in h v' r" if rin: "r \<in> set ?R" for r
  proof -
    obtain s l where r: "r = (?f s, l)" "(s, l) \<in> set runs" using rin by auto
    have "seen_group h v' g = Ok ag'" "in_memory v' g" using assms(4) by (simp_all add: regrouped_def)
    moreover have "s + l \<le> ag_length ag'" "0 < l" using len [OF r(2)] d(2,7) r(2) by auto
    ultimately show ?thesis unfolding run_in_def \<open>v_sb v' = v_sb v\<close> using assms(2) r(1) by (metis fst_conv snd_conv)
  qed
  moreover have "run_in h v' r" if "run_in h v r" for r
  proof -
    obtain x b y where x: "0 < snd r" "x < sb_ag_count (v_sb v)" "fst r = agb_to_fsb (v_sb v) x b" "in_memory v x" "seen_group h v x = Ok y" "b + snd r \<le> ag_length y"
      using \<open>run_in h v r\<close> by (auto simp: run_in_def)
    have "\<exists>y'. seen_group h v' x = Ok y' \<and> ag_length y' = ag_length y"
      using assms(3,4) d(2) x(5) by (cases "x = g") (auto simp: regrouped_def)
    then show ?thesis unfolding run_in_def \<open>v_sb v' = v_sb v\<close> using x assms(4) unfolding regrouped_def by metis
  qed
  ultimately show ?thesis
    using d assms(4) unfolding vol_drawn_def by (simp add: ex distinct_map regrouped_def)
qed

lemma alloc_from_ok:
  assumes "good h v" and "set agnos \<subseteq> {..<sb_ag_count (v_sb v)}"
  shows "\<exists>left runs v'. alloc_from h (v_sb v) pref hint agnos n out v = (Ok (left, out @ runs), v') \<and> vol_drawn h n left runs v v' \<and>
    (left = 0 \<or> (\<forall>g \<in> set agnos. group_spare h v' g = 0)) \<and> (\<forall>g. group_spare h v' g \<le> group_spare h v g)"
  using assms
proof (induction agnos arbitrary: n out v)
  case Nil
  then show ?case
    by (intro exI [of _ n] exI [of _ "[]"] exI [of _ v]) (simp add: ret_def vol_drawn_def only_writer_def)
next
  case (Cons g agnos)
  show ?case
  proof (cases "n = 0")
    case True
    then show ?thesis
      using Cons.prems by (intro exI [of _ 0] exI [of _ "[]"] exI [of _ v]) (simp add: ret_def vol_drawn_def only_writer_def)
  next
    case False
    let ?sb = "v_sb v" and ?m = "alloc_fill (v_sb v) g (if g = pref then hint else 0) n n out"
    have g: "g < sb_ag_count ?sb" using Cons.prems(2) by simp
    obtain ag where ag: "seen_group h v g = Ok ag" "ag_inv ag" "ag_len ?sb g = Ok (ag_length ag)" by (rule good_group [OF Cons.prems(1) g])
    obtain l1 rs ag' where f: "?m ag = (Ok (l1, out @ map (\<lambda>(s, l). (agb_to_fsb ?sb g s, l)) rs), ag')" "drawn n l1 rs ag ag'"
      using alloc_fill_ok [OF ag(2), of n n] by blast
    let ?R = "map (\<lambda>(s, l). (agb_to_fsb ?sb g s, l)) rs"
    have can: "can_write v" "\<forall>w. v_w v = Some w \<longrightarrow> om_ok (vw_ags w)" using Cons.prems(1) by (simp_all add: good_def)
    obtain u where u: "load_ag h g v = (Ok (), u)" "regrouped h v g ag u" using load_ag_group [OF can ag(1)] by blast
    then obtain v1 where v1: "on_ag g ?m u = (Ok (l1, out @ ?R), v1)" "regrouped h u g ag' v1"
      using on_ag_group [of u g h ag ?m, OF _ _ _ f(1)] by (auto simp: regrouped_def)
    have rg: "regrouped h v g ag' v1" by (rule regrouped_trans [OF u(2) v1(2)])
    have d1: "vol_drawn h n l1 ?R v v1" by (rule drawn_vol [OF Cons.prems(1) g ag(1) rg f(2)])
    have sp: "spare ag' \<le> spare ag" "l1 = 0 \<or> spare ag' = 0" using f(2) by (auto simp: drawn_def)
    then have gs: "group_spare h v1 x \<le> group_spare h v x" for x using rg ag(1) by (simp add: group_spare_def regrouped_def)
    have g1: "l1 = 0 \<or> group_spare h v1 g = 0" using sp(2) rg by (auto simp: group_spare_def regrouped_def)
    have sb1: "v_sb v1 = ?sb" "good h v1" using d1 by (simp_all add: vol_drawn_def only_writer_def)
    obtain left runs v' where r: "alloc_from h ?sb pref hint agnos l1 (out @ ?R) v1 = (Ok (left, (out @ ?R) @ runs), v')"
      "vol_drawn h l1 left runs v1 v'" "left = 0 \<or> (\<forall>g \<in> set agnos. group_spare h v' g = 0)" "\<forall>g. group_spare h v' g \<le> group_spare h v1 g"
      using Cons.IH [of v1 l1 "out @ ?R"] Cons.prems(2) sb1 by auto
    have "alloc_from h ?sb pref hint (g # agnos) n out v = (Ok (left, out @ ?R @ runs), v')"
      using False r(1) by (simp add: seq_eq(1) [where m = "load_ag h g", OF u(1)] seq_eq(1) [where m = "on_ag g ?m", OF v1(1)])
    moreover have "left \<le> l1" using r(2) by (simp add: vol_drawn_def)
    then have "left = 0 \<or> (\<forall>x \<in> set (g # agnos). group_spare h v' x = 0)" using g1 r(3,4) by (metis le_zero_eq set_ConsD)
    moreover have "\<forall>x. group_spare h v' x \<le> group_spare h v x" using r(4) gs le_trans by blast
    ultimately show ?thesis using vol_drawn_trans [OF d1 r(2)] by blast
  qed
qed

lemma set_ag_order: "0 < sb_ag_count sb \<Longrightarrow> set (ag_order sb first) = {..<sb_ag_count sb}"
proof (intro equalityI subsetI)
  fix g assume c: "0 < sb_ag_count sb" and "g \<in> {..<sb_ag_count sb}"
  let ?c = "sb_ag_count sb" and ?f = "first mod sb_ag_count sb"
  have "?f < ?c" using c by simp
  then have "?f + (g + ?c - ?f) = g + ?c" by linarith
  then have "g = (?f + (g + ?c - ?f) mod ?c) mod ?c" using \<open>g \<in> {..<?c}\<close> by (simp add: mod_add_right_eq)
  then show "g \<in> set (ag_order sb first)" using c unfolding ag_order_def by (auto intro!: image_eqI [of _ _ "(g + ?c - ?f) mod ?c"])
qed (auto simp: ag_order_def)

section \<open>Giving back\<close>

lemma fsb_to_agb_id:
  assumes "wf_sb sb" and "g < sb_ag_count sb" and "b < sb_ag_blocks sb"
  shows "fsb_to_agb sb (agb_to_fsb sb g b) = (g, b)"
proof -
  have "g < 4294967296" using assms(2) wf_sbD(13) [OF assms(1)] by simp
  moreover have "b < 4294967296" by (rule agblk_less_32 [OF assms(1,3)])
  ultimately show ?thesis
    using agb_to_fsb_parts(2,3) [OF assms(1,3)] by (simp add: fsb_to_agb_def addr_simps flip: One_nat_def)
qed

lemma give_back_ok:
  assumes "good h v" and "\<forall>r \<in> set runs. run_in h v r" and "distinct (expand runs)" and "set (expand runs) \<inter> vol_free h v = {}"
  shows "\<exists>v'. for_each (\<lambda>(fsb, l). let (agno, agbno) = fsb_to_agb (v_sb v) fsb in on_ag agno (free_extent agbno l)) runs v = (Ok (), v') \<and>
    good h v' \<and> only_writer v v' \<and> vol_free h v' = vol_free h v \<union> set (expand runs)"
  using assms
proof (induction runs arbitrary: v)
  case Nil
  then show ?case by (intro exI [of _ v]) (simp add: ret_def only_writer_def)
next
  case (Cons r runs)
  let ?sb = "v_sb v" and ?give = "\<lambda>(fsb, l). let (agno, agbno) = fsb_to_agb (v_sb v) fsb in on_ag agno (free_extent agbno l)"
  obtain s l where r: "r = (s, l)" by (cases r)
  obtain g b ag where g: "0 < l" "g < sb_ag_count ?sb" "s = agb_to_fsb ?sb g b" "in_memory v g" "seen_group h v g = Ok ag" "b + l \<le> ag_length ag"
    using Cons.prems(2) by (auto simp: run_in_def r)
  have wf: "wf_sb ?sb" and om: "\<forall>w. v_w v = Some w \<longrightarrow> om_ok (vw_ags w)" using Cons.prems(1) by (simp_all add: good_def)
  obtain a where a: "seen_group h v g = Ok a" "ag_inv a" "ag_len ?sb g = Ok (ag_length a)" "ag_length a \<le> sb_ag_blocks ?sb"
    by (rule good_group [OF Cons.prems(1) g(2)])
  have "a = ag" using a(1) g(5) by simp
  note a = a [unfolded this]
  have b: "b + l \<le> sb_ag_blocks ?sb" using g(6) a(4) by simp
  have ex: "[s..<s + l] = map (agb_to_fsb ?sb g) [b..<b + l]" using expand_fsb [OF wf, of "[(b, l)]" g] b by (simp add: g(3))
  have "set (expand (r # runs)) \<inter> vol_free h v = {}" by (rule Cons.prems(4))
  then have "agb_to_fsb ?sb g ` {b..<b + l} \<inter> vol_free h v = {}" by (auto simp: r ex)
  then have free: "{b..<b + l} \<inter> free_blocks ag = {}" unfolding vol_free_split [OF g(2,5)] by blast
  obtain ag' where ag': "free_extent b l ag = (Ok (), ag')" "given b l ag ag'"
    using free_extent_ok [OF a(2) g(1,6) free] by blast
  then have inv: "ag_inv ag'" "ag_length ag' = ag_length ag" "free_blocks ag' = free_blocks ag \<union> {b..<b + l}"
    by (simp_all add: given_def same_but_freeD(1))
  obtain u where u: "on_ag g (free_extent b l) v = (Ok (), u)" "regrouped h v g ag' u"
    using on_ag_group [of v g h ag "free_extent b l", OF g(4) om g(5) ag'(1)] by blast
  note R = vol_regrouped [OF Cons.prems(1) g(2,5) u(2) inv(1,2)]
  have vf: "vol_free h u = vol_free h v \<union> set [s..<s + l]" using R(3) [OF inv(3)] unfolding ex by simp
  have sb: "v_sb u = ?sb" and ow: "only_writer v u" using u(2) by (simp_all add: regrouped_def only_writer_def)
  have give: "?give r v = (Ok (), u)" using fsb_to_agb_id [OF wf g(2), of b] g(1,3) b u(1) by (simp add: r)
  have "\<forall>x \<in> set runs. run_in h u x"
  proof
    fix x assume "x \<in> set runs"
    then obtain y c z where x: "0 < snd x" "y < sb_ag_count ?sb" "fst x = agb_to_fsb ?sb y c" "in_memory v y" "seen_group h v y = Ok z" "c + snd x \<le> ag_length z"
      using Cons.prems(2) by (auto simp: run_in_def)
    have "\<exists>z'. seen_group h u y = Ok z' \<and> ag_length z' = ag_length z" using g(5) u(2) inv(2) x(5) by (cases "y = g") (auto simp: regrouped_def)
    then show "run_in h u x" unfolding run_in_def sb using x u(2) unfolding regrouped_def by metis
  qed
  moreover have "distinct (expand runs)" "set (expand runs) \<inter> vol_free h u = {}"
    using Cons.prems(3,4) by (auto simp: r vf)
  ultimately obtain v' where v': "for_each ?give runs u = (Ok (), v')" "good h v'" "only_writer u v'" "vol_free h v' = vol_free h u \<union> set (expand runs)"
    using Cons.IH [of u] R(1) sb by auto
  have "for_each ?give (r # runs) v = (Ok (), v')" unfolding for_each.simps seq_eq(1) [where m = "?give r", OF give] by (rule v'(1))
  moreover have "only_writer v v'" using ow v'(3) by (simp add: only_writer_def)
  moreover have "vol_free h v' = vol_free h v \<union> set (expand (r # runs))" using v'(4) vf by (auto simp: r)
  ultimately show ?case using v'(2) by blast
qed

section \<open>Properties\<close>

text \<open>
  C12. Allocating blocks for a file, from all groups of a volume that are well formed in memory or
  on the device: it succeeds exactly when the groups together have that many blocks to spare, and
  then returns runs of exactly that many different blocks that were free, and exactly these are
  no longer free. Otherwise the error is \<open>NoSpace\<close> and every block is free that was free before.
  The device is only read.
\<close>

theorem alloc_blocks_spec:
  assumes "good h v"
  shows "\<exists>v'. good h v' \<and> only_writer v v' \<and>
    (if n \<le> vol_spare h v
     then \<exists>runs. alloc_blocks h pref n hint v = (Ok runs, v') \<and> distinct (expand runs) \<and> length (expand runs) = n \<and>
       set (expand runs) \<subseteq> vol_free h v \<and> vol_free h v' = vol_free h v - set (expand runs) \<and> vol_spare h v' + n = vol_spare h v
     else alloc_blocks h pref n hint v = (Err NoSpace, v') \<and> vol_free h v' = vol_free h v)"
proof -
  let ?sb = "v_sb v" and ?give = "\<lambda>(fsb, l). let (agno, agbno) = fsb_to_agb (v_sb v) fsb in on_ag agno (free_extent agbno l)"
  have wf: "wf_sb ?sb" using assms by (simp add: good_def)
  have all: "set (ag_order ?sb pref) = {..<sb_ag_count ?sb}" by (rule set_ag_order [OF wf_sbD(12) [OF wf]])
  obtain left runs u where u: "alloc_from h ?sb pref hint (ag_order ?sb pref) n [] v = (Ok (left, runs), u)"
    "vol_drawn h n left runs v u" "left = 0 \<or> (\<forall>g \<in> set (ag_order ?sb pref). group_spare h u g = 0)"
    using alloc_from_ok [OF assms equalityD1 [OF all], of pref hint n "[]"] by auto
  have d: "good h u" "only_writer v u" "distinct (expand runs)" "set (expand runs) \<subseteq> vol_free h v" "vol_free h u = vol_free h v - set (expand runs)"
    "length (expand runs) + left = n" "vol_spare h u + length (expand runs) = vol_spare h v" "\<forall>r \<in> set runs. run_in h u r"
    using u(2) by (simp_all add: vol_drawn_def)
  have sb: "v_sb u = ?sb" using d(2) by (simp add: only_writer_def)
  note ev = seq_eq(1) [where m = "alloc_from h ?sb pref hint (ag_order ?sb pref) n []", OF u(1)]
  show ?thesis
  proof (cases "left = 0")
    case True
    then have "alloc_blocks h pref n hint v = (Ok runs, u)" by (simp add: alloc_blocks_def Let_def ev ret_def)
    then show ?thesis using d True by (intro exI [of _ u]) auto
  next
    case False
    then have "vol_spare h u = 0" using u(3) unfolding all vol_spare_def sb by simp
    then have small: "\<not> n \<le> vol_spare h v" using d(6,7) False by linarith
    obtain v' where v': "for_each ?give runs u = (Ok (), v')" "good h v'" "only_writer u v'" "vol_free h v' = vol_free h u \<union> set (expand runs)"
      using give_back_ok [OF d(1,8,3)] d(5) by (auto simp: sb)
    have "alloc_blocks h pref n hint v = (Err NoSpace, v')"
      using False unfolding alloc_blocks_def Let_def ev by (simp add: seq_eq(1) [where m = "for_each ?give runs", OF v'(1), unfolded Let_def] raise_def)
    moreover have "vol_free h v' = vol_free h v" using v'(4) d(4,5) by auto
    moreover have "only_writer v v'" using d(2) v'(3) by (simp add: only_writer_def)
    ultimately show ?thesis using small v'(2) by auto
  qed
qed

text \<open>A volume of one group, in memory.\<close>

definition one_group :: "mem_device volume" where
  "one_group = tiny_vol\<lparr>v_sb := demo_sb\<lparr>sb_ag_count := 1, sb_data_blocks := ag_length demo_ag\<rparr>,
     v_w := Some ((writer_new None)\<lparr>vw_ags := [(0, demo_ag)]\<rparr>)\<rparr>"

lemma one_group_good: "good \<lparr>h_ops = mem_ops, h_clock = (\<lambda>_. None)\<rparr> one_group"
  "vol_spare \<lparr>h_ops = mem_ops, h_clock = (\<lambda>_. None)\<rparr> one_group = 23"
proof -
  let ?h = "\<lparr>h_ops = mem_ops, h_clock = (\<lambda>_. None)\<rparr> :: mem_device host"
  have seen: "seen_group ?h one_group 0 = Ok demo_ag" by (simp add: seen_group_def one_group_def om_get_def)
  have len: "ag_len (v_sb one_group) 0 = Ok (ag_length demo_ag)"
    by (simp add: ag_len_def one_group_def sub_w_def demo_ag_def)
  have "wf_sb (v_sb one_group)" using demo_sb_wf by (simp add: wf_sb_def one_group_def demo_ag_def)
  then show "good ?h one_group"
    using seen len demo_ag_inv(1) by (simp add: good_def group_good_def can_write_def one_group_def om_ok_def)
  have "spare demo_ag = 23" by (simp add: spare_def demo_ag_def)
  then show "vol_spare ?h one_group = 23" using seen by (simp add: vol_spare_def group_spare_def one_group_def lessThan_Suc)
qed

theorem alloc_blocks_spec_witness:
  "(\<exists>runs v'. alloc_blocks \<lparr>h_ops = mem_ops, h_clock = (\<lambda>_. None)\<rparr> 0 20 0 one_group = (Ok runs, v') \<and> length (expand runs) = 20) \<and>
   (\<exists>v'. alloc_blocks \<lparr>h_ops = mem_ops, h_clock = (\<lambda>_. None)\<rparr> 0 24 0 one_group = (Err NoSpace, v'))"
  using alloc_blocks_spec [OF one_group_good(1), of 20 0 0] alloc_blocks_spec [OF one_group_good(1), of 24 0 0] one_group_good(2) by auto

end
