(* ===== verification/WriteData.thy ===== *)
theory WriteData
  imports WriteOps
begin

text \<open>
  The bytes of a file. \<open>write_mapped\<close> puts the data into the blocks that the extents map, and
  reading the file through the same extents gives the data back, on any device that keeps the
  contract of a block device; no other byte of the device changes.
\<close>

section \<open>One extent\<close>

text \<open>The data followed by zeros.\<close>

definition padded_byte :: "byte list \<Rightarrow> nat \<Rightarrow> byte" where
  "padded_byte data i = (if i < length data then data ! i else 0)"

lemma patch_append: "i + length ys + length zs \<le> length xs \<Longrightarrow> patch (patch xs i ys) (i + length ys) zs = patch xs i (ys @ zs)"
  by (simp add: patch_def ac_simps)

lemma nth_patch_in: "i + length ys \<le> length xs \<Longrightarrow> k < length ys \<Longrightarrow> patch xs i ys ! (i + k) = ys ! k"
  by (simp add: nth_patch)

lemma padded_piece:
  assumes "at \<le> length data"
  shows "seg data at (min (length data - at) n) @ replicate (n - min (length data - at) n) 0 = map (padded_byte data) [at..<at + n]"
  using assms by (intro nth_equalityI) (auto simp: nth_append padded_byte_def seg_nth min_def)

lemma before_last_block:
  assumes "bs dvd at" and "at < div_ceil (length data) bs * bs" and "0 < bs"
  shows "at \<le> length data"
proof -
  obtain k where k: "at = k * bs" using assms(1) by (metis dvd_def mult.commute)
  then have "k < div_ceil (length data) bs" using assms(2) by simp
  then have "k \<le> length data div bs" using assms(3) by (auto simp: div_ceil_def split: if_splits)
  then show ?thesis unfolding k by (meson div_times_less_eq_dividend le_trans mult_le_mono1)
qed

context block_device
begin

lemma write_chunks_ok:
  assumes "h_ops h = ops" and "invar (v_dev v)" and "bs dvd at" and "bs dvd 2 ^ 20" and "0 < bs"
    and "stop \<le> div_ceil (length data) bs * bs" and "dev_at + (stop - at) \<le> length (content (v_dev v))"
  shows "\<exists>d. write_chunks h data stop at dev_at v = (Ok (), v\<lparr>v_dev := d\<rparr>) \<and> invar d \<and>
    content d = patch (content (v_dev v)) dev_at (map (padded_byte data) [at..<stop])"
  using assms
proof (induction "stop - at" arbitrary: at dev_at v rule: less_induct)
  case less
  show ?case
  proof (cases "at < stop")
    case False
    then show ?thesis
      using less.prems(2) by (subst write_chunks.simps) (auto simp: ret_def patch_def intro!: exI [of _ "v_dev v"])
  next
    case True
    let ?n = "min (stop - at) (2 ^ 20)" let ?have = "min (length data - at) ?n"
    let ?buf = "map (padded_byte data) [at..<at + ?n]"
    have at: "at \<le> length data" using True less.prems(6) by (intro before_last_block [OF less.prems(3) _ less.prems(5)]) simp
    have get: "get data at ?have = Ok (seg data at ?have)" using at by simp
    have piece: "seg data at ?have @ replicate (?n - ?have) 0 = ?buf" by (rule padded_piece [OF at])
    obtain d where d: "dev_write_at ops (v_dev v) dev_at ?buf = Ok d" "invar d" "content d = patch (content (v_dev v)) dev_at ?buf"
      using write_at [OF less.prems(2), of dev_at ?buf] less.prems(7) by fastforce
    have w: "dev_write h dev_at ?buf v = (Ok (), v\<lparr>v_dev := d\<rparr>)" using d(1) less.prems(1) by (simp add: dev_write_def)
    have step: "write_chunks h data stop at dev_at v = write_chunks h data stop (at + ?n) (dev_at + ?n) (v\<lparr>v_dev := d\<rparr>)"
      using True by (subst write_chunks.simps) (simp only: Let_def get piece if_True seq_lift seq_eq(1) [where m = "dev_write h dev_at ?buf", OF w])
    show ?thesis
    proof (cases "at + ?n < stop")
      case True
      then have n: "?n = 2 ^ 20" by linarith
      then have dvd: "bs dvd at + ?n" using less.prems(3,4) by simp
      have lt: "stop - (at + ?n) < stop - at" using True unfolding n by simp
      have inv: "invar (v_dev (v\<lparr>v_dev := d\<rparr>))" using d(2) by simp
      have fit: "dev_at + ?n + (stop - (at + ?n)) \<le> length (content (v_dev (v\<lparr>v_dev := d\<rparr>)))" using d(3) True less.prems(7) by simp
      obtain e where e: "write_chunks h data stop (at + ?n) (dev_at + ?n) (v\<lparr>v_dev := d\<rparr>) = (Ok (), v\<lparr>v_dev := d\<rparr>\<lparr>v_dev := e\<rparr>)" "invar e"
        "content e = patch (content d) (dev_at + ?n) (map (padded_byte data) [at + ?n..<stop])"
        using less.hyps [OF lt less.prems(1) inv dvd less.prems(4-6) fit] by auto
      have "content e = patch (content (v_dev v)) dev_at (?buf @ map (padded_byte data) [at + ?n..<stop])"
        using patch_append [of dev_at ?buf "map (padded_byte data) [at + ?n..<stop]" "content (v_dev v)"] e(3) d(3) True less.prems(7) by simp
      then show ?thesis using step e(1,2) True upt_add_eq_append [of at "at + ?n" "stop - (at + ?n)"] by (intro exI [of _ e]) simp
    next
      case False
      then have "at + ?n = stop" using True by auto
      then show ?thesis using step d by (intro exI [of _ d]) (simp add: write_chunks.simps [of h data stop stop] ret_def)
    qed
  qed
qed

end

section \<open>All extents\<close>

text \<open>The bytes of an extent on the device, and those the data reaches.\<close>

definition ext_bytes :: "superblock \<Rightarrow> extent \<Rightarrow> nat set" where
  "ext_bytes sb e = {fsb_addr sb (x_block e)..<fsb_addr sb (x_block e) + x_count e * sb_block_size sb}"

definition data_stop :: "superblock \<Rightarrow> byte list \<Rightarrow> extent \<Rightarrow> nat" where
  "data_stop sb data e = min (x_end e * sb_block_size sb) (div_ceil (length data) (sb_block_size sb) * sb_block_size sb)"

text \<open>The extents lie on the device, in one group each, and no two share a byte.\<close>

definition apart :: "superblock \<Rightarrow> extent list \<Rightarrow> bool" where
  "apart sb exts \<longleftrightarrow> sorted_wrt (\<lambda>e e'. ext_bytes sb e \<inter> ext_bytes sb e' = {}) exts \<and>
     (\<forall>e \<in> set exts. 0 < x_count e \<and> in_ag sb (x_block e) (x_count e) \<and> x_end e * sb_block_size sb < 2 ^ 64)"

lemma ext_byte_at: "k < x_count e * sb_block_size sb \<Longrightarrow> fsb_addr sb (x_block e) + k \<in> ext_bytes sb e"
  by (simp add: ext_bytes_def)

lemma ext_byte_in:
  assumes "x_offset e * bs \<le> i" and "i < x_end e * bs"
  shows "i - x_offset e * bs < x_count e * bs"
  using assms by (simp add: x_end_def add_mult_distrib)

context block_device
begin

lemma write_extent_ok:
  assumes "vol_ok content invar v" and "h_ops h = ops" and "in_ag (v_sb v) (x_block e) (x_count e)" and "0 < x_count e"
  shows "\<exists>d. write_chunks h data (data_stop (v_sb v) data e) (x_offset e * sb_block_size (v_sb v)) (fsb_addr (v_sb v) (x_block e)) v =
      (Ok (), v\<lparr>v_dev := d\<rparr>) \<and> invar d \<and> length (content d) = length (content (v_dev v)) \<and>
    (\<forall>i. x_offset e * sb_block_size (v_sb v) \<le> i \<longrightarrow> i < data_stop (v_sb v) data e \<longrightarrow>
       content d ! (fsb_addr (v_sb v) (x_block e) + (i - x_offset e * sb_block_size (v_sb v))) = padded_byte data i) \<and>
    (\<forall>p < length (content d). p \<notin> ext_bytes (v_sb v) e \<longrightarrow> content d ! p = content (v_dev v) ! p)"
proof -
  let ?sb = "v_sb v" let ?bs = "sb_block_size ?sb" and ?a = "fsb_addr ?sb (x_block e)" and ?o = "x_offset e * sb_block_size ?sb"
  let ?stop = "data_stop ?sb data e"
  have wf: "wf_sb ?sb" "sb_fits ?sb" "invar (v_dev v)" "sb_ag_count ?sb * sb_ag_blocks ?sb * ?bs \<le> length (content (v_dev v))"
    using assms(1) by (simp_all add: vol_ok_def)
  have bs: "?bs = 2 ^ sb_block_log ?sb" "sb_block_log ?sb \<le> 16" "0 < ?bs" using wf_sbD(1,3,6) [OF wf(1)] by simp_all
  have dvd: "?bs dvd 2 ^ 20" unfolding bs(1) using bs(2) by (intro le_imp_power_dvd) simp
  have "?a + x_count e * ?bs \<le> length (content (v_dev v))"
    using fsb_to_byte_in_ag(2) [OF wf(1,2) assms(3,4)] wf(4) by simp
  moreover have "?stop - ?o \<le> x_count e * ?bs" by (auto simp: data_stop_def x_end_def add_mult_distrib min_def)
  ultimately have fit: "?a + (?stop - ?o) \<le> length (content (v_dev v))" "?a + (?stop - ?o) \<le> ?a + x_count e * ?bs" by simp_all
  obtain d where d: "write_chunks h data ?stop ?o ?a v = (Ok (), v\<lparr>v_dev := d\<rparr>)" "invar d"
    "content d = patch (content (v_dev v)) ?a (map (padded_byte data) [?o..<?stop])"
    using write_chunks_ok [OF assms(2) wf(3) _ dvd bs(3) _ fit(1), of data] by (auto simp: data_stop_def)
  have len: "?a + length (map (padded_byte data) [?o..<?stop]) \<le> length (content (v_dev v))" using fit(1) by simp
  have l: "length (content d) = length (content (v_dev v))" unfolding d(3) by (rule length_patch [OF len])
  have "content d ! (?a + (i - ?o)) = padded_byte data i" if "?o \<le> i" "i < ?stop" for i
  proof -
    have "i - ?o < length (map (padded_byte data) [?o..<?stop])" using that by auto
    from nth_patch_in [OF len this] show ?thesis unfolding d(3) using that by simp
  qed
  moreover have "content d ! p = content (v_dev v) ! p" if "p < length (content d)" "p \<notin> ext_bytes ?sb e" for p
    unfolding d(3) using nth_patch [OF len, of p] that fit(2) l by (auto simp: ext_bytes_def)
  ultimately show ?thesis using d(1,2) l by blast
qed

end

definition extent_writer :: "'d host \<Rightarrow> superblock \<Rightarrow> byte list \<Rightarrow> extent \<Rightarrow> ('d, unit) vproc" where
  "extent_writer h sb data e =
     seq (lift (mul_w 64 (x_offset e) (sb_block_size sb))) (\<lambda>at.
     seq (lift (mul_w 64 (x_end e) (sb_block_size sb))) (\<lambda>xend.
     seq (lift (fsb_to_byte sb (x_block e))) (\<lambda>dev_at.
     write_chunks h data (min xend (div_ceil (length data) (sb_block_size sb) * sb_block_size sb)) at dev_at)))"

lemma write_mapped_each: "write_mapped h exts data v = for_each (extent_writer h (v_sb v) data) exts v"
  by (simp add: write_mapped_def extent_writer_def [abs_def] Let_def)

context block_device
begin

lemma extent_writer_eq:
  assumes "vol_ok content invar v" and "in_ag (v_sb v) (x_block e) (x_count e)" and "0 < x_count e" and "x_end e * sb_block_size (v_sb v) < 2 ^ 64"
  shows "extent_writer h (v_sb v) data e =
    write_chunks h data (data_stop (v_sb v) data e) (x_offset e * sb_block_size (v_sb v)) (fsb_addr (v_sb v) (x_block e))"
proof -
  have wf: "wf_sb (v_sb v)" "sb_fits (v_sb v)" using assms(1) by (simp_all add: vol_ok_def)
  have "x_offset e * sb_block_size (v_sb v) \<le> x_end e * sb_block_size (v_sb v)" by (simp add: x_end_def)
  then have "x_offset e * sb_block_size (v_sb v) < 2 ^ 64" using assms(4) by linarith
  then show ?thesis
    using assms(4) by (simp add: extent_writer_def mul_w_def fsb_to_byte_in_ag(1) [OF wf assms(2,3)] data_stop_def fun_eq_iff)
qed

lemma write_mapped_ok:
  assumes "vol_ok content invar v" and "h_ops h = ops" and "apart (v_sb v) exts"
  shows "\<exists>d. write_mapped h exts data v = (Ok (), v\<lparr>v_dev := d\<rparr>) \<and> invar d \<and> length (content d) = length (content (v_dev v)) \<and>
    (\<forall>e \<in> set exts. \<forall>i. x_offset e * sb_block_size (v_sb v) \<le> i \<longrightarrow> i < data_stop (v_sb v) data e \<longrightarrow>
       content d ! (fsb_addr (v_sb v) (x_block e) + (i - x_offset e * sb_block_size (v_sb v))) = padded_byte data i) \<and>
    (\<forall>p < length (content d). (\<forall>e \<in> set exts. p \<notin> ext_bytes (v_sb v) e) \<longrightarrow> content d ! p = content (v_dev v) ! p)"
  unfolding write_mapped_each
  using assms
proof (induction exts arbitrary: v)
  case Nil
  then show ?case by (intro exI [of _ "v_dev v"]) (simp add: ret_def vol_ok_def)
next
  case (Cons e exts)
  let ?sb = "v_sb v" let ?bs = "sb_block_size ?sb" and ?at = "\<lambda>e i. fsb_addr ?sb (x_block e) + (i - x_offset e * sb_block_size ?sb)"
  have e: "0 < x_count e" "in_ag ?sb (x_block e) (x_count e)" "x_end e * ?bs < 2 ^ 64"
    and rest: "apart ?sb exts" "\<forall>e' \<in> set exts. ext_bytes ?sb e \<inter> ext_bytes ?sb e' = {}"
    using Cons.prems(3) by (auto simp: apart_def)
  note wr = extent_writer_eq [OF Cons.prems(1) e(2,1,3), of h data]
  obtain d where d: "extent_writer h ?sb data e v = (Ok (), v\<lparr>v_dev := d\<rparr>)" "invar d" "length (content d) = length (content (v_dev v))"
    "\<forall>i. x_offset e * ?bs \<le> i \<longrightarrow> i < data_stop ?sb data e \<longrightarrow> content d ! ?at e i = padded_byte data i"
    "\<forall>p < length (content d). p \<notin> ext_bytes ?sb e \<longrightarrow> content d ! p = content (v_dev v) ! p"
    using write_extent_ok [OF Cons.prems(1,2) e(2,1), of data] unfolding wr by blast
  let ?v = "v\<lparr>v_dev := d\<rparr>"
  have ok: "vol_ok content invar ?v" using Cons.prems(1) d(2,3) by (simp add: vol_ok_def)
  have rest': "apart (v_sb ?v) exts" using rest(1) by simp
  obtain d' where d': "for_each (extent_writer h ?sb data) exts ?v = (Ok (), v\<lparr>v_dev := d'\<rparr>)" "invar d'" "length (content d') = length (content d)"
    "\<forall>e \<in> set exts. \<forall>i. x_offset e * ?bs \<le> i \<longrightarrow> i < data_stop ?sb data e \<longrightarrow> content d' ! ?at e i = padded_byte data i"
    "\<forall>p < length (content d'). (\<forall>e \<in> set exts. p \<notin> ext_bytes ?sb e) \<longrightarrow> content d' ! p = content d ! p"
    using Cons.IH [OF ok Cons.prems(2) rest'] by auto
  have first: "content d' ! ?at e i = padded_byte data i" if i: "x_offset e * ?bs \<le> i" "i < data_stop ?sb data e" for i
  proof -
    have "i < x_end e * ?bs" using i(2) by (simp add: data_stop_def)
    then have mem: "?at e i \<in> ext_bytes ?sb e" using i(1) by (intro ext_byte_at ext_byte_in)
    moreover have "ext_bytes ?sb e \<subseteq> {..<length (content d)}"
      using fsb_to_byte_in_ag(2) [OF _ _ e(2,1)] Cons.prems(1) d(3) by (force simp: vol_ok_def ext_bytes_def)
    ultimately have "content d' ! ?at e i = content d ! ?at e i" using d'(3,5) rest(2) by auto
    then show ?thesis using d(4) i by simp
  qed
  have "for_each (extent_writer h ?sb data) (e # exts) v = (Ok (), v\<lparr>v_dev := d'\<rparr>)"
    unfolding for_each.simps seq_eq(1) [where m = "extent_writer h ?sb data e", OF d(1)] by (rule d'(1))
  moreover have "content d' ! p = content (v_dev v) ! p" if "p < length (content d')" "\<forall>x \<in> set (e # exts). p \<notin> ext_bytes ?sb x" for p
    using that d(5) d'(3,5) by simp
  ultimately show ?case using d'(2-4) d(3) first by (intro exI [of _ d']) auto
qed

end

lemma file_byte_written:
  assumes "wf_sb sb" and "exts_ok sb exts" and "e \<in> set exts" and "\<not> x_unwritten e"
    and "x_offset e \<le> i div sb_block_size sb" and "i div sb_block_size sb < x_end e"
  shows "file_byte c sb exts i = c ! (fsb_addr sb (x_block e) + (i - x_offset e * sb_block_size sb))"
    and "x_offset e * sb_block_size sb \<le> i" and "i < x_end e * sb_block_size sb"
proof -
  let ?bs = "sb_block_size sb" let ?k = "i div ?bs"
  have bs: "0 < ?bs" by (rule wf_sbD(6) [OF assms(1)])
  have f: "find exts ?k = Some e" using find_sorted [of exts] assms(2,3,5,6) by (simp add: exts_ok_def)
  have "in_ag sb (x_block e) (x_count e)" using assms(2-4) by (simp add: exts_ok_def)
  then have a: "fsb_addr sb (x_block e + (?k - x_offset e)) = fsb_addr sb (x_block e) + (?k - x_offset e) * ?bs"
    using assms(5,6) by (intro in_ag_shift(3) [OF assms(1)]) (auto simp: x_end_def)
  have le: "x_offset e * ?bs \<le> ?k * ?bs" using assms(5) by simp
  then show "x_offset e * ?bs \<le> i" using div_times_less_eq_dividend [of i ?bs] by linarith
  have "(?k - x_offset e) * ?bs + i mod ?bs = i - x_offset e * ?bs"
    using le div_mult_mod_eq [of i ?bs] by (simp add: diff_mult_distrib)
  then show "file_byte c sb exts i = c ! (fsb_addr sb (x_block e) + (i - x_offset e * ?bs))"
    using f assms(4) a by (simp add: file_byte_def add.assoc)
  show "i < x_end e * ?bs" using assms(6) bs by (simp add: div_less_iff_less_mult)
qed

section \<open>Properties\<close>

text \<open>
  C13. File data written is read back: writing data through extents that map every block of it,
  lie inside their groups and share no byte succeeds, and then any range of a file of that size
  with those extents gives exactly the data, on a volume whose device holds the whole filesystem.
  Every byte of the device outside the extents is as before.
\<close>

theorem data_written_then_read:
  assumes "h_ops h = mem_ops" and "vol_ok mem_data mem_inv v" and "exts_ok (v_sb v) exts" and "apart (v_sb v) exts"
    and "\<forall>e \<in> set exts. \<not> x_unwritten e"
    and "\<forall>k < div_ceil (length data) (sb_block_size (v_sb v)). \<exists>e \<in> set exts. x_offset e \<le> k \<and> k < x_end e"
    and "i_size ip = length data" and "length data < 2 ^ 63" and "i_format ip \<noteq> Local" and "\<not> is_realtime ip"
  shows "\<exists>d. write_mapped h exts data v = (Ok (), v\<lparr>v_dev := d\<rparr>) \<and>
    (\<forall>offset n. read_inode_range mem_ops (v\<lparr>v_dev := d\<rparr>) ip exts offset n = Ok (take n (drop offset data))) \<and>
    (\<forall>p < length (mem_data d). (\<forall>e \<in> set exts. p \<notin> ext_bytes (v_sb v) e) \<longrightarrow> mem_data d ! p = mem_data (v_dev v) ! p)"
proof -
  let ?sb = "v_sb v" let ?bs = "sb_block_size ?sb"
  obtain d where d: "write_mapped h exts data v = (Ok (), v\<lparr>v_dev := d\<rparr>)" "mem_inv d" "length (mem_data d) = length (mem_data (v_dev v))"
    "\<forall>e \<in> set exts. \<forall>i. x_offset e * ?bs \<le> i \<longrightarrow> i < data_stop ?sb data e \<longrightarrow>
       mem_data d ! (fsb_addr ?sb (x_block e) + (i - x_offset e * ?bs)) = padded_byte data i"
    "\<forall>p < length (mem_data d). (\<forall>e \<in> set exts. p \<notin> ext_bytes ?sb e) \<longrightarrow> mem_data d ! p = mem_data (v_dev v) ! p"
    using mem.write_mapped_ok [OF assms(2,1,4), of data] by blast
  let ?v = "v\<lparr>v_dev := d\<rparr>"
  have ok: "vol_ok mem_data mem_inv ?v" and wf: "wf_sb ?sb" using assms(2) d(2,3) by (simp_all add: vol_ok_def)
  have bs: "0 < ?bs" by (rule wf_sbD(6) [OF wf])
  have at: "file_byte (mem_data d) ?sb exts i = data ! i" if i: "i < length data" for i
  proof -
    have up: "i < div_ceil (length data) ?bs * ?bs" using i div_ceil_bounds(1) [OF bs, of "length data"] by linarith
    then have "i div ?bs < div_ceil (length data) ?bs" using bs by (simp add: div_less_iff_less_mult)
    then obtain e where e: "e \<in> set exts" "x_offset e \<le> i div ?bs" "i div ?bs < x_end e" using assms(6) by blast
    note fb = file_byte_written [OF wf assms(3) e(1) assms(5) [rule_format, OF e(1)] e(2,3)]
    have "i < data_stop ?sb data e" using fb(3) up by (simp add: data_stop_def)
    then show ?thesis unfolding fb(1) using d(4) e(1) fb(2) i by (simp add: padded_byte_def)
  qed
  have "read_inode_range mem_ops ?v ip exts offset n = Ok (take n (drop offset data))" for offset n
  proof (cases "offset \<ge> length data \<or> n = 0")
    case True
    then show ?thesis by (auto simp: read_inode_range_def assms(7))
  next
    case False
    have "map (file_byte (mem_data d) ?sb exts) [offset..<min (offset + n) (length data)] = take n (drop offset data)"
      using at by (intro nth_equalityI) (auto simp: min_def split: if_splits)
    then show ?thesis using read_inode_range_mem [OF ok, of exts ip offset n] assms(3,7-10) False by simp
  qed
  then show ?thesis using d(1,5) by blast
qed

theorem data_written_then_read_witness:
  "\<exists>d. write_mapped \<lparr>h_ops = mem_ops, h_clock = (\<lambda>_. None)\<rparr> [\<lparr>x_offset = 0, x_block = 16390, x_count = 2, x_unwritten = False\<rparr>] [1, 2, 3] demo_vol =
       (Ok (), demo_vol\<lparr>v_dev := d\<rparr>) \<and>
     read_inode_range mem_ops (demo_vol\<lparr>v_dev := d\<rparr>) (demo_inode\<lparr>i_size := 3\<rparr>) [\<lparr>x_offset = 0, x_block = 16390, x_count = 2, x_unwritten = False\<rparr>] 1 100 =
       Ok [2, 3]"
proof -
  let ?h = "\<lparr>h_ops = mem_ops, h_clock = (\<lambda>_. None)\<rparr> :: mem_device host" and ?x = "[\<lparr>x_offset = 0, x_block = 16390, x_count = 2, x_unwritten = False\<rparr>]"
  have e: "exts_ok (v_sb demo_vol) ?x" "apart (v_sb demo_vol) ?x"
    by (simp_all add: exts_ok_def apart_def in_ag_def x_end_def demo_vol_def)
  have "div_ceil (length [1 :: byte, 2, 3]) (sb_block_size (v_sb demo_vol)) = 1" by (simp add: div_ceil_def demo_vol_def)
  then have "\<forall>k < div_ceil (length [1 :: byte, 2, 3]) (sb_block_size (v_sb demo_vol)). \<exists>e \<in> set ?x. x_offset e \<le> k \<and> k < x_end e"
    by (simp add: x_end_def)
  then show ?thesis
    using data_written_then_read [of ?h demo_vol ?x "[1, 2, 3]" "demo_inode\<lparr>i_size := 3\<rparr>"] e demo_vol_ok
    by (auto simp: demo_inode_def is_realtime_def)
qed

end
