(* ===== verification/WriteInode.thy ===== *)
theory WriteInode
  imports WriteOps
begin

text \<open>
  Inodes on the device. \<open>write_raw\<close> changes the bytes of one inode and no other; \<open>chmod\<close> and
  \<open>chown\<close> change what a later read of the inode gives in exactly the fields they are for.
\<close>

section \<open>Where an inode is\<close>

lemma ino_decode:
  assumes "wf_sb sb" and "agino_log sb \<le> 32" and "ino_to_byte sb ino = Ok at"
  obtains agno agino where "inode_at sb agno agino" and "ino = agino_to_ino sb agno agino"
proof
  let ?m = "2 ^ agino_log sb :: nat"
  have d: "ino \<noteq> 0" "ino div ?m < sb_ag_count sb" "ino mod ?m div 2 ^ sb_inopb_log sb < sb_ag_blocks sb"
    using assms(3) by (auto simp: ino_to_byte_def Let_def addr_simps not_le simp flip: One_nat_def split: if_splits)
  have "ino mod ?m < ?m" by simp
  also have "?m \<le> 2 ^ 32" using assms(2) by (intro power_increasing) simp_all
  finally have "ino mod ?m < 2 ^ 32" .
  moreover have "(ino div ?m, ino mod ?m) \<noteq> (0, 0)" using d(1) div_mult_mod_eq [of ino ?m] by auto
  ultimately show at: "inode_at sb (ino div ?m) (ino mod ?m)" using d(2,3) assms(2) by (simp add: inode_at_def)
  show "ino = agino_to_ino sb (ino div ?m) (ino mod ?m)" unfolding agino_to_ino_parts(1) [OF assms(1) at] by (rule div_mult_mod_eq [symmetric])
qed

lemma ino_slot:
  assumes "wf_sb sb" and "sb_fits sb" and "agino_log sb \<le> 32" and "ino_to_byte sb ino = Ok at"
  shows "at mod sb_block_size sb + sb_inode_size sb \<le> sb_block_size sb"
    and "at div sb_block_size sb * sb_block_size sb + sb_block_size sb \<le> sb_ag_count sb * sb_ag_blocks sb * sb_block_size sb"
    and "ino_to_byte sb ino' = Ok at' \<Longrightarrow> ino' \<noteq> ino \<Longrightarrow> at + sb_inode_size sb \<le> at' \<or> at' + sb_inode_size sb \<le> at"
proof -
  obtain g i where i: "inode_at sb g i" "ino = agino_to_ino sb g i" by (rule ino_decode [OF assms(1,3,4)])
  have s: "at div sb_block_size sb = g * sb_ag_blocks sb + i div 2 ^ sb_inopb_log sb"
    "at mod sb_block_size sb + sb_inode_size sb \<le> sb_block_size sb"
    using inode_slots [OF assms(1,2) i(1) i(1)] assms(4) i(2) by auto
  show "at mod sb_block_size sb + sb_inode_size sb \<le> sb_block_size sb" by (rule s(2))
  have "at div sb_block_size sb < sb_ag_count sb * sb_ag_blocks sb"
    unfolding s(1) using i(1) by (intro linear_block_less) (simp_all add: inode_at_def)
  then have "(at div sb_block_size sb + 1) * sb_block_size sb \<le> sb_ag_count sb * sb_ag_blocks sb * sb_block_size sb" by (intro mult_le_mono1) simp
  then show "at div sb_block_size sb * sb_block_size sb + sb_block_size sb \<le> sb_ag_count sb * sb_ag_blocks sb * sb_block_size sb"
    by (simp add: add.commute)
  assume a: "ino_to_byte sb ino' = Ok at'" "ino' \<noteq> ino"
  obtain g' i' where i': "inode_at sb g' i'" "ino' = agino_to_ino sb g' i'" by (rule ino_decode [OF assms(1,3) a(1)])
  have "(g, i) \<noteq> (g', i')" using a(2) i(2) i'(2) by auto
  then show "at + sb_inode_size sb \<le> at' \<or> at' + sb_inode_size sb \<le> at"
    using inode_slots [OF assms(1,2) i(1) i'(1)] assms(4) a(1) i(2) i'(2) by auto
qed

lemma parse_inode_prefix: "sb_inode_size sb \<le> length b \<Longrightarrow> parse_inode sb ino b = parse_inode sb ino (seg b 0 (sb_inode_size sb))"
  by (simp add: parse_inode_def Let_def)

text \<open>A volume on which inodes can be read and written.\<close>

definition inodes_ok :: "('d \<Rightarrow> byte list) \<Rightarrow> ('d \<Rightarrow> bool) \<Rightarrow> 'd volume \<Rightarrow> bool" where
  "inodes_ok content invar v \<longleftrightarrow> vol_ok content invar v \<and> agino_log (v_sb v) \<le> 32"

context block_device
begin

lemma slot_block:
  assumes "inodes_ok content invar v" and "ino_to_byte (v_sb v) ino = Ok at"
  shows "at div sb_block_size (v_sb v) * sb_block_size (v_sb v) + sb_block_size (v_sb v) \<le> length (content (v_dev v))"
    and "and_not at (sb_block_size (v_sb v) - 1) = at div sb_block_size (v_sb v) * sb_block_size (v_sb v)"
    and "at mod sb_block_size (v_sb v) + sb_inode_size (v_sb v) \<le> sb_block_size (v_sb v)"
    and "at + sb_inode_size (v_sb v) \<le> length (content (v_dev v))"
proof -
  let ?sb = "v_sb v" let ?bs = "sb_block_size ?sb"
  have ok: "wf_sb ?sb" "sb_fits ?sb" "agino_log ?sb \<le> 32" "invar (v_dev v)" "sb_ag_count ?sb * sb_ag_blocks ?sb * ?bs \<le> length (content (v_dev v))"
    using assms(1) by (simp_all add: inodes_ok_def vol_ok_def)
  note s = ino_slot [OF ok(1-3) assms(2)]
  show b: "at div ?bs * ?bs + ?bs \<le> length (content (v_dev v))" using s(2) ok(5) by linarith
  show m: "at mod ?bs + sb_inode_size ?sb \<le> ?bs" by (rule s(1))
  have eq: "at div ?bs * ?bs + at mod ?bs = at" by simp
  show in_dev: "at + sb_inode_size ?sb \<le> length (content (v_dev v))" using b m eq by linarith
  have "0 < sb_inode_size ?sb" using wf_sbD(7) [OF ok(1)] by simp
  then have "at < 2 ^ 64" using in_dev size_bound [OF ok(4)] by linarith
  then show "and_not at (?bs - 1) = at div ?bs * ?bs"
    unfolding wf_sbD(1) [OF ok(1)] using wf_sbD(3) [OF ok(1)] by (intro and_not_mask) simp_all
qed

lemma read_inode_slot:
  assumes "inodes_ok content invar v" and "ino_to_byte (v_sb v) ino = Ok at"
  shows "read_inode ops v ino = parse_inode (v_sb v) ino (seg (content (v_dev v)) at (sb_inode_size (v_sb v)))"
proof -
  let ?sb = "v_sb v" let ?bs = "sb_block_size ?sb" and ?c = "content (v_dev v)"
  note s = slot_block [OF assms]
  have inv: "invar (v_dev v)" and bs: "0 < ?bs" using assms(1) wf_sbD(6) by (auto simp: inodes_ok_def vol_ok_def)
  have rd: "dev_read_at ops (v_dev v) (at div ?bs * ?bs) ?bs = Ok (seg ?c (at div ?bs * ?bs) ?bs)"
    using read_at [OF inv] s(1) by simp
  have off: "at - at div ?bs * ?bs = at mod ?bs" by (simp add: minus_div_mult_eq_mod)
  let ?b = "drop (at mod ?bs) (seg ?c (at div ?bs * ?bs) ?bs)"
  have "read_inode ops v ino = parse_inode ?sb ino ?b"
    using rd s bs by (simp add: read_inode_def assms(2) sub_w_def Let_def off get_from_in)
  also have "\<dots> = parse_inode ?sb ino (seg ?b 0 (sb_inode_size ?sb))"
    using s(1,3) by (intro parse_inode_prefix) simp
  also have "seg ?b 0 (sb_inode_size ?sb) = seg (seg ?c (at div ?bs * ?bs) ?bs) (at mod ?bs) (sb_inode_size ?sb)" by (simp add: seg_def)
  also have "\<dots> = seg ?c at (sb_inode_size ?sb)" using s(1,3) by (simp add: seg_seg)
  finally show ?thesis .
qed

end

section \<open>Writing an inode\<close>

lemma patch_in_block:
  assumes "i + n \<le> length c" and "k + length e \<le> n"
  shows "patch c i (patch (seg c i n) k e) = patch c (i + k) e"
proof (rule nth_equalityI)
  have l: "length (patch (seg c i n) k e) = n" using assms by simp
  show len: "length (patch c i (patch (seg c i n) k e)) = length (patch c (i + k) e)" using assms l by simp
  fix p assume "p < length (patch c i (patch (seg c i n) k e))"
  then have p: "p < length c" using assms l by simp
  show "patch c i (patch (seg c i n) k e) ! p = patch c (i + k) e ! p"
    using assms p l by (auto simp: nth_patch seg_nth add.commute)
qed

context block_device
begin

lemma write_raw_ok:
  assumes "inodes_ok content invar v" and "h_ops h = ops" and "ino_to_byte (v_sb v) ino = Ok at" and "length raw = sb_inode_size (v_sb v)"
  shows "\<exists>d e. stamp raw INODE_CRC = Ok e \<and> write_raw h ino raw v = (Ok (), v\<lparr>v_dev := d\<rparr>) \<and> invar d \<and>
    length e = sb_inode_size (v_sb v) \<and> content d = patch (content (v_dev v)) at e \<and> inodes_ok content invar (v\<lparr>v_dev := d\<rparr>)"
proof -
  let ?sb = "v_sb v" let ?bs = "sb_block_size ?sb" and ?c = "content (v_dev v)"
  let ?at = "at div ?bs * ?bs"
  have wf: "wf_sb ?sb" and inv: "invar (v_dev v)" using assms(1) by (simp_all add: inodes_ok_def vol_ok_def)
  note s = slot_block [OF assms(1,3)]
  obtain e where e: "stamp raw INODE_CRC = Ok e" "length e = sb_inode_size ?sb"
    using crc.seal_total [of INODE_CRC raw] crc.seal_length wf_sbD(7) [OF wf] assms(4) by fastforce
  have rd: "dev_read_at ops (v_dev v) ?at ?bs = Ok (seg ?c ?at ?bs)" using read_at [OF inv] s(1) by simp
  have off: "at - ?at = at mod ?bs" by (simp add: minus_div_mult_eq_mod)
  let ?buf = "patch (seg ?c ?at ?bs) (at mod ?bs) e"
  have cp: "copy_in (seg ?c ?at ?bs) (at mod ?bs) e = Ok ?buf" and l: "length ?buf = ?bs" using s(1,3) e(2) by simp_all
  obtain d where d: "dev_write_at ops (v_dev v) ?at ?buf = Ok d" "invar d" "content d = patch ?c ?at ?buf"
    using write_at [OF inv, of ?at ?buf] s(1) l by auto
  have w: "write_raw h ino raw v = (Ok (), v\<lparr>v_dev := d\<rparr>)"
    using wf_sbD(6) [OF wf] d(1)
    by (simp add: write_raw_def Let_def e(1) assms(2,3) sub_w_def s(2) off cp rd dev_write_def seq_def reading_def lift_def del: One_nat_def)
  have c: "content d = patch ?c at e"
    unfolding d(3) using patch_in_block [of ?at ?bs ?c "at mod ?bs" e] s(1,3) e(2) by simp
  have "length (content d) = length ?c" unfolding c using s(4) e(2) by simp
  then have "inodes_ok content invar (v\<lparr>v_dev := d\<rparr>)" using assms(1) d(2) by (simp add: inodes_ok_def vol_ok_def)
  then show ?thesis using e w d(2) c by blast
qed

text \<open>After a write the inode is what was written, and the others are as before.\<close>

lemma write_raw_read:
  assumes "inodes_ok content invar v" and "h_ops h = ops" and "ino_to_byte (v_sb v) ino = Ok at" and "length raw = sb_inode_size (v_sb v)"
  shows "\<exists>d e. stamp raw INODE_CRC = Ok e \<and> write_raw h ino raw v = (Ok (), v\<lparr>v_dev := d\<rparr>) \<and> inodes_ok content invar (v\<lparr>v_dev := d\<rparr>) \<and>
    read_inode ops (v\<lparr>v_dev := d\<rparr>) ino = parse_inode (v_sb v) ino e \<and>
    (\<forall>x. x \<noteq> ino \<longrightarrow> read_inode ops (v\<lparr>v_dev := d\<rparr>) x = read_inode ops v x)"
proof -
  obtain d e where d: "stamp raw INODE_CRC = Ok e" "write_raw h ino raw v = (Ok (), v\<lparr>v_dev := d\<rparr>)" "length e = sb_inode_size (v_sb v)"
    "content d = patch (content (v_dev v)) at e" "inodes_ok content invar (v\<lparr>v_dev := d\<rparr>)"
    using write_raw_ok [OF assms] by blast
  note s = slot_block [OF assms(1,3)]
  have at: "ino_to_byte (v_sb (v\<lparr>v_dev := d\<rparr>)) ino = Ok at" using assms(3) by simp
  have "read_inode ops (v\<lparr>v_dev := d\<rparr>) ino = parse_inode (v_sb v) ino e"
    using read_inode_slot [OF d(5) at] s(4) d(3) by (simp add: d(4))
  moreover have "read_inode ops (v\<lparr>v_dev := d\<rparr>) x = read_inode ops v x" if x: "x \<noteq> ino" for x
  proof (cases "ino_to_byte (v_sb v) x")
    case (Ok at')
    have ok: "wf_sb (v_sb v)" "sb_fits (v_sb v)" "agino_log (v_sb v) \<le> 32" using assms(1) by (simp_all add: inodes_ok_def vol_ok_def)
    have "at + sb_inode_size (v_sb v) \<le> at' \<or> at' + sb_inode_size (v_sb v) \<le> at" by (rule ino_slot(3) [OF ok assms(3) Ok x])
    then have "seg (content d) at' (sb_inode_size (v_sb v)) = seg (content (v_dev v)) at' (sb_inode_size (v_sb v))"
      unfolding d(4) using s(4) d(3) slot_block(4) [OF assms(1) Ok] by (intro seg_patch_other) auto
    then show ?thesis using read_inode_slot [OF d(5), of x at'] read_inode_slot [OF assms(1) Ok] Ok by simp
  qed (simp_all add: read_inode_def)
  ultimately show ?thesis using d by blast
qed

end

section \<open>Changing the mode and the owner\<close>

text \<open>The bytes that \<open>chmod\<close> and \<open>chown\<close> may change: mode, owner, change time, checksum and change count.\<close>

definition edited :: "nat set" where
  "edited = {2..<4} \<union> {8..<16} \<union> {48..<56} \<union> {100..<112}"

lemma seg_same:
  assumes "length d = length r" and "i + n \<le> length r" and "\<And>k. i \<le> k \<Longrightarrow> k < i + n \<Longrightarrow> d ! k = r ! k"
  shows "seg d i n = seg r i n"
  using assms by (intro nth_equalityI) (simp_all add: seg_nth)

lemma parse_edited:
  assumes "256 \<le> length r" and "length r = sb_inode_size sb" and "is_v5 sb" and "parse_inode sb ino r = Ok ip"
    and len: "length d = length r" and "verify d 100" and same: "\<And>k. k < length r \<Longrightarrow> k \<notin> edited \<Longrightarrow> d ! k = r ! k"
  shows "parse_inode sb ino d = Ok (ip\<lparr>i_mode := rd16 d 2, i_uid := rd32 d 8, i_gid := rd32 d 12,
    i_ctime := ts_of_raw (i_flags2 ip AND DIFLAG2_BIGTIME \<noteq> 0) (rd64 d 48)\<rparr>)"
proof -
  have n: "256 \<le> length d" "length d = sb_inode_size sb" using assms(1,2) len by simp_all
  obtain fs where chk: "rd16 r 0 = INODE_MAGIC" "r ! 4 = 3" "rd64 r 152 = ino" and forks: "inode_forks 176 r = Ok fs" and ip: "ip = v3_view ino r fs"
    using assms(4) by (auto simp: parse_inode_v3 [OF assms(1-3)] res_simps split: if_splits)
  have f: "seg d i k = seg r i k" if "i + k \<le> length r" "{i..<i + k} \<inter> edited = {}" for i k
    by (rule seg_same [OF len that(1)]) (use that same in \<open>auto simp: disjoint_iff\<close>)
  have e: "seg d 0 2 = seg r 0 2" "seg d 152 8 = seg r 152 8" "seg d 120 8 = seg r 120 8" "seg d 16 4 = seg r 16 4" "seg d 20 2 = seg r 20 2"
    "seg d 22 2 = seg r 22 2" "seg d 32 8 = seg r 32 8" "seg d 40 8 = seg r 40 8" "seg d 144 8 = seg r 144 8" "seg d 56 8 = seg r 56 8"
    "seg d 64 8 = seg r 64 8" "seg d 24 8 = seg r 24 8" "seg d 76 4 = seg r 76 4" "seg d 80 2 = seg r 80 2" "seg d 90 2 = seg r 90 2"
    "seg d 92 4 = seg r 92 4"
    by (rule f; use assms(1) in \<open>auto simp: edited_def\<close>)+
  have b: "d ! 4 = r ! 4" "d ! 5 = r ! 5" "d ! 82 = r ! 82" "d ! 83 = r ! 83"
    using assms(1) by (auto intro!: same simp: edited_def)
  have g: "seg d i k = seg r i k" if "176 \<le> i" "i + k \<le> length r" for i k
    using that by (intro f) (auto simp: edited_def)
  have "inode_forks 176 d = inode_forks 176 r"
  proof -
    let ?n = "unat (r ! 82) * 8"
    have a: "seg d 176 (length r - 176) = seg r 176 (length r - 176)" using g [of 176 "length r - 176"] assms(1) by simp
    have "seg d 176 ?n = seg r 176 ?n" "seg d (176 + ?n) (length r - (176 + ?n)) = seg r (176 + ?n) (length r - (176 + ?n))"
      if "\<not> length r - 176 \<le> ?n"
      using that by (auto intro!: g)
    then show ?thesis
      unfolding inode_forks_v3 [OF assms(1)] inode_forks_v3 [OF n(1)] Let_def b len a by (intro and_then_cong if_cong refl) simp_all
  qed
  then have "inode_forks 176 d = Ok fs" using forks by simp
  moreover have "v3_view ino d fs = ip\<lparr>i_mode := rd16 d 2, i_uid := rd32 d 8, i_gid := rd32 d 12,
    i_ctime := ts_of_raw (i_flags2 ip AND DIFLAG2_BIGTIME \<noteq> 0) (rd64 d 48)\<rparr>"
    unfolding ip by (cases fs) (simp add: v3_view_def Let_def e)
  ultimately show ?thesis using chk assms(6) by (simp add: parse_inode_v3 [OF n assms(3)] e b)
qed

lemma touch_puts:
  assumes "256 \<le> length r" and "ts_raw t (rd64 r 120 AND DIFLAG2_BIGTIME \<noteq> 0) = Ok w"
  shows "touch t False r = puts [(48, u64_bytes w), (104, u64_bytes ((rd64 r 104 + 1) mod 2 ^ 64))] r"
proof -
  let ?r = "patch r 48 (u64_bytes w)"
  have l: "48 + length (u64_bytes w) \<le> length r" "length ?r = length r" using assms(1) by simp_all
  have "seg ?r 104 8 = seg r 104 8" by (rule seg_patch_other [OF l(1)]) (use assms(1) in simp_all)
  then show ?thesis
    using assms l by (simp add: touch_def raw_bigtime_def raw_flags2_def put64_def)
qed

lemma touched:
  assumes "256 \<le> length r" and "touch t False r = Ok c" and "ts_raw t (rd64 r 120 AND DIFLAG2_BIGTIME \<noteq> 0) = Ok w" and "stamp c INODE_CRC = Ok e"
  shows "length e = length r" and "verify e INODE_CRC" and "w < 2 ^ 64 \<Longrightarrow> rd64 e 48 = w"
    and "i + n \<le> length r \<Longrightarrow> i + n \<le> 48 \<or> 56 \<le> i \<Longrightarrow> i + n \<le> 100 \<or> 112 \<le> i \<Longrightarrow> seg e i n = seg r i n"
proof -
  let ?ws = "[(48, u64_bytes w), (104, u64_bytes ((rd64 r 104 + 1) mod 2 ^ 64))]"
  have p: "puts ?ws r = Ok c" using touch_puts [OF assms(1,3)] assms(2) by simp
  show "length e = length r" using puts_length [OF p] crc.seal_length [OF assms(4)] by simp
  show "verify e INODE_CRC" by (rule crc.seal_check [OF assms(4)])
  have "seg e 48 8 = u64_bytes w" by (rule crc.seal_field [OF p assms(4)]) (use assms(1) in simp_all)
  then show "rd64 e 48 = w" if "w < 2 ^ 64" using that by (simp add: be_widths)
  assume n: "i + n \<le> length r" "i + n \<le> 48 \<or> 56 \<le> i" "i + n \<le> 100 \<or> 112 \<le> i"
  then show "seg e i n = seg r i n" by (intro crc.seal_field [OF p assms(4) n(1)]) auto
qed

context block_device
begin

lemma read_raw_ok:
  assumes "inodes_ok content invar v" and "h_ops h = ops" and "is_v5 (v_sb v)" and "read_inode ops v ino = Ok ip"
  shows "\<exists>at raw. ino_to_byte (v_sb v) ino = Ok at \<and> read_raw h ino v = (Ok raw, v) \<and> length raw = sb_inode_size (v_sb v) \<and>
    256 \<le> length raw \<and> parse_inode (v_sb v) ino raw = Ok ip \<and> i_flags2 ip = rd64 raw 120"
proof -
  let ?sb = "v_sb v" let ?w = "sb_inode_size ?sb"
  obtain at where at: "ino_to_byte ?sb ino = Ok at" using assms(4) by (auto simp: read_inode_def res_simps)
  let ?raw = "seg (content (v_dev v)) at ?w"
  note s = slot_block [OF assms(1) at]
  have wf: "wf_sb ?sb" and inv: "invar (v_dev v)" using assms(1) by (simp_all add: inodes_ok_def vol_ok_def)
  have l: "length ?raw = ?w" "256 \<le> length ?raw" using s(4) wf_sbD(7) [OF wf] by simp_all
  have p: "parse_inode ?sb ino ?raw = Ok ip" using read_inode_slot [OF assms(1) at] assms(4) by simp
  then have chk: "rd16 ?raw 0 = INODE_MAGIC" "verify ?raw 100" "rd64 ?raw 152 = ino" "i_flags2 ip = rd64 ?raw 120"
    by (auto simp: parse_inode_v3 [OF l(2,1) assms(3)] res_simps v3_view_def Let_def split: if_splits)
  have "dev_read_at ops (v_dev v) at ?w = Ok ?raw" using read_at [OF inv] s(4) by simp
  then have "read_raw h ino v = (Ok ?raw, v)"
    using chk l by (simp add: read_raw_def reading_def at assms(2))
  then show ?thesis using at l p chk(4) by blast
qed

text \<open>An edit of the mode and the owner, with the time of the change.\<close>

lemma edit_raw_ok:
  assumes "inodes_ok content invar v" and "h_ops h = ops" and "is_v5 (v_sb v)" and "read_inode ops v ino = Ok ip"
    and "read_raw h ino v = (Ok raw, v)"
    and "f raw = Ok new" and "length new = length raw" and "\<And>i n. i + n \<le> length raw \<Longrightarrow> i + n \<le> 2 \<or> 4 \<le> i \<Longrightarrow> i + n \<le> 8 \<or> 16 \<le> i \<Longrightarrow> seg new i n = seg raw i n"
    and "ts_fits (i_flags2 ip AND DIFLAG2_BIGTIME \<noteq> 0) (now h v)"
  shows "\<exists>d. edit_raw h ino f v = (Ok (), v\<lparr>v_dev := d\<rparr>) \<and> inodes_ok content invar (v\<lparr>v_dev := d\<rparr>) \<and>
    read_inode ops (v\<lparr>v_dev := d\<rparr>) ino = Ok (ip\<lparr>i_mode := rd16 new 2, i_uid := rd32 new 8, i_gid := rd32 new 12, i_ctime := now h v\<rparr>) \<and>
    (\<forall>x. x \<noteq> ino \<longrightarrow> read_inode ops (v\<lparr>v_dev := d\<rparr>) x = read_inode ops v x)"
proof -
  let ?big = "i_flags2 ip AND DIFLAG2_BIGTIME \<noteq> 0"
  obtain at where r: "ino_to_byte (v_sb v) ino = Ok at" "length raw = sb_inode_size (v_sb v)" "256 \<le> length raw"
    "parse_inode (v_sb v) ino raw = Ok ip" "i_flags2 ip = rd64 raw 120"
    using read_raw_ok [OF assms(1-4)] assms(5) by auto
  obtain w where w: "ts_raw (now h v) ?big = Ok w" "w < 2 ^ 64" "ts_of_raw ?big w = now h v"
    using assms(9) ts_raw_small [of "now h v"] ts_raw_big [of "now h v"] by (cases ?big) auto
  have n: "256 \<le> length new" using r(3) assms(7) by simp
  have "seg new 120 8 = seg raw 120 8" using assms(8) [of 120 8] r(3) by simp
  then have tw: "ts_raw (now h v) (rd64 new 120 AND DIFLAG2_BIGTIME \<noteq> 0) = Ok w" using w(1) by (simp add: r(5))
  obtain c where c: "touch (now h v) False new = Ok c"
    unfolding touch_puts [OF n tw] using puts_total [of new "[(48, u64_bytes w), (104, u64_bytes ((rd64 new 104 + 1) mod 2 ^ 64))]"] n by auto
  have len: "length c = sb_inode_size (v_sb v)" using c r(2) assms(7) puts_length unfolding touch_puts [OF n tw] by metis
  obtain d e where d: "stamp c INODE_CRC = Ok e" "write_raw h ino c v = (Ok (), v\<lparr>v_dev := d\<rparr>)" "inodes_ok content invar (v\<lparr>v_dev := d\<rparr>)"
    "read_inode ops (v\<lparr>v_dev := d\<rparr>) ino = parse_inode (v_sb v) ino e"
    "\<forall>x. x \<noteq> ino \<longrightarrow> read_inode ops (v\<lparr>v_dev := d\<rparr>) x = read_inode ops v x"
    using write_raw_read [OF assms(1,2) r(1) len] by blast
  note t = touched [OF n c tw d(1)]
  have same: "e ! k = raw ! k" if "k < length raw" "k \<notin> edited" for k
  proof -
    have "seg e k 1 = seg new k 1" using that assms(7) by (intro t(4)) (auto simp: edited_def)
    also have "\<dots> = seg raw k 1" using that by (intro assms(8)) (auto simp: edited_def)
    finally show ?thesis using that t(1) assms(7) by (simp add: nth_seg_1)
  qed
  have f: "seg e 2 2 = seg new 2 2" "seg e 8 4 = seg new 8 4" "seg e 12 4 = seg new 12 4" using n by (auto intro!: t(4))
  have "parse_inode (v_sb v) ino e = Ok (ip\<lparr>i_mode := rd16 new 2, i_uid := rd32 new 8, i_gid := rd32 new 12, i_ctime := now h v\<rparr>)"
    using parse_edited [OF r(3,2) assms(3) r(4), of e] t(1-3) assms(7) same w(2,3) by (simp add: f)
  moreover have "edit_raw h ino f v = (Ok (), v\<lparr>v_dev := d\<rparr>)"
    using assms(5,6) c d(2) by (simp add: edit_raw_def seq_eq)
  ultimately show ?thesis using d(3-5) by auto
qed

end

section \<open>Properties\<close>

lemma mode_less: "(m AND IFMT) OR (p AND 0xfff) < (2 :: nat) ^ 16"
proof -
  let ?x = "(m AND IFMT) OR (p AND 0xfff)"
  have "take_bit 16 ?x = ?x"
    using bit_less_nat [of "IFMT" _ 16] bit_less_nat [of "0xfff" _ 16]
    by (auto simp: bit_eq_iff bit_take_bit_iff bit_and_iff bit_or_iff simp del: and_numerals or_numerals)
  then show ?thesis using take_bit_nat_eq_self_iff [of 16 ?x] by metis
qed

lemma started_writer: "v_w v \<noteq> None \<Longrightarrow> writer h v = (Ok (), v)"
  by (auto simp: writer_def)

lemma patch_owner: "i + length xs + length ys \<le> length r \<Longrightarrow> patch (patch r i xs) (i + length xs) ys = patch r i (xs @ ys)"
  by (simp add: patch_def ac_simps)

text \<open>
  C16. Changing the mode or the owner of a path is seen by the next read and by nothing else: on a
  version 5 volume whose writer has started, where the path leads to an inode, the mode keeps its type and
  takes the twelve permission bits, the owner and group are the ones given, the change time is
  the present one, every other field, the contents and attributes stay, and so does every
  other inode of the filesystem.
\<close>

theorem change_inode_read_back:
  assumes "h_ops h = mem_ops" and "inodes_ok mem_data mem_inv v" and "is_v5 (v_sb v)" and "v_w v \<noteq> None"
    and "resolve mem_ops v path True = Ok ino" and "read_inode mem_ops v ino = Ok ip"
    and "ts_fits (i_flags2 ip AND DIFLAG2_BIGTIME \<noteq> 0) (now h v)" and "uid < 2 ^ 32" and "gid < 2 ^ 32"
  shows "(\<exists>v'. chmod h path p v = (Ok (), v') \<and>
      read_inode mem_ops v' ino = Ok (ip\<lparr>i_mode := (i_mode ip AND IFMT) OR (p AND 0xfff), i_ctime := now h v\<rparr>) \<and>
      (\<forall>x. x \<noteq> ino \<longrightarrow> read_inode mem_ops v' x = read_inode mem_ops v x)) \<and>
    (\<exists>v'. chown h path uid gid v = (Ok (), v') \<and>
      read_inode mem_ops v' ino = Ok (ip\<lparr>i_uid := uid, i_gid := gid, i_ctime := now h v\<rparr>) \<and>
      (\<forall>x. x \<noteq> ino \<longrightarrow> read_inode mem_ops v' x = read_inode mem_ops v x))"
proof
  obtain raw where r: "read_raw h ino v = (Ok raw, v)" "length raw = sb_inode_size (v_sb v)" "256 \<le> length raw"
    "parse_inode (v_sb v) ino raw = Ok ip"
    using mem.read_raw_ok [OF assms(2,1,3,6)] by blast
  have ip: "i_mode ip = rd16 raw 2" "i_uid ip = rd32 raw 8" "i_gid ip = rd32 raw 12"
    using r(4) by (auto simp: parse_inode_v3 [OF r(3,2) assms(3)] res_simps v3_view_def Let_def split: if_splits prod.splits)
  let ?m = "(i_mode ip AND IFMT) OR (p AND 0xfff)" let ?r = "patch raw 2 (u16_bytes ?m)"
  have l: "2 + length (u16_bytes ?m) \<le> length raw" using r(3) by simp
  have m: "?m < 2 ^ 16" by (rule mode_less)
  let ?f = "\<lambda>raw. and_then (raw_mode raw) (\<lambda>m. set_mode ((m AND IFMT) OR (p AND 0xfff)) raw)"
  have f: "?f raw = Ok ?r" using r(3) by (simp add: raw_mode_def set_mode_def put16_def ip)
  have same: "seg ?r i n = seg raw i n" if "i + n \<le> length raw" "i + n \<le> 2 \<or> 4 \<le> i" for i n
    using that by (intro seg_patch_other [OF l]) auto
  have "rd16 ?r 2 = ?m" using l m by (simp add: be_widths)
  moreover have "rd32 ?r 8 = i_uid ip" "rd32 ?r 12 = i_gid ip" using same r(3) by (simp_all add: ip)
  ultimately obtain d where d: "edit_raw h ino ?f v = (Ok (), v\<lparr>v_dev := d\<rparr>)"
    "read_inode mem_ops (v\<lparr>v_dev := d\<rparr>) ino = Ok (ip\<lparr>i_mode := ?m, i_ctime := now h v\<rparr>)"
    "\<forall>x. x \<noteq> ino \<longrightarrow> read_inode mem_ops (v\<lparr>v_dev := d\<rparr>) x = read_inode mem_ops v x"
    using mem.edit_raw_ok [where f = ?f and new = ?r, OF assms(2,1,3,6) r(1) f _ _ assms(7)] same l by auto
  then show "\<exists>v'. chmod h path p v = (Ok (), v') \<and> read_inode mem_ops v' ino = Ok (ip\<lparr>i_mode := ?m, i_ctime := now h v\<rparr>) \<and>
      (\<forall>x. x \<noteq> ino \<longrightarrow> read_inode mem_ops v' x = read_inode mem_ops v x)"
    using started_writer [OF assms(4), of h] assms(1,5) by (simp add: chmod_def seq_def reading_def)
  show "\<exists>v'. chown h path uid gid v = (Ok (), v') \<and> read_inode mem_ops v' ino = Ok (ip\<lparr>i_uid := uid, i_gid := gid, i_ctime := now h v\<rparr>) \<and>
      (\<forall>x. x \<noteq> ino \<longrightarrow> read_inode mem_ops v' x = read_inode mem_ops v x)"
  proof -
    let ?r = "patch raw 8 (u32_bytes uid @ u32_bytes gid)"
    have l: "8 + length (u32_bytes uid @ u32_bytes gid) \<le> length raw" using r(3) by simp
    have f: "set_owner uid gid raw = Ok ?r"
      using r(3) patch_owner [of 8 "u32_bytes uid" "u32_bytes gid" raw] by (simp add: set_owner_def put32_def)
    have same: "seg ?r i n = seg raw i n" if "i + n \<le> length raw" "i + n \<le> 8 \<or> 16 \<le> i" for i n
      using that by (intro seg_patch_other [OF l]) auto
    have "rd32 ?r 8 = uid" "rd32 ?r 12 = gid" "rd16 ?r 2 = i_mode ip"
      using seg_patch_inside [OF l, of 8 4] seg_patch_inside [OF l, of 12 4] same [of 2 2] r(3) assms(8,9)
      by (simp_all add: ip seg_append_left seg_append_right be_widths)
    then obtain d where d: "edit_raw h ino (set_owner uid gid) v = (Ok (), v\<lparr>v_dev := d\<rparr>)"
      "read_inode mem_ops (v\<lparr>v_dev := d\<rparr>) ino = Ok (ip\<lparr>i_uid := uid, i_gid := gid, i_ctime := now h v\<rparr>)"
      "\<forall>x. x \<noteq> ino \<longrightarrow> read_inode mem_ops (v\<lparr>v_dev := d\<rparr>) x = read_inode mem_ops v x"
      using mem.edit_raw_ok [where f = "set_owner uid gid" and new = ?r, OF assms(2,1,3,6) r(1) f _ _ assms(7)] same l by auto
    then show ?thesis using started_writer [OF assms(4), of h] assms(1,5) by (simp add: chown_def seq_def reading_def)
  qed
qed

theorem change_inode_read_back_witness:
  "\<exists>d v' ip. chmod \<lparr>h_ops = mem_ops, h_clock = (\<lambda>_. None)\<rparr> [0x2f] 0x180 (demo_vol\<lparr>v_w := Some (writer_new None), v_dev := d\<rparr>) = (Ok (), v') \<and>
     read_inode mem_ops v' 128 = Ok ip \<and> i_mode ip = 0x4180"
proof -
  let ?h = "\<lparr>h_ops = mem_ops, h_clock = (\<lambda>_. None)\<rparr> :: mem_device host" and ?v = "demo_vol\<lparr>v_w := Some (writer_new None)\<rparr>"
  let ?t = "\<lparr>ts_secs = 0, ts_nsecs = 0\<rparr>" and ?sb = demo_sb
  let ?ip = "new_inode ?sb ?t 7 128 0x41ed 0 0 2"
  have sb: "v_sb ?v = ?sb" by (simp add: demo_vol_def)
  have v5: "is_v5 ?sb" and fits: "ts_fits (has_bigtime ?sb) ?t" by (simp_all add: is_v5_def ts_fits_def has_bigtime_def)
  obtain r e where r: "length r = sb_inode_size ?sb" "stamp r INODE_CRC = Ok e" "parse_inode ?sb 128 e = Ok ?ip"
    using new_raw_reads [OF demo_sb_wf(1) v5 fits, of 7 128 "0x41ed" 0 0 2] crc.seal_length by fastforce
  have ok: "inodes_ok mem_data mem_inv ?v" using demo_vol_ok demo_sb_wf by (simp add: inodes_ok_def vol_ok_def agino_log_def demo_vol_def)
  have "ino_to_byte (v_sb ?v) 128 = Ok 65536"
    unfolding sb by (simp add: ino_to_byte_def agino_log_def add_w_def mul_w_def shl_w_def Let_def)
  then obtain d where d: "inodes_ok mem_data mem_inv (?v\<lparr>v_dev := d\<rparr>)" "read_inode mem_ops (?v\<lparr>v_dev := d\<rparr>) 128 = Ok ?ip"
    using mem.write_raw_read [OF ok, of ?h 128 65536 r] r unfolding sb by auto
  let ?w = "?v\<lparr>v_dev := d\<rparr>"
  have "resolve mem_ops ?w [0x2f] True = Ok 128" by (simp add: resolve_def split_path_comps_def demo_vol_def demo_sb_def)
  moreover have "now ?h ?w = ?t" by (simp add: now_def demo_vol_def)
  moreover have "ts_fits (i_flags2 ?ip AND DIFLAG2_BIGTIME \<noteq> 0) ?t" using fits by (simp add: new_inode_def ts_fits_def)
  ultimately obtain v' where "chmod ?h [0x2f] 0x180 ?w = (Ok (), v')"
      "read_inode mem_ops v' 128 = Ok (?ip\<lparr>i_mode := (i_mode ?ip AND IFMT) OR (0x180 AND 0xfff), i_ctime := ?t\<rparr>)"
    using change_inode_read_back [of ?h ?w "[0x2f]" 128 ?ip 0 0 "0x180"] d v5 sb by auto
  then show ?thesis by (intro exI [of _ d] exI [of _ v'] exI) (auto simp: new_inode_def)
qed

end
