(* ===== verification/WriteLink.thy ===== *)
theory WriteLink
  imports WriteData
begin

text \<open>
  Symbolic links that do not fit in the inode. \<open>symlink\<close> writes the target in parts, one block
  each with a header of its own; reading the link through the same blocks gives the target back.
\<close>

section \<open>One part\<close>

abbreviation payload :: "superblock \<Rightarrow> nat" where
  "payload sb \<equiv> sb_block_size sb - SYMLINK_HDR"

definition part_of :: "superblock \<Rightarrow> byte list \<Rightarrow> nat \<Rightarrow> byte list" where
  "part_of sb target i = take (payload sb) (drop (i * payload sb) target)"

text \<open>What the reader asks of the block that holds part \<open>i\<close>.\<close>

definition link_block_ok :: "superblock \<Rightarrow> nat \<Rightarrow> byte list \<Rightarrow> nat \<Rightarrow> byte list \<Rightarrow> bool" where
  "link_block_ok sb ino target i buf \<longleftrightarrow>
     length buf = sb_block_size sb \<and> verify buf 12 \<and> rd32 buf 0 = SYMLINK_MAGIC \<and> rd64 buf 32 = ino \<and>
     rd32 buf 4 = i * payload sb \<and> rd32 buf 8 = length (part_of sb target i) \<and>
     seg buf SYMLINK_HDR (length (part_of sb target i)) = part_of sb target i"

lemma link_part_ok:
  assumes "wf_sb sb" and "i * payload sb < 2 ^ 32" and "ino < 2 ^ 64"
  shows "\<exists>buf. link_part sb ino at (i * payload sb) (part_of sb target i) = Ok buf \<and> link_block_ok sb ino target i buf"
proof -
  let ?bs = "sb_block_size sb" and ?off = "i * payload sb" and ?part = "part_of sb target i"
  have bs: "512 \<le> ?bs" "?bs \<le> 65536" using wf_sbD [OF assms(1)] by simp_all
  have part: "length ?part \<le> ?bs - SYMLINK_HDR" by (simp add: part_of_def)
  define ws where "ws = [(0, u32_bytes SYMLINK_MAGIC), (4, u32_bytes ?off), (8, u32_bytes (length ?part)), (16, sb_meta_uuid sb),
    (32, u64_bytes ino), (40, u64_bytes (drop_bit 9 at)), (SYMLINK_HDR, ?part)]"
  obtain r where r: "puts ws (replicate ?bs 0) = Ok r"
    using puts_total [of "replicate ?bs 0" ws] bs part wf_sbD(18) [OF assms(1)] by (auto simp: ws_def)
  obtain d where d: "stamp r 12 = Ok d" using crc.seal_total [of 12 r] puts_length [OF r] bs by auto
  have len: "length d = ?bs" using puts_length [OF r] crc.seal_length [OF d] by simp
  have f: "seg d 0 4 = u32_bytes SYMLINK_MAGIC" "seg d 4 4 = u32_bytes ?off" "seg d 8 4 = u32_bytes (length ?part)"
    "seg d 32 8 = u64_bytes ino" "seg d SYMLINK_HDR (length ?part) = ?part"
    by (rule crc.seal_field [OF r d]; use bs part wf_sbD(18) [OF assms(1)] in \<open>simp add: ws_def\<close>)+
  have "length ?part < 2 ^ 32" using part bs by simp
  then have "link_block_ok sb ino target i d"
    using f len crc.seal_check [OF d] assms(2,3) by (simp add: link_block_ok_def be_widths)
  moreover have "link_part sb ino at ?off ?part = Ok d" using r d by (simp add: link_part_def ws_def)
  ultimately show ?thesis by blast
qed

section \<open>All parts\<close>

definition link_exts :: "nat \<Rightarrow> nat list \<Rightarrow> extent list" where
  "link_exts k bs = map (\<lambda>(i, b). \<lparr>x_offset = i, x_block = b, x_count = 1, x_unwritten = False\<rparr>) (enumerate k bs)"

lemma link_exts_simps [simp]:
  "link_exts k [] = []"
  "link_exts k (b # bs) = \<lparr>x_offset = k, x_block = b, x_count = 1, x_unwritten = False\<rparr> # link_exts (Suc k) bs"
  by (simp_all add: link_exts_def)

lemma blocks_apart:
  assumes "wf_sb sb" and "in_ag sb b 1" and "in_ag sb b' 1" and "b \<noteq> b'"
  shows "fsb_addr sb b + sb_block_size sb \<le> fsb_addr sb b' \<or> fsb_addr sb b' + sb_block_size sb \<le> fsb_addr sb b"
proof -
  let ?m = "2 ^ sb_agblk_log sb" and ?n = "sb_ag_blocks sb"
  let ?lin = "\<lambda>b. b div ?m * ?n + b mod ?m"
  have lt: "b mod ?m < ?n" "b' mod ?m < ?n" using assms(2,3) by (simp_all add: in_ag_def)
  have "?lin b \<noteq> ?lin b'" using linear_block_inj [OF _ lt] assms(4) div_mult_mod_eq by metis
  then show ?thesis unfolding fsb_addr_def by (rule linear_cells)
qed

lemma take_part: "take (i * payload sb) target @ part_of sb target i = take (Suc i * payload sb) target"
  by (simp add: part_of_def take_add [symmetric] add.commute)

context block_device
begin

lemma write_part_ok:
  assumes "vol_ok content invar v" and "h_ops h = ops" and "in_ag (v_sb v) b 1" and "x_block e = b"
    and "i * payload (v_sb v) \<le> length target" and "length target < 2 ^ 32" and "ino < 2 ^ 64"
  shows "\<exists>d buf. write_link_part h (v_sb v) ino target (i, e) v = (Ok (), v\<lparr>v_dev := d\<rparr>) \<and> invar d \<and>
    content d = patch (content (v_dev v)) (fsb_addr (v_sb v) b) buf \<and> link_block_ok (v_sb v) ino target i buf \<and>
    fsb_addr (v_sb v) b + sb_block_size (v_sb v) \<le> length (content (v_dev v))"
proof -
  let ?sb = "v_sb v" let ?off = "i * payload ?sb"
  have wf: "wf_sb ?sb" "sb_fits ?sb" and inv: "invar (v_dev v)" using assms(1) by (simp_all add: vol_ok_def)
  obtain buf where buf: "link_part ?sb ino (fsb_addr ?sb b) ?off (part_of ?sb target i) = Ok buf" "link_block_ok ?sb ino target i buf"
    using link_part_ok [OF wf(1), of i ino] assms(5-7) by fastforce
  have fit: "fsb_addr ?sb b + sb_block_size ?sb \<le> length (content (v_dev v))"
    using read_blocks_ok(2) [OF assms(1,3)] by simp
  then obtain d where d: "dev_write_at ops (v_dev v) (fsb_addr ?sb b) buf = Ok d" "invar d" "content d = patch (content (v_dev v)) (fsb_addr ?sb b) buf"
    using write_at [OF inv, of "fsb_addr ?sb b" buf] buf(2) by (auto simp: link_block_ok_def)
  let ?n = "min (?off + payload ?sb) (length target) - ?off"
  have "get target ?off ?n = Ok (part_of ?sb target i)"
    using assms(5) by (auto simp: get_def seg_def part_of_def min_def)
  moreover have "sub_w (min (?off + payload ?sb) (length target)) ?off = Ok ?n" using assms(5) by (simp add: sub_w_def)
  ultimately have "write_link_part h ?sb ino target (i, e) v = (Ok (), v\<lparr>v_dev := d\<rparr>)"
    using buf(1) d(1) assms(2,4) fsb_to_byte_in_ag(1) [OF wf assms(3)]
    by (simp add: write_link_part_def Let_def dev_write_def)
  then show ?thesis using d(2,3) buf(2) fit by blast
qed

lemma write_parts_ok:
  assumes "vol_ok content invar v" and "h_ops h = ops" and "distinct bs" and "\<forall>b \<in> set bs. in_ag (v_sb v) b 1"
    and "(k + length bs) * payload (v_sb v) < length target + payload (v_sb v)" and "length target < 2 ^ 32" and "ino < 2 ^ 64"
  shows "\<exists>d. for_each (write_link_part h (v_sb v) ino target) (enumerate k (link_exts k bs)) v = (Ok (), v\<lparr>v_dev := d\<rparr>) \<and>
    invar d \<and> length (content d) = length (content (v_dev v)) \<and>
    (\<forall>j < length bs. link_block_ok (v_sb v) ino target (k + j) (seg (content d) (fsb_addr (v_sb v) (bs ! j)) (sb_block_size (v_sb v)))) \<and>
    (\<forall>a n. a + n \<le> length (content d) \<longrightarrow> (\<forall>b \<in> set bs. a + n \<le> fsb_addr (v_sb v) b \<or> fsb_addr (v_sb v) b + sb_block_size (v_sb v) \<le> a) \<longrightarrow>
       seg (content d) a n = seg (content (v_dev v)) a n)"
  using assms
proof (induction bs arbitrary: v k)
  case Nil
  then show ?case by (intro exI [of _ "v_dev v"]) (simp add: ret_def vol_ok_def)
next
  case (Cons b bs)
  let ?sb = "v_sb v" let ?bs = "sb_block_size ?sb"
  have "k * payload ?sb \<le> (k + length bs) * payload ?sb" by (intro mult_le_mono1) simp
  moreover have "(k + length bs) * payload ?sb < length target" using Cons.prems(5) by simp
  ultimately have off: "k * payload ?sb \<le> length target" by linarith
  let ?e = "\<lparr>x_offset = k, x_block = b, x_count = Suc 0, x_unwritten = False\<rparr>"
  obtain d buf where d: "write_link_part h ?sb ino target (k, ?e) v = (Ok (), v\<lparr>v_dev := d\<rparr>)" "invar d"
    "content d = patch (content (v_dev v)) (fsb_addr ?sb b) buf" "link_block_ok ?sb ino target k buf"
    "fsb_addr ?sb b + ?bs \<le> length (content (v_dev v))"
    using write_part_ok [OF Cons.prems(1,2) _ _ off Cons.prems(6,7), of b ?e] Cons.prems(4) by auto
  have buf: "length buf = ?bs" using d(4) by (simp add: link_block_ok_def)
  have len: "length (content d) = length (content (v_dev v))" using d(3,5) buf by simp
  let ?v = "v\<lparr>v_dev := d\<rparr>"
  have ok: "vol_ok content invar ?v" using Cons.prems(1) d(2) len by (simp add: vol_ok_def)
  obtain d' where d': "for_each (write_link_part h ?sb ino target) (enumerate (Suc k) (link_exts (Suc k) bs)) ?v = (Ok (), v\<lparr>v_dev := d'\<rparr>)"
    "invar d'" "length (content d') = length (content d)"
    "\<forall>j < length bs. link_block_ok ?sb ino target (Suc k + j) (seg (content d') (fsb_addr ?sb (bs ! j)) ?bs)"
    "\<forall>a n. a + n \<le> length (content d') \<longrightarrow> (\<forall>b \<in> set bs. a + n \<le> fsb_addr ?sb b \<or> fsb_addr ?sb b + ?bs \<le> a) \<longrightarrow>
       seg (content d') a n = seg (content d) a n"
    using Cons.IH [OF ok Cons.prems(2), of "Suc k"] Cons.prems(3-7) by auto
  have "for_each (write_link_part h ?sb ino target) (enumerate k (link_exts k (b # bs))) v = (Ok (), v\<lparr>v_dev := d'\<rparr>)"
    using d'(1) by (simp add: seq_eq(1) [where m = "write_link_part h ?sb ino target (k, ?e)", OF d(1)])
  moreover have "seg (content d') (fsb_addr ?sb b) ?bs = buf"
  proof -
    have "\<forall>b' \<in> set bs. fsb_addr ?sb b + ?bs \<le> fsb_addr ?sb b' \<or> fsb_addr ?sb b' + ?bs \<le> fsb_addr ?sb b"
      using Cons.prems(1,3,4) blocks_apart [of ?sb b] by (auto simp: vol_ok_def)
    then have "seg (content d') (fsb_addr ?sb b) ?bs = seg (content d) (fsb_addr ?sb b) ?bs" using d'(3,5) d(5) len by simp
    then show ?thesis using d(3,5) buf by simp
  qed
  then have "link_block_ok ?sb ino target (k + j) (seg (content d') (fsb_addr ?sb ((b # bs) ! j)) ?bs)" if "j < length (b # bs)" for j
    using that d(4) d'(4) by (cases j) simp_all
  moreover have "seg (content d') a n = seg (content (v_dev v)) a n"
    if "a + n \<le> length (content d')" "\<forall>b' \<in> set (b # bs). a + n \<le> fsb_addr ?sb b' \<or> fsb_addr ?sb b' + ?bs \<le> a" for a n
  proof -
    have "seg (content d) a n = seg (content (v_dev v)) a n"
      unfolding d(3) using that d(5) d'(3) len buf by (intro seg_patch_other) auto
    then show ?thesis using that d'(5) by simp
  qed
  ultimately show ?case using d'(2,3) len by (intro exI [of _ d']) simp
qed

end

section \<open>Reading them back\<close>

lemma link_exts_fields:
  assumes "e \<in> set (link_exts k bs)"
  shows "x_count e = 1" and "\<not> x_unwritten e" and "x_block e \<in> set bs" and "k \<le> x_offset e" and "x_offset e < k + length bs"
  using assms by (induction bs arbitrary: k) fastforce+

lemma length_link_exts [simp]: "length (link_exts k bs) = length bs"
  by (simp add: link_exts_def)

lemma link_exts_sorted: "sorted_wrt before (link_exts k bs)" "sorted (map x_offset (link_exts k bs))"
proof (induction bs arbitrary: k)
  case (Cons b bs)
  {
    case 1
    show ?case using Cons.IH(1) [of "Suc k"] link_exts_fields(4) [of _ "Suc k" bs] by (auto simp: before_def x_end_def)
  next
    case 2
    show ?case using Cons.IH(2) [of "Suc k"] link_exts_fields(4) [of _ "Suc k" bs] by force
  }
qed simp_all

lemma link_exts_finish: "finish (link_exts k bs) = Ok (link_exts k bs)"
proof -
  have "filter (\<lambda>e. x_count e > 0) (link_exts k bs) = link_exts k bs"
    using link_exts_fields(1) by (intro filter_True) fastforce
  then show ?thesis using link_exts_sorted by (simp add: finish_eq sort_key_id_if_sorted)
qed

lemma map_res_eq: "(\<And>x. x \<in> set xs \<Longrightarrow> f x = g x) \<Longrightarrow> map_res f xs = map_res g xs"
  by (induction xs) simp_all

lemma link_fork:
  assumes "i_format ip = Extents" and "i_nextents ip = length bs" and "i_data_fork ip = concat (map encode (link_exts 0 bs)) @ pad"
    and "\<forall>b \<in> set bs. b < 2 ^ 52" and "length bs < 2 ^ 54"
  shows "extents ops v ip False = Ok (link_exts 0 bs)"
proof -
  have ok: "\<forall>e \<in> set (link_exts 0 bs). x_ok e"
    using link_exts_fields [of _ 0 bs] assms(4,5) by (fastforce simp: x_ok_def)
  have "inline_extents (i_data_fork ip) (length bs) = Ok (link_exts 0 bs)"
  proof -
    have l: "length (concat (map encode (link_exts 0 bs))) = length bs * 16"
      using extent_codec.length_enc_all [of "link_exts 0 bs"] by simp
    have "map_res (\<lambda>i. and_then (get_from (i_data_fork ip) (i * 16)) decode) [0..<length bs] =
        map_res (\<lambda>i. decode (drop (i * 16) (concat (map encode (link_exts 0 bs)) @ pad))) [0..<length bs]"
      unfolding assms(3) using l by (intro map_res_eq) (simp add: get_from_def)
    then show ?thesis using extent_codec.dec_enc_all [OF ok, of pad] l by (simp add: inline_extents_def assms(3))
  qed
  then show ?thesis using assms(1,2) by (simp add: extents_def fork_map_def link_exts_finish)
qed

context block_device
begin

lemma link_loop_ok:
  assumes "vol_ok content invar v" and "\<forall>b \<in> set bs. in_ag (v_sb v) b 1"
    and "\<forall>j < length bs. link_block_ok (v_sb v) ino target (k + j)
      (seg (content (v_dev v)) (fsb_addr (v_sb v) (bs ! j)) (sb_block_size (v_sb v)))"
  shows "link_loop ops v ino (length target) (link_exts k bs) (take (k * payload (v_sb v)) target) =
    Ok (take ((k + length bs) * payload (v_sb v)) target)"
  using assms
proof (induction bs arbitrary: k)
  case (Cons b bs)
  let ?sb = "v_sb v" let ?p = "payload ?sb" and ?part = "part_of ?sb target k"
  let ?buf = "seg (content (v_dev v)) (fsb_addr ?sb b) (sb_block_size ?sb)"
  have b: "in_ag ?sb b 1" using Cons.prems(2) by simp
  have rd: "read_blocks ops v b 1 = Ok ?buf" using read_blocks_ok(1) [OF Cons.prems(1) b] by simp
  have ok: "link_block_ok ?sb ino target k ?buf" using Cons.prems(3) by fastforce
  have rest: "\<forall>j < length bs. link_block_ok ?sb ino target (Suc k + j) (seg (content (v_dev v)) (fsb_addr ?sb (bs ! j)) (sb_block_size ?sb))"
    using Cons.prems(3) by fastforce
  have bs: "512 \<le> sb_block_size ?sb" using Cons.prems(1) wf_sbD(4) by (simp add: vol_ok_def)
  show ?case
  proof (cases "length target \<le> k * ?p")
    case True
    moreover have "k * ?p \<le> (k + length (b # bs)) * ?p" by (intro mult_le_mono1) simp
    ultimately have "length target \<le> (k + length (b # bs)) * ?p" by linarith
    then show ?thesis using True by simp
  next
    case False
    have "length ?part \<le> sb_block_size ?sb - 56" by (simp add: part_of_def)
    then have part: "56 + length ?part \<le> sb_block_size ?sb" using bs by linarith
    obtain buf where buf: "read_blocks ops v b (Suc 0) = Ok buf" "link_block_ok ?sb ino target k buf" using rd ok by simp
    have out: "length (take (k * ?p) target) = k * ?p" using False by simp
    have "link_loop ops v ino (length target) (link_exts k (b # bs)) (take (k * ?p) target) =
        link_loop ops v ino (length target) (link_exts (Suc k) bs) (take (k * ?p) target @ ?part)"
      using buf part out False bs by (simp add: link_block_ok_def)
    also have "\<dots> = Ok (take ((Suc k + length bs) * ?p) target)"
      unfolding take_part using Cons.IH [OF Cons.prems(1) _ rest] Cons.prems(2) by simp
    finally show ?thesis by simp
  qed
qed simp

end

section \<open>Properties\<close>

text \<open>The blocks that \<open>symlink\<close> allocates are mapped one after the other.\<close>

lemma link_extents_blocks:
  assumes "link_extents h sb ino agno [k..<k + n] exts prev v = (Ok all, v')"
  shows "\<exists>bs. length bs = n \<and> all = exts @ link_exts k bs"
  using assms
proof (induction n arbitrary: k exts prev v)
  case (Suc n)
  have "[k..<k + Suc n] = k # [Suc k..<Suc k + n]" by (simp add: upt_conv_Cons)
  then have run: "link_extents h sb ino agno (k # [Suc k..<Suc k + n]) exts prev v = (Ok all, v')" using Suc.prems by simp
  obtain got v1 where got: "(case got of
        Some fsb \<Rightarrow> seq (rmap_extent fsb 1 ino k) (\<lambda>_. link_extents h sb ino agno [Suc k..<Suc k + n]
          (exts @ [\<lparr>x_offset = k, x_block = fsb, x_count = 1, x_unwritten = False\<rparr>]) (Some fsb))
      | None \<Rightarrow> seq (for_each (\<lambda>e. release h (x_block e) 1 ino) exts) (\<lambda>_. seq (unalloc_ino ino) (\<lambda>_. raise NoSpace))) v1 = (Ok all, v')"
    using run unfolding link_extents.simps by (rule seq_OkE)
  show ?case
  proof (cases got)
    case None
    then show ?thesis using got by (auto elim!: seq_OkE simp: raise_def)
  next
    case (Some fsb)
    then obtain v2 where "link_extents h sb ino agno [Suc k..<Suc k + n]
        (exts @ [\<lparr>x_offset = k, x_block = fsb, x_count = 1, x_unwritten = False\<rparr>]) (Some fsb) v2 = (Ok all, v')"
      using got by (auto elim: seq_OkE)
    then obtain bs where "length bs = n" "all = (exts @ [\<lparr>x_offset = k, x_block = fsb, x_count = 1, x_unwritten = False\<rparr>]) @ link_exts (Suc k) bs"
      using Suc.IH by blast
    then show ?thesis by (intro exI [of _ "fsb # bs"]) simp
  qed
qed (simp add: ret_def)

text \<open>
  C14. The target of a symbolic link that does not fit in its inode is read back: writing its parts
  to blocks of the filesystem that differ succeeds, and then the link of an inode of that number and size,
  whose fork maps these blocks one after the other, is exactly the target, on a
  version 5 volume whose device holds the whole filesystem. Every other range of the device
  is as before.
\<close>

theorem link_written_then_read:
  assumes "h_ops h = mem_ops" and "vol_ok mem_data mem_inv v" and "is_v5 (v_sb v)"
    and "target \<noteq> []" and "length target \<le> 1023" and "length bs = div_ceil (length target) (payload (v_sb v))"
    and "distinct bs" and "\<forall>b \<in> set bs. in_ag (v_sb v) b 1 \<and> b < 2 ^ 52"
    and "file_type ip = IFLNK" and "i_ino ip < 2 ^ 64" and "i_size ip = length target" and "i_format ip = Extents"
    and "i_nextents ip = length bs" and "i_data_fork ip = concat (map encode (link_exts 0 bs)) @ pad"
  shows "\<exists>d. for_each (write_link_part h (v_sb v) (i_ino ip) target) (enumerate 0 (link_exts 0 bs)) v = (Ok (), v\<lparr>v_dev := d\<rparr>) \<and>
    symlink_target mem_ops (v\<lparr>v_dev := d\<rparr>) ip = Ok target \<and>
    (\<forall>a n. a + n \<le> length (mem_data d) \<longrightarrow>
       (\<forall>b \<in> set bs. a + n \<le> fsb_addr (v_sb v) b \<or> fsb_addr (v_sb v) b + sb_block_size (v_sb v) \<le> a) \<longrightarrow>
       seg (mem_data d) a n = seg (mem_data (v_dev v)) a n)"
proof -
  let ?sb = "v_sb v" let ?p = "payload ?sb" and ?n = "length bs"
  have bs: "512 \<le> sb_block_size ?sb" "sb_block_size ?sb \<le> 65536" using assms(2) wf_sbD(4,5) by (simp_all add: vol_ok_def)
  then have p: "456 \<le> ?p" by linarith
  have cover: "length target \<le> ?n * ?p" "?n * ?p < length target + ?p"
    using div_ceil_bounds [of ?p "length target"] p assms(4,6) by simp_all
  moreover have "?n \<le> ?n * ?p" using p by simp
  ultimately have "?n < 131072" using bs(2) assms(5) by linarith
  then have few: "?n < 2 ^ 54" by simp
  obtain d where d: "for_each (write_link_part h ?sb (i_ino ip) target) (enumerate 0 (link_exts 0 bs)) v = (Ok (), v\<lparr>v_dev := d\<rparr>)"
    "mem_inv d" "length (mem_data d) = length (mem_data (v_dev v))"
    "\<forall>j < ?n. link_block_ok ?sb (i_ino ip) target j (seg (mem_data d) (fsb_addr ?sb (bs ! j)) (sb_block_size ?sb))"
    "\<forall>a n. a + n \<le> length (mem_data d) \<longrightarrow> (\<forall>b \<in> set bs. a + n \<le> fsb_addr ?sb b \<or> fsb_addr ?sb b + sb_block_size ?sb \<le> a) \<longrightarrow>
       seg (mem_data d) a n = seg (mem_data (v_dev v)) a n"
    using mem.write_parts_ok [OF assms(2,1,7), of 0 target "i_ino ip"] assms(5,8,10) cover(2) by auto
  let ?v = "v\<lparr>v_dev := d\<rparr>"
  have ok: "vol_ok mem_data mem_inv ?v" using assms(2) d(2,3) by (simp add: vol_ok_def)
  have "link_loop mem_ops ?v (i_ino ip) (length target) (link_exts 0 bs) [] = Ok target"
    using mem.link_loop_ok [OF ok, of bs "i_ino ip" target 0] assms(8) d(4) cover(1) by simp
  then have "symlink_target mem_ops ?v ip = Ok target"
    using link_fork [OF assms(12-14) _ few, of mem_ops ?v] assms(3-5,8,9,11,12) by (simp add: symlink_target_def)
  then show ?thesis using d(1,5) by blast
qed

theorem link_written_then_read_witness:
  "\<exists>d ip. for_each (write_link_part \<lparr>h_ops = mem_ops, h_clock = (\<lambda>_. None)\<rparr> demo_sb 131 [0x61, 0x62]) (enumerate 0 (link_exts 0 [16390])) demo_vol =
      (Ok (), demo_vol\<lparr>v_dev := d\<rparr>) \<and>
     i_ino ip = 131 \<and> symlink_target mem_ops (demo_vol\<lparr>v_dev := d\<rparr>) ip = Ok [0x61, 0x62]"
proof -
  let ?h = "\<lparr>h_ops = mem_ops, h_clock = (\<lambda>_. None)\<rparr> :: mem_device host"
  define ip where "ip = (new_inode demo_sb \<lparr>ts_secs = 0, ts_nsecs = 0\<rparr> 7 131 0xa1ff 0 0 1)
    \<lparr>i_size := 2, i_nextents := 1, i_data_fork := concat (map encode (link_exts 0 [16390]))\<rparr>"
  have sb: "v_sb demo_vol = demo_sb" by (simp add: demo_vol_def)
  have facts: "is_v5 demo_sb" "in_ag demo_sb 16390 1" by (simp_all add: is_v5_def in_ag_def)
  have n: "length [16390 :: nat] = div_ceil (length [0x61, 0x62 :: byte]) (payload demo_sb)" by (simp add: div_ceil_def)
  have ip: "file_type ip = IFLNK" "i_ino ip = 131" "i_size ip = 2" "i_format ip = Extents" "i_nextents ip = 1"
    "i_data_fork ip = concat (map encode (link_exts 0 [16390])) @ []"
    by (simp_all add: ip_def new_inode_def file_type_def)
  obtain d where "for_each (write_link_part ?h demo_sb 131 [0x61, 0x62]) (enumerate 0 (link_exts 0 [16390])) demo_vol = (Ok (), demo_vol\<lparr>v_dev := d\<rparr>)"
    "symlink_target mem_ops (demo_vol\<lparr>v_dev := d\<rparr>) ip = Ok [0x61, 0x62]"
    using link_written_then_read [of ?h demo_vol "[0x61, 0x62]" "[16390]" ip "[]"] demo_vol_ok facts n ip unfolding sb by auto
  then show ?thesis using ip(2) by blast
qed

end
