(* ===== verification/Tar.thy ===== *)
theory Tar
  imports OrdMap Inode Strings
begin

text \<open>
  Tar archives (\<open>src/src/tar.rs\<close>): the numbers and records of the headers, the ustar header
  block, and the \<open>Writer\<close> with its protocol of \<open>begin\<close>, \<open>data\<close> and \<open>finish\<close> over a sink.
  The sink is a record of its operations; the sink that collects the bytes (\<open>Vec<u8>\<close>) is
  modelled, and \<open>Io\<close>, the one over a writer of the runtime, over that writer's operations. Strings are their bytes.

  The specification of the format is a reader, \<open>untar\<close>: it checks every header's checksum,
  applies the extended records and returns the entries. The lemmas show that it reads back
  what the writer wrote.
\<close>

unbundle bit_operations_syntax

section \<open>Text\<close>

text \<open>\<open>to_string\<close> for numbers, and the zero-padded forms of \<open>format!\<close>.\<close>

function digits :: "nat \<Rightarrow> nat \<Rightarrow> byte list" where
  "digits r n = (if r < 2 \<or> n < r then [word_of_nat (48 + n)] else digits r (n div r) @ [word_of_nat (48 + n mod r)])"
  by pat_completeness auto
termination by (relation "measure snd") auto

declare digits.simps [simp del]

definition padded :: "nat \<Rightarrow> nat \<Rightarrow> nat \<Rightarrow> byte list" where
  "padded r w n = replicate (w - length (digits r n)) 48 @ digits r n"

definition dec_int :: "int \<Rightarrow> byte list" where
  "dec_int i = (if i < 0 then ascii ''-'' @ digits 10 (nat (- i)) else digits 10 (nat i))"

section \<open>Headers\<close>

abbreviation (input) "BLOCK \<equiv> 512 :: nat"

datatype entry_kind = File | HardLink | Symlink | CharDevice | BlockDevice | Directory | Fifo

primrec flag :: "entry_kind \<Rightarrow> byte" where
  "flag File = 0x30"
| "flag HardLink = 0x31"
| "flag Symlink = 0x32"
| "flag CharDevice = 0x33"
| "flag BlockDevice = 0x34"
| "flag Directory = 0x35"
| "flag Fifo = 0x36"

record header =
  h_path :: "byte list"
  h_kind :: entry_kind
  h_link :: "byte list"
  h_mode :: nat
  h_uid :: nat
  h_gid :: nat
  h_mtime :: timestamp
  h_size :: nat
  h_major :: nat
  h_minor :: nat
  h_xattrs :: "(byte list \<times> byte list) list"

definition default_header :: header where
  "default_header = \<lparr>h_path = [], h_kind = File, h_link = [], h_mode = 0, h_uid = 0, h_gid = 0,
     h_mtime = \<lparr>ts_secs = 0, ts_nsecs = 0\<rparr>, h_size = 0, h_major = 0, h_minor = 0, h_xattrs = []\<rparr>"

text \<open>The contents of a numeric field, or nothing when the number does not fit.\<close>

definition octal :: "nat \<Rightarrow> nat \<Rightarrow> byte list option" where
  "octal len v =
     (let ds = len - 1 in
      if ds < 22 \<and> v \<ge> 2 ^ (3 * ds) then None else Some (padded 8 ds v @ [0]))"

text \<open>The write of a numeric field at a position of the header block.\<close>

definition octal_at :: "nat \<Rightarrow> nat \<Rightarrow> nat \<Rightarrow> (nat \<times> byte list) list" where
  "octal_at pos len v = (case octal len v of None \<Rightarrow> [] | Some f \<Rightarrow> [(pos, f)])"

text \<open>The loop that finds a record's length, which counts its own digits.\<close>

lemma digits_mono_length: "m \<le> n \<Longrightarrow> length (digits 10 m) \<le> length (digits 10 n)"
proof (induction n arbitrary: m rule: less_induct)
  case (less n)
  show ?case
  proof (cases "n < 10")
    case False
    have "length (digits 10 (m div 10)) \<le> length (digits 10 (n div 10))"
      using less False by (simp add: div_le_mono)
    with False show ?thesis by (subst (1 2) digits.simps) auto
  qed (use less.prems in \<open>simp add: digits.simps [of 10 n] digits.simps [of 10 m]\<close>)
qed

lemma digits_length_le: "length (digits 10 n) \<le> n div 10 + 1"
proof (induction n rule: less_induct)
  case (less n)
  show ?case
  proof (cases "n < 10")
    case False
    then have "length (digits 10 (n div 10)) \<le> n div 10 div 10 + 1" using less by simp
    moreover have "n div 10 div 10 + 2 \<le> n div 10 + 1" using False by simp
    ultimately show ?thesis using False by (subst digits.simps) simp
  qed (simp add: digits.simps [of 10 n])
qed

lemma digits_length_pos: "0 < length (digits r n)"
  by (subst digits.simps) simp

function pax_len :: "nat \<Rightarrow> nat \<Rightarrow> nat" where
  "pax_len body len =
     (let new = body + length (digits 10 len) in if len \<noteq> new then pax_len body new else len)"
  by pat_completeness auto
termination
proof (relation "measure (\<lambda>(body, len). if len \<le> body + length (digits 10 len) then 2 * body + 2 - len else 2 * body + 3 + len)", goal_cases)
  case (2 body len new)
  then have new: "new = body + length (digits 10 len)" "len \<noteq> new" by simp_all
  have "new \<le> 2 * body + 2" if "len \<le> new"
    using that new digits_length_le [of len] by linarith
  moreover have "len < new \<Longrightarrow> new \<le> body + length (digits 10 new)"
    using new digits_mono_length [of len new] by simp
  ultimately show ?case using new by auto
qed simp

declare pax_len.simps [simp del]

definition pax_record :: "byte list \<Rightarrow> byte list \<Rightarrow> byte list" where
  "pax_record key val =
     (let body = length key + length val + 3; len = pax_len body (body + 1) in
      digits 10 len @ ascii '' '' @ key @ ascii ''='' @ val @ [0x0a])"

definition pax_time :: "timestamp \<Rightarrow> byte list res" where
  "pax_time t =
     (if ts_nsecs t = 0 then Ok (dec_int (ts_secs t))
      else if ts_secs t \<ge> 0 then Ok (dec_int (ts_secs t) @ ascii ''.'' @ padded 10 9 (ts_nsecs t))
      else map_ok (\<lambda>ns. ascii ''-'' @ dec_int (- (ts_secs t + 1)) @ ascii ''.'' @ padded 10 9 ns)
             (sub_w 1000000000 (ts_nsecs t)))"

text \<open>The header block of an entry, and whether everything fitted into it.\<close>

definition is_device :: "entry_kind \<Rightarrow> bool" where
  "is_device k \<longleftrightarrow> k = CharDevice \<or> k = BlockDevice"

definition ustar_fits :: "byte list \<Rightarrow> header \<Rightarrow> nat \<Rightarrow> bool" where
  "ustar_fits path h sz \<longleftrightarrow>
     length path \<le> 100 \<and> octal 8 (h_mode h AND 0xfff) \<noteq> None \<and> octal 8 (h_uid h) \<noteq> None \<and> octal 8 (h_gid h) \<noteq> None \<and>
     octal 12 sz \<noteq> None \<and> 0 \<le> ts_secs (h_mtime h) \<and> octal 12 (nat (max (ts_secs (h_mtime h)) 0)) \<noteq> None \<and>
     length (h_link h) \<le> 100 \<and>
     (is_device (h_kind h) \<longrightarrow> octal 8 (h_major h) \<noteq> None \<and> octal 8 (h_minor h) \<noteq> None)"

definition ustar_writes :: "byte list \<Rightarrow> byte \<Rightarrow> header \<Rightarrow> nat \<Rightarrow> (nat \<times> byte list) list" where
  "ustar_writes path kind h sz =
     [(0, take 100 path)] @ octal_at 100 8 (h_mode h AND 0xfff) @ octal_at 108 8 (h_uid h) @ octal_at 116 8 (h_gid h) @
     octal_at 124 12 sz @
     (if ts_secs (h_mtime h) \<ge> 0 then octal_at 136 12 (nat (max (ts_secs (h_mtime h)) 0)) else []) @
     [(156, [kind]), (157, take 100 (h_link h)), (257, ascii ''ustar'' @ [0]), (263, ascii ''00'')] @
     (if is_device (h_kind h) then octal_at 329 8 (h_major h) @ octal_at 337 8 (h_minor h) else []) @
     [(148, replicate 8 0x20)]"

definition ustar :: "byte list \<Rightarrow> byte \<Rightarrow> header \<Rightarrow> nat \<Rightarrow> (byte list \<times> bool) res" where
  "ustar path kind h sz =
     and_then (puts (ustar_writes path kind h sz) (replicate BLOCK 0)) (\<lambda>b.
     map_ok (\<lambda>b. (b, ustar_fits path h sz)) (copy_in b 148 (padded 8 6 (sum_list (map unat b)) @ [0])))"

section \<open>The writer\<close>

record 'k sink_ops =
  sk_write_all :: "byte list \<Rightarrow> ('k, unit) proc"
  sk_flush :: "('k, unit) proc"

text \<open>The sink that collects the bytes, with the trait's \<open>flush\<close>.\<close>

definition vec_sink :: "byte list sink_ops" where
  "vec_sink = \<lparr>sk_write_all = (\<lambda>buf v. (Ok (), v @ buf)), sk_flush = ret ()\<rparr>"

text \<open>The sink over a writer of the runtime, whose \<open>write_all\<close> and \<open>flush\<close> it calls.\<close>

record 'w async_write =
  aw_write_all :: "byte list \<Rightarrow> ('w, unit) proc"
  aw_flush :: "('w, unit) proc"

record 'w io =
  io_inner :: 'w

definition io_new :: "'w \<Rightarrow> 'w io" where
  "io_new inner = \<lparr>io_inner = inner\<rparr>"

definition io_into_inner :: "'w io \<Rightarrow> 'w" where
  "io_into_inner k = io_inner k"

definition io_sink :: "'w async_write \<Rightarrow> 'w io sink_ops" where
  "io_sink aw =
     \<lparr>sk_write_all = (\<lambda>buf k. case aw_write_all aw buf (io_inner k) of (r, w) \<Rightarrow> (r, k\<lparr>io_inner := w\<rparr>)),
      sk_flush = (\<lambda>k. case aw_flush aw (io_inner k) of (r, w) \<Rightarrow> (r, k\<lparr>io_inner := w\<rparr>))\<rparr>"

record 'k writer =
  w_sink :: 'k
  w_owed :: nat
  w_pad :: nat

definition writer_new :: "'k \<Rightarrow> 'k writer" where
  "writer_new sink = \<lparr>w_sink = sink, w_owed = 0, w_pad = 0\<rparr>"

definition on_sink :: "('k, unit) proc \<Rightarrow> ('k writer, unit) proc" where
  "on_sink f w = (case f (w_sink w) of (r, s) \<Rightarrow> (r, w\<lparr>w_sink := s\<rparr>))"

definition finish_entry :: "'k sink_ops \<Rightarrow> ('k writer, unit) proc" where
  "finish_entry ops w =
     (if w_pad w > 0 then on_sink (sk_write_all ops (replicate (w_pad w) 0)) (w\<lparr>w_pad := 0\<rparr>) else (Ok (), w))"

definition pad_of :: "nat \<Rightarrow> nat" where
  "pad_of n = (BLOCK - n mod BLOCK) mod BLOCK"

definition pax_records :: "header \<Rightarrow> nat \<Rightarrow> bool \<Rightarrow> byte list res" where
  "pax_records h sz fits =
     and_then (if \<not> fits \<or> ts_nsecs (h_mtime h) \<noteq> 0 then
                 map_ok (\<lambda>t.
                   (if length (h_path h) > 100 then pax_record (ascii ''path'') (h_path h) else []) @
                   (if length (h_link h) > 100 then pax_record (ascii ''linkpath'') (h_link h) else []) @
                   pax_record (ascii ''size'') (digits 10 sz) @ pax_record (ascii ''uid'') (digits 10 (h_uid h)) @
                   pax_record (ascii ''gid'') (digits 10 (h_gid h)) @ pax_record (ascii ''mtime'') t)
                   (pax_time (h_mtime h))
               else Ok []) (\<lambda>pax.
     Ok (pax @ concat (map (\<lambda>(name, val). pax_record (ascii ''SCHILY.xattr.'' @ name) val) (h_xattrs h))))"

definition pax_name :: "byte list \<Rightarrow> byte list" where
  "pax_name path =
     (let base = (case List.find (\<lambda>c. c \<noteq> []) (rev (split_on 0x2f path)) of Some c \<Rightarrow> c | None \<Rightarrow> ascii ''x'') in
      ascii ''PaxHeaders/'' @ take 80 base)"

definition pax_header :: "header \<Rightarrow> header" where
  "pax_header h = default_header\<lparr>h_mode := 0x1a4, h_mtime := \<lparr>ts_secs = max (ts_secs (h_mtime h)) 0, ts_nsecs = 0\<rparr>\<rparr>"

definition tar_begin :: "'k sink_ops \<Rightarrow> header \<Rightarrow> ('k writer, unit) proc" where
  "tar_begin ops h w =
     (if w_owed w \<noteq> 0 then (Panic, w)
      else
        seq (finish_entry ops) (\<lambda>_.
        let sz = (if h_kind h = File then h_size h else 0) in
        seq (lift (ustar (h_path h) (flag (h_kind h)) h sz)) (\<lambda>(block, fits).
        seq (lift (pax_records h sz fits)) (\<lambda>pax.
        seq (if pax \<noteq> [] then
               seq (lift (ustar (pax_name (h_path h)) 0x78 (pax_header h) (length pax))) (\<lambda>(xb, _).
               seq (on_sink (sk_write_all ops xb)) (\<lambda>_.
               seq (on_sink (sk_write_all ops pax)) (\<lambda>_.
               on_sink (sk_write_all ops (replicate (pad_of (length pax)) 0)))))
             else ret ()) (\<lambda>_.
        seq (on_sink (sk_write_all ops block)) (\<lambda>_.
        modify (\<lambda>w. w\<lparr>w_owed := sz, w_pad := pad_of sz\<rparr>)))))) w)"

definition tar_data :: "'k sink_ops \<Rightarrow> byte list \<Rightarrow> ('k writer, unit) proc" where
  "tar_data ops buf w =
     (if length buf > w_owed w then (Panic, w)
      else on_sink (sk_write_all ops buf) (w\<lparr>w_owed := w_owed w - length buf\<rparr>))"

definition tar_append :: "'k sink_ops \<Rightarrow> header \<Rightarrow> byte list \<Rightarrow> ('k writer, unit) proc" where
  "tar_append ops h data = seq (tar_begin ops h) (\<lambda>_. tar_data ops data)"

definition tar_finish :: "'k sink_ops \<Rightarrow> ('k writer, unit) proc" where
  "tar_finish ops w =
     (if w_owed w \<noteq> 0 then (Panic, w)
      else seq (finish_entry ops) (\<lambda>_.
           seq (on_sink (sk_write_all ops (replicate (2 * BLOCK) 0))) (\<lambda>_.
           on_sink (sk_flush ops))) w)"

section \<open>A reader\<close>

text \<open>The format, as a reader sees it.\<close>

definition is_digit :: "byte \<Rightarrow> bool" where
  "is_digit b \<longleftrightarrow> 48 \<le> unat b \<and> unat b < 58"

definition from_digits :: "nat \<Rightarrow> byte list \<Rightarrow> nat" where
  "from_digits r bs = foldl (\<lambda>v b. v * r + (unat b - 48)) 0 bs"

definition read_num :: "nat \<Rightarrow> byte list \<Rightarrow> nat" where
  "read_num r f = from_digits r (takeWhile is_digit f)"

definition read_time :: "byte list \<Rightarrow> timestamp" where
  "read_time bs =
     (let neg = (take 1 bs = ascii ''-''); r = (if neg then drop 1 bs else bs); ip = takeWhile is_digit r;
          fp = drop (length ip + 1) r; f = from_digits 10 fp * 10 ^ (9 - length fp); i = int (from_digits 10 ip) in
      if \<not> neg then \<lparr>ts_secs = i, ts_nsecs = f\<rparr>
      else if f = 0 then \<lparr>ts_secs = - i, ts_nsecs = 0\<rparr>
      else \<lparr>ts_secs = - i - 1, ts_nsecs = 1000000000 - f\<rparr>)"

function pax_parse :: "byte list \<Rightarrow> (byte list \<times> byte list) list option" where
  "pax_parse bs =
     (if bs = [] then Some []
      else
        let len = read_num 10 bs; d = length (takeWhile is_digit bs) in
        if len \<le> d \<or> length bs < len then None
        else
          let kv = butlast (drop (d + 1) (take len bs)); key = takeWhile (\<lambda>b. b \<noteq> 0x3d) kv in
          map_option ((#) (key, drop (length key + 1) kv)) (pax_parse (drop len bs)))"
  by pat_completeness auto
termination by (relation "measure length") auto

declare pax_parse.simps [simp del]

section \<open>Numbers and records read back\<close>

lemma unat_digit: "d < 10 \<Longrightarrow> unat (word_of_nat (48 + d) :: byte) = 48 + d"
  by (simp only: unat_of_nat) simp

lemma from_digits_snoc: "from_digits r (bs @ [b]) = from_digits r bs * r + (unat b - 48)"
  by (simp add: from_digits_def)

lemma digits_are_digits: "2 \<le> r \<Longrightarrow> r \<le> 10 \<Longrightarrow> \<forall>b \<in> set (digits r n). is_digit b"
proof (induction n rule: less_induct)
  case (less n)
  have d: "is_digit (word_of_nat (48 + n mod r))"
    using less.prems mod_less_divisor [of r n] by (subst is_digit_def, subst (1 2) unat_digit) linarith+
  have "\<forall>b \<in> set (digits r (n div r)). is_digit b" if "\<not> n < r"
    using that less.prems by (intro less.IH) simp_all
  with d show ?case
    by (subst digits.simps) (use less.prems in \<open>auto simp: mod_less\<close>)
qed

lemma from_digits_digits [simp]: "2 \<le> r \<Longrightarrow> r \<le> 10 \<Longrightarrow> from_digits r (digits r n) = n"
proof (induction n rule: less_induct)
  case (less n)
  have d: "unat (word_of_nat (48 + n mod r) :: byte) = 48 + n mod r"
    using less.prems mod_less_divisor [of r n] by (intro unat_digit) linarith
  show ?case
  proof (cases "n < r")
    case True
    then show ?thesis using d less.prems by (subst digits.simps) (simp add: from_digits_def)
  next
    case False
    then have "from_digits r (digits r (n div r)) = n div r" using less by simp
    with False d less.prems show ?thesis by (subst digits.simps) (simp add: from_digits_snoc)
  qed
qed

lemma digits_length_bound: "2 \<le> r \<Longrightarrow> n < r ^ k \<Longrightarrow> 0 < k \<Longrightarrow> length (digits r n) \<le> k"
proof (induction k arbitrary: n)
  case (Suc k)
  show ?case
  proof (cases "n < r")
    case False
    then have "0 < k" using Suc.prems by (cases k) auto
    moreover have "n div r < r ^ k" using Suc.prems by (simp add: less_mult_imp_div_less mult.commute)
    ultimately have "length (digits r (n div r)) \<le> k" using Suc by simp
    then show ?thesis by (subst digits.simps) simp
  qed (simp add: digits.simps)
qed simp

lemma padded_length: "2 \<le> r \<Longrightarrow> n < r ^ w \<Longrightarrow> 0 < w \<Longrightarrow> length (padded r w n) = w"
  using digits_length_bound [of r n w] by (simp add: padded_def)

lemma padded_are_digits: "2 \<le> r \<Longrightarrow> r \<le> 10 \<Longrightarrow> \<forall>b \<in> set (padded r w n). is_digit b"
  using digits_are_digits [of r n] by (auto simp: padded_def is_digit_def)

lemma from_digits_zeros: "from_digits r (replicate k 48 @ bs) = from_digits r bs"
  unfolding from_digits_def by (induction k) simp_all

lemma from_digits_padded [simp]: "2 \<le> r \<Longrightarrow> r \<le> 10 \<Longrightarrow> from_digits r (padded r w n) = n"
  by (simp add: padded_def from_digits_zeros)

lemma read_num_digits:
  assumes "\<forall>b \<in> set ds. is_digit b" and "rest = [] \<or> \<not> is_digit (hd rest)"
  shows "takeWhile is_digit (ds @ rest) = ds" and "read_num r (ds @ rest) = from_digits r ds"
proof -
  show "takeWhile is_digit (ds @ rest) = ds"
    using assms by (cases rest) (auto simp: takeWhile_append2)
  then show "read_num r (ds @ rest) = from_digits r ds" by (simp add: read_num_def)
qed

lemma not_digit [simp]: "\<not> is_digit 0" "\<not> is_digit 0x20" "\<not> is_digit 0x2e" "\<not> is_digit 0x2d"
  by (simp_all add: is_digit_def)

lemma octal_field:
  assumes "octal len v = Some f" and "1 < len" and "len < 23"
  shows "length f = len" and "read_num 8 f = v"
proof -
  have v: "v < 2 ^ (3 * (len - 1))" and f: "f = padded 8 (len - 1) v @ [0]"
    using assms by (auto simp: octal_def Let_def split: if_splits)
  have "v < 8 ^ (len - 1)" using v by (simp add: power_mult)
  then show "length f = len" using padded_length [of 8 v "len - 1"] assms f by simp
  show "read_num 8 f = v" using read_num_digits(2) [of "padded 8 (len - 1) v" "[0]" 8] padded_are_digits [of 8 "len - 1" v] f by simp
qed

text \<open>The length of a record counts its own digits.\<close>

lemma pax_len_fix: "pax_len body len = body + length (digits 10 (pax_len body len))"
  by (induction body len rule: pax_len.induct) (subst (1 2) pax_len.simps, auto simp: Let_def)

lemma pax_record_length:
  "length (pax_record key val) = pax_len (length key + length val + 3) (length key + length val + 3 + 1)"
  by (subst pax_len_fix) (simp add: pax_record_def Let_def ascii_def)

lemma pax_record_parse:
  assumes "0x3d \<notin> set key"
  shows "pax_parse (pax_record key val @ rest) = map_option ((#) (key, val)) (pax_parse rest)"
proof -
  let ?n = "pax_len (length key + length val + 3) (length key + length val + 3 + 1)"
  let ?rec = "pax_record key val"
  have r: "?rec = digits 10 ?n @ 0x20 # key @ 0x3d # val @ [0x0a]"
    by (simp add: pax_record_def Let_def ascii_def)
  have n: "length ?rec = ?n" by (rule pax_record_length)
  have d: "takeWhile is_digit (?rec @ rest) = digits 10 ?n" "read_num 10 (?rec @ rest) = ?n"
    using read_num_digits [of "digits 10 ?n" "0x20 # key @ 0x3d # val @ [0x0a] @ rest"] digits_are_digits [of 10 ?n]
    by (simp_all only: r) simp_all
  have "length (digits 10 ?n) < ?n" using n r by (metis add_Suc_right length_Cons length_append less_add_Suc1)
  moreover have "take ?n (?rec @ rest) = ?rec" "drop ?n (?rec @ rest) = rest" using n by simp_all
  moreover have "butlast (drop (length (digits 10 ?n) + 1) ?rec) = key @ 0x3d # val" by (simp add: r butlast_append)
  moreover have "takeWhile (\<lambda>b. b \<noteq> 0x3d) (key @ 0x3d # val) = key"
    by (subst takeWhile_append2) (use assms in auto)
  moreover have "?rec \<noteq> []" using r by simp
  ultimately show ?thesis using n d by (subst pax_parse.simps) (simp add: Let_def)
qed

lemma pax_record_cut: "pax_record (key @ [0x3d] @ key2) val = pax_record key (key2 @ [0x3d] @ val)"
  by (simp add: pax_record_def Let_def ascii_def add_ac)

lemma pax_records_parse:
  "\<forall>(key, val) \<in> set kvs. 0x3d \<notin> set key \<Longrightarrow> pax_parse (concat (map (\<lambda>(key, val). pax_record key val) kvs)) = Some kvs"
proof (induction kvs)
  case Nil
  then show ?case by (subst pax_parse.simps) simp
next
  case (Cons kv kvs)
  then show ?case by (cases kv) (auto simp: pax_record_parse)
qed

section \<open>Header blocks read back\<close>

definition cstr :: "byte list \<Rightarrow> byte list" where
  "cstr f = takeWhile (\<lambda>b. b \<noteq> 0) f"

definition sum_ok :: "byte list \<Rightarrow> bool" where
  "sum_ok b \<longleftrightarrow> sum_list (map unat (patch b 148 (replicate 8 0x20))) = read_num 8 (seg b 148 8)"

text \<open>A numeric field as the reader finds it: zero when it was left out.\<close>

definition shown :: "nat \<Rightarrow> nat \<Rightarrow> nat" where
  "shown len v = (if octal len v = None then 0 else v)"

lemma cstr_zeros: "cstr (p @ replicate n 0) = cstr p"
proof (induction p)
  case Nil
  then show ?case by (cases n) (simp_all add: cstr_def)
qed (simp add: cstr_def)

lemma field_octal_other:
  assumes "1 < len" and "len < 23" and "pos + len \<le> i \<or> i + n \<le> pos"
  shows "field (octal_at pos len v) i n acc = acc"
  using assms octal_field(1) [of len v] by (auto simp: octal_at_def split: option.splits)

lemma field_octal_same:
  assumes "1 < len" and "len < 23"
  shows "field (octal_at pos len v) pos len acc = (case octal len v of None \<Rightarrow> acc | Some f \<Rightarrow> Some f)"
  using assms octal_field(1) [of len v] by (auto simp: octal_at_def split: option.splits)

lemma octal_at_in:
  "1 < len \<Longrightarrow> len < 23 \<Longrightarrow> pos + len \<le> k \<Longrightarrow> list_all (\<lambda>w. fst w + length (snd w) \<le> k) (octal_at pos len v)"
  using octal_field(1) [of len v] by (auto simp: octal_at_def split: option.splits)

lemma read_shown:
  assumes "1 < len" and "len < 23"
  shows "read_num 8 (case octal len v of None \<Rightarrow> replicate len 0 | Some f \<Rightarrow> f) = shown len v"
  using octal_field(2) [OF _ assms, of v] assms
  by (cases len) (auto simp: shown_def read_num_def from_digits_def split: option.splits)

lemma ustar_field:
  assumes "puts (ustar_writes path kind h sz) (replicate 512 0) = Ok b" and "i + n \<le> 512"
    and "field (ustar_writes path kind h sz) i n (Some (replicate n 0)) = Some f"
  shows "seg b i n = f"
  using puts_field [OF assms(1), of i n f] assms(2,3) by (simp add: seg_replicate)

lemmas ustar_field_simps =
  ustar_writes_def field_append field_octal_other field_octal_same ascii_def seg_def min_le_iff_disj

lemma ustar_block:
  obtains b where "puts (ustar_writes path kind h sz) (replicate 512 0) = Ok b" and "length b = 512"
    and "seg b 148 8 = replicate 8 0x20" and "b ! 156 = kind"
    and "cstr (seg b 0 100) = cstr (take 100 path)" and "cstr (seg b 157 100) = cstr (take 100 (h_link h))"
    and "read_num 8 (seg b 100 8) = shown 8 (h_mode h AND 0xfff)"
    and "read_num 8 (seg b 108 8) = shown 8 (h_uid h)" and "read_num 8 (seg b 116 8) = shown 8 (h_gid h)"
    and "read_num 8 (seg b 124 12) = shown 12 sz"
    and "read_num 8 (seg b 136 12) = (if 0 \<le> ts_secs (h_mtime h) then shown 12 (nat (ts_secs (h_mtime h))) else 0)"
    and "is_device (h_kind h) \<longrightarrow> read_num 8 (seg b 329 8) = shown 8 (h_major h) \<and> read_num 8 (seg b 337 8) = shown 8 (h_minor h)"
proof -
  have "list_all (\<lambda>w. fst w + length (snd w) \<le> 512) (ustar_writes path kind h sz)"
    by (simp add: ustar_writes_def octal_at_in ascii_def min_def)
  then obtain b where b: "puts (ustar_writes path kind h sz) (replicate 512 0) = Ok b"
    using puts_total [of "replicate 512 0"] by force
  note f = ustar_field [OF b]
  have z: "seg b 148 8 = replicate 8 0x20" "seg b 156 1 = [kind]"
    by (rule f; simp add: ustar_field_simps)+
  show ?thesis
  proof (rule that [OF b])
    show "length b = 512" using puts_length [OF b] by simp
    show "seg b 148 8 = replicate 8 0x20" by (fact z)
    show "b ! 156 = kind" using seg_1_nth [of b 156 kind] z(2) by simp
    show "read_num 8 (seg b 100 8) = shown 8 (h_mode h AND 0xfff)"
      by (subst f [where f = "case octal 8 (h_mode h AND 0xfff) of None \<Rightarrow> replicate 8 0 | Some f \<Rightarrow> f"])
        (simp_all add: ustar_field_simps read_shown split: option.splits)
    show "read_num 8 (seg b 108 8) = shown 8 (h_uid h)"
      by (subst f [where f = "case octal 8 (h_uid h) of None \<Rightarrow> replicate 8 0 | Some f \<Rightarrow> f"])
        (simp_all add: ustar_field_simps read_shown split: option.splits)
    show "read_num 8 (seg b 116 8) = shown 8 (h_gid h)"
      by (subst f [where f = "case octal 8 (h_gid h) of None \<Rightarrow> replicate 8 0 | Some f \<Rightarrow> f"])
        (simp_all add: ustar_field_simps read_shown split: option.splits)
    show "read_num 8 (seg b 124 12) = shown 12 sz"
      by (subst f [where f = "case octal 12 sz of None \<Rightarrow> replicate 12 0 | Some f \<Rightarrow> f"])
        (simp_all add: ustar_field_simps read_shown split: option.splits)
    show "read_num 8 (seg b 136 12) = (if 0 \<le> ts_secs (h_mtime h) then shown 12 (nat (ts_secs (h_mtime h))) else 0)"
    proof (cases "0 \<le> ts_secs (h_mtime h)")
      case True
      then show ?thesis
        by (subst f [where f = "case octal 12 (nat (ts_secs (h_mtime h))) of None \<Rightarrow> replicate 12 0 | Some f \<Rightarrow> f"])
          (simp_all add: ustar_field_simps read_shown split: option.splits)
    next
      case False
      then have "seg b 136 12 = replicate 12 0" by (intro f) (simp_all add: ustar_field_simps)
      with False show ?thesis by (simp add: read_num_def from_digits_def)
    qed
    show "cstr (seg b 0 100) = cstr (take 100 path)"
    proof -
      let ?p = "take 100 path"
      have "seg b 0 (length ?p) = ?p" by (rule f) (auto simp: ustar_field_simps min_def)
      moreover have "seg b (length ?p) (100 - length ?p) = replicate (100 - length ?p) 0"
        by (rule f) (auto simp: ustar_field_simps min_def)
      ultimately have "seg b 0 100 = ?p @ replicate (100 - length ?p) 0"
        using seg_add [of b 0 "length ?p" "100 - length ?p"] by simp
      then show ?thesis by (simp add: cstr_zeros)
    qed
    show "cstr (seg b 157 100) = cstr (take 100 (h_link h))"
    proof -
      let ?p = "take 100 (h_link h)"
      have "seg b 157 (length ?p) = ?p" by (rule f) (auto simp: ustar_field_simps min_def)
      moreover have "seg b (157 + length ?p) (100 - length ?p) = replicate (100 - length ?p) 0"
        by (rule f) (auto simp: ustar_field_simps min_def)
      ultimately have "seg b 157 100 = ?p @ replicate (100 - length ?p) 0"
        using seg_add [of b 157 "length ?p" "100 - length ?p"] by simp
      then show ?thesis by (simp add: cstr_zeros)
    qed
    show "is_device (h_kind h) \<longrightarrow> read_num 8 (seg b 329 8) = shown 8 (h_major h) \<and> read_num 8 (seg b 337 8) = shown 8 (h_minor h)"
    proof (intro impI conjI)
      assume that: "is_device (h_kind h)"
      show "read_num 8 (seg b 329 8) = shown 8 (h_major h)"
        by (subst f [where f = "case octal 8 (h_major h) of None \<Rightarrow> replicate 8 0 | Some f \<Rightarrow> f"])
          (use that in \<open>simp_all add: ustar_field_simps read_shown split: option.splits\<close>)
      show "read_num 8 (seg b 337 8) = shown 8 (h_minor h)"
        by (subst f [where f = "case octal 8 (h_minor h) of None \<Rightarrow> replicate 8 0 | Some f \<Rightarrow> f"])
          (use that in \<open>simp_all add: ustar_field_simps read_shown split: option.splits\<close>)
    qed
  qed
qed

text \<open>What the reader finds in a header block.\<close>

definition block_shows :: "byte list \<Rightarrow> byte list \<Rightarrow> byte \<Rightarrow> header \<Rightarrow> nat \<Rightarrow> bool" where
  "block_shows b path kind h sz \<longleftrightarrow>
     length b = 512 \<and> sum_ok b \<and> b ! 156 = kind \<and>
     cstr (seg b 0 100) = cstr (take 100 path) \<and> cstr (seg b 157 100) = cstr (take 100 (h_link h)) \<and>
     read_num 8 (seg b 100 8) = shown 8 (h_mode h AND 0xfff) \<and>
     read_num 8 (seg b 108 8) = shown 8 (h_uid h) \<and> read_num 8 (seg b 116 8) = shown 8 (h_gid h) \<and>
     read_num 8 (seg b 124 12) = shown 12 sz \<and>
     read_num 8 (seg b 136 12) = (if 0 \<le> ts_secs (h_mtime h) then shown 12 (nat (ts_secs (h_mtime h))) else 0) \<and>
     (is_device (h_kind h) \<longrightarrow> read_num 8 (seg b 329 8) = shown 8 (h_major h) \<and> read_num 8 (seg b 337 8) = shown 8 (h_minor h))"

lemma sum_bytes_le: "sum_list (map unat (bs :: byte list)) \<le> length bs * 255"
proof (induction bs)
  case (Cons b bs)
  then show ?case using unat_byte_less [of b] by (simp del: unat_byte_less)
qed simp

lemma ustar_shows:
  obtains b where "ustar path kind h sz = Ok (b, ustar_fits path h sz)" and "block_shows b path kind h sz"
proof -
  obtain b where p: "puts (ustar_writes path kind h sz) (replicate 512 0) = Ok b" and len: "length b = 512"
    and sp: "seg b 148 8 = replicate 8 0x20" and k: "b ! 156 = kind"
    and rest: "cstr (seg b 0 100) = cstr (take 100 path)" "cstr (seg b 157 100) = cstr (take 100 (h_link h))"
      "read_num 8 (seg b 100 8) = shown 8 (h_mode h AND 0xfff)"
      "read_num 8 (seg b 108 8) = shown 8 (h_uid h)" "read_num 8 (seg b 116 8) = shown 8 (h_gid h)"
      "read_num 8 (seg b 124 12) = shown 12 sz"
      "read_num 8 (seg b 136 12) = (if 0 \<le> ts_secs (h_mtime h) then shown 12 (nat (ts_secs (h_mtime h))) else 0)"
      "is_device (h_kind h) \<longrightarrow> read_num 8 (seg b 329 8) = shown 8 (h_major h) \<and> read_num 8 (seg b 337 8) = shown 8 (h_minor h)"
    by (rule ustar_block [of path kind h sz])
  let ?sum = "sum_list (map unat b)"
  let ?f = "padded 8 6 ?sum @ [0]" and ?c = "patch b 148 (padded 8 6 ?sum @ [0])"
  have "?sum < 8 ^ 6" using sum_bytes_le [of b] len by simp
  then have fl: "length ?f = 7" using padded_length [of 8 ?sum 6] by simp
  then have c: "length ?c = 512" using len by simp
  have other: "seg ?c i n = seg b i n" if "i + n \<le> 148 \<or> 156 \<le> i" "i + n \<le> 512" for i n
    using that fl len by (intro seg_patch_other) auto
  have "patch ?c 148 (replicate 8 0x20) = b"
  proof (rule nth_equalityI)
    show "length (patch ?c 148 (replicate 8 0x20)) = length b" using c len by simp
    fix i assume "i < length (patch ?c 148 (replicate 8 0x20))"
    then have i: "i < 512" using c by simp
    have "b ! i = 0x20" if "148 \<le> i" "i < 156"
      using that sp seg_nth [of "i - 148" 8 148 b] len by simp
    with i c len fl show "patch ?c 148 (replicate 8 0x20) ! i = b ! i"
      by (auto simp: nth_patch)
  qed
  moreover have "read_num 8 (seg ?c 148 8) = ?sum"
  proof -
    have "seg ?c 148 7 = ?f" using fl len by simp
    moreover have "seg ?c 155 1 = [?c ! 155]" using nth_seg_1 [of 155 ?c] c by simp
    ultimately have "seg ?c 148 8 = padded 8 6 ?sum @ [0, ?c ! 155]" using seg_add [of ?c 148 7 1] by simp
    then show ?thesis
      using read_num_digits(2) [of "padded 8 6 ?sum" "[0, ?c ! 155]" 8] padded_are_digits [of 8 6 ?sum] by simp
  qed
  ultimately have "sum_ok ?c" by (simp add: sum_ok_def)
  moreover have "?c ! 156 = kind" using k fl len by (simp add: nth_patch)
  ultimately have "block_shows ?c path kind h sz" using c rest other by (simp add: block_shows_def)
  moreover have "ustar path kind h sz = Ok (?c, ustar_fits path h sz)"
    using fl len by (simp add: ustar_def p copy_in_def)
  ultimately show thesis using that by blast
qed

section \<open>Times read back\<close>

lemma digits_no_sign: "take (Suc 0) (digits 10 n @ rest) \<noteq> [0x2d]"
proof -
  obtain d ds where d: "digits 10 n = d # ds" using digits_length_pos [of 10 n] by (cases "digits 10 n") simp_all
  then have "is_digit d" using digits_are_digits [of 10 n] by simp
  then show ?thesis using d by auto
qed

lemma takeWhile_digits:
  "takeWhile is_digit (digits 10 n) = digits 10 n" "takeWhile is_digit (digits 10 n @ 0x2e # rest) = digits 10 n"
  using read_num_digits(1) [OF digits_are_digits, of 10 "[]" n] read_num_digits(1) [OF digits_are_digits, of 10 "0x2e # rest" n]
  by simp_all

lemma read_time_pax_time:
  assumes "ts_nsecs t < 1000000000"
  obtains bs where "pax_time t = Ok bs" and "read_time bs = t"
proof (cases "ts_nsecs t = 0")
  case True
  then have "pax_time t = Ok (dec_int (ts_secs t))" by (simp add: pax_time_def)
  moreover have "read_time (dec_int (ts_secs t)) = t"
    using True digits_no_sign [of _ "[]"]
    by (cases t) (simp add: read_time_def dec_int_def Let_def ascii_def takeWhile_digits from_digits_def [of 10 "[]"])
  ultimately show ?thesis using that by blast
next
  case False
  have p: "length (padded 10 9 k) = 9" if "k < 1000000000" for k using padded_length [of 10 k 9] that by simp
  show ?thesis
  proof (cases "0 \<le> ts_secs t")
    case True
    then have "pax_time t = Ok (digits 10 (nat (ts_secs t)) @ 0x2e # padded 10 9 (ts_nsecs t))"
      using False by (simp add: pax_time_def dec_int_def ascii_def)
    moreover have "read_time (digits 10 (nat (ts_secs t)) @ 0x2e # padded 10 9 (ts_nsecs t)) = t"
      using True digits_no_sign p [OF assms]
      by (cases t) (simp add: read_time_def Let_def ascii_def takeWhile_digits)
    ultimately show ?thesis using that by blast
  next
    case neg: False
    let ?ns = "1000000000 - ts_nsecs t"
    have "pax_time t = Ok (0x2d # digits 10 (nat (- (ts_secs t + 1))) @ 0x2e # padded 10 9 ?ns)"
      using False neg assms by (simp add: pax_time_def dec_int_def ascii_def sub_w_def)
    moreover have "read_time (0x2d # digits 10 (nat (- (ts_secs t + 1))) @ 0x2e # padded 10 9 ?ns) = t"
      using False neg p [of ?ns] assms
      by (cases t) (simp add: read_time_def Let_def ascii_def takeWhile_digits)
    ultimately show ?thesis using that by blast
  qed
qed

section \<open>The reader\<close>

record tar_entry =
  te_path :: "byte list"
  te_kind :: byte
  te_link :: "byte list"
  te_mode :: nat
  te_uid :: nat
  te_gid :: nat
  te_mtime :: timestamp
  te_dev :: "nat \<times> nat"
  te_xattrs :: "(byte list \<times> byte list) list"
  te_data :: "byte list"

definition or_record :: "(byte list \<times> byte list) list \<Rightarrow> string \<Rightarrow> 'a \<Rightarrow> (byte list \<Rightarrow> 'a) \<Rightarrow> 'a" where
  "or_record kvs key d f = (case map_of kvs (ascii key) of Some v \<Rightarrow> f v | None \<Rightarrow> d)"

definition entry_of :: "byte list \<Rightarrow> (byte list \<times> byte list) list \<Rightarrow> byte list \<Rightarrow> tar_entry" where
  "entry_of b kvs data =
     \<lparr>te_path = or_record kvs ''path'' (cstr (seg b 0 100)) (\<lambda>v. v), te_kind = b ! 156,
      te_link = or_record kvs ''linkpath'' (cstr (seg b 157 100)) (\<lambda>v. v), te_mode = read_num 8 (seg b 100 8),
      te_uid = or_record kvs ''uid'' (read_num 8 (seg b 108 8)) (from_digits 10),
      te_gid = or_record kvs ''gid'' (read_num 8 (seg b 116 8)) (from_digits 10),
      te_mtime = or_record kvs ''mtime'' \<lparr>ts_secs = int (read_num 8 (seg b 136 12)), ts_nsecs = 0\<rparr> read_time,
      te_dev = (if b ! 156 = 0x33 \<or> b ! 156 = 0x34 then (read_num 8 (seg b 329 8), read_num 8 (seg b 337 8)) else (0, 0)),
      te_xattrs = map (\<lambda>(k, v). (drop 13 k, v)) (filter (\<lambda>(k, v). take 13 k = ascii ''SCHILY.xattr.'') kvs),
      te_data = data\<rparr>"

function untar :: "byte list \<Rightarrow> (byte list \<times> byte list) list \<Rightarrow> tar_entry list option" where
  "untar bs kvs =
     (if length bs < 512 then None
      else
        let b = take 512 bs; rest = drop 512 bs in
        if b = replicate 512 0 then if take 512 rest = replicate 512 0 then Some [] else None
        else if \<not> sum_ok b then None
        else
          let sz = or_record kvs ''size'' (read_num 8 (seg b 124 12)) (from_digits 10); total = sz + pad_of sz in
          if length rest < total then None
          else if b ! 156 = 0x78 then Option.bind (pax_parse (take sz rest)) (untar (drop total rest))
          else map_option ((#) (entry_of b kvs (take sz rest))) (untar (drop total rest) []))"
  by pat_completeness auto
termination by (relation "measure (\<lambda>(bs, kvs). length bs)") auto

declare untar.simps [simp del]

lemma untar_block:
  assumes "length b = 512" and "sum_ok b" and "b ! 156 \<noteq> 0"
    and "or_record kvs ''size'' (read_num 8 (seg b 124 12)) (from_digits 10) = length c"
  shows "untar (b @ c @ replicate (pad_of (length c)) 0 @ rest) kvs =
    (if b ! 156 = 0x78 then Option.bind (pax_parse c) (untar rest)
     else map_option ((#) (entry_of b kvs c)) (untar rest []))"
proof -
  have "replicate 512 0 ! 156 = (0 :: byte)" by (rule nth_replicate) simp
  then have "b \<noteq> replicate 512 0" using assms(3) by metis
  then show ?thesis using assms by (subst untar.simps) (simp add: Let_def)
qed

lemma untar_end: "untar (replicate 1024 0) kvs = Some []"
  by (subst untar.simps) simp

text \<open>What an entry is to the reader, and the entries that can be written faithfully.\<close>

definition entry_size :: "header \<Rightarrow> nat" where
  "entry_size h = (if h_kind h = File then h_size h else 0)"

definition view :: "header \<Rightarrow> byte list \<Rightarrow> tar_entry" where
  "view h data =
     \<lparr>te_path = h_path h, te_kind = flag (h_kind h), te_link = h_link h, te_mode = h_mode h AND 0xfff,
      te_uid = h_uid h, te_gid = h_gid h, te_mtime = h_mtime h,
      te_dev = (if is_device (h_kind h) then (h_major h, h_minor h) else (0, 0)), te_xattrs = h_xattrs h, te_data = data\<rparr>"

definition header_ok :: "header \<Rightarrow> bool" where
  "header_ok h \<longleftrightarrow>
     0 \<notin> set (h_path h) \<and> 0 \<notin> set (h_link h) \<and> ts_nsecs (h_mtime h) < 1000000000 \<and>
     (is_device (h_kind h) \<longrightarrow> h_major h < 2 ^ 21 \<and> h_minor h < 2 ^ 21) \<and>
     (\<forall>(name, val) \<in> set (h_xattrs h). 0x3d \<notin> set name) \<and>
     (case pax_records h (entry_size h) (ustar_fits (h_path h) h (entry_size h)) of Ok pax \<Rightarrow> length pax < 2 ^ 33 | _ \<Rightarrow> True)"

text \<open>The extended records as keys and values.\<close>

definition pax_kvs :: "header \<Rightarrow> byte list \<Rightarrow> (byte list \<times> byte list) list" where
  "pax_kvs h t =
     (if \<not> ustar_fits (h_path h) h (entry_size h) \<or> ts_nsecs (h_mtime h) \<noteq> 0 then
        (if length (h_path h) > 100 then [(ascii ''path'', h_path h)] else []) @
        (if length (h_link h) > 100 then [(ascii ''linkpath'', h_link h)] else []) @
        [(ascii ''size'', digits 10 (entry_size h)), (ascii ''uid'', digits 10 (h_uid h)),
         (ascii ''gid'', digits 10 (h_gid h)), (ascii ''mtime'', t)]
      else []) @ map (\<lambda>(name, val). (ascii ''SCHILY.xattr.'' @ name, val)) (h_xattrs h)"

lemma pax_records_kvs:
  assumes "pax_time (h_mtime h) = Ok t"
  shows "pax_records h (entry_size h) (ustar_fits (h_path h) h (entry_size h)) =
    Ok (concat (map (\<lambda>(key, val). pax_record key val) (pax_kvs h t)))"
  by (simp add: pax_records_def pax_kvs_def assms comp_def case_prod_unfold)

lemma pax_kvs_parse:
  assumes "header_ok h"
  shows "pax_parse (concat (map (\<lambda>(key, val). pax_record key val) (pax_kvs h t))) = Some (pax_kvs h t)"
proof (rule pax_records_parse)
  have "0x3d \<notin> set (ascii ''SCHILY.xattr.'')" by (simp add: ascii_def)
  then show "\<forall>(key, val) \<in> set (pax_kvs h t). 0x3d \<notin> set key"
    using assms by (auto simp: pax_kvs_def header_ok_def ascii_def)
qed

lemma map_of_xattrs: "take 1 key \<noteq> [0x53] \<Longrightarrow> map_of (map (\<lambda>(n, v). (ascii ''SCHILY.xattr.'' @ n, v)) xs) key = None"
  by (induction xs) (auto simp: ascii_def)

lemma filter_xattrs:
  "map (\<lambda>(k, v). (drop 13 k, v)) (filter (\<lambda>(k, v). take 13 k = ascii ''SCHILY.xattr.'')
     (map (\<lambda>(n, v). (ascii ''SCHILY.xattr.'' @ n, v)) xs)) = xs"
  by (induction xs) (auto simp: ascii_def)

lemma pax_kvs_records:
  assumes "\<not> (ustar_fits (h_path h) h (entry_size h) \<and> ts_nsecs (h_mtime h) = 0)"
  shows "or_record (pax_kvs h t) ''path'' d f = (if length (h_path h) > 100 then f (h_path h) else d)"
    and "or_record (pax_kvs h t) ''linkpath'' d f = (if length (h_link h) > 100 then f (h_link h) else d)"
    and "or_record (pax_kvs h t) ''size'' d' f' = f' (digits 10 (entry_size h))"
    and "or_record (pax_kvs h t) ''uid'' d' f' = f' (digits 10 (h_uid h))"
    and "or_record (pax_kvs h t) ''gid'' d' f' = f' (digits 10 (h_gid h))"
    and "or_record (pax_kvs h t) ''mtime'' d'' f'' = f'' t"
  using assms map_of_xattrs [of "ascii ''path''" "h_xattrs h"] map_of_xattrs [of "ascii ''linkpath''" "h_xattrs h"]
  by (auto simp: or_record_def pax_kvs_def ascii_def map_add_def)

lemma pax_kvs_none:
  assumes "ustar_fits (h_path h) h (entry_size h)" and "ts_nsecs (h_mtime h) = 0" and "take 1 (ascii key) \<noteq> [0x53]"
  shows "or_record (pax_kvs h t) key d f = d"
  using assms map_of_xattrs [of "ascii key" "h_xattrs h"] by (simp add: or_record_def pax_kvs_def)

lemma record_keys:
  "take (Suc 0) (ascii ''path'') \<noteq> [0x53]" "take (Suc 0) (ascii ''linkpath'') \<noteq> [0x53]" "take (Suc 0) (ascii ''size'') \<noteq> [0x53]"
  "take (Suc 0) (ascii ''uid'') \<noteq> [0x53]" "take (Suc 0) (ascii ''gid'') \<noteq> [0x53]" "take (Suc 0) (ascii ''mtime'') \<noteq> [0x53]"
  by (simp_all add: ascii_def)

lemma pax_kvs_xattrs:
  "map (\<lambda>(k, v). (drop 13 k, v)) (filter (\<lambda>(k, v). take 13 k = ascii ''SCHILY.xattr.'') (pax_kvs h t)) = h_xattrs h"
proof -
  have "filter (\<lambda>(k, v). take 13 k = ascii ''SCHILY.xattr.'') (pax_kvs h t) =
    filter (\<lambda>(k, v). take 13 k = ascii ''SCHILY.xattr.'') (map (\<lambda>(n, v). (ascii ''SCHILY.xattr.'' @ n, v)) (h_xattrs h))"
    by (simp add: pax_kvs_def ascii_def)
  then show ?thesis by (simp only: filter_xattrs)
qed

lemma cstr_id: "0 \<notin> set p \<Longrightarrow> cstr p = p"
  by (auto simp: cstr_def takeWhile_eq_all_conv)

lemma cstr_take: "0 \<notin> set p \<Longrightarrow> cstr (take n p) = take n p"
  by (rule cstr_id) (auto dest: in_set_takeD)

lemma octal_8: "v < 2 ^ 21 \<Longrightarrow> octal 8 v \<noteq> None"
  by (simp add: octal_def Let_def)

lemma shown_fits: "octal len v \<noteq> None \<Longrightarrow> shown len v = v"
  by (auto simp: shown_def)

lemma flag_device: "flag k = 0x33 \<or> flag k = 0x34 \<longleftrightarrow> is_device k" "flag k \<noteq> 0" "flag k \<noteq> 0x78"
  by (cases k; simp add: is_device_def)+

lemma entry_of_view:
  assumes ok: "header_ok h" and t: "read_time t = h_mtime h"
    and b: "block_shows b (h_path h) (flag (h_kind h)) h (entry_size h)"
  shows "entry_of b (pax_kvs h t) data = view h data"
    and "or_record (pax_kvs h t) ''size'' (read_num 8 (seg b 124 12)) (from_digits 10) = entry_size h"
proof -
  have m: "h_mode h AND 0xfff < 2 ^ 21"
  proof -
    have "h_mode h AND 0xfff = take_bit 12 (h_mode h)" by (simp add: take_bit_eq_mask mask_eq_exp_minus_1)
    then show ?thesis using take_bit_nat_less_exp [of 12 "h_mode h"] by simp
  qed
  note oks = ok [unfolded header_ok_def]
  note bs = b [unfolded block_shows_def]
  have dev: "is_device (h_kind h) \<Longrightarrow> read_num 8 (seg b 329 8) = h_major h \<and> read_num 8 (seg b 337 8) = h_minor h"
    using oks bs octal_8 shown_fits by simp
  have md: "read_num 8 (seg b 100 8) = h_mode h AND 0xfff" using bs octal_8 [OF m] shown_fits by simp
  have k: "b ! 156 = flag (h_kind h)" using bs by simp
  have cp: "cstr (seg b 0 100) = take 100 (h_path h)" "cstr (seg b 157 100) = take 100 (h_link h)"
    using oks bs cstr_take by simp_all
  have "entry_of b (pax_kvs h t) data = view h data \<and>
    or_record (pax_kvs h t) ''size'' (read_num 8 (seg b 124 12)) (from_digits 10) = entry_size h"
  proof (cases "ustar_fits (h_path h) h (entry_size h) \<and> ts_nsecs (h_mtime h) = 0")
    case True
    then have f: "length (h_path h) \<le> 100" "length (h_link h) \<le> 100" "shown 8 (h_uid h) = h_uid h" "shown 8 (h_gid h) = h_gid h"
      "shown 12 (entry_size h) = entry_size h" "0 \<le> ts_secs (h_mtime h)"
      "shown 12 (nat (ts_secs (h_mtime h))) = nat (ts_secs (h_mtime h))"
      by (auto simp: ustar_fits_def shown_def)
    have mt: "\<lparr>ts_secs = int (read_num 8 (seg b 136 12)), ts_nsecs = 0\<rparr> = h_mtime h"
      using f bs True by (cases "h_mtime h") simp
    note none = pax_kvs_none [OF True [THEN conjunct1] True [THEN conjunct2]]
    show ?thesis
      unfolding entry_of_def view_def
      using f bs dev md k cp mt by (simp add: none record_keys flag_device pax_kvs_xattrs)
  next
    case False
    note r = pax_kvs_records [OF False]
    show ?thesis
      unfolding entry_of_def view_def
      using dev md k cp t by (simp add: r flag_device pax_kvs_xattrs)
  qed
  then show "entry_of b (pax_kvs h t) data = view h data"
    and "or_record (pax_kvs h t) ''size'' (read_num 8 (seg b 124 12)) (from_digits 10) = entry_size h" by simp_all
qed

lemma on_vec: "on_sink (sk_write_all vec_sink buf) w = (Ok (), w\<lparr>w_sink := w_sink w @ buf\<rparr>)"
  "on_sink (sk_flush vec_sink) w = (Ok (), w)"
  by (simp_all add: on_sink_def vec_sink_def ret_def)

lemma finish_entry_vec:
  "finish_entry vec_sink w = (Ok (), w\<lparr>w_sink := w_sink w @ replicate (w_pad w) 0, w_pad := 0\<rparr>)"
  by (cases w) (simp add: finish_entry_def on_vec)

lemma pad_of_dvd: "512 dvd n + pad_of n"
proof -
  have "(n + pad_of n) mod 512 = (n + (512 - n mod 512)) mod 512"
    unfolding pad_of_def by (rule mod_add_right_eq)
  also have "n + (512 - n mod 512) = (n div 512 + 1) * 512"
  proof -
    have "q * 512 + r + (512 - r) = (q + 1) * 512" if "r < 512" for q r :: nat using that by simp
    from this [of "n mod 512" "n div 512"] show ?thesis by simp
  qed
  finally show ?thesis by (simp add: dvd_eq_mod_eq_0)
qed

text \<open>One entry: what the writer adds to its sink, and how the reader takes it.\<close>

lemma tar_begin_vec:
  assumes ok: "header_ok h" and w: "w_owed w = 0"
  shows "\<exists>bs. tar_begin vec_sink h w =
      (Ok (), \<lparr>w_sink = w_sink w @ replicate (w_pad w) 0 @ bs, w_owed = entry_size h, w_pad = pad_of (entry_size h)\<rparr>) \<and>
    512 dvd length bs \<and>
    (\<forall>data rest. length data = entry_size h \<longrightarrow>
       untar (bs @ data @ replicate (pad_of (length data)) 0 @ rest) [] = map_option ((#) (view h data)) (untar rest []))"
proof -
  let ?sz = "entry_size h" and ?fits = "ustar_fits (h_path h) h (entry_size h)"
  obtain t where t: "pax_time (h_mtime h) = Ok t" "read_time t = h_mtime h"
    using ok read_time_pax_time [of "h_mtime h"] by (auto simp: header_ok_def)
  define pax where "pax = concat (map (\<lambda>(key, val). pax_record key val) (pax_kvs h t))"
  have p: "pax_records h ?sz ?fits = Ok pax" unfolding pax_def by (rule pax_records_kvs [OF t(1)])
  have parse: "pax_parse pax = Some (pax_kvs h t)" unfolding pax_def by (rule pax_kvs_parse [OF ok])
  obtain b where b: "ustar (h_path h) (flag (h_kind h)) h ?sz = Ok (b, ?fits)" "block_shows b (h_path h) (flag (h_kind h)) h ?sz"
    by (rule ustar_shows)
  note view = entry_of_view [OF ok t(2) b(2)]
  have bl: "length b = 512" "sum_ok b" "b ! 156 = flag (h_kind h)" using b(2) by (simp_all add: block_shows_def)
  have entry: "untar (b @ data @ replicate (pad_of (length data)) 0 @ rest) (pax_kvs h t) = map_option ((#) (view h data)) (untar rest [])"
    if "length data = ?sz" for data rest
    using untar_block [of b "pax_kvs h t" data rest] bl view that flag_device(2,3) [of "h_kind h"] by simp
  show ?thesis
  proof (cases "pax = []")
    case True
    then have "pax_kvs h t = []" using parse by (subst (asm) pax_parse.simps) simp
    then have "\<forall>data rest. length data = ?sz \<longrightarrow>
      untar (b @ data @ replicate (pad_of (length data)) 0 @ rest) [] = map_option ((#) (view h data)) (untar rest [])"
      using entry by simp
    moreover have "tar_begin vec_sink h w = (Ok (), \<lparr>w_sink = w_sink w @ replicate (w_pad w) 0 @ b, w_owed = ?sz, w_pad = pad_of ?sz\<rparr>)"
      using w True p b(1) by (cases w) (simp add: tar_begin_def seq_def lift_def finish_entry_vec on_vec ret_def modify_def entry_size_def [symmetric] Let_def)
    ultimately show ?thesis using bl(1) by auto
  next
    case False
    obtain xb where xb: "ustar (pax_name (h_path h)) 0x78 (pax_header h) (length pax) =
        Ok (xb, ustar_fits (pax_name (h_path h)) (pax_header h) (length pax))"
      "block_shows xb (pax_name (h_path h)) 0x78 (pax_header h) (length pax)"
      by (rule ustar_shows)
    let ?x = "xb @ pax @ replicate (pad_of (length pax)) 0"
    have "length pax < 2 ^ 33" using ok p by (simp add: header_ok_def)
    then have xl: "length xb = 512" "sum_ok xb" "xb ! 156 = 0x78" "read_num 8 (seg xb 124 12) = length pax"
      using xb(2) by (simp_all add: block_shows_def shown_def octal_def Let_def)
    have "untar (?x @ rest) [] = untar rest (pax_kvs h t)" for rest
      using untar_block [of xb "[]" pax rest] xl parse by (simp add: or_record_def)
    then have "\<forall>data rest. length data = ?sz \<longrightarrow>
      untar ((?x @ b) @ data @ replicate (pad_of (length data)) 0 @ rest) [] = map_option ((#) (view h data)) (untar rest [])"
      using entry by simp
    moreover have "tar_begin vec_sink h w = (Ok (), \<lparr>w_sink = w_sink w @ replicate (w_pad w) 0 @ ?x @ b, w_owed = ?sz, w_pad = pad_of ?sz\<rparr>)"
      using w False p b(1) xb(1)
      by (cases w) (simp add: tar_begin_def seq_def lift_def finish_entry_vec on_vec ret_def modify_def entry_size_def [symmetric] Let_def)
    moreover have "512 dvd length (?x @ b)" using bl(1) xl(1) pad_of_dvd [of "length pax"] by (simp add: add.assoc)
    ultimately show ?thesis by (intro exI [of _ "?x @ b"]) simp
  qed
qed

lemma tar_append_vec:
  assumes "header_ok h" and "length data = entry_size h" and "w_owed w = 0"
  shows "\<exists>bs. tar_append vec_sink h data w =
      (Ok (), \<lparr>w_sink = w_sink w @ replicate (w_pad w) 0 @ bs, w_owed = 0, w_pad = pad_of (length data)\<rparr>) \<and>
    512 dvd length bs + pad_of (length data) \<and>
    (\<forall>rest. untar (bs @ replicate (pad_of (length data)) 0 @ rest) [] = map_option ((#) (view h data)) (untar rest []))"
proof -
  obtain bs where bs: "tar_begin vec_sink h w =
      (Ok (), \<lparr>w_sink = w_sink w @ replicate (w_pad w) 0 @ bs, w_owed = entry_size h, w_pad = pad_of (entry_size h)\<rparr>)"
    "512 dvd length bs"
    "\<forall>data rest. length data = entry_size h \<longrightarrow>
       untar (bs @ data @ replicate (pad_of (length data)) 0 @ rest) [] = map_option ((#) (view h data)) (untar rest [])"
    using tar_begin_vec [OF assms(1,3)] by blast
  have "tar_append vec_sink h data w =
      (Ok (), \<lparr>w_sink = w_sink w @ replicate (w_pad w) 0 @ bs @ data, w_owed = 0, w_pad = pad_of (length data)\<rparr>)"
    using bs(1) assms(2) by (simp add: tar_append_def seq_def tar_data_def on_vec)
  moreover have "512 dvd length (bs @ data) + pad_of (length data)"
    using bs(2) pad_of_dvd [of "length data"] by (simp add: add.assoc)
  ultimately show ?thesis using bs(3) assms(2) by (intro exI [of _ "bs @ data"]) simp
qed

lemma tar_archive_vec:
  assumes "\<forall>(h, data) \<in> set es. header_ok h \<and> length data = entry_size h" and "w_owed w = 0"
  shows "\<exists>bs. seq (for_each (\<lambda>(h, data). tar_append vec_sink h data) es) (\<lambda>_. tar_finish vec_sink) w =
      (Ok (), \<lparr>w_sink = w_sink w @ replicate (w_pad w) 0 @ bs, w_owed = 0, w_pad = 0\<rparr>) \<and>
    512 dvd length bs \<and> untar bs [] = Some (map (\<lambda>(h, data). view h data) es)"
  using assms
proof (induction es arbitrary: w)
  case Nil
  then have "seq (for_each (\<lambda>(h, data). tar_append vec_sink h data) []) (\<lambda>_. tar_finish vec_sink) w =
      (Ok (), \<lparr>w_sink = w_sink w @ replicate (w_pad w) 0 @ replicate 1024 0, w_owed = 0, w_pad = 0\<rparr>)"
    by (cases w) (simp add: tar_finish_def seq_def finish_entry_vec on_vec ret_def)
  then show ?case using untar_end [of "[]"] by (intro exI [of _ "replicate 1024 0"]) simp
next
  case (Cons e es)
  obtain h data where e: "e = (h, data)" by (cases e)
  let ?w = "\<lambda>bs. \<lparr>w_sink = w_sink w @ replicate (w_pad w) 0 @ bs, w_owed = 0, w_pad = pad_of (length data)\<rparr>"
  obtain b1 where b1: "tar_append vec_sink h data w = (Ok (), ?w b1)" "512 dvd length b1 + pad_of (length data)"
    "\<forall>rest. untar (b1 @ replicate (pad_of (length data)) 0 @ rest) [] = map_option ((#) (view h data)) (untar rest [])"
    using tar_append_vec [of h data w] Cons.prems e by auto
  obtain b2 where b2: "seq (for_each (\<lambda>(h, data). tar_append vec_sink h data) es) (\<lambda>_. tar_finish vec_sink) (?w b1) =
      (Ok (), \<lparr>w_sink = w_sink (?w b1) @ replicate (pad_of (length data)) 0 @ b2, w_owed = 0, w_pad = 0\<rparr>)"
    "512 dvd length b2" "untar b2 [] = Some (map (\<lambda>(h, data). view h data) es)"
    using Cons.IH [of "?w b1"] Cons.prems(1) by auto
  let ?b = "b1 @ replicate (pad_of (length data)) 0 @ b2"
  have "seq (for_each (\<lambda>(h, data). tar_append vec_sink h data) (e # es)) (\<lambda>_. tar_finish vec_sink) w =
      (Ok (), \<lparr>w_sink = w_sink w @ replicate (w_pad w) 0 @ ?b, w_owed = 0, w_pad = 0\<rparr>)"
    using b1(1) b2(1) by (simp add: e seq_def)
  moreover have "512 dvd length ?b" using b1(2) b2(2) by (simp add: add.assoc [symmetric])
  ultimately show ?case using b1(3) b2(3) e by (intro exI [of _ ?b]) simp
qed

section \<open>Properties\<close>

text \<open>
  C9. An archive is read back: appending entries to a new writer and finishing succeeds,
  and a reader of the format that checks the checksums and applies the extended records
  finds exactly the entries, with their names, kinds, links, permissions, owners, times to
  the nanosecond, devices, attributes and contents. The archive is a whole number of blocks.
  The entries have no zero byte in a path or link, nanoseconds below a second, device numbers
  below \<open>2 ^ 21\<close>, no equals sign in an attribute name and records below 8 GiB, and each one
  comes with as many bytes as its header says.
\<close>

theorem archive_read_back:
  assumes "\<forall>(h, data) \<in> set es. header_ok h \<and> length data = entry_size h"
  shows "\<exists>bs. seq (for_each (\<lambda>(h, data). tar_append vec_sink h data) es) (\<lambda>_. tar_finish vec_sink) (writer_new []) =
      (Ok (), writer_new bs) \<and> 512 dvd length bs \<and> untar bs [] = Some (map (\<lambda>(h, data). view h data) es)"
  using tar_archive_vec [OF assms, of "writer_new []"] by (simp add: writer_new_def)

definition demo_header :: header where
  "demo_header = default_header\<lparr>h_path := ascii ''a'', h_mode := 0x1a4, h_size := 3,
     h_mtime := \<lparr>ts_secs = - 2, ts_nsecs = 500000000\<rparr>, h_xattrs := [(ascii ''user.x'', [0x3d])]\<rparr>"

lemma pax_record_length_le: "length (pax_record key val) \<le> 2 * (length key + length val) + 8"
proof -
  let ?n = "length (pax_record key val)"
  have "?n = length key + length val + 3 + length (digits 10 ?n)"
    unfolding pax_record_length by (rule pax_len_fix)
  moreover have "length (digits 10 ?n) \<le> ?n div 10 + 1" by (rule digits_length_le)
  moreover have "?n div 10 * 10 \<le> ?n" by simp
  moreover have "n \<le> 2 * k + 8" if "n = k + 3 + d" "d \<le> q + 1" "q * 10 \<le> n" for n k d q :: nat using that by simp
  ultimately show ?thesis by blast
qed

lemma demo_header_ok: "header_ok demo_header"
proof -
  have t: "pax_time (h_mtime demo_header) = Ok (0x2d # digits 10 1 @ 0x2e # padded 10 9 500000000)"
    by (simp add: demo_header_def pax_time_def sub_w_def dec_int_def ascii_def)
  obtain kvs where kvs: "kvs = pax_kvs demo_header (0x2d # digits 10 1 @ 0x2e # padded 10 9 500000000)" by simp
  have d: "length (digits 10 0) = 1" "length (digits 10 1) = 1" "length (digits 10 3) = 1" by (subst digits.simps, simp)+
  have "length (padded 10 9 500000000) = 9" by (rule padded_length) simp_all
  then have "list_all (\<lambda>(k, v). length k + length v < 100) kvs \<and> length kvs \<le> 8"
    using d by (auto simp: kvs pax_kvs_def demo_header_def default_header_def entry_size_def ascii_def)
  moreover have "length (concat (map (\<lambda>(key, val). pax_record key val) kvs)) \<le> length kvs * 208"
    if "list_all (\<lambda>(k, v). length k + length v < 100) kvs" for kvs :: "(byte list \<times> byte list) list"
    using that
  proof (induction kvs)
    case (Cons kv kvs)
    then show ?case using pax_record_length_le [of "fst kv" "snd kv"] by (cases kv) simp
  qed simp
  ultimately have "length (concat (map (\<lambda>(key, val). pax_record key val) kvs)) < 2 ^ 33"
    by fastforce
  then show ?thesis
    using pax_records_kvs [OF t] kvs
    by (simp add: header_ok_def) (simp add: demo_header_def default_header_def ascii_def is_device_def)
qed

theorem archive_read_back_witness:
  "\<exists>bs. seq (for_each (\<lambda>(h, data). tar_append vec_sink h data) [(demo_header, [1, 2, 3])]) (\<lambda>_. tar_finish vec_sink) (writer_new []) =
     (Ok (), writer_new bs) \<and> untar bs [] = Some [view demo_header [1, 2, 3]]"
proof -
  have "entry_size demo_header = 3" by (simp add: entry_size_def demo_header_def default_header_def)
  then show ?thesis using archive_read_back [of "[(demo_header, [1, 2, 3])]"] demo_header_ok by auto
qed

text \<open>
  The length in front of an extended record counts itself: the search for it ends, the
  record is exactly that long, and records written one after another are taken apart again
  into the keys and values, whatever bytes the values have, as long as no key has an equals
  sign. A key with one is the same record as the key cut there, with the rest in the value.
\<close>

lemma pax_record_self_length:
  "\<exists>ds. pax_record key val = ds @ [0x20] @ key @ [0x3d] @ val @ [0x0a] \<and> (\<forall>b \<in> set ds. is_digit b) \<and>
     from_digits 10 ds = length (pax_record key val) \<and>
     (0x3d \<notin> set key \<longrightarrow> pax_parse (pax_record key val @ rest) = map_option ((#) (key, val)) (pax_parse rest)) \<and>
     pax_record (key @ [0x3d] @ key2) val = pax_record key (key2 @ [0x3d] @ val)"
proof -
  let ?ds = "digits 10 (pax_len (length key + length val + 3) (length key + length val + 3 + 1))"
  have "pax_record key val = ?ds @ [0x20] @ key @ [0x3d] @ val @ [0x0a]" by (simp add: pax_record_def Let_def ascii_def)
  then show ?thesis
    using digits_are_digits [of 10] pax_record_length [of key val] pax_record_parse [of key val rest] pax_record_cut [of key key2 val]
    by (intro exI [of _ ?ds]) simp
qed

lemma pax_record_self_length_witness:
  "pax_parse (pax_record (ascii ''a'') (ascii ''b=c'')) = Some [(ascii ''a'', ascii ''b=c'')] \<and>
   pax_record (ascii ''a=b'') (ascii ''c'') = pax_record (ascii ''a'') (ascii ''b=c'')"
proof -
  have "0x3d \<notin> set (ascii ''a'')" "ascii ''a=b'' = ascii ''a'' @ [0x3d] @ ascii ''b''" "ascii ''b=c'' = ascii ''b'' @ [0x3d] @ ascii ''c''"
    by (simp_all add: ascii_def)
  moreover have "pax_parse [] = Some []" by (subst pax_parse.simps) simp
  ultimately show ?thesis
    using pax_record_self_length [of "ascii ''a''" "ascii ''b=c''" "[]" "[]"]
      pax_record_self_length [of "ascii ''a''" "ascii ''c''" "[]" "ascii ''b''"] by auto
qed

text \<open>The writer's protocol: the states that successful calls of \<open>begin\<close> and \<open>data\<close> lead to.\<close>

datatype tar_call = BeginCall header | DataCall "byte list"

primrec tar_call_proc :: "tar_call \<Rightarrow> (byte list writer, unit) proc" where
  "tar_call_proc (BeginCall h) = tar_begin vec_sink h"
| "tar_call_proc (DataCall buf) = tar_data vec_sink buf"

inductive writer_reach :: "byte list writer \<Rightarrow> bool" where
  start: "writer_reach (writer_new [])"
| call: "writer_reach w \<Longrightarrow> tar_call_proc c w = (Ok (), w') \<Longrightarrow> writer_reach w'"

lemma tar_begin_blocks:
  assumes "tar_begin vec_sink h w = (Ok (), w')"
  shows "w_owed w = 0" and "w_owed w' = entry_size h" and "w_pad w' = pad_of (entry_size h)"
    and "\<exists>n. length (w_sink w') = length (w_sink w) + w_pad w + 512 * n"
proof -
  let ?sz = "entry_size h"
  show w: "w_owed w = 0" using assms by (auto simp: tar_begin_def split: if_splits)
  obtain b where b: "ustar (h_path h) (flag (h_kind h)) h ?sz = Ok (b, ustar_fits (h_path h) h ?sz)" "length b = 512"
    by (rule ustar_shows [where path = "h_path h" and kind = "flag (h_kind h)" and h = h and sz = ?sz]) (auto simp: block_shows_def)
  then obtain pax where p: "pax_records h ?sz (ustar_fits (h_path h) h ?sz) = Ok pax"
    using assms w by (cases "pax_records h ?sz (ustar_fits (h_path h) h ?sz)")
      (simp_all add: tar_begin_def seq_def lift_def finish_entry_vec entry_size_def [symmetric] Let_def)
  obtain xb f where xb: "ustar (pax_name (h_path h)) 0x78 (pax_header h) (length pax) = Ok (xb, f)" "length xb = 512"
    by (rule ustar_shows [where path = "pax_name (h_path h)" and kind = "0x78" and h = "pax_header h" and sz = "length pax"]) (auto simp: block_shows_def)
  let ?x = "if pax = [] then [] else xb @ pax @ replicate (pad_of (length pax)) 0"
  have w': "w' = \<lparr>w_sink = w_sink w @ replicate (w_pad w) 0 @ ?x @ b, w_owed = ?sz, w_pad = pad_of ?sz\<rparr>"
    using assms w p b(1) xb(1)
    by (cases w) (simp add: tar_begin_def seq_def lift_def finish_entry_vec on_vec ret_def modify_def entry_size_def [symmetric] Let_def split: if_splits)
  then show "w_owed w' = ?sz" "w_pad w' = pad_of ?sz" by simp_all
  have "512 dvd length (?x @ b)" using b(2) xb(2) pad_of_dvd [of "length pax"] by (simp add: add.assoc)
  then show "\<exists>n. length (w_sink w') = length (w_sink w) + w_pad w + 512 * n" using w' by (auto elim: dvdE)
qed

lemma writer_reach_aligned: "writer_reach w \<Longrightarrow> 512 dvd length (w_sink w) + w_owed w + w_pad w"
proof (induction rule: writer_reach.induct)
  case start
  then show ?case by (simp add: writer_new_def)
next
  case (call w c w')
  show ?case
  proof (cases c)
    case (BeginCall h)
    note b = tar_begin_blocks [of h w w']
    have "512 dvd entry_size h + pad_of (entry_size h)" by (rule pad_of_dvd)
    moreover have "512 dvd length (w_sink w) + w_pad w" using call.IH b(1) call.hyps(2) BeginCall by simp
    moreover obtain n where "length (w_sink w') = length (w_sink w) + w_pad w + 512 * n" using b(4) call.hyps(2) BeginCall by auto
    ultimately have "512 dvd length (w_sink w') + (entry_size h + pad_of (entry_size h))" by simp
    then show ?thesis using b(2,3) call.hyps(2) BeginCall by (simp add: add.assoc)
  next
    case (DataCall buf)
    then show ?thesis using call by (auto simp: tar_data_def on_vec split: if_splits)
  qed
qed

text \<open>
  C35. The writer keeps its blocks: after any sequence of calls that succeed, the bytes
  written with those still owed are a whole number of blocks; finishing succeeds exactly when
  nothing is owed and leaves whole blocks, and otherwise it panics, as does beginning the
  next entry; writing more than is owed panics too.
\<close>

theorem writer_protocol:
  assumes "writer_reach w"
  shows "512 dvd length (w_sink w) + w_owed w + w_pad w \<and>
    (if w_owed w = 0
     then \<exists>w'. tar_finish vec_sink w = (Ok (), w') \<and> 512 dvd length (w_sink w')
     else tar_finish vec_sink w = (Panic, w) \<and> tar_begin vec_sink h w = (Panic, w)) \<and>
    (tar_data vec_sink buf w = (Panic, w) \<longleftrightarrow> length buf > w_owed w)"
proof -
  note a = writer_reach_aligned [OF assms]
  have "512 dvd (1024 :: nat)" by simp
  then have "512 dvd length (w_sink w) + (w_pad w + 1024)" if "w_owed w = 0" using a that by (simp only: add_0_right dvd_add add.assoc [symmetric])
  with a show ?thesis
    by (auto simp: tar_finish_def tar_begin_def tar_data_def seq_def finish_entry_vec on_vec)
qed

theorem writer_protocol_witness:
  "tar_finish vec_sink (writer_new []) = (Ok (), writer_new (replicate 1024 0)) \<and> 512 dvd length (w_sink (writer_new (replicate 1024 (0 :: byte))))"
  using writer_protocol [OF writer_reach.start, of default_header "[]"]
  by (auto simp: writer_new_def tar_finish_def seq_def finish_entry_vec on_vec)

end
