(* ===== verification/Export.thy ===== *)
theory Export
  imports Paths Tar
begin

text \<open>
  Getting a tree out (\<open>src/src/export.rs\<close>): \<open>pack_tar\<close> and \<open>pack_tar_to\<close> walk a tree into a tar
  archive, \<open>extract\<close> copies it onto the filesystem of the host. The host's filesystem is a
  record of the calls the code makes of it, over a state of its own; the report counters are
  natural numbers, but the count of bytes is kept to its 64 bits. The loops that copy a file's
  bytes are partial functions: a method that does not return is \<open>None\<close>.
\<close>

section \<open>Methods that may not return\<close>

type_synonym ('s, 'a) lproc = "'s \<Rightarrow> ('a res \<times> 's) option"

definition once :: "('s, 'a) proc \<Rightarrow> ('s, 'a) lproc" where
  "once m s = Some (m s)"

definition lseq :: "('s, 'a) lproc \<Rightarrow> ('a \<Rightarrow> ('s, 'b) lproc) \<Rightarrow> ('s, 'b) lproc" where
  "lseq m f s =
     (case m s of
        None \<Rightarrow> None
      | Some (Ok a, s') \<Rightarrow> f a s'
      | Some (Err e, s') \<Rightarrow> Some (Err e, s')
      | Some (Panic, s') \<Rightarrow> Some (Panic, s'))"

text \<open>
  The loop over a file's bytes in \<open>pack_into\<close> and \<open>extract\<close>: read a piece at the offset, put it
  away, go on behind it. An empty piece before the end would make it run for ever.
\<close>

partial_function (option) copy_loop ::
  "(nat \<Rightarrow> byte list res) \<Rightarrow> (byte list \<Rightarrow> ('s, unit) proc) \<Rightarrow> nat \<Rightarrow> nat \<Rightarrow> 's \<Rightarrow> (unit res \<times> 's) option" where
  "copy_loop rd put sz off s =
     (if off < sz then
        case rd off of
          Ok chunk \<Rightarrow>
            (case put chunk s of
               (Ok _, s') \<Rightarrow> copy_loop rd put sz (off + length chunk) s'
             | (Err e, s') \<Rightarrow> Some (Err e, s')
             | (Panic, s') \<Rightarrow> Some (Panic, s'))
        | Err e \<Rightarrow> Some (Err e, s)
        | Panic \<Rightarrow> Some (Panic, s)
      else Some (Ok (), s))"

abbreviation CHUNK :: nat where
  "CHUNK \<equiv> 2 ^ 20"

section \<open>Packing\<close>

record pack_report =
  pr_files :: nat
  pr_directories :: nat
  pr_symlinks :: nat
  pr_hard_links :: nat
  pr_devices :: nat
  pr_sockets_skipped :: nat
  pr_xattrs :: nat
  pr_bytes :: nat

definition no_packs :: pack_report where
  "no_packs = \<lparr>pr_files = 0, pr_directories = 0, pr_symlinks = 0, pr_hard_links = 0, pr_devices = 0,
     pr_sockets_skipped = 0, pr_xattrs = 0, pr_bytes = 0\<rparr>"

definition entry_header :: "walk_entry \<Rightarrow> header" where
  "entry_header e = default_header\<lparr>h_path := we_raw_path e, h_mode := st_mode (we_stat e) AND 0xfff,
     h_uid := st_uid (we_stat e), h_gid := st_gid (we_stat e), h_mtime := st_mtime (we_stat e)\<rparr>"

text \<open>The body of the loop once the inode is read and it is not a further name of one seen.\<close>

definition pack_file ::
  "'d device_ops \<Rightarrow> 'k sink_ops \<Rightarrow> 'd volume \<Rightarrow> walk_entry \<Rightarrow> inode \<Rightarrow> pack_report \<Rightarrow> ('k writer, pack_report) lproc" where
  "pack_file ops sk v e ip report =
     (let st = we_stat e; ftype = st_mode st AND IFMT; h = entry_header e in
      if ftype = IFSOCK then once (ret (report\<lparr>pr_sockets_skipped := pr_sockets_skipped report + 1\<rparr>))
      else
        lseq (once (if ftype \<noteq> IFLNK then lift (map_ok (map (\<lambda>x. (xa_name x, xa_value x))) (xattrs_inode ops v ip)) else ret [])) (\<lambda>xs.
        let h = h\<lparr>h_xattrs := xs\<rparr>; report = report\<lparr>pr_xattrs := pr_xattrs report + length xs\<rparr> in
        if ftype = IFDIR then
          lseq (once (tar_append sk (h\<lparr>h_kind := entry_kind.Directory, h_path := h_path h @ [0x2f]\<rparr>) [])) (\<lambda>_.
          once (ret (report\<lparr>pr_directories := pr_directories report + 1\<rparr>)))
        else if ftype = IFLNK then
          lseq (once (lift (symlink_target ops v ip))) (\<lambda>target.
          lseq (once (tar_append sk (h\<lparr>h_kind := entry_kind.Symlink, h_link := target\<rparr>) [])) (\<lambda>_.
          once (ret (report\<lparr>pr_symlinks := pr_symlinks report + 1\<rparr>))))
        else if ftype = IFCHR \<or> ftype = IFBLK \<or> ftype = IFIFO then
          lseq (once (tar_append sk (h\<lparr>h_kind := (if ftype = IFCHR then entry_kind.CharDevice
                 else if ftype = IFBLK then entry_kind.BlockDevice else entry_kind.Fifo),
               h_major := fst (st_rdev st), h_minor := snd (st_rdev st)\<rparr>) [])) (\<lambda>_.
          once (ret (report\<lparr>pr_devices := pr_devices report + 1\<rparr>)))
        else if ftype = IFREG then
          lseq (once (tar_begin sk (h\<lparr>h_size := st_size st\<rparr>))) (\<lambda>_.
          lseq (once (lift (extents ops v ip False))) (\<lambda>exts.
          lseq (copy_loop (\<lambda>off. read_inode_range ops v ip exts off CHUNK) (tar_data sk) (st_size st) 0) (\<lambda>_.
          once (lift (map_ok (\<lambda>bytes. report\<lparr>pr_files := pr_files report + 1, pr_bytes := bytes\<rparr>)
            (add_w 64 (pr_bytes report) (st_size st)))))))
        else once (raise Corrupt)))"

definition pack_entry ::
  "'d device_ops \<Rightarrow> 'k sink_ops \<Rightarrow> 'd volume \<Rightarrow> walk_entry \<Rightarrow> pack_report \<times> (nat \<rightharpoonup> byte list) \<Rightarrow>
   ('k writer, pack_report \<times> (nat \<rightharpoonup> byte list)) lproc" where
  "pack_entry ops sk v e acc =
     (let st = we_stat e; (report, seen) = acc; shared = \<not> stat_is_dir st \<and> st_links st > 1 in
      lseq (once (lift (read_inode ops v (st_inode st)))) (\<lambda>ip.
      case (if shared then seen (st_inode st) else None) of
        Some first \<Rightarrow>
          lseq (once (tar_append sk ((entry_header e)\<lparr>h_kind := entry_kind.HardLink, h_link := first\<rparr>) [])) (\<lambda>_.
          once (ret (report\<lparr>pr_hard_links := pr_hard_links report + 1\<rparr>, seen)))
      | None \<Rightarrow>
          let seen = (if shared then seen(st_inode st \<mapsto> we_raw_path e) else seen) in
          lseq (pack_file ops sk v e ip report) (\<lambda>report. once (ret (report, seen)))))"

primrec pack_entries ::
  "'d device_ops \<Rightarrow> 'k sink_ops \<Rightarrow> 'd volume \<Rightarrow> walk_entry list \<Rightarrow> pack_report \<times> (nat \<rightharpoonup> byte list) \<Rightarrow>
   ('k writer, pack_report) lproc" where
  "pack_entries ops sk v [] acc = once (ret (fst acc))"
| "pack_entries ops sk v (e # es) acc = lseq (pack_entry ops sk v e acc) (pack_entries ops sk v es)"

definition pack_into :: "'d device_ops \<Rightarrow> 'k sink_ops \<Rightarrow> 'd volume \<Rightarrow> byte list \<Rightarrow> ('k writer, pack_report) lproc" where
  "pack_into ops sk v root =
     lseq (once (lift (walk ops v root))) (\<lambda>es. pack_entries ops sk v es (no_packs, \<lambda>_. None))"

definition pack_tar_to :: "'d device_ops \<Rightarrow> 'k sink_ops \<Rightarrow> 'd volume \<Rightarrow> 'k \<Rightarrow> byte list \<Rightarrow> (pack_report res \<times> 'k) option" where
  "pack_tar_to ops sk v sink root =
     map_option (\<lambda>(r, w). (r, w_sink w))
       (lseq (pack_into ops sk v root) (\<lambda>report. lseq (once (tar_finish sk)) (\<lambda>_. once (ret report))) (writer_new sink))"

definition pack_tar :: "'d device_ops \<Rightarrow> 'd volume \<Rightarrow> byte list \<Rightarrow> byte list res option" where
  "pack_tar ops v root =
     map_option (\<lambda>(r, w). map_ok (\<lambda>_. w_sink w) r)
       (lseq (pack_into ops vec_sink v root) (\<lambda>_. once (tar_finish vec_sink)) (writer_new []))"

section \<open>Extracting\<close>

text \<open>
  What the code calls of the host's filesystem: paths are their bytes, an open file is a handle
  and a time is a count of nanoseconds from 1970.
\<close>

record 's host_fs =
  fs_create_dir_all :: "byte list \<Rightarrow> ('s, unit) proc"
  fs_create_dir :: "byte list \<Rightarrow> ('s, unit) proc"
  fs_hard_link :: "byte list \<Rightarrow> byte list \<Rightarrow> ('s, unit) proc"
  fs_symlink :: "byte list \<Rightarrow> byte list \<Rightarrow> ('s, unit) proc"
  fs_create :: "byte list \<Rightarrow> ('s, nat) proc"
  fs_open :: "byte list \<Rightarrow> ('s, nat) proc"
  fs_seek :: "nat \<Rightarrow> nat \<Rightarrow> ('s, unit) proc"
  fs_write_all :: "nat \<Rightarrow> byte list \<Rightarrow> ('s, unit) proc"
  fs_set_len :: "nat \<Rightarrow> nat \<Rightarrow> ('s, unit) proc"
  fs_flush :: "nat \<Rightarrow> ('s, unit) proc"
  fs_set_modified :: "nat \<Rightarrow> int \<Rightarrow> ('s, unit) proc"
  fs_lchown :: "byte list \<Rightarrow> nat \<Rightarrow> nat \<Rightarrow> ('s, unit) proc"
  fs_set_permissions :: "byte list \<Rightarrow> nat \<Rightarrow> ('s, unit) proc"

record extract_options =
  eo_owner :: bool

record extract_report =
  er_files :: nat
  er_directories :: nat
  er_symlinks :: nat
  er_hard_links :: nat
  er_bytes :: nat
  er_specials_skipped :: "byte list list"
  er_xattrs_skipped :: nat

definition no_extracts :: extract_report where
  "no_extracts = \<lparr>er_files = 0, er_directories = 0, er_symlinks = 0, er_hard_links = 0, er_bytes = 0,
     er_specials_skipped = [], er_xattrs_skipped = 0\<rparr>"

text \<open>\<open>Path::join\<close>: an absolute second path replaces the first.\<close>

definition path_join :: "byte list \<Rightarrow> byte list \<Rightarrow> byte list" where
  "path_join a b =
     (if b \<noteq> [] \<and> hd b = 0x2f then b
      else if a = [] \<or> List.last a = 0x2f then a @ b
      else a @ [0x2f] @ b)"

abbreviation PIECE :: nat where
  "PIECE \<equiv> 4096"

definition zero_piece :: "byte list \<Rightarrow> nat \<Rightarrow> bool" where
  "zero_piece buf i \<longleftrightarrow> list_all (\<lambda>b. b = 0) (take (min (i + PIECE) (length buf) - i) (drop i buf))"

function run_end :: "byte list \<Rightarrow> bool \<Rightarrow> nat \<Rightarrow> nat" where
  "run_end buf run_zero e =
     (if e < length buf \<and> zero_piece buf e = run_zero then run_end buf run_zero (min (e + PIECE) (length buf)) else e)"
  by pat_completeness auto
termination by (relation "measure (\<lambda>(buf, z, e). length buf - e)") auto

declare run_end.simps [simp del]

lemma run_end_ge: "e \<le> run_end buf z e"
proof (induction buf z e rule: run_end.induct)
  case (1 buf z e)
  then show ?case by (subst run_end.simps) (auto simp: min_def split: if_splits)
qed

lemma run_end_advances: "at < length buf \<Longrightarrow> at < run_end buf (zero_piece buf at) at"
  using run_end_ge [of "min (at + PIECE) (length buf)" buf "zero_piece buf at"] by (subst run_end.simps) auto

lemma run_end_le: "e \<le> length buf \<Longrightarrow> run_end buf z e \<le> length buf"
proof (induction buf z e rule: run_end.induct)
  case (1 buf z e)
  then show ?case by (subst run_end.simps) auto
qed

function write_sparse :: "'s host_fs \<Rightarrow> nat \<Rightarrow> byte list \<Rightarrow> nat \<Rightarrow> ('s, unit) proc" where
  "write_sparse fs f buf at =
     (if at < length buf then
        let run_zero = zero_piece buf at; e = run_end buf run_zero at in
        seq (if run_zero then fs_seek fs f (e - at) else fs_write_all fs f (take (e - at) (drop at buf))) (\<lambda>_.
        write_sparse fs f buf e)
      else ret ())"
  by pat_completeness auto
termination
  by (relation "measure (\<lambda>(fs, f, buf, at). length buf - at)") (use run_end_advances diff_less_mono2 in auto)

declare write_sparse.simps [simp del]

definition set_file_mode :: "'s host_fs \<Rightarrow> byte list \<Rightarrow> nat \<Rightarrow> ('s, unit) proc" where
  "set_file_mode fs path m = fs_set_permissions fs path (m AND 0xfff)"

definition system_time :: "timestamp \<Rightarrow> int" where
  "system_time t =
     (if ts_secs t \<ge> 0 then ts_secs t * 10 ^ 9 + int (ts_nsecs t)
      else - (abs (ts_secs t) * 10 ^ 9) + int (ts_nsecs t))"

definition extract_data ::
  "'d device_ops \<Rightarrow> 's host_fs \<Rightarrow> 'd volume \<Rightarrow> extract_options \<Rightarrow> vstat \<Rightarrow> inode \<Rightarrow> byte list \<Rightarrow> ('s, unit) lproc" where
  "extract_data ops fs v opts st ip path =
     lseq (once (fs_create fs path)) (\<lambda>f.
     lseq (once (lift (extents ops v ip False))) (\<lambda>exts.
     lseq (copy_loop (\<lambda>off. read_inode_range ops v ip exts off CHUNK) (\<lambda>chunk. write_sparse fs f chunk 0) (st_size st) 0) (\<lambda>_.
     once (
       seq (fs_set_len fs f (st_size st)) (\<lambda>_.
       seq (fs_flush fs f) (\<lambda>_.
       seq (fs_set_modified fs f (system_time (st_mtime st))) (\<lambda>_.
       seq (if eo_owner opts then fs_lchown fs path (st_uid st) (st_gid st) else ret ()) (\<lambda>_.
       set_file_mode fs path (st_mode st)))))))))"

record extract_state =
  xs_report :: extract_report
  xs_seen :: "nat \<rightharpoonup> byte list"
  xs_dirs :: "(byte list \<times> nat \<times> timestamp) list"

text \<open>The body of the loop once a name is not a further one of an inode seen.\<close>

definition extract_file ::
  "'d device_ops \<Rightarrow> 's host_fs \<Rightarrow> 'd volume \<Rightarrow> extract_options \<Rightarrow> walk_entry \<Rightarrow> byte list \<Rightarrow> inode \<Rightarrow> extract_state \<Rightarrow> ('s, extract_state) lproc" where
  "extract_file ops fs v opts e path ip x =
     (let st = we_stat e; ftype = st_mode st AND IFMT;
          own = (if eo_owner opts then fs_lchown fs path (st_uid st) (st_gid st) else ret ()) in
      lseq (once (if ftype \<noteq> IFLNK then lift (map_ok length (xattrs_inode ops v ip)) else ret 0)) (\<lambda>n.
      let rep = (xs_report x)\<lparr>er_xattrs_skipped := er_xattrs_skipped (xs_report x) + n\<rparr> in
      if ftype = IFDIR then
        once (
          seq (fs_create_dir fs path) (\<lambda>_.
          seq (set_file_mode fs path 0x1c0) (\<lambda>_.
          seq own (\<lambda>_.
          ret (x\<lparr>xs_dirs := xs_dirs x @ [(path, st_mode st, st_mtime st)],
                 xs_report := rep\<lparr>er_directories := er_directories rep + 1\<rparr>\<rparr>)))))
      else if ftype = IFLNK then
        once (
          seq (lift (symlink_target ops v ip)) (\<lambda>target.
          seq (fs_symlink fs target path) (\<lambda>_.
          seq own (\<lambda>_.
          ret (x\<lparr>xs_report := rep\<lparr>er_symlinks := er_symlinks rep + 1\<rparr>\<rparr>)))))
      else if ftype = IFREG then
        lseq (extract_data ops fs v opts st ip path) (\<lambda>_.
        once (lift (map_ok (\<lambda>bytes. x\<lparr>xs_report := rep\<lparr>er_files := er_files rep + 1, er_bytes := bytes\<rparr>\<rparr>)
          (add_w 64 (er_bytes rep) (st_size st)))))
      else once (ret (x\<lparr>xs_report := rep\<lparr>er_specials_skipped := er_specials_skipped rep @ [we_path e]\<rparr>\<rparr>))))"

definition extract_entry ::
  "'d device_ops \<Rightarrow> 's host_fs \<Rightarrow> 'd volume \<Rightarrow> extract_options \<Rightarrow> byte list \<Rightarrow> walk_entry \<Rightarrow> extract_state \<Rightarrow> ('s, extract_state) lproc" where
  "extract_entry ops fs v opts dest e x =
     (let st = we_stat e; path = path_join dest (we_raw_path e); shared = \<not> stat_is_dir st \<and> st_links st > 1 in
      lseq (once (lift (read_inode ops v (st_inode st)))) (\<lambda>ip.
      case (if shared then xs_seen x (st_inode st) else None) of
        Some first \<Rightarrow>
          once (seq (fs_hard_link fs first path) (\<lambda>_.
          ret (x\<lparr>xs_report := (xs_report x)\<lparr>er_hard_links := er_hard_links (xs_report x) + 1\<rparr>\<rparr>)))
      | None \<Rightarrow>
          extract_file ops fs v opts e path ip
            (if shared then x\<lparr>xs_seen := (xs_seen x)(st_inode st \<mapsto> path)\<rparr> else x)))"

primrec extract_entries ::
  "'d device_ops \<Rightarrow> 's host_fs \<Rightarrow> 'd volume \<Rightarrow> extract_options \<Rightarrow> byte list \<Rightarrow> walk_entry list \<Rightarrow> extract_state \<Rightarrow> ('s, extract_state) lproc" where
  "extract_entries ops fs v opts dest [] x = once (ret x)"
| "extract_entries ops fs v opts dest (e # es) x =
     lseq (extract_entry ops fs v opts dest e x) (extract_entries ops fs v opts dest es)"

text \<open>The last pass: a directory gets its time and then its mode, the deepest first.\<close>

definition finish_dir :: "'s host_fs \<Rightarrow> byte list \<times> nat \<times> timestamp \<Rightarrow> ('s, unit) proc" where
  "finish_dir fs d =
     (case d of (path, m, mtime) \<Rightarrow>
        seq (fs_open fs path) (\<lambda>f.
        seq (fs_set_modified fs f (system_time mtime)) (\<lambda>_.
        set_file_mode fs path m)))"

definition extract_tree ::
  "'d device_ops \<Rightarrow> 's host_fs \<Rightarrow> 'd volume \<Rightarrow> byte list \<Rightarrow> byte list \<Rightarrow> extract_options \<Rightarrow> ('s, extract_report) lproc" where
  "extract_tree ops fs v root dest opts =
     lseq (once (fs_create_dir_all fs dest)) (\<lambda>_.
     lseq (once (lift (walk ops v root))) (\<lambda>es.
     lseq (extract_entries ops fs v opts dest es \<lparr>xs_report = no_extracts, xs_seen = (\<lambda>_. None), xs_dirs = []\<rparr>) (\<lambda>x.
     once (seq (for_each (finish_dir fs) (rev (xs_dirs x))) (\<lambda>_. ret (xs_report x))))))"

end
