(* ===== verification/Pack.thy ===== *)
theory Pack
  imports Export
begin

text \<open>
  What a packed archive holds. The loop over a file's bytes ends and hands over the file in
  pieces; the archive that \<open>pack_tar\<close> returns, read by the reader of the format, has one entry
  for each name of the walk but the sockets, in the order of the walk.
\<close>

section \<open>The copying loop\<close>

function pieces :: "nat \<Rightarrow> 'a list \<Rightarrow> 'a list list" where
  "pieces c xs = (if xs = [] \<or> c = 0 then [] else take c xs # pieces c (drop c xs))"
  by pat_completeness auto
termination by (relation "measure (\<lambda>(c, xs). length xs)") auto

declare pieces.simps [simp del]

lemma concat_pieces: "0 < c \<Longrightarrow> concat (pieces c xs) = xs"
proof (induction c xs rule: pieces.induct)
  case (1 c xs)
  then show ?case by (subst pieces.simps) auto
qed

text \<open>A reader that gives the bytes of \<open>data\<close> in pieces of at most \<open>c\<close>.\<close>

definition reads :: "(nat \<Rightarrow> byte list res) \<Rightarrow> nat \<Rightarrow> byte list \<Rightarrow> bool" where
  "reads rd c data \<longleftrightarrow> 0 < c \<and> (\<forall>off < length data. rd off = Ok (take c (drop off data)))"

lemma copy_loop_pieces:
  assumes "reads rd c data"
  shows "copy_loop rd put (length data) off s = Some (for_each put (pieces c (drop off data)) s)"
proof (induction "length data - off" arbitrary: off s rule: less_induct)
  case less
  show ?case
  proof (cases "off < length data")
    case False
    then show ?thesis by (simp add: copy_loop.simps [of rd put] pieces.simps [of c "[]"] ret_def)
  next
    case True
    let ?p = "take c (drop off data)"
    have c: "0 < c" and rd: "rd off = Ok ?p" using assms True by (simp_all add: reads_def)
    have ne: "?p \<noteq> []" using True c by simp
    have pc: "pieces c (drop off data) = ?p # pieces c (drop (off + length ?p) data)"
    proof -
      have "drop c (drop off data) = drop (off + length ?p) data" by (cases "c \<le> length data - off") (simp_all add: add.commute)
      then show ?thesis using True c by (subst pieces.simps) simp
    qed
    obtain r t where p: "put ?p s = (r, t)" by (cases "put ?p s")
    have IH: "copy_loop rd put (length data) (off + length ?p) t = Some (for_each put (pieces c (drop (off + length ?p) data)) t)"
      using ne True c by (intro less) auto
    show ?thesis
      using True rd p IH unfolding pc by (subst copy_loop.simps) (cases r; simp add: seq_eq del: length_take)
  qed
qed

lemma tar_data_pieces:
  "length (concat ps) \<le> w_owed w \<Longrightarrow> ps \<noteq> [] \<Longrightarrow> for_each (tar_data vec_sink) ps w = tar_data vec_sink (concat ps) w"
proof (induction ps arbitrary: w)
  case (Cons p ps)
  then show ?case
    by (cases "ps = []") (simp_all add: seq_def ret_def tar_data_def on_vec)
qed simp

lemma tar_data_Nil: "tar_data vec_sink [] w = (Ok (), w)"
  by (cases w) (simp add: tar_data_def on_vec)

lemma copy_tar:
  assumes "reads rd c data" and "length data = w_owed w"
  shows "copy_loop rd (tar_data vec_sink) (length data) 0 w = Some (tar_data vec_sink data w)"
proof -
  have c: "0 < c" using assms(1) by (simp add: reads_def)
  have "for_each (tar_data vec_sink) (pieces c data) w = tar_data vec_sink data w"
  proof (cases "data = []")
    case True
    then show ?thesis by (simp add: pieces.simps tar_data_Nil ret_def)
  next
    case False
    then have "pieces c data \<noteq> []" using c by (simp add: pieces.simps)
    then show ?thesis using tar_data_pieces [of "pieces c data" w] assms(2) concat_pieces [OF c, of data] by simp
  qed
  then show ?thesis using copy_loop_pieces [OF assms(1), of "tar_data vec_sink" 0 w] by simp
qed

text \<open>A file in extents on a volume whose device holds the whole filesystem is read in pieces.\<close>

lemma reads_file:
  assumes "vol_ok mem_data mem_inv v" and "exts_ok (v_sb v) exts" and "i_size ip < 2 ^ 63" and "i_format ip \<noteq> Local" and "\<not> is_realtime ip"
  shows "reads (\<lambda>off. read_inode_range mem_ops v ip exts off CHUNK) CHUNK (map (file_byte (mem_data (v_dev v)) (v_sb v) exts) [0..<i_size ip])"
proof -
  let ?b = "file_byte (mem_data (v_dev v)) (v_sb v) exts"
  have "read_inode_range mem_ops v ip exts off CHUNK = Ok (take CHUNK (drop off (map ?b [0..<i_size ip])))" if "off < i_size ip" for off
  proof -
    have "take c [off..<n] = [off..<min (off + c) n]" for c n :: nat by (rule nth_equalityI) auto
    then have "take CHUNK (drop off (map ?b [0..<i_size ip])) = map ?b [off..<min (off + CHUNK) (i_size ip)]"
      by (simp only: take_map drop_map drop_upt) simp
    moreover have "CHUNK \<noteq> 0" by simp
    ultimately show ?thesis unfolding read_inode_range_mem [OF assms(1-3)] using that assms(4,5) by (simp del: One_nat_def)
  qed
  then show ?thesis by (simp add: reads_def)
qed

section \<open>What belongs in an archive\<close>

text \<open>A name of something that has several, and the first of them in a list of names.\<close>

definition several :: "walk_entry \<Rightarrow> bool" where
  "several e \<longleftrightarrow> \<not> stat_is_dir (we_stat e) \<and> st_links (we_stat e) > 1"

definition first_name :: "walk_entry list \<Rightarrow> nat \<Rightarrow> byte list option" where
  "first_name prev ino = map_option we_raw_path (List.find (\<lambda>d. several d \<and> st_inode (we_stat d) = ino) prev)"

definition linked :: "walk_entry list \<Rightarrow> walk_entry \<Rightarrow> byte list option" where
  "linked prev e = (if several e then first_name prev (st_inode (we_stat e)) else None)"

abbreviation type_of_entry :: "walk_entry \<Rightarrow> nat" where
  "type_of_entry e \<equiv> st_mode (we_stat e) AND IFMT"

definition device_kind :: "nat \<Rightarrow> entry_kind" where
  "device_kind t = (if t = IFCHR then entry_kind.CharDevice else if t = IFBLK then entry_kind.BlockDevice else entry_kind.Fifo)"

text \<open>The entry of a name that is not a further name of something before it.\<close>

definition own_entry :: "'d device_ops \<Rightarrow> 'd volume \<Rightarrow> walk_entry \<Rightarrow> inode \<Rightarrow> header \<times> byte list \<Rightarrow> bool" where
  "own_entry ops v e ip item \<longleftrightarrow>
     (type_of_entry e = IFLNK \<and> (\<exists>target. symlink_target ops v ip = Ok target \<and>
        item = ((entry_header e)\<lparr>h_kind := entry_kind.Symlink, h_link := target\<rparr>, []))) \<or>
     (\<exists>xs. xattrs_inode ops v ip = Ok xs \<and> (let h = (entry_header e)\<lparr>h_xattrs := map (\<lambda>x. (xa_name x, xa_value x)) xs\<rparr> in
        type_of_entry e = IFDIR \<and> item = (h\<lparr>h_kind := entry_kind.Directory, h_path := we_raw_path e @ [0x2f]\<rparr>, []) \<or>
        type_of_entry e \<in> {IFCHR, IFBLK, IFIFO} \<and>
          item = (h\<lparr>h_kind := device_kind (type_of_entry e), h_major := fst (st_rdev (we_stat e)), h_minor := snd (st_rdev (we_stat e))\<rparr>, []) \<or>
        type_of_entry e = IFREG \<and> (\<exists>exts data. extents ops v ip False = Ok exts \<and> length data = st_size (we_stat e) \<and>
          reads (\<lambda>off. read_inode_range ops v ip exts off CHUNK) CHUNK data \<and> item = (h\<lparr>h_size := length data\<rparr>, data))))"

text \<open>
  \<open>archive ops v prev es items\<close>: with the names \<open>prev\<close> done, the names \<open>es\<close> of a walk make
  these entries, in order: a hard link for a further name, nothing for a socket, and the entry
  of its own for any other name. A tree in which a socket has two of its names has no archive: tar
  has no type for a socket, and so nothing for the second name to be a link to.
\<close>

inductive archive :: "'d device_ops \<Rightarrow> 'd volume \<Rightarrow> walk_entry list \<Rightarrow> walk_entry list \<Rightarrow> (header \<times> byte list) list \<Rightarrow> bool"
  for ops v where
  finished: "archive ops v prev [] []"
| further: "read_inode ops v (st_inode (we_stat e)) = Ok ip \<Longrightarrow> linked prev e = Some p \<Longrightarrow> type_of_entry e \<noteq> IFSOCK \<Longrightarrow>
    archive ops v (prev @ [e]) es items \<Longrightarrow>
    archive ops v prev (e # es) (((entry_header e)\<lparr>h_kind := entry_kind.HardLink, h_link := p\<rparr>, []) # items)"
| socket: "read_inode ops v (st_inode (we_stat e)) = Ok ip \<Longrightarrow> linked prev e = None \<Longrightarrow> type_of_entry e = IFSOCK \<Longrightarrow>
    several e \<longrightarrow> (\<forall>d \<in> set es. st_inode (we_stat d) \<noteq> st_inode (we_stat e)) \<Longrightarrow>
    archive ops v (prev @ [e]) es items \<Longrightarrow> archive ops v prev (e # es) items"
| own: "read_inode ops v (st_inode (we_stat e)) = Ok ip \<Longrightarrow> linked prev e = None \<Longrightarrow> own_entry ops v e ip item \<Longrightarrow>
    archive ops v (prev @ [e]) es items \<Longrightarrow> archive ops v prev (e # es) (item # items)"

section \<open>One name\<close>

lemma lseq_once: "m s = (Ok a, t) \<Longrightarrow> lseq (once m) f s = f a t"
  by (simp add: lseq_def once_def)

lemma lseq_eq: "m s = Some (Ok a, t) \<Longrightarrow> lseq m f s = f a t"
  by (simp add: lseq_def)

lemma lseq_simps [simp]: "lseq (once (ret a)) f = f a" "lseq (once (lift (Ok a))) f = f a"
  by (simp_all add: lseq_def once_def ret_def lift_def fun_eq_iff)

lemma lift_Ok: "lift (Ok a) = ret a"
  by (simp add: lift_def ret_def fun_eq_iff)

text \<open>What the code remembers of the names it has seen.\<close>

lemma first_name_snoc:
  "first_name (prev @ [e]) = (if several e \<and> linked prev e = None then (first_name prev)(st_inode (we_stat e) \<mapsto> we_raw_path e) else first_name prev)"
  by (auto simp: first_name_def linked_def find_append fun_eq_iff split: option.splits)

definition tally :: "header \<times> byte list \<Rightarrow> pack_report \<Rightarrow> pack_report" where
  "tally item r = (case item of (h, data) \<Rightarrow>
     let r = r\<lparr>pr_xattrs := pr_xattrs r + length (h_xattrs h)\<rparr> in
     case h_kind h of
       File \<Rightarrow> r\<lparr>pr_files := pr_files r + 1, pr_bytes := pr_bytes r + length data\<rparr>
     | entry_kind.HardLink \<Rightarrow> r\<lparr>pr_hard_links := pr_hard_links r + 1\<rparr>
     | entry_kind.Symlink \<Rightarrow> r\<lparr>pr_symlinks := pr_symlinks r + 1\<rparr>
     | entry_kind.Directory \<Rightarrow> r\<lparr>pr_directories := pr_directories r + 1\<rparr>
     | _ \<Rightarrow> r\<lparr>pr_devices := pr_devices r + 1\<rparr>)"

lemma entry_header_simps [simp]:
  "h_kind (entry_header e) = File" "h_path (entry_header e) = we_raw_path e" "h_xattrs (entry_header e) = []" "h_link (entry_header e) = []"
  "(entry_header e)\<lparr>h_xattrs := []\<rparr> = entry_header e"
  by (simp_all add: entry_header_def default_header_def)

lemma tar_append_ok:
  assumes "header_ok h" and "length data = entry_size h" and "w_owed w = 0"
  obtains w' where "tar_append vec_sink h data w = (Ok (), w')" and "w_owed w' = 0"
  using tar_append_vec [OF assms] by force

lemma tar_stream:
  assumes "header_ok h" and "length data = entry_size h" and "w_owed w = 0" and "reads rd c data"
  shows "lseq (once (tar_begin vec_sink h)) (\<lambda>_. lseq (once (lift (Ok x))) (\<lambda>_. lseq (copy_loop rd (tar_data vec_sink) (length data) 0) f)) w =
    lseq (once (tar_append vec_sink h data)) f w"
proof -
  obtain bs where b: "tar_begin vec_sink h w =
      (Ok (), \<lparr>w_sink = w_sink w @ replicate (w_pad w) 0 @ bs, w_owed = entry_size h, w_pad = pad_of (entry_size h)\<rparr>)" (is "_ = (_, ?w)")
    using tar_begin_vec [OF assms(1,3)] by blast
  have "copy_loop rd (tar_data vec_sink) (length data) 0 ?w = Some (tar_data vec_sink data ?w)"
    by (rule copy_tar [OF assms(4)]) (simp add: assms(2))
  then show ?thesis using b by (simp add: lseq_def once_def tar_append_def seq_def)
qed

text \<open>The types of files, apart from each other.\<close>

lemma types_apart:
  "IFSOCK \<noteq> IFLNK" "IFSOCK \<noteq> IFDIR" "IFSOCK \<noteq> IFREG" "IFLNK \<noteq> IFDIR" "IFLNK \<noteq> IFREG" "IFDIR \<noteq> IFREG"
  "{IFCHR, IFBLK, IFIFO} \<inter> {IFSOCK, IFLNK, IFDIR, IFREG} = {}"
  by simp_all

lemma pack_file_item:
  assumes item: "own_entry ops v e ip (h, data)" and ok: "header_ok h" and w: "w_owed w = 0"
    and fit: "pr_bytes report + length data < 2 ^ 64"
  shows "length data = entry_size h \<and>
    pack_file ops vec_sink v e ip report w = lseq (once (tar_append vec_sink h data)) (\<lambda>_. once (ret (tally (h, data) report))) w"
proof (cases "type_of_entry e = IFREG")
  case True
  let ?rd = "\<lambda>exts off. read_inode_range ops v ip exts off CHUNK"
  from item obtain xs exts where x: "xattrs_inode ops v ip = Ok xs" "extents ops v ip False = Ok exts" "length data = st_size (we_stat e)"
    "reads (?rd exts) CHUNK data" "h = (entry_header e)\<lparr>h_xattrs := map (\<lambda>x. (xa_name x, xa_value x)) xs, h_size := length data\<rparr>"
    unfolding own_entry_def Let_def True using types_apart by fastforce
  let ?r = "report\<lparr>pr_xattrs := pr_xattrs report + length (map (\<lambda>x. (xa_name x, xa_value x)) xs)\<rparr>"
  have sz: "length data = entry_size h" by (simp add: x(5) entry_size_def)
  have t: "map_ok (\<lambda>bytes. ?r\<lparr>pr_files := pr_files ?r + 1, pr_bytes := bytes\<rparr>) (add_w 64 (pr_bytes ?r) (st_size (we_stat e))) = Ok (tally (h, data) report)"
    using fit x(3) by (simp add: tally_def x(5) add_w_def)
  have "pack_file ops vec_sink v e ip report w =
      lseq (once (tar_begin vec_sink h)) (\<lambda>_. lseq (once (lift (Ok exts))) (\<lambda>_. lseq (copy_loop (?rd exts) (tar_data vec_sink) (length data) 0)
        (\<lambda>_. once (lift (Ok (tally (h, data) report)))))) w"
    unfolding pack_file_def Let_def True x(1) t [symmetric] by (simp add: x)
  then show ?thesis unfolding tar_stream [OF ok sz w x(4)] using sz by (simp add: lift_Ok)
next
  case False
  then show ?thesis
    using item types_apart
    by (auto simp: own_entry_def Let_def pack_file_def tally_def entry_size_def device_kind_def split: if_splits)
qed

lemma pack_entry_further:
  assumes "read_inode ops v (st_inode (we_stat e)) = Ok ip" and "linked prev e = Some p"
  shows "pack_entry ops vec_sink v e (report, first_name prev) w =
    lseq (once (tar_append vec_sink ((entry_header e)\<lparr>h_kind := entry_kind.HardLink, h_link := p\<rparr>) []))
      (\<lambda>_. once (ret (tally ((entry_header e)\<lparr>h_kind := entry_kind.HardLink, h_link := p\<rparr>, []) report, first_name (prev @ [e])))) w"
proof -
  have s: "several e" "first_name prev (st_inode (we_stat e)) = Some p" using assms(2) by (auto simp: linked_def split: if_splits)
  then show ?thesis using assms by (simp add: pack_entry_def several_def first_name_snoc tally_def)
qed

lemma pack_entry_own:
  assumes "read_inode ops v (st_inode (we_stat e)) = Ok ip" and "linked prev e = None"
  shows "pack_entry ops sk v e (report, first_name prev) w =
    lseq (pack_file ops sk v e ip report) (\<lambda>r. once (ret (r, first_name (prev @ [e])))) w"
  using assms by (auto simp: pack_entry_def first_name_snoc several_def linked_def Let_def split: if_splits)

lemma pack_socket: "type_of_entry e = IFSOCK \<Longrightarrow>
    pack_file ops sk v e ip report w = Some (Ok (report\<lparr>pr_sockets_skipped := pr_sockets_skipped report + 1\<rparr>), w)"
  by (simp add: pack_file_def once_def ret_def)

section \<open>All names\<close>

lemma tally_bytes: "pr_bytes (tally (h, data) r) = pr_bytes r + (if h_kind h = File then length data else 0)"
  "pr_sockets_skipped (tally (h, data) r) = pr_sockets_skipped r"
  by (cases "h_kind h"; simp add: tally_def Let_def)+

lemma tally_sockets: "fold tally items (r\<lparr>pr_sockets_skipped := k\<rparr>) = (fold tally items r)\<lparr>pr_sockets_skipped := k\<rparr>"
proof (induction items arbitrary: r)
  case (Cons i items)
  have "tally i (r\<lparr>pr_sockets_skipped := k\<rparr>) = (tally i r)\<lparr>pr_sockets_skipped := k\<rparr>"
    by (cases i; cases "h_kind (fst i)"; simp add: tally_def Let_def)
  then show ?case using Cons.IH by simp
qed simp

lemma pack_entries_Cons:
  assumes "pack_entry ops vec_sink v e (report, sn) w = lseq (once (tar_append vec_sink h data)) (\<lambda>_. once (ret (tally (h, data) report, sn'))) w"
    and "tar_append vec_sink h data w = (Ok (), w')"
    and "pack_entries ops vec_sink v es (tally (h, data) report, sn') w' =
      lseq (once (for_each (\<lambda>(h, data). tar_append vec_sink h data) items))
        (\<lambda>_. once (ret ((fold tally items (tally (h, data) report))\<lparr>pr_sockets_skipped := k\<rparr>))) w'"
  shows "pack_entries ops vec_sink v (e # es) (report, sn) w =
      lseq (once (for_each (\<lambda>(h, data). tar_append vec_sink h data) ((h, data) # items)))
        (\<lambda>_. once (ret ((fold tally ((h, data) # items) report)\<lparr>pr_sockets_skipped := k\<rparr>))) w"
  using assms by (simp add: lseq_def once_def ret_def seq_eq)

lemma pack_entries_items:
  assumes "archive ops v prev es items" and "\<forall>(h, data) \<in> set items. header_ok h" and "w_owed w = 0"
    and "pr_bytes report + (\<Sum>(h, data) \<leftarrow> items. length data) < 2 ^ 64"
  shows "(\<forall>(h, data) \<in> set items. length data = entry_size h) \<and> length items \<le> length es \<and>
    pack_entries ops vec_sink v es (report, first_name prev) w =
      lseq (once (for_each (\<lambda>(h, data). tar_append vec_sink h data) items))
        (\<lambda>_. once (ret ((fold tally items report)\<lparr>pr_sockets_skipped := pr_sockets_skipped report + (length es - length items)\<rparr>))) w"
  using assms
proof (induction arbitrary: report w rule: archive.induct)
  case (finished prev)
  then show ?case by simp
next
  case (further e ip prev p es items)
  let ?h = "(entry_header e)\<lparr>h_kind := entry_kind.HardLink, h_link := p\<rparr>"
  have sz: "length [] = entry_size ?h" by (simp add: entry_size_def)
  obtain w' where w': "tar_append vec_sink ?h [] w = (Ok (), w')" "w_owed w' = 0"
    using tar_append_ok [OF _ sz] further.prems(1,2) by auto
  have IH: "(\<forall>(h, data) \<in> set items. length data = entry_size h) \<and> length items \<le> length es \<and>
    pack_entries ops vec_sink v es (tally (?h, []) report, first_name (prev @ [e])) w' =
      lseq (once (for_each (\<lambda>(h, data). tar_append vec_sink h data) items)) (\<lambda>_. once (ret ((fold tally items (tally (?h, []) report))
        \<lparr>pr_sockets_skipped := pr_sockets_skipped (tally (?h, []) report) + (length es - length items)\<rparr>))) w'"
    using further.prems w'(2) by (intro further.IH) (simp_all add: tally_bytes)
  show ?case
    using IH sz pack_entries_Cons [OF pack_entry_further [OF further.hyps(1,2)] w'(1) IH [THEN conjunct2, THEN conjunct2]]
    unfolding tally_bytes(2) by simp
next
  case (socket e ip prev es items)
  let ?r = "report\<lparr>pr_sockets_skipped := pr_sockets_skipped report + 1\<rparr>"
  have IH: "(\<forall>(h, data) \<in> set items. length data = entry_size h) \<and> length items \<le> length es \<and>
    pack_entries ops vec_sink v es (?r, first_name (prev @ [e])) w =
      lseq (once (for_each (\<lambda>(h, data). tar_append vec_sink h data) items))
        (\<lambda>_. once (ret ((fold tally items ?r)\<lparr>pr_sockets_skipped := pr_sockets_skipped ?r + (length es - length items)\<rparr>))) w"
    using socket.prems by (intro socket.IH) simp_all
  have n: "pr_sockets_skipped ?r + (length es - length items) = pr_sockets_skipped report + (length (e # es) - length items)"
    using IH [THEN conjunct2, THEN conjunct1] by (simp add: Suc_diff_le)
  have "pack_entries ops vec_sink v (e # es) (report, first_name prev) w = pack_entries ops vec_sink v es (?r, first_name (prev @ [e])) w"
    using pack_entry_own [OF socket.hyps(1,2), of vec_sink report w] pack_socket [OF socket.hyps(3), of ops vec_sink v ip report w]
    by (simp add: lseq_def once_def ret_def)
  then show ?case using IH unfolding tally_sockets n by simp
next
  case (own e ip prev item es items)
  obtain h data where i: "item = (h, data)" by (cases item)
  have fit: "pr_bytes report + length data < 2 ^ 64" using own.prems(3) by (simp add: i)
  note f = pack_file_item [OF own.hyps(3) [unfolded i] _ own.prems(2) fit]
  have ok: "header_ok h" using own.prems(1) by (simp add: i)
  obtain w' where w': "tar_append vec_sink h data w = (Ok (), w')" "w_owed w' = 0"
    using tar_append_ok [OF ok f [OF ok, THEN conjunct1] own.prems(2)] .
  have en: "pack_entry ops vec_sink v e (report, first_name prev) w =
      lseq (once (tar_append vec_sink h data)) (\<lambda>_. once (ret (tally (h, data) report, first_name (prev @ [e])))) w"
    using f [OF ok] w'(1) pack_entry_own [OF own.hyps(1,2), of vec_sink report w] by (simp add: lseq_def once_def ret_def)
  have IH: "(\<forall>(h, data) \<in> set items. length data = entry_size h) \<and> length items \<le> length es \<and>
    pack_entries ops vec_sink v es (tally (h, data) report, first_name (prev @ [e])) w' =
      lseq (once (for_each (\<lambda>(h, data). tar_append vec_sink h data) items)) (\<lambda>_. once (ret ((fold tally items (tally (h, data) report))
        \<lparr>pr_sockets_skipped := pr_sockets_skipped (tally (h, data) report) + (length es - length items)\<rparr>))) w'"
    using own.prems w'(2) by (intro own.IH) (simp_all add: tally_bytes i)
  show ?case
    using IH f [OF ok] pack_entries_Cons [OF en w'(1) IH [THEN conjunct2, THEN conjunct2]]
    unfolding tally_bytes(2) by (simp add: i)
qed

section \<open>The report\<close>

definition of_kind :: "entry_kind \<Rightarrow> (header \<times> byte list) list \<Rightarrow> nat" where
  "of_kind k items = length (filter (\<lambda>(h, data). h_kind h = k) items)"

lemma tally_fold:
  "pr_files (fold tally items r) = pr_files r + of_kind File items"
  "pr_directories (fold tally items r) = pr_directories r + of_kind entry_kind.Directory items"
  "pr_hard_links (fold tally items r) = pr_hard_links r + of_kind entry_kind.HardLink items"
  "pr_symlinks (fold tally items r) = pr_symlinks r + of_kind entry_kind.Symlink items"
proof -
  have "pr_files (fold tally items r) = pr_files r + of_kind File items \<and>
    pr_directories (fold tally items r) = pr_directories r + of_kind entry_kind.Directory items \<and>
    pr_hard_links (fold tally items r) = pr_hard_links r + of_kind entry_kind.HardLink items \<and>
    pr_symlinks (fold tally items r) = pr_symlinks r + of_kind entry_kind.Symlink items"
  proof (induction items arbitrary: r)
    case (Cons i items)
    then show ?case by (cases i; cases "h_kind (fst i)"; simp add: of_kind_def tally_def Let_def)
  qed (simp add: of_kind_def)
  then show "pr_files (fold tally items r) = pr_files r + of_kind File items"
    "pr_directories (fold tally items r) = pr_directories r + of_kind entry_kind.Directory items"
    "pr_hard_links (fold tally items r) = pr_hard_links r + of_kind entry_kind.HardLink items"
    "pr_symlinks (fold tally items r) = pr_symlinks r + of_kind entry_kind.Symlink items" by blast+
qed

section \<open>Names and links\<close>

text \<open>The name an entry goes by: a directory ends in a slash.\<close>

definition entry_path :: "walk_entry \<Rightarrow> byte list" where
  "entry_path e = (if stat_is_dir (we_stat e) then we_raw_path e @ [0x2f] else we_raw_path e)"

text \<open>Read in order, each hard link names an entry before it that is not a hard link itself.\<close>

fun links_resolve :: "byte list set \<Rightarrow> tar_entry list \<Rightarrow> bool" where
  "links_resolve P [] = True"
| "links_resolve P (x # xs) =
     (if te_kind x = flag entry_kind.HardLink then te_link x \<in> P \<and> links_resolve P xs
      else links_resolve (insert (te_path x) P) xs)"

lemma flag_hard_link: "flag k = flag entry_kind.HardLink \<longleftrightarrow> k = entry_kind.HardLink"
  by (cases k) (simp_all add: flag_def)

lemma own_entry_path:
  assumes "own_entry ops v e ip (h, data)"
  shows "h_path h = entry_path e \<and> h_kind h \<noteq> entry_kind.HardLink \<and> type_of_entry e \<noteq> IFSOCK"
  using assms types_apart
  by (auto simp: own_entry_def entry_path_def stat_is_dir_def Let_def device_kind_def)

lemma linked_not_dir: "linked prev e = Some p \<Longrightarrow> \<not> stat_is_dir (we_stat e)"
  by (auto simp: linked_def several_def split: if_splits)

lemma archive_paths:
  assumes "archive ops v prev es items"
  shows "map (\<lambda>(h, data). h_path h) items = map entry_path (filter (\<lambda>e. type_of_entry e \<noteq> IFSOCK) es)"
  using assms
proof induction
  case (own e ip prev item es items)
  then show ?case using own_entry_path [of ops v e ip "fst item" "snd item"] by (simp add: case_prod_unfold)
qed (simp_all add: entry_path_def linked_not_dir)

lemma linked_snoc:
  "linked (prev @ [e]) d = Some p \<Longrightarrow> linked prev d = Some p \<or>
     several e \<and> st_inode (we_stat e) = st_inode (we_stat d) \<and> linked prev e = None \<and> p = we_raw_path e"
  by (auto simp: linked_def first_name_snoc split: if_splits)

lemma archive_links:
  assumes "archive ops v prev es items" and "\<forall>d \<in> set es. \<forall>p. linked prev d = Some p \<longrightarrow> p \<in> P"
  shows "links_resolve P (map (\<lambda>(h, data). view h data) items)"
  using assms
proof (induction arbitrary: P)
  case (further e ip prev p es items)
  have "\<forall>d \<in> set es. \<forall>q. linked (prev @ [e]) d = Some q \<longrightarrow> q \<in> P"
    using further.prems further.hyps(2) linked_snoc by fastforce
  then show ?case using further.IH further.prems further.hyps(2) by (simp add: view_def)
next
  case (socket e ip prev es items)
  have "\<forall>d \<in> set es. \<forall>q. linked (prev @ [e]) d = Some q \<longrightarrow> q \<in> P"
    using socket.prems socket.hyps(4) linked_snoc by fastforce
  then show ?case by (rule socket.IH)
next
  case (own e ip prev item es items)
  obtain h data where i: "item = (h, data)" by (cases item)
  note h = own_entry_path [OF own.hyps(3) [unfolded i]]
  have "\<forall>d \<in> set es. \<forall>q. linked (prev @ [e]) d = Some q \<longrightarrow> q \<in> insert (h_path h) P"
    using own.prems h linked_snoc by (fastforce simp: entry_path_def several_def)
  then have "links_resolve (insert (h_path h) P) (map (\<lambda>(h, data). view h data) items)" by (rule own.IH)
  moreover have "flag (h_kind h) \<noteq> flag entry_kind.HardLink" using h flag_hard_link by blast
  ultimately show ?case using h by (simp add: i view_def)
qed simp

section \<open>Properties\<close>

text \<open>
  C15. Packing returns, and the archive is the tree without its sockets: for a walk of names whose
  inodes, links, attributes and contents can be read, and of no two names of one socket,
  \<open>pack_tar\<close> returns an archive of whole blocks in which a reader of the format finds exactly one
  entry for each name that is not a socket, in the order of the walk, under its name and with the
  whole contents of each file; a further name of an inode is a hard link to its first name, and
  every hard link names an entry before it that holds the thing itself. The report of
  \<open>pack_tar_to\<close>, which writes the same bytes, counts the entries by kind and the sockets left out.
\<close>

theorem pack_read_back:
  assumes "walk ops v root = Ok es" and "archive ops v [] es items" and "\<forall>(h, data) \<in> set items. header_ok h"
    and "(\<Sum>(h, data) \<leftarrow> items. length data) < 2 ^ 64"
  shows "\<exists>bs r. pack_tar ops v root = Some (Ok bs) \<and> pack_tar_to ops vec_sink v [] root = Some (Ok r, bs) \<and>
    512 dvd length bs \<and> untar bs [] = Some (map (\<lambda>(h, data). view h data) items) \<and>
    map (\<lambda>(h, data). te_path (view h data)) items = map entry_path (filter (\<lambda>e. type_of_entry e \<noteq> IFSOCK) es) \<and>
    links_resolve {} (map (\<lambda>(h, data). view h data) items) \<and>
    pr_files r = of_kind File items \<and> pr_directories r = of_kind entry_kind.Directory items \<and>
    pr_hard_links r = of_kind entry_kind.HardLink items \<and> pr_symlinks r = of_kind entry_kind.Symlink items \<and>
    pr_sockets_skipped r = length es - length items"
proof -
  let ?w = "writer_new []" and ?add = "for_each (\<lambda>(h, data). tar_append vec_sink h data) items"
  have sn: "first_name [] = (\<lambda>_. None)" by (simp add: first_name_def fun_eq_iff)
  have P: "(\<forall>(h, data) \<in> set items. length data = entry_size h) \<and> length items \<le> length es \<and>
    pack_entries ops vec_sink v es (no_packs, first_name []) ?w = lseq (once ?add)
      (\<lambda>_. once (ret ((fold tally items no_packs)\<lparr>pr_sockets_skipped := pr_sockets_skipped no_packs + (length es - length items)\<rparr>))) ?w"
    using assms(3,4) by (intro pack_entries_items [OF assms(2)]) (simp_all add: writer_new_def no_packs_def)
  have ok: "\<forall>(h, data) \<in> set items. header_ok h \<and> length data = entry_size h" using assms(3) P by fastforce
  obtain bs where bs: "seq ?add (\<lambda>_. tar_finish vec_sink) ?w = (Ok (), writer_new bs)" "512 dvd length bs"
    "untar bs [] = Some (map (\<lambda>(h, data). view h data) items)"
    using tar_archive_vec [OF ok, of ?w] by (auto simp: writer_new_def)
  obtain w' where w': "?add ?w = (Ok (), w')" "tar_finish vec_sink w' = (Ok (), writer_new bs)" using bs(1) by (auto elim: seq_OkE)
  let ?r = "(fold tally items no_packs)\<lparr>pr_sockets_skipped := length es - length items\<rparr>"
  have "pack_into ops vec_sink v root ?w = Some (Ok ?r, w')"
    using P w'(1) unfolding sn by (simp add: pack_into_def assms(1) lseq_def once_def ret_def no_packs_def)
  then have "pack_tar ops v root = Some (Ok bs)" "pack_tar_to ops vec_sink v [] root = Some (Ok ?r, bs)"
    using w'(2) by (simp_all add: pack_tar_def pack_tar_to_def lseq_def once_def ret_def writer_new_def)
  moreover have "map (\<lambda>(h, data). te_path (view h data)) items = map entry_path (filter (\<lambda>e. type_of_entry e \<noteq> IFSOCK) es)"
    using archive_paths [OF assms(2)] by (simp add: view_def)
  moreover have "links_resolve {} (map (\<lambda>(h, data). view h data) items)"
    by (rule archive_links [OF assms(2)]) (simp add: linked_def first_name_def)
  ultimately show ?thesis using bs(2,3) by (intro exI [of _ bs] exI [of _ ?r]) (simp add: tally_fold no_packs_def)
qed

text \<open>A filesystem with one file, \<open>a\<close>, whose two bytes are in its inode.\<close>

definition small_inode :: "byte list \<Rightarrow> byte \<Rightarrow> byte list \<Rightarrow> byte list" where
  "small_inode mode n fork = [0x49, 0x4e] @ mode @ [2, 1] @ replicate 57 0 @ [n] @ replicate 36 0 @ fork @ replicate (156 - length fork) 0"

lemma small_inode_fields:
  assumes "length mode = 2" and "length fork \<le> 156"
  shows "length (small_inode mode n fork) = 256" "rd16 (small_inode mode n fork) 0 = 0x494e" "seg (small_inode mode n fork) 2 2 = mode"
    "small_inode mode n fork ! 4 = 2" "small_inode mode n fork ! 5 = 1" "small_inode mode n fork ! 82 = 0"
    "seg (small_inode mode n fork) 56 8 = replicate 7 0 @ [n]" "drop 100 (small_inode mode n fork) = fork @ replicate (156 - length fork) 0"
    "seg (small_inode mode n fork) 40 8 = replicate 8 0" "seg (small_inode mode n fork) 16 4 = replicate 4 0"
    "seg (small_inode mode n fork) 8 4 = replicate 4 0" "seg (small_inode mode n fork) 12 4 = replicate 4 0" "seg (small_inode mode n fork) 64 8 = replicate 8 0"
  using assms by (simp_all add: small_inode_def seg_append_left seg_append_right seg_def from_be_bytes_def nth_append)

lemma small_inode_parses:
  assumes "length mode = 2" and "length fork \<le> 156" and "sb_inode_size sb = 256" and "\<not> is_v5 sb"
  shows "\<exists>ip. parse_inode sb ino (small_inode mode n fork) = Ok ip \<and> i_mode ip = from_be_bytes mode \<and> i_format ip = Local \<and>
     i_size ip = unat n \<and> i_data_fork ip = fork @ replicate (156 - length fork) 0 \<and> i_ino ip = ino \<and> i_aformat ip = None \<and>
     i_nlink ip = 0 \<and> i_uid ip = 0 \<and> i_gid ip = 0 \<and> i_nblocks ip = 0 \<and> i_mtime ip = \<lparr>ts_secs = 0, ts_nsecs = 0\<rparr>"
proof -
  note f = small_inode_fields [OF assms(1,2)]
  have sz: "from_be_bytes (replicate 7 0 @ [n]) = unat n" by (simp add: from_be_bytes_snoc)
  have z: "from_be_bytes (replicate k 0) = 0" for k by (induction k) (simp_all add: from_be_bytes_def)
  have seg: "seg (small_inode mode n fork) 0 256 = small_inode mode n fork" using f(1) by simp
  have t: "ts_of_raw False 0 = \<lparr>ts_secs = 0, ts_nsecs = 0\<rparr>" by (simp add: ts_of_raw_def)
  show ?thesis
    using assms(3,4) by (simp add: parse_inode_def inode_checks_def inode_forks_def seg sz f z t from_u8_def sub_w_def Let_def)
qed

definition one_file :: "mem_device volume" where
  "one_file = tiny_vol\<lparr>v_dev := mem_new (replicate 256 0 @ small_inode [0x41, 0xed] 14 [1, 0, 0, 0, 0, 1, 1, 0, 0x60, 0x61, 0, 0, 0, 2] @
     small_inode [0x81, 0xa4] 2 [0x68, 0x69] @ replicate 256 0),
     v_sb := (v_sb tiny_vol)\<lparr>sb_block_size := 1024, sb_block_log := 10, sb_inodes_per_block := 4, sb_inopb_log := 2\<rparr>\<rparr>"

lemma one_file_inodes:
  "\<exists>ip. read_inode mem_ops one_file 1 = Ok ip \<and> i_mode ip = 0x41ed \<and> i_format ip = Local \<and> i_size ip = 14 \<and> i_ino ip = 1 \<and>
     i_data_fork ip = [1, 0, 0, 0, 0, 1, 1, 0, 0x60, 0x61, 0, 0, 0, 2] @ replicate 142 0" (is ?root)
  "\<exists>ip. read_inode mem_ops one_file 2 = Ok ip \<and> i_mode ip = 0x81a4 \<and> i_format ip = Local \<and> i_size ip = 2 \<and>
     i_data_fork ip = [0x68, 0x69] @ replicate 154 0 \<and> i_ino ip = 2 \<and> i_aformat ip = None \<and> i_nlink ip = 0 \<and> i_uid ip = 0 \<and>
     i_gid ip = 0 \<and> i_nblocks ip = 0 \<and> i_mtime ip = \<lparr>ts_secs = 0, ts_nsecs = 0\<rparr>" (is ?file)
proof -
  let ?f = "small_inode [0x81, 0xa4] 2 [0x68, 0x69]" and ?r = "small_inode [0x41, 0xed] 14 [1, 0, 0, 0, 0, 1, 1, 0, 0x60, 0x61, 0, 0, 0, 2]"
  let ?sb = "v_sb one_file"
  have sb: "sb_block_size ?sb = 1024" "sb_inode_size ?sb = 256" "\<not> is_v5 ?sb" by (simp_all add: one_file_def tiny_vol_def is_v5_def)
  have at: "ino_to_byte ?sb 1 = Ok 256" "ino_to_byte ?sb 2 = Ok 512"
    by (simp_all add: ino_to_byte_def one_file_def tiny_vol_def agino_log_def Let_def add_w_def)
  have an: "and_not 256 1023 = 0" "and_not 512 1023 = 0" using and_not_mask [of 10 256] and_not_mask [of 10 512] by simp_all
  have len: "length ?f = 256" "length ?r = 256" by (simp_all add: small_inode_fields)
  have rd: "dev_read_at mem_ops (v_dev one_file) 0 1024 = Ok (replicate 256 0 @ ?r @ ?f @ replicate 256 0)"
    using len by (simp add: one_file_def mem_ops_def mem_read_at_def mem_new_def check_range_def check_range_for_def)
  have cut: "parse_inode ?sb ino (b @ c) = parse_inode ?sb ino b" if "length b = 256" for ino b c
    using that sb(2) by (simp add: parse_inode_def Let_def seg_def)
  have 1: "read_inode mem_ops one_file 1 = parse_inode ?sb 1 ?r"
    using at an rd sb len cut [OF len(2)] by (simp add: read_inode_def Let_def sub_w_def)
  have 2: "read_inode mem_ops one_file 2 = parse_inode ?sb 2 ?f"
    using at an rd sb len cut [OF len(1)] by (simp add: read_inode_def Let_def sub_w_def)
  show ?root using small_inode_parses [OF _ _ sb(2,3), of "[0x41, 0xed]" "[1, 0, 0, 0, 0, 1, 1, 0, 0x60, 0x61, 0, 0, 0, 2]" 1 14] 1
    by (auto simp: from_be_bytes_def)
  show ?file using small_inode_parses [OF _ _ sb(2,3), of "[0x81, 0xa4]" "[0x68, 0x69]" 2 2] 2 by (auto simp: from_be_bytes_def)
qed

lemma one_file_walk:
  "\<exists>e. walk mem_ops one_file [0x2f] = Ok [e] \<and> we_raw_path e = [0x61] \<and> st_inode (we_stat e) = 2 \<and> st_mode (we_stat e) = 0x81a4 \<and>
     st_links (we_stat e) = 0 \<and> st_size (we_stat e) = 2 \<and> st_mtime (we_stat e) = \<lparr>ts_secs = 0, ts_nsecs = 0\<rparr> \<and>
     st_uid (we_stat e) = 0 \<and> st_gid (we_stat e) = 0"
proof -
  obtain r where r: "read_inode mem_ops one_file 1 = Ok r" "i_mode r = 0x41ed" "i_format r = Local" "i_size r = 14" "i_ino r = 1"
     "i_data_fork r = [1, 0, 0, 0, 0, 1, 1, 0, 0x60, 0x61, 0, 0, 0, 2] @ replicate 142 0" using one_file_inodes(1) by blast
  obtain f where f: "read_inode mem_ops one_file 2 = Ok f" "i_mode f = 0x81a4" "i_format f = Local" "i_size f = 2" "i_ino f = 2"
     "i_nlink f = 0" "i_uid f = 0" "i_gid f = 0" "i_nblocks f = 0" "i_mtime f = \<lparr>ts_secs = 0, ts_nsecs = 0\<rparr>" using one_file_inodes(2) by blast
  have d: "is_dir r" "\<not> is_dir f" by (simp_all add: is_dir_def file_type_def r f)
  have ft: "\<not> has_ftype (v_sb one_file)" by (simp add: has_ftype_def is_v5_def one_file_def tiny_vol_def demo_sb_def)
  have "parse_shortform (v_sb one_file) (i_data_fork r) 14 = Ok (1, [\<lparr>re_name = [0x61], re_ino = 2, re_ftype = Unknown\<rparr>])"
    by (simp add: parse_shortform_def r seg_def ino_at_def be32_def get_def from_be_bytes_def index_def ft)
  then have c: "sorted_children mem_ops one_file r = Ok [\<lparr>en_name = utf8_lossy [0x61], en_raw_name = [0x61], en_inode = 2, en_kind = file_type.File, en_is_dir = False\<rparr>]"
    using r d f by (simp add: sorted_children_def read_dir_inode_def dir_entries_def one_file_def tiny_vol_def from_mode_def)
  have st: "stat_inode one_file f = Ok \<lparr>st_inode = 2, st_size = 2, st_mode = 0x81a4, st_links = 0, st_uid = 0, st_gid = 0,
     st_blocks = 0, st_atime = i_atime f, st_mtime = \<lparr>ts_secs = 0, ts_nsecs = 0\<rparr>, st_ctime = i_ctime f, st_crtime = i_crtime f, st_rdev = (0, 0)\<rparr>"
    by (simp add: stat_inode_def f sub_w_def shl_w_def one_file_def tiny_vol_def device_def)
  have "resolve mem_ops one_file [0x2f] True = Ok 1" by (simp add: resolve_def split_path_comps_def one_file_def tiny_vol_def)
  then show ?thesis using r d c f st by (simp add: walk_def walk_each_def Let_def)
qed

lemma one_file_reads:
  assumes "i_format f = Local" and "i_size f = 2" and "i_data_fork f = [0x68, 0x69] @ replicate 154 0"
  shows "reads (\<lambda>off. read_inode_range mem_ops one_file f [] off CHUNK) CHUNK [0x68, 0x69]"
  unfolding reads_def
proof (intro conjI allI impI)
  fix off :: nat assume "off < length [0x68 :: byte, 0x69]"
  then consider "off = 0" | "off = 1" by fastforce
  then show "read_inode_range mem_ops one_file f [] off CHUNK = Ok (take CHUNK (drop off [0x68, 0x69]))"
    by cases (simp_all add: read_inode_range_def assms get_def seg_def)
qed simp

theorem pack_read_back_witness:
  "\<exists>bs r x. pack_tar mem_ops one_file [0x2f] = Some (Ok bs) \<and> untar bs [] = Some [x] \<and> te_path x = [0x61] \<and> te_data x = [0x68, 0x69] \<and>
     pack_tar_to mem_ops vec_sink one_file [] [0x2f] = Some (Ok r, bs) \<and> pr_files r = 1"
proof -
  obtain e where e: "walk mem_ops one_file [0x2f] = Ok [e]" "we_raw_path e = [0x61]" "st_inode (we_stat e) = 2" "st_mode (we_stat e) = 0x81a4"
     "st_links (we_stat e) = 0" "st_size (we_stat e) = 2" "st_mtime (we_stat e) = \<lparr>ts_secs = 0, ts_nsecs = 0\<rparr>"
     "st_uid (we_stat e) = 0" "st_gid (we_stat e) = 0" using one_file_walk by blast
  obtain f where f: "read_inode mem_ops one_file 2 = Ok f" "i_format f = Local" "i_size f = 2" "i_aformat f = None"
     "i_data_fork f = [0x68, 0x69] @ replicate 154 0" using one_file_inodes(2) by blast
  let ?h = "(entry_header e)\<lparr>h_xattrs := [], h_size := 2\<rparr>"
  note rd = one_file_reads [OF f(2,3,5)]
  have own: "own_entry mem_ops one_file e f (?h, [0x68, 0x69])"
    unfolding own_entry_def
    by (rule disjI2, rule exI [of _ "[]"])
       (use rd in \<open>auto simp: e f xattrs_inode_def attrs_found_def extents_def fork_map_def Let_def intro!: exI [of _ "[]"]\<close>)
  have A: "archive mem_ops one_file [] [e] [(?h, [0x68, 0x69])]"
    using f(1) own by (intro archive.own archive.finished) (simp_all add: e linked_def several_def)
  have fits: "ustar_fits (h_path ?h) ?h (entry_size ?h)"
    by (simp add: ustar_fits_def entry_header_def default_header_def e octal_def entry_size_def is_device_def)
  have ok: "header_ok ?h"
    using fits by (simp add: header_ok_def pax_records_def) (simp add: entry_header_def default_header_def e is_device_def)
  show ?thesis using pack_read_back [OF e(1) A] ok by (auto simp: view_def of_kind_def e)
qed

end
