(* ===== verification/Extract.thy ===== *)
theory Extract
  imports Pack
begin

text \<open>
  What extracting writes. The bytes of a file go through \<open>write_sparse\<close>, which seeks over pieces
  of zeros; with the length set at the end, the host's file holds exactly the bytes of the
  file, on any host whose calls do what their documentation says.
\<close>

section \<open>The host's files\<close>

definition write_at :: "byte list \<Rightarrow> nat \<Rightarrow> byte list \<Rightarrow> byte list" where
  "write_at c p b = take p (c @ replicate (p - length c) 0) @ b @ drop (p + length b) c"

definition resize :: "byte list \<Rightarrow> nat \<Rightarrow> byte list" where
  "resize c n = take n (c @ replicate (n - length c) 0)"

text \<open>
  The documented behaviour of the calls that succeed: \<open>opened s f\<close> is the path and the position
  of handle \<open>f\<close>, \<open>files s path\<close> the bytes of a file. Writing goes to the position, filling a gap
  with zeros; setting the length cuts or fills with zeros; the other calls leave the bytes.
\<close>

definition keeps_file ::
  "('s \<Rightarrow> byte list \<Rightarrow> byte list option) \<Rightarrow> ('s \<Rightarrow> nat \<Rightarrow> (byte list \<times> nat) option) \<Rightarrow> ('s, 'a) proc \<Rightarrow> bool" where
  "keeps_file files opened m \<longleftrightarrow> (\<forall>s a t. m s = (Ok a, t) \<longrightarrow> files t = files s \<and> opened t = opened s)"

definition host_laws ::
  "'s host_fs \<Rightarrow> ('s \<Rightarrow> byte list \<Rightarrow> byte list option) \<Rightarrow> ('s \<Rightarrow> nat \<Rightarrow> (byte list \<times> nat) option) \<Rightarrow> bool" where
  "host_laws fs files opened \<longleftrightarrow>
     (\<forall>path s f t. fs_create fs path s = (Ok f, t) \<longrightarrow> files t path = Some [] \<and> opened t f = Some (path, 0)) \<and>
     (\<forall>f n s t path p. fs_seek fs f n s = (Ok (), t) \<and> opened s f = Some (path, p) \<longrightarrow>
        files t path = files s path \<and> opened t f = Some (path, p + n)) \<and>
     (\<forall>f b s t path p c. fs_write_all fs f b s = (Ok (), t) \<and> opened s f = Some (path, p) \<and> files s path = Some c \<longrightarrow>
        files t path = Some (write_at c p b) \<and> opened t f = Some (path, p + length b)) \<and>
     (\<forall>f n s t path p c. fs_set_len fs f n s = (Ok (), t) \<and> opened s f = Some (path, p) \<and> files s path = Some c \<longrightarrow>
        files t path = Some (resize c n)) \<and>
     (\<forall>f. keeps_file files opened (fs_flush fs f)) \<and>
     (\<forall>f time. keeps_file files opened (fs_set_modified fs f time)) \<and>
     (\<forall>path uid gid. keeps_file files opened (fs_lchown fs path uid gid)) \<and>
     (\<forall>path m. keeps_file files opened (fs_set_permissions fs path m))"

lemma host_lawsD:
  assumes "host_laws fs files opened"
  shows "fs_create fs path s = (Ok f, t) \<Longrightarrow> files t path = Some [] \<and> opened t f = Some (path, 0)"
    and "fs_seek fs f n s = (Ok (), t) \<Longrightarrow> opened s f = Some (path, p) \<Longrightarrow> files t path = files s path \<and> opened t f = Some (path, p + n)"
    and "fs_write_all fs f b s = (Ok (), t) \<Longrightarrow> opened s f = Some (path, p) \<Longrightarrow> files s path = Some c \<Longrightarrow>
        files t path = Some (write_at c p b) \<and> opened t f = Some (path, p + length b)"
    and "fs_set_len fs f n s = (Ok (), t) \<Longrightarrow> opened s f = Some (path, p) \<Longrightarrow> files s path = Some c \<Longrightarrow> files t path = Some (resize c n)"
    and "keeps_file files opened (fs_flush fs f)" and "keeps_file files opened (fs_set_modified fs f time)"
    and "keeps_file files opened (fs_lchown fs path uid gid)" and "keeps_file files opened (fs_set_permissions fs path m)"
  by (use assms in \<open>unfold host_laws_def, elim conjE, metis\<close>)+

section \<open>Sparse writing\<close>

text \<open>
  The file after the bytes \<open>d\<close> went to it: it stands at their end, and they are what it holds
  once it is as long; the zeros at the end may still be missing.
\<close>

definition holds_prefix ::
  "('s \<Rightarrow> byte list \<Rightarrow> byte list option) \<Rightarrow> ('s \<Rightarrow> nat \<Rightarrow> (byte list \<times> nat) option) \<Rightarrow> byte list \<Rightarrow> nat \<Rightarrow> byte list \<Rightarrow> 's \<Rightarrow> bool" where
  "holds_prefix files opened path f d s \<longleftrightarrow>
     opened s f = Some (path, length d) \<and> (\<exists>c k. files s path = Some c \<and> d = c @ replicate k 0)"

lemma zero_run: "e \<le> length buf \<Longrightarrow> take (run_end buf True e - e) (drop e buf) = replicate (run_end buf True e - e) 0"
proof (induction buf True e rule: run_end.induct)
  case (1 buf e)
  show ?case
  proof (cases "e < length buf \<and> zero_piece buf e")
    case False
    then have "run_end buf True e = e" by (subst run_end.simps) auto
    then show ?thesis by simp
  next
    case True
    let ?m = "min (e + PIECE) (length buf)" and ?z = "run_end buf True (min (e + PIECE) (length buf))"
    have z: "run_end buf True e = ?z" using True by (subst run_end.simps) simp
    have m: "e \<le> ?m" "?m \<le> ?z" using True run_end_ge by auto
    have "take (?m - e) (drop e buf) = replicate (?m - e) 0"
      using True by (intro replicate_eqI) (auto simp: zero_piece_def list_all_iff)
    moreover have "take (?z - ?m) (drop ?m buf) = replicate (?z - ?m) 0" using 1 True by simp
    moreover have "take (?z - e) (drop e buf) = take (?m - e) (drop e buf) @ take (?z - ?m) (drop ?m buf)"
      using m take_add [of "?m - e" "?z - ?m" "drop e buf"] by simp
    moreover have "replicate (?m - e) 0 @ replicate (?z - ?m) 0 = replicate (?z - e) (0 :: byte)"
      using m by (simp add: replicate_add [symmetric])
    ultimately show ?thesis unfolding z by metis
  qed
qed

lemma holds_seek:
  assumes "host_laws fs files opened" and "holds_prefix files opened path f d s" and "fs_seek fs f n s = (Ok (), t)"
  shows "holds_prefix files opened path f (d @ replicate n 0) t"
proof -
  obtain c k where c: "opened s f = Some (path, length d)" "files s path = Some c" "d = c @ replicate k 0"
    using assms(2) by (auto simp: holds_prefix_def)
  have "files t path = Some c \<and> opened t f = Some (path, length d + n)" using host_lawsD(2) [OF assms(1,3) c(1)] c(2) by simp
  moreover have "d @ replicate n 0 = c @ replicate (k + n) 0" using c(3) by (simp add: replicate_add)
  ultimately show ?thesis unfolding holds_prefix_def by (metis length_append length_replicate)
qed

lemma holds_write:
  assumes "host_laws fs files opened" and "holds_prefix files opened path f d s" and "fs_write_all fs f b s = (Ok (), t)"
  shows "holds_prefix files opened path f (d @ b) t"
proof -
  obtain c k where c: "opened s f = Some (path, length d)" "files s path = Some c" "d = c @ replicate k 0"
    using assms(2) by (auto simp: holds_prefix_def)
  have "write_at c (length d) b = d @ b" by (simp add: write_at_def c(3))
  then show ?thesis using host_lawsD(3) [OF assms(1,3) c(1,2)] by (force simp: holds_prefix_def)
qed

lemma holds_sparse:
  assumes "host_laws fs files opened"
  shows "holds_prefix files opened path f d s \<Longrightarrow> at \<le> length buf \<Longrightarrow> write_sparse fs f buf at s = (Ok (), t) \<Longrightarrow>
    holds_prefix files opened path f (d @ drop at buf) t"
proof (induction "length buf - at" arbitrary: at d s rule: less_induct)
  case less
  show ?case
  proof (cases "at < length buf")
    case False
    then have "write_sparse fs f buf at s = (Ok (), s)" by (subst write_sparse.simps) (simp add: ret_def)
    then show ?thesis using less.prems False by simp
  next
    case True
    let ?z = "zero_piece buf at" let ?e = "run_end buf ?z at"
    let ?run = "take (?e - at) (drop at buf)"
    have e: "at < ?e" "?e \<le> length buf" using run_end_advances [OF True] run_end_le [of at buf ?z] True by simp_all
    obtain u where u: "(if ?z then fs_seek fs f (?e - at) else fs_write_all fs f ?run) s = (Ok (), u)" "write_sparse fs f buf ?e u = (Ok (), t)"
      using less.prems(3) True by (subst (asm) write_sparse.simps) (auto simp: Let_def elim!: seq_OkE)
    have "holds_prefix files opened path f (d @ ?run) u"
    proof (cases ?z)
      case z: True
      then have "fs_seek fs f (?e - at) s = (Ok (), u)" using u(1) by simp
      moreover have "?run = replicate (?e - at) 0" using zero_run [of at buf] True z by simp
      ultimately show ?thesis using holds_seek [OF assms less.prems(1)] by metis
    next
      case False
      then show ?thesis using holds_write [OF assms less.prems(1)] u(1) by simp
    qed
    then have "holds_prefix files opened path f ((d @ ?run) @ drop ?e buf) t"
      using e u(2) by (intro less.hyps) auto
    moreover have "?run @ drop ?e buf = drop at buf"
      using e append_take_drop_id [of "?e - at" "drop at buf"] by simp
    ultimately show ?thesis by simp
  qed
qed

lemma holds_pieces:
  assumes "host_laws fs files opened"
  shows "holds_prefix files opened path f d s \<Longrightarrow> for_each (\<lambda>chunk. write_sparse fs f chunk 0) ps s = (Ok (), t) \<Longrightarrow>
    holds_prefix files opened path f (d @ concat ps) t"
proof (induction ps arbitrary: d s)
  case (Cons p ps)
  obtain u where u: "write_sparse fs f p 0 s = (Ok (), u)" "for_each (\<lambda>chunk. write_sparse fs f chunk 0) ps u = (Ok (), t)"
    using Cons.prems(2) by (auto elim: seq_OkE)
  show ?case using Cons.IH [OF holds_sparse [OF assms Cons.prems(1) _ u(1)] u(2)] by simp
qed (simp add: ret_def)

section \<open>Properties\<close>

text \<open>
  C17. Extracting a file returns, and unless a call of the host fails the host's file holds
  exactly the bytes of the file: the zeros that \<open>write_sparse\<close> seeks over, in the middle, at the
  end and across the pieces the file is read in, are there when the length is set. The host's
  calls are assumed to do what their documentation says when they succeed.
\<close>

theorem extract_writes_file:
  assumes "host_laws fs files opened" and "extents ops v ip False = Ok exts"
    and "reads (\<lambda>off. read_inode_range ops v ip exts off CHUNK) CHUNK data" and "length data = st_size st"
  shows "\<exists>r t. extract_data ops fs v opts st ip path s = Some (r, t) \<and> (r = Ok () \<longrightarrow> files t path = Some data)"
proof -
  let ?put = "\<lambda>f chunk. write_sparse fs f chunk 0"
  let ?rest = "\<lambda>f. seq (fs_set_len fs f (st_size st)) (\<lambda>_. seq (fs_flush fs f) (\<lambda>_. seq (fs_set_modified fs f (system_time (st_mtime st)))
       (\<lambda>_. seq (if eo_owner opts then fs_lchown fs path (st_uid st) (st_gid st) else ret ()) (\<lambda>_. set_file_mode fs path (st_mode st)))))"
  let ?all = "seq (fs_create fs path) (\<lambda>f. seq (for_each (?put f) (pieces CHUNK data)) (\<lambda>_. ?rest f))"
  have "extract_data ops fs v opts st ip path s = Some (?all s)"
  proof -
    have "copy_loop (\<lambda>off. read_inode_range ops v ip exts off CHUNK) (?put f) (st_size st) 0 = once (for_each (?put f) (pieces CHUNK data))" for f
      using copy_loop_pieces [OF assms(3), of "?put f" 0] assms(4) by (simp add: fun_eq_iff once_def)
    then show ?thesis
      unfolding extract_data_def assms(2) lseq_simps by (simp add: lseq_def once_def seq_def split: prod.splits res.splits)
  qed
  moreover have "files t path = Some data" if t: "?all s = (Ok (), t)" for t
  proof -
    obtain f s1 s2 s3 s4 s5 s6 where s: "fs_create fs path s = (Ok f, s1)" "for_each (?put f) (pieces CHUNK data) s1 = (Ok (), s2)"
      "fs_set_len fs f (st_size st) s2 = (Ok (), s3)" "fs_flush fs f s3 = (Ok (), s4)" "fs_set_modified fs f (system_time (st_mtime st)) s4 = (Ok (), s5)"
      "(if eo_owner opts then fs_lchown fs path (st_uid st) (st_gid st) else ret ()) s5 = (Ok (), s6)" "set_file_mode fs path (st_mode st) s6 = (Ok (), t)"
      using t by (elim seq_OkE) simp
    have "holds_prefix files opened path f [] s1" using host_lawsD(1) [OF assms(1) s(1)] by (simp add: holds_prefix_def)
    from holds_pieces [OF assms(1) this s(2)] have "holds_prefix files opened path f data s2" by (simp add: concat_pieces)
    then obtain c k where c: "opened s2 f = Some (path, length data)" "files s2 path = Some c" "data = c @ replicate k 0"
      by (auto simp: holds_prefix_def)
    have "resize c (st_size st) = data" by (simp add: resize_def assms(4) [symmetric] c(3))
    then have "files s3 path = Some data" using host_lawsD(4) [OF assms(1) s(3) c(1,2)] by simp
    moreover have "files t = files s3"
      using s(4-7) host_lawsD(5-8) [OF assms(1)] by (auto simp: keeps_file_def set_file_mode_def ret_def split: if_splits)
    ultimately show ?thesis by simp
  qed
  ultimately show ?thesis by (cases "?all s") auto
qed

text \<open>A host that keeps its files in memory and never fails.\<close>

record mem_host_state =
  mh_files :: "byte list \<Rightarrow> byte list option"
  mh_opened :: "nat \<Rightarrow> (byte list \<times> nat) option"

definition mem_host :: "mem_host_state host_fs" where
  "mem_host =
     \<lparr>fs_create_dir_all = (\<lambda>path. ret ()), fs_create_dir = (\<lambda>path. ret ()), fs_hard_link = (\<lambda>old path. ret ()),
      fs_symlink = (\<lambda>target path. ret ()),
      fs_create = (\<lambda>path s. (Ok 3, s\<lparr>mh_files := (mh_files s)(path \<mapsto> []), mh_opened := (mh_opened s)(3 \<mapsto> (path, 0))\<rparr>)),
      fs_open = (\<lambda>path s. (Ok 3, s\<lparr>mh_opened := (mh_opened s)(3 \<mapsto> (path, 0))\<rparr>)),
      fs_seek = (\<lambda>f n s. (Ok (), s\<lparr>mh_opened := (mh_opened s)(f := map_option (\<lambda>(path, p). (path, p + n)) (mh_opened s f))\<rparr>)),
      fs_write_all = (\<lambda>f b s. (Ok (), case mh_opened s f of None \<Rightarrow> s | Some (path, p) \<Rightarrow>
        s\<lparr>mh_files := (mh_files s)(path := map_option (\<lambda>c. write_at c p b) (mh_files s path)),
          mh_opened := (mh_opened s)(f \<mapsto> (path, p + length b))\<rparr>)),
      fs_set_len = (\<lambda>f n s. (Ok (), case mh_opened s f of None \<Rightarrow> s | Some (path, p) \<Rightarrow>
        s\<lparr>mh_files := (mh_files s)(path := map_option (\<lambda>c. resize c n) (mh_files s path))\<rparr>)),
      fs_flush = (\<lambda>f. ret ()), fs_set_modified = (\<lambda>f time. ret ()), fs_lchown = (\<lambda>path uid gid. ret ()),
      fs_set_permissions = (\<lambda>path m. ret ())\<rparr>"

lemma mem_host_laws: "host_laws mem_host mh_files mh_opened"
  by (auto simp: host_laws_def mem_host_def keeps_file_def ret_def)

lemma mem_host_simps:
  "\<exists>t. fs_seek mem_host f n s = (Ok (), t)" "\<exists>t. fs_write_all mem_host f b s = (Ok (), t)" "\<exists>t. fs_set_len mem_host f n s = (Ok (), t)"
  "\<exists>t. fs_create mem_host path s = (Ok 3, t)" "fs_flush mem_host f = ret ()" "fs_set_modified mem_host f time = ret ()"
  "fs_set_permissions mem_host path m = ret ()"
  by (auto simp: mem_host_def)

lemma mem_host_sparse: "\<exists>t. write_sparse mem_host f buf at s = (Ok (), t)"
proof (induction "length buf - at" arbitrary: at s rule: less_induct)
  case less
  show ?case
  proof (cases "at < length buf")
    case True
    let ?z = "zero_piece buf at" let ?e = "run_end buf ?z at"
    obtain u where u: "(if ?z then fs_seek mem_host f (?e - at) else fs_write_all mem_host f (take (?e - at) (drop at buf))) s = (Ok (), u)"
      using mem_host_simps(1) [of f "?e - at" s] mem_host_simps(2) [of f "take (?e - at) (drop at buf)" s] by (cases ?z) auto
    then show ?thesis
      using True less [of ?e u] run_end_advances [OF True] by (subst write_sparse.simps) (simp add: Let_def seq_eq)
  qed (subst write_sparse.simps, simp add: ret_def)
qed

lemma mem_host_pieces: "\<exists>t. for_each (\<lambda>chunk. write_sparse mem_host f chunk 0) ps s = (Ok (), t)"
proof (induction ps arbitrary: s)
  case (Cons p ps)
  obtain u where "write_sparse mem_host f p 0 s = (Ok (), u)" using mem_host_sparse by blast
  then show ?case using Cons.IH [of u] by (simp add: seq_eq)
qed (simp add: ret_def)

lemma mem_host_extracts:
  assumes "extents ops v ip False = Ok exts" and "reads (\<lambda>off. read_inode_range ops v ip exts off CHUNK) CHUNK data" and "length data = st_size st" and "\<not> b"
  shows "\<exists>t. extract_data ops mem_host v \<lparr>eo_owner = b\<rparr> st ip path s = Some (Ok (), t)"
proof -
  obtain s1 where s1: "fs_create mem_host path s = (Ok 3, s1)" using mem_host_simps(4) by blast
  let ?put = "\<lambda>chunk. write_sparse mem_host 3 chunk 0"
  obtain s2 where s2: "for_each ?put (pieces CHUNK data) s1 = (Ok (), s2)" using mem_host_pieces by blast
  obtain s3 where s3: "fs_set_len mem_host 3 (st_size st) s2 = (Ok (), s3)" using mem_host_simps(3) by blast
  have "copy_loop (\<lambda>off. read_inode_range ops v ip exts off CHUNK) ?put (st_size st) 0 s1 = Some (Ok (), s2)"
    using copy_loop_pieces [OF assms(2), of ?put 0 s1] s2 assms(3) by simp
  then show ?thesis
    using s1 s3 assms(4) by (simp add: extract_data_def assms(1) lseq_def once_def seq_eq mem_host_simps(5-7) set_file_mode_def ret_def seq_def)
qed

theorem extract_writes_file_witness:
  "\<exists>f e t. read_inode mem_ops one_file 2 = Ok f \<and> walk mem_ops one_file [0x2f] = Ok [e] \<and>
     extract_data mem_ops mem_host one_file \<lparr>eo_owner = False\<rparr> (we_stat e) f [0x61] \<lparr>mh_files = (\<lambda>_. None), mh_opened = (\<lambda>_. None)\<rparr> =
       Some (Ok (), t) \<and> mh_files t [0x61] = Some [0x68, 0x69]"
proof -
  let ?s = "\<lparr>mh_files = (\<lambda>_. None), mh_opened = (\<lambda>_. None)\<rparr>"
  obtain e where e: "walk mem_ops one_file [0x2f] = Ok [e]" "st_size (we_stat e) = 2" using one_file_walk by blast
  obtain f where f: "read_inode mem_ops one_file 2 = Ok f" "i_format f = Local" "i_size f = 2"
     "i_data_fork f = [0x68, 0x69] @ replicate 154 0" using one_file_inodes(2) by blast
  note rd = one_file_reads [OF f(2-4)]
  have ex: "extents mem_ops one_file f False = Ok []" by (simp add: extents_def fork_map_def f)
  obtain t where t: "extract_data mem_ops mem_host one_file \<lparr>eo_owner = False\<rparr> (we_stat e) f [0x61] ?s = Some (Ok (), t)"
    using mem_host_extracts [OF ex rd, of "we_stat e" False "[0x61]" ?s] e(2) by auto
  then have "mh_files t [0x61] = Some [0x68, 0x69]"
    using extract_writes_file [OF mem_host_laws ex rd, of "we_stat e" "\<lparr>eo_owner = False\<rparr>" "[0x61]" ?s] e(2) by auto
  then show ?thesis using e f(1) t by blast
qed

end
