(* ===== verification/Sinks.thy ===== *)
theory Sinks
  imports Export
begin

text \<open>
  An archive does not depend on where it is written: over every sink that keeps the bytes it
  is given in order, shown or still held back, \<open>pack_tar_to\<close> does what it does over the sink that
  collects them in memory, and it ends with a flush. The contract of such a sink is the locale \<open>collecting_sink\<close>; the proof is a simulation
  of the writer over the sink by the writer over a byte vector.
\<close>

section \<open>Simulation\<close>

text \<open>Two methods that give the same result and keep their states related.\<close>

definition sim :: "('s \<Rightarrow> 't \<Rightarrow> bool) \<Rightarrow> ('s, 'a) proc \<Rightarrow> ('t, 'a) proc \<Rightarrow> bool" where
  "sim R m n \<longleftrightarrow> (\<forall>s t. R s t \<longrightarrow> fst (m s) = fst (n t) \<and> R (snd (m s)) (snd (n t)))"

definition lsim :: "('s \<Rightarrow> 't \<Rightarrow> bool) \<Rightarrow> ('s, 'a) lproc \<Rightarrow> ('t, 'a) lproc \<Rightarrow> bool" where
  "lsim R m n \<longleftrightarrow> (\<forall>s t. R s t \<longrightarrow> rel_option (rel_prod (=) R) (m s) (n t))"

named_theorems sim_intros

lemma simI: "(\<And>s t. R s t \<Longrightarrow> \<exists>r s' t'. m s = (r, s') \<and> n t = (r, t') \<and> R s' t') \<Longrightarrow> sim R m n"
  by (fastforce simp: sim_def)

lemma simE:
  assumes "sim R m n" and "R s t"
  obtains r s' t' where "m s = (r, s')" and "n t = (r, t')" and "R s' t'"
  using assms by (metis prod.collapse sim_def)

lemma sim_seq [sim_intros]:
  assumes "sim R m n" and "\<And>a. sim R (f a) (g a)"
  shows "sim R (seq m f) (seq n g)"
proof (rule simI)
  fix s t assume R: "R s t"
  obtain r s' t' where r: "m s = (r, s')" "n t = (r, t')" "R s' t'" by (rule simE [OF assms(1) R])
  show "\<exists>r s' t'. seq m f s = (r, s') \<and> seq n g t = (r, t') \<and> R s' t'"
  proof (cases r)
    case (Ok a)
    with r show ?thesis using simE [OF assms(2) r(3), of a] by (simp add: seq_def) blast
  qed (use r in \<open>simp_all add: seq_def\<close>)
qed

lemma sim_pure [sim_intros]: "sim R (ret a) (ret a)" "sim R (lift x) (lift x)" "sim R (raise e) (raise e)"
  by (simp_all add: sim_def ret_def lift_def raise_def)

lemma lsim_once [sim_intros]: "sim R m n \<Longrightarrow> lsim R (once m) (once n)"
  by (auto simp: lsim_def once_def rel_prod_sel elim: simE)

lemma lsim_lseq [sim_intros]:
  assumes "lsim R m n" and "\<And>a. lsim R (f a) (g a)"
  shows "lsim R (lseq m f) (lseq n g)"
  unfolding lsim_def
proof (intro allI impI)
  fix s t assume "R s t"
  then have "rel_option (rel_prod (=) R) (m s) (n t)" using assms(1) by (simp add: lsim_def)
  then show "rel_option (rel_prod (=) R) (lseq m f s) (lseq n g t)"
  proof cases
    case (Some p q)
    then obtain r s' t' where "p = (r, s')" "q = (r, t')" "R s' t'" by (cases p, cases q) auto
    with Some assms(2) show ?thesis by (cases r) (auto simp: lseq_def lsim_def)
  qed (simp add: lseq_def)
qed

text \<open>A choice that does not look at the state.\<close>

lemma sim_choice [sim_intros]:
  "sim R m n \<Longrightarrow> sim R m' n' \<Longrightarrow> sim R (if c then m else m') (if c then n else n')"
  "(\<And>a b. sim R (f a b) (g a b)) \<Longrightarrow> sim R (case_prod f p) (case_prod g p)"
  by (simp_all split: prod.splits)

lemma lsim_choice [sim_intros]:
  "lsim R l k \<Longrightarrow> lsim R l' k' \<Longrightarrow> lsim R (if c then l else l') (if c then k else k')"
  "lsim R l k \<Longrightarrow> (\<And>a. lsim R (f a) (g a)) \<Longrightarrow> lsim R (case_option l f x) (case_option k g x)"
  by (simp_all split: option.splits)

text \<open>The copying loop: a run over one state is a run over the other, in both directions.\<close>

lemma copy_loop_run:
  assumes "copy_loop rd put sz off s = Some (r, s')" and "\<And>c. sim R (put c) (put' c)" and "R s t"
  shows "\<exists>t'. copy_loop rd put' sz off t = Some (r, t') \<and> R s' t'"
proof -
  let ?P = "\<lambda>rd put sz off s p. \<forall>t. R s t \<longrightarrow> (\<forall>c. sim R (put c) (put' c)) \<longrightarrow>
      (\<exists>t'. copy_loop rd put' sz off t = Some (fst p, t') \<and> R (snd p) t')"
  have "?P rd put sz off s (r, s')"
  proof (rule copy_loop.raw_induct [of ?P, OF _ assms(1)], intro allI impI)
    fix loop and rd :: "nat \<Rightarrow> byte list res" and put :: "byte list \<Rightarrow> ('a, unit) proc" and sz off s p t
    assume IH: "\<And>rd put sz off s y. loop rd put sz off s = Some y \<Longrightarrow> ?P rd put sz off s y"
      and run: "(if off < sz
        then case rd off of
             Ok chunk \<Rightarrow>
               (case put chunk s of
                 (Ok x, s') \<Rightarrow> loop rd put sz (off + length chunk) s'
               | (Err e, s') \<Rightarrow> Some (Err e, s')
               | (Panic, s') \<Rightarrow> Some (Panic, s'))
             | Err e \<Rightarrow> Some (Err e, s) | Panic \<Rightarrow> Some (Panic, s)
        else Some (Ok (), s)) = Some p"
      and R: "R s t" and puts: "\<forall>c. sim R (put c) (put' c)"
    show "\<exists>t'. copy_loop rd put' sz off t = Some (fst p, t') \<and> R (snd p) t'"
    proof (cases "off < sz")
      case more: True
      show ?thesis
      proof (cases "rd off")
          case (Ok chunk)
          obtain q s1 t1 where q: "put chunk s = (q, s1)" "put' chunk t = (q, t1)" "R s1 t1"
            using simE [OF puts [rule_format] R] by metis
          show ?thesis
          proof (cases q)
            case (Ok u)
            then have "loop rd put sz (off + length chunk) s1 = Some p" using run q more \<open>rd off = Ok chunk\<close> by simp
            then show ?thesis
              using IH q(2,3) puts more \<open>rd off = Ok chunk\<close> Ok by (subst copy_loop.simps) simp
          qed (use run q more Ok in \<open>auto simp: copy_loop.simps [of rd put' sz off t]\<close>)
        qed (use run more R in \<open>auto simp: copy_loop.simps [of rd put' sz off t]\<close>)
    qed (use run R in \<open>auto simp: copy_loop.simps [of rd put' sz off t]\<close>)
  qed
  then show ?thesis using assms by fastforce
qed

lemma sim_conv: "sim R m n \<Longrightarrow> sim (\<lambda>t s. R s t) n m"
  by (simp add: sim_def)

lemma lsim_copy_loop [sim_intros]:
  assumes "\<And>c. sim R (put c) (put' c)"
  shows "lsim R (copy_loop rd put sz off) (copy_loop rd put' sz off)"
  unfolding lsim_def
proof (intro allI impI)
  fix s t assume R: "R s t"
  show "rel_option (rel_prod (=) R) (copy_loop rd put sz off s) (copy_loop rd put' sz off t)"
  proof (cases "copy_loop rd put sz off s")
    case None
    moreover have "copy_loop rd put' sz off t = None"
      using copy_loop_run [where R = "\<lambda>t s. R s t", OF _ sim_conv [OF assms] R] None by (cases "copy_loop rd put' sz off t") fastforce+
    ultimately show ?thesis by simp
  next
    case (Some p)
    then show ?thesis using copy_loop_run [OF _ assms R] by (cases p) fastforce
  qed
qed

section \<open>Sinks that keep what they are given\<close>

locale collecting_sink =
  fixes sk :: "'k sink_ops"
    and out :: "'k \<Rightarrow> byte list"
  assumes sink_write: "\<exists>k'. sk_write_all sk buf k = (Ok (), k') \<and> out k' = out k @ buf"
    and sink_flush: "\<exists>k'. sk_flush sk k = (Ok (), k') \<and> out k' = out k"

interpretation vec: collecting_sink vec_sink "\<lambda>bs. bs"
  by unfold_locales (simp_all add: vec_sink_def ret_def)

text \<open>A writer over such a sink beside one over a vector: the sink held \<open>pre\<close> to begin with.\<close>

definition mirrored :: "('k \<Rightarrow> byte list) \<Rightarrow> byte list \<Rightarrow> 'k writer \<Rightarrow> byte list writer \<Rightarrow> bool" where
  "mirrored out pre w u \<longleftrightarrow> out (w_sink w) = pre @ w_sink u \<and> w_owed w = w_owed u \<and> w_pad w = w_pad u"

context collecting_sink
begin

lemma on_sink_sim [sim_intros]:
  "sim (mirrored out pre) (on_sink (sk_write_all sk buf)) (on_sink (sk_write_all vec_sink buf))"
  "sim (mirrored out pre) (on_sink (sk_flush sk)) (on_sink (sk_flush vec_sink))"
proof -
  show "sim (mirrored out pre) (on_sink (sk_write_all sk buf)) (on_sink (sk_write_all vec_sink buf))"
  proof (rule simI)
    fix w u assume "mirrored out pre w u"
    then show "\<exists>r s' t'. on_sink (sk_write_all sk buf) w = (r, s') \<and> on_sink (sk_write_all vec_sink buf) u = (r, t') \<and> mirrored out pre s' t'"
      using sink_write [of buf "w_sink w"] by (auto simp: on_sink_def vec_sink_def ret_def mirrored_def)
  qed
  show "sim (mirrored out pre) (on_sink (sk_flush sk)) (on_sink (sk_flush vec_sink))"
  proof (rule simI)
    fix w u assume "mirrored out pre w u"
    then show "\<exists>r s' t'. on_sink (sk_flush sk) w = (r, s') \<and> on_sink (sk_flush vec_sink) u = (r, t') \<and> mirrored out pre s' t'"
      using sink_flush [of "w_sink w"] by (auto simp: on_sink_def vec_sink_def ret_def mirrored_def)
  qed
qed

text \<open>A step that looks at what the writer owes, or changes it, does so on both sides.\<close>

lemma sim_guard:
  assumes "\<And>w u. mirrored out pre w u \<Longrightarrow> p w = q u" and "sim (mirrored out pre) m n"
  shows "sim (mirrored out pre) (\<lambda>w. if p w then (Panic, w) else m w) (\<lambda>u. if q u then (Panic, u) else n u)"
  using assms by (auto simp: sim_def)

lemma sim_before:
  assumes "sim (mirrored out pre) m n" and "\<And>w u. mirrored out pre w u \<Longrightarrow> mirrored out pre (f w) (g u)"
  shows "sim (mirrored out pre) (\<lambda>w. m (f w)) (\<lambda>u. n (g u))"
  using assms by (auto simp: sim_def)

lemma modify_sim [sim_intros]:
  "sim (mirrored out pre) (modify (\<lambda>w. w\<lparr>w_owed := n, w_pad := k\<rparr>)) (modify (\<lambda>u. u\<lparr>w_owed := n, w_pad := k\<rparr>))"
  by (simp add: sim_def modify_def mirrored_def)

lemma finish_entry_sim [sim_intros]: "sim (mirrored out pre) (finish_entry sk) (finish_entry vec_sink)"
proof (rule simI)
  fix w u assume m: "mirrored out pre w u"
  then have "mirrored out pre (w\<lparr>w_pad := 0\<rparr>) (u\<lparr>w_pad := 0\<rparr>)" "w_pad w = w_pad u" by (simp_all add: mirrored_def)
  then show "\<exists>r s' t'. finish_entry sk w = (r, s') \<and> finish_entry vec_sink u = (r, t') \<and> mirrored out pre s' t'"
    using m simE [OF on_sink_sim(1)] by (cases "w_pad u > 0") (simp_all add: finish_entry_def, metis)
qed

lemma tar_data_sim [sim_intros]: "sim (mirrored out pre) (tar_data sk buf) (tar_data vec_sink buf)"
  unfolding tar_data_def by (rule sim_guard, simp add: mirrored_def, rule sim_before, rule on_sink_sim, simp add: mirrored_def)

lemma tar_begin_sim [sim_intros]: "sim (mirrored out pre) (tar_begin sk h) (tar_begin vec_sink h)"
  unfolding tar_begin_def Let_def
  by (rule sim_guard, simp add: mirrored_def, intro sim_intros)

lemma tar_append_sim [sim_intros]: "sim (mirrored out pre) (tar_append sk h data) (tar_append vec_sink h data)"
  unfolding tar_append_def by (intro sim_intros)

lemma tar_finish_sim [sim_intros]: "sim (mirrored out pre) (tar_finish sk) (tar_finish vec_sink)"
  unfolding tar_finish_def by (rule sim_guard, simp add: mirrored_def, intro sim_intros)

end

section \<open>Packing\<close>

context collecting_sink
begin

lemma pack_file_sim [sim_intros]:
  "lsim (mirrored out pre) (pack_file ops sk v e ip report) (pack_file ops vec_sink v e ip report)"
  unfolding pack_file_def Let_def by (intro sim_intros)

lemma pack_entry_sim [sim_intros]:
  "lsim (mirrored out pre) (pack_entry ops sk v e acc) (pack_entry ops vec_sink v e acc)"
  unfolding pack_entry_def Let_def case_prod_beta by (intro sim_intros)

lemma pack_entries_sim [sim_intros]:
  "lsim (mirrored out pre) (pack_entries ops sk v es acc) (pack_entries ops vec_sink v es acc)"
  by (induction es arbitrary: acc) (simp_all, (intro sim_intros; assumption?)+)

lemma pack_into_sim [sim_intros]: "lsim (mirrored out pre) (pack_into ops sk v root) (pack_into ops vec_sink v root)"
  unfolding pack_into_def by (intro sim_intros)

lemma pack_tar_to_same:
  "rel_option (\<lambda>(r, k') (r', bs). r = r' \<and> out k' = out k @ bs)
     (pack_tar_to ops sk v k root) (pack_tar_to ops vec_sink v [] root)"
proof -
  let ?m = "\<lambda>sk. lseq (pack_into ops sk v root) (\<lambda>report. lseq (once (tar_finish sk)) (\<lambda>_. once (ret report)))"
  have "lsim (mirrored out (out k)) (?m sk) (?m vec_sink)" by (intro sim_intros)
  moreover have "mirrored out (out k) (writer_new k) (writer_new [])" by (simp add: mirrored_def writer_new_def)
  ultimately have "rel_option (rel_prod (=) (mirrored out (out k))) (?m sk (writer_new k)) (?m vec_sink (writer_new []))"
    by (simp add: lsim_def)
  then show ?thesis unfolding pack_tar_to_def option.rel_map
    by (rule option.rel_mono_strong) (auto simp: mirrored_def)
qed

end

text \<open>\<open>pack_tar\<close> gives the bytes that \<open>pack_tar_to\<close> writes to a vector.\<close>

lemma pack_tar_bytes:
  "pack_tar ops v root = map_option (\<lambda>(r, bs). map_ok (\<lambda>_. bs) r) (pack_tar_to ops vec_sink v [] root)"
proof (cases "pack_into ops vec_sink v root (writer_new [])")
  case (Some p)
  obtain r w where p: "p = (r, w)" by (cases p)
  show ?thesis
  proof (cases r)
    case (Ok report)
    obtain r' w' where "tar_finish vec_sink w = (r', w')" by (cases "tar_finish vec_sink w")
    then show ?thesis by (cases r') (simp_all add: pack_tar_def pack_tar_to_def lseq_def once_def ret_def Some p Ok)
  qed (simp_all add: pack_tar_def pack_tar_to_def lseq_def Some p)
qed (simp add: pack_tar_def pack_tar_to_def lseq_def)

text \<open>
  What a sink holds back is out at the end: the last call that a successful \<open>pack_tar_to\<close> makes to
  its sink is a flush.
\<close>

lemma pack_tar_to_flushes:
  assumes "pack_tar_to ops sk v k root = Some (Ok r, k')"
  obtains k0 where "sk_flush sk k0 = (Ok (), k')"
proof -
  obtain w w' where "tar_finish sk w = (Ok (), w')" "k' = w_sink w'"
    using assms by (auto simp: pack_tar_to_def lseq_def once_def ret_def split: option.splits prod.splits res.splits)
  then obtain w1 where "on_sink (sk_flush sk) w1 = (Ok (), w')"
    by (auto simp: tar_finish_def split: if_splits elim!: seq_OkE)
  then show thesis using that \<open>k' = w_sink w'\<close> by (auto simp: on_sink_def split: prod.splits)
qed

lemma tiny_tar: "pack_tar_to mem_ops vec_sink tiny_vol [] [0x2f] = Some (Ok no_packs, replicate 1024 0)"
  by (simp add: pack_tar_to_def pack_into_def lseq_def once_def lift_def tiny_walk ret_def tar_finish_def writer_new_def seq_def
    finish_entry_vec on_vec)

end
