(* ===== verification/Cli.thy ===== *)
theory Cli
  imports Sinks
begin

text \<open>
  The command line tool (\<open>src/src/bin/fio_xfs.rs\<close>): what each command prints and where the
  bytes of \<open>cat\<close> and \<open>tar\<close> go, after the arguments have been parsed. The output streams and
  the files it creates are the operating system's, a record of operations over a state of
  their own; a line that cannot be printed is a panic, as with \<open>println!\<close>.
\<close>

unbundle bit_operations_syntax

section \<open>The command line\<close>

datatype cmd =
    Info
  | Ls "byte list"
  | Stat "byte list"
  | Cat "byte list"
  | Readlink "byte list"
  | Xattrs "byte list"
  | Tree "byte list"
  | ExtractTo "byte list" "byte list" bool
  | Tar "byte list option" "byte list"

record cli =
  c_image :: "byte list"
  c_norecovery :: bool
  c_cmd :: cmd

section \<open>Text\<close>

primrec kind_char :: "file_type \<Rightarrow> byte" where
  "kind_char file_type.Directory = 0x64"
| "kind_char file_type.Symlink = 0x6c"
| "kind_char file_type.CharDevice = 0x63"
| "kind_char file_type.BlockDevice = 0x62"
| "kind_char file_type.Fifo = 0x70"
| "kind_char file_type.Socket = 0x73"
| "kind_char file_type.File = 0x2d"
| "kind_char file_type.Unknown = 0x3f"

text \<open>The derived \<open>Debug\<close> of \<open>FileType\<close>.\<close>

primrec kind_name :: "file_type \<Rightarrow> byte list" where
  "kind_name file_type.Unknown = ascii ''Unknown''"
| "kind_name file_type.File = ascii ''File''"
| "kind_name file_type.Directory = ascii ''Directory''"
| "kind_name file_type.CharDevice = ascii ''CharDevice''"
| "kind_name file_type.BlockDevice = ascii ''BlockDevice''"
| "kind_name file_type.Fifo = ascii ''Fifo''"
| "kind_name file_type.Socket = ascii ''Socket''"
| "kind_name file_type.Symlink = ascii ''Symlink''"

definition dec :: "nat \<Rightarrow> byte list" where
  "dec n = digits 10 n"

text \<open>\<open>{:>w}\<close> of a number, \<open>{:02x}\<close> of a byte and \<open>{:#x}\<close> of a number.\<close>

definition right_aligned :: "nat \<Rightarrow> nat \<Rightarrow> byte list" where
  "right_aligned w n = replicate (w - length (dec n)) 0x20 @ dec n"

definition hex_digit :: "nat \<Rightarrow> byte" where
  "hex_digit n = word_of_nat (if n < 10 then 48 + n else 87 + n)"

definition hex_bytes :: "byte list \<Rightarrow> byte list" where
  "hex_bytes bs = concat (map (\<lambda>b. [hex_digit (unat b div 16), hex_digit (unat b mod 16)]) bs)"

function hex_digits :: "nat \<Rightarrow> byte list" where
  "hex_digits n = (if n < 16 then [hex_digit n] else hex_digits (n div 16) @ [hex_digit (n mod 16)])"
  by pat_completeness auto
termination by (relation "measure id") auto

declare hex_digits.simps [simp del]

definition hex_nat :: "nat \<Rightarrow> byte list" where
  "hex_nat n = ascii ''0x'' @ hex_digits n"

definition bool_text :: "bool \<Rightarrow> byte list" where
  "bool_text b = ascii (if b then ''true'' else ''false'')"

text \<open>
  The \<open>Display\<close> of a \<open>LogState\<close>. The model keeps no text of an error, so the reason of an
  unreadable log is an argument.
\<close>

primrec log_text :: "byte list \<Rightarrow> log_state \<Rightarrow> byte list" where
  "log_text why Clean = ascii ''clean''"
| "log_text why (Dirty head tail) = ascii ''dirty (head '' @ dec head @ ascii '', tail '' @ dec tail @ ascii '')''"
| "log_text why External = ascii ''external (not checked)''"
| "log_text why Unreadable = ascii ''unreadable: '' @ why"

text \<open>\<open>str::from_utf8\<close>, as the characters' bytes, and \<open>char::is_control\<close> of one.\<close>

function utf8_chars :: "byte list \<Rightarrow> byte list list option" where
  "utf8_chars bs =
     (if bs = [] then Some []
      else case utf8_step bs of (n, valid) \<Rightarrow>
        if valid then map_option ((#) (take n bs)) (utf8_chars (drop n bs)) else None)"
  by pat_completeness auto
termination
proof (relation "measure length", goal_cases)
  case (2 bs n valid)
  then show ?case using utf8_step_pos [of bs] by (metis diff_less fst_conv in_measure length_drop length_greater_0_conv)
qed simp

declare utf8_chars.simps [simp del]

definition is_control :: "byte list \<Rightarrow> bool" where
  "is_control c \<longleftrightarrow>
     (case c of
        [b] \<Rightarrow> unat b < 0x20 \<or> b = 0x7f
      | [a, b] \<Rightarrow> a = 0xc2 \<and> 0x80 \<le> unat b \<and> unat b < 0xa0
      | _ \<Rightarrow> False)"

section \<open>The lines of a command\<close>

definition info_lines :: "byte list \<Rightarrow> 'd volume \<Rightarrow> byte list res list" where
  "info_lines why v =
     (let sb = v_sb v in
      map Ok [ascii ''version        '' @ dec (sb_version sb),
          ascii ''uuid           '' @ hex_bytes (sb_uuid sb),
          ascii ''label          '' @ sb_label sb,
          ascii ''block size     '' @ dec (sb_block_size sb),
          ascii ''blocks         '' @ dec (sb_data_blocks sb),
          ascii ''free blocks    '' @ dec (sb_free_blocks sb),
          ascii ''AGs            '' @ dec (sb_ag_count sb) @ ascii '' x '' @ dec (sb_ag_blocks sb) @ ascii '' blocks'',
          ascii ''sector size    '' @ dec (sb_sector_size sb),
          ascii ''inode size     '' @ dec (sb_inode_size sb),
          ascii ''inodes         '' @ dec (sb_icount sb) @ ascii '' ('' @ dec (sb_ifree sb) @ ascii '' free)''] @
      [map_ok (\<lambda>n. ascii ''dir block size '' @ dec n) (dir_block_size sb)] @
      map Ok [
          ascii ''root inode     '' @ dec (sb_root_ino sb),
          ascii ''ftype          '' @ bool_text (has_ftype sb),
          ascii ''incompat       '' @ hex_nat (sb_features_incompat sb),
          ascii ''ro_compat      '' @ hex_nat (sb_features_ro_compat sb),
          ascii ''log            '' @ log_text why (v_log v)])"

definition ls_line :: "entry \<Rightarrow> byte list" where
  "ls_line e = [kind_char (en_kind e), 0x20] @ right_aligned 12 (en_inode e) @ [0x20] @ en_name e"

definition stat_lines :: "vstat \<Rightarrow> byte list list" where
  "stat_lines st =
     [ascii ''inode   '' @ dec (st_inode st),
      ascii ''type    '' @ kind_name (stat_kind st),
      ascii ''mode    '' @ digits 8 (st_mode st AND 0xfff),
      ascii ''links   '' @ dec (st_links st),
      ascii ''uid/gid '' @ dec (st_uid st) @ [0x2f] @ dec (st_gid st),
      ascii ''size    '' @ dec (st_size st),
      ascii ''blocks  '' @ dec (st_blocks st),
      ascii ''mtime   '' @ dec_int (ts_secs (st_mtime st)) @ [0x2e] @ padded 10 9 (ts_nsecs (st_mtime st))] @
     (if st_rdev st \<noteq> (0, 0) then [ascii ''rdev    '' @ dec (fst (st_rdev st)) @ [0x2c] @ dec (snd (st_rdev st))] else [])"

text \<open>A value that is text, once a zero at its end is off, is shown as it is, any other in hexadecimal.\<close>

definition strip_zero :: "byte list \<Rightarrow> byte list" where
  "strip_zero bs = (if bs \<noteq> [] \<and> List.last bs = 0 then butlast bs else bs)"

definition xattr_text :: "byte list \<Rightarrow> byte list" where
  "xattr_text value =
     (let text = strip_zero value; hex = ascii ''0x'' @ hex_bytes value in
      case utf8_chars text of
        Some cs \<Rightarrow> (if list_ex is_control cs then hex else [0x22] @ text @ [0x22])
      | None \<Rightarrow> hex)"

definition xattr_line :: "xattr \<Rightarrow> byte list" where
  "xattr_line x = xa_name x @ [0x3d] @ xattr_text (xa_value x)"

definition tree_line :: "walk_entry \<Rightarrow> byte list" where
  "tree_line e =
     [kind_char (stat_kind (we_stat e)), 0x20] @ digits 8 (st_mode (we_stat e) AND 0xfff) @ [0x20] @
     right_aligned 10 (st_size (we_stat e)) @ [0x20] @ we_path e"

definition extract_lines :: "extract_report \<Rightarrow> byte list list" where
  "extract_lines r =
     [dec (er_files r) @ ascii '' files ('' @ dec (er_bytes r) @ ascii '' bytes), '' @ dec (er_directories r) @
        ascii '' directories, '' @ dec (er_symlinks r) @ ascii '' symlinks, '' @ dec (er_hard_links r) @ ascii '' hard links''] @
     (if er_specials_skipped r \<noteq> [] then
        [dec (length (er_specials_skipped r)) @ ascii '' device nodes, FIFOs and sockets not created''] else []) @
     (if er_xattrs_skipped r > 0 then
        [dec (er_xattrs_skipped r) @ ascii '' extended attributes not applied (use `tar` to keep them)''] else [])"

definition tar_line :: "pack_report \<Rightarrow> byte list" where
  "tar_line r =
     dec (pr_files r) @ ascii '' files ('' @ dec (pr_bytes r) @ ascii '' bytes), '' @ dec (pr_directories r) @
     ascii '' directories, '' @ dec (pr_symlinks r) @ ascii '' symlinks, '' @ dec (pr_hard_links r) @ ascii '' hard links, '' @
     dec (pr_devices r) @ ascii '' devices, '' @ dec (pr_xattrs r) @ ascii '' xattrs''"

section \<open>Running a command\<close>

text \<open>
  The process's streams: what \<open>println!\<close> and \<open>eprintln!\<close> write to, the runtime's standard output, as it is
  and under \<open>BufWriter\<close>, and a \<open>BufWriter\<close> over a file just created.
\<close>

record 's console =
  co_out :: "byte list \<Rightarrow> ('s, unit) proc"
  co_err :: "byte list \<Rightarrow> ('s, unit) proc"
  co_stdout :: "'s async_write"
  co_buffered :: "'s async_write"
  co_file :: "nat \<Rightarrow> 's async_write"

definition or_panic :: "('s, unit) proc \<Rightarrow> ('s, unit) proc" where
  "or_panic m s = (case m s of (Err _, s') \<Rightarrow> (Panic, s') | r \<Rightarrow> r)"

definition println :: "'s console \<Rightarrow> byte list \<Rightarrow> ('s, unit) proc" where
  "println co line = or_panic (co_out co (line @ [0x0a]))"

definition eprintln :: "'s console \<Rightarrow> byte list \<Rightarrow> ('s, unit) proc" where
  "eprintln co line = or_panic (co_err co (line @ [0x0a]))"

text \<open>\<open>pack_tar_to\<close> into the writer, which it leaves behind with the result.\<close>

definition tar_into :: "'d device_ops \<Rightarrow> 'd volume \<Rightarrow> byte list \<Rightarrow> 's async_write \<Rightarrow> ('s, pack_report) lproc" where
  "tar_into ops v root aw s = map_option (\<lambda>(r, k). (r, io_into_inner k)) (pack_tar_to ops (io_sink aw) v (io_new s) root)"

definition run_cmd :: "'d device_ops \<Rightarrow> 's host_fs \<Rightarrow> 's console \<Rightarrow> byte list \<Rightarrow> 'd volume \<Rightarrow> cmd \<Rightarrow> ('s, unit) lproc" where
  "run_cmd ops fs co why v c =
     (case c of
        Info \<Rightarrow> once (for_each (\<lambda>l. seq (lift l) (println co)) (info_lines why v))
      | Ls path \<Rightarrow>
          once (seq (lift (read_dir ops v path)) (\<lambda>es. for_each (println co) (map ls_line (sort_key en_raw_name es))))
      | Stat path \<Rightarrow> once (seq (lift (stat ops v path)) (\<lambda>st. for_each (println co) (stat_lines st)))
      | Cat path \<Rightarrow>
          once (seq (lift (read_file ops v path)) (\<lambda>bytes.
          seq (aw_write_all (co_stdout co) bytes) (\<lambda>_. aw_flush (co_stdout co))))
      | Readlink path \<Rightarrow> once (seq (lift (read_link ops v path)) (println co))
      | Xattrs path \<Rightarrow> once (seq (lift (list_xattrs ops v path)) (\<lambda>xs. for_each (println co) (map xattr_line xs)))
      | Tree path \<Rightarrow> once (seq (lift (walk ops v path)) (\<lambda>es. for_each (println co) (map tree_line es)))
      | ExtractTo dest root owner \<Rightarrow>
          lseq (extract_tree ops fs v root dest \<lparr>eo_owner = owner\<rparr>) (\<lambda>r. once (for_each (eprintln co) (extract_lines r)))
      | Tar output root \<Rightarrow>
          lseq (case output of
              Some p \<Rightarrow> lseq (once (fs_create fs p)) (\<lambda>f. tar_into ops v root (co_file co f))
            | None \<Rightarrow> tar_into ops v root (co_buffered co))
            (\<lambda>r. once (eprintln co (tar_line r))))"

definition fio_xfs :: "'f os_file \<Rightarrow> 's host_fs \<Rightarrow> 's console \<Rightarrow> byte list \<Rightarrow> cli \<Rightarrow> ('s, unit) lproc" where
  "fio_xfs os fs co why cli =
     lseq (once (lift (file_open os (c_image cli)))) (\<lambda>dev.
     let ops = file_ops os in
     lseq (once (lift (if c_norecovery cli then open_norecovery ops dev else open_volume ops dev))) (\<lambda>v.
     lseq (once (if \<not> is_clean (v_log v) \<and> c_cmd cli \<noteq> Info
        then eprintln co (ascii ''fio-xfs: warning: log '' @ log_text why (v_log v)) else ret ())) (\<lambda>_.
     run_cmd ops fs co why v (c_cmd cli))))"

section \<open>What the streams get\<close>

text \<open>
  Streams as the runtime documents them. A write may be held back: what is \<open>out\<close> and what is
  pending, \<open>held\<close>, are together what was, and the new bytes; only a flush puts all of it out. The
  runtime's standard output and a \<open>BufWriter\<close> over it each hold back bytes of their own, while
  \<open>println!\<close> shows a line when it ends and \<open>eprintln!\<close> changes none of it. Dropping a stream puts
  out nothing.
\<close>

definition buffers :: "'s async_write \<Rightarrow> ('s \<Rightarrow> byte list) \<Rightarrow> ('s \<Rightarrow> byte list) \<Rightarrow> bool" where
  "buffers aw out held \<longleftrightarrow>
     (\<forall>buf s. \<exists>s'. aw_write_all aw buf s = (Ok (), s') \<and> out s' @ held s' = out s @ held s @ buf) \<and>
     (\<forall>s. \<exists>s'. aw_flush aw s = (Ok (), s') \<and> out s' = out s @ held s \<and> held s' = [])"

definition terminal :: "'s console \<Rightarrow> ('s \<Rightarrow> byte list) \<Rightarrow> ('s \<Rightarrow> byte list) \<Rightarrow> ('s \<Rightarrow> byte list) \<Rightarrow> bool" where
  "terminal co out held bheld \<longleftrightarrow>
     (\<forall>line s. \<exists>s'. co_out co (line @ [0x0a]) s = (Ok (), s') \<and> out s' = out s @ line @ [0x0a]) \<and>
     (\<forall>line s. \<exists>s'. co_err co line s = (Ok (), s') \<and> out s' = out s) \<and>
     buffers (co_stdout co) out held \<and> buffers (co_buffered co) out bheld"

text \<open>A created file, under its \<open>BufWriter\<close>; the report on standard error does not reach it.\<close>

definition file_stream :: "'s console \<Rightarrow> nat \<Rightarrow> ('s \<Rightarrow> byte list) \<Rightarrow> ('s \<Rightarrow> byte list) \<Rightarrow> bool" where
  "file_stream co f content held \<longleftrightarrow>
     (\<forall>line s. \<exists>s'. co_err co line s = (Ok (), s') \<and> content s' = content s) \<and> buffers (co_file co f) content held"

lemma buffers_collecting:
  assumes "buffers aw out held"
  shows "collecting_sink (io_sink aw) (\<lambda>k. out (io_inner k) @ held (io_inner k))"
proof
  fix buf and k :: "'a io"
  obtain s where "aw_write_all aw buf (io_inner k) = (Ok (), s)" "out s @ held s = out (io_inner k) @ held (io_inner k) @ buf"
    using assms unfolding buffers_def by blast
  then show "\<exists>k'. sk_write_all (io_sink aw) buf k = (Ok (), k') \<and>
      out (io_inner k') @ held (io_inner k') = (out (io_inner k) @ held (io_inner k)) @ buf"
    by (simp add: io_sink_def)
  obtain s where "aw_flush aw (io_inner k) = (Ok (), s)" "out s = out (io_inner k) @ held (io_inner k)" "held s = []"
    using assms unfolding buffers_def by blast
  then show "\<exists>k'. sk_flush (io_sink aw) k = (Ok (), k') \<and>
      out (io_inner k') @ held (io_inner k') = out (io_inner k) @ held (io_inner k)"
    by (simp add: io_sink_def)
qed

text \<open>After a flush that succeeded nothing is held back.\<close>

lemma flushed: "buffers aw out held \<Longrightarrow> aw_flush aw s = (Ok (), s') \<Longrightarrow> held s' = []"
  unfolding buffers_def by (metis prod.inject)

lemma tar_into_out:
  assumes "buffers aw out held" and "pack_tar ops v root = Some (Ok bytes)"
  shows "\<exists>r s'. tar_into ops v root aw s = Some (Ok r, s') \<and> out s' = out s @ held s @ bytes"
proof -
  obtain r where "pack_tar_to ops vec_sink v [] root = Some (Ok r, bytes)"
    using assms(2) unfolding pack_tar_bytes by (auto simp: res_simps)
  then obtain k where k: "pack_tar_to ops (io_sink aw) v (io_new s) root = Some (Ok r, k)"
    "out (io_inner k) @ held (io_inner k) = (out s @ held s) @ bytes"
    using collecting_sink.pack_tar_to_same [OF buffers_collecting [OF assms(1)], of "io_new s" ops v root]
    by (auto simp: option_rel_Some2 io_new_def)
  obtain k0 where "sk_flush (io_sink aw) k0 = (Ok (), k)" using pack_tar_to_flushes [OF k(1)] .
  then have "held (io_inner k) = []" using flushed [OF assms(1)] by (auto simp: io_sink_def split: prod.splits)
  then show ?thesis using k by (simp add: tar_into_def io_into_inner_def)
qed

definition lines_of :: "byte list list \<Rightarrow> byte list" where
  "lines_of ls = concat (map (\<lambda>l. l @ [0x0a]) ls)"

lemma println_out:
  assumes "terminal co out held bheld"
  shows "\<exists>s'. println co line s = (Ok (), s') \<and> out s' = out s @ line @ [0x0a]"
proof -
  obtain s' where "co_out co (line @ [0x0a]) s = (Ok (), s')" "out s' = out s @ line @ [0x0a]"
    using assms unfolding terminal_def by blast
  then show ?thesis by (simp add: println_def or_panic_def)
qed

lemma eprintln_out:
  assumes "terminal co out held bheld"
  shows "\<exists>s'. eprintln co line s = (Ok (), s') \<and> out s' = out s"
proof -
  obtain s' where "co_err co (line @ [0x0a]) s = (Ok (), s')" "out s' = out s"
    using assms unfolding terminal_def by blast
  then show ?thesis by (simp add: eprintln_def or_panic_def)
qed

lemma println_lines:
  assumes "terminal co out held bheld"
  shows "\<exists>s'. for_each (println co) ls s = (Ok (), s') \<and> out s' = out s @ lines_of ls"
proof (induction ls arbitrary: s)
  case (Cons l ls)
  obtain s1 where s1: "println co l s = (Ok (), s1)" "out s1 = out s @ l @ [0x0a]" using println_out [OF assms] by blast
  obtain s2 where "for_each (println co) ls s1 = (Ok (), s2)" "out s2 = out s1 @ lines_of ls" using Cons.IH by blast
  with s1 show ?case by (simp add: seq_def lines_of_def)
qed (simp add: ret_def lines_of_def)

lemma cat_out:
  assumes "terminal co out held bheld" and "read_file ops v path = Ok bytes"
  shows "\<exists>s'. run_cmd ops fs co why v (Cat path) s = Some (Ok (), s') \<and> out s' = out s @ held s @ bytes"
proof -
  have aw: "buffers (co_stdout co) out held" using assms(1) by (simp add: terminal_def)
  obtain s1 where s1: "aw_write_all (co_stdout co) bytes s = (Ok (), s1)" "out s1 @ held s1 = out s @ held s @ bytes"
    using aw unfolding buffers_def by blast
  obtain s2 where "aw_flush (co_stdout co) s1 = (Ok (), s2)" "out s2 = out s1 @ held s1"
    using aw unfolding buffers_def by blast
  with s1 assms(2) show ?thesis by (simp add: run_cmd_def once_def seq_def lift_def)
qed

lemma ls_out:
  assumes "terminal co out held bheld" and "read_dir ops v path = Ok es"
  shows "\<exists>s'. run_cmd ops fs co why v (Ls path) s = Some (Ok (), s') \<and> out s' = out s @ lines_of (map ls_line (sort_key en_raw_name es))"
  using println_lines [OF assms(1)] assms(2) by (simp add: run_cmd_def once_def seq_def lift_def)

lemma tar_out:
  assumes "terminal co out held bheld" and "pack_tar ops v root = Some (Ok bytes)"
  shows "\<exists>s'. run_cmd ops fs co why v (Tar None root) s = Some (Ok (), s') \<and> out s' = out s @ bheld s @ bytes"
proof -
  have b: "buffers (co_buffered co) out bheld" using assms(1) by (simp add: terminal_def)
  obtain r s1 where s1: "tar_into ops v root (co_buffered co) s = Some (Ok r, s1)" "out s1 = out s @ bheld s @ bytes"
    using tar_into_out [OF b assms(2), of s] by blast
  obtain s2 where "eprintln co (tar_line r) s1 = (Ok (), s2)" "out s2 = out s1" using eprintln_out [OF assms(1)] by blast
  with s1 show ?thesis by (simp add: run_cmd_def lseq_def once_def)
qed

lemma tar_file:
  assumes "file_stream co f content fheld" and "pack_tar ops v root = Some (Ok bytes)" and "fs_create fs p s = (Ok f, s1)"
  shows "\<exists>s'. run_cmd ops fs co why v (Tar (Some p) root) s = Some (Ok (), s') \<and> content s' = content s1 @ fheld s1 @ bytes"
proof -
  have b: "buffers (co_file co f) content fheld" using assms(1) by (simp add: file_stream_def)
  obtain r s2 where s2: "tar_into ops v root (co_file co f) s1 = Some (Ok r, s2)" "content s2 = content s1 @ fheld s1 @ bytes"
    using tar_into_out [OF b assms(2), of s1] by blast
  obtain s3 where "co_err co (tar_line r @ [0x0a]) s2 = (Ok (), s3)" "content s3 = content s2"
    using assms(1) unfolding file_stream_def by blast
  with s2 assms(3) show ?thesis by (simp add: run_cmd_def lseq_def once_def eprintln_def or_panic_def)
qed

section \<open>Characters\<close>

lemma utf8_chars_append:
  "utf8_chars a = Some cs \<Longrightarrow> utf8_chars (a @ b) = map_option ((@) cs) (utf8_chars b)"
proof (induction a arbitrary: cs rule: utf8_chars.induct)
  case (1 a)
  show ?case
  proof (cases "a = []")
    case True
    then have "cs = []" using 1(2) by (simp add: utf8_chars.simps)
    then show ?thesis using True by (simp add: option.map_ident [unfolded id_def])
  next
    case False
    obtain n valid where s: "utf8_step a = (n, valid)" by (cases "utf8_step a")
    then have v: valid using 1(2) False by (simp add: utf8_chars.simps [of a] split: if_splits)
    then obtain cs' where cs': "utf8_chars (drop n a) = Some cs'" "cs = take n a # cs'"
      using 1(2) s False by (auto simp: utf8_chars.simps [of a])
    have "n \<le> length a" "utf8_step (take n a @ (drop n a @ b)) = (n, True)"
      using utf8_step_true [of a n] s v False by simp_all
    then have n: "n \<le> length a" "utf8_step (a @ b) = (n, True)" by (simp, metis append.assoc append_take_drop_id)
    have "utf8_chars (a @ b) = map_option ((#) (take n a)) (utf8_chars (drop n a @ b))"
      using n False by (simp add: utf8_chars.simps [of "a @ b"])
    also have "utf8_chars (drop n a @ b) = map_option ((@) cs') (utf8_chars b)" using 1(1) s v False cs'(1) by simp
    finally show ?thesis using cs'(2) by (simp add: option.map_comp comp_def)
  qed
qed

lemma utf8_chars_ascii: "list_all (\<lambda>b. unat b < 0x80) bs \<Longrightarrow> utf8_chars bs = Some (map (\<lambda>b. [b]) bs)"
proof (induction bs)
  case (Cons b bs)
  then have "utf8_step (b # bs) = (1, True)" by (simp add: utf8_step_def byte_or_0_def utf8_width_def)
  then show ?case using Cons by (simp add: utf8_chars.simps [of "b # bs"])
qed (simp add: utf8_chars.simps)

section \<open>Shown values\<close>

text \<open>Reading a shown value: what is between the quotes, or the bytes in hexadecimal.\<close>

definition hex_val :: "byte \<Rightarrow> nat" where
  "hex_val c = (if unat c < 58 then unat c - 48 else unat c - 87)"

fun from_hex :: "byte list \<Rightarrow> byte list" where
  "from_hex (a # b # xs) = word_of_nat (16 * hex_val a + hex_val b) # from_hex xs"
| "from_hex _ = []"

definition shown_value :: "byte list \<Rightarrow> byte list" where
  "shown_value t = (if take 1 t = [0x22] then butlast (tl t) else from_hex (drop 2 t))"

lemma hex_digit_unat: "n < 16 \<Longrightarrow> unat (hex_digit n) = (if n < 10 then 48 + n else 87 + n)"
  by (simp add: hex_digit_def unat_of_nat)

lemma hex_val_digit [simp]: "n < 16 \<Longrightarrow> hex_val (hex_digit n) = n"
  by (simp add: hex_val_def hex_digit_unat)

lemma byte_halves [simp]: "unat (b :: byte) div 16 < 16" "unat (b :: byte) mod 16 < 16"
  using unsigned_less [of b, where ?'a = nat] by (simp_all add: div_less_iff_less_mult)

lemma from_hex_bytes: "from_hex (hex_bytes bs) = bs"
  by (induction bs) (simp_all add: hex_bytes_def)

lemma hex_digit_printable: "n < 16 \<Longrightarrow> 0x20 \<le> unat (hex_digit n) \<and> unat (hex_digit n) < 0x7f"
  by (simp add: hex_digit_unat)

lemma hex_bytes_printable: "list_all (\<lambda>c. 0x20 \<le> unat c \<and> unat c < 0x7f) (hex_bytes bs)"
  by (induction bs) (simp_all add: hex_bytes_def hex_digit_printable [simplified])

lemma printable_chars:
  assumes "list_all (\<lambda>c. 0x20 \<le> unat c \<and> unat c < 0x7f) bs"
  shows "utf8_chars bs = Some (map (\<lambda>b. [b]) bs)" and "\<not> list_ex is_control (map (\<lambda>b. [b]) bs)"
proof -
  show "utf8_chars bs = Some (map (\<lambda>b. [b]) bs)"
    using assms by (intro utf8_chars_ascii) (auto simp: list_all_iff)
  show "\<not> list_ex is_control (map (\<lambda>b. [b]) bs)"
    using assms by (fastforce simp: list_all_iff list_ex_iff is_control_def)
qed

lemma xattr_text_hex:
  "\<exists>cs. utf8_chars (ascii ''0x'' @ hex_bytes bs) = Some cs \<and> \<not> list_ex is_control cs"
  "shown_value (ascii ''0x'' @ hex_bytes bs) = bs"
proof -
  have "list_all (\<lambda>c. 0x20 \<le> unat c \<and> unat c < 0x7f) (ascii ''0x'' @ hex_bytes bs)"
    using hex_bytes_printable by (simp add: ascii_def)
  then show "\<exists>cs. utf8_chars (ascii ''0x'' @ hex_bytes bs) = Some cs \<and> \<not> list_ex is_control cs"
    using printable_chars by blast
  show "shown_value (ascii ''0x'' @ hex_bytes bs) = bs" by (simp add: shown_value_def ascii_def from_hex_bytes)
qed

lemma xattr_text_quoted:
  assumes "utf8_chars text = Some cs" and "\<not> list_ex is_control cs"
  shows "\<exists>cs. utf8_chars ([0x22] @ text @ [0x22]) = Some cs \<and> \<not> list_ex is_control cs"
proof -
  have q: "utf8_chars [0x22] = Some [[0x22]]" "\<not> is_control [0x22]"
    using utf8_chars_ascii [of "[0x22]"] by (simp_all add: is_control_def)
  have "utf8_chars ([0x22] @ text @ [0x22]) = Some ([[0x22]] @ cs @ [[0x22]])"
    using utf8_chars_append [OF q(1), of "text @ [0x22]"] utf8_chars_append [OF assms(1), of "[0x22]"] q(1) by simp
  then show ?thesis using assms(2) q(2) by simp
qed

section \<open>Properties\<close>

text \<open>
  C40. The value of an extended attribute is shown so that it is safe on a terminal and can be
  read back: the text after the name is valid UTF-8 without any control character (no line
  break in particular), and it determines the value, up to the one zero at its end that a
  quoted text drops.
\<close>

theorem xattr_text_read_back:
  "(\<exists>cs. utf8_chars (xattr_text value) = Some cs \<and> \<not> list_ex is_control cs) \<and>
   shown_value (xattr_text value) \<in> {value, strip_zero value}"
proof -
  let ?text = "strip_zero value"
  consider cs where "utf8_chars ?text = Some cs" "\<not> list_ex is_control cs" "xattr_text value = [0x22] @ ?text @ [0x22]"
    | "xattr_text value = ascii ''0x'' @ hex_bytes value"
    by (cases "utf8_chars ?text"; cases "list_ex is_control (the (utf8_chars ?text))") (auto simp: xattr_text_def Let_def)
  then show ?thesis
  proof cases
    case 1
    have "shown_value ([0x22] @ ?text @ [0x22]) = ?text" by (simp add: shown_value_def)
    then show ?thesis unfolding 1(3) using xattr_text_quoted [OF 1(1,2)] by simp
  next
    case 2
    then show ?thesis unfolding 2 using xattr_text_hex by simp
  qed
qed

text \<open>
  A filesystem that was not cleanly unmounted is not read by accident: without
  \<open>--norecovery\<close>, an image whose log is dirty or unreadable ends every command with an error
  before anything is printed and before any file of the host is touched; with it, or with an external
  log, every command but \<open>info\<close> first warns on standard error, naming the state of the log,
  and then runs on the volume as it stands on disk.
\<close>

lemma unclean_log_guard:
  assumes "file_open os (c_image cli) = Ok dev" and "open_norecovery (file_ops os) dev = Ok v" and "\<not> is_clean (v_log v)"
  shows "(\<not> c_norecovery cli \<longrightarrow> v_log v \<noteq> External \<longrightarrow> (\<exists>e. fio_xfs os fs co why cli s = Some (Err e, s))) \<and>
    (c_norecovery cli \<or> v_log v = External \<longrightarrow> c_cmd cli \<noteq> Info \<longrightarrow>
     eprintln co (ascii ''fio-xfs: warning: log '' @ log_text why (v_log v)) s = (Ok (), s') \<longrightarrow>
     fio_xfs os fs co why cli s = run_cmd (file_ops os) fs co why v (c_cmd cli) s')"
  using assms by (cases "v_log v") (simp_all add: fio_xfs_def open_volume_def lseq_def once_def lift_def is_clean_def Let_def)

text \<open>
  C19. What the streams get, although they hold bytes back until a flush: when a command returns,
  \<open>cat\<close> has put out the file's bytes and nothing else, \<open>tar\<close> without an output file exactly the
  archive \<open>pack_tar\<close> returns (its report goes to standard error), and \<open>ls\<close> one line for each entry of
  the directory, in the order of the names' bytes; \<open>tar\<close> with an output file leaves exactly the
  archive in the file it has created.
\<close>

theorem command_output:
  assumes "terminal co out held bheld" and "held s = []" and "bheld s = []"
  shows "(\<forall>bytes. read_file ops v path = Ok bytes \<longrightarrow>
      (\<exists>s'. run_cmd ops fs co why v (Cat path) s = Some (Ok (), s') \<and> out s' = out s @ bytes)) \<and>
    (\<forall>bytes. pack_tar ops v path = Some (Ok bytes) \<longrightarrow>
      (\<exists>s'. run_cmd ops fs co why v (Tar None path) s = Some (Ok (), s') \<and> out s' = out s @ bytes)) \<and>
    (\<forall>es. read_dir ops v path = Ok es \<longrightarrow>
      (\<exists>s' shown. run_cmd ops fs co why v (Ls path) s = Some (Ok (), s') \<and> out s' = out s @ lines_of (map ls_line shown) \<and>
         mset shown = mset es \<and> sorted_wrt (\<le>) (map en_raw_name shown))) \<and>
    (\<forall>bytes p f s1 content fheld. pack_tar ops v path = Some (Ok bytes) \<longrightarrow> file_stream co f content fheld \<longrightarrow>
      fs_create fs p s = (Ok f, s1) \<longrightarrow> content s1 = [] \<and> fheld s1 = [] \<longrightarrow>
      (\<exists>s'. run_cmd ops fs co why v (Tar (Some p) path) s = Some (Ok (), s') \<and> content s' = bytes))"
proof (intro conjI allI impI)
  fix es assume "read_dir ops v path = Ok es"
  then obtain s' where "run_cmd ops fs co why v (Ls path) s = Some (Ok (), s')"
    "out s' = out s @ lines_of (map ls_line (sort_key en_raw_name es))" using ls_out [OF assms(1)] by blast
  then show "\<exists>s' shown. run_cmd ops fs co why v (Ls path) s = Some (Ok (), s') \<and> out s' = out s @ lines_of (map ls_line shown) \<and>
      mset shown = mset es \<and> sorted_wrt (\<le>) (map en_raw_name shown)"
    by (intro exI [of _ s'] exI [of _ "sort_key en_raw_name es"]) simp
next
  fix bytes p f s1 content fheld
  assume f: "pack_tar ops v path = Some (Ok bytes)" "file_stream co f content fheld" "fs_create fs p s = (Ok f, s1)"
    "content s1 = [] \<and> fheld s1 = []"
  show "\<exists>s'. run_cmd ops fs co why v (Tar (Some p) path) s = Some (Ok (), s') \<and> content s' = bytes"
    using tar_file [OF f(2,1,3)] f(4) by simp
qed (use cat_out [OF assms(1), of ops v path _ fs why s] tar_out [OF assms(1), of ops v path _ fs why s] assms(2,3) in simp_all)

text \<open>Streams that hold everything back until they are flushed, and one file.\<close>

record streams =
  shown :: "byte list"
  held_back :: "byte list"
  held_buffered :: "byte list"
  on_error :: "byte list"
  in_file :: "byte list"
  held_file :: "byte list"

definition demo_console :: "streams console" where
  "demo_console =
     \<lparr>co_out = (\<lambda>b s. (Ok (), s\<lparr>shown := shown s @ b\<rparr>)), co_err = (\<lambda>b s. (Ok (), s\<lparr>on_error := on_error s @ b\<rparr>)),
      co_stdout = \<lparr>aw_write_all = (\<lambda>b s. (Ok (), s\<lparr>held_back := held_back s @ b\<rparr>)),
        aw_flush = (\<lambda>s. (Ok (), s\<lparr>shown := shown s @ held_back s, held_back := []\<rparr>))\<rparr>,
      co_buffered = \<lparr>aw_write_all = (\<lambda>b s. (Ok (), s\<lparr>held_buffered := held_buffered s @ b\<rparr>)),
        aw_flush = (\<lambda>s. (Ok (), s\<lparr>shown := shown s @ held_buffered s, held_buffered := []\<rparr>))\<rparr>,
      co_file = (\<lambda>_. \<lparr>aw_write_all = (\<lambda>b s. (Ok (), s\<lparr>held_file := held_file s @ b\<rparr>)),
        aw_flush = (\<lambda>s. (Ok (), s\<lparr>in_file := in_file s @ held_file s, held_file := []\<rparr>))\<rparr>)\<rparr>"

definition no_streams :: streams where
  "no_streams = \<lparr>shown = [], held_back = [], held_buffered = [], on_error = [], in_file = [], held_file = []\<rparr>"

lemma demo_terminal: "terminal demo_console shown held_back held_buffered" "file_stream demo_console 3 in_file held_file"
  by (simp_all add: terminal_def file_stream_def demo_console_def buffers_def)

theorem command_output_witness:
  "\<forall>fs. (\<exists>s'. run_cmd mem_ops fs demo_console [] tiny_vol (Tar None [0x2f]) no_streams = Some (Ok (), s') \<and> shown s' = replicate 1024 0) \<and>
     (\<exists>s'. run_cmd mem_ops (fs\<lparr>fs_create := \<lambda>p. ret 3\<rparr>) demo_console [] tiny_vol (Tar (Some [0x61]) [0x2f]) no_streams = Some (Ok (), s') \<and>
        in_file s' = replicate 1024 0)"
proof
  fix fs :: "streams host_fs"
  let ?fs = "fs\<lparr>fs_create := \<lambda>p. ret 3\<rparr>"
  have p: "pack_tar mem_ops tiny_vol [0x2f] = Some (Ok (replicate 1024 0))" unfolding pack_tar_bytes tiny_tar by simp
  have empty: "held_back no_streams = []" "held_buffered no_streams = []" "in_file no_streams = [] \<and> held_file no_streams = []"
    "shown no_streams = []" by (simp_all add: no_streams_def)
  note out = command_output [OF demo_terminal(1) empty(1,2), of mem_ops tiny_vol "[0x2f]" _ "[]"]
  have c: "fs_create ?fs [0x61] no_streams = (Ok 3, no_streams)" by (simp add: ret_def)
  show "(\<exists>s'. run_cmd mem_ops fs demo_console [] tiny_vol (Tar None [0x2f]) no_streams = Some (Ok (), s') \<and> shown s' = replicate 1024 0) \<and>
     (\<exists>s'. run_cmd mem_ops ?fs demo_console [] tiny_vol (Tar (Some [0x61]) [0x2f]) no_streams = Some (Ok (), s') \<and> in_file s' = replicate 1024 0)"
  proof
    show "\<exists>s'. run_cmd mem_ops fs demo_console [] tiny_vol (Tar None [0x2f]) no_streams = Some (Ok (), s') \<and> shown s' = replicate 1024 0"
      using out [of fs, THEN conjunct2, THEN conjunct1, rule_format, OF p] by (simp add: empty(4))
    show "\<exists>s'. run_cmd mem_ops ?fs demo_console [] tiny_vol (Tar (Some [0x61]) [0x2f]) no_streams = Some (Ok (), s') \<and> in_file s' = replicate 1024 0"
      by (rule out [of ?fs, THEN conjunct2, THEN conjunct2, THEN conjunct2, rule_format, OF p demo_terminal(2) c empty(3)])
  qed
qed

text \<open>An image whose internal log has no blocks.\<close>

definition broken_os :: "byte list os_file" where
  "broken_os = \<lparr>os_open = (\<lambda>path w. Ok (v4_sector 0 1 @ replicate 65024 0)), os_seek_end = (\<lambda>f. Ok (length f)),
     os_read = get, os_write = copy_in, os_sync = Ok\<rparr>"

lemma broken_opens:
  "\<exists>dev v. file_open broken_os [] = Ok dev \<and> open_norecovery (file_ops broken_os) dev = Ok v \<and> v_log v = Unreadable"
proof -
  obtain sb where sb: "parse_sb (v4_sector 0 1) = Ok sb" "sb_block_size sb = 4096" "sb_data_blocks sb = 16"
    "sb_log_start sb = 1" "sb_log_blocks sb = 0" "rd16 (v4_sector 0 1) 102 = 512"
    using parse_v4_sector [of 0 1] by auto
  let ?c = "v4_sector 0 1 @ replicate 65024 0" let ?dev = "\<lparr>fd_file = ?c, fd_size = 65536, fd_writable = False\<rparr>"
  have len: "length (v4_sector 0 1) = 512" by (rule v4_sector_length)
  then have "file_open broken_os [] = Ok ?dev" by (simp add: file_open_def file_open_with_def broken_os_def)
  moreover have "dev_read_at (file_ops broken_os) ?dev 0 512 = Ok (v4_sector 0 1)"
    using len by (simp add: file_ops_def file_read_at_def check_range_def check_range_for_def broken_os_def seg_def)
  moreover have "dev_size (file_ops broken_os) ?dev = 65536" by (simp add: file_ops_def)
  ultimately show ?thesis
    using sb len by (simp add: open_norecovery_def state_def has_external_log_def)
qed

lemma unclean_log_guard_witness:
  "\<forall>fs co s. \<exists>e. fio_xfs broken_os fs co [] \<lparr>c_image = [], c_norecovery = False, c_cmd = Ls [0x2f]\<rparr> s = Some (Err e, s)"
proof (intro allI)
  fix fs :: "'a host_fs" and co s
  obtain dev v where "file_open broken_os [] = Ok dev" "open_norecovery (file_ops broken_os) dev = Ok v" "v_log v = Unreadable"
    using broken_opens by blast
  then show "\<exists>e. fio_xfs broken_os fs co [] \<lparr>c_image = [], c_norecovery = False, c_cmd = Ls [0x2f]\<rparr> s = Some (Err e, s)"
    using unclean_log_guard [of broken_os "\<lparr>c_image = [], c_norecovery = False, c_cmd = Ls [0x2f]\<rparr>" dev v fs co "[]" s]
    by (simp add: is_clean_def)
qed

end
