(* ===== verification/Spec2Isabelle.thy ===== *)
theory Spec2Isabelle
  imports AgRebuild DirWrite WriteGuard WriteAlloc WriteData WriteInode WriteLink Extract Cli
begin

text \<open>
  A verification of fio.xfs, a reader and writer of XFS filesystems in user space.

  \<^bold>\<open>The program.\<close> A \<open>Volume\<close> is opened on a \<open>BlockDevice\<close> (a file, or memory): the superblock is
  parsed and checked, and the log is searched, because a filesystem with changes still in its log
  may be read only on request and never written. Reading turns inode numbers into addresses,
  parses inodes, follows extent maps (inline or trees) to blocks, and decodes directories, symbolic
  links and extended attributes; paths and walks are built on top, and the export packs a walk into
  a tar archive or copies it to the host. Writing keeps each allocation group it touches in memory
  (free extents, reverse mappings, inode chunks) and each directory it changes as a map of names;
  file data, inodes and symbolic links go to the device at once, and \<open>flush\<close> lays out the changed
  directories, rebuilds the trees of every changed group and updates the superblock. The command line
  tool opens an image for reading and prints or exports what is in it.

  \<^bold>\<open>How the theories follow it\<close> (paths are under \<open>src/src\<close>; each definition has the name of the
  function it translates, with a suffix where that name is taken; a loop or a block of a long
  function is a definition of its own).

  \<^item> \<open>Prelude\<close>: \<open>error.rs\<close>. The result type \<open>res\<close> has the values \<open>Ok\<close>, \<open>Err\<close> (the variant of \<open>Error\<close>,
    without its text) and \<open>Panic\<close>, for an index out of range, a failed assertion or an arithmetic
    operation that overflows with checks on; \<open>and_then\<close> is the question mark. Checked reading,
    copying and patching of byte lists. \<open>Bytes\<close>: \<open>bytes.rs\<close>. \<open>Strings\<close>: what the code uses of the standard
    library on strings (lossy UTF-8, splitting). \<open>OrdMap\<close>: \<open>BTreeMap\<close> as a sorted association list, and the
    methods of a \<open>&mut self\<close> as functions from a state to a result and a state, which is kept also
    when the result is an error.
  \<^item> \<open>Crc\<close>: \<open>crc.rs\<close>. \<open>Device\<close>: \<open>device.rs\<close>; a device is a record of its operations over a state, and the
    locale \<open>block_device\<close> is its contract, which the in-memory device provides, and a file opened for writing
    and a boxed device too; the operating system's file is a record of operations. \<open>Superblock\<close>:
    \<open>sb.rs\<close>. \<open>Inode\<close>: \<open>inode.rs\<close> and the edits of raw inodes in \<open>write.rs\<close>.
  \<^item> \<open>Bmap\<close>: \<open>bmap.rs\<close>. \<open>Btree\<close>: \<open>btree.rs\<close>. \<open>AgWalk\<close>: the walk over the trees of a group in \<open>alloc.rs\<close>.
  \<^item> \<open>Alloc\<close> and \<open>AgInodes\<close>: the allocator of a group in \<open>alloc.rs\<close>; \<open>AgDisk\<close> and \<open>AgRebuild\<close>: \<open>load\<close> and \<open>rebuild\<close>,
    which read a group from its trees and lay them out again.
  \<^item> \<open>Log\<close>: \<open>log.rs\<close>. \<open>Dir\<close>: \<open>dir.rs\<close>. \<open>DirWrite\<close>: \<open>dirwrite.rs\<close>. \<open>Attr\<close>: \<open>attr.rs\<close>. \<open>Tar\<close>: \<open>tar.rs\<close>.
  \<^item> \<open>Volume\<close> and \<open>Paths\<close>: \<open>volume.rs\<close>. \<open>Export\<close>: \<open>export.rs\<close>, with \<open>Pack\<close> and \<open>Extract\<close> for what it
    produces and \<open>Sinks\<close> for where an archive goes (the locale \<open>collecting_sink\<close>); the host's filesystem is a record of
    the calls the code makes of it. \<open>Cli\<close>: \<open>bin/fio_xfs.rs\<close>, after the arguments are parsed, and the text of the log's state.
  \<^item> \<open>Write\<close> and \<open>WriteOps\<close>: \<open>write.rs\<close>; the clock is a parameter. \<open>WriteGuard\<close>, \<open>WriteNames\<close>,
    \<open>WriteAlloc\<close>, \<open>WriteData\<close>, \<open>WriteLink\<close> and \<open>WriteInode\<close> hold what is proved of it: when nothing may change, the names of
    directories, the allocation of blocks, file data, long symbolic links, and changes of an inode.

  \<^bold>\<open>State.\<close> The record \<open>volume\<close> has the device, the superblock, the state of the log, the writer (\<open>None\<close>
  until the first change) and the time set by the caller. The writer has the loaded groups, the changed directories, the
  generator of inode generations and a count of new chunks. Unsigned integers are natural numbers, with the
  wrap-around, the overflow panic or the truncating conversion written out where the
  code has one (\<open>add_w\<close>, \<open>sub_w\<close>, \<open>shl_w\<close>, \<open>mul_w\<close>, \<open>as_u32\<close>); checksums and bit masks are words.

  \<^bold>\<open>What is proved.\<close>

  \<^item> \<^emph>\<open>Checksums\<close>: the table-driven CRC32C is the remainder by the Castagnoli polynomial, defined by long division
    of lists of bits, and has the published check value; a stamped structure verifies and changing a byte is detected.
  \<^item> \<^emph>\<open>Addresses\<close>: a superblock that parses has a consistent geometry, and block numbers
    encode the blocks of the groups one to one, which lie apart and in range, and no other number is accepted; inode
    numbers are translated by the same arithmetic.
  \<^item> \<^emph>\<open>Structures written are read back\<close>: inodes and their edits, times, extent records, group trees of any height,
    directories in all four forms, whole groups (a rebuild followed by a load is the identity) and archives.
  \<^item> \<^emph>\<open>Parsers are safe\<close>: inodes, attributes and the log search return a value or an error on
    every input and what they accept is well formed; the directory block parser panics on one kind of bad
    block, which is proved too.
  \<^item> \<^emph>\<open>The allocator\<close>: an invariant kept by every operation, no block handed out twice, the exact
    effect of each operation on the set of free blocks and inodes, where a run is taken (the first extent long enough
    near a block, else the longest; the lowest aligned place), and a rebuild that accounts for every block of the
    group and succeeds when there is room.
  \<^item> \<^emph>\<open>The log\<close>: on a log of complete records the verdict is the right one, and the search always ends
    and reads nothing outside the log.
  \<^item> \<^emph>\<open>Reading\<close>: a range of a file gives the bytes the extent map gives; resolving a path is the relation
    that follows names and at most forty links; a walk ends and reports each directory once; packing
    the walk gives an archive with exactly its names but the sockets, their contents, and links that name earlier entries, the same over
    every sink; an extracted file holds its bytes.
  \<^item> \<^emph>\<open>Writing\<close>: a volume that must not be written is left as it is by nine operations that write; changing a
    directory updates exactly one name of the map that lookups read; allocating blocks gives as many as asked for or gives all back;
    file data, long link targets and changes of mode and owner are read back, and other inodes stay as they were.
  \<^item> \<^emph>\<open>The command line\<close>: an unclean log stops a command before it prints anything unless asked for; \<open>cat\<close>, \<open>tar\<close> and \<open>ls\<close> write
    exactly the file, the archive and one line per name; attribute values are shown without control characters. Standard output and a created file hold
    bytes back until they are flushed, so these theorems rest on the flushes of the code.

  \<^bold>\<open>Specifications.\<close> Each is independent of the code: division of polynomials over bits (\<open>crc_by_division\<close>), sets of free
  blocks (\<open>cover\<close>) and of free extents (\<open>first_fit\<close>, \<open>longest\<close>, \<open>fits_at\<close>), trees as
  lists of records on a device (\<open>AgWalk\<close>), a directory as its list of entries and as a map, a ring of log records, the relation \<open>follows\<close>
  for paths, the relation \<open>archive\<close> for packing, a reader of tar archives (\<open>untar\<close>), a device that
  panics on a read outside a range (\<open>reads_within\<close>), and streams that buffer (\<open>buffers\<close>).

  \<^bold>\<open>Bounds left out.\<close> The sum \<open>first % n + i\<close> of \<open>ag_order\<close>, of 32 bits, has no overflow panic: it could overflow only with
  more than \<open>2 ^ 31\<close> groups. Sums of a place and a length in a group are plain in the allocator, where the length of the
  group bounds them.

  \<^bold>\<open>Termination.\<close> Loops are recursive functions with a measure: the bytes left, the inodes not yet visited, the
  blocks not yet walked. Where the code bounds a loop itself (forty links, the depth of a tree, the rounds of
  \<open>settle\<close>), the bound is a counter with the code's value. The only loops that might not end are those over a file's bytes in \<open>Export\<close>, which
  are partial functions into an option; that they return is part of the theorems. \<open>alloc_fill\<close> and \<open>carve\<close> have fuel, the number of blocks
  wanted, and each round takes a block.

  \<^bold>\<open>Not modelled.\<close> The parsing of the arguments (left to a library), the examples and the tests; the texts of error messages, of which
  only the reason of an unreadable log is shown, as an argument of \<open>log_text\<close>; the names
  re-exported by \<open>lib.rs\<close>. Asynchronous functions are modelled as the sequence of their steps: a volume is borrowed
  exclusively while it changes, so they do not interleave.
\<close>

end
